(* ===== verification/Mps_Prelude.thy ===== *)
theory Mps_Prelude
  imports Main "HOL-Library.Word" "HOL-Library.Monad_Syntax"
begin

text \<open>
  Shared vocabulary of the development: machine words of the 32-bit platforms, the result
  codes of \<^verbatim>\<open>mps.h\<close>, assertions (\<^verbatim>\<open>AVER\<close>) as a failure of the option monad, and the two
  shapes of counted loop the sources use, with early exit as the left summand of a sum.
  The collection \<open>run_iff\<close> holds the rules that turn "this program returns that value" into
  conditions on its steps.
\<close>

unbundle bit_operations_syntax

named_theorems run_iff \<open>when a monadic program returns a given value\<close>

subsection \<open>Words and result codes\<close>

type_synonym mword = "32 word"

lemma unat_mword_less: "unat (w :: mword) < 2 ^ 32"
  using unsigned_less [of w, where ?'a = nat] by simp

lemma and_mask_mod: "unat (w AND mask k :: mword) = unat w mod 2 ^ k"
proof -
  have "unat (w AND mask k) = take_bit k (unat w)"
    by (simp only: take_bit_eq_mask [symmetric] unsigned_take_bit_eq)
  then show ?thesis by (simp only: take_bit_eq_mod)
qed

abbreviation (input) MPS_WORD_WIDTH :: nat where "MPS_WORD_WIDTH \<equiv> 32"

abbreviation (input) MPS_WORD_SHIFT :: nat where "MPS_WORD_SHIFT \<equiv> 5"

text \<open>The result codes, in the order of the enumeration in \<^verbatim>\<open>mps.h\<close>.\<close>

datatype Res =
    ResOK | ResFAIL | ResRESOURCE | ResMEMORY | ResLIMIT | ResUNIMPL | ResIO
  | ResCOMMIT_LIMIT | ResPARAM

subsection \<open>Assertions\<close>

text \<open>
  A program is a value of an option type: \<open>None\<close> is the failure of an assertion (or an
  undefined behaviour the sources never meant to reach), \<open>Some\<close> is a normal return.
\<close>

definition aver :: "bool \<Rightarrow> unit option" where
  "aver P = (if P then Some () else None)"

lemma aver_True [simp]: "aver True = Some ()"
  by (simp add: aver_def)

lemma aver_False [simp]: "aver False = None"
  by (simp add: aver_def)

lemma aver_eq_Some [simp, run_iff]: "aver P = Some u \<longleftrightarrow> P"
  by (simp add: aver_def)

lemma aver_bind: "(aver P \<bind> k) = (if P then k () else None)"
  by (simp add: aver_def)

lemma aver_bindI: "P \<Longrightarrow> (aver P \<bind> k) = k ()"
  by (simp add: aver_def)

lemma aver_bind_eq_Some [run_iff]: "(aver P \<bind> k) = Some x \<longleftrightarrow> P \<and> k () = Some x"
  by (simp add: aver_def)

lemmas option_bind_eq_Some [run_iff] = bind_eq_Some_conv

subsection \<open>Arrays\<close>

text \<open>An access outside the bounds of an array is \<open>None\<close>.\<close>

definition rd :: "'a list \<Rightarrow> nat \<Rightarrow> 'a option" where
  "rd xs i = (if i < length xs then Some (xs ! i) else None)"

definition wr :: "'a list \<Rightarrow> nat \<Rightarrow> 'a \<Rightarrow> 'a list option" where
  "wr xs i v = (if i < length xs then Some (xs[i := v]) else None)"

lemma rd_simps [simp]: "i < length xs \<Longrightarrow> rd xs i = Some (xs ! i)"
  by (simp add: rd_def)

lemma wr_simps [simp]: "i < length xs \<Longrightarrow> wr xs i v = Some (xs[i := v])"
  by (simp add: wr_def)

lemma rd_eq_Some [run_iff]: "rd xs i = Some v \<longleftrightarrow> i < length xs \<and> v = xs ! i"
  by (auto simp: rd_def)

lemma wr_eq_Some [run_iff]: "wr xs i v = Some ys \<longleftrightarrow> i < length xs \<and> ys = xs[i := v]"
  by (auto simp: wr_def)

subsection \<open>Counted loops with early exit\<close>

text \<open>
  \<open>for_up f i n s\<close> is \<^verbatim>\<open>for (; i < n; ++i) f(i)\<close> over a state, where the body may leave the
  enclosing function (\<^verbatim>\<open>return\<close> or \<^verbatim>\<open>goto\<close>) with a left value; \<open>for_down f n lo s\<close> is
  \<^verbatim>\<open>for (; n > lo; --n) f(n - 1)\<close>.
\<close>

definition andthen :: "'r + 's \<Rightarrow> ('s \<Rightarrow> 'r + 's) \<Rightarrow> 'r + 's" where
  "andthen m k = (case m of Inl r \<Rightarrow> Inl r | Inr s \<Rightarrow> k s)"

lemma andthen_simps [simp]:
  "andthen (Inl r) k = Inl r"
  "andthen (Inr s) k = k s"
  by (simp_all add: andthen_def)

lemma andthen_assoc: "andthen (andthen m f) g = andthen m (\<lambda>s. andthen (f s) g)"
  by (cases m) simp_all

lemma andthen_Inr [simp]: "andthen m Inr = m"
  by (cases m) simp_all

function for_up :: "(nat \<Rightarrow> 's \<Rightarrow> 'r + 's) \<Rightarrow> nat \<Rightarrow> nat \<Rightarrow> 's \<Rightarrow> 'r + 's" where
  "for_up f i n s = (if i < n then andthen (f i s) (for_up f (Suc i) n) else Inr s)"
  by pat_completeness auto
termination
  by (relation "measure (\<lambda>(f, i, n, s). n - i)") auto

function for_down :: "(nat \<Rightarrow> 's \<Rightarrow> 'r + 's) \<Rightarrow> nat \<Rightarrow> nat \<Rightarrow> 's \<Rightarrow> 'r + 's" where
  "for_down f n lo s = (if lo < n then andthen (f (n - 1) s) (for_down f (n - 1) lo) else Inr s)"
  by pat_completeness auto
termination
  by (relation "measure (\<lambda>(f, n, lo, s). n - lo)") auto

declare for_up.simps [simp del] for_down.simps [simp del]

lemma for_up_done [simp]: "n \<le> i \<Longrightarrow> for_up f i n s = Inr s"
  by (simp add: for_up.simps)

lemma for_up_step: "i < n \<Longrightarrow> for_up f i n s = andthen (f i s) (for_up f (Suc i) n)"
  by (simp add: for_up.simps)

lemma for_down_done [simp]: "n \<le> lo \<Longrightarrow> for_down f n lo s = Inr s"
  by (simp add: for_down.simps)

lemma for_down_step: "lo < n \<Longrightarrow> for_down f n lo s = andthen (f (n - 1) s) (for_down f (n - 1) lo)"
  by (simp add: for_down.simps)

lemma for_up_split:
  "i \<le> j \<Longrightarrow> j \<le> n \<Longrightarrow> for_up f i n s = andthen (for_up f i j s) (for_up f j n)"
proof (induction "j - i" arbitrary: i s)
  case 0
  then show ?case by simp
next
  case (Suc d)
  then have "i < j" by simp
  with Suc.prems have "i < n" by simp
  have "for_up f (Suc i) n = (\<lambda>s. andthen (for_up f (Suc i) j s) (for_up f j n))"
    using Suc.hyps(2) Suc.prems \<open>i < j\<close> by (intro ext Suc.hyps(1)) auto
  with \<open>i < j\<close> \<open>i < n\<close> show ?case
    by (simp add: for_up_step andthen_assoc)
qed

lemma for_down_split:
  "lo \<le> j \<Longrightarrow> j \<le> n \<Longrightarrow> for_down f n lo s = andthen (for_down f n j s) (for_down f j lo)"
proof (induction "n - j" arbitrary: n s)
  case 0
  then show ?case by simp
next
  case (Suc d)
  then have "j < n" by simp
  with Suc.prems have "lo < n" by simp
  have "for_down f (n - 1) lo = (\<lambda>s. andthen (for_down f (n - 1) j s) (for_down f j lo))"
    using Suc.hyps(2) Suc.prems \<open>j < n\<close> by (intro ext Suc.hyps(1)) auto
  with \<open>j < n\<close> \<open>lo < n\<close> show ?case
    by (simp add: for_down_step andthen_assoc)
qed

text \<open>Invariant rules: a loop whose body never leaves, and one whose body only tests.\<close>

lemma for_up_invariant:
  assumes "P i s" and "\<And>k s. i \<le> k \<Longrightarrow> k < n \<Longrightarrow> P k s \<Longrightarrow> \<exists>s'. f k s = Inr s' \<and> P (Suc k) s'"
    and "i \<le> n"
  shows "\<exists>s'. for_up f i n s = Inr s' \<and> P n s'"
  using assms
proof (induction "n - i" arbitrary: i s)
  case 0
  then show ?case by simp
next
  case (Suc d)
  then have "i < n" by simp
  with Suc.prems(1,2) obtain s' where s': "f i s = Inr s'" "P (Suc i) s'" by blast
  have "\<exists>s''. for_up f (Suc i) n s' = Inr s'' \<and> P n s''"
    using Suc.hyps(2) Suc.prems(2) \<open>i < n\<close> s'(2) by (intro Suc.hyps(1)) auto
  with s'(1) \<open>i < n\<close> show ?case by (simp add: for_up_step)
qed

lemma for_up_find:
  "for_up (\<lambda>k u. if p k then Inl (g k) else Inr u) i n u =
    (if \<exists>k. i \<le> k \<and> k < n \<and> p k
     then Inl (g (LEAST k. i \<le> k \<and> k < n \<and> p k)) else Inr u)"
proof (induction "n - i" arbitrary: i)
  case 0
  then show ?case by simp
next
  case (Suc d)
  then have "i < n" by simp
  show ?case
  proof (cases "p i")
    case True
    with \<open>i < n\<close> have "(LEAST k. i \<le> k \<and> k < n \<and> p k) = i"
      by (intro Least_equality) auto
    with True \<open>i < n\<close> show ?thesis by (auto simp: for_up_step)
  next
    case False
    then have *: "i \<le> k \<and> k < n \<and> p k \<longleftrightarrow> Suc i \<le> k \<and> k < n \<and> p k" for k
      by (cases "k = i") auto
    have "for_up (\<lambda>k u. if p k then Inl (g k) else Inr u) i n u =
        for_up (\<lambda>k u. if p k then Inl (g k) else Inr u) (Suc i) n u"
      using False \<open>i < n\<close> by (simp add: for_up_step)
    with Suc.hyps(1) [of "Suc i"] Suc.hyps(2) \<open>i < n\<close> show ?thesis
      by (simp add: *) blast
  qed
qed

lemma for_up_all:
  "for_up (\<lambda>k u. if p k then Inl r else Inr u) i n u =
    (if \<exists>k. i \<le> k \<and> k < n \<and> p k then Inl r else Inr u)"
  by (rule for_up_find)

lemma for_down_find:
  "for_down (\<lambda>k u. if p k then Inl (g k) else Inr u) n i u =
    (if \<exists>k. i \<le> k \<and> k < n \<and> p k
     then Inl (g (GREATEST k. i \<le> k \<and> k < n \<and> p k)) else Inr u)"
proof (induction "n - i" arbitrary: n)
  case 0
  then show ?case by simp
next
  case (Suc d)
  then have "i < n" by simp
  show ?case
  proof (cases "p (n - 1)")
    case True
    with \<open>i < n\<close> have "(GREATEST k. i \<le> k \<and> k < n \<and> p k) = n - 1"
      by (intro Greatest_equality) auto
    with True \<open>i < n\<close> show ?thesis
      by (auto simp: for_down_step intro!: exI [of _ "n - 1"])
  next
    case False
    then have *: "i \<le> k \<and> k < n \<and> p k \<longleftrightarrow> i \<le> k \<and> k < n - 1 \<and> p k" for k
      by (cases "k = n - 1") auto
    have "for_down (\<lambda>k u. if p k then Inl (g k) else Inr u) n i u =
        for_down (\<lambda>k u. if p k then Inl (g k) else Inr u) (n - 1) i u"
      using False \<open>i < n\<close> by (simp add: for_down_step)
    with Suc.hyps(1) [of "n - 1"] Suc.hyps(2) \<open>i < n\<close> show ?thesis
      by (simp add: *) blast
  qed
qed

lemma for_up_cong:
  assumes "\<And>k s. i \<le> k \<Longrightarrow> k < n \<Longrightarrow> f k s = g k s"
  shows "for_up f i n s = for_up g i n s"
  using assms
proof (induction "n - i" arbitrary: i s)
  case 0
  then show ?case by simp
next
  case (Suc d)
  then have "i < n" by simp
  moreover have "for_up f (Suc i) n = for_up g (Suc i) n"
    using Suc.hyps(2) Suc.prems \<open>i < n\<close> by (intro ext Suc.hyps(1)) auto
  ultimately show ?case using Suc.prems by (simp add: for_up_step)
qed

end
