(* ===== verification/Mpm_Words.thy ===== *)
theory Mpm_Words
  imports Mps_Prelude
begin

text \<open>
  General support of the MPM (\<^verbatim>\<open>mpm.c\<close>, the alignment macros of \<^verbatim>\<open>mpm.h\<close>): alignment and
  rounding of words, powers of two and their logarithms, the set of allocation failures, and
  the number printer \<^verbatim>\<open>WriteWord\<close>. A macro keeps its name; the function of the same name, which
  checks the alignment first, has the suffix \<open>_fn\<close>.
\<close>

subsection \<open>Alignment\<close>

definition AlignCheck :: "mword \<Rightarrow> bool" where
  "AlignCheck align \<longleftrightarrow> align > 0 \<and> align AND (align - 1) = 0"

definition WordIsAligned :: "mword \<Rightarrow> mword \<Rightarrow> bool" where
  "WordIsAligned w a \<longleftrightarrow> w AND (a - 1) = 0"

definition WordAlignUp :: "mword \<Rightarrow> mword \<Rightarrow> mword" where
  "WordAlignUp w a = (w + a - 1) AND NOT (a - 1)"

definition WordRoundUp :: "mword \<Rightarrow> mword \<Rightarrow> mword" where
  "WordRoundUp w r = (w + r - 1) - (w + r - 1) mod r"

definition WordAlignDown :: "mword \<Rightarrow> mword \<Rightarrow> mword" where
  "WordAlignDown w a = w AND NOT (a - 1)"

definition WordIsAligned_fn :: "mword \<Rightarrow> mword \<Rightarrow> bool option" where
  "WordIsAligned_fn word align = do { aver (AlignCheck align); Some (WordIsAligned word align) }"

definition WordAlignUp_fn :: "mword \<Rightarrow> mword \<Rightarrow> mword option" where
  "WordAlignUp_fn word align = do { aver (AlignCheck align); Some (WordAlignUp word align) }"

definition WordRoundUp_fn :: "mword \<Rightarrow> mword \<Rightarrow> mword option" where
  "WordRoundUp_fn word modulus = do { aver (modulus > 0); Some (WordRoundUp word modulus) }"

definition WordAlignDown_fn :: "mword \<Rightarrow> mword \<Rightarrow> mword option" where
  "WordAlignDown_fn word alignment =
     do { aver (AlignCheck alignment); Some (WordAlignDown word alignment) }"

definition AddrAlignDown_fn :: "mword \<Rightarrow> mword \<Rightarrow> mword option" where
  "AddrAlignDown_fn addr alignment =
     do { aver (AlignCheck alignment); Some (WordAlignDown addr alignment) }"

definition SizeIsP2 :: "mword \<Rightarrow> bool" where
  "SizeIsP2 sz \<longleftrightarrow> sz > 0 \<and> sz AND (sz - 1) = 0"

text \<open>The loop of \<^verbatim>\<open>SizeFloorLog2\<close>; \<open>l\<close> is the running exponent.\<close>

function SizeFloorLog2_loop :: "nat \<Rightarrow> mword \<Rightarrow> nat" where
  "SizeFloorLog2_loop l sz =
     (if sz > 1 then SizeFloorLog2_loop (Suc l) (drop_bit 1 sz) else l)"
  by pat_completeness auto
termination
proof (relation "measure (\<lambda>(l, sz). unat sz)", goal_cases)
  case (2 l sz)
  then have "1 < unat sz" by (simp add: word_less_nat_alt)
  moreover have "unat (drop_bit 1 sz) = unat sz div 2"
    by (simp add: drop_bit_eq_div unat_div_distrib)
  ultimately show ?case by simp
qed simp

declare SizeFloorLog2_loop.simps [simp del]

definition SizeFloorLog2 :: "mword \<Rightarrow> nat option" where
  "SizeFloorLog2 sz = do { aver (sz \<noteq> 0); Some (SizeFloorLog2_loop 0 sz) }"

definition SizeLog2 :: "mword \<Rightarrow> nat option" where
  "SizeLog2 sz = do { aver (SizeIsP2 sz); SizeFloorLog2 sz }"

definition ResIsAllocFailure :: "Res \<Rightarrow> bool" where
  "ResIsAllocFailure res \<longleftrightarrow> res = ResMEMORY \<or> res = ResRESOURCE \<or> res = ResCOMMIT_LIMIT"

subsection \<open>Powers of two\<close>

lemma word_pow2_mask: "k < 32 \<Longrightarrow> (2 ^ k :: mword) - 1 = mask k"
  by (simp add: mask_eq_exp_minus_1)

lemma unat_pow2: "k < 32 \<Longrightarrow> unat (2 ^ k :: mword) = 2 ^ k"
proof -
  assume k: "k < 32"
  then have "(2::nat) ^ k < 2 ^ 32" by (intro power_strict_increasing) auto
  moreover have "(2 :: mword) ^ k = of_nat (2 ^ k)" by simp
  ultimately show ?thesis by (simp only: unsigned_of_nat) (simp add: take_bit_nat_eq_self k)
qed

text \<open>The bit trick of \<^verbatim>\<open>AlignCheck\<close> and \<^verbatim>\<open>SizeIsP2\<close> characterises the powers of two.\<close>

lemma nat_and_minus_one_pow2:
  fixes n :: nat
  shows "0 < n \<Longrightarrow> n AND (n - 1) = 0 \<Longrightarrow> \<exists>k. n = 2 ^ k"
proof (induction n rule: less_induct)
  case (less n)
  show ?case
  proof (cases "even n")
    case True
    with less.prems have m: "0 < n div 2" "n div 2 < n" by auto
    have "(n - 1) div 2 = n div 2 - 1" using True less.prems(1) by presburger
    moreover have "n AND (n - 1) = 2 * (n div 2 AND (n - 1) div 2)"
      using True by (subst and_nat_rec) simp
    ultimately have "n div 2 AND (n div 2 - 1) = 0" using less.prems(2) by simp
    with less.IH [OF m(2,1)] obtain k where "n div 2 = 2 ^ k" by blast
    with True have "n = 2 ^ Suc k" by auto
    then show ?thesis by blast
  next
    case False
    then have "(n - 1) div 2 = n div 2" by presburger
    moreover have "n AND (n - 1) = of_bool (odd n \<and> odd (n - 1)) + 2 * (n div 2 AND (n - 1) div 2)"
      by (rule and_nat_rec)
    ultimately have "n div 2 = 0" using less.prems(2) by simp
    with False have "n = 1" by presburger
    then have "n = 2 ^ 0" by simp
    then show ?thesis by blast
  qed
qed

lemma and_minus_one_pow2:
  fixes w :: mword
  assumes "w \<noteq> 0" and "w AND (w - 1) = 0"
  shows "\<exists>k < 32. w = 2 ^ k"
proof -
  have "unat w AND (unat w - 1) = unat (w AND (w - 1))"
    using assms(1) by (simp add: unsigned_and_eq unat_minus_one)
  with assms obtain k where k: "unat w = 2 ^ k"
    using nat_and_minus_one_pow2 [of "unat w"] by (auto simp: unat_gt_0)
  have "(2::nat) ^ k < 2 ^ 32" using unat_mword_less [of w] by (simp only: k)
  then have "k < 32" by (simp only: power_strict_increasing_iff)
  moreover from this k have "w = 2 ^ k" by (metis unat_pow2 word_unat_eq_iff)
  ultimately show ?thesis by blast
qed

lemma pow2_and_minus_one: "k < 32 \<Longrightarrow> (2 ^ k :: mword) AND (2 ^ k - 1) = 0"
  by (rule bit_eqI) (auto simp: word_pow2_mask bit_simps)

lemma pow2_pos: "k < 32 \<Longrightarrow> (0 :: mword) < 2 ^ k"
  by (simp add: word_less_nat_alt unat_pow2)

lemma SizeIsP2_iff: "SizeIsP2 w \<longleftrightarrow> (\<exists>k < 32. w = 2 ^ k)"
  unfolding SizeIsP2_def
  using and_minus_one_pow2 pow2_and_minus_one pow2_pos by (metis word_gt_0)

lemma AlignCheck_iff: "AlignCheck w \<longleftrightarrow> (\<exists>k < 32. w = 2 ^ k)"
  using SizeIsP2_iff by (simp add: AlignCheck_def SizeIsP2_def)

lemma AlignCheckE:
  assumes "AlignCheck a"
  obtains k where "k < 32" "a = 2 ^ k" "a - 1 = mask k" "unat a = 2 ^ k"
  using assms unfolding AlignCheck_iff by (auto simp: word_pow2_mask unat_pow2)

subsection \<open>What the operations compute\<close>

lemma and_not_mask: "unat (w AND NOT (mask k) :: mword) = unat w - unat w mod 2 ^ k"
proof -
  have "w AND NOT (mask k) = w - (w AND mask k)"
  proof -
    have "(w AND NOT (mask k)) + (w AND mask k) = (w AND NOT (mask k)) OR (w AND mask k)"
      by (rule disjunctive_add) (auto simp: bit_simps)
    also have "\<dots> = w" by (rule bit_eqI) (auto simp: bit_simps)
    finally show ?thesis by (simp add: eq_diff_eq)
  qed
  moreover have "w AND mask k \<le> w"
    by (simp add: word_le_nat_alt and_mask_mod)
  ultimately show ?thesis by (simp add: unat_sub and_mask_mod)
qed

lemma WordIsAligned_iff:
  assumes "AlignCheck a"
  shows "WordIsAligned w a \<longleftrightarrow> unat a dvd unat w"
proof -
  from assms obtain k where k: "k < 32" "a - 1 = mask k" "unat a = 2 ^ k" by (rule AlignCheckE)
  have "w AND mask k = 0 \<longleftrightarrow> unat (w AND mask k) = 0" by (simp add: unat_eq_0)
  with k show ?thesis by (simp add: WordIsAligned_def and_mask_mod dvd_eq_mod_eq_0)
qed

lemma unat_WordAlignDown:
  assumes "AlignCheck a"
  shows "unat (WordAlignDown w a) = unat w - unat w mod unat a"
  using assms by (elim AlignCheckE) (simp add: WordAlignDown_def and_not_mask)

text \<open>Rounding up is exact as long as the sum \<open>w + a - 1\<close> is representable.\<close>

lemma unat_add_minus_one:
  fixes w a :: mword
  assumes "0 < a"
  shows "unat (w + a - 1) = (unat w + (unat a - 1)) mod 2 ^ 32"
proof -
  have "unat (a - 1) = unat a - 1" using assms by (simp add: unat_minus_one word_neq_0_conv)
  moreover have "w + a - 1 = w + (a - 1)" by simp
  ultimately show ?thesis by (simp only: unat_word_ariths) simp
qed

lemma unat_WordAlignUp:
  assumes "AlignCheck a" and "unat w + unat a \<le> 2 ^ 32"
  shows "unat (WordAlignUp w a) = (unat w + unat a - 1) div unat a * unat a"
proof -
  from assms(1) obtain k where k: "k < 32" "a - 1 = mask k" "unat a = 2 ^ k" by (rule AlignCheckE)
  have pos: "0 < a" using assms(1) by (simp add: AlignCheck_def)
  have "0 < unat a" using k(3) by simp
  then have sum: "unat (w + a - 1) = unat w + unat a - 1"
    using assms(2) unat_add_minus_one [OF pos, of w] by simp
  show ?thesis
    unfolding WordAlignUp_def k(2) and_not_mask sum k(3) by (simp add: minus_mod_eq_div_mult)
qed

lemma unat_WordRoundUp:
  assumes "0 < r" and "unat w + unat r \<le> 2 ^ 32"
  shows "unat (WordRoundUp w r) = (unat w + unat r - 1) div unat r * unat r"
proof -
  have pos: "0 < unat r" using assms(1) by (simp add: word_less_nat_alt)
  then have sum: "unat (w + r - 1) = unat w + unat r - 1"
    using assms(2) unat_add_minus_one [OF assms(1), of w] by simp
  have "(w + r - 1) mod r \<le> w + r - 1"
    by (simp add: word_le_nat_alt unat_mod_distrib)
  then have "unat (WordRoundUp w r) = unat (w + r - 1) - unat (w + r - 1) mod unat r"
    unfolding WordRoundUp_def by (simp only: unat_sub unat_mod_distrib)
  then show ?thesis by (simp only: sum minus_mod_eq_div_mult)
qed

lemma SizeFloorLog2_loop_bounds:
  "0 < unat sz \<Longrightarrow>
    l \<le> SizeFloorLog2_loop l sz \<and>
    2 ^ (SizeFloorLog2_loop l sz - l) \<le> unat sz \<and> unat sz < 2 ^ Suc (SizeFloorLog2_loop l sz - l)"
proof (induction l sz rule: SizeFloorLog2_loop.induct)
  case (1 l sz)
  show ?case
  proof (cases "sz > 1")
    case False
    then have "unat sz = 1" using "1.prems" by (simp add: word_less_nat_alt)
    then show ?thesis using False by (simp add: SizeFloorLog2_loop.simps [of l sz])
  next
    case True
    have half: "unat (drop_bit 1 sz) = unat sz div 2"
      by (simp add: drop_bit_eq_div unat_div_distrib)
    from True have "1 < unat sz" by (simp add: word_less_nat_alt)
    then have pos: "0 < unat (drop_bit 1 sz)" by (simp only: half)
    obtain r where r: "SizeFloorLog2_loop (Suc l) (drop_bit 1 sz) = r" by simp
    from "1.IH" [OF True pos] have ih:
      "Suc l \<le> r" "2 ^ (r - Suc l) \<le> unat sz div 2" "unat sz div 2 < 2 ^ Suc (r - Suc l)"
      by (simp_all only: r half)
    have e: "r - l = Suc (r - Suc l)" using ih(1) by simp
    have "2 ^ (r - l) \<le> unat sz" using ih(2) unfolding e by simp
    moreover have "unat sz < 2 ^ Suc (r - l)" using ih(3) unfolding e by simp
    moreover have "SizeFloorLog2_loop l sz = r"
      using True r by (simp add: SizeFloorLog2_loop.simps [of l sz])
    ultimately show ?thesis using ih(1) by simp
  qed
qed

lemma SizeFloorLog2_bounds:
  assumes "SizeFloorLog2 sz = Some l"
  shows "2 ^ l \<le> unat sz \<and> unat sz < 2 ^ Suc l"
  using assms SizeFloorLog2_loop_bounds [of sz 0]
  by (auto simp: SizeFloorLog2_def unat_gt_0 aver_bind split: if_splits)

text \<open>
  For a power of two, the alignment test is divisibility, aligning down is the greatest
  multiple not above the word, and aligning up the least multiple not below it as long as
  \<open>w + a - 1\<close> is representable.
\<close>

theorem alignment_correct:
  assumes "AlignCheck a"
  shows "WordIsAligned_fn w a = Some (unat a dvd unat w) \<and>
    (\<exists>d. WordAlignDown_fn w a = Some d \<and> AddrAlignDown_fn w a = Some d \<and>
      unat d = unat w div unat a * unat a) \<and>
    (unat w + unat a \<le> 2 ^ 32 \<longrightarrow>
      (\<exists>u. WordAlignUp_fn w a = Some u \<and> unat u = (unat w + unat a - 1) div unat a * unat a))"
  using assms unat_WordAlignDown [OF assms, of w] unat_WordAlignUp [OF assms, of w]
  by (auto simp: WordIsAligned_fn_def WordAlignDown_fn_def AddrAlignDown_fn_def WordAlignUp_fn_def
      WordIsAligned_iff minus_mod_eq_div_mult)

theorem alignment_correct_witness:
  "WordIsAligned_fn 24 8 = Some True \<and> (\<exists>d. WordAlignDown_fn 29 8 = Some d \<and> unat d = 24) \<and>
   (\<exists>u. WordAlignUp_fn 29 8 = Some u \<and> unat u = 32)"
proof -
  have a: "AlignCheck 8" by (simp add: AlignCheck_def)
  show ?thesis using alignment_correct [OF a, of 24] alignment_correct [OF a, of 29] by auto
qed

text \<open>
  C33: \<open>WordRoundUp\<close> returns the least multiple of any positive modulus that is not below the
  word when \<open>w + r - 1\<close> is representable, and 0 in every other case, as its comment says.
\<close>

theorem WordRoundUp_correct:
  assumes "0 < r"
  shows "\<exists>m. WordRoundUp_fn w r = Some m \<and>
    unat m = (if unat w + unat r - 1 < 2 ^ 32 then (unat w + unat r - 1) div unat r * unat r else 0)"
proof (cases "unat w + unat r - 1 < 2 ^ 32")
  case True
  then have "unat w + unat r \<le> 2 ^ 32" by linarith
  from unat_WordRoundUp [OF assms this] True assms show ?thesis by (simp add: WordRoundUp_fn_def)
next
  case False
  have pos: "0 < unat r" using assms by (simp add: word_less_nat_alt)
  define s where "s = w + r - 1"
  have s: "unat s = unat w + (unat r - 1) - 2 ^ 32"
    using unat_add_minus_one [OF assms, of w] False unat_mword_less [of w] unat_mword_less [of r] pos
    unfolding s_def by (simp add: mod_if)
  then have "unat s < unat r" using unat_mword_less [of w] pos by linarith
  then have "s mod r = s" by (simp add: word_unat_eq_iff unat_mod_distrib)
  then show ?thesis using False assms by (simp add: WordRoundUp_fn_def WordRoundUp_def s_def)
qed

theorem WordRoundUp_correct_witness:
  "(\<exists>m. WordRoundUp_fn 29 12 = Some m \<and> unat m = 36) \<and> (\<exists>m. WordRoundUp_fn 0xFFFFFFFF 12 = Some m \<and> unat m = 0)"
  using WordRoundUp_correct [of 12 29] WordRoundUp_correct [of 12 "0xFFFFFFFF"] by simp

text \<open>
  C30: \<open>SizeLog2\<close> is total on the powers of two, where it inverts exponentiation, and
  \<open>SizeFloorLog2\<close> brackets every other size between two powers.
\<close>

theorem SizeLog2_correct:
  assumes "sz \<noteq> 0"
  shows "(\<exists>l. SizeFloorLog2 sz = Some l \<and> 2 ^ l \<le> unat sz \<and> unat sz < 2 ^ Suc l) \<and>
    (\<forall>k. SizeLog2 sz = Some k \<longleftrightarrow> unat sz = 2 ^ k)"
proof -
  obtain l where l: "SizeFloorLog2 sz = Some l" using assms by (simp add: SizeFloorLog2_def)
  then have b: "2 ^ l \<le> unat sz" "unat sz < 2 ^ Suc l" using SizeFloorLog2_bounds by blast+
  have "SizeLog2 sz = Some k \<longleftrightarrow> unat sz = 2 ^ k" for k
  proof
    assume r: "SizeLog2 sz = Some k"
    then have "SizeIsP2 sz" "k = l" using l by (auto simp: SizeLog2_def run_iff)
    then obtain j where j: "unat sz = 2 ^ j" by (auto simp: SizeIsP2_iff unat_pow2)
    then have "j = l" using b by (simp del: power_Suc)
    with j \<open>k = l\<close> show "unat sz = 2 ^ k" by simp
  next
    assume k: "unat sz = 2 ^ k"
    then have "k = l" using b by (simp del: power_Suc)
    moreover have "(2::nat) ^ k < 2 ^ 32" using unat_mword_less [of sz] by (simp only: k)
    then have "k < 32" by (simp only: power_strict_increasing_iff)
    then have "SizeIsP2 sz" using k by (auto simp: SizeIsP2_iff unat_pow2 word_unat_eq_iff)
    ultimately show "SizeLog2 sz = Some k" using l by (simp add: SizeLog2_def)
  qed
  with l b show ?thesis by blast
qed

theorem SizeLog2_correct_witness: "SizeLog2 64 = Some 6"
  using SizeLog2_correct [of 64] by simp

subsection \<open>Printing a word\<close>

text \<open>
  \<^verbatim>\<open>WriteWord\<close> fills a buffer of \<open>MPS_WORD_WIDTH\<close> characters from its right end. The model
  keeps the index \<open>i\<close> and the text \<open>acc\<close> held by the buffer from \<open>i\<close> on; a step to the left of
  index 0 would write before the buffer and is \<open>None\<close>. The plinth's \<^verbatim>\<open>mps_lib_fputs\<close> is a
  parameter that yields whether it returned \<^verbatim>\<open>mps_lib_EOF\<close>.
\<close>

definition WriteWord_digits :: string where
  "WriteWord_digits = ''0123456789ABCDEF''"

fun WriteWord_digits_loop :: "mword \<Rightarrow> mword \<Rightarrow> nat \<Rightarrow> string \<Rightarrow> (nat \<times> string) option" where
  "WriteWord_digits_loop b w 0 acc = None"
| "WriteWord_digits_loop b w (Suc i) acc =
     (let acc' = WriteWord_digits ! unat (w mod b) # acc; w' = w div b
      in if w' > 0 then WriteWord_digits_loop b w' i acc' else Some (i, acc'))"

fun WriteWord_pad_loop :: "nat \<Rightarrow> nat \<Rightarrow> string \<Rightarrow> string" where
  "WriteWord_pad_loop stop 0 acc = acc"
| "WriteWord_pad_loop stop (Suc i) acc =
     (if Suc i > stop then WriteWord_pad_loop stop i (CHR ''0'' # acc) else acc)"

definition WriteWord ::
  "(string \<Rightarrow> 'stream \<Rightarrow> bool \<times> 'stream) \<Rightarrow> 'stream \<Rightarrow> mword \<Rightarrow> mword \<Rightarrow> nat \<Rightarrow> (Res \<times> 'stream) option"
where
  "WriteWord fputs stream w b width = do {
     aver (2 \<le> b);
     aver (b \<le> 16);
     aver (width \<le> MPS_WORD_WIDTH);
     (i, acc) \<leftarrow> WriteWord_digits_loop b w MPS_WORD_WIDTH [];
     let acc = WriteWord_pad_loop (MPS_WORD_WIDTH - width) i acc;
     let (eof, stream') = fputs acc stream;
     Some (if eof then ResIO else ResOK, stream')
   }"

text \<open>The reader used to state what was printed: the value of a digit string.\<close>

definition digit_value :: "char \<Rightarrow> nat" where
  "digit_value c = length (takeWhile (\<lambda>d. d \<noteq> c) WriteWord_digits)"

definition digits_value :: "nat \<Rightarrow> string \<Rightarrow> nat" where
  "digits_value b s = foldl (\<lambda>v c. v * b + digit_value c) 0 s"

lemma digit_value_nth: "n < 16 \<Longrightarrow> digit_value (WriteWord_digits ! n) = n"
proof -
  have "\<forall>n \<in> {..< 16}. digit_value (WriteWord_digits ! n) = n"
    unfolding digit_value_def WriteWord_digits_def by code_simp
  then show "n < 16 \<Longrightarrow> digit_value (WriteWord_digits ! n) = n" by simp
qed

lemma digits_value_snoc: "digits_value b (s @ [c]) = digits_value b s * b + digit_value c"
  by (simp add: digits_value_def)

lemma digits_value_zeros: "digits_value b (replicate n CHR ''0'' @ s) = digits_value b s"
proof (induction n)
  case (Suc n)
  have "digit_value CHR ''0'' = 0" by (simp add: digit_value_def WriteWord_digits_def)
  then have "digits_value b (CHR ''0'' # t) = digits_value b t" for t
    by (simp add: digits_value_def)
  with Suc show ?case by simp
qed simp

lemma WriteWord_digits_loop_result:
  assumes "2 \<le> unat b" and "unat b \<le> 16" and "0 < i" and "unat w < unat b ^ i"
  shows "\<exists>ds. WriteWord_digits_loop b w i acc = Some (i - length ds, ds @ acc) \<and> ds \<noteq> [] \<and>
    length ds \<le> i \<and> digits_value (unat b) ds = unat w"
  using assms(3,4)
proof (induction i arbitrary: w acc)
  case (Suc i)
  define c where "c = WriteWord_digits ! unat (w mod b)"
  have "unat w mod unat b < unat b" using assms(1) by (intro mod_less_divisor) linarith
  then have "unat (w mod b) < 16" using assms(2) by (simp add: unat_mod_distrib)
  then have c: "digit_value c = unat w mod unat b"
    by (simp add: c_def digit_value_nth unat_mod_distrib)
  show ?case
  proof (cases "w div b > 0")
    case False
    then have "unat w div unat b = 0"
      by (simp add: word_less_nat_alt unat_div_distrib)
    then have "unat w mod unat b = unat w" by (metis div_mult_mod_eq add_0 mult_0)
    with False c show ?thesis
      by (intro exI [of _ "[c]"]) (simp add: c_def [symmetric] digits_value_def)
  next
    case True
    have lt: "unat (w div b) < unat b ^ i"
      using Suc.prems(2) by (simp add: unat_div_distrib less_mult_imp_div_less mult.commute)
    have i: "0 < i"
      using lt True by (cases i) (auto simp: word_less_nat_alt)
    obtain ds where ds: "WriteWord_digits_loop b (w div b) i (c # acc) = Some (i - length ds, ds @ c # acc)"
      "ds \<noteq> []" "length ds \<le> i" "digits_value (unat b) ds = unat (w div b)"
      using Suc.IH [OF i lt] by blast
    have "digits_value (unat b) (ds @ [c]) = unat w"
      using ds(4) c by (simp add: digits_value_snoc unat_div_distrib div_mult_mod_eq)
    with True ds show ?thesis
      by (intro exI [of _ "ds @ [c]"]) (simp add: c_def [symmetric])
  qed
qed simp

lemma WriteWord_pad_loop_eq:
  "WriteWord_pad_loop stop i acc = replicate (i - stop) CHR ''0'' @ acc"
proof (induction i arbitrary: acc)
  case (Suc i)
  show ?case
  proof (cases "Suc i > stop")
    case True
    then have "Suc i - stop = Suc (i - stop)" by simp
    with Suc True show ?thesis by (simp add: replicate_append_same [symmetric])
  qed simp
qed simp

text \<open>
  C37: for every base from 2 to 16 the printer stays inside its buffer, fires no assertion, and the
  text it hands to the stream reads back, in that base, as the word printed; the text is at least
  \<open>width\<close> characters and fits the buffer.
\<close>

theorem WriteWord_roundtrip:
  assumes "2 \<le> unat b" and "unat b \<le> 16" and "width \<le> MPS_WORD_WIDTH"
  shows "\<exists>s. WriteWord fputs stream w b width =
      Some (if fst (fputs s stream) then ResIO else ResOK, snd (fputs s stream)) \<and>
    digits_value (unat b) s = unat w \<and> width \<le> length s \<and> length s \<le> MPS_WORD_WIDTH"
proof -
  have "2 ^ 32 \<le> unat b ^ 32" using assms(1) by (intro power_mono) auto
  then have "unat w < unat b ^ 32" using unat_mword_less [of w] by linarith
  then obtain ds where ds: "WriteWord_digits_loop b w 32 [] = Some (32 - length ds, ds)"
    "length ds \<le> 32" "digits_value (unat b) ds = unat w"
    using WriteWord_digits_loop_result [OF assms(1,2), of 32 w "[]"] by auto
  have b: "2 \<le> b" "b \<le> 16" using assms(1,2) by (simp_all add: word_le_nat_alt)
  define s where "s = replicate (width - length ds) CHR ''0'' @ ds"
  have "32 - length ds - (32 - width) = width - length ds" using ds(2) assms(3) by simp
  then have "WriteWord_pad_loop (32 - width) (32 - length ds) ds = s"
    by (simp only: WriteWord_pad_loop_eq s_def)
  then have "WriteWord fputs stream w b width =
      Some (if fst (fputs s stream) then ResIO else ResOK, snd (fputs s stream))"
    using ds(1) b assms(3) by (simp add: WriteWord_def split: prod.split)
  moreover have "digits_value (unat b) s = unat w" by (simp add: s_def digits_value_zeros ds(3))
  moreover have "width \<le> length s" "length s \<le> 32" using ds(2) assms(3) by (simp_all add: s_def)
  ultimately show ?thesis by blast
qed

theorem WriteWord_roundtrip_witness:
  "\<exists>s. WriteWord (\<lambda>s st. (False, st @ [s])) [] 255 16 4 = Some (ResOK, [s]) \<and> digits_value 16 s = 255"
  using WriteWord_roundtrip [of 16 4 "\<lambda>s st. (False, st @ [s])" "[]" 255] by auto

end
