(* ===== verification/Machine_Word.thy ===== *)
theory Machine_Word
  imports Mps_Prelude "HOL-Library.Signed_Division"
begin

text \<open>
  The machine-word primitives of Dylan's C run-time (\<^verbatim>\<open>dfmc/c-run-time/run-time.c\<close>): signed
  division with floor, ceiling, rounding and truncation, on single and on double dividends,
  counting of zero bits, arithmetic with overflow or carry, rotations and double-word shifts.
  The model is the 32-bit configuration (\<^verbatim>\<open>LONG_BIT\<close> is 32, \<^verbatim>\<open>NO_LONGLONG\<close> undefined): a
  \<^verbatim>\<open>DMINT\<close> is a \<open>32 word\<close> read with \<open>sint\<close>, a \<^verbatim>\<open>DUMINT\<close> the same word read with \<open>uint\<close>, a
  \<^verbatim>\<open>DLMINT\<close> a \<open>64 word\<close>. Addition, subtraction, negation and multiplication wrap, as the
  overflow tests of the source suppose; \<open>None\<close> is a division that traps (by zero, or the most
  negative number by minus one) or a shift by a count outside 0..31. Multiple return values
  (\<^verbatim>\<open>MV2\<close>, \<^verbatim>\<open>MV3\<close>) are tuples.
\<close>

type_synonym DMINT = mword

type_synonym DUMINT = mword

abbreviation (input) LONG_BIT :: nat where "LONG_BIT \<equiv> 32"

text \<open>\<^verbatim>\<open>primitive_word_size()\<close> of \<^verbatim>\<open>run-time.h\<close>: the size of a word in bytes.\<close>

definition primitive_word_size :: nat where
  "primitive_word_size = 4"

definition c_shl :: "DUMINT \<Rightarrow> DMINT \<Rightarrow> DUMINT option" where
  "c_shl x n = (if unat n < LONG_BIT then Some (push_bit (unat n) x) else None)"

definition c_shr :: "DUMINT \<Rightarrow> DMINT \<Rightarrow> DUMINT option" where
  "c_shr x n = (if unat n < LONG_BIT then Some (drop_bit (unat n) x) else None)"

subsection \<open>Division of single words\<close>

record ldiv_t =
  quot :: DMINT
  rem :: DMINT

definition ldiv :: "DMINT \<Rightarrow> DMINT \<Rightarrow> ldiv_t option" where
  "ldiv x y =
     (if y = 0 \<or> sint x = - (2 ^ 31) \<and> sint y = - 1 then None
      else Some \<lparr>quot = word_of_int (sint x sdiv sint y), rem = word_of_int (sint x smod sint y)\<rparr>)"

definition labs :: "DMINT \<Rightarrow> DMINT" where
  "labs x = (if sint x < 0 then - x else x)"

definition primitive_machine_word_divide :: "DMINT \<Rightarrow> DMINT \<Rightarrow> (DMINT \<times> DMINT) option" where
  "primitive_machine_word_divide x y = do { z \<leftarrow> ldiv x y; Some (quot z, rem z) }"

definition primitive_machine_word_boole :: "'d \<Rightarrow> 'd \<Rightarrow> 'd \<Rightarrow> DMINT \<Rightarrow> DMINT \<Rightarrow> DMINT" where
  "primitive_machine_word_boole IKJboole_ior IKJboole_xor s x y =
     (if s = IKJboole_ior then x OR y
      else if s = IKJboole_xor then x XOR y
      else x AND y)"

text \<open>The adjustments of a truncated quotient, each written three times in the source.\<close>

definition floor_adjust :: "DMINT \<Rightarrow> ldiv_t \<Rightarrow> ldiv_t" where
  "floor_adjust y z =
     (if rem z \<noteq> 0 \<and> (if sint y < 0 then sint (rem z) > 0 else sint (rem z) < 0)
      then \<lparr>quot = quot z - 1, rem = rem z + y\<rparr> else z)"

definition ceiling_adjust :: "DMINT \<Rightarrow> ldiv_t \<Rightarrow> ldiv_t" where
  "ceiling_adjust y z =
     (if rem z \<noteq> 0 \<and> (if sint y < 0 then sint (rem z) < 0 else sint (rem z) > 0)
      then \<lparr>quot = quot z + 1, rem = rem z - y\<rparr> else z)"

definition round_adjust :: "DMINT \<Rightarrow> ldiv_t \<Rightarrow> ldiv_t" where
  "round_adjust y z =
     (let threshold = word_of_int (sint (labs y) sdiv 2) :: DMINT;
          odd_quot = (quot z AND 1 \<noteq> 0)
      in if sint (rem z) > sint threshold \<or> rem z = threshold \<and> odd_quot then
           (if sint y < 0 then \<lparr>quot = quot z - 1, rem = rem z + y\<rparr>
            else \<lparr>quot = quot z + 1, rem = rem z - y\<rparr>)
         else if sint (rem z) < sint (- threshold) \<or> rem z = - threshold \<and> odd_quot then
           (if sint y < 0 then \<lparr>quot = quot z + 1, rem = rem z - y\<rparr>
            else \<lparr>quot = quot z - 1, rem = rem z + y\<rparr>)
         else z)"

definition primitive_machine_word_floorS_quotient :: "DMINT \<Rightarrow> DMINT \<Rightarrow> DMINT option" where
  "primitive_machine_word_floorS_quotient x y = do { z \<leftarrow> ldiv x y; Some (quot (floor_adjust y z)) }"

definition primitive_machine_word_floorS_remainder :: "DMINT \<Rightarrow> DMINT \<Rightarrow> DMINT option" where
  "primitive_machine_word_floorS_remainder x y = do { z \<leftarrow> ldiv x y; Some (rem (floor_adjust y z)) }"

definition primitive_machine_word_floorS :: "DMINT \<Rightarrow> DMINT \<Rightarrow> (DMINT \<times> DMINT) option" where
  "primitive_machine_word_floorS x y =
     do { z \<leftarrow> ldiv x y; let z = floor_adjust y z; Some (quot z, rem z) }"

definition primitive_machine_word_ceilingS_quotient :: "DMINT \<Rightarrow> DMINT \<Rightarrow> DMINT option" where
  "primitive_machine_word_ceilingS_quotient x y = do { z \<leftarrow> ldiv x y; Some (quot (ceiling_adjust y z)) }"

definition primitive_machine_word_ceilingS_remainder :: "DMINT \<Rightarrow> DMINT \<Rightarrow> DMINT option" where
  "primitive_machine_word_ceilingS_remainder x y = do { z \<leftarrow> ldiv x y; Some (rem (ceiling_adjust y z)) }"

definition primitive_machine_word_ceilingS :: "DMINT \<Rightarrow> DMINT \<Rightarrow> (DMINT \<times> DMINT) option" where
  "primitive_machine_word_ceilingS x y =
     do { z \<leftarrow> ldiv x y; let z = ceiling_adjust y z; Some (quot z, rem z) }"

definition primitive_machine_word_roundS_quotient :: "DMINT \<Rightarrow> DMINT \<Rightarrow> DMINT option" where
  "primitive_machine_word_roundS_quotient x y = do { z \<leftarrow> ldiv x y; Some (quot (round_adjust y z)) }"

definition primitive_machine_word_roundS_remainder :: "DMINT \<Rightarrow> DMINT \<Rightarrow> DMINT option" where
  "primitive_machine_word_roundS_remainder x y = do { z \<leftarrow> ldiv x y; Some (rem (round_adjust y z)) }"

definition primitive_machine_word_roundS :: "DMINT \<Rightarrow> DMINT \<Rightarrow> (DMINT \<times> DMINT) option" where
  "primitive_machine_word_roundS x y =
     do { z \<leftarrow> ldiv x y; let z = round_adjust y z; Some (quot z, rem z) }"

definition primitive_machine_word_truncateS_quotient :: "DMINT \<Rightarrow> DMINT \<Rightarrow> DMINT option" where
  "primitive_machine_word_truncateS_quotient x y = do { z \<leftarrow> ldiv x y; Some (quot z) }"

definition primitive_machine_word_truncateS_remainder :: "DMINT \<Rightarrow> DMINT \<Rightarrow> DMINT option" where
  "primitive_machine_word_truncateS_remainder x y = do { z \<leftarrow> ldiv x y; Some (rem z) }"

definition primitive_machine_word_truncateS :: "DMINT \<Rightarrow> DMINT \<Rightarrow> (DMINT \<times> DMINT) option" where
  "primitive_machine_word_truncateS x y = do { z \<leftarrow> ldiv x y; Some (quot z, rem z) }"

subsection \<open>Division of double words\<close>

text \<open>
  The quotient and the remainder are computed in 64 bits and cast to \<^verbatim>\<open>DMINT\<close>, which keeps
  their low 32 bits.
\<close>

definition divide_double :: "DMINT \<Rightarrow> DMINT \<Rightarrow> DMINT \<Rightarrow> ldiv_t option" where
  "divide_double xl xh y =
     (let dividend = push_bit LONG_BIT (scast xh :: 64 word) OR (ucast xl :: 64 word);
          divisor = scast y :: 64 word
      in if divisor = 0 \<or> sint dividend = - (2 ^ 63) \<and> sint divisor = - 1 then None
         else Some \<lparr>quot = ucast (word_of_int (sint dividend sdiv sint divisor) :: 64 word),
                    rem = ucast (word_of_int (sint dividend smod sint divisor) :: 64 word)\<rparr>)"

definition unsigned_divide_double :: "DMINT \<Rightarrow> DMINT \<Rightarrow> DMINT \<Rightarrow> ldiv_t option" where
  "unsigned_divide_double xl xh y =
     (let dividend = push_bit LONG_BIT (ucast xh :: 64 word) OR (ucast xl :: 64 word);
          divisor = ucast y :: 64 word
      in if divisor = 0 then None
         else Some \<lparr>quot = ucast (dividend div divisor), rem = ucast (dividend mod divisor)\<rparr>)"

definition primitive_machine_word_double_floorS_quotient :: "DMINT \<Rightarrow> DMINT \<Rightarrow> DMINT \<Rightarrow> DMINT option" where
  "primitive_machine_word_double_floorS_quotient xl xh y =
     do { z \<leftarrow> divide_double xl xh y; Some (quot (floor_adjust y z)) }"

definition primitive_machine_word_double_floorS_remainder :: "DMINT \<Rightarrow> DMINT \<Rightarrow> DMINT \<Rightarrow> DMINT option" where
  "primitive_machine_word_double_floorS_remainder xl xh y =
     do { z \<leftarrow> divide_double xl xh y; Some (rem (floor_adjust y z)) }"

definition primitive_machine_word_double_floorS :: "DMINT \<Rightarrow> DMINT \<Rightarrow> DMINT \<Rightarrow> (DMINT \<times> DMINT) option" where
  "primitive_machine_word_double_floorS xl xh y =
     do { z \<leftarrow> divide_double xl xh y; let z = floor_adjust y z; Some (quot z, rem z) }"

definition primitive_machine_word_double_ceilingS_quotient :: "DMINT \<Rightarrow> DMINT \<Rightarrow> DMINT \<Rightarrow> DMINT option" where
  "primitive_machine_word_double_ceilingS_quotient xl xh y =
     do { z \<leftarrow> divide_double xl xh y; Some (quot (ceiling_adjust y z)) }"

definition primitive_machine_word_double_ceilingS_remainder :: "DMINT \<Rightarrow> DMINT \<Rightarrow> DMINT \<Rightarrow> DMINT option" where
  "primitive_machine_word_double_ceilingS_remainder xl xh y =
     do { z \<leftarrow> divide_double xl xh y; Some (rem (ceiling_adjust y z)) }"

definition primitive_machine_word_double_ceilingS :: "DMINT \<Rightarrow> DMINT \<Rightarrow> DMINT \<Rightarrow> (DMINT \<times> DMINT) option" where
  "primitive_machine_word_double_ceilingS xl xh y =
     do { z \<leftarrow> divide_double xl xh y; let z = ceiling_adjust y z; Some (quot z, rem z) }"

definition primitive_machine_word_double_roundS_quotient :: "DMINT \<Rightarrow> DMINT \<Rightarrow> DMINT \<Rightarrow> DMINT option" where
  "primitive_machine_word_double_roundS_quotient xl xh y =
     do { z \<leftarrow> divide_double xl xh y; Some (quot (round_adjust y z)) }"

definition primitive_machine_word_double_roundS_remainder :: "DMINT \<Rightarrow> DMINT \<Rightarrow> DMINT \<Rightarrow> DMINT option" where
  "primitive_machine_word_double_roundS_remainder xl xh y =
     do { z \<leftarrow> divide_double xl xh y; Some (rem (round_adjust y z)) }"

definition primitive_machine_word_double_roundS :: "DMINT \<Rightarrow> DMINT \<Rightarrow> DMINT \<Rightarrow> (DMINT \<times> DMINT) option" where
  "primitive_machine_word_double_roundS xl xh y =
     do { z \<leftarrow> divide_double xl xh y; let z = round_adjust y z; Some (quot z, rem z) }"

definition primitive_machine_word_double_truncateS_quotient :: "DMINT \<Rightarrow> DMINT \<Rightarrow> DMINT \<Rightarrow> DMINT option" where
  "primitive_machine_word_double_truncateS_quotient xl xh y =
     do { z \<leftarrow> divide_double xl xh y; Some (quot z) }"

definition primitive_machine_word_double_truncateS_remainder :: "DMINT \<Rightarrow> DMINT \<Rightarrow> DMINT \<Rightarrow> DMINT option" where
  "primitive_machine_word_double_truncateS_remainder xl xh y =
     do { z \<leftarrow> divide_double xl xh y; Some (rem z) }"

definition primitive_machine_word_double_truncateS :: "DMINT \<Rightarrow> DMINT \<Rightarrow> DMINT \<Rightarrow> (DMINT \<times> DMINT) option" where
  "primitive_machine_word_double_truncateS xl xh y =
     do { z \<leftarrow> divide_double xl xh y; Some (quot z, rem z) }"

definition primitive_machine_word_double_divide_quotient :: "DMINT \<Rightarrow> DMINT \<Rightarrow> DMINT \<Rightarrow> DMINT option" where
  "primitive_machine_word_double_divide_quotient xl xh y =
     do { z \<leftarrow> divide_double xl xh y; Some (quot z) }"

definition primitive_machine_word_double_divide_remainder :: "DMINT \<Rightarrow> DMINT \<Rightarrow> DMINT \<Rightarrow> DMINT option" where
  "primitive_machine_word_double_divide_remainder xl xh y =
     do { z \<leftarrow> divide_double xl xh y; Some (rem z) }"

definition primitive_machine_word_double_divide :: "DMINT \<Rightarrow> DMINT \<Rightarrow> DMINT \<Rightarrow> (DMINT \<times> DMINT) option" where
  "primitive_machine_word_double_divide xl xh y =
     do { z \<leftarrow> divide_double xl xh y; Some (quot z, rem z) }"

subsection \<open>Counting zero bits\<close>

definition low_zeros_table :: "nat list" where
  "low_zeros_table = [4, 0, 1, 0, 2, 0, 1, 0, 3, 0, 1, 0, 2, 0, 1, 0]"

definition high_zeros_table :: "nat list" where
  "high_zeros_table = [4, 3, 2, 2, 1, 1, 1, 1, 0, 0, 0, 0, 0, 0, 0, 0]"

text \<open>
  The two searches for a non-zero nibble, as they are written: the first shifts right (an
  arithmetic shift, for \<^verbatim>\<open>x\<close> is signed), the second left. \<open>None\<close> is a search that does not end.
\<close>

partial_function (option) count_low_zeros_loop :: "DMINT \<Rightarrow> nat \<Rightarrow> nat \<Rightarrow> (nat \<times> nat) option" where
  "count_low_zeros_loop x count index =
     (if index = 0
      then (let x' = signed_drop_bit 4 x in count_low_zeros_loop x' (count + 4) (unat (15 AND x')))
      else Some (count, index))"

definition primitive_machine_word_count_low_zeros :: "DMINT \<Rightarrow> DMINT option" where
  "primitive_machine_word_count_low_zeros x =
     (if x = 0 then Some (of_nat primitive_word_size)
      else do {
        let mask4 = (15 :: DMINT);
        (count, index) \<leftarrow> count_low_zeros_loop x 0 (unat (mask4 AND x));
        Some (of_nat (count + low_zeros_table ! index))
      })"

partial_function (option) count_high_zeros_loop ::
  "DUMINT \<Rightarrow> DUMINT \<Rightarrow> nat \<Rightarrow> DUMINT \<Rightarrow> (nat \<times> DUMINT) option" where
  "count_high_zeros_loop mask4 ux count uindex =
     (if uindex = 0
      then (let ux' = push_bit 4 ux in count_high_zeros_loop mask4 ux' (count + 4) (mask4 AND ux'))
      else Some (count, uindex))"

definition primitive_machine_word_count_high_zeros :: "DMINT \<Rightarrow> DMINT option" where
  "primitive_machine_word_count_high_zeros x =
     (if x = 0 then Some (of_nat primitive_word_size)
      else do {
        let mask4 = (push_bit (primitive_word_size - 4) (15 :: DUMINT));
        (count, uindex) \<leftarrow> count_high_zeros_loop mask4 x 0 (mask4 AND x);
        let index = unat (drop_bit (primitive_word_size - 4) uindex);
        Some (of_nat (count + high_zeros_table ! index))
      })"

subsection \<open>Products, and arithmetic with overflow or carry\<close>

definition multiply_double :: "DMINT \<Rightarrow> DMINT \<Rightarrow> DUMINT \<times> DUMINT" where
  "multiply_double x y =
     (let z = (ucast x :: 64 word) * ucast y in (ucast z, ucast (drop_bit LONG_BIT z)))"

definition primitive_machine_word_add_with_overflow :: "DMINT \<Rightarrow> DMINT \<Rightarrow> DMINT \<times> bool" where
  "primitive_machine_word_add_with_overflow x y =
     (let r = x + y in (r, sint (x XOR y) \<ge> 0 \<and> sint (r XOR x) < 0))"

definition primitive_machine_word_subtract_with_overflow :: "DMINT \<Rightarrow> DMINT \<Rightarrow> DMINT \<times> bool" where
  "primitive_machine_word_subtract_with_overflow x y =
     (let r = x - y in (r, sint (x XOR y) < 0 \<and> sint (r XOR x) < 0))"

definition primitive_machine_word_multiply_with_overflow ::
  "DMINT \<Rightarrow> DMINT \<Rightarrow> DUMINT \<times> DUMINT \<times> bool" where
  "primitive_machine_word_multiply_with_overflow x y =
     (let (rl, rh) = multiply_double x y
      in (rl, rh, if sint (x XOR y) < 0 then sint rh \<ge> 0 else sint rh < 0))"

definition primitive_machine_word_negative_with_overflow :: "DMINT \<Rightarrow> DMINT \<times> bool" where
  "primitive_machine_word_negative_with_overflow x =
     (let r = - x in (r, sint x < 0 \<and> sint r \<le> 0))"

definition primitive_machine_word_abs_with_overflow :: "DMINT \<Rightarrow> DMINT \<times> bool" where
  "primitive_machine_word_abs_with_overflow x =
     (let r = labs x in (r, sint x < 0 \<and> sint r \<le> 0))"

definition primitive_machine_word_shift_left_with_overflow ::
  "DMINT \<Rightarrow> DMINT \<Rightarrow> (DMINT \<times> nat) option" where
  "primitive_machine_word_shift_left_with_overflow x y = do { r \<leftarrow> c_shl x y; Some (r, 0) }"

definition primitive_machine_word_multiply_high :: "DMINT \<Rightarrow> DMINT \<Rightarrow> DMINT" where
  "primitive_machine_word_multiply_high x y = (let (zl, zh) = multiply_double x y in zh)"

definition primitive_machine_word_multiply_lowShigh :: "DMINT \<Rightarrow> DMINT \<Rightarrow> DMINT \<times> DMINT" where
  "primitive_machine_word_multiply_lowShigh x y = (let (zl, zh) = multiply_double x y in (zl, zh))"

definition primitive_machine_word_multiply_low_with_overflow :: "DMINT \<Rightarrow> DMINT \<Rightarrow> DMINT \<times> bool" where
  "primitive_machine_word_multiply_low_with_overflow x y =
     (let r = x * y
      in (r, (if sint (x XOR y) < 0 then sint r \<ge> 0 else sint r < 0) \<or>
             sint (labs r) < sint (labs x) \<or> sint (labs r) < sint (labs y)))"

definition primitive_machine_word_unsigned_add_with_carry :: "DMINT \<Rightarrow> DMINT \<Rightarrow> DUMINT \<times> DMINT" where
  "primitive_machine_word_unsigned_add_with_carry x y =
     (let uz = x + y;
          bbc = (if x AND 1 \<noteq> 0 \<and> y AND 1 \<noteq> 0 then 1 else 0) :: DUMINT
      in (uz, if sint (drop_bit 1 x + drop_bit 1 y + bbc) < 0 then 1 else 0))"

definition primitive_machine_word_unsigned_subtract_with_borrow :: "DMINT \<Rightarrow> DMINT \<Rightarrow> DUMINT \<times> DMINT" where
  "primitive_machine_word_unsigned_subtract_with_borrow x y =
     (let uz = x - y in (uz, if y > x then 1 else 0))"

definition primitive_machine_word_unsigned_multiply_high :: "DMINT \<Rightarrow> DMINT \<Rightarrow> DMINT" where
  "primitive_machine_word_unsigned_multiply_high x y = (let (zl, zh) = multiply_double x y in zh)"

definition primitive_machine_word_unsigned_multiply :: "DMINT \<Rightarrow> DMINT \<Rightarrow> DUMINT \<times> DUMINT" where
  "primitive_machine_word_unsigned_multiply x y = (let (zl, zh) = multiply_double x y in (zl, zh))"

definition primitive_machine_word_unsigned_divide :: "DMINT \<Rightarrow> DMINT \<Rightarrow> (DUMINT \<times> DUMINT) option" where
  "primitive_machine_word_unsigned_divide x y =
     do { z \<leftarrow> unsigned_divide_double x (if sint x < 0 then - 1 else 0) y; Some (quot z, rem z) }"

definition primitive_machine_word_unsigned_rotate_left :: "DMINT \<Rightarrow> DMINT \<Rightarrow> DMINT option" where
  "primitive_machine_word_unsigned_rotate_left x y =
     do { low \<leftarrow> c_shr x (of_nat LONG_BIT - y); high \<leftarrow> c_shl x y; Some (low OR high) }"

definition primitive_machine_word_unsigned_rotate_right :: "DMINT \<Rightarrow> DMINT \<Rightarrow> DMINT option" where
  "primitive_machine_word_unsigned_rotate_right x y =
     do { high \<leftarrow> c_shl x (of_nat LONG_BIT - y); low \<leftarrow> c_shr x y; Some (low OR high) }"

subsection \<open>Unsigned double words\<close>

definition primitive_machine_word_unsigned_double_divide_quotient ::
  "DMINT \<Rightarrow> DMINT \<Rightarrow> DMINT \<Rightarrow> DMINT option" where
  "primitive_machine_word_unsigned_double_divide_quotient xl xh y =
     do { z \<leftarrow> unsigned_divide_double xl xh y; Some (quot z) }"

definition primitive_machine_word_unsigned_double_divide_remainder ::
  "DMINT \<Rightarrow> DMINT \<Rightarrow> DMINT \<Rightarrow> DMINT option" where
  "primitive_machine_word_unsigned_double_divide_remainder xl xh y =
     do { z \<leftarrow> unsigned_divide_double xl xh y; Some (rem z) }"

definition primitive_machine_word_unsigned_double_divide ::
  "DMINT \<Rightarrow> DMINT \<Rightarrow> DMINT \<Rightarrow> (DUMINT \<times> DUMINT) option" where
  "primitive_machine_word_unsigned_double_divide xl xh y =
     do { z \<leftarrow> unsigned_divide_double xl xh y; Some (quot z, rem z) }"

definition primitive_machine_word_unsigned_shift_left_high :: "DMINT \<Rightarrow> DMINT \<Rightarrow> DMINT option" where
  "primitive_machine_word_unsigned_shift_left_high x y = c_shr x (of_nat LONG_BIT - y)"

definition primitive_machine_word_unsigned_double_shift_left_high ::
  "DMINT \<Rightarrow> DMINT \<Rightarrow> DMINT \<Rightarrow> DMINT option" where
  "primitive_machine_word_unsigned_double_shift_left_high xl xh y =
     do { lowpart \<leftarrow> c_shr xl (of_nat LONG_BIT - y); highpart \<leftarrow> c_shl xh y; Some (lowpart OR highpart) }"

definition primitive_machine_word_unsigned_double_shift_left ::
  "DMINT \<Rightarrow> DMINT \<Rightarrow> DMINT \<Rightarrow> (DMINT \<times> DMINT) option" where
  "primitive_machine_word_unsigned_double_shift_left xl xh y =
     do { lowpart \<leftarrow> c_shr xl (of_nat LONG_BIT - y); highpart \<leftarrow> c_shl xh y;
          low \<leftarrow> c_shl xl y; Some (low, lowpart OR highpart) }"

definition primitive_machine_word_unsigned_double_shift_right_low ::
  "DMINT \<Rightarrow> DMINT \<Rightarrow> DMINT \<Rightarrow> DMINT option" where
  "primitive_machine_word_unsigned_double_shift_right_low xl xh y =
     do { lowpart \<leftarrow> c_shr xl y; highpart \<leftarrow> c_shl xh (of_nat LONG_BIT - y); Some (lowpart OR highpart) }"

definition primitive_machine_word_unsigned_double_shift_right_high ::
  "DMINT \<Rightarrow> DMINT \<Rightarrow> DMINT \<Rightarrow> DMINT option" where
  "primitive_machine_word_unsigned_double_shift_right_high xl xh y = c_shr xh y"

definition primitive_machine_word_unsigned_double_shift_right ::
  "DMINT \<Rightarrow> DMINT \<Rightarrow> DMINT \<Rightarrow> (DMINT \<times> DMINT) option" where
  "primitive_machine_word_unsigned_double_shift_right xl xh y =
     do { lowpart \<leftarrow> c_shr xl y; highpart \<leftarrow> c_shl xh (of_nat LONG_BIT - y);
          high \<leftarrow> c_shr xh y; Some (lowpart OR highpart, high) }"

subsection \<open>Truncated quotients and their adjustments\<close>

lemma sint_mword_bounds: "- (2 ^ 31) \<le> sint (w :: mword)" "sint (w :: mword) < 2 ^ 31"
  using sint_ge [of w] sint_lt [of w] by simp_all

lemma sint_mword_of_int:
  "- (2 ^ 31) \<le> k \<Longrightarrow> k < 2 ^ 31 \<Longrightarrow> sint (word_of_int k :: mword) = k"
  by (simp add: sint_sbintrunc' signed_take_bit_int_eq_self)

lemma sint_mword_eq_0: "sint (w :: mword) = 0 \<longleftrightarrow> w = 0"
  using signed_word_eqI [of w 0, where ?'a = int] by auto

text \<open>
  \<open>trunc_of a b z\<close>: the pair \<open>z\<close> holds the quotient and the remainder of \<open>a\<close> by \<open>b\<close> rounded
  towards zero (the quotient up to a multiple of \<open>2 ^ 32\<close>). Both division routines return such
  a pair, which is what the adjustments start from.
\<close>

definition trunc_of :: "int \<Rightarrow> int \<Rightarrow> ldiv_t \<Rightarrow> bool" where
  "trunc_of a b z \<longleftrightarrow> quot z = word_of_int (a sdiv b) \<and> rem z = word_of_int (a smod b)"

lemma smod_word:
  assumes "b \<noteq> 0" and "- (2 ^ 31) \<le> b" and "b < 2 ^ 31"
  shows "sint (word_of_int (a smod b) :: mword) = a smod b"
  using smod_int_range [OF assms(1), of a] assms by (intro sint_mword_of_int) auto

lemma trunc_ofD:
  fixes y :: mword
  assumes "trunc_of a (sint y) z" and "y \<noteq> 0"
  shows "sint (rem z) = a smod sint y" and "quot z = word_of_int (a sdiv sint y)"
    and "a = (a sdiv sint y) * sint y + a smod sint y" and "\<bar>a smod sint y\<bar> < \<bar>sint y\<bar>"
    and "0 \<le> a \<Longrightarrow> 0 \<le> a smod sint y" and "a \<le> 0 \<Longrightarrow> a smod sint y \<le> 0"
    and "sint y \<noteq> 0"
proof -
  show ne: "sint y \<noteq> 0" using assms(2) sint_mword_eq_0 [of y] by metis
  show "sint (rem z) = a smod sint y"
    using assms(1) ne sint_mword_bounds [of y] by (simp add: trunc_of_def smod_word)
  show "quot z = word_of_int (a sdiv sint y)" using assms(1) by (simp add: trunc_of_def)
  show "a = (a sdiv sint y) * sint y + a smod sint y" by (simp add: sdiv_mult_smod_eq)
  show "\<bar>a smod sint y\<bar> < \<bar>sint y\<bar>" using smod_int_range [OF ne, of a] by auto
  show "0 \<le> a smod sint y" if "0 \<le> a"
    using that ne pos_mod_sign [of "\<bar>sint y\<bar>" "\<bar>a\<bar>"] by (auto simp: signed_modulo_int_def sgn_if)
  show "a smod sint y \<le> 0" if "a \<le> 0"
    using that ne pos_mod_sign [of "\<bar>sint y\<bar>" "\<bar>a\<bar>"] by (auto simp: signed_modulo_int_def sgn_if)
qed

lemma div_mod_unique:
  fixes a b q r :: int
  assumes "a = q * b + r" and "0 < b \<and> 0 \<le> r \<and> r < b \<or> b < 0 \<and> b < r \<and> r \<le> 0"
  shows "a div b = q" and "a mod b = r"
  using assms int_div_pos_eq [of a b q r] int_div_neg_eq [of a b q r]
    int_mod_pos_eq [of a b q r] int_mod_neg_eq [of a b q r] by (auto simp: mult.commute)

lemma floor_adjust:
  fixes y :: mword
  assumes "trunc_of a (sint y) z" and "y \<noteq> 0"
  shows "floor_adjust y z = \<lparr>quot = word_of_int (a div sint y), rem = word_of_int (a mod sint y)\<rparr>"
proof -
  note T = trunc_ofD [OF assms]
  define q r where "q = a sdiv sint y" and "r = a smod sint y"
  note t = T [folded q_def r_def]
  have rem: "rem z = word_of_int r" using assms(1) by (simp add: trunc_of_def r_def)
  have r0: "rem z = 0 \<longleftrightarrow> r = 0" using t(1) by (metis sint_mword_eq_0)
  show ?thesis
  proof (cases "r \<noteq> 0 \<and> (if sint y < 0 then r > 0 else r < 0)")
    case True
    then have "a div sint y = q - 1" "a mod sint y = r + sint y"
      using t(3,4,7) by (intro div_mod_unique [of a "q - 1" "sint y" "r + sint y"]; simp add: algebra_simps split: if_splits; linarith)+
    with True t r0 rem show ?thesis by (simp add: floor_adjust_def)
  next
    case False
    then have "a div sint y = q" "a mod sint y = r"
      using t(3,4,7) by (intro div_mod_unique [of a q "sint y" r]; simp split: if_splits; linarith)+
    with False t r0 rem show ?thesis by (cases z) (auto simp: floor_adjust_def)
  qed
qed

text \<open>The ceiling is the floor of the negated dividend, negated.\<close>

lemma ceiling_adjust:
  fixes y :: mword
  assumes "trunc_of a (sint y) z" and "y \<noteq> 0"
  shows "ceiling_adjust y z =
    \<lparr>quot = word_of_int (- (- a div sint y)), rem = word_of_int (- (- a mod sint y))\<rparr>"
proof -
  note T = trunc_ofD [OF assms]
  define q r where "q = a sdiv sint y" and "r = a smod sint y"
  note t = T [folded q_def r_def]
  have rem: "rem z = word_of_int r" using assms(1) by (simp add: trunc_of_def r_def)
  have r0: "rem z = 0 \<longleftrightarrow> r = 0" using t(1) by (metis sint_mword_eq_0)
  show ?thesis
  proof (cases "r \<noteq> 0 \<and> (if sint y < 0 then r < 0 else r > 0)")
    case True
    then have "- a div sint y = - q - 1" "- a mod sint y = - r + sint y"
      using t(3,4,7) by (intro div_mod_unique [of "- a" "- q - 1" "sint y" "- r + sint y"]; simp add: algebra_simps split: if_splits; linarith)+
    with True t r0 rem show ?thesis by (simp add: ceiling_adjust_def)
  next
    case False
    then have "- a div sint y = - q" "- a mod sint y = - r"
      using t(3,4,7) by (intro div_mod_unique [of "- a" "- q" "sint y" "- r"]; simp add: algebra_simps split: if_splits; linarith)+
    with False t r0 rem show ?thesis by (cases z) (auto simp: ceiling_adjust_def)
  qed
qed
lemma word_and_one_odd: "((word_of_int k :: mword) AND 1 \<noteq> 0) = odd k"
proof -
  have "odd (word_of_int k :: mword) = bit (word_of_int k :: mword) 0" by (simp only: bit_0)
  also have "\<dots> = odd k" by (simp only: bit_word_of_int_iff) (simp add: bit_0)
  finally show ?thesis by (auto simp: and_one_eq mod_2_eq_odd)
qed

text \<open>For an even divisor \<open>round_adjust\<close> rounds to nearest, ties to even.\<close>

definition rounds_to :: "int \<Rightarrow> int \<Rightarrow> int \<Rightarrow> int \<Rightarrow> bool" where
  "rounds_to a b q r \<longleftrightarrow> a = q * b + r \<and> \<bar>2 * r\<bar> \<le> \<bar>b\<bar> \<and> (\<bar>2 * r\<bar> = \<bar>b\<bar> \<longrightarrow> even q)"

lemma round_adjust:
  fixes y :: mword
  assumes "trunc_of a (sint y) z" and "y \<noteq> 0" and "even (sint y)" and "sint y \<noteq> - (2 ^ 31)"
  shows "\<exists>q r. round_adjust y z = \<lparr>quot = word_of_int q, rem = word_of_int r\<rparr> \<and> rounds_to a (sint y) q r"
proof -
  note T = trunc_ofD [OF assms(1,2)]
  define q r where "q = a sdiv sint y" and "r = a smod sint y"
  note t = T [folded q_def r_def]
  have rem: "rem z = word_of_int r" using assms(1) by (simp add: trunc_of_def r_def)
  have labs: "sint (labs y) = \<bar>sint y\<bar>"
    using assms(4) sint_mword_bounds [of y] sint_mword_of_int [of "- sint y"]
    by (auto simp: labs_def)
  define h where "h = \<bar>sint y\<bar> div 2"
  have h: "\<bar>sint y\<bar> = 2 * h" using assms(3) by (simp add: h_def)
  define th :: DMINT where "th = word_of_int (sint (labs y) sdiv 2)"
  have hb: "0 < h" "h < 2 ^ 31" using h t(7) sint_mword_bounds [of y] by linarith+
  have "sint (labs y) sdiv 2 = h"
    unfolding labs h_def by (simp add: signed_divide_int_def sgn_if)
  then have th: "th = word_of_int h" "sint th = h"
    using hb sint_mword_of_int [of h] by (auto simp: th_def)
  have mth: "sint (- th) = - h" using hb th(1) sint_mword_of_int [of "- h"] by simp
  have eq: "rem z = th \<longleftrightarrow> r = h" "rem z = - th \<longleftrightarrow> r = - h"
    using t(1) th(2) mth by (metis signed_word_eqI)+
  have odd: "(quot z AND 1 \<noteq> 0) = odd q" by (simp only: t(2) word_and_one_odd)
  note ra = round_adjust_def [of y z, folded th_def, unfolded Let_def eq odd th(2) mth t(1)]
  consider "r > h \<or> r = h \<and> odd q" "sint y < 0" | "r > h \<or> r = h \<and> odd q" "sint y > 0"
    | "r < - h \<or> r = - h \<and> odd q" "sint y < 0" | "r < - h \<or> r = - h \<and> odd q" "sint y > 0"
    | "\<bar>r\<bar> < h \<or> \<bar>r\<bar> = h \<and> even q"
    using t(7) by linarith
  then show ?thesis
  proof cases
    case 1
    then have "rounds_to a (sint y) (q - 1) (r + sint y)"
      using t(3,4) h hb by (auto simp: rounds_to_def algebra_simps)
    with 1 ra t(2) rem show ?thesis by (intro exI conjI) (auto simp: )
  next
    case 2
    then have "rounds_to a (sint y) (q + 1) (r - sint y)"
      using t(3,4) h hb by (auto simp: rounds_to_def algebra_simps)
    with 2 ra t(2) rem show ?thesis by (intro exI conjI) (auto simp: )
  next
    case 3
    then have "rounds_to a (sint y) (q + 1) (r - sint y)"
      using t(3,4) h hb by (auto simp: rounds_to_def algebra_simps)
    with 3 ra t(2) rem hb show ?thesis by (intro exI conjI) (auto simp: )
  next
    case 4
    then have "rounds_to a (sint y) (q - 1) (r + sint y)"
      using t(3,4) h hb by (auto simp: rounds_to_def algebra_simps)
    with 4 ra t(2) rem hb show ?thesis by (intro exI conjI) (auto simp: )
  next
    case 5
    then have "rounds_to a (sint y) q r"
      using t(3,4) h hb by (auto simp: rounds_to_def algebra_simps)
    with 5 ra t(2) rem hb show ?thesis by (intro exI conjI) (cases z; auto simp: )
  qed
qed

text \<open>Both division routines return truncated pairs.\<close>

definition double_value :: "DMINT \<Rightarrow> DMINT \<Rightarrow> int" where
  "double_value xl xh = sint xh * 2 ^ 32 + uint xl"

lemma ldiv_trunc_of:
  assumes "y \<noteq> 0" and "\<not> (sint x = - (2 ^ 31) \<and> sint y = - 1)"
  shows "\<exists>z. ldiv x y = Some z \<and> trunc_of (sint x) (sint y) z"
  using assms by (auto simp: ldiv_def trunc_of_def)

lemma ucast_word_of_int: "ucast (word_of_int k :: 64 word) = (word_of_int k :: mword)"
  by (rule bit_word_eqI) (simp add: bit_simps)

lemma sint_dword_of_int:
  "- (2 ^ 63) \<le> k \<Longrightarrow> k < 2 ^ 63 \<Longrightarrow> sint (word_of_int k :: 64 word) = k"
  by (simp add: sint_sbintrunc' signed_take_bit_int_eq_self)

lemma double_value_bounds: "- (2 ^ 63) \<le> double_value xl xh" "double_value xl xh < 2 ^ 63"
proof -
  define u v where "u = uint xl" and "v = sint xh"
  have "u < 2 ^ 32" "0 \<le> u" "- (2 ^ 31) \<le> v" "v < 2 ^ 31"
    using uint_lt2p [of xl] sint_mword_bounds [of xh] by (simp_all add: u_def v_def)
  then show "- (2 ^ 63) \<le> double_value xl xh" "double_value xl xh < 2 ^ 63"
    unfolding double_value_def u_def [symmetric] v_def [symmetric] by simp_all
qed

lemma sint_double_dividend:
  "sint (push_bit 32 (scast xh :: 64 word) OR (ucast xl :: 64 word)) = double_value xl xh" for xh xl :: mword
proof -
  have "push_bit 32 (scast xh :: 64 word) OR (ucast xl :: 64 word) = push_bit 32 (scast xh) + ucast xl"
    by (rule disjunctive_add [symmetric]) (auto simp: bit_simps dest: bit_imp_le_length)
  also have "\<dots> = word_of_int (double_value xl xh)"
    unfolding double_value_def push_bit_eq_mult scast_eq ucast_eq
    by (simp only: of_int_add of_int_mult of_int_power of_int_numeral)
  finally show ?thesis
    using sint_dword_of_int [of "double_value xl xh"] double_value_bounds [of xl xh] by simp
qed

lemma divide_double_trunc_of:
  assumes "y \<noteq> 0" and "\<not> (double_value xl xh = - (2 ^ 63) \<and> sint y = - 1)"
  shows "\<exists>z. divide_double xl xh y = Some z \<and> trunc_of (double_value xl xh) (sint y) z"
proof -
  have y: "sint (scast y :: 64 word) = sint y"
    using sint_mword_bounds [of y] unfolding scast_eq by (intro sint_dword_of_int) simp_all
  moreover have "(scast y :: 64 word) \<noteq> 0"
    using assms(1) y sint_mword_eq_0 [of y] by auto
  ultimately have "divide_double xl xh y =
      Some \<lparr>quot = word_of_int (double_value xl xh sdiv sint y), rem = word_of_int (double_value xl xh smod sint y)\<rparr>"
    unfolding divide_double_def Let_def sint_double_dividend ucast_word_of_int y
    using assms(2) by (simp only: if_False simp_thms)
  then show ?thesis by (simp add: trunc_of_def)
qed

lemmas trunc_ofs = ldiv_trunc_of divide_double_trunc_of

subsection \<open>Carries, borrows and double products\<close>

lemma word_of_int_wrap: "word_of_int (s + k * 2 ^ 32) = (word_of_int s :: mword)"
  unfolding word_of_int_eq_iff take_bit_eq_mod by simp

lemma sint_wrap:
  assumes "- (2 ^ 32) \<le> s" and "s < 2 ^ 32"
  shows "sint (word_of_int s :: mword) =
    (if s < - (2 ^ 31) then s + 2 ^ 32 else if s < 2 ^ 31 then s else s - 2 ^ 32)"
proof -
  have w: "sint (word_of_int s :: mword) = sint (word_of_int (s + k * 2 ^ 32) :: mword)" for k
    unfolding word_of_int_wrap by simp
  consider "s < - (2 ^ 31)" | "- (2 ^ 31) \<le> s" "s < 2 ^ 31" | "2 ^ 31 \<le> s" by linarith
  then show ?thesis
  proof cases
    case 1
    with assms show ?thesis unfolding w [of 1] by (subst sint_mword_of_int) simp_all
  next
    case 2
    then show ?thesis by (subst sint_mword_of_int) simp_all
  next
    case 3
    with assms show ?thesis unfolding w [of "- 1"] by (subst sint_mword_of_int) simp_all
  qed
qed

lemma sint_add_cases:
  "sint (x + y :: mword) = (if sint x + sint y < - (2 ^ 31) then sint x + sint y + 2 ^ 32
    else if sint x + sint y < 2 ^ 31 then sint x + sint y else sint x + sint y - 2 ^ 32)"
  using sint_wrap [of "sint x + sint y"] sint_mword_bounds [of x] sint_mword_bounds [of y] by simp

lemma sint_diff_cases:
  "sint (x - y :: mword) = (if sint x - sint y < - (2 ^ 31) then sint x - sint y + 2 ^ 32
    else if sint x - sint y < 2 ^ 31 then sint x - sint y else sint x - sint y - 2 ^ 32)"
  using sint_wrap [of "sint x - sint y"] sint_mword_bounds [of x] sint_mword_bounds [of y] by simp

lemma sint_xor_neg: "sint (x XOR y :: mword) < 0 \<longleftrightarrow> (sint x < 0) \<noteq> (sint y < 0)"
  by (simp add: signed_xor_eq xor_negative_int_iff)

lemma sint_minus_cases:
  "sint (- y :: mword) = (if sint y = - (2 ^ 31) then sint y else - sint y)"
proof (cases "sint y = - (2 ^ 31)")
  case True
  have "- y = word_of_int (- sint y + (- 1) * 2 ^ 32)" unfolding word_of_int_wrap by simp
  then have "sint (- y) = sint (word_of_int (- (2 ^ 31)) :: mword)" using True by simp
  then show ?thesis using True sint_mword_of_int [of "- (2 ^ 31)"] by simp
next
  case False
  then show ?thesis
    using sint_mword_bounds [of y] sint_mword_of_int [of "- sint y"] by simp
qed


lemma sint_neg_iff: "sint (w :: mword) < 0 \<longleftrightarrow> 2 ^ 31 \<le> unat w"
proof -
  have "sint w < 0 \<longleftrightarrow> bit w 31" using bit_last_iff [of w] by simp
  also have "\<dots> \<longleftrightarrow> bit (unat w) 31" by (simp add: bit_unsigned_iff)
  also have "\<dots> \<longleftrightarrow> odd (unat w div 2 ^ 31)" by (rule bit_iff_odd)
  also have "\<dots> \<longleftrightarrow> 2 ^ 31 \<le> unat w"
  proof (cases "2 ^ 31 \<le> unat w")
    case True
    then have "unat w div 2 ^ 31 = 1"
      using unat_mword_less [of w] by (intro div_nat_eqI) simp_all
    with True show ?thesis by simp
  qed simp
  finally show ?thesis .
qed

lemma unat_half: "unat (drop_bit 1 x) = unat x div 2" for x :: mword
  by (simp add: drop_bit_eq_div unat_div_distrib)

lemma and_one_odd: "(x AND 1 \<noteq> 0) = odd (unat x)" for x :: mword
  by (simp add: and_one_eq mod_2_eq_odd bit_unsigned_iff flip: bit_0)

lemma unsigned_add_with_carry_correct:
  "case primitive_machine_word_unsigned_add_with_carry x y of (r, c) \<Rightarrow>
    unat r + 2 ^ 32 * unat c = unat x + unat y"
proof -
  define bbc :: DUMINT where "bbc = (if x AND 1 \<noteq> 0 \<and> y AND 1 \<noteq> 0 then 1 else 0)"
  have bbc: "unat bbc = of_bool (odd (unat x) \<and> odd (unat y))"
    unfolding bbc_def and_one_odd by simp
  have half: "unat (drop_bit 1 x + drop_bit 1 y + bbc) = (unat x + unat y) div 2"
  proof -
    have "unat x div 2 + unat y div 2 + of_bool (odd (unat x) \<and> odd (unat y)) = (unat x + unat y) div 2"
      by (auto elim!: oddE evenE)
    moreover have "(unat x + unat y) div 2 < 2 ^ 32"
      using unat_mword_less [of x] unat_mword_less [of y] by simp
    ultimately show ?thesis
      unfolding unat_word_ariths unat_half bbc by (simp add: mod_add_left_eq)
  qed
  have "sint (drop_bit 1 x + drop_bit 1 y + bbc) < 0 \<longleftrightarrow> 2 ^ 32 \<le> unat x + unat y"
    unfolding sint_neg_iff half by auto
  moreover have "unat (x + y) = (if 2 ^ 32 \<le> unat x + unat y then unat x + unat y - 2 ^ 32 else unat x + unat y)"
    using unat_mword_less [of x] unat_mword_less [of y]
    by (auto simp: unat_word_ariths mod_if)
  ultimately show ?thesis
    unfolding primitive_machine_word_unsigned_add_with_carry_def Let_def bbc_def [symmetric] by simp
qed

lemma unsigned_subtract_with_borrow_correct:
  "case primitive_machine_word_unsigned_subtract_with_borrow x y of (r, c) \<Rightarrow>
    unat x + 2 ^ 32 * unat c = unat y + unat r"
proof (cases "y > x")
  case True
  then have "unat x < unat y" by (simp add: word_less_nat_alt)
  moreover have "unat (x - y) = 2 ^ 32 + unat x - unat y"
    using True unat_sub_if' [of x y] by (simp add: word_le_nat_alt word_less_nat_alt)
  ultimately show ?thesis
    using True unat_mword_less [of y]
    by (simp add: primitive_machine_word_unsigned_subtract_with_borrow_def of_nat_diff)
next
  case False
  then have "unat (x - y) = unat x - unat y" "unat y \<le> unat x"
    by (simp_all add: unat_sub word_le_nat_alt word_less_nat_alt)
  with False show ?thesis
    by (simp add: primitive_machine_word_unsigned_subtract_with_borrow_def of_nat_diff)
qed

lemma unat_ucast_dword: "unat (ucast z :: mword) = unat z mod 2 ^ 32" for z :: "64 word"
  by (simp add: unsigned_ucast_eq take_bit_eq_mod)

lemma unat_ucast_up: "unat (ucast x :: 64 word) = unat x" for x :: mword
  using unat_mword_less [of x] by (simp add: unsigned_ucast_eq take_bit_nat_eq_self)

lemma unat_dword_less: "unat (z :: 64 word) < 2 ^ 64"
  using unsigned_less [of z, where ?'a = nat] by simp

lemma multiply_double_correct:
  "multiply_double x y = (l, h) \<Longrightarrow> unat l + 2 ^ 32 * unat h = unat x * unat y"
proof -
  define z where "z = (ucast x :: 64 word) * ucast y"
  have "unat x * unat y < 2 ^ 32 * 2 ^ 32"
    by (intro mult_strict_mono) (use unat_mword_less [of x] unat_mword_less [of y] in auto)
  then have z: "unat z = unat x * unat y"
    unfolding z_def unat_word_ariths unat_ucast_up by simp
  have "unat (drop_bit 32 z) = unat z div 2 ^ 32"
    by (simp add: drop_bit_eq_div unat_div_distrib unsigned_drop_bit_eq)
  moreover have "unat z div 2 ^ 32 < 2 ^ 32"
    using unat_dword_less [of z] by (simp add: less_mult_imp_div_less)
  moreover assume "multiply_double x y = (l, h)"
  ultimately show ?thesis
    unfolding multiply_double_def z_def [symmetric]
    by (auto simp: unat_ucast_dword z [symmetric])
qed

lemma unat_width_minus:
  assumes "0 < unat (y :: mword)" "unat y < 32"
  shows "unat (of_nat 32 - y) = 32 - unat y"
  using assms by (simp add: unat_sub word_le_nat_alt)

subsection \<open>Rotations and double shifts\<close>

lemma rotate_bits:
  fixes x :: mword
  assumes "0 < m" "m < 32"
  shows "drop_bit (32 - m) x OR push_bit m x = word_rotl m x"
    and "drop_bit m x OR push_bit (32 - m) x = word_rotr m x"
proof -
  show "drop_bit (32 - m) x OR push_bit m x = word_rotl m x"
  proof (rule bit_word_eqI)
    fix n assume n: "n < LENGTH(32)"
    show "bit (drop_bit (32 - m) x OR push_bit m x) n = bit (word_rotl m x) n"
    proof (cases "n < m")
      case True
      then have "(n + (32 - m)) mod 32 = 32 - m + n" using assms n by simp
      with True assms n show ?thesis by (auto simp: bit_word_rotl_iff bit_or_iff bit_drop_bit_eq bit_push_bit_iff)
    next
      case False
      then have "(n + (32 - m)) mod 32 = n - m" using assms n by (simp add: mod_if)
      with False assms n show ?thesis
        by (auto simp: bit_word_rotl_iff bit_or_iff bit_drop_bit_eq bit_push_bit_iff dest: bit_imp_le_length)
    qed
  qed
  show "drop_bit m x OR push_bit (32 - m) x = word_rotr m x"
  proof (rule bit_word_eqI)
    fix n assume n: "n < LENGTH(32)"
    show "bit (drop_bit m x OR push_bit (32 - m) x) n = bit (word_rotr m x) n"
    proof (cases "n < 32 - m")
      case True
      then have "(n + m) mod 32 = n + m" using assms n by simp
      with True assms n show ?thesis
        by (auto simp: bit_word_rotr_iff bit_or_iff bit_drop_bit_eq bit_push_bit_iff add.commute [of m n])
    next
      case False
      then have "(n + m) mod 32 = n - (32 - m)" using assms n by (simp add: mod_if)
      with False assms n show ?thesis
        by (auto simp: bit_word_rotr_iff bit_or_iff bit_drop_bit_eq bit_push_bit_iff dest: bit_imp_le_length)
    qed
  qed
qed

lemma rotate_correct:
  assumes "0 < unat y" and "unat y < LONG_BIT"
  shows "primitive_machine_word_unsigned_rotate_left x y = Some (word_rotl (unat y) x)"
    and "primitive_machine_word_unsigned_rotate_right x y = Some (word_rotr (unat y) x)"
  using assms unat_width_minus [OF assms] rotate_bits [OF assms, of x]
  by (simp_all add: primitive_machine_word_unsigned_rotate_left_def
      primitive_machine_word_unsigned_rotate_right_def c_shr_def c_shl_def)

definition dword :: "DUMINT \<Rightarrow> DUMINT \<Rightarrow> 64 word" where
  "dword xl xh = push_bit 32 (ucast xh) OR ucast xl"

lemma bit_dword: "bit (dword xl xh) n \<longleftrightarrow> (if n < 32 then bit xl n else bit xh (n - 32))"
  by (auto simp: dword_def bit_simps dest: bit_imp_le_length)

lemma double_shift_left:
  assumes "0 < unat y" and "unat y < LONG_BIT"
  shows "\<exists>low high. primitive_machine_word_unsigned_double_shift_left xl xh y = Some (low, high) \<and>
    dword low high = push_bit (unat y) (dword xl xh)"
proof -
  define m where "m = unat y"
  have m: "0 < m" "m < 32" using assms by (simp_all add: m_def)
  have "dword (push_bit m xl) (drop_bit (32 - m) xl OR push_bit m xh) = push_bit m (dword xl xh)"
  proof (rule bit_word_eqI)
    fix n assume "n < LENGTH(64)"
    then show "bit (dword (push_bit m xl) (drop_bit (32 - m) xl OR push_bit m xh)) n =
        bit (push_bit m (dword xl xh)) n"
      using m by (auto simp: bit_dword bit_simps ac_simps dest: bit_imp_le_length)
  qed
  then show ?thesis
    using assms unat_width_minus [OF assms]
    by (simp add: primitive_machine_word_unsigned_double_shift_left_def c_shr_def c_shl_def m_def)
qed

lemma double_shift_right:
  assumes "0 < unat y" and "unat y < LONG_BIT"
  shows "\<exists>low high. primitive_machine_word_unsigned_double_shift_right xl xh y = Some (low, high) \<and>
    dword low high = drop_bit (unat y) (dword xl xh)"
proof -
  define m where "m = unat y"
  have m: "0 < m" "m < 32" using assms by (simp_all add: m_def)
  have "dword (drop_bit m xl OR push_bit (32 - m) xh) (drop_bit m xh) = drop_bit m (dword xl xh)"
  proof (rule bit_word_eqI)
    fix n assume "n < LENGTH(64)"
    then show "bit (dword (drop_bit m xl OR push_bit (32 - m) xh) (drop_bit m xh)) n =
        bit (drop_bit m (dword xl xh)) n"
      using m by (auto simp: bit_dword bit_simps ac_simps dest: bit_imp_le_length)
  qed
  then show ?thesis
    using assms unat_width_minus [OF assms]
    by (simp add: primitive_machine_word_unsigned_double_shift_right_def c_shr_def c_shl_def m_def)
qed

subsection \<open>The searches for a set bit\<close>

lemma mask4: "(15 :: mword) = mask 4"
  by (simp add: mask_eq_exp_minus_1)

lemma bit_index: "bit (unat (15 AND x :: mword)) j \<longleftrightarrow> j < 4 \<and> bit x j"
  by (auto simp: mask4 bit_simps dest: bit_imp_le_length)

lemma index_less: "unat (15 AND x :: mword) < 16"
proof -
  have "15 AND x = x AND mask 4" unfolding mask4 by (rule and.commute)
  then have "unat (15 AND x) = unat x mod 2 ^ 4" by (simp only: and_mask_mod)
  then show ?thesis by simp
qed

lemma low_zeros_table_correct:
  assumes "i < 16" and "k < 4" and "bit i k" and "\<And>j. j < k \<Longrightarrow> \<not> bit i j"
  shows "low_zeros_table ! i = k"
proof -
  have "k \<in> {0, 1, 2, 3}" using assms(2) by auto
  moreover have "i \<in> {0, 1, 2, 3, 4, 5, 6, 7, 8, 9, 10, 11, 12, 13, 14, 15}"
    using assms(1) by (simp add: eval_nat_numeral less_Suc_eq)
  ultimately show ?thesis
    using assms(3) assms(4) [of 0] assms(4) [of 1] assms(4) [of 2]
    by (auto simp: low_zeros_table_def bit_iff_odd)
qed

lemma count_low_zeros_loop_correct:
  "k < 32 \<Longrightarrow> bit x k \<Longrightarrow> (\<And>j. j < k \<Longrightarrow> \<not> bit x j) \<Longrightarrow>
    \<exists>i. count_low_zeros_loop x c (unat (15 AND x)) = Some (c + 4 * (k div 4), i) \<and>
      low_zeros_table ! i = k mod 4"
proof (induction k arbitrary: x c rule: less_induct)
  case (less k)
  show ?case
  proof (cases "k < 4")
    case True
    have "low_zeros_table ! unat (15 AND x) = k"
      using True less.prems by (intro low_zeros_table_correct index_less) (auto simp: bit_index)
    moreover have "unat (15 AND x) \<noteq> 0"
    proof
      assume "unat (15 AND x) = 0"
      then have "\<not> bit (unat (15 AND x)) k" by simp
      with True less.prems(2) show False by (simp only: bit_index simp_thms)
    qed
    ultimately show ?thesis using True by (simp add: count_low_zeros_loop.simps)
  next
    case False
    have "15 AND x = 0"
      using False less.prems(3) by (intro bit_word_eqI) (auto simp: mask4 bit_simps)
    moreover obtain i where
      "count_low_zeros_loop (signed_drop_bit 4 x) (c + 4) (unat (15 AND signed_drop_bit 4 x)) =
        Some (c + 4 + 4 * ((k - 4) div 4), i)" "low_zeros_table ! i = (k - 4) mod 4"
    proof -
      have bits: "bit (signed_drop_bit 4 x) j \<longleftrightarrow> bit x (4 + j)" if "j < 28" for j
        using that by (simp add: bit_signed_drop_bit_iff)
      have "k - 4 < k" "k - 4 < 32" "bit (signed_drop_bit 4 x) (k - 4)"
        using False less.prems(1,2) bits [of "k - 4"] by auto
      moreover have "\<not> bit (signed_drop_bit 4 x) j" if "j < k - 4" for j
        using that less.prems(1,3) bits [of j] by auto
      ultimately show ?thesis using less.IH [of "k - 4" "signed_drop_bit 4 x" "c + 4"] that by blast
    qed
    ultimately show ?thesis
      using False by (simp add: count_low_zeros_loop.simps [of x] Let_def le_mod_geq le_div_geq)
  qed
qed

lemma count_low_zeros_correct:
  assumes "x \<noteq> 0"
  shows "primitive_machine_word_count_low_zeros x = Some (of_nat (LEAST k. bit x k))"
proof -
  from assms obtain k0 where "bit x k0" by (auto simp: bit_eq_iff)
  define k where "k = (LEAST k. bit x k)"
  have k: "bit x k" unfolding k_def using \<open>bit x k0\<close> by (rule LeastI)
  moreover have "\<not> bit x j" if "j < k" for j using that not_less_Least unfolding k_def by blast
  moreover from k have "k < 32" using bit_imp_le_length [of x k] by simp
  ultimately obtain i where "count_low_zeros_loop x 0 (unat (15 AND x)) = Some (4 * (k div 4), i)"
    "low_zeros_table ! i = k mod 4"
    using count_low_zeros_loop_correct [of k x 0] by auto
  then show ?thesis
    using assms unfolding primitive_machine_word_count_low_zeros_def Let_def k_def [symmetric]
    by (simp flip: of_nat_add)
qed

lemma count_high_zeros_loop_None:
  "15 AND ux = 0 \<Longrightarrow> count_high_zeros_loop 15 ux c 0 = None"
proof -
  have "m = 15 \<longrightarrow> u = 15 AND ux \<longrightarrow> u \<noteq> 0"
    if "count_high_zeros_loop m ux c u = Some r" for m ux c u r
    using that
  proof (rule count_high_zeros_loop.raw_induct [rotated])
    fix f and m ux u :: mword and c :: nat and r
    assume IH: "\<And>m ux c u r. f m ux c u = Some r \<Longrightarrow> m = 15 \<longrightarrow> u = 15 AND ux \<longrightarrow> u \<noteq> 0"
      and r: "(if u = 0 then let ux' = push_bit 4 ux in f m ux' (c + 4) (m AND ux') else Some (c, u)) = Some r"
    have "(15 :: mword) AND push_bit 4 ux = 0"
      by (intro bit_word_eqI) (auto simp: mask4 bit_simps)
    with r IH [of 15 "push_bit 4 ux" "c + 4" 0 r] show "m = 15 \<longrightarrow> u = 15 AND ux \<longrightarrow> u \<noteq> 0"
      by (auto split: if_splits simp: Let_def)
  qed
  then show "15 AND ux = 0 \<Longrightarrow> ?thesis"
    by (metis not_None_eq)
qed

text \<open>What the second search computes: the mask is the low nibble, which no left shift fills.\<close>

lemma count_high_zeros_eq:
  "primitive_machine_word_count_high_zeros x =
    (if x = 0 then Some 4
     else if 15 AND x = 0 then None
     else Some (of_nat (high_zeros_table ! unat (15 AND x))))"
proof (cases "15 AND x = 0")
  case True
  then show ?thesis
    by (simp add: primitive_machine_word_count_high_zeros_def primitive_word_size_def Let_def
        count_high_zeros_loop_None)
next
  case False
  then have "count_high_zeros_loop 15 x 0 (15 AND x) = Some (0, 15 AND x)"
    by (simp add: count_high_zeros_loop.simps)
  with False show ?thesis
    by (auto simp: primitive_machine_word_count_high_zeros_def primitive_word_size_def Let_def)
qed

subsection \<open>What the primitives compute\<close>

text \<open>
  C34: floor and ceiling division of machine words return the mathematical quotient and remainder
  for every dividend and every divisor other than 0, the one overflowing case (the most negative
  word by -1) apart, and the quotient-only and remainder-only entry points agree with them.
\<close>

theorem floor_ceiling_correct:
  assumes "y \<noteq> 0" and "\<not> (sint x = - (2 ^ 31) \<and> sint y = - 1)"
  shows "primitive_machine_word_floorS x y =
      Some (word_of_int (sint x div sint y), word_of_int (sint x mod sint y)) \<and>
    primitive_machine_word_floorS_quotient x y = Some (word_of_int (sint x div sint y)) \<and>
    primitive_machine_word_floorS_remainder x y = Some (word_of_int (sint x mod sint y)) \<and>
    primitive_machine_word_ceilingS x y =
      Some (word_of_int (- (- sint x div sint y)), word_of_int (- (- sint x mod sint y))) \<and>
    primitive_machine_word_ceilingS_quotient x y = Some (word_of_int (- (- sint x div sint y))) \<and>
    primitive_machine_word_ceilingS_remainder x y = Some (word_of_int (- (- sint x mod sint y)))"
proof -
  obtain z where z: "ldiv x y = Some z" "trunc_of (sint x) (sint y) z"
    using ldiv_trunc_of [OF assms] by blast
  show ?thesis
    unfolding primitive_machine_word_floorS_def primitive_machine_word_floorS_quotient_def
      primitive_machine_word_floorS_remainder_def primitive_machine_word_ceilingS_def
      primitive_machine_word_ceilingS_quotient_def primitive_machine_word_ceilingS_remainder_def
      z(1) Let_def
    using floor_adjust [OF z(2) assms(1)] ceiling_adjust [OF z(2) assms(1)] by simp
qed

theorem floor_ceiling_correct_witness:
  "primitive_machine_word_floorS (- 7) 2 = Some (- 4, 1)"
proof -
  have "sint (- 7 :: DMINT) = - 7" "sint (2 :: DMINT) = 2" by simp_all
  then show ?thesis using floor_ceiling_correct [of 2 "- 7"] by simp
qed

text \<open>
  Division of a double word by a word, rounded down, up or towards zero, returns the low words
  of the mathematical quotient and remainder of the 64-bit dividend (a remainder always fits).
\<close>

theorem double_floor_ceiling_correct:
  assumes "y \<noteq> 0" and "\<not> (double_value xl xh = - (2 ^ 63) \<and> sint y = - 1)"
  shows "primitive_machine_word_double_floorS xl xh y =
      Some (word_of_int (double_value xl xh div sint y), word_of_int (double_value xl xh mod sint y)) \<and>
    primitive_machine_word_double_ceilingS xl xh y =
      Some (word_of_int (- (- double_value xl xh div sint y)),
            word_of_int (- (- double_value xl xh mod sint y))) \<and>
    primitive_machine_word_double_truncateS xl xh y =
      Some (word_of_int (double_value xl xh sdiv sint y), word_of_int (double_value xl xh smod sint y))"
proof -
  obtain z where z: "divide_double xl xh y = Some z" "trunc_of (double_value xl xh) (sint y) z"
    using divide_double_trunc_of [OF assms] by blast
  show ?thesis
    unfolding primitive_machine_word_double_floorS_def primitive_machine_word_double_ceilingS_def
      primitive_machine_word_double_truncateS_def z(1) Let_def
    using floor_adjust [OF z(2) assms(1)] ceiling_adjust [OF z(2) assms(1)] z(2)
    by (simp add: trunc_of_def)
qed

theorem double_floor_ceiling_correct_witness:
  "primitive_machine_word_double_floorS 1 (- 1) (- 2) = Some (2147483647, - 1)"
proof -
  have v: "double_value 1 (- 1) = - 4294967295" "sint (- 2 :: DMINT) = - 2" 
    by (simp_all add: double_value_def)
  then show ?thesis using double_floor_ceiling_correct [of "- 2" 1 "- 1"] by simp
qed

text \<open>
  For an even divisor, rounding division of single and of double words returns a quotient
  nearest to the exact one, with ties resolved to the even quotient.
\<close>

theorem round_even_divisor:
  assumes "y \<noteq> 0" and "even (sint y)" and "sint y \<noteq> - (2 ^ 31)"
  shows "(\<exists>q r. primitive_machine_word_roundS x y = Some (word_of_int q, word_of_int r) \<and>
      primitive_machine_word_roundS_quotient x y = Some (word_of_int q) \<and>
      primitive_machine_word_roundS_remainder x y = Some (word_of_int r) \<and>
      rounds_to (sint x) (sint y) q r) \<and>
    (\<exists>q r. primitive_machine_word_double_roundS xl xh y = Some (word_of_int q, word_of_int r) \<and>
      rounds_to (double_value xl xh) (sint y) q r)"
proof -
  have y1: "sint y \<noteq> - 1" using assms(2) by auto
  then obtain z where z: "ldiv x y = Some z" "trunc_of (sint x) (sint y) z"
    using ldiv_trunc_of [OF assms(1)] by blast
  obtain w where w: "divide_double xl xh y = Some w" "trunc_of (double_value xl xh) (sint y) w"
    using divide_double_trunc_of [OF assms(1)] y1 by blast
  obtain q r where q: "round_adjust y z = \<lparr>quot = word_of_int q, rem = word_of_int r\<rparr>"
    "rounds_to (sint x) (sint y) q r" using round_adjust [OF z(2) assms] by blast
  obtain q' r' where q': "round_adjust y w = \<lparr>quot = word_of_int q', rem = word_of_int r'\<rparr>"
    "rounds_to (double_value xl xh) (sint y) q' r'" using round_adjust [OF w(2) assms] by blast
  show ?thesis
    unfolding primitive_machine_word_roundS_def primitive_machine_word_roundS_quotient_def
      primitive_machine_word_roundS_remainder_def primitive_machine_word_double_roundS_def
      z(1) w(1) Let_def
    using q q' by (intro conjI exI [of _ q] exI [of _ r] exI [of _ q'] exI [of _ r']) simp_all
qed

theorem round_even_divisor_witness:
  "\<exists>q r. primitive_machine_word_roundS 7 2 = Some (word_of_int q, word_of_int r) \<and> rounds_to 7 2 q r"
  using round_even_divisor [of 2 7 0 0] by auto

text \<open>
  Rounding division halves the divisor before it compares, and so for an odd divisor takes a
  remainder below one half for a tie: dividing any odd word by 1 returns the word plus one and
  remainder -1.
\<close>

theorem round_by_one_wrong:
  "primitive_machine_word_roundS x 1 = Some (if odd (sint x) then (x + 1, - 1) else (x, 0))"
proof -
  have "ldiv x 1 = Some \<lparr>quot = x, rem = 0\<rparr>" by (simp add: ldiv_def signed_modulo_int_def)
  moreover have "(x AND 1 \<noteq> 0) = odd (sint x)"
    using word_and_one_odd [of "sint x"] by simp
  moreover have "labs 1 = 1" by (simp add: labs_def)
  moreover have "(1 :: int) sdiv 2 = 0" by (simp add: signed_divide_int_def)
  ultimately show ?thesis
    unfolding primitive_machine_word_roundS_def by (simp add: round_adjust_def)
qed

text \<open>
  Signed addition, subtraction, negation and absolute value return the wrapped result and flag
  an overflow exactly when the mathematical result is not a 32-bit signed integer.
\<close>

theorem add_subtract_with_overflow_correct:
  "primitive_machine_word_add_with_overflow x y =
     (word_of_int (sint x + sint y), \<not> (- (2 ^ 31) \<le> sint x + sint y \<and> sint x + sint y < 2 ^ 31)) \<and>
   primitive_machine_word_subtract_with_overflow x y =
     (word_of_int (sint x - sint y), \<not> (- (2 ^ 31) \<le> sint x - sint y \<and> sint x - sint y < 2 ^ 31)) \<and>
   primitive_machine_word_negative_with_overflow x =
     (word_of_int (- sint x), \<not> - sint x < 2 ^ 31) \<and>
   primitive_machine_word_abs_with_overflow x =
     (word_of_int \<bar>sint x\<bar>, \<not> \<bar>sint x\<bar> < 2 ^ 31)"
proof -
  note b = sint_mword_bounds [of x] sint_mword_bounds [of y]
  have "sint (x XOR y) \<ge> 0 \<and> sint ((x + y) XOR x) < 0 \<longleftrightarrow>
      \<not> (- (2 ^ 31) \<le> sint x + sint y \<and> sint x + sint y < 2 ^ 31)"
    unfolding linorder_not_less [symmetric] sint_xor_neg sint_add_cases using b by auto
  moreover have "sint (x XOR y) < 0 \<and> sint ((x - y) XOR x) < 0 \<longleftrightarrow>
      \<not> (- (2 ^ 31) \<le> sint x - sint y \<and> sint x - sint y < 2 ^ 31)"
    unfolding sint_xor_neg sint_diff_cases using b by auto
  moreover have "sint x < 0 \<and> sint (- x) \<le> 0 \<longleftrightarrow> \<not> - sint x < 2 ^ 31"
    unfolding sint_minus_cases using b by auto
  moreover have "sint x < 0 \<and> sint (labs x) \<le> 0 \<longleftrightarrow> \<not> \<bar>sint x\<bar> < 2 ^ 31"
    unfolding labs_def using sint_minus_cases [of x] b by auto
  moreover have "labs x = word_of_int \<bar>sint x\<bar>" by (simp add: labs_def)
  ultimately show ?thesis
    unfolding primitive_machine_word_add_with_overflow_def primitive_machine_word_subtract_with_overflow_def
      primitive_machine_word_negative_with_overflow_def primitive_machine_word_abs_with_overflow_def Let_def
    by simp
qed

text \<open>
  C36: signed multiplication takes the high word from an unsigned product, and so flags an overflow
  for every negative word multiplied by 1, although it returns that word as the low part.
\<close>

theorem multiply_with_overflow_wrong:
  assumes "sint x < 0"
  shows "snd (snd (primitive_machine_word_multiply_with_overflow x 1)) \<and>
    fst (primitive_machine_word_multiply_with_overflow x 1) = x"
proof -
  obtain l h where lh: "multiply_double x 1 = (l, h)" by fastforce
  then have sum: "unat l + 2 ^ 32 * unat h = unat x" using multiply_double_correct [OF lh] by simp
  then have h: "unat h = 0" using unat_mword_less [of x] by auto
  with sum have "unat l = unat x" by simp
  then have "l = x" by (simp add: word_unat_eq_iff)
  moreover have "h = 0" using h by (simp add: unat_eq_0)
  moreover have "sint (x XOR 1) < 0" using assms by (simp add: sint_xor_neg)
  ultimately show ?thesis
    by (simp add: primitive_machine_word_multiply_with_overflow_def lh)
qed

theorem multiply_with_overflow_wrong_witness:
  "snd (snd (primitive_machine_word_multiply_with_overflow (- 1) 1))"
  using multiply_with_overflow_wrong [of "- 1"] by simp

text \<open>
  Unsigned addition with carry, subtraction with borrow and multiplication are exact: result,
  carry or borrow, and the two halves of the product account for the whole value.
\<close>

theorem unsigned_arithmetic_correct:
  "(case primitive_machine_word_unsigned_add_with_carry x y of (r, c) \<Rightarrow>
     unat r + 2 ^ 32 * unat c = unat x + unat y) \<and>
   (case primitive_machine_word_unsigned_subtract_with_borrow x y of (r, c) \<Rightarrow>
     unat x + 2 ^ 32 * unat c = unat y + unat r) \<and>
   (case primitive_machine_word_unsigned_multiply x y of (l, h) \<Rightarrow>
     unat l + 2 ^ 32 * unat h = unat x * unat y)"
proof -
  obtain l h where lh: "multiply_double x y = (l, h)" by fastforce
  show ?thesis
    using unsigned_add_with_carry_correct unsigned_subtract_with_borrow_correct multiply_double_correct [OF lh]
    by (simp add: primitive_machine_word_unsigned_multiply_def lh)
qed

text \<open>
  The count of low zero bits of a word that is not 0 is the index of its lowest set bit. For 0
  it is 4, the size of a word in bytes. The count of high zeros uses the same size as a number of
  bits, looks at the low nibble only, and does not return for a word whose low nibble is 0.
\<close>

theorem count_zeros:
  "primitive_machine_word_count_low_zeros x = Some (if x = 0 then 4 else of_nat (LEAST k. bit x k)) \<and>
   primitive_machine_word_count_high_zeros x =
     (if x = 0 then Some 4 else if 15 AND x = 0 then None
      else Some (of_nat (high_zeros_table ! unat (15 AND x))))"
  using count_low_zeros_correct [of x] count_high_zeros_eq [of x]
  by (simp add: primitive_machine_word_count_low_zeros_def primitive_word_size_def)

text \<open>
  For counts 1 to 31 the rotations are the rotations of a word, and the double shifts are shifts
  of the 64-bit number the two words stand for.
\<close>

theorem rotations_and_double_shifts:
  assumes "0 < unat y" and "unat y < LONG_BIT"
  shows "primitive_machine_word_unsigned_rotate_left x y = Some (word_rotl (unat y) x) \<and>
    primitive_machine_word_unsigned_rotate_right x y = Some (word_rotr (unat y) x) \<and>
    (\<exists>low high. primitive_machine_word_unsigned_double_shift_left xl xh y = Some (low, high) \<and>
      dword low high = push_bit (unat y) (dword xl xh)) \<and>
    (\<exists>low high. primitive_machine_word_unsigned_double_shift_right xl xh y = Some (low, high) \<and>
      dword low high = drop_bit (unat y) (dword xl xh))"
  using rotate_correct [OF assms] double_shift_left [OF assms] double_shift_right [OF assms] by blast

theorem rotations_and_double_shifts_witness:
  "primitive_machine_word_unsigned_rotate_left 0x80000001 4 = Some 24"
proof -
  have "word_rotl 4 0x80000001 = (24 :: mword)" by code_simp
  then show ?thesis using rotations_and_double_shifts [of 4] by simp
qed

end
