(* ===== verification/Bit_Table.thy ===== *)
theory Bit_Table
  imports Mpm_Words
begin

text \<open>
  Bit tables (\<^verbatim>\<open>bt.c\<close>, \<^verbatim>\<open>bt.h\<close>): the bit accessors, the macro that walks a range by words where it
  can, and the operations built from it. A table is the memory from its base pointer on, a
  function from word indices to words; an operation that touches a word it should not is visible
  in the result. An index is a natural number: \<^verbatim>\<open>BTSize\<close> asserts that a table has at most
  \<open>2 ^ 32 - 32\<close> bits, so the index sums of this theory do not wrap
  (\<open>unat_BTIndexAlignUp\<close>). The check \<^verbatim>\<open>BTCheck\<close> of the table pointer itself is left out.
\<close>

type_synonym BT = "nat \<Rightarrow> mword"

subsection \<open>Masks and indices\<close>

definition BTIndexAlignUp :: "nat \<Rightarrow> nat" where
  "BTIndexAlignUp index = (index + MPS_WORD_WIDTH - 1) div MPS_WORD_WIDTH * MPS_WORD_WIDTH"

definition BTIndexAlignDown :: "nat \<Rightarrow> nat" where
  "BTIndexAlignDown index = index div MPS_WORD_WIDTH * MPS_WORD_WIDTH"

definition BTMaskLow :: "nat \<Rightarrow> mword" where
  "BTMaskLow base = push_bit base (NOT 0)"

definition BTMaskHigh :: "nat \<Rightarrow> mword" where
  "BTMaskHigh limit = drop_bit (MPS_WORD_WIDTH - limit) (NOT 0)"

definition BTMask :: "nat \<Rightarrow> nat \<Rightarrow> mword" where
  "BTMask base limit = BTMaskHigh limit AND BTMaskLow base"

definition BTWordIndex :: "nat \<Rightarrow> nat" where
  "BTWordIndex index = drop_bit MPS_WORD_SHIFT index"

definition BTBitIndex :: "nat \<Rightarrow> nat" where
  "BTBitIndex index = index AND (MPS_WORD_WIDTH - 1)"

definition BTIsSmallRange :: "nat \<Rightarrow> nat \<Rightarrow> bool" where
  "BTIsSmallRange base limit \<longleftrightarrow> base + 6 \<ge> limit"

definition BTSize :: "nat \<Rightarrow> nat option" where
  "BTSize n = do {
     aver (n + MPS_WORD_WIDTH - 1 < 2 ^ 32);
     Some ((n + MPS_WORD_WIDTH - 1) div MPS_WORD_WIDTH * 4)
   }"

definition BTGet :: "BT \<Rightarrow> nat \<Rightarrow> bool" where
  "BTGet a i \<longleftrightarrow> drop_bit (i AND mask MPS_WORD_SHIFT) (a (drop_bit MPS_WORD_SHIFT i)) AND 1 \<noteq> 0"

definition BTSet :: "BT \<Rightarrow> nat \<Rightarrow> BT" where
  "BTSet a i =
     (let w = drop_bit MPS_WORD_SHIFT i in a(w := a w OR push_bit (i AND mask MPS_WORD_SHIFT) 1))"

definition BTRes :: "BT \<Rightarrow> nat \<Rightarrow> BT" where
  "BTRes a i =
     (let w = drop_bit MPS_WORD_SHIFT i in a(w := a w AND NOT (push_bit (i AND mask MPS_WORD_SHIFT) 1)))"

lemma BTWordIndex_eq: "BTWordIndex i = i div 32"
  by (simp add: BTWordIndex_def drop_bit_eq_div)

lemma BTBitIndex_eq: "BTBitIndex i = i mod 32"
proof -
  have "(31 :: nat) = mask 5" by (simp add: mask_eq_exp_minus_1)
  then have "i AND 31 = take_bit 5 i" by (simp only: take_bit_eq_mask)
  then show ?thesis by (simp add: BTBitIndex_def take_bit_eq_mod)
qed

lemmas bt_index = BTWordIndex_eq BTBitIndex_eq BTIndexAlignDown_def BTIndexAlignUp_def

lemma unat_BTIndexAlignUp:
  "unat w + 32 \<le> 2 ^ 32 \<Longrightarrow> unat (WordAlignUp w 32) = BTIndexAlignUp (unat w)"
  using unat_WordAlignUp [of 32 w] by (simp add: AlignCheck_def BTIndexAlignUp_def)

lemma bit_BTMask: "l \<le> 32 \<Longrightarrow> bit (BTMask b l) j \<longleftrightarrow> b \<le> j \<and> j < l"
  by (auto simp: BTMask_def BTMaskHigh_def BTMaskLow_def bit_simps)

lemma BTGet_eq: "BTGet a i \<longleftrightarrow> bit (a (i div 32)) (i mod 32)"
proof -
  have "i AND mask 5 = i mod 32" by (simp add: take_bit_eq_mask [symmetric] take_bit_eq_mod)
  moreover have "(w AND 1 \<noteq> 0) = bit w 0" for w :: mword
    by (simp add: and_one_eq mod_2_eq_odd bit_0)
  ultimately show ?thesis
    by (simp add: BTGet_def drop_bit_eq_div [of 5 i] bit_drop_bit_eq)
qed

lemma BTGet_word: "k < 32 \<Longrightarrow> BTGet a (32 * w + k) \<longleftrightarrow> bit (a w) k"
  by (simp add: BTGet_eq)

lemma bt_eqI: "(\<And>i. BTGet a i = BTGet b i) \<Longrightarrow> a = b"
proof (rule ext, rule bit_word_eqI)
  fix w n
  assume eq: "\<And>i. BTGet a i = BTGet b i" and "n < LENGTH(32)"
  then show "bit (a w) n = bit (b w) n" using BTGet_word [of n a w] BTGet_word [of n b w] by simp
qed

lemma BTGet_upd_word:
  "BTGet (a(w := v)) j = (if 32 * w \<le> j \<and> j < 32 * w + 32 then bit v (j - 32 * w) else BTGet a j)"
proof (cases "j div 32 = w")
  case True
  then have "j = 32 * w + j mod 32" by (metis mult_div_mod_eq)
  with True show ?thesis by (metis BTGet_eq add_diff_cancel_left' fun_upd_same le_add1
        mod_less_divisor nat_add_left_cancel_less zero_less_numeral)
next
  case False
  then have "\<not> (32 * w \<le> j \<and> j < 32 * w + 32)"
    using div_nat_eqI [of 32 w j] by (auto simp: algebra_simps)
  with False show ?thesis by (simp only: BTGet_eq if_False fun_upd_apply)
qed

lemma index_split: "i AND mask 5 = i mod 32" "drop_bit 5 i = i div 32" for i :: nat
  by (simp_all add: take_bit_eq_mask [symmetric] take_bit_eq_mod drop_bit_eq_div)

lemma div_mod_same_iff: "j div 32 = i div 32 \<Longrightarrow> (j mod 32 = i mod 32) = (j = i)" for i j :: nat
  by (metis div_mod_decomp)

lemma BTGet_BTSet: "BTGet (BTSet a i) j \<longleftrightarrow> j = i \<or> BTGet a j"
proof (cases "j div 32 = i div 32")
  case True
  have "BTGet (BTSet a i) j \<longleftrightarrow> bit (a (i div 32)) (j mod 32) \<or> j mod 32 = i mod 32"
    using True by (auto simp: BTGet_eq BTSet_def index_split bit_simps Let_def)
  then show ?thesis using div_mod_same_iff [OF True] True by (auto simp: BTGet_eq)
next
  case False
  then show ?thesis by (auto simp: BTGet_eq BTSet_def index_split Let_def)
qed

lemma BTGet_BTRes: "BTGet (BTRes a i) j \<longleftrightarrow> j \<noteq> i \<and> BTGet a j"
proof (cases "j div 32 = i div 32")
  case True
  have "BTGet (BTRes a i) j \<longleftrightarrow> bit (a (i div 32)) (j mod 32) \<and> j mod 32 \<noteq> i mod 32"
    using True by (auto simp: BTGet_eq BTRes_def index_split bit_simps Let_def)
  then show ?thesis using div_mod_same_iff [OF True] True by (auto simp: BTGet_eq)
next
  case False
  then show ?thesis by (auto simp: BTGet_eq BTRes_def index_split Let_def)
qed

subsection \<open>Acting on a range\<close>

text \<open>
  \<^verbatim>\<open>ACT_ON_RANGE\<close> and \<^verbatim>\<open>ACT_ON_RANGE_HIGH\<close>: the three actions are parameters. An action takes
  the state and either goes on (\<open>Inr\<close>) or leaves the enclosing function (\<open>Inl\<close>).
\<close>

definition ACT_ON_RANGE ::
  "(nat \<Rightarrow> 's \<Rightarrow> 'r + 's) \<Rightarrow> (nat \<Rightarrow> nat \<Rightarrow> nat \<Rightarrow> 's \<Rightarrow> 'r + 's) \<Rightarrow> (nat \<Rightarrow> 's \<Rightarrow> 'r + 's) \<Rightarrow>
    nat \<Rightarrow> nat \<Rightarrow> 's \<Rightarrow> ('r + 's) option"
where
  "ACT_ON_RANGE single_action bits_action word_action base limit s =
     (if BTIsSmallRange base limit then Some (for_up single_action base limit s)
      else
        let actInnerBase = BTIndexAlignUp base in
        if actInnerBase > limit
        then do {
          aver (base < limit);
          Some (bits_action (BTWordIndex base) (BTBitIndex base) (BTBitIndex limit) s)
        }
        else
          let actInnerLimit = BTIndexAlignDown limit;
              actWordBase = BTWordIndex actInnerBase;
              actWordLimit = BTWordIndex actInnerLimit
          in Some (andthen
               (if base < actInnerBase
                then bits_action (actWordBase - 1) (BTBitIndex base) MPS_WORD_WIDTH s else Inr s)
               (\<lambda>s. andthen (for_up word_action actWordBase actWordLimit s)
               (\<lambda>s. if limit > actInnerLimit
                    then bits_action actWordLimit 0 (BTBitIndex limit) s else Inr s))))"

definition ACT_ON_RANGE_HIGH ::
  "(nat \<Rightarrow> 's \<Rightarrow> 'r + 's) \<Rightarrow> (nat \<Rightarrow> nat \<Rightarrow> nat \<Rightarrow> 's \<Rightarrow> 'r + 's) \<Rightarrow> (nat \<Rightarrow> 's \<Rightarrow> 'r + 's) \<Rightarrow>
    nat \<Rightarrow> nat \<Rightarrow> 's \<Rightarrow> ('r + 's) option"
where
  "ACT_ON_RANGE_HIGH single_action bits_action word_action base limit s =
     (if BTIsSmallRange base limit then Some (for_down single_action limit base s)
      else
        let actInnerBase = BTIndexAlignUp base in
        if actInnerBase > limit
        then do {
          aver (base < limit);
          Some (bits_action (BTWordIndex base) (BTBitIndex base) (BTBitIndex limit) s)
        }
        else
          let actInnerLimit = BTIndexAlignDown limit;
              actWordBase = BTWordIndex actInnerBase;
              actWordLimit = BTWordIndex actInnerLimit
          in Some (andthen
               (if limit > actInnerLimit
                then bits_action actWordLimit 0 (BTBitIndex limit) s else Inr s)
               (\<lambda>s. andthen (for_down word_action actWordLimit actWordBase s)
               (\<lambda>s. if base < actInnerBase
                    then bits_action (actWordBase - 1) (BTBitIndex base) MPS_WORD_WIDTH s else Inr s))))"

text \<open>The arithmetic of the two shapes of a range that is not small.\<close>

lemma BTIndexAlignUp_cases:
  "BTIndexAlignUp i = (if i mod 32 = 0 then 32 * (i div 32) else 32 * Suc (i div 32))"
proof -
  define q r where "q = i div 32" and "r = i mod 32"
  have i: "i = r + 32 * q" and r: "r < 32" by (simp_all add: q_def r_def)
  have "(i + 31) div 32 = q + (r + 31) div 32" unfolding i by simp
  moreover have "(r + 31) div 32 = (if r = 0 then 0 else 1)"
    using r by (auto intro: div_nat_eqI)
  moreover have "i + 32 - 1 = i + 31" by simp
  ultimately have "BTIndexAlignUp i = (q + (if r = 0 then 0 else 1)) * 32"
    unfolding BTIndexAlignUp_def by (simp only:)
  then show ?thesis by (simp flip: q_def r_def)
qed

lemma BTIndexAlignDown_eq: "BTIndexAlignDown i = 32 * (i div 32)"
  by (simp add: BTIndexAlignDown_def)

lemma BTWordIndex_mult [simp]: "BTWordIndex (32 * w) = w"
  by (simp add: BTWordIndex_eq)

lemma range_no_inner:
  assumes "base < limit" and "BTIndexAlignUp base > limit"
  shows "32 * BTWordIndex base + BTBitIndex base = base" "32 * BTWordIndex base + BTBitIndex limit = limit"
    "BTBitIndex base < BTBitIndex limit" "BTBitIndex limit \<le> 32"
proof -
  have b: "32 * (base div 32) + base mod 32 = base" by simp
  then have "32 * (base div 32) \<le> limit" "limit < 32 * Suc (base div 32)"
    using assms by (simp_all add: BTIndexAlignUp_cases split: if_splits)
  then have "limit div 32 = base div 32" by (intro div_nat_eqI) simp_all
  then show *: "32 * BTWordIndex base + BTBitIndex limit = limit"
    unfolding bt_index by (metis mult_div_mod_eq)
  show **: "32 * BTWordIndex base + BTBitIndex base = base" unfolding bt_index by simp
  show "BTBitIndex base < BTBitIndex limit" using * ** assms(1) by linarith
  show "BTBitIndex limit \<le> 32" unfolding bt_index by (simp add: less_imp_le)
qed

lemma range_inner:
  assumes "\<not> BTIndexAlignUp base > limit"
  defines "wb \<equiv> BTWordIndex (BTIndexAlignUp base)" and "wl \<equiv> BTWordIndex (BTIndexAlignDown limit)"
  shows "BTIndexAlignUp base = 32 * wb" "BTIndexAlignDown limit = 32 * wl" "base \<le> 32 * wb" "wb \<le> wl"
    "32 * wl \<le> limit" "32 * wl + BTBitIndex limit = limit" "BTBitIndex limit \<le> 32"
    "base < 32 * wb \<Longrightarrow> 32 * (wb - 1) + BTBitIndex base = base \<and> 32 * (wb - 1) + 32 = 32 * wb \<and> BTBitIndex base < 32"
    "32 * wl < limit \<Longrightarrow> 0 < BTBitIndex limit"
proof -
  have wl: "wl = limit div 32" by (simp add: wl_def BTIndexAlignDown_eq BTWordIndex_eq)
  have wb: "wb = (if base mod 32 = 0 then base div 32 else Suc (base div 32))"
    by (simp add: wb_def BTIndexAlignUp_cases BTWordIndex_eq)
  show up: "BTIndexAlignUp base = 32 * wb" by (simp add: wb BTIndexAlignUp_cases)
  show "BTIndexAlignDown limit = 32 * wl" by (simp add: wl BTIndexAlignDown_eq)
  have b: "32 * (base div 32) + base mod 32 = base" "base mod 32 < 32" by simp_all
  show "base \<le> 32 * wb"
  proof (cases "base mod 32 = 0")
    case True
    then have "wb = base div 32" by (simp add: wb)
    with True b show ?thesis by linarith
  next
    case False
    then have "wb = Suc (base div 32)" by (simp add: wb)
    with b show ?thesis by linarith
  qed
  have l: "32 * (limit div 32) + limit mod 32 = limit" "limit mod 32 < 32" by simp_all
  have "32 * wb \<le> limit" using assms(1) up by simp
  then show "wb \<le> wl" unfolding wl by linarith
  show "32 * wl \<le> limit" unfolding wl by simp
  show "32 * wl + BTBitIndex limit = limit" unfolding wl bt_index by simp
  show "BTBitIndex limit \<le> 32" unfolding bt_index using l(2) by linarith
  show "32 * (wb - 1) + BTBitIndex base = base \<and> 32 * (wb - 1) + 32 = 32 * wb \<and> BTBitIndex base < 32"
    if "base < 32 * wb"
    using that b unfolding wb bt_index by (simp split: if_splits)
  show "0 < BTBitIndex limit" if "32 * wl < limit"
    using that l unfolding wl bt_index by linarith
qed

locale range_action =
  fixes single :: "nat \<Rightarrow> 's \<Rightarrow> 'r + 's"
    and bits :: "nat \<Rightarrow> nat \<Rightarrow> nat \<Rightarrow> 's \<Rightarrow> 'r + 's"
    and word_act :: "nat \<Rightarrow> 's \<Rightarrow> 'r + 's"
  assumes bits_eq: "b < l \<Longrightarrow> l \<le> 32 \<Longrightarrow> bits w b l s = for_up single (32 * w + b) (32 * w + l) s"
    and word_eq: "word_act w s = for_up single (32 * w) (32 * w + 32) s"
begin

lemma words_eq: "wb \<le> wl \<Longrightarrow> for_up word_act wb wl s = for_up single (32 * wb) (32 * wl) s"
proof (induction "wl - wb" arbitrary: wb s)
  case 0
  then show ?case by simp
next
  case (Suc d)
  then have "wb < wl" by simp
  have rest: "for_up word_act (Suc wb) wl = for_up single (32 * Suc wb) (32 * wl)"
    using Suc.hyps(2) \<open>wb < wl\<close> by (intro ext Suc.hyps(1)) auto
  have e: "32 * Suc wb = 32 * wb + 32" by simp
  have "for_up word_act wb wl s = andthen (word_act wb s) (for_up word_act (Suc wb) wl)"
    using \<open>wb < wl\<close> by (rule for_up_step)
  also have "\<dots> = andthen (for_up single (32 * wb) (32 * wb + 32) s) (for_up single (32 * wb + 32) (32 * wl))"
    unfolding rest word_eq e ..
  also have "\<dots> = for_up single (32 * wb) (32 * wl) s"
    using \<open>wb < wl\<close> by (intro for_up_split [symmetric]) simp_all
  finally show ?case .
qed

lemma act_on_range: "ACT_ON_RANGE single bits word_act base limit s = Some (for_up single base limit s)"
proof (cases "BTIsSmallRange base limit")
  case True
  then show ?thesis by (simp add: ACT_ON_RANGE_def)
next
  case False
  then have lt: "base < limit" by (simp add: BTIsSmallRange_def)
  show ?thesis
  proof (cases "BTIndexAlignUp base > limit")
    case True
    from range_no_inner [OF lt True] show ?thesis
      using False True lt by (simp add: ACT_ON_RANGE_def bits_eq)
  next
    case inner: False
    define wb where "wb = BTWordIndex (BTIndexAlignUp base)"
    define wl where "wl = BTWordIndex (BTIndexAlignDown limit)"
    note r = range_inner [OF inner, folded wb_def wl_def]
    have pre: "(if base < 32 * wb then bits (wb - 1) (BTBitIndex base) 32 s else Inr s) =
        for_up single base (32 * wb) s" for s
      using r(3,8) by (auto simp: bits_eq)
    have suf: "(if limit > 32 * wl then bits wl 0 (BTBitIndex limit) s else Inr s) =
        for_up single (32 * wl) limit s" for s
      using r(5,6,7,9) by (auto simp: bits_eq)
    have all: "for_up single base limit s = andthen (for_up single base (32 * wb) s)
        (\<lambda>s. andthen (for_up single (32 * wb) (32 * wl) s) (for_up single (32 * wl) limit))"
    proof -
      have "for_up single (32 * wb) limit =
          (\<lambda>s. andthen (for_up single (32 * wb) (32 * wl) s) (for_up single (32 * wl) limit))"
        using r(4,5) by (intro ext for_up_split) simp_all
      moreover have "for_up single base limit s =
          andthen (for_up single base (32 * wb) s) (for_up single (32 * wb) limit)"
        using r(3,4,5) by (intro for_up_split) simp_all
      ultimately show ?thesis by simp
    qed
    show ?thesis
      unfolding ACT_ON_RANGE_def Let_def r(1,2) BTWordIndex_mult pre suf words_eq [OF r(4)] all
      using False inner by (simp add: r(1))
  qed
qed

end

locale range_action_high =
  fixes single :: "nat \<Rightarrow> 's \<Rightarrow> 'r + 's"
    and bits :: "nat \<Rightarrow> nat \<Rightarrow> nat \<Rightarrow> 's \<Rightarrow> 'r + 's"
    and word_act :: "nat \<Rightarrow> 's \<Rightarrow> 'r + 's"
  assumes bits_eq: "b < l \<Longrightarrow> l \<le> 32 \<Longrightarrow> bits w b l s = for_down single (32 * w + l) (32 * w + b) s"
    and word_eq: "word_act w s = for_down single (32 * w + 32) (32 * w) s"
begin

lemma words_eq: "wb \<le> wl \<Longrightarrow> for_down word_act wl wb s = for_down single (32 * wl) (32 * wb) s"
proof (induction "wl - wb" arbitrary: wl s)
  case 0
  then show ?case by simp
next
  case (Suc d)
  then have "wb < wl" by simp
  then have e: "32 * (wl - 1) + 32 = 32 * wl" by simp
  have rest: "for_down word_act (wl - 1) wb = for_down single (32 * (wl - 1)) (32 * wb)"
    using Suc.hyps(2) \<open>wb < wl\<close> by (intro ext Suc.hyps(1)) auto
  have "for_down word_act wl wb s = andthen (word_act (wl - 1) s) (for_down word_act (wl - 1) wb)"
    using \<open>wb < wl\<close> by (rule for_down_step)
  also have "\<dots> = andthen (for_down single (32 * wl) (32 * (wl - 1)) s) (for_down single (32 * (wl - 1)) (32 * wb))"
    unfolding rest word_eq e ..
  also have "\<dots> = for_down single (32 * wl) (32 * wb) s"
    using \<open>wb < wl\<close> by (intro for_down_split [symmetric]) simp_all
  finally show ?case .
qed

lemma act_on_range: "ACT_ON_RANGE_HIGH single bits word_act base limit s = Some (for_down single limit base s)"
proof (cases "BTIsSmallRange base limit")
  case True
  then show ?thesis by (simp add: ACT_ON_RANGE_HIGH_def)
next
  case False
  then have lt: "base < limit" by (simp add: BTIsSmallRange_def)
  show ?thesis
  proof (cases "BTIndexAlignUp base > limit")
    case True
    from range_no_inner [OF lt True] show ?thesis
      using False True lt by (simp add: ACT_ON_RANGE_HIGH_def bits_eq)
  next
    case inner: False
    define wb where "wb = BTWordIndex (BTIndexAlignUp base)"
    define wl where "wl = BTWordIndex (BTIndexAlignDown limit)"
    note r = range_inner [OF inner, folded wb_def wl_def]
    have pre: "(if base < 32 * wb then bits (wb - 1) (BTBitIndex base) 32 s else Inr s) =
        for_down single (32 * wb) base s" for s
      using r(3,8) by (auto simp: bits_eq)
    have suf: "(if limit > 32 * wl then bits wl 0 (BTBitIndex limit) s else Inr s) =
        for_down single limit (32 * wl) s" for s
      using r(5,6,7,9) by (auto simp: bits_eq)
    have all: "for_down single limit base s = andthen (for_down single limit (32 * wl) s)
        (\<lambda>s. andthen (for_down single (32 * wl) (32 * wb) s) (for_down single (32 * wb) base))"
    proof -
      have "for_down single (32 * wl) base =
          (\<lambda>s. andthen (for_down single (32 * wl) (32 * wb) s) (for_down single (32 * wb) base))"
        using r(3,4) by (intro ext for_down_split) simp_all
      moreover have "for_down single limit base s =
          andthen (for_down single limit (32 * wl) s) (for_down single (32 * wl) base)"
        using r(3,4,5) by (intro for_down_split) simp_all
      ultimately show ?thesis by simp
    qed
    show ?thesis
      unfolding ACT_ON_RANGE_HIGH_def Let_def r(1,2) BTWordIndex_mult pre suf words_eq [OF r(4)] all
      using False inner by (simp add: r(1))
  qed
qed

end

lemma BTGet_in_word: "32 * w \<le> j \<Longrightarrow> j < 32 * w + 32 \<Longrightarrow> bit (a w) (j - 32 * w) = BTGet a j"
  using BTGet_word [of "j - 32 * w" a w] by simp

subsection \<open>Three kinds of action\<close>

text \<open>
  Every operation writes each bit of a range, tests whether a bit of it has a property, or looks
  for the first or last bit that has. For each kind a locale states what the three actions owe
  each other, in terms of single bits.
\<close>

locale write_action =
  fixes single :: "nat \<Rightarrow> BT \<Rightarrow> BT" and bits :: "nat \<Rightarrow> nat \<Rightarrow> nat \<Rightarrow> BT \<Rightarrow> BT"
    and word_act :: "nat \<Rightarrow> BT \<Rightarrow> BT" and val :: "nat \<Rightarrow> bool"
  assumes single_get: "BTGet (single i a) j = (if j = i then val i else BTGet a j)"
    and bits_get: "b < l \<Longrightarrow> l \<le> 32 \<Longrightarrow>
      BTGet (bits w b l a) j = (if 32 * w + b \<le> j \<and> j < 32 * w + l then val j else BTGet a j)"
    and word_get: "BTGet (word_act w a) j = (if 32 * w \<le> j \<and> j < 32 * w + 32 then val j else BTGet a j)"
begin

lemma for_up_writes:
  assumes "i \<le> n"
  shows "\<exists>a'. for_up (\<lambda>i a. Inr (single i a)) i n a = Inr a' \<and>
    (\<forall>j. BTGet a' j = (if i \<le> j \<and> j < n then val j else BTGet a j))"
proof -
  define P where "P k a' \<longleftrightarrow> (\<forall>j. BTGet a' j = (if i \<le> j \<and> j < k then val j else BTGet a j))" for k a'
  have "P i a" by (auto simp: P_def)
  then have "\<exists>a'. for_up (\<lambda>i a. Inr (single i a) :: 'r + BT) i n a = Inr a' \<and> P n a'"
  proof (rule for_up_invariant [where P = P])
    fix k s assume "i \<le> k" "k < n" "P k s"
    then have "P (Suc k) (single k s)"
      unfolding P_def single_get by (auto simp: less_Suc_eq)
    then show "\<exists>s'. Inr (single k s) = Inr s' \<and> P (Suc k) s'" by blast
  qed (use assms in auto)
  then show ?thesis by (simp add: P_def)
qed

lemma for_up_eq:
  assumes "i \<le> n" and "\<And>j. BTGet a' j = (if i \<le> j \<and> j < n then val j else BTGet a j)"
  shows "for_up (\<lambda>i a. Inr (single i a)) i n a = (Inr a' :: 'r + BT)"
proof -
  from for_up_writes [OF assms(1), of a] obtain a'' where
    a'': "for_up (\<lambda>i a. Inr (single i a) :: 'r + BT) i n a = Inr a''"
      "\<And>j. BTGet a'' j = (if i \<le> j \<and> j < n then val j else BTGet a j)" by blast
  then have "a'' = a'" using assms(2) by (intro bt_eqI) simp
  with a''(1) show ?thesis by simp
qed

end

sublocale write_action \<subseteq> range_action
  "\<lambda>i a. Inr (single i a)" "\<lambda>w b l a. Inr (bits w b l a)" "\<lambda>w a. Inr (word_act w a)"
  by unfold_locales (auto intro!: for_up_eq [symmetric] simp: bits_get word_get)

context write_action
begin

lemma write_range:
  assumes "base \<le> limit"
  shows "\<exists>a'. ACT_ON_RANGE (\<lambda>i a. Inr (single i a)) (\<lambda>w b l a. Inr (bits w b l a))
      (\<lambda>w a. Inr (word_act w a)) base limit a = Some (Inr a') \<and>
    (\<forall>j. BTGet a' j = (if base \<le> j \<and> j < limit then val j else BTGet a j))"
  unfolding act_on_range using for_up_writes [OF assms, of a] by auto

end

text \<open>Tests leave the function with a fixed answer; the state is the unit.\<close>

definition leave_if :: "bool \<Rightarrow> 'r \<Rightarrow> unit \<Rightarrow> 'r + unit" where
  "leave_if c r u = (if c then Inl r else Inr u)"

locale test_action =
  fixes single :: "nat \<Rightarrow> bool" and bits :: "nat \<Rightarrow> nat \<Rightarrow> nat \<Rightarrow> bool" and word_act :: "nat \<Rightarrow> bool"
  assumes bits_iff: "b < l \<Longrightarrow> l \<le> 32 \<Longrightarrow> bits w b l \<longleftrightarrow> (\<exists>k. b \<le> k \<and> k < l \<and> single (32 * w + k))"
    and word_iff: "word_act w \<longleftrightarrow> (\<exists>k < 32. single (32 * w + k))"
begin

lemma shift_iff:
  "(\<exists>k. b \<le> k \<and> k < l \<and> single (32 * w + k)) \<longleftrightarrow> (\<exists>j. 32 * w + b \<le> j \<and> j < 32 * w + l \<and> single j)"
proof
  assume "\<exists>j. 32 * w + b \<le> j \<and> j < 32 * w + l \<and> single j"
  then obtain j where "32 * w + b \<le> j" "j < 32 * w + l" "single j" by blast
  then show "\<exists>k. b \<le> k \<and> k < l \<and> single (32 * w + k)" by (intro exI [of _ "j - 32 * w"]) auto
next
  assume "\<exists>k. b \<le> k \<and> k < l \<and> single (32 * w + k)"
  then obtain k where "b \<le> k" "k < l" "single (32 * w + k)" by blast
  then show "\<exists>j. 32 * w + b \<le> j \<and> j < 32 * w + l \<and> single j" by (intro exI [of _ "32 * w + k"]) auto
qed

lemma for_up_test: "for_up (\<lambda>i. leave_if (single i) r) i n u = leave_if (\<exists>j. i \<le> j \<and> j < n \<and> single j) r u"
  using for_up_all [of single r i n u] by (auto simp: leave_if_def [abs_def])

end

sublocale test_action \<subseteq> range_action
  "\<lambda>i. leave_if (single i) r" "\<lambda>w b l. leave_if (bits w b l) r" "\<lambda>w. leave_if (word_act w) r"
  for r
  using shift_iff [of 0 32] by unfold_locales (simp_all add: for_up_test bits_iff word_iff shift_iff)

context test_action
begin

lemma test_range:
  "ACT_ON_RANGE (\<lambda>i. leave_if (single i) r) (\<lambda>w b l. leave_if (bits w b l) r)
    (\<lambda>w. leave_if (word_act w) r) base limit u =
    Some (leave_if (\<exists>j. base \<le> j \<and> j < limit \<and> single j) r u)"
  unfolding act_on_range for_up_test ..

end

subsection \<open>The range operations\<close>

text \<open>
  A function that falls off the end of its macro returns the state, or the answer \<^verbatim>\<open>TRUE\<close> when it is
  a test.
\<close>

definition the_state :: "'s + 's \<Rightarrow> 's" where
  "the_state r = (case r of Inl s \<Rightarrow> s | Inr s \<Rightarrow> s)"

definition SINGLE_SET_RANGE :: "nat \<Rightarrow> BT \<Rightarrow> BT" where
  "SINGLE_SET_RANGE i t = BTSet t i"

definition BITS_SET_RANGE :: "nat \<Rightarrow> nat \<Rightarrow> nat \<Rightarrow> BT \<Rightarrow> BT" where
  "BITS_SET_RANGE i base limit t = t(i := t i OR BTMask base limit)"

definition WORD_SET_RANGE :: "nat \<Rightarrow> BT \<Rightarrow> BT" where
  "WORD_SET_RANGE i t = t(i := NOT 0)"

definition BTSetRange :: "BT \<Rightarrow> nat \<Rightarrow> nat \<Rightarrow> BT option" where
  "BTSetRange t base limit = do {
     aver (base < limit);
     r \<leftarrow> ACT_ON_RANGE (\<lambda>i t. Inr (SINGLE_SET_RANGE i t)) (\<lambda>i b l t. Inr (BITS_SET_RANGE i b l t))
            (\<lambda>i t. Inr (WORD_SET_RANGE i t)) base limit t;
     Some (the_state r)
   }"

definition SINGLE_RES_RANGE :: "nat \<Rightarrow> BT \<Rightarrow> BT" where
  "SINGLE_RES_RANGE i t = BTRes t i"

definition BITS_RES_RANGE :: "nat \<Rightarrow> nat \<Rightarrow> nat \<Rightarrow> BT \<Rightarrow> BT" where
  "BITS_RES_RANGE i base limit t = t(i := t i AND NOT (BTMask base limit))"

definition WORD_RES_RANGE :: "nat \<Rightarrow> BT \<Rightarrow> BT" where
  "WORD_RES_RANGE i t = t(i := 0)"

definition BTResRange :: "BT \<Rightarrow> nat \<Rightarrow> nat \<Rightarrow> BT option" where
  "BTResRange t base limit = do {
     aver (base < limit);
     r \<leftarrow> ACT_ON_RANGE (\<lambda>i t. Inr (SINGLE_RES_RANGE i t)) (\<lambda>i b l t. Inr (BITS_RES_RANGE i b l t))
            (\<lambda>i t. Inr (WORD_RES_RANGE i t)) base limit t;
     Some (the_state r)
   }"

definition SINGLE_COPY_RANGE :: "BT \<Rightarrow> nat \<Rightarrow> BT \<Rightarrow> BT" where
  "SINGLE_COPY_RANGE fromBT i toBT = (if BTGet fromBT i then BTSet toBT i else BTRes toBT i)"

definition BITS_COPY_RANGE :: "BT \<Rightarrow> nat \<Rightarrow> nat \<Rightarrow> nat \<Rightarrow> BT \<Rightarrow> BT" where
  "BITS_COPY_RANGE fromBT i base limit toBT =
     (let bactMask = BTMask base limit
      in toBT(i := (toBT i AND NOT bactMask) OR (fromBT i AND bactMask)))"

definition WORD_COPY_RANGE :: "BT \<Rightarrow> nat \<Rightarrow> BT \<Rightarrow> BT" where
  "WORD_COPY_RANGE fromBT i toBT = toBT(i := fromBT i)"

text \<open>The two tables of a copy are different (asserted), so a write to one leaves the other alone.\<close>

definition BTCopyRange :: "BT \<Rightarrow> BT \<Rightarrow> nat \<Rightarrow> nat \<Rightarrow> BT option" where
  "BTCopyRange fromBT toBT base limit = do {
     aver (base < limit);
     r \<leftarrow> ACT_ON_RANGE (\<lambda>i t. Inr (SINGLE_COPY_RANGE fromBT i t))
            (\<lambda>i b l t. Inr (BITS_COPY_RANGE fromBT i b l t))
            (\<lambda>i t. Inr (WORD_COPY_RANGE fromBT i t)) base limit toBT;
     Some (the_state r)
   }"

definition SINGLE_COPY_INVERT_RANGE :: "BT \<Rightarrow> nat \<Rightarrow> BT \<Rightarrow> BT" where
  "SINGLE_COPY_INVERT_RANGE fromBT i toBT = (if BTGet fromBT i then BTRes toBT i else BTSet toBT i)"

definition BITS_COPY_INVERT_RANGE :: "BT \<Rightarrow> nat \<Rightarrow> nat \<Rightarrow> nat \<Rightarrow> BT \<Rightarrow> BT" where
  "BITS_COPY_INVERT_RANGE fromBT i base limit toBT =
     (let bactMask = BTMask base limit
      in toBT(i := (toBT i AND NOT bactMask) OR (NOT (fromBT i) AND bactMask)))"

definition WORD_COPY_INVERT_RANGE :: "BT \<Rightarrow> nat \<Rightarrow> BT \<Rightarrow> BT" where
  "WORD_COPY_INVERT_RANGE fromBT i toBT = toBT(i := NOT (fromBT i))"

definition BTCopyInvertRange :: "BT \<Rightarrow> BT \<Rightarrow> nat \<Rightarrow> nat \<Rightarrow> BT option" where
  "BTCopyInvertRange fromBT toBT base limit = do {
     aver (base < limit);
     r \<leftarrow> ACT_ON_RANGE (\<lambda>i t. Inr (SINGLE_COPY_INVERT_RANGE fromBT i t))
            (\<lambda>i b l t. Inr (BITS_COPY_INVERT_RANGE fromBT i b l t))
            (\<lambda>i t. Inr (WORD_COPY_INVERT_RANGE fromBT i t)) base limit toBT;
     Some (the_state r)
   }"

text \<open>The first two loops that go bit by bit: the index of the copy advances in step.\<close>

definition BTCopyOffsetRange :: "BT \<Rightarrow> BT \<Rightarrow> nat \<Rightarrow> nat \<Rightarrow> nat \<Rightarrow> nat \<Rightarrow> BT option" where
  "BTCopyOffsetRange fromBT toBT fromBase fromLimit toBase toLimit = do {
     aver (fromBase < fromLimit);
     aver (toBase < toLimit);
     aver (fromLimit - fromBase = toLimit - toBase);
     let r = for_up (\<lambda>fromBit (toBit, t).
               Inr (toBit + 1, if BTGet fromBT fromBit then BTSet t toBit else BTRes t toBit))
             fromBase fromLimit (toBase, toBT);
     Some (snd (the_state r))
   }"

definition BTCountResRange :: "BT \<Rightarrow> nat \<Rightarrow> nat \<Rightarrow> nat option" where
  "BTCountResRange bt base limit = do {
     aver (base < limit);
     Some (the_state (for_up (\<lambda>i c. Inr (if \<not> BTGet bt i then c + 1 else c)) base limit 0))
   }"

subsection \<open>Tests of a range\<close>

definition test_result :: "bool + unit \<Rightarrow> bool" where
  "test_result r = (case r of Inl b \<Rightarrow> b | Inr _ \<Rightarrow> True)"

definition BTIsResRange :: "BT \<Rightarrow> nat \<Rightarrow> nat \<Rightarrow> bool option" where
  "BTIsResRange bt base limit = do {
     aver (base < limit);
     r \<leftarrow> ACT_ON_RANGE (\<lambda>i. leave_if (BTGet bt i) False)
            (\<lambda>i b l. leave_if (bt i AND BTMask b l \<noteq> 0) False)
            (\<lambda>i. leave_if (bt i \<noteq> 0) False) base limit ();
     Some (test_result r)
   }"

definition BTIsSetRange :: "BT \<Rightarrow> nat \<Rightarrow> nat \<Rightarrow> bool option" where
  "BTIsSetRange bt base limit = do {
     aver (base < limit);
     r \<leftarrow> ACT_ON_RANGE (\<lambda>i. leave_if (\<not> BTGet bt i) False)
            (\<lambda>i b l. leave_if (let bactMask = BTMask b l in bt i AND bactMask \<noteq> bactMask) False)
            (\<lambda>i. leave_if (bt i \<noteq> NOT 0) False) base limit ();
     Some (test_result r)
   }"

definition BTRangesSame :: "BT \<Rightarrow> BT \<Rightarrow> nat \<Rightarrow> nat \<Rightarrow> bool option" where
  "BTRangesSame comparand comparator base limit = do {
     aver (base < limit);
     r \<leftarrow> ACT_ON_RANGE (\<lambda>i. leave_if (BTGet comparand i \<noteq> BTGet comparator i) False)
            (\<lambda>i b l. leave_if (let bactMask = BTMask b l
                               in comparand i AND bactMask \<noteq> comparator i AND bactMask) False)
            (\<lambda>i. leave_if (comparand i \<noteq> comparator i) False) base limit ();
     Some (test_result r)
   }"

subsection \<open>The actions meet their contracts\<close>

interpretation set_range: write_action SINGLE_SET_RANGE BITS_SET_RANGE WORD_SET_RANGE "\<lambda>_. True"
  by unfold_locales
    (auto simp: SINGLE_SET_RANGE_def BITS_SET_RANGE_def WORD_SET_RANGE_def BTGet_BTSet BTGet_upd_word
      bit_simps bit_BTMask BTGet_in_word Let_def)

interpretation res_range: write_action SINGLE_RES_RANGE BITS_RES_RANGE WORD_RES_RANGE "\<lambda>_. False"
  by unfold_locales
    (auto simp: SINGLE_RES_RANGE_def BITS_RES_RANGE_def WORD_RES_RANGE_def BTGet_BTRes BTGet_upd_word
      bit_simps bit_BTMask BTGet_in_word Let_def)

interpretation copy_range: write_action "SINGLE_COPY_RANGE f" "BITS_COPY_RANGE f" "WORD_COPY_RANGE f" "BTGet f"
  for f
  by unfold_locales
    (auto simp: SINGLE_COPY_RANGE_def BITS_COPY_RANGE_def WORD_COPY_RANGE_def BTGet_BTRes BTGet_BTSet BTGet_upd_word
      bit_simps bit_BTMask BTGet_in_word Let_def)

interpretation copy_invert_range: write_action "SINGLE_COPY_INVERT_RANGE f" "BITS_COPY_INVERT_RANGE f"
  "WORD_COPY_INVERT_RANGE f" "\<lambda>i. \<not> BTGet f i"
  for f
  by unfold_locales
    (auto simp: SINGLE_COPY_INVERT_RANGE_def BITS_COPY_INVERT_RANGE_def WORD_COPY_INVERT_RANGE_def
      BTGet_BTRes BTGet_BTSet BTGet_upd_word bit_simps bit_BTMask BTGet_in_word Let_def)

lemma mword_eq_iff: "v = w \<longleftrightarrow> (\<forall>k < 32. bit v k = bit w k)" for v w :: mword
  by (auto intro: bit_word_eqI)

lemma ex_word_bit:
  "l \<le> 32 \<Longrightarrow> (\<exists>k < 32. P k \<and> b \<le> k \<and> k < l) \<longleftrightarrow> (\<exists>k \<ge> b. k < l \<and> P k)" for l :: nat
  by (meson order.strict_trans2)

lemma bit_word_0_iff: "w AND m \<noteq> 0 \<longleftrightarrow> (\<exists>k < 32. bit w k \<and> bit m k)" for w m :: mword
  by (auto simp: mword_eq_iff bit_simps)

lemma bit_and_mask_eq_iff: "v AND m \<noteq> w AND m \<longleftrightarrow> (\<exists>k < 32. bit v k \<noteq> bit w k \<and> bit m k)" for v w m :: mword
  by (auto simp: mword_eq_iff bit_simps)

interpretation is_res_range: test_action "BTGet bt" "\<lambda>i b l. bt i AND BTMask b l \<noteq> 0" "\<lambda>i. bt i \<noteq> 0" for bt
proof
  fix b l w :: nat
  assume "b < l" "l \<le> 32"
  then show "(bt w AND BTMask b l \<noteq> 0) = (\<exists>k\<ge>b. k < l \<and> BTGet bt (32 * w + k))"
    unfolding bit_word_0_iff bit_BTMask [OF \<open>l \<le> 32\<close>] ex_word_bit [OF \<open>l \<le> 32\<close>] by (auto simp: BTGet_word)
next
  show "(bt w \<noteq> 0) = (\<exists>k<32. BTGet bt (32 * w + k))" for w
    by (auto simp: mword_eq_iff BTGet_word)
qed

interpretation is_set_range: test_action "\<lambda>i. \<not> BTGet bt i"
  "\<lambda>i b l. let bactMask = BTMask b l in bt i AND bactMask \<noteq> bactMask" "\<lambda>i. bt i \<noteq> NOT 0" for bt
proof
  fix b l w :: nat
  assume l: "b < l" "l \<le> 32"
  have "(bt w AND BTMask b l \<noteq> BTMask b l) \<longleftrightarrow> (bt w AND BTMask b l \<noteq> NOT 0 AND BTMask b l)" by simp
  also have "\<dots> \<longleftrightarrow> (\<exists>k\<ge>b. k < l \<and> \<not> BTGet bt (32 * w + k))"
    unfolding bit_and_mask_eq_iff bit_BTMask [OF l(2)] ex_word_bit [OF l(2)] using l(2) by (auto simp: BTGet_word bit_simps)
  finally show "(let bactMask = BTMask b l in bt w AND bactMask \<noteq> bactMask) = (\<exists>k\<ge>b. k < l \<and> \<not> BTGet bt (32 * w + k))"
    by (simp only: Let_def)
next
  show "(bt w \<noteq> NOT 0) = (\<exists>k<32. \<not> BTGet bt (32 * w + k))" for w
    by (auto simp: mword_eq_iff BTGet_word bit_simps)
qed

interpretation ranges_same: test_action "\<lambda>i. BTGet a i \<noteq> BTGet b i"
  "\<lambda>i base limit. let bactMask = BTMask base limit in a i AND bactMask \<noteq> b i AND bactMask"
  "\<lambda>i. a i \<noteq> b i" for a b
proof
  fix base l w :: nat
  assume l: "base < l" "l \<le> 32"
  show "(let bactMask = BTMask base l in a w AND bactMask \<noteq> b w AND bactMask) =
      (\<exists>k\<ge>base. k < l \<and> BTGet a (32 * w + k) \<noteq> BTGet b (32 * w + k))"
    unfolding Let_def bit_and_mask_eq_iff bit_BTMask [OF l(2)] ex_word_bit [OF l(2)] using l(2) by (auto simp: BTGet_word)
next
  show "(a w \<noteq> b w) = (\<exists>k<32. BTGet a (32 * w + k) \<noteq> BTGet b (32 * w + k))" for w
    by (auto simp: mword_eq_iff BTGet_word)
qed

subsection \<open>What the range operations compute\<close>

lemma the_state_Inr [simp]: "the_state (Inr s) = s"
  by (simp add: the_state_def)

lemma test_result_leave_if [simp]: "test_result (leave_if c False u) \<longleftrightarrow> \<not> c"
  by (simp add: test_result_def leave_if_def)

text \<open>
  C24: setting, resetting, copying and copying with inversion a range of bits change exactly the
  bits of the range, whatever its alignment, and no bit outside it; none of them fails on a
  non-empty range.
\<close>

theorem range_writes_correct:
  assumes "base < limit"
  shows "(\<exists>t'. BTSetRange t base limit = Some t' \<and>
      (\<forall>j. BTGet t' j = (if base \<le> j \<and> j < limit then True else BTGet t j))) \<and>
    (\<exists>t'. BTResRange t base limit = Some t' \<and>
      (\<forall>j. BTGet t' j = (if base \<le> j \<and> j < limit then False else BTGet t j))) \<and>
    (\<exists>t'. BTCopyRange from t base limit = Some t' \<and>
      (\<forall>j. BTGet t' j = (if base \<le> j \<and> j < limit then BTGet from j else BTGet t j))) \<and>
    (\<exists>t'. BTCopyInvertRange from t base limit = Some t' \<and>
      (\<forall>j. BTGet t' j = (if base \<le> j \<and> j < limit then \<not> BTGet from j else BTGet t j)))"
proof -
  have le: "base \<le> limit" using assms by simp
  obtain a where a: "ACT_ON_RANGE (\<lambda>i t. Inr (SINGLE_SET_RANGE i t)) (\<lambda>i b l t. Inr (BITS_SET_RANGE i b l t))
      (\<lambda>i t. Inr (WORD_SET_RANGE i t)) base limit t = Some (Inr a :: BT + BT)"
    "\<forall>j. BTGet a j = (if base \<le> j \<and> j < limit then True else BTGet t j)"
    using set_range.write_range [OF le, of t] by blast
  obtain b where b: "ACT_ON_RANGE (\<lambda>i t. Inr (SINGLE_RES_RANGE i t)) (\<lambda>i b l t. Inr (BITS_RES_RANGE i b l t))
      (\<lambda>i t. Inr (WORD_RES_RANGE i t)) base limit t = Some (Inr b :: BT + BT)"
    "\<forall>j. BTGet b j = (if base \<le> j \<and> j < limit then False else BTGet t j)"
    using res_range.write_range [OF le, of t] by blast
  obtain c where c: "ACT_ON_RANGE (\<lambda>i t. Inr (SINGLE_COPY_RANGE from i t))
      (\<lambda>i b l t. Inr (BITS_COPY_RANGE from i b l t))
      (\<lambda>i t. Inr (WORD_COPY_RANGE from i t)) base limit t = Some (Inr c :: BT + BT)"
    "\<forall>j. BTGet c j = (if base \<le> j \<and> j < limit then BTGet from j else BTGet t j)"
    using copy_range.write_range [OF le, of "from" t] by blast
  obtain d where d: "ACT_ON_RANGE (\<lambda>i t. Inr (SINGLE_COPY_INVERT_RANGE from i t))
      (\<lambda>i b l t. Inr (BITS_COPY_INVERT_RANGE from i b l t))
      (\<lambda>i t. Inr (WORD_COPY_INVERT_RANGE from i t)) base limit t = Some (Inr d :: BT + BT)"
    "\<forall>j. BTGet d j = (if base \<le> j \<and> j < limit then \<not> BTGet from j else BTGet t j)"
    using copy_invert_range.write_range [OF le, of "from" t] by blast
  show ?thesis
    unfolding BTSetRange_def BTResRange_def BTCopyRange_def BTCopyInvertRange_def
    using assms a b c d by simp
qed

theorem range_writes_correct_witness:
  "\<exists>t'. BTSetRange (\<lambda>_. 0) 3 70 = Some t' \<and> BTGet t' 69 \<and> \<not> BTGet t' 70 \<and> \<not> BTGet t' 2"
proof -
  have z: "\<not> BTGet (\<lambda>_. 0) j" for j by (simp add: BTGet_eq)
  have lt: "(3 :: nat) < 70" by simp
  obtain t' where "BTSetRange (\<lambda>_. 0) 3 70 = Some t'"
    "\<forall>j. BTGet t' j = (if 3 \<le> j \<and> j < 70 then True else BTGet (\<lambda>_. 0) j)"
    using range_writes_correct [OF lt, of "\<lambda>_. 0" "\<lambda>_. 0"] by blast
  then show ?thesis using z by (intro exI [of _ t']) simp
qed

text \<open>
  The range tests agree with the bits one by one: all reset, all set, and equal in two tables.
\<close>

theorem range_tests_correct:
  assumes "base < limit"
  shows "BTIsResRange bt base limit = Some (\<forall>j. base \<le> j \<and> j < limit \<longrightarrow> \<not> BTGet bt j) \<and>
    BTIsSetRange bt base limit = Some (\<forall>j. base \<le> j \<and> j < limit \<longrightarrow> BTGet bt j) \<and>
    BTRangesSame a b base limit = Some (\<forall>j. base \<le> j \<and> j < limit \<longrightarrow> BTGet a j = BTGet b j)"
  unfolding BTIsResRange_def BTIsSetRange_def BTRangesSame_def
    is_res_range.test_range is_set_range.test_range ranges_same.test_range
  using assms by auto

theorem range_tests_correct_witness:
  "BTIsResRange (\<lambda>_. 0) 3 70 = Some True \<and> BTIsSetRange (\<lambda>_. 0) 3 70 = Some False"
proof -
  have "\<not> BTGet (\<lambda>_. 0) j" for j by (simp add: BTGet_eq)
  then show ?thesis using range_tests_correct [of 3 70 "\<lambda>_. 0"] by auto
qed

text \<open>
  C33: the offset copy moves a range of bits to another place and changes nothing else; the count
  is the number of reset bits of the range.
\<close>

theorem copy_offset_and_count_correct:
  assumes "fromBase < fromLimit" and "fromLimit - fromBase = toLimit - toBase"
  shows "(\<exists>t'. BTCopyOffsetRange from t fromBase fromLimit toBase toLimit = Some t' \<and>
      (\<forall>j. BTGet t' j =
        (if toBase \<le> j \<and> j < toLimit then BTGet from (fromBase + (j - toBase)) else BTGet t j))) \<and>
    BTCountResRange from fromBase fromLimit = Some (card {j. fromBase \<le> j \<and> j < fromLimit \<and> \<not> BTGet from j})"
proof -
  define P where "P k s \<longleftrightarrow> fst s = toBase + (k - fromBase) \<and> (\<forall>j. BTGet (snd s) j =
    (if toBase \<le> j \<and> j < toBase + (k - fromBase) then BTGet from (fromBase + (j - toBase)) else BTGet t j))"
    for k and s :: "nat \<times> BT"
  let ?f = "\<lambda>fromBit (toBit, t). Inr (toBit + 1, if BTGet from fromBit then BTSet t toBit else BTRes t toBit)"
  have "\<exists>s'. for_up ?f fromBase fromLimit (toBase, t) = (Inr s' :: (nat \<times> BT) + (nat \<times> BT)) \<and> P fromLimit s'"
  proof (rule for_up_invariant [where P = P])
    show "P fromBase (toBase, t)" by (auto simp: P_def)
  next
    fix k s assume k: "fromBase \<le> k" "k < fromLimit" and P: "P k s"
    obtain toBit u where s: "s = (toBit, u)" by (cases s)
    have "P (Suc k) (toBit + 1, if BTGet from k then BTSet u toBit else BTRes u toBit)"
      using k P unfolding P_def s
      by (auto simp: BTGet_BTSet BTGet_BTRes Suc_diff_le less_Suc_eq)
    then show "\<exists>s'. ?f k s = Inr s' \<and> P (Suc k) s'" by (simp add: s)
  qed (use assms in simp)
  then obtain s' where s': "for_up ?f fromBase fromLimit (toBase, t) = (Inr s' :: (nat \<times> BT) + (nat \<times> BT))"
    "P fromLimit s'" by blast
  define Q where "Q k c \<longleftrightarrow> c = card {j. fromBase \<le> j \<and> j < k \<and> \<not> BTGet from j}" for k c
  have "\<exists>c. for_up (\<lambda>i c. Inr (if \<not> BTGet from i then c + 1 else c)) fromBase fromLimit 0 = (Inr c :: nat + nat) \<and> Q fromLimit c"
  proof (rule for_up_invariant [where P = Q])
    show "Q fromBase 0" by (auto simp: Q_def)
  next
    fix k c assume k: "fromBase \<le> k" "k < fromLimit" and Q: "Q k c"
    have e: "{j. fromBase \<le> j \<and> j < Suc k \<and> \<not> BTGet from j} =
        (if BTGet from k then {j. fromBase \<le> j \<and> j < k \<and> \<not> BTGet from j}
         else insert k {j. fromBase \<le> j \<and> j < k \<and> \<not> BTGet from j})"
      using k(1) by (auto simp: less_Suc_eq)
    have "Q (Suc k) (if \<not> BTGet from k then c + 1 else c)"
      unfolding Q_def e using Q by (auto simp: Q_def)
    then show "\<exists>s'. Inr (if \<not> BTGet from k then c + 1 else c) = Inr s' \<and> Q (Suc k) s'" by blast
  qed (use assms in simp)
  then obtain c where c: "for_up (\<lambda>i c. Inr (if \<not> BTGet from i then c + 1 else c)) fromBase fromLimit 0 = (Inr c :: nat + nat)"
    "Q fromLimit c" by blast
  have lim: "toBase + (fromLimit - fromBase) = toLimit" "toBase < toLimit" using assms by simp_all
  have "BTCopyOffsetRange from t fromBase fromLimit toBase toLimit = Some (snd s')"
    unfolding BTCopyOffsetRange_def using assms lim(2) s'(1) by simp
  moreover have "\<forall>j. BTGet (snd s') j =
      (if toBase \<le> j \<and> j < toLimit then BTGet from (fromBase + (j - toBase)) else BTGet t j)"
    using s'(2) unfolding P_def lim(1) by blast
  moreover have "BTCountResRange from fromBase fromLimit =
      Some (card {j. fromBase \<le> j \<and> j < fromLimit \<and> \<not> BTGet from j})"
    unfolding BTCountResRange_def using assms c by (simp add: Q_def)
  ultimately show ?thesis by blast
qed

theorem copy_offset_and_count_correct_witness: "BTCountResRange (\<lambda>_. 1) 0 3 = Some 2"
proof -
  have "BTGet (\<lambda>_. 1) j \<longleftrightarrow> j mod 32 = 0" for j by (simp add: BTGet_eq bit_1_iff)
  then have "{j. 0 \<le> j \<and> j < 3 \<and> \<not> BTGet (\<lambda>_. 1) j} = {1, 2}" by auto
  then show ?thesis using copy_offset_and_count_correct [of 0 3 3 0 "\<lambda>_. 1"] by simp
qed

end
