(* ===== verification/Bit_Table_Find.thy ===== *)
theory Bit_Table_Find
  imports Bit_Table
begin

text \<open>
  Searching bit tables (\<^verbatim>\<open>bt.c\<close>): the lowest or highest set or reset bit of a range, found by a
  binary chop inside a word, and the searches for a range of reset bits built on them.
\<close>

subsection \<open>The binary chop for one bit of a word\<close>

function FIND_SET_BIT_chop :: "nat \<Rightarrow> mword \<Rightarrow> nat \<Rightarrow> mword \<Rightarrow> nat" where
  "FIND_SET_BIT_chop actionIndex actionWord actionMaskWidth actionMask =
     (if actionMaskWidth \<noteq> 0 then
        let zero = (actionWord AND actionMask = 0);
            actionIndex' = (if zero then actionIndex + actionMaskWidth else actionIndex);
            actionWord' = (if zero then drop_bit actionMaskWidth actionWord else actionWord);
            actionMaskWidth' = drop_bit 1 actionMaskWidth
        in FIND_SET_BIT_chop actionIndex' actionWord' actionMaskWidth' (drop_bit actionMaskWidth' actionMask)
      else actionIndex)"
  by pat_completeness auto
termination
  by (relation "measure (\<lambda>(_, _, width, _). width)") (auto simp: drop_bit_eq_div)

function FIND_SET_BIT_HIGH_chop :: "nat \<Rightarrow> mword \<Rightarrow> nat \<Rightarrow> mword \<Rightarrow> nat" where
  "FIND_SET_BIT_HIGH_chop actionIndex actionWord actionMaskWidth actionMask =
     (if actionMaskWidth \<noteq> 0 then
        let zero = (actionWord AND actionMask = 0);
            actionIndex' = (if zero then actionIndex - actionMaskWidth else actionIndex);
            actionWord' = (if zero then push_bit actionMaskWidth actionWord else actionWord);
            actionMaskWidth' = drop_bit 1 actionMaskWidth
        in FIND_SET_BIT_HIGH_chop actionIndex' actionWord' actionMaskWidth' (push_bit actionMaskWidth' actionMask)
      else actionIndex)"
  by pat_completeness auto
termination
  by (relation "measure (\<lambda>(_, _, width, _). width)") (auto simp: drop_bit_eq_div)

declare FIND_SET_BIT_chop.simps [simp del] FIND_SET_BIT_HIGH_chop.simps [simp del]

text \<open>The macros leave with the index of the bit found, or go on when the part of the word is zero.\<close>

definition ACTION_FIND_SET_BIT :: "nat \<Rightarrow> mword \<Rightarrow> nat \<Rightarrow> nat \<Rightarrow> nat option" where
  "ACTION_FIND_SET_BIT wi word base limit =
     (let actionIndex = base;
          actionWord = drop_bit actionIndex (word AND BTMaskHigh limit);
          actionMaskWidth = drop_bit 1 MPS_WORD_WIDTH;
          actionMask = drop_bit (MPS_WORD_WIDTH - actionMaskWidth) (NOT 0)
      in if actionWord \<noteq> 0
         then Some (push_bit MPS_WORD_SHIFT wi OR
                FIND_SET_BIT_chop actionIndex actionWord actionMaskWidth actionMask)
         else None)"

definition ACTION_FIND_SET_BIT_HIGH :: "nat \<Rightarrow> mword \<Rightarrow> nat \<Rightarrow> nat \<Rightarrow> nat option" where
  "ACTION_FIND_SET_BIT_HIGH wi word base limit =
     (let actionShift = MPS_WORD_WIDTH - limit;
          actionIndex = MPS_WORD_WIDTH - 1 - actionShift;
          actionWord = push_bit actionShift (word AND BTMaskLow base);
          actionMaskWidth = drop_bit 1 MPS_WORD_WIDTH;
          actionMask = push_bit (MPS_WORD_WIDTH - actionMaskWidth) (NOT 0)
      in if actionWord \<noteq> 0
         then Some (push_bit MPS_WORD_SHIFT wi OR
                FIND_SET_BIT_HIGH_chop actionIndex actionWord actionMaskWidth actionMask)
         else None)"

lemma drop_bit_mask: "2 * n \<le> 32 \<Longrightarrow> drop_bit n (mask (2 * n)) = (mask n :: mword)"
  by (rule bit_word_eqI) (auto simp: bit_simps)

lemma FIND_SET_BIT_chop_correct:
  "m \<le> 4 \<Longrightarrow> bit w k \<Longrightarrow> (\<And>j. j < k \<Longrightarrow> \<not> bit w j) \<Longrightarrow> k < 2 * 2 ^ m \<Longrightarrow>
    FIND_SET_BIT_chop i w (2 ^ m) (mask (2 ^ m)) = i + k"
proof (induction m arbitrary: i w k)
  case 0
  have "w AND mask 1 = 0 \<longleftrightarrow> k \<noteq> 0"
    using "0.prems" by (auto simp: mword_eq_iff bit_simps) (metis neq0_conv)
  with "0.prems"(4) show ?case
    by (auto simp: FIND_SET_BIT_chop.simps [of _ _ "Suc 0"] FIND_SET_BIT_chop.simps [of _ _ 0] Let_def)
next
  case (Suc m)
  define n :: nat where "n = 2 ^ Suc m"
  have "(2 :: nat) ^ Suc m \<le> 2 ^ 4" using Suc.prems(1) by (intro power_increasing) auto
  then have n: "n = 2 * 2 ^ m" "n \<le> 16" "n \<noteq> 0" by (simp_all add: n_def)
  have half: "drop_bit 1 n = 2 ^ m" by (simp add: n(1) drop_bit_eq_div)
  have mask: "drop_bit (2 ^ m) (mask n) = (mask (2 ^ m) :: mword)"
    unfolding n(1) using n(1,2) by (intro drop_bit_mask) simp
  have k32: "k < 32" using Suc.prems(2) bit_imp_le_length [of w k] by simp
  have zero: "w AND mask n = 0 \<longleftrightarrow> n \<le> k"
  proof
    assume "w AND mask n = 0"
    then have "\<not> bit (w AND mask n) k" by simp
    then show "n \<le> k" using Suc.prems(2) k32 by (simp add: bit_simps)
  next
    assume "n \<le> k"
    then show "w AND mask n = 0" using Suc.prems(3) by (auto simp: mword_eq_iff bit_simps)
  qed
  note step = FIND_SET_BIT_chop.simps [of i w n "mask n", unfolded Let_def half mask zero]
  show ?case
  proof (cases "n \<le> k")
    case True
    then have "FIND_SET_BIT_chop (i + n) (drop_bit n w) (2 ^ m) (mask (2 ^ m)) = i + n + (k - n)"
      using Suc.prems n by (intro Suc.IH) (auto simp: bit_simps n_def [symmetric])
    with True step n(3) show ?thesis unfolding n_def [symmetric] by simp
  next
    case False
    then have "FIND_SET_BIT_chop i w (2 ^ m) (mask (2 ^ m)) = i + k"
      using Suc.prems n by (intro Suc.IH) auto
    with False step n(3) show ?thesis unfolding n_def [symmetric] by simp
  qed
qed

definition top_mask :: "nat \<Rightarrow> mword" where
  "top_mask n = push_bit (32 - n) (NOT 0)"

lemma bit_top_mask: "n \<le> 32 \<Longrightarrow> bit (top_mask n) j \<longleftrightarrow> 32 - n \<le> j \<and> j < 32"
  by (auto simp: top_mask_def bit_simps)

lemma FIND_SET_BIT_HIGH_chop_correct:
  "m \<le> 4 \<Longrightarrow> bit w k \<Longrightarrow> (\<And>j. k < j \<Longrightarrow> \<not> bit w j) \<Longrightarrow> 31 - k < 2 * 2 ^ m \<Longrightarrow>
    FIND_SET_BIT_HIGH_chop i w (2 ^ m) (top_mask (2 ^ m)) = i - (31 - k)"
proof (induction m arbitrary: i w k)
  case 0
  have "k < 32" using "0.prems"(2) bit_imp_le_length [of w k] by simp
  moreover have "w AND top_mask 1 = 0 \<longleftrightarrow> k \<noteq> 31"
  proof
    assume "w AND top_mask 1 = 0"
    then have "\<not> bit (w AND top_mask 1) 31" by simp
    then show "k \<noteq> 31" using "0.prems"(2) by (auto simp: bit_simps bit_top_mask)
  next
    assume "k \<noteq> 31"
    then have "\<not> bit w 31" using \<open>k < 32\<close> "0.prems"(3) by auto
    then show "w AND top_mask 1 = 0"
      by (auto simp: mword_eq_iff bit_simps bit_top_mask dest!: le_less_Suc_eq [THEN iffD1])
  qed
  ultimately show ?case using "0.prems"(4)
    by (auto simp: FIND_SET_BIT_HIGH_chop.simps [of _ _ "Suc 0"] FIND_SET_BIT_HIGH_chop.simps [of _ _ 0] Let_def)
next
  case (Suc m)
  define n :: nat where "n = 2 ^ Suc m"
  have "(2 :: nat) ^ Suc m \<le> 2 ^ 4" using Suc.prems(1) by (intro power_increasing) auto
  then have n: "n = 2 * 2 ^ m" "n \<le> 16" "n \<noteq> 0" by (simp_all add: n_def)
  have half: "drop_bit 1 n = 2 ^ m" by (simp add: n(1) drop_bit_eq_div)
  have mask: "push_bit (2 ^ m) (top_mask n) = top_mask (2 ^ m)"
    using n by (intro bit_word_eqI) (auto simp: bit_simps bit_top_mask)
  have k32: "k < 32" using Suc.prems(2) bit_imp_le_length [of w k] by simp
  have zero: "w AND top_mask n = 0 \<longleftrightarrow> n \<le> 31 - k"
  proof
    assume "w AND top_mask n = 0"
    then have "\<not> bit (w AND top_mask n) k" by simp
    then show "n \<le> 31 - k" using Suc.prems(2) k32 n(2) by (simp add: bit_simps bit_top_mask)
  next
    assume "n \<le> 31 - k"
    then show "w AND top_mask n = 0" using Suc.prems(3) n(2)
      by (auto simp: mword_eq_iff bit_simps bit_top_mask)
  qed
  note step = FIND_SET_BIT_HIGH_chop.simps [of i w n "top_mask n", unfolded Let_def half mask zero]
  show ?case
  proof (cases "n \<le> 31 - k")
    case True
    then have "FIND_SET_BIT_HIGH_chop (i - n) (push_bit n w) (2 ^ m) (top_mask (2 ^ m)) = i - n - (31 - (k + n))"
      using Suc.prems n k32 by (intro Suc.IH) (auto simp: bit_simps n_def [symmetric])
    with True step n(3) show ?thesis unfolding n_def [symmetric] by simp
  next
    case False
    then have "FIND_SET_BIT_HIGH_chop i w (2 ^ m) (top_mask (2 ^ m)) = i - (31 - k)"
      using Suc.prems n by (intro Suc.IH) auto
    with False step n(3) show ?thesis unfolding n_def [symmetric] by simp
  qed
qed

subsection \<open>The lowest and the highest index with a property\<close>

definition lowest :: "(nat \<Rightarrow> bool) \<Rightarrow> nat \<Rightarrow> nat \<Rightarrow> nat option" where
  "lowest p b l = (if \<exists>k. b \<le> k \<and> k < l \<and> p k then Some (LEAST k. b \<le> k \<and> k < l \<and> p k) else None)"

definition highest :: "(nat \<Rightarrow> bool) \<Rightarrow> nat \<Rightarrow> nat \<Rightarrow> nat option" where
  "highest p b l = (if \<exists>k. b \<le> k \<and> k < l \<and> p k then Some (GREATEST k. b \<le> k \<and> k < l \<and> p k) else None)"

lemma lowest_eq_None: "lowest p b l = None \<longleftrightarrow> (\<forall>j. b \<le> j \<and> j < l \<longrightarrow> \<not> p j)"
  by (auto simp: lowest_def)

lemma highest_eq_None: "highest p b l = None \<longleftrightarrow> (\<forall>j. b \<le> j \<and> j < l \<longrightarrow> \<not> p j)"
  by (auto simp: highest_def)

lemma lowest_eq_Some:
  "lowest p b l = Some i \<longleftrightarrow> b \<le> i \<and> i < l \<and> p i \<and> (\<forall>j. b \<le> j \<and> j < i \<longrightarrow> \<not> p j)" (is "?L \<longleftrightarrow> ?R")
proof
  assume ?L
  then obtain k where k: "b \<le> k \<and> k < l \<and> p k" and i: "i = (LEAST k. b \<le> k \<and> k < l \<and> p k)"
    by (auto simp: lowest_def split: if_splits)
  have "b \<le> i \<and> i < l \<and> p i" unfolding i using k by (rule LeastI)
  moreover have "\<not> p j" if "b \<le> j" "j < i" for j
    using not_less_Least [of j "\<lambda>k. b \<le> k \<and> k < l \<and> p k"] that \<open>b \<le> i \<and> i < l \<and> p i\<close>
    by (auto simp: i [symmetric])
  ultimately show ?R by blast
next
  assume r: ?R
  have "(LEAST k. b \<le> k \<and> k < l \<and> p k) = i"
    using r by (intro Least_equality) (auto simp: not_less [symmetric])
  with r show ?L by (auto simp: lowest_def)
qed

lemma highest_eq_Some:
  "highest p b l = Some i \<longleftrightarrow> b \<le> i \<and> i < l \<and> p i \<and> (\<forall>j. i < j \<and> j < l \<longrightarrow> \<not> p j)" (is "?L \<longleftrightarrow> ?R")
proof
  assume ?L
  then obtain k where k: "b \<le> k \<and> k < l \<and> p k" and i: "i = (GREATEST k. b \<le> k \<and> k < l \<and> p k)"
    by (auto simp: highest_def split: if_splits)
  have bd: "\<And>y. b \<le> y \<and> y < l \<and> p y \<Longrightarrow> y \<le> l" by simp
  have *: "b \<le> i \<and> i < l \<and> p i" unfolding i using GreatestI_nat [of "\<lambda>k. b \<le> k \<and> k < l \<and> p k" k l] k by auto
  moreover have "\<not> p j" if "i < j" "j < l" for j
  proof
    assume "p j"
    then have "j \<le> i" unfolding i using * that bd by (intro Greatest_le_nat [where b = l]) auto
    with that show False by simp
  qed
  ultimately show ?R by blast
next
  assume r: ?R
  have "(GREATEST k. b \<le> k \<and> k < l \<and> p k) = i"
    using r by (intro Greatest_equality) (auto simp: not_less [symmetric])
  with r show ?L by (auto simp: highest_def)
qed

lemma lowest_shift: "lowest p (c + b) (c + l) = map_option ((+) c) (lowest (\<lambda>k. p (c + k)) b l)"
proof (cases "lowest (\<lambda>k. p (c + k)) b l")
  case None
  then have n: "b \<le> k \<Longrightarrow> k < l \<Longrightarrow> \<not> p (c + k)" for k by (simp add: lowest_eq_None)
  have "lowest p (c + b) (c + l) = None"
    unfolding lowest_eq_None
  proof (intro allI impI)
    fix j assume "c + b \<le> j \<and> j < c + l"
    then have "b \<le> j - c" "j - c < l" "c + (j - c) = j" by auto
    with n [of "j - c"] show "\<not> p j" by simp
  qed
  with None show ?thesis by simp
next
  case (Some i)
  then have s: "b \<le> i" "i < l" "p (c + i)" "b \<le> k \<Longrightarrow> k < i \<Longrightarrow> \<not> p (c + k)" for k
    by (auto simp: lowest_eq_Some)
  have "lowest p (c + b) (c + l) = Some (c + i)"
    unfolding lowest_eq_Some
  proof (intro conjI allI impI)
    fix j assume "c + b \<le> j \<and> j < c + i"
    then have "b \<le> j - c" "j - c < i" "c + (j - c) = j" by auto
    with s(4) [of "j - c"] show "\<not> p j" by simp
  qed (use s in auto)
  with Some show ?thesis by simp
qed

lemma highest_shift: "highest p (c + b) (c + l) = map_option ((+) c) (highest (\<lambda>k. p (c + k)) b l)"
proof (cases "highest (\<lambda>k. p (c + k)) b l")
  case None
  then have n: "b \<le> k \<Longrightarrow> k < l \<Longrightarrow> \<not> p (c + k)" for k by (simp add: highest_eq_None)
  have "highest p (c + b) (c + l) = None"
    unfolding highest_eq_None
  proof (intro allI impI)
    fix j assume "c + b \<le> j \<and> j < c + l"
    then have "b \<le> j - c" "j - c < l" "c + (j - c) = j" by auto
    with n [of "j - c"] show "\<not> p j" by simp
  qed
  with None show ?thesis by simp
next
  case (Some i)
  then have s: "b \<le> i" "i < l" "p (c + i)" "i < k \<Longrightarrow> k < l \<Longrightarrow> \<not> p (c + k)" for k
    by (auto simp: highest_eq_Some)
  have "highest p (c + b) (c + l) = Some (c + i)"
    unfolding highest_eq_Some
  proof (intro conjI allI impI)
    fix j assume "c + i < j \<and> j < c + l"
    then have "i < j - c" "j - c < l" "c + (j - c) = j" by auto
    with s(4) [of "j - c"] show "\<not> p j" by simp
  qed (use s in auto)
  with Some show ?thesis by simp
qed

subsection \<open>One word\<close>

lemma index_or: "k < 32 \<Longrightarrow> push_bit 5 wi OR k = 32 * wi + k" for wi k :: nat
proof -
  assume k: "k < 32"
  have "push_bit 5 wi + k = push_bit 5 wi OR k"
  proof (rule disjunctive_add)
    fix n
    show "\<not> bit (push_bit 5 wi) n \<or> \<not> bit k n"
    proof (cases "n < 5")
      case False
      then have "(2 :: nat) ^ 5 \<le> 2 ^ n" by (intro power_increasing) auto
      with k have "k < 2 ^ n" by simp
      then have "k div 2 ^ n = 0" by simp
      then show ?thesis by (simp add: bit_iff_odd)
    qed (simp add: bit_simps)
  qed
  then show ?thesis by (simp add: push_bit_eq_mult)
qed

lemma drop_bit_NOT_0: "n \<le> 32 \<Longrightarrow> drop_bit (32 - n) (NOT 0) = (mask n :: mword)"
  by (rule bit_word_eqI) (auto simp: bit_simps)

lemma ACTION_FIND_SET_BIT_correct:
  assumes "b < l" and "l \<le> 32"
  shows "ACTION_FIND_SET_BIT wi w b l = map_option ((+) (32 * wi)) (lowest (bit w) b l)"
proof -
  define aw where "aw = drop_bit b (w AND BTMaskHigh l)"
  have bit_aw: "bit aw k \<longleftrightarrow> b + k < l \<and> bit w (b + k)" for k
    using assms(2) by (auto simp: aw_def BTMaskHigh_def bit_simps dest: bit_imp_le_length)
  have mask: "drop_bit (32 - drop_bit 1 32) (NOT 0) = (mask 16 :: mword)"
    using drop_bit_NOT_0 [of 16] by (simp add: drop_bit_eq_div)
  have act: "ACTION_FIND_SET_BIT wi w b l =
      (if aw \<noteq> 0 then Some (push_bit 5 wi OR FIND_SET_BIT_chop b aw 16 (mask 16)) else None)"
    unfolding ACTION_FIND_SET_BIT_def Let_def aw_def [symmetric] mask by (simp add: drop_bit_eq_div)
  show ?thesis
  proof (cases "lowest (bit w) b l")
    case None
    then have "aw = 0"
      by (intro bit_word_eqI) (auto simp: bit_aw lowest_eq_None)
    with None act show ?thesis by simp
  next
    case (Some i)
    then have i: "b \<le> i" "i < l" "bit w i" "b \<le> j \<Longrightarrow> j < i \<Longrightarrow> \<not> bit w j" for j
      by (auto simp: lowest_eq_Some)
    have k: "bit aw (i - b)" "\<And>j. j < i - b \<Longrightarrow> \<not> bit aw j"
      using i by (auto simp: bit_aw)
    then have "aw \<noteq> 0" by auto
    have "FIND_SET_BIT_chop b aw (2 ^ 4) (mask (2 ^ 4)) = b + (i - b)"
      using k i assms by (intro FIND_SET_BIT_chop_correct) auto
    then have "FIND_SET_BIT_chop b aw 16 (mask 16) = i" using i(1) by simp
    with \<open>aw \<noteq> 0\<close> Some i(2) assms(2) act show ?thesis by (simp add: index_or)
  qed
qed

lemma ACTION_FIND_SET_BIT_HIGH_correct:
  assumes "b < l" and "l \<le> 32"
  shows "ACTION_FIND_SET_BIT_HIGH wi w b l = map_option ((+) (32 * wi)) (highest (bit w) b l)"
proof -
  define aw where "aw = push_bit (32 - l) (w AND BTMaskLow b)"
  have bit_aw: "bit aw k \<longleftrightarrow> 32 - l \<le> k \<and> k < 32 \<and> b \<le> k - (32 - l) \<and> bit w (k - (32 - l))" for k
    using assms(2) by (auto simp: aw_def BTMaskLow_def bit_simps dest: bit_imp_le_length)
  have mask: "push_bit (32 - drop_bit 1 32) (NOT 0) = top_mask 16"
    by (simp add: top_mask_def drop_bit_eq_div)
  have act: "ACTION_FIND_SET_BIT_HIGH wi w b l =
      (if aw \<noteq> 0 then Some (push_bit 5 wi OR FIND_SET_BIT_HIGH_chop (31 - (32 - l)) aw 16 (top_mask 16)) else None)"
    unfolding ACTION_FIND_SET_BIT_HIGH_def Let_def aw_def [symmetric] mask by (simp add: drop_bit_eq_div)
  show ?thesis
  proof (cases "highest (bit w) b l")
    case None
    then have "aw = 0"
      by (intro bit_word_eqI) (auto simp: bit_aw highest_eq_None)
    with None act show ?thesis by simp
  next
    case (Some i)
    then have i: "b \<le> i" "i < l" "bit w i" "i < j \<Longrightarrow> j < l \<Longrightarrow> \<not> bit w j" for j
      by (auto simp: highest_eq_Some)
    define k where "k = i + (32 - l)"
    have k: "bit aw k" "\<And>j. k < j \<Longrightarrow> \<not> bit aw j"
      using i assms by (auto simp: bit_aw k_def)
    then have "aw \<noteq> 0" by auto
    have "FIND_SET_BIT_HIGH_chop (31 - (32 - l)) aw (2 ^ 4) (top_mask (2 ^ 4)) = 31 - (32 - l) - (31 - k)"
      using k by (intro FIND_SET_BIT_HIGH_chop_correct) auto
    moreover have "31 - (32 - l) - (31 - k) = i" using i(2) assms by (simp add: k_def)
    ultimately have "FIND_SET_BIT_HIGH_chop (31 - (32 - l)) aw 16 (top_mask 16) = i" by simp
    with \<open>aw \<noteq> 0\<close> Some i(2) assms(2) act show ?thesis by (simp add: index_or)
  qed
qed

subsection \<open>The first or last bit of a range\<close>

definition leave_found :: "nat option \<Rightarrow> unit \<Rightarrow> nat + unit" where
  "leave_found f u = (case f of Some i \<Rightarrow> Inl i | None \<Rightarrow> Inr u)"

definition found :: "nat + unit \<Rightarrow> nat option" where
  "found r = (case r of Inl i \<Rightarrow> Some i | Inr _ \<Rightarrow> None)"

lemma found_leave_found [simp]: "found (leave_found f u) = f"
  by (simp add: found_def leave_found_def split: option.split)

definition SINGLE_FIND :: "bool \<Rightarrow> nat \<Rightarrow> nat option" where
  "SINGLE_FIND b i = (if b then Some i else None)"

definition BTFindSet :: "BT \<Rightarrow> nat \<Rightarrow> nat \<Rightarrow> nat option option" where
  "BTFindSet bt base limit = do {
     r \<leftarrow> ACT_ON_RANGE (\<lambda>i. leave_found (SINGLE_FIND (BTGet bt i) i))
            (\<lambda>wi b l. leave_found (ACTION_FIND_SET_BIT wi (bt wi) b l))
            (\<lambda>wi. leave_found (ACTION_FIND_SET_BIT wi (bt wi) 0 MPS_WORD_WIDTH)) base limit ();
     Some (found r)
   }"

definition BTFindRes :: "BT \<Rightarrow> nat \<Rightarrow> nat \<Rightarrow> nat option option" where
  "BTFindRes bt base limit = do {
     r \<leftarrow> ACT_ON_RANGE (\<lambda>i. leave_found (SINGLE_FIND (\<not> BTGet bt i) i))
            (\<lambda>wi b l. leave_found (ACTION_FIND_SET_BIT wi (NOT (bt wi)) b l))
            (\<lambda>wi. leave_found (ACTION_FIND_SET_BIT wi (NOT (bt wi)) 0 MPS_WORD_WIDTH)) base limit ();
     Some (found r)
   }"

definition BTFindSetHigh :: "BT \<Rightarrow> nat \<Rightarrow> nat \<Rightarrow> nat option option" where
  "BTFindSetHigh bt base limit = do {
     r \<leftarrow> ACT_ON_RANGE_HIGH (\<lambda>i. leave_found (SINGLE_FIND (BTGet bt i) i))
            (\<lambda>wi b l. leave_found (ACTION_FIND_SET_BIT_HIGH wi (bt wi) b l))
            (\<lambda>wi. leave_found (ACTION_FIND_SET_BIT_HIGH wi (bt wi) 0 MPS_WORD_WIDTH)) base limit ();
     Some (found r)
   }"

definition BTFindResHigh :: "BT \<Rightarrow> nat \<Rightarrow> nat \<Rightarrow> nat option option" where
  "BTFindResHigh bt base limit = do {
     r \<leftarrow> ACT_ON_RANGE_HIGH (\<lambda>i. leave_found (SINGLE_FIND (\<not> BTGet bt i) i))
            (\<lambda>wi b l. leave_found (ACTION_FIND_SET_BIT_HIGH wi (NOT (bt wi)) b l))
            (\<lambda>wi. leave_found (ACTION_FIND_SET_BIT_HIGH wi (NOT (bt wi)) 0 MPS_WORD_WIDTH)) base limit ();
     Some (found r)
   }"

lemma for_up_found:
  "for_up (\<lambda>i. leave_found (SINGLE_FIND (p i) i)) b l u = leave_found (lowest p b l) u"
proof -
  have "(\<lambda>i. leave_found (SINGLE_FIND (p i) i)) = (\<lambda>k u. if p k then Inl k else Inr u)"
    by (auto simp: leave_found_def SINGLE_FIND_def fun_eq_iff)
  then show ?thesis
    using for_up_find [of p "\<lambda>k. k" b l u] by (auto simp: lowest_def leave_found_def)
qed

lemma for_down_found:
  "for_down (\<lambda>i. leave_found (SINGLE_FIND (p i) i)) l b u = leave_found (highest p b l) u"
proof -
  have "(\<lambda>i. leave_found (SINGLE_FIND (p i) i)) = (\<lambda>k u. if p k then Inl k else Inr u)"
    by (auto simp: leave_found_def SINGLE_FIND_def fun_eq_iff)
  then show ?thesis
    using for_down_find [of p "\<lambda>k. k" l b u] by (auto simp: highest_def leave_found_def)
qed

text \<open>What a search owes its caller, from either end.\<close>

locale find_low =
  fixes p :: "nat \<Rightarrow> bool" and act :: "nat \<Rightarrow> nat \<Rightarrow> nat \<Rightarrow> nat option"
  assumes act_eq: "b < l \<Longrightarrow> l \<le> 32 \<Longrightarrow> act w b l = lowest p (32 * w + b) (32 * w + l)"

sublocale find_low \<subseteq> range_action "\<lambda>i. leave_found (SINGLE_FIND (p i) i)"
  "\<lambda>w b l. leave_found (act w b l)" "\<lambda>w. leave_found (act w 0 32)"
  by unfold_locales (simp_all add: for_up_found act_eq)

locale find_high =
  fixes p :: "nat \<Rightarrow> bool" and act :: "nat \<Rightarrow> nat \<Rightarrow> nat \<Rightarrow> nat option"
  assumes act_eq: "b < l \<Longrightarrow> l \<le> 32 \<Longrightarrow> act w b l = highest p (32 * w + b) (32 * w + l)"

sublocale find_high \<subseteq> range_action_high "\<lambda>i. leave_found (SINGLE_FIND (p i) i)"
  "\<lambda>w b l. leave_found (act w b l)" "\<lambda>w. leave_found (act w 0 32)"
  by unfold_locales (simp_all add: for_down_found act_eq)

lemma lowest_cong:
  assumes "\<And>k. b \<le> k \<Longrightarrow> k < l \<Longrightarrow> p k = q k"
  shows "lowest p b l = lowest q b l"
proof -
  have "(\<lambda>k. b \<le> k \<and> k < l \<and> p k) = (\<lambda>k. b \<le> k \<and> k < l \<and> q k)" using assms by auto
  then show ?thesis unfolding lowest_def by metis
qed

lemma highest_cong:
  assumes "\<And>k. b \<le> k \<Longrightarrow> k < l \<Longrightarrow> p k = q k"
  shows "highest p b l = highest q b l"
proof -
  have "(\<lambda>k. b \<le> k \<and> k < l \<and> p k) = (\<lambda>k. b \<le> k \<and> k < l \<and> q k)" using assms by auto
  then show ?thesis unfolding highest_def by metis
qed

interpretation find_set: find_low "BTGet bt" "\<lambda>wi b l. ACTION_FIND_SET_BIT wi (bt wi) b l" for bt
  by unfold_locales
    (auto simp: ACTION_FIND_SET_BIT_correct lowest_shift BTGet_word
      intro!: arg_cong [where f = "map_option _"] lowest_cong)

interpretation find_res: find_low "\<lambda>i. \<not> BTGet bt i" "\<lambda>wi b l. ACTION_FIND_SET_BIT wi (NOT (bt wi)) b l" for bt
  by unfold_locales
    (auto simp: ACTION_FIND_SET_BIT_correct lowest_shift BTGet_word bit_not_iff
      intro!: arg_cong [where f = "map_option _"] lowest_cong)

interpretation find_set_high: find_high "BTGet bt" "\<lambda>wi b l. ACTION_FIND_SET_BIT_HIGH wi (bt wi) b l" for bt
  by unfold_locales
    (auto simp: ACTION_FIND_SET_BIT_HIGH_correct highest_shift BTGet_word
      intro!: arg_cong [where f = "map_option _"] highest_cong)

interpretation find_res_high: find_high "\<lambda>i. \<not> BTGet bt i"
  "\<lambda>wi b l. ACTION_FIND_SET_BIT_HIGH wi (NOT (bt wi)) b l" for bt
  by unfold_locales
    (auto simp: ACTION_FIND_SET_BIT_HIGH_correct highest_shift BTGet_word bit_not_iff
      intro!: arg_cong [where f = "map_option _"] highest_cong)

lemma find_eqs:
  "BTFindSet bt base limit = Some (lowest (BTGet bt) base limit)"
  "BTFindRes bt base limit = Some (lowest (\<lambda>i. \<not> BTGet bt i) base limit)"
  "BTFindSetHigh bt base limit = Some (highest (BTGet bt) base limit)"
  "BTFindResHigh bt base limit = Some (highest (\<lambda>i. \<not> BTGet bt i) base limit)"
  unfolding BTFindSet_def BTFindRes_def BTFindSetHigh_def BTFindResHigh_def
    find_set.act_on_range find_res.act_on_range find_set_high.act_on_range find_res_high.act_on_range
    for_up_found for_down_found
  by simp_all

text \<open>
  C17: the four bit searches, which scan words by a binary chop, return the lowest or highest set or
  reset bit of the range, and report none exactly when there is none.
\<close>

theorem find_bit_correct:
  "\<exists>s r sh rh. BTFindSet bt base limit = Some s \<and> BTFindRes bt base limit = Some r \<and>
    BTFindSetHigh bt base limit = Some sh \<and> BTFindResHigh bt base limit = Some rh \<and>
    (\<forall>i. s = Some i \<longleftrightarrow> base \<le> i \<and> i < limit \<and> BTGet bt i \<and> (\<forall>j. base \<le> j \<and> j < i \<longrightarrow> \<not> BTGet bt j)) \<and>
    (\<forall>i. r = Some i \<longleftrightarrow> base \<le> i \<and> i < limit \<and> \<not> BTGet bt i \<and> (\<forall>j. base \<le> j \<and> j < i \<longrightarrow> BTGet bt j)) \<and>
    (\<forall>i. sh = Some i \<longleftrightarrow> base \<le> i \<and> i < limit \<and> BTGet bt i \<and> (\<forall>j. i < j \<and> j < limit \<longrightarrow> \<not> BTGet bt j)) \<and>
    (\<forall>i. rh = Some i \<longleftrightarrow> base \<le> i \<and> i < limit \<and> \<not> BTGet bt i \<and> (\<forall>j. i < j \<and> j < limit \<longrightarrow> BTGet bt j)) \<and>
    (s = None \<longleftrightarrow> (\<forall>j. base \<le> j \<and> j < limit \<longrightarrow> \<not> BTGet bt j)) \<and>
    (r = None \<longleftrightarrow> (\<forall>j. base \<le> j \<and> j < limit \<longrightarrow> BTGet bt j)) \<and>
    (sh = None \<longleftrightarrow> s = None) \<and> (rh = None \<longleftrightarrow> r = None)"
  unfolding find_eqs
  by (rule exI [of _ "lowest (BTGet bt) base limit"], rule exI [of _ "lowest (\<lambda>i. \<not> BTGet bt i) base limit"],
      rule exI [of _ "highest (BTGet bt) base limit"], rule exI [of _ "highest (\<lambda>i. \<not> BTGet bt i) base limit"])
    (simp add: lowest_eq_Some highest_eq_Some lowest_eq_None highest_eq_None)

theorem find_bit_correct_witness: "BTFindSetHigh (\<lambda>w. if w = 2 then 2 ^ 2 else 0) 1 100 = Some (Some 66)"
proof -
  let ?bt = "\<lambda>w :: nat. if w = 2 then 2 ^ 2 else 0 :: mword"
  have "BTGet ?bt j \<longleftrightarrow> j div 32 = 2 \<and> j mod 32 = 2" for j
    unfolding BTGet_eq by (simp only: bit_exp_iff split: if_split) simp
  moreover have "j div 32 = 2 \<and> j mod 32 = 2 \<longleftrightarrow> j = 66" for j :: nat
  proof
    assume "j div 32 = 2 \<and> j mod 32 = 2"
    moreover have "j = 32 * (j div 32) + j mod 32" by simp
    ultimately show "j = 66" by presburger
  qed simp
  ultimately have g: "BTGet ?bt j \<longleftrightarrow> j = 66" for j by simp
  obtain sh where sh: "BTFindSetHigh ?bt 1 100 = Some sh"
    "\<forall>i. sh = Some i \<longleftrightarrow> 1 \<le> i \<and> i < 100 \<and> BTGet ?bt i \<and> (\<forall>j. i < j \<and> j < 100 \<longrightarrow> \<not> BTGet ?bt j)"
    using find_bit_correct [of ?bt 1 100] by blast
  then have "sh = Some 66" unfolding g by simp
  with sh(1) show ?thesis by simp
qed

subsection \<open>Ranges of reset bits, from the low end\<close>

text \<open>
  The last part of an iteration of \<^verbatim>\<open>BTFindResRange\<close>: a minimal range was found and is extended.
  Then the loop, with \<^verbatim>\<open>foundRes\<close>, \<^verbatim>\<open>resBase\<close>, \<^verbatim>\<open>unseenBase\<close> and \<^verbatim>\<open>minLimit\<close> as its variables. The
  result is \<open>None\<close> for an assertion that fails, else the range found, if any.
\<close>

definition BTFindResRange_extend ::
  "BT \<Rightarrow> nat \<Rightarrow> nat \<Rightarrow> nat \<Rightarrow> nat \<Rightarrow> nat \<Rightarrow> (nat \<times> nat) option option" where
  "BTFindResRange_extend bt searchLimit minLength maxLength resBase minLimit =
     (let setBase = minLimit;
          setLimit = (if resBase + maxLength > searchLimit then searchLimit else resBase + maxLength)
      in do {
        foundSet \<leftarrow> (if setLimit > setBase then BTFindSet bt setBase setLimit else Some None);
        let setIndex = (case foundSet of Some i \<Rightarrow> i | None \<Rightarrow> setLimit);
        aver (setIndex - resBase \<ge> minLength);
        aver (setIndex - resBase \<le> maxLength);
        Some (Some (resBase, setIndex))
      })"

partial_function (option) BTFindResRange_loop ::
  "BT \<Rightarrow> nat \<Rightarrow> nat \<Rightarrow> nat \<Rightarrow> nat \<Rightarrow> bool \<Rightarrow> nat \<Rightarrow> nat \<Rightarrow> nat \<Rightarrow> (nat \<times> nat) option option" where
  "BTFindResRange_loop bt searchLimit minLength maxLength resLimit foundRes resBase unseenBase minLimit =
     (if resBase < resLimit then do {
        cand \<leftarrow> (if foundRes then Some (Some (resBase, unseenBase, minLimit))
                 else do {
                   r \<leftarrow> BTFindRes bt unseenBase resLimit;
                   Some (case r of None \<Rightarrow> None
                         | Some resBase \<Rightarrow> Some (resBase, resBase + 1, resBase + minLength))
                 });
        (case cand of
           None \<Rightarrow> Some None
         | Some (resBase, unseenBase, minLimit) \<Rightarrow> do {
             foundSet \<leftarrow> BTFindSetHigh bt unseenBase minLimit;
             (case foundSet of
                None \<Rightarrow> BTFindResRange_extend bt searchLimit minLength maxLength resBase minLimit
              | Some setIndex \<Rightarrow>
                  (if setIndex + 1 \<noteq> minLimit
                   then BTFindResRange_loop bt searchLimit minLength maxLength resLimit
                          True (setIndex + 1) minLimit (setIndex + 1 + minLength)
                   else BTFindResRange_loop bt searchLimit minLength maxLength resLimit
                          False (setIndex + 1) minLimit minLimit))
           })
      } else Some None)"

definition BTFindResRange ::
  "BT \<Rightarrow> nat \<Rightarrow> nat \<Rightarrow> nat \<Rightarrow> nat \<Rightarrow> (nat \<times> nat) option option" where
  "BTFindResRange bt searchBase searchLimit minLength maxLength = do {
     aver (searchBase < searchLimit);
     aver (minLength > 0);
     aver (minLength \<le> maxLength);
     aver (maxLength \<le> searchLimit - searchBase);
     BTFindResRange_loop bt searchLimit minLength maxLength (searchLimit - minLength + 1)
       False searchBase searchBase 0
   }"

definition BTFindLongResRange :: "BT \<Rightarrow> nat \<Rightarrow> nat \<Rightarrow> nat \<Rightarrow> (nat \<times> nat) option option" where
  "BTFindLongResRange bt searchBase searchLimit len =
     BTFindResRange bt searchBase searchLimit len (searchLimit - searchBase)"

definition BTFindShortResRange :: "BT \<Rightarrow> nat \<Rightarrow> nat \<Rightarrow> nat \<Rightarrow> (nat \<times> nat) option option" where
  "BTFindShortResRange bt searchBase searchLimit len = BTFindResRange bt searchBase searchLimit len len"

definition reset_run :: "BT \<Rightarrow> nat \<Rightarrow> nat \<Rightarrow> bool" where
  "reset_run bt b l \<longleftrightarrow> (\<forall>j. b \<le> j \<and> j < l \<longrightarrow> \<not> BTGet bt j)"

text \<open>What a search for a range owes its caller.\<close>

definition low_range_result :: "BT \<Rightarrow> nat \<Rightarrow> nat \<Rightarrow> nat \<Rightarrow> nat \<Rightarrow> (nat \<times> nat) option \<Rightarrow> bool" where
  "low_range_result bt sb sl minL maxL r \<longleftrightarrow>
     (case r of
        None \<Rightarrow> \<forall>b. sb \<le> b \<and> b + minL \<le> sl \<longrightarrow> \<not> reset_run bt b (b + minL)
      | Some (b, l) \<Rightarrow>
          sb \<le> b \<and> l \<le> sl \<and> b + minL \<le> l \<and> l \<le> b + maxL \<and> reset_run bt b l \<and>
          (l = b + maxL \<or> l = sl \<or> BTGet bt l) \<and>
          (\<forall>b'. sb \<le> b' \<and> b' < b \<longrightarrow> \<not> reset_run bt b' (b' + minL)))"

lemma reset_runI_lowest:
  "lowest (BTGet bt) b l = None \<Longrightarrow> reset_run bt b l"
  by (simp add: reset_run_def lowest_eq_None)

lemma reset_run_append: "reset_run bt a b \<Longrightarrow> reset_run bt b c \<Longrightarrow> reset_run bt a c"
  unfolding reset_run_def using not_le by blast

lemma BTFindResRange_extend_correct:
  assumes "reset_run bt resBase (resBase + minL)" and "resBase + minL \<le> sl" and "minL \<le> maxL"
  shows "\<exists>l. BTFindResRange_extend bt sl minL maxL resBase (resBase + minL) = Some (Some (resBase, l)) \<and>
    resBase + minL \<le> l \<and> l \<le> resBase + maxL \<and> l \<le> sl \<and> reset_run bt resBase l \<and>
    (l = resBase + maxL \<or> l = sl \<or> BTGet bt l)"
proof -
  define setLimit where "setLimit = (if resBase + maxL > sl then sl else resBase + maxL)"
  have lim: "resBase + minL \<le> setLimit" "setLimit \<le> sl" "setLimit \<le> resBase + maxL"
    "setLimit = sl \<or> setLimit = resBase + maxL"
    using assms(2,3) by (auto simp: setLimit_def)
  define f where "f = lowest (BTGet bt) (resBase + minL) setLimit"
  have f: "(if setLimit > resBase + minL then BTFindSet bt (resBase + minL) setLimit else Some None) = Some f"
    by (auto simp: find_eqs f_def lowest_def)
  have ext: "BTFindResRange_extend bt sl minL maxL resBase (resBase + minL) =
      (let i = (case f of Some i \<Rightarrow> i | None \<Rightarrow> setLimit)
       in do { aver (i - resBase \<ge> minL); aver (i - resBase \<le> maxL); Some (Some (resBase, i)) })"
    unfolding BTFindResRange_extend_def Let_def setLimit_def [symmetric] f by simp
  show ?thesis
  proof (cases f)
    case None
    then have "reset_run bt (resBase + minL) setLimit" by (simp add: f_def reset_runI_lowest)
    then have "reset_run bt resBase setLimit" using assms(1) reset_run_append by blast
    moreover have "minL \<le> setLimit - resBase" "setLimit - resBase \<le> maxL" using lim by linarith+
    ultimately show ?thesis using None lim
      by (intro exI [of _ setLimit])
        (auto simp: ext)
  next
    case (Some i)
    then have i: "resBase + minL \<le> i" "i < setLimit" "BTGet bt i" "reset_run bt (resBase + minL) i"
      by (auto simp: f_def lowest_eq_Some reset_run_def)
    then have "reset_run bt resBase i" using assms(1) reset_run_append by blast
    moreover have "minL \<le> i - resBase" "i - resBase \<le> maxL" using i lim by linarith+
    ultimately show ?thesis using Some lim i
      by (intro exI [of _ i])
        (auto simp: ext)
  qed
qed

text \<open>The loop invariant, and the candidates an iteration may skip.\<close>

definition low_inv :: "BT \<Rightarrow> nat \<Rightarrow> nat \<Rightarrow> bool \<Rightarrow> nat \<Rightarrow> nat \<Rightarrow> nat \<Rightarrow> bool" where
  "low_inv bt sb minL foundRes resBase unseenBase minLimit \<longleftrightarrow>
     sb \<le> resBase \<and>
     (\<forall>b. sb \<le> b \<and> b < resBase \<longrightarrow> \<not> reset_run bt b (b + minL)) \<and>
     (if foundRes
      then minLimit = resBase + minL \<and> resBase < unseenBase \<and> unseenBase \<le> minLimit \<and>
        reset_run bt resBase unseenBase
      else unseenBase = resBase)"

lemma low_skip:
  assumes "BTGet bt i" and "resBase \<le> i" and "i < resBase + minL"
    and "\<forall>b. sb \<le> b \<and> b < resBase \<longrightarrow> \<not> reset_run bt b (b + minL)"
  shows "\<forall>b. sb \<le> b \<and> b < i + 1 \<longrightarrow> \<not> reset_run bt b (b + minL)"
proof (intro allI impI)
  fix b assume b: "sb \<le> b \<and> b < i + 1"
  show "\<not> reset_run bt b (b + minL)"
  proof (cases "b < resBase")
    case False
    with b assms(3) have "b \<le> i" "i < b + minL" by auto
    with assms(1) show ?thesis by (auto simp: reset_run_def)
  qed (use b assms(4) in blast)
qed

lemma BTFindResRange_loop_correct:
  assumes "0 < minL" and "minL \<le> maxL" and "minL \<le> sl"
    and "low_inv bt sb minL foundRes resBase unseenBase minLimit"
  shows "\<exists>r. BTFindResRange_loop bt sl minL maxL (sl - minL + 1) foundRes resBase unseenBase minLimit = Some r \<and>
    low_range_result bt sb sl minL maxL r"
  using assms(4)
proof (induction "sl - minL + 1 - resBase" arbitrary: foundRes resBase unseenBase minLimit rule: less_induct)
  case less
  note unfold = BTFindResRange_loop.simps [of bt sl minL maxL "sl - minL + 1" foundRes resBase unseenBase minLimit]
  show ?case
  proof (cases "resBase < sl - minL + 1")
    case False
    then have "low_range_result bt sb sl minL maxL None"
      using less.prems by (auto simp: low_range_result_def low_inv_def)
    with False show ?thesis unfolding unfold by simp
  next
    case True
    define cand where "cand =
      (if foundRes then Some (resBase, unseenBase, minLimit)
       else case lowest (\<lambda>i. \<not> BTGet bt i) unseenBase (sl - minL + 1) of None \<Rightarrow> None
            | Some resBase \<Rightarrow> Some (resBase, resBase + 1, resBase + minL))"
    have cand_eq: "(if foundRes then Some (Some (resBase, unseenBase, minLimit))
        else do { r \<leftarrow> BTFindRes bt unseenBase (sl - minL + 1);
          Some (case r of None \<Rightarrow> None | Some resBase \<Rightarrow> Some (resBase, resBase + 1, resBase + minL)) }) = Some cand"
      by (simp add: cand_def find_eqs)
    show ?thesis
    proof (cases cand)
      case None
      then have nf: "\<not> foundRes" "lowest (\<lambda>i. \<not> BTGet bt i) resBase (sl - minL + 1) = None"
        using less.prems by (auto simp: cand_def low_inv_def split: if_splits option.splits)
      have "\<not> reset_run bt b (b + minL)" if "sb \<le> b" "b + minL \<le> sl" for b
      proof (cases "b < resBase")
        case False
        then have "BTGet bt b" using nf(2) that assms(1) by (auto simp: lowest_eq_None)
        then show ?thesis using assms(1) by (auto simp: reset_run_def)
      qed (use that less.prems in \<open>auto simp: low_inv_def\<close>)
      then have "low_range_result bt sb sl minL maxL None" by (simp add: low_range_result_def)
      with True None show ?thesis unfolding unfold cand_eq by simp
    next
      case (Some c)
      obtain rb ub ml where c: "c = (rb, ub, ml)" by (cases c)
      have inv: "low_inv bt sb minL True rb ub ml" and rb: "resBase \<le> rb" "rb < sl - minL + 1"
      proof -
        have "low_inv bt sb minL True rb ub ml \<and> resBase \<le> rb \<and> rb < sl - minL + 1"
        proof (cases foundRes)
          case True
          with Some c less.prems \<open>resBase < sl - minL + 1\<close> show ?thesis by (simp add: cand_def)
        next
          case False
          then have l: "lowest (\<lambda>i. \<not> BTGet bt i) resBase (sl - minL + 1) = Some rb" "ub = rb + 1" "ml = rb + minL"
            using Some c less.prems by (auto simp: cand_def low_inv_def split: option.splits)
          then have rb: "resBase \<le> rb" "rb < sl - minL + 1" "\<not> BTGet bt rb"
            "\<And>j. resBase \<le> j \<Longrightarrow> j < rb \<Longrightarrow> BTGet bt j"
            by (auto simp: lowest_eq_Some)
          have "\<not> reset_run bt b (b + minL)" if "sb \<le> b" "b < rb" for b
          proof (cases "b < resBase")
            case False
            then have "BTGet bt b" using rb(4) that by simp
            then show ?thesis using assms(1) by (auto simp: reset_run_def)
          qed (use that less.prems in \<open>auto simp: low_inv_def\<close>)
          then show ?thesis
            using rb l(2,3) assms(1) less.prems
            by (auto simp: low_inv_def reset_run_def less_Suc_eq_le)
        qed
        then show "low_inv bt sb minL True rb ub ml" "resBase \<le> rb" "rb < sl - minL + 1" by blast+
      qed
      then have ml: "ml = rb + minL" "rb < ub" "ub \<le> ml" "reset_run bt rb ub" "sb \<le> rb"
        "\<forall>b. sb \<le> b \<and> b < rb \<longrightarrow> \<not> reset_run bt b (b + minL)"
        by (auto simp: low_inv_def)
      show ?thesis
      proof (cases "highest (BTGet bt) ub ml")
        case None
        then have "reset_run bt ub ml" by (simp add: highest_eq_None reset_run_def)
        with ml have run: "reset_run bt rb (rb + minL)" using reset_run_append by blast
        have "rb + minL \<le> sl" using rb(2) assms(3) by simp
        from BTFindResRange_extend_correct [OF run this assms(2)] ml(5,6) True None Some c show ?thesis
          unfolding unfold cand_eq by (auto simp: find_eqs ml(1) low_range_result_def)
      next
        case (Some i)
        then have i: "ub \<le> i" "i < ml" "BTGet bt i" "reset_run bt (i + 1) ml"
          by (auto simp: highest_eq_Some reset_run_def)
        have skip: "\<forall>b. sb \<le> b \<and> b < i + 1 \<longrightarrow> \<not> reset_run bt b (b + minL)"
          using i ml by (intro low_skip [of bt i rb]) auto
        have "low_inv bt sb minL (i + 1 \<noteq> ml) (i + 1) ml (if i + 1 \<noteq> ml then i + 1 + minL else ml)"
          using skip i ml by (auto simp: low_inv_def)
        moreover have "sl - minL + 1 - (i + 1) < sl - minL + 1 - resBase" using i(1) ml(2) rb True by simp
        ultimately have "\<exists>r. BTFindResRange_loop bt sl minL maxL (sl - minL + 1) (i + 1 \<noteq> ml) (i + 1) ml
            (if i + 1 \<noteq> ml then i + 1 + minL else ml) = Some r \<and> low_range_result bt sb sl minL maxL r"
          by (intro less.hyps)
        with True Some \<open>cand = Some c\<close> c show ?thesis
          unfolding unfold cand_eq by (simp add: find_eqs split: if_splits)
      qed
    qed
  qed
qed

subsection \<open>Ranges of reset bits, from the high end\<close>

text \<open>
  The mirror image. When \<^verbatim>\<open>resLimit\<close> falls below \<^verbatim>\<open>minLength\<close> the new \<^verbatim>\<open>minBase\<close> of the source
  wraps, but the loop ends before it is used.
\<close>

definition BTFindResRangeHigh_extend ::
  "BT \<Rightarrow> nat \<Rightarrow> nat \<Rightarrow> nat \<Rightarrow> nat \<Rightarrow> nat \<Rightarrow> (nat \<times> nat) option option" where
  "BTFindResRangeHigh_extend bt searchBase minLength maxLength resLimit minBase =
     (let setLimit = minBase;
          setBase = (if searchBase + maxLength > resLimit then searchBase else resLimit - maxLength)
      in do {
        foundSet \<leftarrow> (if setLimit > setBase then BTFindSetHigh bt setBase setLimit else Some None);
        let baseIndex = (case foundSet of Some i \<Rightarrow> i + 1 | None \<Rightarrow> setBase);
        aver (resLimit - baseIndex \<ge> minLength);
        aver (resLimit - baseIndex \<le> maxLength);
        Some (Some (baseIndex, resLimit))
      })"

partial_function (option) BTFindResRangeHigh_loop ::
  "BT \<Rightarrow> nat \<Rightarrow> nat \<Rightarrow> nat \<Rightarrow> nat \<Rightarrow> bool \<Rightarrow> nat \<Rightarrow> nat \<Rightarrow> nat \<Rightarrow> (nat \<times> nat) option option" where
  "BTFindResRangeHigh_loop bt searchBase minLength maxLength resBase foundRes resLimit unseenLimit minBase =
     (if resLimit > resBase then do {
        cand \<leftarrow> (if foundRes then Some (Some (resLimit, unseenLimit, minBase))
                 else do {
                   r \<leftarrow> BTFindResHigh bt resBase unseenLimit;
                   Some (case r of None \<Rightarrow> None
                         | Some resIndex \<Rightarrow> Some (resIndex + 1, resIndex, resIndex + 1 - minLength))
                 });
        (case cand of
           None \<Rightarrow> Some None
         | Some (resLimit, unseenLimit, minBase) \<Rightarrow> do {
             foundSet \<leftarrow> BTFindSet bt minBase unseenLimit;
             (case foundSet of
                None \<Rightarrow> BTFindResRangeHigh_extend bt searchBase minLength maxLength resLimit minBase
              | Some setIndex \<Rightarrow>
                  (if setIndex \<noteq> minBase
                   then BTFindResRangeHigh_loop bt searchBase minLength maxLength resBase
                          True setIndex minBase (setIndex - minLength)
                   else BTFindResRangeHigh_loop bt searchBase minLength maxLength resBase
                          False setIndex minBase minBase))
           })
      } else Some None)"

definition BTFindResRangeHigh ::
  "BT \<Rightarrow> nat \<Rightarrow> nat \<Rightarrow> nat \<Rightarrow> nat \<Rightarrow> (nat \<times> nat) option option" where
  "BTFindResRangeHigh bt searchBase searchLimit minLength maxLength = do {
     aver (searchBase < searchLimit);
     aver (minLength > 0);
     aver (minLength \<le> maxLength);
     aver (maxLength \<le> searchLimit - searchBase);
     BTFindResRangeHigh_loop bt searchBase minLength maxLength (searchBase + minLength - 1)
       False searchLimit searchLimit 0
   }"

definition BTFindLongResRangeHigh :: "BT \<Rightarrow> nat \<Rightarrow> nat \<Rightarrow> nat \<Rightarrow> (nat \<times> nat) option option" where
  "BTFindLongResRangeHigh bt searchBase searchLimit len =
     BTFindResRangeHigh bt searchBase searchLimit len (searchLimit - searchBase)"

definition BTFindShortResRangeHigh :: "BT \<Rightarrow> nat \<Rightarrow> nat \<Rightarrow> nat \<Rightarrow> (nat \<times> nat) option option" where
  "BTFindShortResRangeHigh bt searchBase searchLimit len =
     BTFindResRangeHigh bt searchBase searchLimit len len"

definition high_range_result :: "BT \<Rightarrow> nat \<Rightarrow> nat \<Rightarrow> nat \<Rightarrow> nat \<Rightarrow> (nat \<times> nat) option \<Rightarrow> bool" where
  "high_range_result bt sb sl minL maxL r \<longleftrightarrow>
     (case r of
        None \<Rightarrow> \<forall>b. sb \<le> b \<and> b + minL \<le> sl \<longrightarrow> \<not> reset_run bt b (b + minL)
      | Some (b, l) \<Rightarrow>
          sb \<le> b \<and> l \<le> sl \<and> b + minL \<le> l \<and> l \<le> b + maxL \<and> reset_run bt b l \<and>
          (l = b + maxL \<or> b = sb \<or> BTGet bt (b - 1)) \<and>
          (\<forall>b'. sb \<le> b' \<and> l < b' + minL \<and> b' + minL \<le> sl \<longrightarrow> \<not> reset_run bt b' (b' + minL)))"

lemma BTFindResRangeHigh_extend_correct:
  assumes "reset_run bt minBase resLimit" and "resLimit = minBase + minL" and "sb \<le> minBase" and "minL \<le> maxL"
  shows "\<exists>b. BTFindResRangeHigh_extend bt sb minL maxL resLimit minBase = Some (Some (b, resLimit)) \<and>
    sb \<le> b \<and> b + minL \<le> resLimit \<and> resLimit \<le> b + maxL \<and> reset_run bt b resLimit \<and>
    (resLimit = b + maxL \<or> b = sb \<or> BTGet bt (b - 1))"
proof -
  define setBase where "setBase = (if sb + maxL > resLimit then sb else resLimit - maxL)"
  have lim: "setBase \<le> minBase" "sb \<le> setBase" "resLimit \<le> setBase + maxL"
    "setBase = sb \<or> resLimit = setBase + maxL"
    using assms(2,3,4) by (auto simp: setBase_def)
  define f where "f = highest (BTGet bt) setBase minBase"
  have f: "(if minBase > setBase then BTFindSetHigh bt setBase minBase else Some None) = Some f"
    by (auto simp: find_eqs f_def highest_def)
  have ext: "BTFindResRangeHigh_extend bt sb minL maxL resLimit minBase =
      (let i = (case f of Some i \<Rightarrow> i + 1 | None \<Rightarrow> setBase)
       in do { aver (resLimit - i \<ge> minL); aver (resLimit - i \<le> maxL); Some (Some (i, resLimit)) })"
    unfolding BTFindResRangeHigh_extend_def Let_def setBase_def [symmetric] f by simp
  show ?thesis
  proof (cases f)
    case None
    then have "reset_run bt setBase minBase" by (simp add: f_def highest_eq_None reset_run_def)
    then have "reset_run bt setBase resLimit" using assms(1) reset_run_append by blast
    moreover have "minL \<le> resLimit - setBase" "resLimit - setBase \<le> maxL" using lim assms(2) by linarith+
    moreover from this have "BTFindResRangeHigh_extend bt sb minL maxL resLimit minBase = Some (Some (setBase, resLimit))"
      using None by (simp add: ext)
    ultimately show ?thesis using lim assms(2) by (intro exI [of _ setBase]) linarith
  next
    case (Some i)
    then have i: "setBase \<le> i" "i < minBase" "BTGet bt i" "reset_run bt (i + 1) minBase"
      by (auto simp: f_def highest_eq_Some reset_run_def)
    then have "reset_run bt (i + 1) resLimit" using assms(1) reset_run_append by blast
    moreover have "minL \<le> resLimit - (i + 1)" "resLimit - (i + 1) \<le> maxL" using i lim assms(2) by linarith+
    moreover from this have "BTFindResRangeHigh_extend bt sb minL maxL resLimit minBase = Some (Some (i + 1, resLimit))"
      using Some by (simp add: ext)
    ultimately show ?thesis using lim i assms(2) by (intro exI [of _ "i + 1"]) auto
  qed
qed

definition high_inv :: "BT \<Rightarrow> nat \<Rightarrow> nat \<Rightarrow> nat \<Rightarrow> bool \<Rightarrow> nat \<Rightarrow> nat \<Rightarrow> nat \<Rightarrow> bool" where
  "high_inv bt sb sl minL foundRes resLimit unseenLimit minBase \<longleftrightarrow>
     resLimit \<le> sl \<and>
     (\<forall>b. sb \<le> b \<and> resLimit < b + minL \<and> b + minL \<le> sl \<longrightarrow> \<not> reset_run bt b (b + minL)) \<and>
     (if foundRes
      then minBase = resLimit - minL \<and> unseenLimit < resLimit \<and> minBase \<le> unseenLimit \<and>
        reset_run bt unseenLimit resLimit
      else unseenLimit = resLimit)"

lemma high_skip:
  assumes "BTGet bt i" and "i < resLimit" and "resLimit \<le> i + minL"
    and "\<forall>b. sb \<le> b \<and> resLimit < b + minL \<and> b + minL \<le> sl \<longrightarrow> \<not> reset_run bt b (b + minL)"
  shows "\<forall>b. sb \<le> b \<and> i < b + minL \<and> b + minL \<le> sl \<longrightarrow> \<not> reset_run bt b (b + minL)"
proof (intro allI impI)
  fix b assume b: "sb \<le> b \<and> i < b + minL \<and> b + minL \<le> sl"
  show "\<not> reset_run bt b (b + minL)"
  proof (cases "resLimit < b + minL")
    case False
    with b assms(3) have "b \<le> i" "i < b + minL" by auto
    with assms(1) show ?thesis by (auto simp: reset_run_def)
  qed (use b assms(4) in blast)
qed

lemma BTFindResRangeHigh_loop_correct:
  assumes "0 < minL" and "minL \<le> maxL"
    and "high_inv bt sb sl minL foundRes resLimit unseenLimit minBase"
  shows "\<exists>r. BTFindResRangeHigh_loop bt sb minL maxL (sb + minL - 1) foundRes resLimit unseenLimit minBase = Some r \<and>
    high_range_result bt sb sl minL maxL r"
  using assms(3)
proof (induction resLimit arbitrary: foundRes unseenLimit minBase rule: less_induct)
  case (less resLimit)
  note unfold = BTFindResRangeHigh_loop.simps [of bt sb minL maxL "sb + minL - 1" foundRes resLimit unseenLimit minBase]
  show ?case
  proof (cases "resLimit > sb + minL - 1")
    case False
    then have "high_range_result bt sb sl minL maxL None"
      using less.prems assms(1) by (auto simp: high_range_result_def high_inv_def)
    with False show ?thesis unfolding unfold by simp
  next
    case True
    define cand where "cand =
      (if foundRes then Some (resLimit, unseenLimit, minBase)
       else case highest (\<lambda>i. \<not> BTGet bt i) (sb + minL - 1) unseenLimit of None \<Rightarrow> None
            | Some resIndex \<Rightarrow> Some (resIndex + 1, resIndex, resIndex + 1 - minL))"
    have cand_eq: "(if foundRes then Some (Some (resLimit, unseenLimit, minBase))
        else do { r \<leftarrow> BTFindResHigh bt (sb + minL - 1) unseenLimit;
          Some (case r of None \<Rightarrow> None
            | Some resIndex \<Rightarrow> Some (resIndex + 1, resIndex, resIndex + 1 - minL)) }) = Some cand"
      by (simp add: cand_def find_eqs)
    show ?thesis
    proof (cases cand)
      case None
      then have nf: "\<not> foundRes" "highest (\<lambda>i. \<not> BTGet bt i) (sb + minL - 1) resLimit = None"
        using less.prems by (auto simp: cand_def high_inv_def split: if_splits option.splits)
      have "\<not> reset_run bt b (b + minL)" if "sb \<le> b" "b + minL \<le> sl" for b
      proof (cases "resLimit < b + minL")
        case False
        then have "sb + minL - 1 \<le> b + minL - 1" "b + minL - 1 < resLimit" using that assms(1) by linarith+
        then have "BTGet bt (b + minL - 1)" using nf(2) unfolding highest_eq_None by blast
        then show ?thesis using assms(1) by (auto simp: reset_run_def intro!: exI [of _ "b + minL - 1"])
      qed (use that less.prems in \<open>auto simp: high_inv_def\<close>)
      then have "high_range_result bt sb sl minL maxL None" by (simp add: high_range_result_def)
      with True None show ?thesis unfolding unfold cand_eq by simp
    next
      case (Some c)
      obtain rl ul mb where c: "c = (rl, ul, mb)" by (cases c)
      have inv: "high_inv bt sb sl minL True rl ul mb" and rl: "rl \<le> resLimit" "sb + minL - 1 < rl"
      proof -
        have "high_inv bt sb sl minL True rl ul mb \<and> rl \<le> resLimit \<and> sb + minL - 1 < rl"
        proof (cases foundRes)
          case True
          with Some c less.prems \<open>resLimit > sb + minL - 1\<close> show ?thesis by (simp add: cand_def)
        next
          case False
          then have l: "highest (\<lambda>i. \<not> BTGet bt i) (sb + minL - 1) resLimit = Some ul" "rl = ul + 1" "mb = ul + 1 - minL"
            using Some c less.prems by (auto simp: cand_def high_inv_def split: option.splits)
          then have ul: "sb + minL - 1 \<le> ul" "ul < resLimit" "\<not> BTGet bt ul"
            "\<And>j. ul < j \<Longrightarrow> j < resLimit \<Longrightarrow> BTGet bt j"
            by (auto simp: highest_eq_Some)
          have "\<not> reset_run bt b (b + minL)" if "sb \<le> b" "ul + 1 < b + minL" "b + minL \<le> sl" for b
          proof (cases "resLimit < b + minL")
            case False
            then have "BTGet bt (b + minL - 1)" using ul(4) that by simp
            then show ?thesis using assms(1) by (auto simp: reset_run_def intro!: exI [of _ "b + minL - 1"])
          qed (use that less.prems in \<open>auto simp: high_inv_def\<close>)
          then show ?thesis
            using ul l(2,3) assms(1) less.prems
            by (auto simp: high_inv_def reset_run_def less_Suc_eq)
        qed
        then show "high_inv bt sb sl minL True rl ul mb" "rl \<le> resLimit" "sb + minL - 1 < rl" by blast+
      qed
      then have mb: "mb = rl - minL" "ul < rl" "mb \<le> ul" "reset_run bt ul rl" "rl \<le> sl"
        "\<forall>b. sb \<le> b \<and> rl < b + minL \<and> b + minL \<le> sl \<longrightarrow> \<not> reset_run bt b (b + minL)"
        by (auto simp: high_inv_def)
      have rl_eq: "rl = mb + minL" "sb \<le> mb" using mb(1) rl(2) assms(1) by linarith+
      show ?thesis
      proof (cases "lowest (BTGet bt) mb ul")
        case None
        then have "reset_run bt mb ul" by (simp add: lowest_eq_None reset_run_def)
        with mb have run: "reset_run bt mb rl" using reset_run_append by blast
        obtain b where b: "BTFindResRangeHigh_extend bt sb minL maxL rl mb = Some (Some (b, rl))"
          "sb \<le> b \<and> b + minL \<le> rl \<and> rl \<le> b + maxL \<and> reset_run bt b rl \<and>
            (rl = b + maxL \<or> b = sb \<or> BTGet bt (b - 1))"
          using BTFindResRangeHigh_extend_correct [OF run rl_eq assms(2)] by blast
        have "BTFindResRangeHigh_loop bt sb minL maxL (sb + minL - 1) foundRes resLimit unseenLimit minBase =
            Some (Some (b, rl))"
          unfolding unfold cand_eq using True None Some c b(1) by (simp add: find_eqs)
        moreover have "high_range_result bt sb sl minL maxL (Some (b, rl))"
          using b(2) mb(5,6) by (simp add: high_range_result_def)
        ultimately show ?thesis by blast
      next
        case (Some i)
        then have i: "mb \<le> i" "i < ul" "BTGet bt i" "reset_run bt mb i"
          by (auto simp: lowest_eq_Some reset_run_def)
        have skip: "\<forall>b. sb \<le> b \<and> i < b + minL \<and> b + minL \<le> sl \<longrightarrow> \<not> reset_run bt b (b + minL)"
        proof (rule high_skip [OF i(3)])
          show "i < rl" using i(2) mb(2) by simp
          show "rl \<le> i + minL" using i(1) rl_eq(1) by simp
        qed (rule mb(6))
        have "high_inv bt sb sl minL (i \<noteq> mb) i mb (if i \<noteq> mb then i - minL else mb)"
          unfolding high_inv_def using skip i mb(2-5) rl_eq(1) by auto
        moreover have "i < resLimit" using i(2) mb(2) rl by simp
        ultimately have "\<exists>r. BTFindResRangeHigh_loop bt sb minL maxL (sb + minL - 1) (i \<noteq> mb) i mb
            (if i \<noteq> mb then i - minL else mb) = Some r \<and> high_range_result bt sb sl minL maxL r"
          by (intro less.IH)
        with True Some \<open>cand = Some c\<close> c show ?thesis
          unfolding unfold cand_eq by (simp add: find_eqs split: if_splits)
      qed
    qed
  qed
qed



text \<open>
  C16: the search from the high end is the mirror image: the highest range with \<open>minLength\<close> reset
  bits, extended downwards, or no range exactly when there is none.
\<close>

theorem BTFindResRangeHigh_correct:
  assumes "searchBase < searchLimit" and "0 < minLength" and "minLength \<le> maxLength"
    and "maxLength \<le> searchLimit - searchBase"
  shows "\<exists>r. BTFindResRangeHigh bt searchBase searchLimit minLength maxLength = Some r \<and>
    high_range_result bt searchBase searchLimit minLength maxLength r"
proof -
  have "high_inv bt searchBase searchLimit minLength False searchLimit searchLimit 0"
    by (auto simp: high_inv_def)
  then show ?thesis
    unfolding BTFindResRangeHigh_def
    using BTFindResRangeHigh_loop_correct [OF assms(2,3)] assms by (simp del: One_nat_def)
qed

theorem BTFindResRangeHigh_correct_witness:
  "\<exists>r. BTFindResRangeHigh (\<lambda>_. 0) 3 40 2 5 = Some r \<and> high_range_result (\<lambda>_. 0) 3 40 2 5 r"
  using BTFindResRangeHigh_correct [of 3 40 2 5 "\<lambda>_. 0"] by simp

end
