(* ===== verification/Ring_Heap.thy ===== *)
theory Ring_Heap
  imports Mps_Prelude
begin

text \<open>
  Rings (\<^verbatim>\<open>ring.c\<close>, \<^verbatim>\<open>ring.h\<close>): circular doubly linked lists threaded through other structures. A
  heap gives the two links of every node; a node is its address, and 0 is the null pointer. The
  abstraction of a ring, seen from one of its nodes, is the list of the other nodes in the order
  of the \<^verbatim>\<open>next\<close> links.
\<close>

record RingStruct_heap =
  next_of :: "nat \<Rightarrow> nat"
  prev_of :: "nat \<Rightarrow> nat"

definition RingNONE :: nat where "RingNONE = 0"

definition set_next :: "nat \<Rightarrow> nat \<Rightarrow> RingStruct_heap \<Rightarrow> RingStruct_heap" where
  "set_next n v h = h\<lparr>next_of := (next_of h)(n := v)\<rparr>"

definition set_prev :: "nat \<Rightarrow> nat \<Rightarrow> RingStruct_heap \<Rightarrow> RingStruct_heap" where
  "set_prev n v h = h\<lparr>prev_of := (prev_of h)(n := v)\<rparr>"

definition RingNext :: "RingStruct_heap \<Rightarrow> nat \<Rightarrow> nat" where
  "RingNext h ring = next_of h ring"

definition RingPrev :: "RingStruct_heap \<Rightarrow> nat \<Rightarrow> nat" where
  "RingPrev h ring = prev_of h ring"

definition RingCheck :: "RingStruct_heap \<Rightarrow> nat \<Rightarrow> bool" where
  "RingCheck h ring \<longleftrightarrow>
     ring \<noteq> 0 \<and> next_of h ring \<noteq> 0 \<and> prev_of h (next_of h ring) = ring \<and>
     prev_of h ring \<noteq> 0 \<and> next_of h (prev_of h ring) = ring"

definition RingCheckSingle :: "RingStruct_heap \<Rightarrow> nat \<Rightarrow> bool" where
  "RingCheckSingle h ring \<longleftrightarrow> RingCheck h ring \<and> next_of h ring = ring \<and> prev_of h ring = ring"

definition RingIsSingle :: "RingStruct_heap \<Rightarrow> nat \<Rightarrow> bool option" where
  "RingIsSingle h ring = do { aver (RingCheck h ring); Some (next_of h ring = ring) }"

definition RingInit :: "RingStruct_heap \<Rightarrow> nat \<Rightarrow> RingStruct_heap option" where
  "RingInit h ring = do {
     aver (ring \<noteq> 0);
     let h = set_next ring ring h;
     let h = set_prev ring ring h;
     aver (RingCheck h ring);
     Some h
   }"

definition RingFinish :: "RingStruct_heap \<Rightarrow> nat \<Rightarrow> RingStruct_heap option" where
  "RingFinish h ring = do {
     aver (RingCheckSingle h ring);
     let h = set_next ring RingNONE h;
     let h = set_prev ring RingNONE h;
     Some h
   }"

definition RingAppend :: "RingStruct_heap \<Rightarrow> nat \<Rightarrow> nat \<Rightarrow> RingStruct_heap option" where
  "RingAppend h ring new = do {
     aver (RingCheck h ring);
     aver (RingCheckSingle h new);
     let h = set_prev new (prev_of h ring) h;
     let h = set_next new ring h;
     let h = set_next (prev_of h ring) new h;
     let h = set_prev ring new h;
     Some h
   }"

definition RingInsert :: "RingStruct_heap \<Rightarrow> nat \<Rightarrow> nat \<Rightarrow> RingStruct_heap option" where
  "RingInsert h ring new = do {
     aver (RingCheck h ring);
     aver (RingCheckSingle h new);
     let h = set_prev new ring h;
     let h = set_next new (next_of h ring) h;
     let h = set_prev (next_of h ring) new h;
     let h = set_next ring new h;
     Some h
   }"

definition RingRemove :: "RingStruct_heap \<Rightarrow> nat \<Rightarrow> RingStruct_heap option" where
  "RingRemove h old = do {
     aver (RingCheck h old);
     single \<leftarrow> RingIsSingle h old;
     aver (\<not> single);
     let h = set_prev (next_of h old) (prev_of h old) h;
     let h = set_next (prev_of h old) (next_of h old) h;
     let h = set_next old old h;
     let h = set_prev old old h;
     Some h
   }"

text \<open>
  \<^verbatim>\<open>RING_FOR\<close> over a state that holds the heap: the successor of a node is read before the body
  runs on the node.
\<close>

partial_function (option) RING_FOR_loop ::
  "(nat \<Rightarrow> RingStruct_heap \<times> 'a \<Rightarrow> (RingStruct_heap \<times> 'a) option) \<Rightarrow> nat \<Rightarrow> nat \<Rightarrow> nat \<Rightarrow>
    RingStruct_heap \<times> 'a \<Rightarrow> (RingStruct_heap \<times> 'a) option" where
  "RING_FOR_loop body ring node nxt s =
     (if node \<noteq> ring
      then do { s \<leftarrow> body node s; RING_FOR_loop body ring nxt (RingNext (fst s) nxt) s }
      else Some s)"

definition RING_FOR ::
  "(nat \<Rightarrow> RingStruct_heap \<times> 'a \<Rightarrow> (RingStruct_heap \<times> 'a) option) \<Rightarrow> nat \<Rightarrow>
    RingStruct_heap \<times> 'a \<Rightarrow> (RingStruct_heap \<times> 'a) option" where
  "RING_FOR body ring s =
     (let node = RingNext (fst s) ring; nxt = RingNext (fst s) node
      in RING_FOR_loop body ring node nxt s)"

subsection \<open>Abstraction\<close>

fun links :: "RingStruct_heap \<Rightarrow> nat \<Rightarrow> nat list \<Rightarrow> nat \<Rightarrow> bool" where
  "links h a [] b \<longleftrightarrow> next_of h a = b \<and> prev_of h b = a"
| "links h a (y # ys) b \<longleftrightarrow> next_of h a = y \<and> prev_of h y = a \<and> links h y ys b"

definition is_ring :: "RingStruct_heap \<Rightarrow> nat \<Rightarrow> nat list \<Rightarrow> bool" where
  "is_ring h r xs \<longleftrightarrow> distinct (r # xs) \<and> 0 \<notin> set (r # xs) \<and> links h r xs r"

lemma set_link_simps [simp]:
  "next_of (set_next n v h) = (next_of h)(n := v)" "prev_of (set_next n v h) = prev_of h"
  "prev_of (set_prev n v h) = (prev_of h)(n := v)" "next_of (set_prev n v h) = next_of h"
  by (simp_all add: set_next_def set_prev_def)

lemma links_append: "links h a (xs @ y # ys) b \<longleftrightarrow> links h a xs y \<and> links h y ys b"
  by (induction xs arbitrary: a) auto

lemma links_frame:
  assumes "\<And>n. n \<in> set (a # xs) \<Longrightarrow> next_of h' n = next_of h n"
    and "\<And>n. n \<in> set (xs @ [b]) \<Longrightarrow> prev_of h' n = prev_of h n"
  shows "links h' a xs b \<longleftrightarrow> links h a xs b"
  using assms by (induction xs arbitrary: a) auto

lemma links_last: "links h a xs b \<Longrightarrow> prev_of h b = last (a # xs) \<and> next_of h (last (a # xs)) = b"
  by (induction xs arbitrary: a) auto

lemma links_first: "links h a xs b \<Longrightarrow> next_of h a = hd (xs @ [b]) \<and> prev_of h (hd (xs @ [b])) = a"
  by (cases xs) auto

lemma is_ring_single: "is_ring h r [] \<longleftrightarrow> RingCheckSingle h r"
  by (auto simp: is_ring_def RingCheckSingle_def RingCheck_def)

lemma is_ring_check: "is_ring h r xs \<Longrightarrow> RingCheck h r"
proof -
  assume r: "is_ring h r xs"
  then have l: "links h r xs r" "r \<noteq> 0" by (auto simp: is_ring_def)
  have "last (r # xs) \<in> set (r # xs)" by (rule last_in_set) simp
  moreover have "hd (xs @ [r]) \<in> set (r # xs)" by (cases xs) auto
  moreover have "\<forall>n \<in> set (r # xs). n \<noteq> 0" using r unfolding is_ring_def by metis
  ultimately have "last (r # xs) \<noteq> 0" "hd (xs @ [r]) \<noteq> 0" by blast+
  then show ?thesis
    using links_last [OF l(1)] links_first [OF l(1)] l(2) unfolding RingCheck_def by metis
qed

text \<open>A ring may be seen from any of its nodes.\<close>

lemma is_ring_rotate: "is_ring h r (xs @ y # ys) \<longleftrightarrow> is_ring h y (ys @ r # xs)"
  unfolding is_ring_def links_append by auto

lemma is_ring_singleD: "is_ring h r xs \<Longrightarrow> next_of h r = r \<longleftrightarrow> xs = []"
  by (cases xs) (auto simp: is_ring_def)

lemma is_ring_frame:
  assumes "is_ring h r xs"
    and "\<And>n. n \<in> set (r # xs) \<Longrightarrow> next_of h' n = next_of h n \<and> prev_of h' n = prev_of h n"
  shows "is_ring h' r xs"
  using assms links_frame [of r xs h' h r] by (auto simp: is_ring_def)

subsection \<open>The operations on the abstraction\<close>

lemma RingInit_ring:
  "r \<noteq> 0 \<Longrightarrow> \<exists>h'. RingInit h r = Some h' \<and> is_ring h' r [] \<and>
    (\<forall>n. n \<noteq> r \<longrightarrow> next_of h' n = next_of h n \<and> prev_of h' n = prev_of h n)"
  by (simp add: RingInit_def RingCheck_def is_ring_def)

lemma RingAppend_ring:
  assumes r: "is_ring h r xs" and n: "is_ring h n []" and new: "n \<notin> set (r # xs)"
  shows "\<exists>h'. RingAppend h r n = Some h' \<and> is_ring h' r (xs @ [n]) \<and>
    (\<forall>m. m \<notin> set (r # n # xs) \<longrightarrow> next_of h' m = next_of h m \<and> prev_of h' m = prev_of h m)"
proof -
  have l: "links h r xs r" "distinct (r # xs)" "0 \<notin> set (r # xs)" using r by (auto simp: is_ring_def)
  define p where "p = last (r # xs)"
  have p: "prev_of h r = p" "p \<in> set (r # xs)"
    using links_last [OF l(1)] unfolding p_def by (simp, intro last_in_set) simp
  have n0: "n \<noteq> 0" using n by (simp add: is_ring_def)
  define h' where "h' = set_prev r n (set_next p n (set_next n r (set_prev n p h)))"
  have np: "n \<noteq> p" "n \<noteq> r" using new p(2) by auto
  have "RingAppend h r n = Some h'"
    unfolding RingAppend_def using is_ring_check [OF r] n np
    by (simp add: is_ring_single [symmetric] p(1) h'_def Let_def)
  moreover have "links h' r (xs @ [n]) r"
  proof (cases xs rule: rev_cases)
    case Nil
    then show ?thesis using np by (simp add: h'_def p_def)
  next
    case (snoc ys z)
    then have z: "z = p" by (simp add: p_def)
    have "links h r ys z" using l(1) unfolding snoc links_append by simp
    moreover have "set (r # ys) \<inter> {p, n} = {}" "set (ys @ [z]) \<inter> {r, n} = {}"
      using l(2) new by (auto simp: snoc z)
    ultimately have "links h' r ys z"
      by (subst links_frame [of r ys h' h z]) (auto simp: h'_def)
    then show ?thesis
      using np l(2) unfolding snoc by (auto simp: links_append h'_def z)
  qed
  moreover have "next_of h' m = next_of h m \<and> prev_of h' m = prev_of h m" if "m \<notin> set (r # n # xs)" for m
    using that p(2) by (auto simp: h'_def)
  ultimately show ?thesis using l new n0 by (intro exI [of _ h']) (auto simp: is_ring_def)
qed

lemma RingInsert_ring:
  assumes r: "is_ring h r xs" and n: "is_ring h n []" and new: "n \<notin> set (r # xs)"
  shows "\<exists>h'. RingInsert h r n = Some h' \<and> is_ring h' r (n # xs) \<and>
    (\<forall>m. m \<notin> set (r # n # xs) \<longrightarrow> next_of h' m = next_of h m \<and> prev_of h' m = prev_of h m)"
proof -
  have l: "links h r xs r" "distinct (r # xs)" "0 \<notin> set (r # xs)" using r by (auto simp: is_ring_def)
  define f where "f = hd (xs @ [r])"
  have f: "next_of h r = f" "f \<in> set (r # xs)"
    using links_first [OF l(1)] unfolding f_def by (simp, cases xs) auto
  have n0: "n \<noteq> 0" using n by (simp add: is_ring_def)
  define h' where "h' = set_next r n (set_prev f n (set_next n f (set_prev n r h)))"
  have np: "n \<noteq> f" "n \<noteq> r" using new f(2) by auto
  have "RingInsert h r n = Some h'"
    unfolding RingInsert_def using is_ring_check [OF r] n np
    by (simp add: is_ring_single [symmetric] f(1) h'_def Let_def)
  moreover have "links h' r (n # xs) r"
  proof (cases xs)
    case Nil
    then show ?thesis using np by (simp add: h'_def f_def)
  next
    case (Cons z ys)
    then have z: "z = f" by (simp add: f_def)
    have "links h z ys r" using l(1) unfolding Cons by simp
    moreover have "set (z # ys) \<inter> {r, n} = {}" "set (ys @ [r]) \<inter> {f, n} = {}"
      using l(2) new by (auto simp: Cons z)
    ultimately have "links h' z ys r"
      by (subst links_frame [of z ys h' h r]) (auto simp: h'_def)
    then show ?thesis
      using np l(2) unfolding Cons by (auto simp: h'_def z)
  qed
  moreover have "next_of h' m = next_of h m \<and> prev_of h' m = prev_of h m" if "m \<notin> set (r # n # xs)" for m
    using that f(2) by (auto simp: h'_def)
  ultimately show ?thesis using l new n0 by (intro exI [of _ h']) (auto simp: is_ring_def)
qed

lemma RingRemove_ring:
  assumes r: "is_ring h r (xs @ old # ys)"
  shows "\<exists>h'. RingRemove h old = Some h' \<and> is_ring h' r (xs @ ys) \<and> is_ring h' old [] \<and>
    (\<forall>m. m \<notin> set (r # xs @ old # ys) \<longrightarrow> next_of h' m = next_of h m \<and> prev_of h' m = prev_of h m)"
proof -
  have l: "links h r xs old" "links h old ys r" "distinct (r # xs @ old # ys)" "0 \<notin> set (r # xs @ old # ys)"
    using r by (auto simp: is_ring_def links_append)
  have o: "is_ring h old (ys @ r # xs)" using r by (simp add: is_ring_rotate)
  define p f where "p = last (r # xs)" and "f = hd (ys @ [r])"
  have p: "prev_of h old = p" "p \<in> set (r # xs)"
    using links_last [OF l(1)] unfolding p_def by (simp, intro last_in_set) simp
  have f: "next_of h old = f" "f \<in> set (r # ys)"
    using links_first [OF l(2)] unfolding f_def by (simp, cases ys) auto
  have ne: "old \<noteq> p" "old \<noteq> f" using l(3) p(2) f(2) by auto
  define h' where "h' = set_prev old old (set_next old old (set_next p f (set_prev f p h)))"
  have "RingRemove h old = Some h'"
    unfolding RingRemove_def RingIsSingle_def using is_ring_check [OF o] ne
    by (simp add: p(1) f(1) h'_def Let_def)
  moreover have "links h' r (xs @ ys) r"
  proof -
    have seg1: "links h' r us z \<longleftrightarrow> links h r us z" if "xs = us @ [z]" for us z
      using that l(3) by (intro links_frame) (auto simp: h'_def p_def f_def hd_append split: if_splits)
    have seg2: "links h' f vs r \<longleftrightarrow> links h f vs r" if "ys = f # vs" for vs
      using that l(3) p(2) by (intro links_frame) (auto simp: h'_def)
    have pf: "next_of h' p = f" "prev_of h' f = p" using ne by (simp_all add: h'_def)
    show ?thesis
    proof (cases xs rule: rev_cases)
      case xs: Nil
      show ?thesis
      proof (cases ys)
        case Nil
        with xs pf show ?thesis by (simp add: p_def f_def)
      next
        case (Cons g vs)
        with xs pf seg2 l(2) show ?thesis by (simp add: p_def f_def)
      qed
    next
      case xs: (snoc us z)
      with l(1) have z: "links h' r us z" by (simp add: seg1 links_append)
      show ?thesis
      proof (cases ys)
        case Nil
        with xs pf z show ?thesis by (simp add: p_def f_def links_append)
      next
        case (Cons g vs)
        with xs pf seg2 l(2) z show ?thesis by (simp add: p_def f_def links_append)
      qed
    qed
  qed
  moreover have "next_of h' m = next_of h m \<and> prev_of h' m = prev_of h m" if "m \<notin> set (r # xs @ old # ys)" for m
    using that p(2) f(2) by (auto simp: h'_def)
  moreover have "is_ring h' old []" using l(4) by (simp add: is_ring_def h'_def)
  ultimately show ?thesis using l by (intro exI [of _ h']) (auto simp: is_ring_def)
qed

text \<open>
  C38: appending, inserting and removing refine the list operations on the abstraction of a ring,
  fire no assertion, leave a removed node a singleton, and change the links of no node outside
  the ring and the node concerned.
\<close>

theorem ring_operations_refine:
  assumes "is_ring h r (xs @ ys)" and "is_ring h n []" and "n \<notin> set (r # xs @ ys)"
  shows "(\<exists>h'. RingAppend h r n = Some h' \<and> is_ring h' r (xs @ ys @ [n]) \<and>
      (\<forall>m. m \<notin> set (r # n # xs @ ys) \<longrightarrow> next_of h' m = next_of h m \<and> prev_of h' m = prev_of h m)) \<and>
    (\<exists>h'. RingInsert h r n = Some h' \<and> is_ring h' r (n # xs @ ys) \<and>
      (\<forall>m. m \<notin> set (r # n # xs @ ys) \<longrightarrow> next_of h' m = next_of h m \<and> prev_of h' m = prev_of h m)) \<and>
    (\<forall>old zs. ys = old # zs \<longrightarrow>
      (\<exists>h'. RingRemove h old = Some h' \<and> is_ring h' r (xs @ zs) \<and> is_ring h' old [] \<and>
        (\<forall>m. m \<notin> set (r # xs @ ys) \<longrightarrow> next_of h' m = next_of h m \<and> prev_of h' m = prev_of h m)))"
proof (intro conjI allI impI)
  fix old zs
  assume "ys = old # zs"
  then show "\<exists>h'. RingRemove h old = Some h' \<and> is_ring h' r (xs @ zs) \<and> is_ring h' old [] \<and>
      (\<forall>m. m \<notin> set (r # xs @ ys) \<longrightarrow> next_of h' m = next_of h m \<and> prev_of h' m = prev_of h m)"
    using RingRemove_ring assms(1) by blast
qed (use RingAppend_ring [OF assms] RingInsert_ring [OF assms] in simp_all)

definition ring3 :: RingStruct_heap where
  "ring3 = \<lparr>next_of = (\<lambda>n. if n = 1 then 2 else if n = 2 then 3 else if n = 3 then 1 else n),
            prev_of = (\<lambda>n. if n = 1 then 3 else if n = 2 then 1 else if n = 3 then 2 else n)\<rparr>"

lemma ring3: "is_ring ring3 1 [2, 3]" "is_ring ring3 4 []"
  by (simp_all add: is_ring_def ring3_def)

theorem ring_operations_refine_witness:
  "(\<exists>h'. RingAppend ring3 1 4 = Some h' \<and> is_ring h' 1 [2, 3, 4]) \<and>
   (\<exists>h'. RingRemove ring3 3 = Some h' \<and> is_ring h' 1 [2])"
  using ring_operations_refine [of ring3 1 "[2]" "[3]" 4] ring3 by auto

lemma RING_FOR_loop_correct:
  assumes body: "\<And>h a ys node zs. is_ring h r (ys @ node # zs) \<Longrightarrow>
      \<exists>h'. body node (h, a) = Some (h', f node a) \<and>
        is_ring h' r (if keep node then ys @ node # zs else ys @ zs)"
    and "is_ring h r (ys @ zs)" and "node = hd (zs @ [r])" and "nxt = next_of h node"
  shows "\<exists>h'. RING_FOR_loop body r node nxt (h, a) = Some (h', fold f zs a) \<and>
    is_ring h' r (ys @ filter keep zs)"
  using assms(2-)
proof (induction zs arbitrary: ys h a node nxt)
  case Nil
  then show ?case by (simp add: RING_FOR_loop.simps)
next
  case (Cons z zs)
  then have node: "node = z" "z \<noteq> r" by (auto simp: is_ring_def)
  have "links h z zs r" using Cons.prems(1) by (simp add: is_ring_def links_append)
  then have nxt: "nxt = hd (zs @ [r])" using links_first Cons.prems(3) node(1) by blast
  obtain h' where h': "body z (h, a) = Some (h', f z a)"
    "is_ring h' r ((if keep z then ys @ [z] else ys) @ zs)"
    using body [OF Cons.prems(1), of a] by (auto split: if_splits)
  obtain h'' where "RING_FOR_loop body r nxt (next_of h' nxt) (h', f z a) = Some (h'', fold f zs (f z a))"
    "is_ring h'' r ((if keep z then ys @ [z] else ys) @ filter keep zs)"
    using Cons.IH [OF h'(2) nxt refl] by blast
  then show ?case
    using node h'(1) by (intro exI [of _ h'']) (auto simp: RING_FOR_loop.simps [of _ _ z] RingNext_def split: if_splits)
qed

text \<open>
  C39: \<open>RING_FOR\<close> visits every node of the ring once and in order and returns, also when its body
  takes the current node off the ring: the nodes the body keeps remain, in order.
\<close>

theorem RING_FOR_correct:
  assumes "\<And>h a ys node zs. is_ring h r (ys @ node # zs) \<Longrightarrow>
      \<exists>h'. body node (h, a) = Some (h', f node a) \<and>
        is_ring h' r (if keep node then ys @ node # zs else ys @ zs)"
    and "is_ring h r xs"
  shows "\<exists>h'. RING_FOR body r (h, a) = Some (h', fold f xs a) \<and> is_ring h' r (filter keep xs)"
proof -
  have "is_ring h r ([] @ xs)" using assms(2) by simp
  moreover have "next_of h r = hd (xs @ [r])"
    using assms(2) links_first by (auto simp: is_ring_def)
  ultimately show ?thesis
    unfolding RING_FOR_def Let_def RingNext_def
    using RING_FOR_loop_correct [of r body f keep h "[]" xs, OF assms(1)] by simp
qed

theorem RING_FOR_correct_witness:
  "\<exists>h'. RING_FOR (\<lambda>n (h, a). do { h' \<leftarrow> RingRemove h n; Some (h', a @ [n]) }) 1 (ring3, []) =
    Some (h', [2, 3]) \<and> is_ring h' 1 []"
proof -
  have "\<exists>h'. (\<lambda>n (h, a). do { h' \<leftarrow> RingRemove h n; Some (h', a @ [n]) }) node (h, a) = Some (h', a @ [node]) \<and>
      is_ring h' 1 (if False then ys @ node # zs else ys @ zs)"
    if "is_ring h 1 (ys @ node # zs)" for h ys node zs and a :: "nat list"
    using RingRemove_ring [OF that] by auto
  from RING_FOR_correct [of 1 _ "\<lambda>n a. a @ [n]" "\<lambda>_. False", OF this ring3(1), of "[]"] show ?thesis
    by simp
qed

end
