(* ===== verification/Block_Queue.thy ===== *)
theory Block_Queue
  imports Mps_Prelude
begin

text \<open>
  The available block queue (\<^verbatim>\<open>abq.c\<close>), a bounded queue of blocks in a circular array with one slot
  always free. The queue, its operations and its invariant; then the contract of a bounded FIFO as
  a locale, with this queue as its model. A block is a value of type \<open>'b\<close>, and the check
  \<^verbatim>\<open>CBSBlockCheck\<close> of blocks is a parameter. The meters, which only count calls, and the text
  output of \<^verbatim>\<open>ABQDescribe\<close> are left out. \<^verbatim>\<open>AVERT(ABQ, abq)\<close> is \<open>ABQCheck\<close>, whose value is \<open>None\<close> when a
  check fails.
\<close>

record 'b ABQStruct =
  elements :: nat
  in_index :: nat
  out_index :: nat
  queue :: "'b list"

definition ABQNextIndex :: "'b ABQStruct \<Rightarrow> nat \<Rightarrow> nat" where
  "ABQNextIndex abq index = (let nxt = index + 1 in if nxt = elements abq then 0 else nxt)"

partial_function (option) ABQCheck_loop ::
  "('b \<Rightarrow> bool) \<Rightarrow> 'b ABQStruct \<Rightarrow> nat \<Rightarrow> unit option" where
  "ABQCheck_loop CBSBlockCheck abq index =
     (if index \<noteq> in_index abq then do {
        b \<leftarrow> rd (queue abq) index;
        aver (CBSBlockCheck b);
        ABQCheck_loop CBSBlockCheck abq (if index + 1 = elements abq then 0 else index + 1)
      } else Some ())"

definition ABQCheck :: "('b \<Rightarrow> bool) \<Rightarrow> 'b ABQStruct \<Rightarrow> unit option" where
  "ABQCheck CBSBlockCheck abq = do {
     aver (elements abq > 0);
     aver (in_index abq < elements abq);
     aver (out_index abq < elements abq);
     ABQCheck_loop CBSBlockCheck abq (out_index abq)
   }"

text \<open>
  The allocation from the control pool is a parameter: it yields the array it allocated, of the
  size asked for, or the code of its failure.
\<close>

definition ABQInit :: "('b \<Rightarrow> bool) \<Rightarrow> (nat \<Rightarrow> Res + 'b list) \<Rightarrow> nat \<Rightarrow> (Res + 'b ABQStruct) option" where
  "ABQInit CBSBlockCheck ControlAlloc items = do {
     aver (items > 0);
     let elements = items + 1;
     (case ControlAlloc elements of
        Inl res \<Rightarrow> Some (Inl res)
      | Inr p \<Rightarrow> do {
          let abq = \<lparr>elements = elements, in_index = 0, out_index = 0, queue = p\<rparr>;
          ABQCheck CBSBlockCheck abq;
          Some (Inr abq)
        })
   }"

definition ABQIsEmpty :: "('b \<Rightarrow> bool) \<Rightarrow> 'b ABQStruct \<Rightarrow> bool option" where
  "ABQIsEmpty CBSBlockCheck abq = do {
     ABQCheck CBSBlockCheck abq;
     Some (out_index abq = in_index abq)
   }"

definition ABQIsFull :: "('b \<Rightarrow> bool) \<Rightarrow> 'b ABQStruct \<Rightarrow> bool option" where
  "ABQIsFull CBSBlockCheck abq = do {
     ABQCheck CBSBlockCheck abq;
     Some (ABQNextIndex abq (in_index abq) = out_index abq)
   }"

definition ABQDepth :: "('b \<Rightarrow> bool) \<Rightarrow> 'b ABQStruct \<Rightarrow> nat option" where
  "ABQDepth CBSBlockCheck abq = do {
     ABQCheck CBSBlockCheck abq;
     Some (if in_index abq \<ge> out_index abq then in_index abq - out_index abq
           else in_index abq + elements abq - out_index abq)
   }"

definition ABQPush :: "('b \<Rightarrow> bool) \<Rightarrow> 'b ABQStruct \<Rightarrow> 'b \<Rightarrow> (Res \<times> 'b ABQStruct) option" where
  "ABQPush CBSBlockCheck abq block = do {
     ABQCheck CBSBlockCheck abq;
     aver (CBSBlockCheck block);
     full \<leftarrow> ABQIsFull CBSBlockCheck abq;
     if full then Some (ResFAIL, abq)
     else do {
       q \<leftarrow> wr (queue abq) (in_index abq) block;
       let abq = abq\<lparr>queue := q\<rparr>;
       let abq = abq\<lparr>in_index := ABQNextIndex abq (in_index abq)\<rparr>;
       ABQCheck CBSBlockCheck abq;
       Some (ResOK, abq)
     }
   }"

text \<open>A result of \<^verbatim>\<open>ResOK\<close> comes with the block returned through the pointer, a failure with none.\<close>

definition ABQPop :: "('b \<Rightarrow> bool) \<Rightarrow> 'b ABQStruct \<Rightarrow> (Res \<times> 'b option \<times> 'b ABQStruct) option" where
  "ABQPop CBSBlockCheck abq = do {
     ABQCheck CBSBlockCheck abq;
     empty \<leftarrow> ABQIsEmpty CBSBlockCheck abq;
     if empty then Some (ResFAIL, None, abq)
     else do {
       block \<leftarrow> rd (queue abq) (out_index abq);
       aver (CBSBlockCheck block);
       let abq = abq\<lparr>out_index := ABQNextIndex abq (out_index abq)\<rparr>;
       ABQCheck CBSBlockCheck abq;
       Some (ResOK, Some block, abq)
     }
   }"

definition ABQPeek :: "('b \<Rightarrow> bool) \<Rightarrow> 'b ABQStruct \<Rightarrow> (Res \<times> 'b option) option" where
  "ABQPeek CBSBlockCheck abq = do {
     ABQCheck CBSBlockCheck abq;
     empty \<leftarrow> ABQIsEmpty CBSBlockCheck abq;
     if empty then Some (ResFAIL, None)
     else do {
       block \<leftarrow> rd (queue abq) (out_index abq);
       aver (CBSBlockCheck block);
       ABQCheck CBSBlockCheck abq;
       Some (ResOK, Some block)
     }
   }"

text \<open>The two loops of \<^verbatim>\<open>ABQDelete\<close>: the search, and the shift of what follows the block found.\<close>

partial_function (option) ABQDelete_find :: "'b ABQStruct \<Rightarrow> 'b \<Rightarrow> nat \<Rightarrow> nat option option" where
  "ABQDelete_find abq block index =
     (if index \<noteq> in_index abq then do {
        b \<leftarrow> rd (queue abq) index;
        if b = block then Some (Some index)
        else ABQDelete_find abq block (ABQNextIndex abq index)
      } else Some None)"

partial_function (option) ABQDelete_shift :: "'b ABQStruct \<Rightarrow> nat \<Rightarrow> nat \<Rightarrow> 'b ABQStruct option" where
  "ABQDelete_shift abq index nxt =
     (if nxt \<noteq> in_index abq then do {
        b \<leftarrow> rd (queue abq) nxt;
        q \<leftarrow> wr (queue abq) index b;
        ABQDelete_shift (abq\<lparr>queue := q\<rparr>) nxt (ABQNextIndex abq nxt)
      } else Some (abq\<lparr>in_index := index\<rparr>))"

definition ABQDelete :: "('b \<Rightarrow> bool) \<Rightarrow> 'b ABQStruct \<Rightarrow> 'b \<Rightarrow> (Res \<times> 'b ABQStruct) option" where
  "ABQDelete CBSBlockCheck abq block = do {
     ABQCheck CBSBlockCheck abq;
     aver (CBSBlockCheck block);
     found \<leftarrow> ABQDelete_find abq block (out_index abq);
     (case found of
        None \<Rightarrow> Some (ResFAIL, abq)
      | Some index \<Rightarrow> do {
          abq \<leftarrow> ABQDelete_shift abq index (ABQNextIndex abq index);
          ABQCheck CBSBlockCheck abq;
          Some (ResOK, abq)
        })
   }"

subsection \<open>Abstraction and invariant\<close>

definition pos :: "'b ABQStruct \<Rightarrow> nat \<Rightarrow> nat" where
  "pos q k = (out_index q + k) mod elements q"

definition depth :: "'b ABQStruct \<Rightarrow> nat" where
  "depth q = (if in_index q \<ge> out_index q then in_index q - out_index q
              else in_index q + elements q - out_index q)"

definition contents :: "'b ABQStruct \<Rightarrow> 'b list" where
  "contents q = map (\<lambda>k. queue q ! pos q k) [0 ..< depth q]"

definition shape :: "'b ABQStruct \<Rightarrow> bool" where
  "shape q \<longleftrightarrow> in_index q < elements q \<and> out_index q < elements q \<and> length (queue q) = elements q"

definition abq_inv :: "('b \<Rightarrow> bool) \<Rightarrow> 'b ABQStruct \<Rightarrow> bool" where
  "abq_inv chk q \<longleftrightarrow> shape q \<and> (\<forall>b \<in> set (contents q). chk b)"

lemma length_contents [simp]: "length (contents q) = depth q"
  by (simp add: contents_def)

lemma contents_nth: "k < depth q \<Longrightarrow> contents q ! k = queue q ! pos q k"
  by (simp add: contents_def)

lemma shape_facts:
  assumes "shape q"
  shows "depth q < elements q" and "pos q (depth q) = in_index q" and "pos q 0 = out_index q"
    and "pos q k < length (queue q)" and "ABQNextIndex q (pos q k) = pos q (Suc k)"
    and "i < elements q \<Longrightarrow> j < elements q \<Longrightarrow> pos q i = pos q j \<longleftrightarrow> i = j"
    and "k \<le> depth q \<Longrightarrow> pos q k = in_index q \<longleftrightarrow> k = depth q"
proof -
  have e: "0 < elements q" "in_index q < elements q" "out_index q < elements q" "length (queue q) = elements q"
    using assms by (auto simp: shape_def)
  show d: "depth q < elements q" using e by (auto simp: depth_def)
  show pd: "pos q (depth q) = in_index q" using e by (auto simp: depth_def pos_def)
  show "pos q 0 = out_index q" using e by (simp add: pos_def)
  show "pos q k < length (queue q)" using e by (simp add: pos_def)
  show "ABQNextIndex q (pos q k) = pos q (Suc k)"
    using mod_Suc [of "out_index q + k" "elements q"] by (simp add: ABQNextIndex_def pos_def)
  show inj: "pos q i = pos q j \<longleftrightarrow> i = j" if "i < elements q" "j < elements q" for i j
  proof -
    have "pos q k = (if out_index q + k < elements q then out_index q + k else out_index q + k - elements q)"
      if "k < elements q" for k
      using that e by (cases "out_index q + k < elements q") (simp_all add: pos_def le_mod_geq)
    with that e show ?thesis by (auto split: if_splits)
  qed
  show "pos q k = in_index q \<longleftrightarrow> k = depth q" if "k \<le> depth q" for k
    using inj [of k "depth q"] that d pd by simp
qed

lemma ABQCheck_loop_step:
  assumes "shape q" and "k < depth q"
  shows "ABQCheck_loop chk q (pos q k) =
    do { aver (chk (contents q ! k)); ABQCheck_loop chk q (pos q (Suc k)) }"
proof -
  have "(if pos q k + 1 = elements q then 0 else pos q k + 1) = pos q (Suc k)"
    using shape_facts(5) [OF assms(1), of k] by (simp only: ABQNextIndex_def Let_def)
  then show ?thesis
    using assms shape_facts(4,7) [OF assms(1), of k]
    by (subst ABQCheck_loop.simps) (simp add: contents_nth)
qed

lemma ABQCheck_loop_end: "shape q \<Longrightarrow> ABQCheck_loop chk q (pos q (depth q)) = Some ()"
  using shape_facts(2) [of q] by (simp add: ABQCheck_loop.simps)

lemma ABQCheck_loop_iff:
  assumes "shape q" and "k \<le> depth q"
  shows "ABQCheck_loop chk q (pos q k) = Some () \<longleftrightarrow> (\<forall>j. k \<le> j \<and> j < depth q \<longrightarrow> chk (contents q ! j))"
  using assms(2)
proof (induction "depth q - k" arbitrary: k)
  case 0
  then show ?case using ABQCheck_loop_end [OF assms(1)] by auto
next
  case (Suc d)
  then have k: "k < depth q" by simp
  have "(\<forall>j. k \<le> j \<and> j < depth q \<longrightarrow> P j) \<longleftrightarrow> P k \<and> (\<forall>j. Suc k \<le> j \<and> j < depth q \<longrightarrow> P j)" for P
    using k by (auto simp: Suc_le_eq order.strict_iff_order)
  then show ?case
    using Suc.hyps(1) [of "Suc k"] Suc.hyps(2) k
    by (simp add: ABQCheck_loop_step [OF assms(1) k] run_iff)
qed

text \<open>A queue of the right array size passes the check exactly when it meets the invariant.\<close>

lemma ABQCheck_iff:
  assumes "length (queue q) = elements q"
  shows "ABQCheck chk q = Some () \<longleftrightarrow> abq_inv chk q"
  using ABQCheck_loop_iff [of q 0 chk] shape_facts(3) [of q] assms
  by (auto simp: abq_inv_def ABQCheck_def shape_def all_set_conv_all_nth run_iff)

lemma ABQCheck_ok: "abq_inv chk q \<Longrightarrow> ABQCheck chk q = Some ()"
  using ABQCheck_iff by (auto simp: abq_inv_def shape_def)

subsection \<open>The operations\<close>

lemma ABQNextIndex_queue [simp]: "ABQNextIndex (q\<lparr>queue := xs\<rparr>) i = ABQNextIndex q i"
  by (simp add: ABQNextIndex_def)

lemma contents_eqI:
  assumes "depth q' = length xs" and "\<And>k. k < length xs \<Longrightarrow> queue q' ! pos q' k = xs ! k"
  shows "contents q' = xs"
  using assms by (intro nth_equalityI) (simp_all add: contents_nth)

lemma ABQIsEmpty_ok: "abq_inv chk q \<Longrightarrow> ABQIsEmpty chk q = Some (contents q = [])"
  using shape_facts(3) [of q] shape_facts(7) [of q 0]
  by (auto simp: ABQIsEmpty_def ABQCheck_ok abq_inv_def contents_def)

lemma ABQIsFull_ok:
  assumes "abq_inv chk q"
  shows "ABQIsFull chk q = Some (length (contents q) = elements q - 1)"
proof -
  have s: "shape q" using assms by (simp add: abq_inv_def)
  have "ABQNextIndex q (in_index q) = pos q (Suc (depth q))"
    using shape_facts(2,5) [OF s] by metis
  moreover have "pos q (Suc (depth q)) = out_index q \<longleftrightarrow> Suc (depth q) = elements q"
  proof (cases "Suc (depth q) = elements q")
    case True
    have "out_index q < elements q" using s by (simp add: shape_def)
    with True show ?thesis by (simp add: pos_def)
  next
    case False
    then have "Suc (depth q) < elements q" using shape_facts(1) [OF s] by simp
    moreover have "0 < elements q" using shape_facts(1) [OF s] by simp
    ultimately show ?thesis
      using False shape_facts(6) [OF s, of "Suc (depth q)" 0] shape_facts(3) [OF s] by simp
  qed
  moreover have "Suc (depth q) = elements q \<longleftrightarrow> depth q = elements q - 1"
    using shape_facts(1) [OF s] by auto
  ultimately show ?thesis using assms by (simp add: ABQIsFull_def ABQCheck_ok)
qed

lemma ABQPush_ok:
  assumes q: "abq_inv chk q" and b: "chk b" and room: "length (contents q) < elements q - 1"
  shows "\<exists>q'. ABQPush chk q b = Some (ResOK, q') \<and> abq_inv chk q' \<and>
    contents q' = contents q @ [b] \<and> elements q' = elements q"
proof -
  have s: "shape q" using q by (simp add: abq_inv_def)
  define q' where "q' = q\<lparr>queue := (queue q)[in_index q := b], in_index := ABQNextIndex q (in_index q)\<rparr>"
  have [simp]: "out_index q' = out_index q" "elements q' = elements q"
    "queue q' = (queue q)[in_index q := b]" by (simp_all add: q'_def)
  have pos: "pos q' = pos q" by (simp add: pos_def fun_eq_iff)
  have "in_index q' = pos q (Suc (depth q))"
    using shape_facts(2,5) [OF s] unfolding q'_def by simp metis
  then have in': "in_index q' = pos q' (Suc (depth q))" by (simp add: pos)
  have s': "shape q'"
    using s shape_facts(4) [OF s] in' by (simp add: shape_def pos)
  have d: "depth q' = Suc (depth q)"
  proof -
    have "pos q' (depth q') = pos q' (Suc (depth q))" using shape_facts(2) [OF s'] in' by simp
    then show ?thesis using shape_facts(6) [OF s'] shape_facts(1) [OF s'] room by simp
  qed
  have c: "contents q' = contents q @ [b]"
  proof (rule contents_eqI)
    show "depth q' = length (contents q @ [b])" by (simp add: d)
  next
    fix k assume "k < length (contents q @ [b])"
    then have k: "k < Suc (depth q)" by simp
    show "queue q' ! pos q' k = (contents q @ [b]) ! k"
    proof (cases "k = depth q")
      case True
      then show ?thesis
        using shape_facts(2) [OF s] s by (simp add: pos nth_append shape_def)
    next
      case False
      with k have k: "k < depth q" by simp
      then have "pos q k \<noteq> in_index q" using shape_facts(7) [OF s, of k] by simp
      with k show ?thesis by (simp add: pos nth_append contents_nth)
    qed
  qed
  then have inv': "abq_inv chk q'" using s' q b by (auto simp: abq_inv_def)
  have "in_index q < length (queue q)" using s by (simp add: shape_def)
  then have "ABQPush chk q b = Some (ResOK, q')"
    using q b room inv' by (simp add: ABQPush_def ABQCheck_ok ABQIsFull_ok q'_def [symmetric])
  with inv' c show ?thesis by auto
qed

lemma ABQPush_full:
  "abq_inv chk q \<Longrightarrow> chk b \<Longrightarrow> length (contents q) = elements q - 1 \<Longrightarrow> ABQPush chk q b = Some (ResFAIL, q)"
  by (simp add: ABQPush_def ABQCheck_ok ABQIsFull_ok)

lemma ABQPop_ok:
  assumes q: "abq_inv chk q" and c: "contents q = x # xs"
  shows "\<exists>q'. ABQPop chk q = Some (ResOK, Some x, q') \<and> abq_inv chk q' \<and> contents q' = xs \<and> elements q' = elements q"
proof -
  have s: "shape q" using q by (simp add: abq_inv_def)
  define q' where "q' = q\<lparr>out_index := ABQNextIndex q (out_index q)\<rparr>"
  have [simp]: "in_index q' = in_index q" "elements q' = elements q" "queue q' = queue q" by (simp_all add: q'_def)
  have len: "depth q = Suc (length xs)" using c length_contents [of q] by simp
  have out': "out_index q' = pos q 1"
    using shape_facts(3,5) [OF s] unfolding q'_def by simp metis
  have s': "shape q'" using s shape_facts(4) [OF s, of 1] out' by (simp add: shape_def)
  have pos: "pos q' k = pos q (Suc k)" for k
    unfolding pos_def out' by (simp add: mod_add_left_eq)
  have d: "depth q' = length xs"
  proof -
    have "pos q (Suc (depth q')) = pos q (depth q)"
      using shape_facts(2) [OF s'] shape_facts(2) [OF s] by (simp add: pos)
    moreover have "depth q' \<noteq> elements q - 1"
    proof
      assume "depth q' = elements q - 1"
      then have "pos q (Suc (depth q')) = pos q 0"
        using shape_facts(1) [OF s] s by (simp add: pos_def shape_def)
      with calculation have "depth q = 0" using shape_facts(6) [OF s, of "depth q" 0] shape_facts(1) [OF s] by simp
      with len show False by simp
    qed
    ultimately show ?thesis
      using shape_facts(6) [OF s, of "Suc (depth q')" "depth q"] shape_facts(1) [OF s] shape_facts(1) [OF s'] len
      by simp
  qed
  have c': "contents q' = xs"
  proof (rule contents_eqI [OF d])
    fix k assume "k < length xs"
    then have "queue q' ! pos q' k = contents q ! Suc k" using len by (simp add: pos contents_nth)
    then show "queue q' ! pos q' k = xs ! k" by (simp add: c)
  qed
  then have inv': "abq_inv chk q'" using s' q c by (auto simp: abq_inv_def)
  have "queue q ! out_index q = x"
    using contents_nth [of 0 q] len c shape_facts(3) [OF s] by simp
  moreover have "out_index q < length (queue q)" using s by (simp add: shape_def)
  moreover have "chk x" using q c by (simp add: abq_inv_def)
  ultimately have "ABQPop chk q = Some (ResOK, Some x, q')" "ABQPeek chk q = Some (ResOK, Some x)"
    using q c inv' by (simp_all add: ABQPop_def ABQPeek_def ABQCheck_ok ABQIsEmpty_ok q'_def [symmetric])
  with inv' c' show ?thesis by auto
qed

lemma ABQPeek_ok:
  assumes q: "abq_inv chk q"
  shows "ABQPeek chk q = Some (case contents q of [] \<Rightarrow> (ResFAIL, None) | x # _ \<Rightarrow> (ResOK, Some x))"
proof (cases "contents q")
  case Nil
  with q show ?thesis by (simp add: ABQPeek_def ABQCheck_ok ABQIsEmpty_ok)
next
  case (Cons x xs)
  have s: "shape q" using q by (simp add: abq_inv_def)
  have "depth q = Suc (length xs)" using Cons length_contents [of q] by simp
  then have "queue q ! out_index q = x"
    using contents_nth [of 0 q] Cons shape_facts(3) [OF s] by simp
  moreover have "out_index q < length (queue q)" using s by (simp add: shape_def)
  moreover have "chk x" using q Cons by (simp add: abq_inv_def)
  ultimately show ?thesis using q Cons by (simp add: ABQPeek_def ABQCheck_ok ABQIsEmpty_ok)
qed

lemma ABQPop_empty: "abq_inv chk q \<Longrightarrow> contents q = [] \<Longrightarrow> ABQPop chk q = Some (ResFAIL, None, q)"
  by (simp add: ABQPop_def ABQCheck_ok ABQIsEmpty_ok)

lemma ABQDelete_find_step:
  assumes "shape q" and "k < depth q"
  shows "ABQDelete_find q b (pos q k) =
    (if contents q ! k = b then Some (Some (pos q k)) else ABQDelete_find q b (pos q (Suc k)))"
  using assms shape_facts(4,5,7) [OF assms(1), of k]
  by (subst ABQDelete_find.simps) (simp add: contents_nth)

lemma ABQDelete_find_ok:
  assumes "shape q"
  shows "k \<le> depth q \<Longrightarrow> ABQDelete_find q b (pos q k) =
    Some (if b \<in> set (drop k (contents q))
          then Some (pos q (k + length (takeWhile (\<lambda>x. x \<noteq> b) (drop k (contents q))))) else None)"
proof (induction "depth q - k" arbitrary: k)
  case 0
  then show ?case using shape_facts(2) [OF assms] by (simp add: ABQDelete_find.simps)
next
  case (Suc d)
  then have k: "k < depth q" by simp
  then have drop: "drop k (contents q) = contents q ! k # drop (Suc k) (contents q)"
    by (simp add: Cons_nth_drop_Suc)
  show ?case
    using Suc.hyps(1) [of "Suc k"] Suc.hyps(2) k
    by (auto simp: ABQDelete_find_step [OF assms k] drop)
qed

lemma ABQDelete_shift_ok:
  assumes "shape q" and "k < depth q"
  shows "\<exists>q'. ABQDelete_shift q (pos q k) (pos q (Suc k)) = Some q' \<and>
    in_index q' = pos q (depth q - 1) \<and> out_index q' = out_index q \<and> elements q' = elements q \<and>
    length (queue q') = length (queue q) \<and>
    (\<forall>j < elements q. queue q' ! pos q j =
      (if k \<le> j \<and> j < depth q - 1 then queue q ! pos q (Suc j) else queue q ! pos q j))"
  using assms
proof (induction "depth q - Suc k" arbitrary: q k)
  case 0
  then have "Suc k = depth q" by simp
  then have "depth q - 1 = k" "pos q (Suc k) = in_index q"
    using shape_facts(2) [OF \<open>shape q\<close>] by simp_all
  then show ?case by (auto simp: ABQDelete_shift.simps)
next
  case (Suc d)
  then have k: "Suc k < depth q" "shape q" by simp_all
  note sf = shape_facts [OF k(2)]
  define q1 where "q1 = q\<lparr>queue := (queue q)[pos q k := queue q ! pos q (Suc k)]\<rparr>"
  have [simp]: "in_index q1 = in_index q" "out_index q1 = out_index q" "elements q1 = elements q"
    "length (queue q1) = length (queue q)" by (simp_all add: q1_def)
  have eqs: "pos q1 = pos q" "depth q1 = depth q" by (simp_all add: pos_def depth_def fun_eq_iff)
  have s1: "shape q1" using k(2) by (simp add: shape_def)
  have q1: "queue q1 ! pos q i = (if i = k then queue q ! pos q (Suc k) else queue q ! pos q i)"
    if "i < elements q" for i
    using that sf(1,4) sf(6) [of i k] k by (auto simp: q1_def nth_list_update)
  have "ABQDelete_shift q (pos q k) (pos q (Suc k)) = ABQDelete_shift q1 (pos q (Suc k)) (pos q (Suc (Suc k)))"
    using k sf(4,5) sf(7) [of "Suc k"] by (subst ABQDelete_shift.simps) (simp add: q1_def)
  moreover obtain q' where q': "ABQDelete_shift q1 (pos q (Suc k)) (pos q (Suc (Suc k))) = Some q'"
    "in_index q' = pos q (depth q - 1)" "out_index q' = out_index q" "elements q' = elements q"
    "length (queue q') = length (queue q)"
    "\<forall>j < elements q. queue q' ! pos q j =
      (if Suc k \<le> j \<and> j < depth q - 1 then queue q1 ! pos q (Suc j) else queue q1 ! pos q j)"
  proof -
    have "d = depth q1 - Suc (Suc k)" "Suc k < depth q1" using Suc.hyps(2) k(1) eqs(2) by simp_all
    from Suc.hyps(1) [OF this(1) s1 this(2)] that show ?thesis unfolding eqs by auto
  qed
  moreover have "queue q' ! pos q j =
      (if k \<le> j \<and> j < depth q - 1 then queue q ! pos q (Suc j) else queue q ! pos q j)"
    if j: "j < elements q" for j
    using q'(6) j q1 [of j] q1 [of "Suc j"] sf(1) k(1) by (auto simp: Suc_le_eq)
  ultimately show ?case by auto
qed

lemma remove1_nth:
  assumes "b \<in> set xs"
  defines "k \<equiv> length (takeWhile (\<lambda>x. x \<noteq> b) xs)"
  shows "k < length xs" and "length (remove1 b xs) = length xs - 1"
    and "j < length xs - 1 \<Longrightarrow> remove1 b xs ! j = (if k \<le> j then xs ! Suc j else xs ! j)"
proof -
  have "k < length xs \<and> length (remove1 b xs) = length xs - 1 \<and>
      (\<forall>j < length xs - 1. remove1 b xs ! j = (if k \<le> j then xs ! Suc j else xs ! j))"
    using assms(1) unfolding k_def
  proof (induction xs)
    case (Cons x xs)
    show ?case
    proof (cases "x = b")
      case False
      with Cons show ?thesis by (auto simp: nth_Cons split: nat.split)
    qed simp
  qed simp
  then show "k < length xs" and "length (remove1 b xs) = length xs - 1"
    and "j < length xs - 1 \<Longrightarrow> remove1 b xs ! j = (if k \<le> j then xs ! Suc j else xs ! j)"
    by blast+
qed

lemma ABQDelete_ok:
  assumes q: "abq_inv chk q" and b: "chk b"
  shows "\<exists>q'. ABQDelete chk q b = Some (if b \<in> set (contents q) then ResOK else ResFAIL, q') \<and>
    abq_inv chk q' \<and> contents q' = remove1 b (contents q) \<and> elements q' = elements q"
proof (cases "b \<in> set (contents q)")
  case False
  have s: "shape q" using q by (simp add: abq_inv_def)
  with False q b show ?thesis
    using ABQDelete_find_ok [OF s, of 0 b] shape_facts(3) [OF s]
    by (simp add: ABQDelete_def ABQCheck_ok remove1_idem)
next
  case True
  have s: "shape q" using q by (simp add: abq_inv_def)
  define k where "k = length (takeWhile (\<lambda>x. x \<noteq> b) (contents q))"
  note r = remove1_nth [OF True, folded k_def, unfolded length_contents]
  have find: "ABQDelete_find q b (out_index q) = Some (Some (pos q k))"
    using ABQDelete_find_ok [OF s, of 0 b] shape_facts(3) [OF s] True by (simp add: k_def)
  obtain q' where q': "ABQDelete_shift q (pos q k) (pos q (Suc k)) = Some q'"
    "in_index q' = pos q (depth q - 1)" "out_index q' = out_index q" "elements q' = elements q"
    "length (queue q') = length (queue q)"
    "\<forall>j < elements q. queue q' ! pos q j =
      (if k \<le> j \<and> j < depth q - 1 then queue q ! pos q (Suc j) else queue q ! pos q j)"
    using ABQDelete_shift_ok [OF s r(1)] by blast
  have pos: "pos q' = pos q" using q'(3,4) by (simp add: pos_def fun_eq_iff)
  have s': "shape q'" using s q' shape_facts(4) [OF s] by (simp add: shape_def)
  have "pos q' (depth q') = pos q' (depth q - 1)" using shape_facts(2) [OF s'] q'(2) pos by simp
  then have d: "depth q' = depth q - 1"
    using shape_facts(6) [OF s'] shape_facts(1) [OF s'] shape_facts(1) [OF s] q'(4) by simp
  have c: "contents q' = remove1 b (contents q)"
  proof (rule contents_eqI)
    show "depth q' = length (remove1 b (contents q))" by (simp add: d r(2))
  next
    fix j assume "j < length (remove1 b (contents q))"
    then have j: "j < depth q - 1" by (simp only: r(2))
    then show "queue q' ! pos q' j = remove1 b (contents q) ! j"
      using q'(6) r(3) [OF j] shape_facts(1) [OF s] by (simp add: pos contents_nth)
  qed
  have inv': "abq_inv chk q'"
    unfolding abq_inv_def c using s' q set_remove1_subset [of b "contents q"] by (auto simp: abq_inv_def)
  have "ABQDelete chk q b = Some (ResOK, q')"
    using q b find q'(1) inv' shape_facts(5) [OF s] by (simp add: ABQDelete_def ABQCheck_ok)
  with True inv' c q'(4) show ?thesis by auto
qed

subsection \<open>The contract of a bounded first-in first-out queue\<close>

locale bounded_fifo =
  fixes push :: "'q \<Rightarrow> 'b \<Rightarrow> (Res \<times> 'q) option"
    and pop :: "'q \<Rightarrow> (Res \<times> 'b option \<times> 'q) option"
    and inv :: "'q \<Rightarrow> bool" and ok :: "'b \<Rightarrow> bool" and list_of :: "'q \<Rightarrow> 'b list" and capacity :: "'q \<Rightarrow> nat"
  assumes push_room: "inv q \<Longrightarrow> ok b \<Longrightarrow> length (list_of q) < capacity q \<Longrightarrow>
      \<exists>q'. push q b = Some (ResOK, q') \<and> inv q' \<and> list_of q' = list_of q @ [b] \<and> capacity q' = capacity q"
    and push_full: "inv q \<Longrightarrow> ok b \<Longrightarrow> length (list_of q) = capacity q \<Longrightarrow> push q b = Some (ResFAIL, q)"
    and pop_some: "inv q \<Longrightarrow> list_of q = x # xs \<Longrightarrow>
      \<exists>q'. pop q = Some (ResOK, Some x, q') \<and> inv q' \<and> list_of q' = xs \<and> capacity q' = capacity q"
    and pop_empty: "inv q \<Longrightarrow> list_of q = [] \<Longrightarrow> pop q = Some (ResFAIL, None, q)"
    and bounded: "inv q \<Longrightarrow> length (list_of q) \<le> capacity q"

text \<open>Clients: push a list of blocks until one is refused; pop a number of blocks.\<close>

fun push_all :: "('q \<Rightarrow> 'b \<Rightarrow> (Res \<times> 'q) option) \<Rightarrow> 'q \<Rightarrow> 'b list \<Rightarrow> ('b list \<times> 'q) option" where
  "push_all push q [] = Some ([], q)"
| "push_all push q (b # bs) = do {
     (res, q) \<leftarrow> push q b;
     if res = ResOK then push_all push q bs else Some (b # bs, q)
   }"

fun pop_all :: "('q \<Rightarrow> (Res \<times> 'b option \<times> 'q) option) \<Rightarrow> 'q \<Rightarrow> nat \<Rightarrow> ('b list \<times> 'q) option" where
  "pop_all pop q 0 = Some ([], q)"
| "pop_all pop q (Suc n) = do {
     (res, b, q) \<leftarrow> pop q;
     case b of
       None \<Rightarrow> Some ([], q)
     | Some b \<Rightarrow> do { (bs, q) \<leftarrow> pop_all pop q n; Some (b # bs, q) }
   }"

context bounded_fifo
begin

lemma push_all_ok:
  "inv q \<Longrightarrow> \<forall>b \<in> set bs. ok b \<Longrightarrow>
    \<exists>q'. push_all push q bs = Some (drop (capacity q - length (list_of q)) bs, q') \<and> inv q' \<and>
      list_of q' = list_of q @ take (capacity q - length (list_of q)) bs \<and> capacity q' = capacity q"
proof (induction bs arbitrary: q)
  case Nil
  then show ?case by simp
next
  case (Cons b bs)
  show ?case
  proof (cases "length (list_of q) < capacity q")
    case True
    then obtain q' where q': "push q b = Some (ResOK, q')" "inv q'" "list_of q' = list_of q @ [b]"
      "capacity q' = capacity q" using push_room Cons.prems by force
    have n: "capacity q - length (list_of q) = Suc (capacity q - Suc (length (list_of q)))" using True by simp
    from Cons.IH [OF q'(2)] Cons.prems(2) q' show ?thesis by (simp add: n)
  next
    case False
    then have "length (list_of q) = capacity q" using bounded [OF Cons.prems(1)] by simp
    with push_full Cons.prems show ?thesis by simp
  qed
qed

lemma pop_all_ok:
  "inv q \<Longrightarrow> \<exists>q'. pop_all pop q n = Some (take n (list_of q), q') \<and> inv q' \<and>
    list_of q' = drop n (list_of q) \<and> capacity q' = capacity q"
proof (induction n arbitrary: q)
  case 0
  then show ?case by simp
next
  case (Suc n)
  show ?case
  proof (cases "list_of q")
    case Nil
    with pop_empty Suc.prems show ?thesis by simp
  next
    case (Cons x xs)
    then obtain q' where q': "pop q = Some (ResOK, Some x, q')" "inv q'" "list_of q' = xs" "capacity q' = capacity q"
      using pop_some Suc.prems by blast
    from Suc.IH [OF q'(2)] q' Cons show ?thesis by auto
  qed
qed

lemma first_in_first_out:
  assumes "inv q" and "list_of q = []" and "\<forall>b \<in> set bs. ok b" and "length bs \<le> capacity q"
  shows "\<exists>q1 q2. push_all push q bs = Some ([], q1) \<and> pop_all pop q1 (length bs) = Some (bs, q2) \<and>
    list_of q2 = []"
proof -
  obtain q1 where q1: "push_all push q bs = Some ([], q1)" "inv q1" "list_of q1 = bs"
    using push_all_ok [OF assms(1,3)] assms(2,4) by auto
  obtain q2 where "pop_all pop q1 (length bs) = Some (bs, q2)" "list_of q2 = []"
    using pop_all_ok [OF q1(2), of "length bs"] q1(3) by auto
  with q1(1) show ?thesis by blast
qed

end

interpretation abq: bounded_fifo "ABQPush chk" "ABQPop chk" "abq_inv chk" chk contents "\<lambda>q. elements q - 1" for chk
proof
  show "length (contents q) \<le> elements q - 1" if "abq_inv chk q" for q
    using that shape_facts(1) [of q] by (auto simp: abq_inv_def)
next
  show "\<exists>q'. ABQPush chk q b = Some (ResOK, q') \<and> abq_inv chk q' \<and> contents q' = contents q @ [b] \<and>
      elements q' - 1 = elements q - 1"
    if "abq_inv chk q" "chk b" "length (contents q) < elements q - 1" for q b
    using ABQPush_ok [OF that] by auto
  show "\<exists>q'. ABQPop chk q = Some (ResOK, Some x, q') \<and> abq_inv chk q' \<and> contents q' = xs \<and>
      elements q' - 1 = elements q - 1"
    if "abq_inv chk q" "contents q = x # xs" for q x xs
    using ABQPop_ok [OF that] by auto
qed (fact ABQPush_full ABQPop_empty)+

text \<open>
  A block queue of capacity \<open>items\<close> accepts blocks up to its capacity and gives them back in the
  order they came, through any wrap-around of its two indices; no assertion of the code fires.
\<close>

theorem ABQ_first_in_first_out:
  assumes "abq_inv chk q" and "contents q = []" and "\<forall>b \<in> set bs. chk b" and "length bs \<le> elements q - 1"
  shows "\<exists>q1 q2. push_all (ABQPush chk) q bs = Some ([], q1) \<and>
    pop_all (ABQPop chk) q1 (length bs) = Some (bs, q2) \<and> contents q2 = []"
  by (rule abq.first_in_first_out [OF assms])

definition abq3 :: "nat ABQStruct" where
  "abq3 = \<lparr>elements = 4, in_index = 2, out_index = 2, queue = [0, 0, 0, 0]\<rparr>"

lemma abq3: "abq_inv chk abq3" "contents abq3 = []" "depth abq3 = 0" "elements abq3 = 4"
  by (simp_all add: abq_inv_def shape_def contents_def depth_def abq3_def)

theorem ABQ_first_in_first_out_witness:
  "\<exists>q1 q2. push_all (ABQPush (\<lambda>b. 0 < b)) abq3 [7, 8, 9] = Some ([], q1) \<and>
    pop_all (ABQPop (\<lambda>b. 0 < b)) q1 (length [7 :: nat, 8, 9]) = Some ([7, 8, 9], q2) \<and> contents q2 = []"
  by (rule ABQ_first_in_first_out) (simp_all add: abq3)

text \<open>
  C40: every operation of a queue in its invariant runs without an assertion failing and keeps the
  invariant: push appends or reports a full queue, pop and peek yield the head or report an empty
  queue, delete takes out the first occurrence of a block or reports that there is none.
\<close>

theorem ABQ_operations_refine:
  assumes "abq_inv chk q" and "chk b"
  shows "(\<exists>q'. ABQPush chk q b = Some (if length (contents q) < elements q - 1 then ResOK else ResFAIL, q') \<and>
      abq_inv chk q' \<and> contents q' = (if length (contents q) < elements q - 1 then contents q @ [b] else contents q)) \<and>
    (\<exists>q' x. ABQPop chk q = Some (if contents q = [] then (ResFAIL, None, q') else (ResOK, Some x, q')) \<and>
      abq_inv chk q' \<and> contents q' = tl (contents q) \<and> (contents q \<noteq> [] \<longrightarrow> x = hd (contents q))) \<and>
    ABQPeek chk q = Some (case contents q of [] \<Rightarrow> (ResFAIL, None) | x # _ \<Rightarrow> (ResOK, Some x)) \<and>
    (\<exists>q'. ABQDelete chk q b = Some (if b \<in> set (contents q) then ResOK else ResFAIL, q') \<and>
      abq_inv chk q' \<and> contents q' = remove1 b (contents q))"
proof (intro conjI)
  show "\<exists>q'. ABQPush chk q b = Some (if length (contents q) < elements q - 1 then ResOK else ResFAIL, q') \<and>
      abq_inv chk q' \<and> contents q' = (if length (contents q) < elements q - 1 then contents q @ [b] else contents q)"
  proof (cases "length (contents q) < elements q - 1")
    case True
    with ABQPush_ok [OF assms] show ?thesis by auto
  next
    case False
    with abq.bounded [OF assms(1)] have "length (contents q) = elements q - 1" by linarith
    with ABQPush_full [OF assms] assms(1) show ?thesis by simp
  qed
  show "\<exists>q' x. ABQPop chk q = Some (if contents q = [] then (ResFAIL, None, q') else (ResOK, Some x, q')) \<and>
      abq_inv chk q' \<and> contents q' = tl (contents q) \<and> (contents q \<noteq> [] \<longrightarrow> x = hd (contents q))"
    using ABQPop_ok [OF assms(1)] ABQPop_empty [OF assms(1)] assms(1) by (cases "contents q") auto
qed (use ABQPeek_ok [OF assms(1)] ABQDelete_ok [OF assms] in auto)

theorem ABQ_operations_refine_witness:
  "\<exists>q'. ABQPush (\<lambda>b. 0 < b) abq3 5 = Some (ResOK, q') \<and> contents q' = [5]"
  using ABQ_operations_refine [of "\<lambda>b. 0 < b" abq3 5] abq3 by auto

text \<open>
  A new queue is empty, has room for exactly the number of items asked for, and is in the
  invariant; the code of a failed allocation is passed on.
\<close>

theorem ABQInit_correct:
  assumes "0 < items" and "\<And>p. ControlAlloc (items + 1) = Inr p \<Longrightarrow> length p = items + 1"
  shows "case ControlAlloc (items + 1) of
      Inl res \<Rightarrow> ABQInit chk ControlAlloc items = Some (Inl res)
    | Inr p \<Rightarrow> \<exists>q. ABQInit chk ControlAlloc items = Some (Inr q) \<and> abq_inv chk q \<and> contents q = [] \<and>
        elements q - 1 = items"
proof (cases "ControlAlloc (items + 1)")
  case (Inl res)
  with assms(1) show ?thesis by (simp add: ABQInit_def)
next
  case (Inr p)
  define q where "q = \<lparr>elements = items + 1, in_index = 0, out_index = 0, queue = p\<rparr>"
  have "abq_inv chk q" "contents q = []"
    using assms(2) [OF Inr] by (simp_all add: q_def abq_inv_def shape_def contents_def depth_def)
  with Inr assms(1) show ?thesis
    using ABQCheck_ok [of chk q] by (auto simp: ABQInit_def q_def)
qed

theorem ABQInit_correct_witness:
  "\<exists>q. ABQInit (\<lambda>_. True) (\<lambda>n. Inr (replicate n (0 :: nat))) 5 = Some (Inr q) \<and> contents q = []"
  using ABQInit_correct [of 5 "\<lambda>n. Inr (replicate n (0 :: nat))" "\<lambda>_. True"] by auto

end
