(* ===== verification/Hash_Table.thy ===== *)
theory Hash_Table
  imports Mps_Prelude
begin

text \<open>
  The dictionary from words to pointers (\<^verbatim>\<open>table.c\<close>): a closed hash table with linear probing,
  deletion marks and doubling. The array is a list, and an index outside it is \<open>None\<close>, like an
  \<^verbatim>\<open>assert\<close> that fails. \<^verbatim>\<open>malloc\<close> is a parameter that tells whether an allocation succeeds. A
  pointer to an entry is its index; \<^verbatim>\<open>NULL\<close> is 0 as a value and \<open>None\<close> as an entry. Lengths and
  counts are natural numbers: a table of \<open>2 ^ 31\<close> entries does not fit the 32-bit address space.
\<close>

datatype TableStatus = tableUNUSED | tableDELETED | tableACTIVE

record TableEntryStruct =
  status :: TableStatus
  key :: mword
  "value" :: nat

record TableStruct =
  length_of :: nat
  count :: nat
  limit :: nat
  array :: "TableEntryStruct list"

function sizeFloorLog2_loop :: "nat \<Rightarrow> nat \<Rightarrow> nat" where
  "sizeFloorLog2_loop l sz = (if sz > 1 then sizeFloorLog2_loop (Suc l) (drop_bit 1 sz) else l)"
  by pat_completeness auto
termination by (relation "measure snd") (auto simp: drop_bit_eq_div)

declare sizeFloorLog2_loop.simps [simp del]

definition sizeFloorLog2 :: "nat \<Rightarrow> nat option" where
  "sizeFloorLog2 sz = do { aver (sz \<noteq> 0); Some (sizeFloorLog2_loop 0 sz) }"

definition TableHash :: "mword \<Rightarrow> mword" where
  "TableHash k = drop_bit 10 k + k"

text \<open>The loop of \<^verbatim>\<open>TableFind\<close>; the tests are the cases of its \<^verbatim>\<open>switch\<close>.\<close>

definition stops :: "mword \<Rightarrow> bool \<Rightarrow> TableEntryStruct \<Rightarrow> bool" where
  "stops k skip_deleted e \<longleftrightarrow>
     (case status e of
        tableACTIVE \<Rightarrow> key e = k
      | tableDELETED \<Rightarrow> \<not> skip_deleted
      | tableUNUSED \<Rightarrow> True)"

partial_function (option) TableFind_loop ::
  "TableStruct \<Rightarrow> mword \<Rightarrow> bool \<Rightarrow> nat \<Rightarrow> nat \<Rightarrow> nat \<Rightarrow> nat option option" where
  "TableFind_loop table k skip_deleted mask_len hash i = do {
     e \<leftarrow> rd (array table) i;
     if stops k skip_deleted e then Some (Some i)
     else (let i = (i + 1) AND mask_len
           in if i \<noteq> hash then TableFind_loop table k skip_deleted mask_len hash i else Some None)
   }"

definition TableFind :: "TableStruct \<Rightarrow> mword \<Rightarrow> bool \<Rightarrow> nat option option" where
  "TableFind table k skip_deleted =
     (let mask_len = length_of table - 1;
          hash = unat (TableHash k) AND mask_len
      in TableFind_loop table k skip_deleted mask_len hash hash)"

definition unused_entry :: TableEntryStruct where
  "unused_entry = \<lparr>status = tableUNUSED, key = 0, value = 0\<rparr>"

fun TableGrow_loop :: "TableEntryStruct list \<Rightarrow> nat list \<Rightarrow> TableStruct \<Rightarrow> TableStruct option" where
  "TableGrow_loop oldArray [] table = Some table"
| "TableGrow_loop oldArray (i # is) table = do {
     old \<leftarrow> rd oldArray i;
     table \<leftarrow> (if status old = tableACTIVE then do {
         found \<leftarrow> TableFind table (key old) False;
         aver (found \<noteq> None);
         entry \<leftarrow> found;
         e \<leftarrow> rd (array table) entry;
         aver (status e = tableUNUSED);
         a \<leftarrow> wr (array table) entry \<lparr>status = tableACTIVE, key = key old, value = value old\<rparr>;
         Some (table\<lparr>array := a\<rparr>)
       } else Some table);
     TableGrow_loop oldArray is table
   }"

definition TableGrow :: "bool \<Rightarrow> TableStruct \<Rightarrow> (Res \<times> TableStruct) option" where
  "TableGrow malloc_ok table =
     (let oldLength = length_of table;
          oldArray = array table;
          newLength = oldLength * 2
      in if \<not> malloc_ok then Some (ResMEMORY, table)
      else do {
        let table = table\<lparr>length_of := newLength, array := replicate newLength unused_entry,
                          limit := limit table * 2\<rparr>;
        table \<leftarrow> TableGrow_loop oldArray [0 ..< oldLength] table;
        Some (ResOK, table)
      })"

definition TableCreate :: "bool \<Rightarrow> bool \<Rightarrow> nat \<Rightarrow> (Res + TableStruct) option" where
  "TableCreate malloc_table malloc_array len =
     (if \<not> malloc_table then Some (Inl ResMEMORY)
      else do {
        let len = (if len < 2 then 2 else len);
        l \<leftarrow> sizeFloorLog2 (len - 1);
        if \<not> malloc_array then Some (Inl ResMEMORY)
        else Some (Inr \<lparr>length_of = push_bit (l + 1) 1, count = 0, limit = len div 2,
                        array = replicate len unused_entry\<rparr>)
      })"

definition TableLookup :: "TableStruct \<Rightarrow> mword \<Rightarrow> nat option option" where
  "TableLookup table k = do {
     entry \<leftarrow> TableFind table k True;
     (case entry of
        None \<Rightarrow> Some None
      | Some i \<Rightarrow> do {
          e \<leftarrow> rd (array table) i;
          Some (if status e \<noteq> tableACTIVE then None else Some (value e))
        })
   }"

text \<open>The last lines of \<^verbatim>\<open>TableDefine\<close>, which both of its branches reach.\<close>

definition TableDefine_store :: "TableStruct \<Rightarrow> mword \<Rightarrow> nat \<Rightarrow> nat \<Rightarrow> (Res \<times> TableStruct) option" where
  "TableDefine_store table k v entry = do {
     a \<leftarrow> wr (array table) entry \<lparr>status = tableACTIVE, key = k, value = v\<rparr>;
     Some (ResOK, table\<lparr>array := a, count := count table + 1\<rparr>)
   }"

definition TableDefine :: "bool \<Rightarrow> TableStruct \<Rightarrow> mword \<Rightarrow> nat \<Rightarrow> (Res \<times> TableStruct) option" where
  "TableDefine malloc_ok table k v =
     (if count table \<ge> limit table
      then do {
        (res, table) \<leftarrow> TableGrow malloc_ok table;
        if res \<noteq> ResOK then Some (res, table)
        else do {
          found \<leftarrow> TableFind table k False;
          aver (found \<noteq> None);
          entry \<leftarrow> found;
          e \<leftarrow> rd (array table) entry;
          if status e = tableACTIVE then Some (ResFAIL, table)
          else TableDefine_store table k v entry
        }
      }
      else do {
        found \<leftarrow> TableFind table k True;
        active \<leftarrow> (case found of
            None \<Rightarrow> Some False
          | Some i \<Rightarrow> do { e \<leftarrow> rd (array table) i; Some (status e = tableACTIVE) });
        if active then Some (ResFAIL, table)
        else do {
          found \<leftarrow> TableFind table k False;
          aver (found \<noteq> None);
          entry \<leftarrow> found;
          TableDefine_store table k v entry
        }
      })"

definition TableRedefine :: "TableStruct \<Rightarrow> mword \<Rightarrow> nat \<Rightarrow> (Res \<times> TableStruct) option" where
  "TableRedefine table k v = do {
     entry \<leftarrow> TableFind table k True;
     (case entry of
        None \<Rightarrow> Some (ResFAIL, table)
      | Some i \<Rightarrow> do {
          e \<leftarrow> rd (array table) i;
          if status e \<noteq> tableACTIVE then Some (ResFAIL, table)
          else do {
            aver (key e = k);
            a \<leftarrow> wr (array table) i (e\<lparr>value := v\<rparr>);
            Some (ResOK, table\<lparr>array := a\<rparr>)
          }
        })
   }"

definition TableRemove :: "TableStruct \<Rightarrow> mword \<Rightarrow> (Res \<times> TableStruct) option" where
  "TableRemove table k = do {
     entry \<leftarrow> TableFind table k True;
     (case entry of
        None \<Rightarrow> Some (ResFAIL, table)
      | Some i \<Rightarrow> do {
          e \<leftarrow> rd (array table) i;
          if status e \<noteq> tableACTIVE then Some (ResFAIL, table)
          else do {
            a \<leftarrow> wr (array table) i (e\<lparr>status := tableDELETED\<rparr>);
            Some (ResOK, table\<lparr>array := a, count := count table - 1\<rparr>)
          }
        })
   }"

text \<open>The function applied by \<^verbatim>\<open>TableMap\<close> is a parameter that acts on a state of the caller.\<close>

fun TableMap_loop :: "TableStruct \<Rightarrow> (mword \<Rightarrow> nat \<Rightarrow> 's \<Rightarrow> 's) \<Rightarrow> nat list \<Rightarrow> 's \<Rightarrow> 's option" where
  "TableMap_loop table f [] s = Some s"
| "TableMap_loop table f (i # is) s = do {
     e \<leftarrow> rd (array table) i;
     TableMap_loop table f is (if status e = tableACTIVE then f (key e) (value e) s else s)
   }"

definition TableMap :: "TableStruct \<Rightarrow> (mword \<Rightarrow> nat \<Rightarrow> 's \<Rightarrow> 's) \<Rightarrow> 's \<Rightarrow> 's option" where
  "TableMap table f s = TableMap_loop table f [0 ..< length_of table] s"

definition TableCount :: "TableStruct \<Rightarrow> nat" where
  "TableCount table = count table"

subsection \<open>Probing\<close>

text \<open>\<open>slot t k d\<close> is the index \<open>TableFind\<close> looks at after \<open>d\<close> steps.\<close>

definition home :: "TableStruct \<Rightarrow> mword \<Rightarrow> nat" where
  "home t k = unat (TableHash k) mod length_of t"

definition slot :: "TableStruct \<Rightarrow> mword \<Rightarrow> nat \<Rightarrow> nat" where
  "slot t k d = (home t k + d) mod length_of t"

definition entry :: "TableStruct \<Rightarrow> mword \<Rightarrow> nat \<Rightarrow> TableEntryStruct" where
  "entry t k d = array t ! slot t k d"

definition table_shape :: "TableStruct \<Rightarrow> bool" where
  "table_shape t \<longleftrightarrow> (\<exists>b \<ge> 1. length_of t = 2 ^ b) \<and> length (array t) = length_of t"

lemma table_shapeD:
  assumes "table_shape t"
  shows "0 < length_of t" and "2 \<le> length_of t" and "length (array t) = length_of t"
    and "i AND (length_of t - 1) = i mod length_of t" and "slot t k d < length_of t"
proof -
  obtain b where b: "length_of t = 2 ^ b" "b \<ge> 1" using assms by (auto simp: table_shape_def)
  then show "0 < length_of t" by simp
  have "(2 :: nat) ^ 1 \<le> 2 ^ b" using b(2) by (intro power_increasing) auto
  then show "2 \<le> length_of t" by (simp add: b)
  show "length (array t) = length_of t" using assms by (simp add: table_shape_def)
  have "(2 :: nat) ^ b - 1 = mask b" by (simp add: mask_eq_exp_minus_1)
  then show "i AND (length_of t - 1) = i mod length_of t"
    unfolding b by (simp only: take_bit_eq_mask [symmetric] take_bit_eq_mod)
  show "slot t k d < length_of t" using b by (simp add: slot_def)
qed

lemma slot_surj:
  assumes "table_shape t" and "i < length_of t"
  shows "\<exists>d < length_of t. slot t k d = i"
proof -
  define n h where "n = length_of t" and "h = home t k"
  have n: "0 < n" "h < n" "i < n" using table_shapeD [OF assms(1)] assms(2) by (auto simp: n_def h_def home_def)
  show ?thesis
  proof (cases "h \<le> i")
    case True
    then show ?thesis using n by (intro exI [of _ "i - h"]) (simp add: slot_def flip: n_def h_def)
  next
    case False
    then show ?thesis using n by (intro exI [of _ "n + i - h"]) (simp add: slot_def flip: n_def h_def)
  qed
qed

lemma slot_inj:
  assumes "table_shape t" and "d < length_of t" and "d' < length_of t"
  shows "slot t k d = slot t k d' \<longleftrightarrow> d = d'"
proof -
  have h: "home t k < length_of t" using table_shapeD(1) [OF assms(1)] by (simp add: home_def)
  have "slot t k d = (if home t k + d < length_of t then home t k + d else home t k + d - length_of t)"
    if "d < length_of t" for d
    using that h by (cases "home t k + d < length_of t") (simp_all add: slot_def le_mod_geq)
  with h show ?thesis using assms(2,3) by (auto split: if_splits)
qed

lemma TableFind_loop_eq:
  assumes "table_shape t" and "d < length_of t" and "\<And>j. j < d \<Longrightarrow> \<not> stops k sk (entry t k j)"
  shows "TableFind_loop t k sk (length_of t - 1) (home t k) (slot t k d) =
    Some (if \<exists>j < length_of t. stops k sk (entry t k j)
          then Some (slot t k (LEAST j. stops k sk (entry t k j))) else None)"
  using assms(2,3)
proof (induction "length_of t - d" arbitrary: d rule: less_induct)
  case less
  note sh = table_shapeD [OF assms(1)]
  have rd: "rd (array t) (slot t k d) = Some (entry t k d)"
    using sh(3,5) by (simp add: entry_def)
  show ?case
  proof (cases "stops k sk (entry t k d)")
    case True
    then have "(LEAST j. stops k sk (entry t k j)) = d"
      using less.prems(2) by (intro Least_equality) (auto simp: not_less [symmetric])
    with True less.prems(1) show ?thesis
      by (subst TableFind_loop.simps) (auto simp: rd)
  next
    case False
    have nxt: "(slot t k d + 1) AND (length_of t - 1) = slot t k (Suc d)"
      unfolding sh(4) by (simp add: slot_def mod_Suc_eq)
    have no: "\<not> stops k sk (entry t k j)" if "j < Suc d" for j
      using that False less.prems(2) by (cases "j = d") auto
    show ?thesis
    proof (cases "Suc d = length_of t")
      case True
      have h0: "slot t k 0 = home t k" "slot t k (Suc d) = home t k"
        unfolding True by (simp_all add: slot_def home_def)
      have "\<not> (\<exists>j < length_of t. stops k sk (entry t k j))" using no True by simp
      then show ?thesis
        using False nxt h0(2) by (subst TableFind_loop.simps) (simp add: rd)
    next
      case False
      with less.prems(1) have d: "Suc d < length_of t" by simp
      then have "slot t k (Suc d) \<noteq> slot t k 0" using slot_inj [OF assms(1) d, of 0 k] sh(1) by simp
      then have "slot t k (Suc d) \<noteq> home t k" by (simp add: slot_def home_def)
      then have "TableFind_loop t k sk (length_of t - 1) (home t k) (slot t k d) =
          TableFind_loop t k sk (length_of t - 1) (home t k) (slot t k (Suc d))"
        using \<open>\<not> stops k sk (entry t k d)\<close> nxt by (subst TableFind_loop.simps) (simp add: rd)
      then show ?thesis using less.hyps [of "Suc d"] d no by simp
    qed
  qed
qed

lemma TableFind_eq:
  assumes "table_shape t"
  shows "TableFind t k sk =
    Some (if \<exists>j < length_of t. stops k sk (entry t k j)
          then Some (slot t k (LEAST j. stops k sk (entry t k j))) else None)"
proof -
  have "slot t k 0 = home t k" by (simp add: slot_def home_def)
  then show ?thesis
    using TableFind_loop_eq [OF assms, of 0 k sk] table_shapeD(1,4) [OF assms]
    by (simp add: TableFind_def home_def)
qed

text \<open>The form the operations use: the first slot that stops the search, and what came before.\<close>

lemma TableFind_cases:
  assumes "table_shape t"
  obtains (found) d where "TableFind t k sk = Some (Some (slot t k d))" "d < length_of t"
      "stops k sk (entry t k d)" "\<And>j. j < d \<Longrightarrow> \<not> stops k sk (entry t k j)"
    | (none) "TableFind t k sk = Some None" "\<And>j. j < length_of t \<Longrightarrow> \<not> stops k sk (entry t k j)"
proof (cases "\<exists>j < length_of t. stops k sk (entry t k j)")
  case True
  then obtain j where j: "j < length_of t" "stops k sk (entry t k j)" by blast
  define d where "d = (LEAST j. stops k sk (entry t k j))"
  have "stops k sk (entry t k d)" unfolding d_def using j(2) by (rule LeastI)
  moreover have "d \<le> j" unfolding d_def using j(2) by (rule Least_le)
  then have "d < length_of t" using j(1) by simp
  moreover have "TableFind t k sk = Some (Some (slot t k d))"
    unfolding d_def TableFind_eq [OF assms] using True by (rule if_P [THEN arg_cong [where f = Some]])
  moreover have "\<not> stops k sk (entry t k j)" if "j < d" for j
    using that not_less_Least unfolding d_def by blast
  ultimately show ?thesis using found by blast
next
  case False
  then show ?thesis using none TableFind_eq [OF assms, of k sk] by simp
qed

subsection \<open>Invariant and abstraction\<close>

definition active_at :: "TableStruct \<Rightarrow> nat \<Rightarrow> mword \<Rightarrow> bool" where
  "active_at t i k \<longleftrightarrow> i < length_of t \<and> status (array t ! i) = tableACTIVE \<and> key (array t ! i) = k"

definition probe_inv :: "TableStruct \<Rightarrow> bool" where
  "probe_inv t \<longleftrightarrow> table_shape t \<and>
     (\<forall>i j k. active_at t i k \<and> active_at t j k \<longrightarrow> i = j) \<and>
     (\<forall>d k. d < length_of t \<and> active_at t (slot t k d) k \<longrightarrow>
        (\<forall>d' < d. status (entry t k d') \<noteq> tableUNUSED))"

definition actives :: "TableStruct \<Rightarrow> nat set" where
  "actives t = {i. i < length_of t \<and> status (array t ! i) = tableACTIVE}"

definition table_inv :: "TableStruct \<Rightarrow> bool" where
  "table_inv t \<longleftrightarrow> probe_inv t \<and> count t = card (actives t) \<and> count t \<le> limit t \<and> 1 \<le> limit t \<and>
     2 * limit t \<le> length_of t"

definition table_map :: "TableStruct \<Rightarrow> mword \<Rightarrow> nat option" where
  "table_map t k =
     map_option value (find (\<lambda>e. status e = tableACTIVE \<and> key e = k) (array t))"

lemma map_eqI: "(\<And>k v. m k = Some v \<longleftrightarrow> m' k = Some v) \<Longrightarrow> m = m'"
  by (rule ext) (metis not_None_eq)

lemma table_map_None:
  assumes "table_shape t"
  shows "table_map t k = None \<longleftrightarrow> (\<forall>i. \<not> active_at t i k)"
  using table_shapeD(3) [OF assms]
  by (auto simp: table_map_def find_None_iff in_set_conv_nth active_at_def)

lemma table_map_Some:
  assumes "probe_inv t"
  shows "table_map t k = Some v \<longleftrightarrow> (\<exists>i. active_at t i k \<and> value (array t ! i) = v)"
proof -
  have len: "length (array t) = length_of t"
    using assms table_shapeD(3) by (auto simp: probe_inv_def)
  show ?thesis
  proof
    assume "table_map t k = Some v"
    then show "\<exists>i. active_at t i k \<and> value (array t ! i) = v"
      using len by (auto simp: table_map_def find_Some_iff active_at_def)
  next
    assume "\<exists>i. active_at t i k \<and> value (array t ! i) = v"
    then obtain i where i: "active_at t i k" "value (array t ! i) = v" by blast
    then have "table_map t k \<noteq> None"
      using assms table_map_None by (auto simp: probe_inv_def)
    then obtain w where w: "table_map t k = Some w" by blast
    then obtain j where "active_at t j k" "value (array t ! j) = w"
      using len by (auto simp: table_map_def find_Some_iff active_at_def)
    moreover have "j = i" using assms i(1) calculation(1) by (auto simp: probe_inv_def)
    ultimately show "table_map t k = Some v" using i w by simp
  qed
qed

lemma table_map_active: "probe_inv t \<Longrightarrow> active_at t i k \<Longrightarrow> table_map t k = Some (value (array t ! i))"
  using table_map_Some by blast

subsection \<open>What a search finds\<close>

lemma TableFind_active:
  assumes "probe_inv t" and "active_at t i k"
  shows "TableFind t k True = Some (Some i)"
proof -
  have sh: "table_shape t" using assms(1) by (simp add: probe_inv_def)
  have "i < length_of t" using assms(2) by (simp add: active_at_def)
  then obtain e where e: "e < length_of t" "slot t k e = i" using slot_surj [OF sh] by blast
  have st: "stops k True (entry t k e)" using assms(2) e(2) by (simp add: stops_def entry_def active_at_def)
  from sh show ?thesis
  proof (cases rule: TableFind_cases [where k = k and sk = True])
    case (found d)
    have "d \<le> e" using found(4) st by (meson not_less)
    moreover have "\<not> d < e"
    proof
      assume "d < e"
      then have "status (entry t k d) \<noteq> tableUNUSED"
        using assms e unfolding probe_inv_def by blast
      then have "active_at t (slot t k d) k"
        using found(3) table_shapeD(5) [OF sh] by (auto simp: stops_def active_at_def entry_def split: TableStatus.splits)
      then have "slot t k d = slot t k e" using assms e(2) unfolding probe_inv_def by blast
      then show False using slot_inj [OF sh found(2) e(1)] \<open>d < e\<close> by simp
    qed
    ultimately have "d = e" by simp
    with found(1) e(2) show ?thesis by simp
  next
    case none
    with st e(1) show ?thesis by blast
  qed
qed

lemma TableFind_absent:
  assumes "table_shape t" and "\<And>i. \<not> active_at t i k"
  shows "TableFind t k True = Some None \<or>
    (\<exists>i < length_of t. TableFind t k True = Some (Some i) \<and> status (array t ! i) = tableUNUSED)"
  using assms(1)
proof (cases rule: TableFind_cases [where k = k and sk = True])
  case (found d)
  then have "status (entry t k d) = tableUNUSED"
    using assms(2) [of "slot t k d"] table_shapeD(5) [OF assms(1)]
    by (auto simp: stops_def active_at_def entry_def split: TableStatus.splits)
  then show ?thesis using found(1) table_shapeD(5) [OF assms(1)] by (auto simp: entry_def)
qed simp

lemma TableFind_free:
  assumes "table_shape t" and "\<And>i. \<not> active_at t i k" and "i < length_of t" and "status (array t ! i) \<noteq> tableACTIVE"
  obtains d where "TableFind t k False = Some (Some (slot t k d))" "d < length_of t"
    "status (entry t k d) \<noteq> tableACTIVE" "\<And>j. j < d \<Longrightarrow> status (entry t k j) = tableACTIVE"
  using assms(1)
proof (cases rule: TableFind_cases [where k = k and sk = False])
  case (found d)
  have "status (entry t k d) \<noteq> tableACTIVE"
    using found(3) assms(2) [of "slot t k d"] table_shapeD(5) [OF assms(1)]
    by (auto simp: stops_def active_at_def entry_def)
  moreover have "status (entry t k j) = tableACTIVE" if "j < d" for j
    using found(4) [OF that] by (auto simp: stops_def split: TableStatus.splits)
  ultimately show ?thesis using that found(1,2) by blast
next
  case none
  obtain e where e: "e < length_of t" "slot t k e = i" using slot_surj [OF assms(1,3)] by blast
  then have "stops k False (entry t k e)"
    using assms(4) by (auto simp: stops_def entry_def split: TableStatus.splits)
  with none e(1) show ?thesis by blast
qed

lemma exists_free:
  assumes "table_shape t" and "card (actives t) < length_of t"
  shows "\<exists>i < length_of t. status (array t ! i) \<noteq> tableACTIVE"
proof (rule ccontr)
  assume "\<not> ?thesis"
  then have "actives t = {..< length_of t}" by (auto simp: actives_def)
  with assms(2) show False by simp
qed

subsection \<open>Changes to one entry\<close>

definition put :: "TableStruct \<Rightarrow> nat \<Rightarrow> TableEntryStruct \<Rightarrow> TableStruct" where
  "put t i e = t\<lparr>array := (array t)[i := e]\<rparr>"

lemma put_simps [simp]:
  "length_of (put t i e) = length_of t" "array (put t i e) = (array t)[i := e]"
  "slot (put t i e) = slot t" "table_shape (put t i e) = table_shape t"
  "count (put t i e) = count t" "limit (put t i e) = limit t"
  by (simp_all add: put_def slot_def home_def table_shape_def fun_eq_iff)

lemma put_active:
  assumes "table_shape t" and "i < length_of t"
  shows "active_at (put t i e) j k \<longleftrightarrow> (if j = i then status e = tableACTIVE \<and> key e = k else active_at t j k)"
  using assms table_shapeD(3) [OF assms(1)] by (auto simp: active_at_def)

lemma put_entry:
  assumes "table_shape t" and "i < length_of t"
  shows "entry (put t i e) k d = (if slot t k d = i then e else entry t k d)"
  using assms table_shapeD(3) [OF assms(1)] by (simp add: entry_def)

lemma put_new:
  fixes v :: nat
  assumes inv: "probe_inv t" and new: "\<And>i. \<not> active_at t i k"
    and d: "d < length_of t" "status (entry t k d) \<noteq> tableACTIVE" "\<And>j. j < d \<Longrightarrow> status (entry t k j) = tableACTIVE"
  defines "i \<equiv> slot t k d"
  defines "t' \<equiv> put t i \<lparr>status = tableACTIVE, key = k, value = v\<rparr>"
  shows "probe_inv t'" and "table_map t' = (table_map t)(k \<mapsto> v)"
    and "actives t' = insert i (actives t)" and "i \<notin> actives t"
proof -
  have sh: "table_shape t" using inv by (simp add: probe_inv_def)
  have i: "i < length_of t" using table_shapeD(5) [OF sh] by (simp add: i_def)
  have na: "status (array t ! i) \<noteq> tableACTIVE" using d(2) by (simp add: entry_def i_def)
  then have ni: "\<not> active_at t i k'" for k' by (simp add: active_at_def)
  have act: "active_at t' j k' \<longleftrightarrow> (j = i \<and> k' = k) \<or> active_at t j k'" for j k'
    unfolding t'_def put_active [OF sh i] using ni by auto
  have ent: "status (entry t' k' e) \<noteq> tableUNUSED" if "status (entry t k' e) \<noteq> tableUNUSED" for k' e
    unfolding t'_def put_entry [OF sh i] using that by simp
  have len: "length_of t' = length_of t" "slot t' = slot t" by (simp_all add: t'_def)
  show inv': "probe_inv t'"
    unfolding probe_inv_def
  proof (intro conjI allI impI)
    show "table_shape t'" using sh by (simp add: t'_def)
  next
    fix a b k' assume "active_at t' a k' \<and> active_at t' b k'"
    then show "a = b" unfolding act using inv new unfolding probe_inv_def by blast
  next
    fix e k' d' assume e: "e < length_of t' \<and> active_at t' (slot t' k' e) k'" and "d' < e"
    show "status (entry t' k' d') \<noteq> tableUNUSED"
    proof (cases "active_at t (slot t k' e) k'")
      case True
      then show ?thesis using inv e \<open>d' < e\<close> len by (intro ent) (auto simp: probe_inv_def)
    next
      case False
      with e have "k' = k" "slot t k e = slot t k d" unfolding act len by (auto simp: i_def)
      then have "e = d" using slot_inj [OF sh _ d(1)] e len by simp
      with d(3) \<open>d' < e\<close> \<open>k' = k\<close> show ?thesis by (intro ent) simp
    qed
  qed
  have "length (array t) = length_of t" using table_shapeD(3) [OF sh] .
  then have val: "value (array t' ! j) = (if j = i then v else value (array t ! j))" if "j < length_of t" for j
    using i that by (simp add: t'_def)
  show "table_map t' = (table_map t)(k \<mapsto> v)"
  proof (rule map_eqI)
    fix k' w
    show "table_map t' k' = Some w \<longleftrightarrow> ((table_map t)(k \<mapsto> v)) k' = Some w"
    proof (cases "k' = k")
      case True
      then show ?thesis
        using table_map_active [OF inv', of i k] act val [OF i] by auto
    next
      case False
      have "active_at t' j k' \<and> value (array t' ! j) = w \<longleftrightarrow> active_at t j k' \<and> value (array t ! j) = w" for j
      proof (cases "active_at t j k'")
        case True
        then have "j < length_of t" "j \<noteq> i" using ni by (auto simp: active_at_def)
        then show ?thesis using val [of j] unfolding act by auto
      next
        case nact: False
        then show ?thesis unfolding act using False by simp
      qed
      with False show ?thesis unfolding table_map_Some [OF inv'] by (simp add: table_map_Some [OF inv])
    qed
  qed
  show "actives t' = insert i (actives t)"
    using i \<open>length (array t) = length_of t\<close> by (auto simp: actives_def t'_def nth_list_update)
  show "i \<notin> actives t" using na by (simp add: actives_def)
qed

lemma put_delete:
  assumes inv: "probe_inv t" and i: "active_at t i k"
  defines "t' \<equiv> put t i ((array t ! i)\<lparr>status := tableDELETED\<rparr>)"
  shows "probe_inv t'" and "table_map t' = (table_map t)(k := None)" and "actives t' = actives t - {i}"
proof -
  have sh: "table_shape t" using inv by (simp add: probe_inv_def)
  have il: "i < length_of t" using i by (simp add: active_at_def)
  have act: "active_at t' j k' \<longleftrightarrow> j \<noteq> i \<and> active_at t j k'" for j k'
    unfolding t'_def put_active [OF sh il] by auto
  have ent: "status (entry t' k' e) \<noteq> tableUNUSED" if "status (entry t k' e) \<noteq> tableUNUSED" for k' e
    unfolding t'_def put_entry [OF sh il] using that by simp
  have len: "length_of t' = length_of t" "slot t' = slot t" by (simp_all add: t'_def)
  show inv': "probe_inv t'"
    unfolding probe_inv_def
  proof (intro conjI allI impI)
    show "table_shape t'" using sh by (simp add: t'_def)
  next
    fix a b k' assume "active_at t' a k' \<and> active_at t' b k'"
    then show "a = b" unfolding act using inv unfolding probe_inv_def by blast
  next
    fix e k' d' assume e: "e < length_of t' \<and> active_at t' (slot t' k' e) k'" and "d' < e"
    then show "status (entry t' k' d') \<noteq> tableUNUSED"
      using inv unfolding act len by (intro ent) (auto simp: probe_inv_def)
  qed
  have al: "length (array t) = length_of t" using table_shapeD(3) [OF sh] .
  have uniq: "active_at t j k \<longleftrightarrow> j = i" for j using inv i unfolding probe_inv_def by blast
  have ik: "active_at t i k' \<longleftrightarrow> k' = k" for k' using i by (auto simp: active_at_def)
  show "table_map t' = (table_map t)(k := None)"
  proof (rule map_eqI)
    fix k' w
    have "active_at t' j k' \<and> value (array t' ! j) = w \<longleftrightarrow> k' \<noteq> k \<and> active_at t j k' \<and> value (array t ! j) = w" for j
      using ik uniq [of j] unfolding act by (cases "j = i") (auto simp: t'_def)
    then show "table_map t' k' = Some w \<longleftrightarrow> ((table_map t)(k := None)) k' = Some w"
      by (auto simp: table_map_Some [OF inv'] table_map_Some [OF inv])
  qed
  show "actives t' = actives t - {i}"
    using il al by (auto simp: actives_def t'_def nth_list_update split: if_splits)
qed

lemma put_value:
  fixes v :: nat
  assumes inv: "probe_inv t" and i: "active_at t i k"
  defines "t' \<equiv> put t i ((array t ! i)\<lparr>value := v\<rparr>)"
  shows "probe_inv t'" and "table_map t' = (table_map t)(k \<mapsto> v)" and "actives t' = actives t"
proof -
  have sh: "table_shape t" using inv by (simp add: probe_inv_def)
  have il: "i < length_of t" using i by (simp add: active_at_def)
  have al: "length (array t) = length_of t" using table_shapeD(3) [OF sh] .
  have act: "active_at t' j k' \<longleftrightarrow> active_at t j k'" for j k'
    unfolding t'_def put_active [OF sh il] using il by (auto simp: active_at_def)
  have ent: "status (entry t' k' e) = status (entry t k' e)" for k' e
    unfolding t'_def put_entry [OF sh il] by (auto simp: entry_def)
  have len: "length_of t' = length_of t" "slot t' = slot t" "table_shape t' = table_shape t" by (simp_all add: t'_def)
  show inv': "probe_inv t'" using inv unfolding probe_inv_def act ent len .
  have uniq: "active_at t j k \<longleftrightarrow> j = i" for j using inv i unfolding probe_inv_def by blast
  have ik: "active_at t i k' \<longleftrightarrow> k' = k" for k' using i by (auto simp: active_at_def)
  show "table_map t' = (table_map t)(k \<mapsto> v)"
  proof (rule map_eqI)
    fix k' w
    show "table_map t' k' = Some w \<longleftrightarrow> ((table_map t)(k \<mapsto> v)) k' = Some w"
    proof (cases "k' = k")
      case True
      then show ?thesis using table_map_active [OF inv', of i k] act i il al by (auto simp: t'_def)
    next
      case False
      then have "active_at t' j k' \<and> value (array t' ! j) = w \<longleftrightarrow> active_at t j k' \<and> value (array t ! j) = w" for j
        using ik [of k'] unfolding act by (cases "j = i") (simp_all add: t'_def)
      with False show ?thesis unfolding table_map_Some [OF inv'] by (simp add: table_map_Some [OF inv])
    qed
  qed
  show "actives t' = actives t"
    using il al i by (auto simp: actives_def t'_def nth_list_update active_at_def split: if_splits)
qed

subsection \<open>Growing\<close>

definition no_deleted :: "TableStruct \<Rightarrow> bool" where
  "no_deleted t \<longleftrightarrow> (\<forall>i < length_of t. status (array t ! i) \<noteq> tableDELETED)"

lemma TableGrow_loop_ok:
  fixes a :: "TableEntryStruct list"
  defines "act i \<equiv> status (a ! i) = tableACTIVE"
  assumes "probe_inv t" and "no_deleted t" and "distinct is" and "\<forall>i \<in> set is. i < length a"
    and "\<forall>i \<in> set is. act i \<longrightarrow> table_map t (key (a ! i)) = None"
    and "\<forall>i \<in> set is. \<forall>j \<in> set is. act i \<longrightarrow> act j \<longrightarrow> key (a ! i) = key (a ! j) \<longrightarrow> i = j"
    and "card (actives t) + length is < length_of t"
  shows "\<exists>t'. TableGrow_loop a is t = Some t' \<and> probe_inv t' \<and> length_of t' = length_of t \<and>
    limit t' = limit t \<and> count t' = count t \<and>
    no_deleted t' \<and> card (actives t') = card (actives t) + length (filter act is) \<and>
    (\<forall>k v. table_map t' k = Some v \<longleftrightarrow>
      table_map t k = Some v \<or> (\<exists>i \<in> set is. act i \<and> key (a ! i) = k \<and> value (a ! i) = v))"
  using assms(2-)
proof (induction "is" arbitrary: t)
  case Nil
  then show ?case by simp
next
  case (Cons i "is")
  have i: "i < length a" using Cons.prems(4) by simp
  show ?case
  proof (cases "act i")
    case False
    have "\<exists>t'. TableGrow_loop a is t = Some t' \<and> probe_inv t' \<and> length_of t' = length_of t \<and>
        limit t' = limit t \<and> count t' = count t \<and>
        no_deleted t' \<and> card (actives t') = card (actives t) + length (filter act is) \<and>
        (\<forall>k v. table_map t' k = Some v \<longleftrightarrow>
          table_map t k = Some v \<or> (\<exists>i \<in> set is. act i \<and> key (a ! i) = k \<and> value (a ! i) = v))"
      using Cons.prems by (intro Cons.IH) auto
    moreover have "status (a ! i) \<noteq> tableACTIVE" using False by (simp add: act_def)
    then have "TableGrow_loop a (i # is) t = TableGrow_loop a is t" using i by simp
    ultimately show ?thesis using False by auto
  next
    case True
    define k v where "k = key (a ! i)" and "v = value (a ! i)"
    have sh: "table_shape t" using Cons.prems(1) by (simp add: probe_inv_def)
    have new: "\<not> active_at t j k" for j
      using Cons.prems(5) True table_map_None [OF sh] by (auto simp: k_def)
    obtain f where f: "f < length_of t" "status (array t ! f) \<noteq> tableACTIVE"
      using exists_free [OF sh] Cons.prems(7) by auto
    obtain d where d: "TableFind t k False = Some (Some (slot t k d))" "d < length_of t"
      "status (entry t k d) \<noteq> tableACTIVE" "\<And>j. j < d \<Longrightarrow> status (entry t k j) = tableACTIVE"
      using TableFind_free [OF sh new f] by blast
    define t1 where "t1 = put t (slot t k d) \<lparr>status = tableACTIVE, key = k, value = v\<rparr>"
    note p = put_new(1-3) [OF Cons.prems(1) new d(2-4), where v = v, folded t1_def] put_new(4) [OF Cons.prems(1) new d(2-4)]
    have s: "slot t k d < length_of t" "length (array t) = length_of t"
      using table_shapeD(3,5) [OF sh] by simp_all
    have unused: "status (array t ! slot t k d) = tableUNUSED"
      using d(3) Cons.prems(2) s(1)
      by (cases "status (array t ! slot t k d)") (auto simp: no_deleted_def entry_def)
    have step: "TableGrow_loop a (i # is) t = TableGrow_loop a is t1"
      using True i d(1) s unused by (simp add: act_def t1_def put_def flip: k_def v_def)
    have fin: "finite (actives t)" by (simp add: actives_def)
    have nd: "no_deleted t1"
      using Cons.prems(2) s by (auto simp: no_deleted_def t1_def nth_list_update)
    have "\<exists>t'. TableGrow_loop a is t1 = Some t' \<and> probe_inv t' \<and> length_of t' = length_of t1 \<and>
        limit t' = limit t1 \<and> count t' = count t1 \<and>
        no_deleted t' \<and> card (actives t') = card (actives t1) + length (filter act is) \<and>
        (\<forall>k v. table_map t' k = Some v \<longleftrightarrow>
          table_map t1 k = Some v \<or> (\<exists>i \<in> set is. act i \<and> key (a ! i) = k \<and> value (a ! i) = v))"
    proof (rule Cons.IH [OF p(1) nd])
      show "distinct is" "\<forall>i \<in> set is. i < length a" using Cons.prems by simp_all
      show "\<forall>j \<in> set is. act j \<longrightarrow> table_map t1 (key (a ! j)) = None"
      proof (intro ballI impI)
        fix j assume j: "j \<in> set is" "act j"
        then have "key (a ! j) \<noteq> k"
          using Cons.prems(3,6) True by (auto simp: k_def)
        then show "table_map t1 (key (a ! j)) = None"
          using Cons.prems(5) j by (simp add: p(2))
      qed
      show "\<forall>i \<in> set is. \<forall>j \<in> set is. act i \<longrightarrow> act j \<longrightarrow> key (a ! i) = key (a ! j) \<longrightarrow> i = j"
        using Cons.prems(6) by simp
      show "card (actives t1) + length is < length_of t1"
        using Cons.prems(7) p(3,4) fin by (simp add: t1_def)
    qed
    then obtain t' where t': "TableGrow_loop a is t1 = Some t'" "probe_inv t'" "length_of t' = length_of t"
      "limit t' = limit t" "count t' = count t" "no_deleted t'"
      "card (actives t') = Suc (card (actives t)) + length (filter act is)"
      "\<And>k v. table_map t' k = Some v \<longleftrightarrow>
        table_map t1 k = Some v \<or> (\<exists>i \<in> set is. act i \<and> key (a ! i) = k \<and> value (a ! i) = v)"
      using p(3,4) fin by (auto simp: t1_def)
    have "table_map t k = None" using new table_map_None [OF sh] by simp
    then have "table_map t' k' = Some w \<longleftrightarrow>
        table_map t k' = Some w \<or> (\<exists>j \<in> set (i # is). act j \<and> key (a ! j) = k' \<and> value (a ! j) = w)" for k' w
      using True p(2) unfolding t'(8) by (auto simp: k_def v_def)
    with t' True step show ?thesis by (intro exI [of _ t']) simp
  qed
qed

lemma TableGrow_ok:
  assumes inv: "table_inv t"
  shows "\<exists>t'. TableGrow True t = Some (ResOK, t') \<and> table_inv t' \<and> table_map t' = table_map t \<and>
    limit t' = 2 * limit t \<and> count t' = count t \<and> no_deleted t' \<and> length_of t' = 2 * length_of t"
proof -
  define n where "n = length_of t"
  define t0 where "t0 = t\<lparr>length_of := n * 2, array := replicate (n * 2) unused_entry, limit := limit t * 2\<rparr>"
  have pi: "probe_inv t" and cnt: "count t = card (actives t)" and lim: "count t \<le> limit t" "1 \<le> limit t" "2 * limit t \<le> n"
    using inv by (auto simp: table_inv_def n_def)
  have sh: "table_shape t" using pi by (simp add: probe_inv_def)
  have len: "length (array t) = n" "0 < n" using table_shapeD(1,3) [OF sh] by (simp_all add: n_def)
  obtain b where b: "1 \<le> b" "n = 2 ^ b" using sh by (auto simp: table_shape_def n_def)
  then have "n * 2 = 2 ^ Suc b" by simp
  then have sh0: "table_shape t0" unfolding table_shape_def t0_def by (intro conjI exI [of _ "Suc b"]) simp_all
  have no0: "\<not> active_at t0 i k" for i k by (auto simp: active_at_def t0_def unused_entry_def)
  then have pi0: "probe_inv t0" using sh0 by (auto simp: probe_inv_def)
  have map0: "table_map t0 k = None" for k using no0 table_map_None [OF sh0] by simp
  have act0: "actives t0 = {}" by (auto simp: actives_def t0_def unused_entry_def)
  have nd0: "no_deleted t0" by (simp add: no_deleted_def t0_def unused_entry_def)
  have keys: "i = j" if "i < n" "j < n" "status (array t ! i) = tableACTIVE" "status (array t ! j) = tableACTIVE"
    "key (array t ! i) = key (array t ! j)" for i j
    using pi that unfolding probe_inv_def active_at_def n_def by auto
  have "\<exists>t'. TableGrow_loop (array t) [0 ..< n] t0 = Some t' \<and> probe_inv t' \<and> length_of t' = length_of t0 \<and>
      limit t' = limit t0 \<and> count t' = count t0 \<and>
      no_deleted t' \<and> card (actives t') = card (actives t0) + length (filter (\<lambda>i. status (array t ! i) = tableACTIVE) [0 ..< n]) \<and>
      (\<forall>k v. table_map t' k = Some v \<longleftrightarrow> table_map t0 k = Some v \<or>
        (\<exists>i \<in> set [0 ..< n]. status (array t ! i) = tableACTIVE \<and> key (array t ! i) = k \<and> value (array t ! i) = v))"
    using pi0 nd0 map0 keys len act0 by (intro TableGrow_loop_ok) (auto simp: t0_def)
  then obtain t' where t'': "TableGrow_loop (array t) [0 ..< n] t0 = Some t'" "probe_inv t'" "length_of t' = length_of t0"
    "limit t' = limit t0" "count t' = count t0" "no_deleted t'"
    "card (actives t') = card (actives t0) + length (filter (\<lambda>i. status (array t ! i) = tableACTIVE) [0 ..< n])"
    "\<And>k v. table_map t' k = Some v \<longleftrightarrow> table_map t0 k = Some v \<or>
      (\<exists>i \<in> set [0 ..< n]. status (array t ! i) = tableACTIVE \<and> key (array t ! i) = k \<and> value (array t ! i) = v)"
    by blast
  then have t': "TableGrow_loop (array t) [0 ..< n] t0 = Some t'" "probe_inv t'" "length_of t' = n * 2"
    "limit t' = limit t * 2" "count t' = count t" "no_deleted t'"
    "card (actives t') = length (filter (\<lambda>i. status (array t ! i) = tableACTIVE) [0 ..< n])"
    "\<And>k v. table_map t' k = Some v \<longleftrightarrow>
      (\<exists>i < n. status (array t ! i) = tableACTIVE \<and> key (array t ! i) = k \<and> value (array t ! i) = v)"
    by (simp_all add: map0 act0 Bex_def) (simp_all add: t0_def)
  have "length (filter (\<lambda>i. status (array t ! i) = tableACTIVE) [0 ..< n]) = card (actives t)"
    by (subst distinct_card [symmetric]) (auto simp: actives_def n_def intro!: arg_cong [where f = card])
  then have "table_inv t'" using t'(2-7) lim cnt by (simp add: table_inv_def)
  moreover have "table_map t' = table_map t"
  proof (rule map_eqI)
    fix k v show "table_map t' k = Some v \<longleftrightarrow> table_map t k = Some v"
      unfolding t'(8) table_map_Some [OF pi] by (auto simp: active_at_def n_def)
  qed
  moreover have "TableGrow True t = Some (ResOK, t')"
    using t'(1) by (simp add: TableGrow_def t0_def n_def Let_def)
  ultimately show ?thesis using t'(3-6) by (auto simp: n_def)
qed

lemma TableGrow_fail: "TableGrow False t = Some (ResMEMORY, t)"
  by (simp add: TableGrow_def)

subsection \<open>The operations\<close>

lemma TableLookup_ok:
  assumes inv: "table_inv t"
  shows "TableLookup t k = Some (table_map t k)"
proof -
  have pi: "probe_inv t" using inv by (simp add: table_inv_def)
  then have sh: "table_shape t" by (simp add: probe_inv_def)
  note len = table_shapeD(3) [OF sh]
  show ?thesis
  proof (cases "\<exists>i. active_at t i k")
    case True
    then obtain i where i: "active_at t i k" by blast
    then show ?thesis
      using TableFind_active [OF pi i] table_map_active [OF pi i] len
      by (auto simp: TableLookup_def active_at_def)
  next
    case False
    then show ?thesis
      using TableFind_absent [OF sh, of k] table_map_None [OF sh, of k] len
      by (auto simp: TableLookup_def)
  qed
qed

lemma TableRedefine_ok:
  assumes inv: "table_inv t"
  shows "\<exists>t'. TableRedefine t k v = Some (if table_map t k = None then ResFAIL else ResOK, t') \<and> table_inv t' \<and>
    table_map t' = (if table_map t k = None then table_map t else (table_map t)(k \<mapsto> v))"
proof -
  have pi: "probe_inv t" using inv by (simp add: table_inv_def)
  then have sh: "table_shape t" by (simp add: probe_inv_def)
  note len = table_shapeD(3) [OF sh]
  show ?thesis
  proof (cases "\<exists>i. active_at t i k")
    case True
    then obtain i where i: "active_at t i k" by blast
    then have ii: "i < length_of t" "status (array t ! i) = tableACTIVE" "key (array t ! i) = k"
      by (simp_all add: active_at_def)
    define t' where "t' = put t i ((array t ! i)\<lparr>value := v\<rparr>)"
    have "TableRedefine t k v = Some (ResOK, t')"
      using TableFind_active [OF pi i] ii len by (simp add: TableRedefine_def t'_def put_def)
    moreover have "table_inv t'"
      using inv put_value(1,3) [OF pi i, of v] by (simp add: table_inv_def t'_def)
    ultimately show ?thesis
      using put_value(2) [OF pi i, of v] table_map_active [OF pi i] by (simp add: t'_def)
  next
    case False
    then show ?thesis
      using TableFind_absent [OF sh, of k] table_map_None [OF sh, of k] len inv
      by (auto simp: TableRedefine_def)
  qed
qed

lemma TableRemove_ok:
  assumes inv: "table_inv t"
  shows "\<exists>t'. TableRemove t k = Some (if table_map t k = None then ResFAIL else ResOK, t') \<and> table_inv t' \<and>
    table_map t' = (table_map t)(k := None)"
proof -
  have pi: "probe_inv t" using inv by (simp add: table_inv_def)
  then have sh: "table_shape t" by (simp add: probe_inv_def)
  note len = table_shapeD(3) [OF sh]
  show ?thesis
  proof (cases "\<exists>i. active_at t i k")
    case True
    then obtain i where i: "active_at t i k" by blast
    then have ii: "i < length_of t" "status (array t ! i) = tableACTIVE" "key (array t ! i) = k" "i \<in> actives t"
      by (simp_all add: active_at_def actives_def)
    define t1 where "t1 = put t i ((array t ! i)\<lparr>status := tableDELETED\<rparr>)"
    define t' where "t' = t1\<lparr>count := count t - 1\<rparr>"
    note p = put_delete [OF pi i, folded t1_def]
    have [simp]: "probe_inv t' = probe_inv t1" "actives t' = actives t1" "table_map t' = table_map t1"
      by (simp_all add: t'_def probe_inv_def table_shape_def active_at_def actives_def entry_def slot_def
          home_def table_map_def fun_eq_iff)
    have "TableRemove t k = Some (ResOK, t')"
      using TableFind_active [OF pi i] ii len by (simp add: TableRemove_def t'_def t1_def put_def)
    moreover have "card (actives t1) = count t - 1"
      using inv p(3) ii(4) by (simp add: table_inv_def actives_def)
    then have "table_inv t'"
      using inv p(1) by (auto simp: table_inv_def) (auto simp: t'_def t1_def)
    ultimately show ?thesis
      using p(2) table_map_active [OF pi i] by auto
  next
    case False
    then have "table_map t k = None" using table_map_None [OF sh] by simp
    moreover from this have "(table_map t)(k := None) = table_map t" by auto
    ultimately show ?thesis
      using TableFind_absent [OF sh, of k] False len inv
      by (auto simp: TableRemove_def)
  qed
qed

lemma table_inv_frame:
  "table_inv (t\<lparr>count := c\<rparr>) \<longleftrightarrow>
    probe_inv t \<and> c = card (actives t) \<and> c \<le> limit t \<and> 1 \<le> limit t \<and> 2 * limit t \<le> length_of t"
  "table_map (t\<lparr>count := c\<rparr>) = table_map t"
  by (simp_all add: table_inv_def probe_inv_def table_shape_def active_at_def actives_def entry_def slot_def
      home_def table_map_def fun_eq_iff)

text \<open>Both branches of \<^verbatim>\<open>TableDefine\<close> end by storing a new key in a table that is not full.\<close>

lemma TableDefine_new:
  assumes inv: "table_inv t" and room: "count t < limit t" and new: "table_map t k = None"
  shows "\<exists>i t'. TableFind t k False = Some (Some i) \<and> i < length_of t \<and> status (array t ! i) \<noteq> tableACTIVE \<and>
    TableDefine_store t k v i = Some (ResOK, t') \<and> table_inv t' \<and> table_map t' = (table_map t)(k \<mapsto> v)"
proof -
  have pi: "probe_inv t" and cnt: "count t = card (actives t)" and lim: "1 \<le> limit t" "2 * limit t \<le> length_of t"
    using inv by (auto simp: table_inv_def)
  have sh: "table_shape t" using pi by (simp add: probe_inv_def)
  note len = table_shapeD(3,5) [OF sh]
  have na: "\<not> active_at t i k" for i using new table_map_None [OF sh] by blast
  have "card (actives t) < length_of t" using cnt room lim by linarith
  then obtain f where f: "f < length_of t" "status (array t ! f) \<noteq> tableACTIVE" using exists_free [OF sh] by blast
  obtain d where d: "TableFind t k False = Some (Some (slot t k d))" "d < length_of t"
    "status (entry t k d) \<noteq> tableACTIVE" "\<And>j. j < d \<Longrightarrow> status (entry t k j) = tableACTIVE"
    using TableFind_free [OF sh na f] by blast
  define t1 where "t1 = put t (slot t k d) \<lparr>status = tableACTIVE, key = k, value = v\<rparr>"
  note p = put_new(1-3) [OF pi na d(2-4), where v = v, folded t1_def] put_new(4) [OF pi na d(2-4)]
  define t' where "t' = t1\<lparr>count := count t + 1\<rparr>"
  have "finite (actives t)" by (simp add: actives_def)
  then have "card (actives t1) = count t + 1" using p(3,4) cnt by simp
  then have "table_inv t'"
    unfolding t'_def table_inv_frame using p(1) lim room by (simp add: t1_def)
  moreover have "table_map t' = (table_map t)(k \<mapsto> v)" by (simp add: t'_def table_inv_frame p(2))
  moreover have "TableDefine_store t k v (slot t k d) = Some (ResOK, t')"
    using len by (simp add: TableDefine_store_def t'_def t1_def put_def)
  ultimately show ?thesis using d(1,3) len by (auto simp: entry_def)
qed

lemma TableFind_active_any:
  assumes "probe_inv t" and "no_deleted t" and "active_at t i k"
  shows "TableFind t k False = Some (Some i)"
proof -
  have sh: "table_shape t" using assms(1) by (simp add: probe_inv_def)
  have "stops k False (entry t k j) = stops k True (entry t k j)" for j
    using assms(2) table_shapeD(5) [OF sh]
    by (auto simp: stops_def no_deleted_def entry_def split: TableStatus.splits)
  then have "TableFind t k False = TableFind t k True" unfolding TableFind_eq [OF sh] by simp
  then show ?thesis using TableFind_active [OF assms(1,3)] by simp
qed

lemma TableDefine_ok:
  assumes inv: "table_inv t"
  shows "\<exists>r t'. TableDefine malloc_ok t k v = Some (r, t') \<and> table_inv t' \<and>
    (r = ResMEMORY \<and> \<not> malloc_ok \<and> count t = limit t \<and> t' = t \<or>
     r = ResFAIL \<and> table_map t k \<noteq> None \<and> table_map t' = table_map t \<or>
     r = ResOK \<and> table_map t k = None \<and> table_map t' = (table_map t)(k \<mapsto> v))"
proof (cases "count t \<ge> limit t")
  case False
  have pi: "probe_inv t" using inv by (simp add: table_inv_def)
  then have sh: "table_shape t" by (simp add: probe_inv_def)
  note len = table_shapeD(3) [OF sh]
  show ?thesis
  proof (cases "\<exists>i. active_at t i k")
    case True
    then obtain i where i: "active_at t i k" by blast
    then show ?thesis
      using TableFind_active [OF pi i] table_map_active [OF pi i] len False inv
      by (auto simp: TableDefine_def active_at_def)
  next
    case na: False
    then have new: "table_map t k = None" using table_map_None [OF sh] by blast
    obtain i t' where s: "TableFind t k False = Some (Some i)" "i < length_of t"
      "TableDefine_store t k v i = Some (ResOK, t')" "table_inv t'" "table_map t' = (table_map t)(k \<mapsto> v)"
      using TableDefine_new [OF inv _ new] False by force
    then show ?thesis using TableFind_absent [OF sh, of k] na len False new by (auto simp: TableDefine_def)
  qed
next
  case full: True
  show ?thesis
  proof (cases malloc_ok)
    case False
    then show ?thesis using full inv by (auto simp: TableDefine_def TableGrow_fail table_inv_def)
  next
    case mo: True
    obtain u where u: "TableGrow True t = Some (ResOK, u)" "table_inv u" "table_map u = table_map t"
      "limit u = 2 * limit t" "count u = count t" "no_deleted u"
      using TableGrow_ok [OF inv] by blast
    have pi: "probe_inv u" using u(2) by (simp add: table_inv_def)
    then have sh: "table_shape u" by (simp add: probe_inv_def)
    note len = table_shapeD(3) [OF sh]
    show ?thesis
    proof (cases "\<exists>i. active_at u i k")
      case True
      then obtain i where i: "active_at u i k" by blast
      then show ?thesis
        using TableFind_active_any [OF pi u(6) i] table_map_active [OF pi i] len full u mo
        by (auto simp: TableDefine_def active_at_def)
    next
      case na: False
      then have new: "table_map u k = None" using table_map_None [OF sh] by blast
      have "count u < limit u" using u(4,5) inv by (auto simp: table_inv_def)
      from TableDefine_new [OF u(2) this new, of v] obtain i t' where s: "TableFind u k False = Some (Some i)"
        "i < length_of u" "status (array u ! i) \<noteq> tableACTIVE"
        "TableDefine_store u k v i = Some (ResOK, t')" "table_inv t'" "table_map t' = (table_map u)(k \<mapsto> v)"
        by blast
      then show ?thesis using len full new u mo by (simp add: TableDefine_def)
    qed
  qed
qed

subsection \<open>Creation and traversal\<close>

lemma sizeFloorLog2_loop_eq: "sz < 2 ^ Suc n \<Longrightarrow> 2 ^ n \<le> sz \<Longrightarrow> sizeFloorLog2_loop l sz = l + n"
proof (induction n arbitrary: l sz)
  case 0
  then have "sz = 1" by simp
  then show ?case by (subst sizeFloorLog2_loop.simps) simp
next
  case (Suc n)
  have "(2 :: nat) \<le> 2 ^ Suc n" by simp
  then have "1 < sz" using Suc.prems(2) by linarith
  moreover have "sz div 2 < 2 ^ Suc n" "2 ^ n \<le> sz div 2" using Suc.prems by auto
  ultimately show ?case
    using Suc.IH [of "sz div 2" "Suc l"] by (subst sizeFloorLog2_loop.simps) (simp add: drop_bit_eq_div)
qed

lemma TableCreate_inv:
  fixes b :: nat
  assumes "1 \<le> b"
  shows "\<exists>t. TableCreate True True (2 ^ b) = Some (Inr t) \<and> table_inv t \<and> table_map t = Map.empty"
proof -
  obtain c where c: "b = Suc c" using assms by (cases b) auto
  define t where "t = \<lparr>length_of = 2 ^ b, count = 0, limit = 2 ^ b div 2, array = replicate (2 ^ b) unused_entry\<rparr>"
  have ge: "(1 :: nat) \<le> 2 ^ c" by simp
  then have ge': "2 ^ c \<le> 2 ^ b - (1 :: nat)" "2 ^ b - (1 :: nat) < 2 ^ Suc c" "2 ^ b - (1 :: nat) \<noteq> 0" unfolding c power_Suc by linarith+
  have l: "sizeFloorLog2 (2 ^ b - 1) = Some c"
    using sizeFloorLog2_loop_eq [OF ge'(2,1), of 0] ge'(3) by (simp add: sizeFloorLog2_def)
  have "TableCreate True True (2 ^ b) = Some (Inr t)"
    using l one_le_power [of "2 :: nat" c] by (simp add: TableCreate_def t_def c push_bit_eq_mult Let_def)
  moreover have sh: "table_shape t" unfolding table_shape_def t_def using assms by auto
  have no: "\<not> active_at t i k" for i k by (auto simp: active_at_def t_def unused_entry_def)
  have "actives t = {}" by (auto simp: actives_def t_def unused_entry_def)
  then have "table_inv t"
    using sh no by (auto simp: table_inv_def probe_inv_def) (simp_all add: t_def c)
  moreover have "table_map t = Map.empty" using no table_map_None [OF sh] by blast
  ultimately show ?thesis by blast
qed

lemma TableMap_loop_eq:
  "\<forall>i \<in> set is. i < length (array t) \<Longrightarrow> TableMap_loop t f is s =
    Some (fold (\<lambda>e. f (key e) (value e)) (filter (\<lambda>e. status e = tableACTIVE) (map (\<lambda>i. array t ! i) is)) s)"
  by (induction "is" arbitrary: s) auto

definition mappings :: "TableStruct \<Rightarrow> (mword \<times> nat) list" where
  "mappings t = map (\<lambda>e. (key e, value e)) (filter (\<lambda>e. status e = tableACTIVE) (array t))"

lemma TableMap_eq: "table_shape t \<Longrightarrow> TableMap t f s = Some (fold (\<lambda>(k, v). f k v) (mappings t) s)"
proof -
  assume "table_shape t"
  then have len: "length (array t) = length_of t" by (rule table_shapeD)
  have m: "map (\<lambda>i. array t ! i) [0 ..< length_of t] = array t" using len map_nth [of "array t"] by simp
  have "\<forall>i \<in> set [0 ..< length_of t]. i < length (array t)" using len by simp
  from TableMap_loop_eq [OF this] show ?thesis
    unfolding TableMap_def by (simp add: m mappings_def fold_map comp_def)
qed

lemma mappings_graph:
  assumes "probe_inv t"
  shows "distinct (map fst (mappings t))" and "map_of (mappings t) = table_map t"
    and "length (mappings t) = card (actives t)"
proof -
  have len: "length (array t) = length_of t" using assms table_shapeD(3) by (auto simp: probe_inv_def)
  define ns where "ns = filter (\<lambda>i. status (array t ! i) = tableACTIVE) [0 ..< length_of t]"
  have f: "filter (\<lambda>e. status e = tableACTIVE) (array t) = map (\<lambda>i. array t ! i) ns"
    unfolding ns_def using filter_map [of "\<lambda>e. status e = tableACTIVE" "\<lambda>i. array t ! i" "[0 ..< length_of t]"] len map_nth [of "array t"]
    by (simp add: comp_def)
  have m: "mappings t = map (\<lambda>i. (key (array t ! i), value (array t ! i))) ns" by (simp add: mappings_def f)
  have set: "set ns = actives t" by (auto simp: ns_def actives_def)
  have d: "distinct ns" by (simp add: ns_def)
  have "inj_on (\<lambda>i. key (array t ! i)) (actives t)"
    using assms unfolding probe_inv_def inj_on_def actives_def active_at_def by blast
  with d show dk: "distinct (map fst (mappings t))" by (simp add: m comp_def distinct_map set)
  have "length ns = card (actives t)" using distinct_card [OF d] set by simp
  then show "length (mappings t) = card (actives t)" by (simp add: m)
  show "map_of (mappings t) = table_map t"
  proof (rule map_eqI)
    fix k v
    have "map_of (mappings t) k = Some v \<longleftrightarrow> (k, v) \<in> set (mappings t)" using dk by (rule map_of_eq_Some_iff)
    also have "\<dots> \<longleftrightarrow> (\<exists>i. active_at t i k \<and> value (array t ! i) = v)"
      by (auto simp: m set actives_def active_at_def)
    finally show "map_of (mappings t) k = Some v \<longleftrightarrow> table_map t k = Some v" by (simp add: table_map_Some [OF assms])
  qed
qed

lemma TableCount_dom:
  assumes "table_inv t"
  shows "TableCount t = card (dom (table_map t))"
proof -
  have pi: "probe_inv t" and c: "count t = card (actives t)" using assms by (simp_all add: table_inv_def)
  note g = mappings_graph [OF pi]
  have "dom (table_map t) = set (map fst (mappings t))" unfolding g(2) [symmetric] by (simp add: dom_map_of_conv_image_fst)
  then show ?thesis using distinct_card [OF g(1)] g(3) c by (simp add: TableCount_def)
qed

subsection \<open>The contract of a dictionary\<close>

datatype command = CDefine bool mword nat | CRedefine mword nat | CRemove mword | CLookup mword

datatype answer = ARes Res | AValue "nat option"

text \<open>
  What one call may do to the dictionary it stands for: the only liberty is that a definition that
  runs out of memory leaves the dictionary as it was.
\<close>

inductive dict_step :: "(mword \<Rightarrow> nat option) \<Rightarrow> command \<Rightarrow> answer \<Rightarrow> (mword \<Rightarrow> nat option) \<Rightarrow> bool" where
  define_new: "m k = None \<Longrightarrow> dict_step m (CDefine mo k v) (ARes ResOK) (m(k \<mapsto> v))"
| define_old: "m k \<noteq> None \<Longrightarrow> dict_step m (CDefine mo k v) (ARes ResFAIL) m"
| define_memory: "dict_step m (CDefine False k v) (ARes ResMEMORY) m"
| redefine: "m k \<noteq> None \<Longrightarrow> dict_step m (CRedefine k v) (ARes ResOK) (m(k \<mapsto> v))"
| redefine_absent: "m k = None \<Longrightarrow> dict_step m (CRedefine k v) (ARes ResFAIL) m"
| remove: "m k \<noteq> None \<Longrightarrow> dict_step m (CRemove k) (ARes ResOK) (m(k := None))"
| remove_absent: "m k = None \<Longrightarrow> dict_step m (CRemove k) (ARes ResFAIL) m"
| lookup: "dict_step m (CLookup k) (AValue (m k)) m"

inductive_cases dict_step_DefineE: "dict_step m (CDefine mo k v) a m'"
inductive_cases dict_step_RedefineE: "dict_step m (CRedefine k v) a m'"
inductive_cases dict_step_RemoveE: "dict_step m (CRemove k) a m'"
inductive_cases dict_step_LookupE: "dict_step m (CLookup k) a m'"

inductive dict_run :: "(mword \<Rightarrow> nat option) \<Rightarrow> command list \<Rightarrow> answer list \<Rightarrow> (mword \<Rightarrow> nat option) \<Rightarrow> bool" where
  "dict_run m [] [] m"
| "dict_step m c a m' \<Longrightarrow> dict_run m' cs as m'' \<Longrightarrow> dict_run m (c # cs) (a # as) m''"

fun dict_exec where
  "dict_exec defn redefn remov look (CDefine mo k v) t = do { (r, t) \<leftarrow> defn mo t k v; Some (ARes r, t) }"
| "dict_exec defn redefn remov look (CRedefine k v) t = do { (r, t) \<leftarrow> redefn t k v; Some (ARes r, t) }"
| "dict_exec defn redefn remov look (CRemove k) t = do { (r, t) \<leftarrow> remov t k; Some (ARes r, t) }"
| "dict_exec defn redefn remov look (CLookup k) t = do { a \<leftarrow> look t k; Some (AValue a, t) }"

fun run_commands :: "(command \<Rightarrow> 't \<Rightarrow> (answer \<times> 't) option) \<Rightarrow> command list \<Rightarrow> 't \<Rightarrow> (answer list \<times> 't) option" where
  "run_commands step [] t = Some ([], t)"
| "run_commands step (c # cs) t = do { (a, t) \<leftarrow> step c t; (as, t) \<leftarrow> run_commands step cs t; Some (a # as, t) }"

definition TableRun :: "command list \<Rightarrow> TableStruct \<Rightarrow> (answer list \<times> TableStruct) option" where
  "TableRun = run_commands (dict_exec TableDefine TableRedefine TableRemove TableLookup)"

locale dictionary =
  fixes inv :: "'t \<Rightarrow> bool" and abs :: "'t \<Rightarrow> mword \<Rightarrow> nat option"
    and defn :: "bool \<Rightarrow> 't \<Rightarrow> mword \<Rightarrow> nat \<Rightarrow> (Res \<times> 't) option"
    and redefn :: "'t \<Rightarrow> mword \<Rightarrow> nat \<Rightarrow> (Res \<times> 't) option"
    and remov :: "'t \<Rightarrow> mword \<Rightarrow> (Res \<times> 't) option"
    and look :: "'t \<Rightarrow> mword \<Rightarrow> nat option option"
  assumes define_law: "inv t \<Longrightarrow> \<exists>r t'. defn mo t k v = Some (r, t') \<and> inv t' \<and>
      dict_step (abs t) (CDefine mo k v) (ARes r) (abs t')"
    and redefine_law: "inv t \<Longrightarrow> \<exists>r t'. redefn t k v = Some (r, t') \<and> inv t' \<and>
      dict_step (abs t) (CRedefine k v) (ARes r) (abs t')"
    and remove_law: "inv t \<Longrightarrow> \<exists>r t'. remov t k = Some (r, t') \<and> inv t' \<and>
      dict_step (abs t) (CRemove k) (ARes r) (abs t')"
    and lookup_law: "inv t \<Longrightarrow> look t k = Some (abs t k)"
begin

lemma exec_refines: "inv t \<Longrightarrow> \<exists>a t'. dict_exec defn redefn remov look c t = Some (a, t') \<and> inv t' \<and> dict_step (abs t) c a (abs t')"
proof (cases c)
  case (CDefine mo k v)
  assume "inv t"
  from define_law [OF this, of mo k v] CDefine show ?thesis by auto
next
  case (CRedefine k v)
  assume "inv t"
  from redefine_law [OF this, of k v] CRedefine show ?thesis by auto
next
  case (CRemove k)
  assume "inv t"
  from remove_law [OF this, of k] CRemove show ?thesis by auto
next
  case (CLookup k)
  assume "inv t"
  from lookup_law [OF this, of k] CLookup \<open>inv t\<close> show ?thesis by (auto intro: dict_step.lookup)
qed

lemma execs_refine:
  "inv t \<Longrightarrow> \<exists>as t'. run_commands (dict_exec defn redefn remov look) cs t = Some (as, t') \<and> inv t' \<and> dict_run (abs t) cs as (abs t')"
proof (induction cs arbitrary: t)
  case Nil
  then show ?case by (auto intro: dict_run.intros)
next
  case (Cons c cs)
  from exec_refines [OF Cons.prems] obtain a t1 where 1: "dict_exec defn redefn remov look c t = Some (a, t1)" "inv t1"
    "dict_step (abs t) c a (abs t1)" by blast
  from Cons.IH [OF 1(2)] 1 show ?case by (auto intro: dict_run.intros)
qed

end

interpretation table: dictionary table_inv table_map TableDefine TableRedefine TableRemove TableLookup
proof
  fix t :: TableStruct and mo k v assume inv: "table_inv t"
  from TableDefine_ok [OF inv, of mo k v]
  show "\<exists>r t'. TableDefine mo t k v = Some (r, t') \<and> table_inv t' \<and>
      dict_step (table_map t) (CDefine mo k v) (ARes r) (table_map t')"
    by (fastforce intro: dict_step.intros)
  from TableRedefine_ok [OF inv, of k v]
  show "\<exists>r t'. TableRedefine t k v = Some (r, t') \<and> table_inv t' \<and>
      dict_step (table_map t) (CRedefine k v) (ARes r) (table_map t')"
    by (fastforce intro: dict_step.intros split: if_splits)
  from TableRemove_ok [OF inv, of k]
  show "\<exists>r t'. TableRemove t k = Some (r, t') \<and> table_inv t' \<and>
      dict_step (table_map t) (CRemove k) (ARes r) (table_map t')"
  proof (cases "table_map t k = None")
    case True
    then have "(table_map t)(k := None) = table_map t" by auto
    with True TableRemove_ok [OF inv, of k] dict_step.remove_absent [of "table_map t" k] show ?thesis by auto
  next
    case False
    with TableRemove_ok [OF inv, of k] dict_step.remove [of "table_map t" k] show ?thesis by auto
  qed
  show "TableLookup t k = Some (table_map t k)" using inv by (rule TableLookup_ok)
qed

lemma dict_step_determ:
  assumes "dict_step m c a m1" and "dict_step m c b m2" and "a \<noteq> ARes ResMEMORY" and "b \<noteq> ARes ResMEMORY"
  shows "a = b \<and> m1 = m2"
  using assms
  by (cases c) (auto elim!: dict_step_DefineE dict_step_RedefineE dict_step_RemoveE dict_step_LookupE)

subsection \<open>Properties\<close>

lemma pow_bracket: "0 < n \<Longrightarrow> \<exists>b. 2 ^ b \<le> n \<and> n < 2 ^ Suc (b :: nat)" for n :: nat
proof (induction n rule: less_induct)
  case (less n)
  show ?case
  proof (cases "n = 1")
    case True
    then show ?thesis by (intro exI [of _ 0]) simp
  next
    case False
    with less.prems obtain b where "2 ^ b \<le> n div 2" "n div 2 < 2 ^ Suc b" using less.IH [of "n div 2"] by auto
    then show ?thesis by (intro exI [of _ "Suc b"]) auto
  qed
qed

lemma TableCreate_eq:
  assumes "2 \<le> len"
  shows "\<exists>b. 2 ^ b < len \<and> len \<le> 2 ^ Suc b \<and> TableCreate True True len =
    Some (Inr \<lparr>length_of = 2 ^ Suc b, count = 0, limit = len div 2, array = replicate len unused_entry\<rparr>)"
proof -
  obtain b where b: "2 ^ b \<le> len - 1" "len - 1 < 2 ^ Suc b" using pow_bracket [of "len - 1"] assms by auto
  then have "sizeFloorLog2 (len - 1) = Some b"
    using sizeFloorLog2_loop_eq [OF b(2,1), of 0] assms by (simp add: sizeFloorLog2_def)
  then show ?thesis
    using assms b by (intro exI [of _ b]) (auto simp: TableCreate_def push_bit_eq_mult Let_def)
qed

text \<open>
  C14: from any table that satisfies the invariant, every sequence of definitions, redefinitions,
  removals and lookups runs without a failed assertion or an access outside the array, keeps the
  invariant, and gives the answers of a dictionary; the only liberty of the implementation is that
  a definition whose allocation fails may answer \<open>ResMEMORY\<close> and change nothing.
\<close>

theorem TableRun_refines_dictionary:
  "table_inv t \<Longrightarrow> \<exists>as t'. TableRun cs t = Some (as, t') \<and> table_inv t' \<and> dict_run (table_map t) cs as (table_map t')"
  unfolding TableRun_def by (rule table.execs_refine)

theorem TableRun_refines_dictionary_witness:
  "\<exists>t as t'. TableCreate True True 2 = Some (Inr t) \<and>
    TableRun [CDefine True 7 1, CDefine True 8 2, CRemove 7, CLookup 8] t = Some (as, t') \<and>
    dict_run Map.empty [CDefine True 7 1, CDefine True 8 2, CRemove 7, CLookup 8] as (table_map t')"
proof -
  obtain t where t: "TableCreate True True (2 ^ 1) = Some (Inr t)" "table_inv t" "table_map t = Map.empty"
    using TableCreate_inv [of 1] by auto
  from TableRun_refines_dictionary [OF t(2)] t show ?thesis by simp metis
qed

text \<open>
  Growing a table, which moves every active entry into an array of twice the length, keeps the
  invariant and every mapping and doubles the limit; when the allocation fails nothing changes.
\<close>

theorem TableGrow_preserves:
  "table_inv t \<Longrightarrow>
    TableGrow False t = Some (ResMEMORY, t) \<and>
    (\<exists>t'. TableGrow True t = Some (ResOK, t') \<and> table_inv t' \<and> table_map t' = table_map t \<and>
      length_of t' = 2 * length_of t \<and> limit t' = 2 * limit t \<and> count t' = count t)"
  by (use TableGrow_ok [of t] in \<open>auto simp: TableGrow_fail\<close>)

theorem TableGrow_preserves_witness:
  "\<exists>t t'. TableCreate True True 4 = Some (Inr t) \<and> TableGrow True t = Some (ResOK, t') \<and>
    table_inv t' \<and> limit t' = 2 * limit t"
proof -
  obtain t where t: "TableCreate True True (2 ^ 2) = Some (Inr t)" "table_inv t"
    using TableCreate_inv [of 2] by auto
  from TableGrow_preserves [OF t(2)] t show ?thesis by auto
qed

text \<open>
  C41: \<open>TableMap\<close> applies the function once to every mapping of the dictionary, in the order of the
  array and to nothing else, and \<open>TableCount\<close> is the number of the keys.
\<close>

theorem TableMap_correct:
  "table_inv t \<Longrightarrow>
    TableCount t = card (dom (table_map t)) \<and>
    (\<exists>kvs. distinct (map fst kvs) \<and> map_of kvs = table_map t \<and> length kvs = TableCount t \<and>
      TableMap t f s = Some (fold (\<lambda>(k, v). f k v) kvs s))"
  using TableCount_dom [of t] mappings_graph [of t] TableMap_eq [of t f s]
  by (intro conjI exI [of _ "mappings t"]) (auto simp: table_inv_def probe_inv_def TableCount_def)

theorem TableMap_correct_witness:
  "\<exists>t. TableCreate True True 2 = Some (Inr t) \<and> TableMap t (\<lambda>k v s. v # s) [] = Some []"
proof -
  obtain t where t: "TableCreate True True (2 ^ 1) = Some (Inr t)" "table_inv t" "table_map t = Map.empty"
    using TableCreate_inv [of 1] by auto
  from TableMap_correct [OF t(2), of "\<lambda>k v s. v # s" "[]"] t(1,3) show ?thesis by auto
qed

text \<open>
  A table created with a power of two satisfies the invariant and is empty, and so does one created
  with 0 or 1. For every other length the array that is allocated is shorter than the length the table
  records, so the table does not satisfy the invariant: after \<open>TableCreate\<close> with length 3 the lookup of
  the key 3 reads outside the array.
\<close>

theorem TableCreate_power_of_two:
  "2 \<le> len \<Longrightarrow> \<exists>t. TableCreate True True len = Some (Inr t) \<and> table_map t = Map.empty \<and>
    (table_inv t \<longleftrightarrow> (\<exists>b. len = 2 ^ b)) \<and>
    (\<not> (\<exists>b. len = 2 ^ b) \<longrightarrow> length (array t) < length_of t) \<and>
    (len = 3 \<longrightarrow> TableLookup t 3 = None)"
proof -
  assume len: "2 \<le> len"
  obtain b where b: "2 ^ b < len" "len \<le> 2 ^ Suc b" and c: "TableCreate True True len =
    Some (Inr \<lparr>length_of = 2 ^ Suc b, count = 0, limit = len div 2, array = replicate len unused_entry\<rparr>)"
    using TableCreate_eq [OF len] by blast
  let ?t = "\<lparr>length_of = 2 ^ Suc b, count = 0, limit = len div 2, array = replicate len unused_entry\<rparr>"
  have pow: "(\<exists>b. len = 2 ^ b) \<longleftrightarrow> len = 2 ^ Suc b"
  proof
    assume "\<exists>b. len = 2 ^ b"
    then obtain c where len_c: "len = 2 ^ c" by blast
    with b have "b < c" "(2 :: nat) ^ c \<le> 2 ^ Suc b" by (auto simp del: power_Suc)
    then have "b < c" "c \<le> Suc b" by (simp_all del: power_Suc)
    with len_c show "len = 2 ^ Suc b" by (simp add: le_Suc_eq)
  qed blast
  have i1: "table_inv ?t" if "len = 2 ^ Suc b"
    using TableCreate_inv [of "Suc b"] c that by auto
  have i2: "len = 2 ^ Suc b" if "table_inv ?t"
    using that by (auto simp: table_inv_def probe_inv_def table_shape_def)
  have "find P (replicate n x) = None" if "\<not> P x" for P :: "TableEntryStruct \<Rightarrow> bool" and n x
    using that by (induction n) auto
  then have m: "table_map ?t = Map.empty" by (auto simp: table_map_def unused_entry_def fun_eq_iff)
  have l: "TableLookup ?t 3 = None" if "len = 3"
  proof -
    have "b \<le> 1" using b(1) that power_increasing [of 2 b "2 :: nat"] by (cases "b \<le> 1") auto
    then have "b = 1" using b that by (cases b) auto
    then show ?thesis
      using that by (simp add: TableLookup_def TableFind_def TableHash_def TableFind_loop.simps rd_def)
  qed
  have "table_inv ?t \<longleftrightarrow> (\<exists>b. len = 2 ^ b)" unfolding pow using i1 i2 by blast
  moreover have "length (array ?t) < length_of ?t" if "\<not> (\<exists>b. len = 2 ^ b)"
    using that b(2) unfolding pow by simp
  ultimately show ?thesis using c m l by blast
qed

theorem TableCreate_power_of_two_witness:
  "\<exists>t. TableCreate True True 3 = Some (Inr t) \<and> TableLookup t 3 = None"
  using TableCreate_power_of_two [of 3] by auto

end
