(* ===== verification/Splay_Tree.thy ===== *)
theory Splay_Tree
  imports Mps_Prelude "HOL-Library.Tree"
begin

text \<open>
  Splay trees (\<^verbatim>\<open>splay.c\<close>), on an explicit heap of nodes because the code links, rotates and reverses
  pointers in place. A node is its address, \<open>0\<close> is \<^verbatim>\<open>NULL\<close>. The heap has the two child pointers of
  each node, the data by which the client compares nodes, and the client property that the callback
  \<^verbatim>\<open>updateNode\<close> recomputes from a node's data and the properties of its children, as
  \<^verbatim>\<open>design/splay/#prop\<close> asks of it. A callback that is \<^verbatim>\<open>NULL\<close> is \<open>None\<close>, and a failed \<^verbatim>\<open>AVER\<close> is the
  result \<open>None\<close>. Functions that return through a pointer return a tuple.
\<close>

datatype Compare = CompareLESS | CompareEQUAL | CompareGREATER

record ('d, 'p) splay_heap =
  left_of :: "nat \<Rightarrow> nat"
  right_of :: "nat \<Rightarrow> nat"
  data_of :: "nat \<Rightarrow> 'd"
  prop_of :: "nat \<Rightarrow> 'p"

record ('k, 'd, 'p) SplayTreeStruct =
  compare :: "('k \<Rightarrow> 'd \<Rightarrow> Compare) option"
  updateNode :: "('d \<Rightarrow> 'p option \<Rightarrow> 'p option \<Rightarrow> 'p) option"
  root :: nat

text \<open>The address of the local variable \<^verbatim>\<open>sides\<close> of \<^verbatim>\<open>SplaySplay\<close>; no node of a tree lies there.\<close>

definition sides :: nat where "sides = 1"

definition SplayNodeSetLeftChild :: "nat \<Rightarrow> nat \<Rightarrow> ('d, 'p) splay_heap \<Rightarrow> ('d, 'p) splay_heap" where
  "SplayNodeSetLeftChild n child s = s\<lparr>left_of := (left_of s)(n := child)\<rparr>"

definition SplayNodeSetRightChild :: "nat \<Rightarrow> nat \<Rightarrow> ('d, 'p) splay_heap \<Rightarrow> ('d, 'p) splay_heap" where
  "SplayNodeSetRightChild n child s = s\<lparr>right_of := (right_of s)(n := child)\<rparr>"

definition SplayTreeCheck :: "('k, 'd, 'p) SplayTreeStruct \<Rightarrow> bool" where
  "SplayTreeCheck tree \<longleftrightarrow> compare tree \<noteq> None"

definition SplayNodeCheck :: "nat \<Rightarrow> bool" where
  "SplayNodeCheck node \<longleftrightarrow> node \<noteq> 0"

definition SplayTreeInit :: "('k \<Rightarrow> 'd \<Rightarrow> Compare) \<Rightarrow> ('d \<Rightarrow> 'p option \<Rightarrow> 'p option \<Rightarrow> 'p) option \<Rightarrow>
    ('k, 'd, 'p) SplayTreeStruct option" where
  "SplayTreeInit cmp upd = do {
     let tree = \<lparr>compare = Some cmp, updateNode = upd, root = 0\<rparr>;
     aver (SplayTreeCheck tree);
     Some tree
   }"

definition SplayNodeInit :: "nat \<Rightarrow> ('d, 'p) splay_heap \<Rightarrow> ('d, 'p) splay_heap option" where
  "SplayNodeInit node s = do {
     aver (node \<noteq> 0);
     let s = SplayNodeSetLeftChild node 0 s;
     let s = SplayNodeSetRightChild node 0 s;
     aver (SplayNodeCheck node);
     Some s
   }"

definition SplayNodeFinish :: "nat \<Rightarrow> ('d, 'p) splay_heap \<Rightarrow> ('d, 'p) splay_heap option" where
  "SplayNodeFinish node s = do {
     aver (SplayNodeCheck node);
     let s = SplayNodeSetLeftChild node 0 s;
     Some (SplayNodeSetRightChild node 0 s)
   }"

definition SplayTreeFinish :: "('k, 'd, 'p) SplayTreeStruct \<Rightarrow> ('k, 'd, 'p) SplayTreeStruct option" where
  "SplayTreeFinish tree = do {
     aver (SplayTreeCheck tree);
     Some (tree\<lparr>root := 0, compare := None\<rparr>)
   }"

definition prop_at :: "('d, 'p) splay_heap \<Rightarrow> nat \<Rightarrow> 'p option" where
  "prop_at s n = (if n = 0 then None else Some (prop_of s n))"

definition SplayNodeUpdate ::
  "('k, 'd, 'p) SplayTreeStruct \<Rightarrow> nat \<Rightarrow> ('d, 'p) splay_heap \<Rightarrow> ('d, 'p) splay_heap option" where
  "SplayNodeUpdate tree node s = do {
     aver (SplayTreeCheck tree);
     aver (SplayNodeCheck node);
     aver (updateNode tree \<noteq> None);
     update \<leftarrow> updateNode tree;
     Some (s\<lparr>prop_of := (prop_of s)(node := update (data_of s node)
       (prop_at s (left_of s node)) (prop_at s (right_of s node)))\<rparr>)
   }"

definition SplayLinkRight ::
  "nat \<Rightarrow> nat \<Rightarrow> ('d, 'p) splay_heap \<Rightarrow> (nat \<times> nat \<times> ('d, 'p) splay_heap) option" where
  "SplayLinkRight top_node rightIO s = do {
     aver (SplayNodeCheck top_node);
     aver (SplayNodeCheck rightIO);
     aver (left_of s rightIO = 0);
     let s = SplayNodeSetLeftChild rightIO top_node s;
     let rightIO = top_node;
     let top_node = left_of s top_node;
     let s = SplayNodeSetLeftChild rightIO 0 s;
     Some (top_node, rightIO, s)
   }"

definition SplayLinkLeft ::
  "nat \<Rightarrow> nat \<Rightarrow> ('d, 'p) splay_heap \<Rightarrow> (nat \<times> nat \<times> ('d, 'p) splay_heap) option" where
  "SplayLinkLeft top_node leftIO s = do {
     aver (SplayNodeCheck top_node);
     aver (SplayNodeCheck leftIO);
     aver (right_of s leftIO = 0);
     let s = SplayNodeSetRightChild leftIO top_node s;
     let leftIO = top_node;
     let top_node = right_of s top_node;
     let s = SplayNodeSetRightChild leftIO 0 s;
     Some (top_node, leftIO, s)
   }"

definition SplayRotateLeft ::
  "('k, 'd, 'p) SplayTreeStruct \<Rightarrow> nat \<Rightarrow> ('d, 'p) splay_heap \<Rightarrow> (nat \<times> ('d, 'p) splay_heap) option" where
  "SplayRotateLeft tree node s = do {
     aver (SplayNodeCheck node);
     aver (SplayNodeCheck (right_of s node));
     aver (SplayTreeCheck tree);
     let nodeRight = right_of s node;
     let s = SplayNodeSetRightChild node (left_of s nodeRight) s;
     let s = SplayNodeSetLeftChild nodeRight node s;
     s \<leftarrow> (if updateNode tree \<noteq> None then SplayNodeUpdate tree (left_of s nodeRight) s else Some s);
     Some (nodeRight, s)
   }"

definition SplayRotateRight ::
  "('k, 'd, 'p) SplayTreeStruct \<Rightarrow> nat \<Rightarrow> ('d, 'p) splay_heap \<Rightarrow> (nat \<times> ('d, 'p) splay_heap) option" where
  "SplayRotateRight tree node s = do {
     aver (SplayNodeCheck node);
     aver (SplayNodeCheck (left_of s node));
     aver (SplayTreeCheck tree);
     let nodeLeft = left_of s node;
     let s = SplayNodeSetLeftChild node (right_of s nodeLeft) s;
     let s = SplayNodeSetRightChild nodeLeft node s;
     s \<leftarrow> (if updateNode tree \<noteq> None then SplayNodeUpdate tree (right_of s nodeLeft) s else Some s);
     Some (nodeLeft, s)
   }"

text \<open>The two pointer reversals of \<^verbatim>\<open>SplayAssemble\<close>, one for each side tree.\<close>

partial_function (option) reverse_right ::
  "nat \<Rightarrow> nat \<Rightarrow> nat \<Rightarrow> ('d, 'p) splay_heap \<Rightarrow> (nat \<times> nat \<times> ('d, 'p) splay_heap) option" where
  "reverse_right leftLast node parent s =
     (if node \<noteq> leftLast
      then let rightChild = right_of s node;
               s = SplayNodeSetRightChild node parent s
           in reverse_right leftLast rightChild node s
      else Some (node, parent, s))"

partial_function (option) restore_right ::
  "('k, 'd, 'p) SplayTreeStruct \<Rightarrow> nat \<Rightarrow> nat \<Rightarrow> nat \<Rightarrow> ('d, 'p) splay_heap \<Rightarrow> ('d, 'p) splay_heap option" where
  "restore_right tree leftTop node parent s =
     (if node \<noteq> leftTop
      then let rightChild = node;
               node = parent;
               parent = right_of s node;
               s = SplayNodeSetRightChild node rightChild s
           in do { s \<leftarrow> SplayNodeUpdate tree node s; restore_right tree leftTop node parent s }
      else Some s)"

partial_function (option) reverse_left ::
  "nat \<Rightarrow> nat \<Rightarrow> nat \<Rightarrow> ('d, 'p) splay_heap \<Rightarrow> (nat \<times> nat \<times> ('d, 'p) splay_heap) option" where
  "reverse_left rightFirst node parent s =
     (if node \<noteq> rightFirst
      then let leftChild = left_of s node;
               s = SplayNodeSetLeftChild node parent s
           in reverse_left rightFirst leftChild node s
      else Some (node, parent, s))"

partial_function (option) restore_left ::
  "('k, 'd, 'p) SplayTreeStruct \<Rightarrow> nat \<Rightarrow> nat \<Rightarrow> nat \<Rightarrow> ('d, 'p) splay_heap \<Rightarrow> ('d, 'p) splay_heap option" where
  "restore_left tree rightTop node parent s =
     (if node \<noteq> rightTop
      then let leftChild = node;
               node = parent;
               parent = left_of s node;
               s = SplayNodeSetLeftChild node leftChild s
           in do { s \<leftarrow> SplayNodeUpdate tree node s; restore_left tree rightTop node parent s }
      else Some s)"

definition SplayAssemble_left ::
  "('k, 'd, 'p) SplayTreeStruct \<Rightarrow> nat \<Rightarrow> nat \<Rightarrow> nat \<Rightarrow> ('d, 'p) splay_heap \<Rightarrow> ('d, 'p) splay_heap option" where
  "SplayAssemble_left tree top_node leftTop leftLast s =
     (if leftTop \<noteq> 0
      then let s = SplayNodeSetRightChild leftLast (left_of s top_node) s;
               s = SplayNodeSetLeftChild top_node leftTop s
           in if updateNode tree \<noteq> None
              then do {
                (node, parent, s) \<leftarrow> reverse_right leftLast leftTop 0 s;
                s \<leftarrow> SplayNodeUpdate tree node s;
                restore_right tree leftTop node parent s
              }
              else Some s
      else Some s)"

definition SplayAssemble_right ::
  "('k, 'd, 'p) SplayTreeStruct \<Rightarrow> nat \<Rightarrow> nat \<Rightarrow> nat \<Rightarrow> ('d, 'p) splay_heap \<Rightarrow> ('d, 'p) splay_heap option" where
  "SplayAssemble_right tree top_node rightTop rightFirst s =
     (if rightTop \<noteq> 0
      then let s = SplayNodeSetLeftChild rightFirst (right_of s top_node) s;
               s = SplayNodeSetRightChild top_node rightTop s
           in if updateNode tree \<noteq> None
              then do {
                (node, parent, s) \<leftarrow> reverse_left rightFirst rightTop 0 s;
                s \<leftarrow> SplayNodeUpdate tree node s;
                restore_left tree rightTop node parent s
              }
              else Some s
      else Some s)"

definition SplayAssemble ::
  "('k, 'd, 'p) SplayTreeStruct \<Rightarrow> nat \<Rightarrow> nat \<Rightarrow> nat \<Rightarrow> nat \<Rightarrow> nat \<Rightarrow> ('d, 'p) splay_heap \<Rightarrow>
    ('d, 'p) splay_heap option" where
  "SplayAssemble tree top_node leftTop leftLast rightTop rightFirst s = do {
     aver (SplayTreeCheck tree);
     aver (SplayNodeCheck top_node);
     aver (leftTop = 0 \<or> SplayNodeCheck leftTop \<and> SplayNodeCheck leftLast);
     aver (rightTop = 0 \<or> SplayNodeCheck rightTop \<and> SplayNodeCheck rightFirst);
     s \<leftarrow> SplayAssemble_left tree top_node leftTop leftLast s;
     s \<leftarrow> SplayAssemble_right tree top_node rightTop rightFirst s;
     if updateNode tree \<noteq> None then SplayNodeUpdate tree top_node s else Some s
   }"

text \<open>
  One turn of the loop of \<^verbatim>\<open>SplaySplay\<close>; the outcome tells whether the turn ends in \<^verbatim>\<open>assemble\<close> with
  \<^verbatim>\<open>found\<close> true or false, or goes round again. The two terminal labels are inlined at their \<^verbatim>\<open>goto\<close>.
\<close>

datatype outcome = Continue | Assemble bool

definition SplaySplay_step ::
  "('k, 'd, 'p) SplayTreeStruct \<Rightarrow> (('d, 'p) splay_heap \<Rightarrow> nat \<Rightarrow> Compare option) \<Rightarrow> Compare \<Rightarrow>
    nat \<Rightarrow> nat \<Rightarrow> nat \<Rightarrow> ('d, 'p) splay_heap \<Rightarrow> (outcome \<times> nat \<times> nat \<times> nat \<times> ('d, 'p) splay_heap) option" where
  "SplaySplay_step tree compareMethod compareTop top_node leftLast rightFirst s =
     (case compareTop of
        CompareLESS \<Rightarrow>
          (let topLeft = left_of s top_node
           in if topLeft = 0 then Some (Assemble False, top_node, leftLast, rightFirst, s)
           else do {
             compareTopLeft \<leftarrow> compareMethod s topLeft;
             (case compareTopLeft of
                CompareEQUAL \<Rightarrow> do {
                  (top_node, rightFirst, s) \<leftarrow> SplayLinkRight top_node rightFirst s;
                  Some (Assemble True, top_node, leftLast, rightFirst, s)
                }
              | CompareLESS \<Rightarrow>
                  if left_of s topLeft = 0 then do {
                    (top_node, rightFirst, s) \<leftarrow> SplayLinkRight top_node rightFirst s;
                    Some (Assemble False, top_node, leftLast, rightFirst, s)
                  } else do {
                    (top_node, s) \<leftarrow> SplayRotateRight tree top_node s;
                    (top_node, rightFirst, s) \<leftarrow> SplayLinkRight top_node rightFirst s;
                    Some (Continue, top_node, leftLast, rightFirst, s)
                  }
              | CompareGREATER \<Rightarrow>
                  if right_of s topLeft = 0 then do {
                    (top_node, rightFirst, s) \<leftarrow> SplayLinkRight top_node rightFirst s;
                    Some (Assemble False, top_node, leftLast, rightFirst, s)
                  } else do {
                    (top_node, rightFirst, s) \<leftarrow> SplayLinkRight top_node rightFirst s;
                    (top_node, leftLast, s) \<leftarrow> SplayLinkLeft top_node leftLast s;
                    Some (Continue, top_node, leftLast, rightFirst, s)
                  })
           })
      | CompareGREATER \<Rightarrow>
          (let topRight = right_of s top_node
           in if topRight = 0 then Some (Assemble False, top_node, leftLast, rightFirst, s)
           else do {
             compareTopRight \<leftarrow> compareMethod s topRight;
             (case compareTopRight of
                CompareEQUAL \<Rightarrow> do {
                  (top_node, leftLast, s) \<leftarrow> SplayLinkLeft top_node leftLast s;
                  Some (Assemble True, top_node, leftLast, rightFirst, s)
                }
              | CompareGREATER \<Rightarrow>
                  if right_of s topRight = 0 then do {
                    (top_node, leftLast, s) \<leftarrow> SplayLinkLeft top_node leftLast s;
                    Some (Assemble False, top_node, leftLast, rightFirst, s)
                  } else do {
                    (top_node, s) \<leftarrow> SplayRotateLeft tree top_node s;
                    (top_node, leftLast, s) \<leftarrow> SplayLinkLeft top_node leftLast s;
                    Some (Continue, top_node, leftLast, rightFirst, s)
                  }
              | CompareLESS \<Rightarrow>
                  if left_of s topRight = 0 then do {
                    (top_node, leftLast, s) \<leftarrow> SplayLinkLeft top_node leftLast s;
                    Some (Assemble False, top_node, leftLast, rightFirst, s)
                  } else do {
                    (top_node, leftLast, s) \<leftarrow> SplayLinkLeft top_node leftLast s;
                    (top_node, rightFirst, s) \<leftarrow> SplayLinkRight top_node rightFirst s;
                    Some (Continue, top_node, leftLast, rightFirst, s)
                  })
           })
      | CompareEQUAL \<Rightarrow> Some (Assemble True, top_node, leftLast, rightFirst, s))"

partial_function (option) SplaySplay_loop ::
  "('k, 'd, 'p) SplayTreeStruct \<Rightarrow> (('d, 'p) splay_heap \<Rightarrow> nat \<Rightarrow> Compare option) \<Rightarrow> Compare \<Rightarrow>
    nat \<Rightarrow> nat \<Rightarrow> nat \<Rightarrow> ('d, 'p) splay_heap \<Rightarrow> (bool \<times> nat \<times> nat \<times> nat \<times> ('d, 'p) splay_heap) option" where
  "SplaySplay_loop tree compareMethod compareTop top_node leftLast rightFirst s = do {
     (out, top_node, leftLast, rightFirst, s) \<leftarrow>
       SplaySplay_step tree compareMethod compareTop top_node leftLast rightFirst s;
     if out = Continue then do {
       compareTop \<leftarrow> compareMethod s top_node;
       SplaySplay_loop tree compareMethod compareTop top_node leftLast rightFirst s
     } else Some (out = Assemble True, top_node, leftLast, rightFirst, s)
   }"

definition SplaySplay ::
  "('k, 'd, 'p) SplayTreeStruct \<Rightarrow> (('d, 'p) splay_heap \<Rightarrow> nat \<Rightarrow> Compare option) \<Rightarrow> ('d, 'p) splay_heap \<Rightarrow>
    (bool \<times> nat \<times> ('k, 'd, 'p) SplayTreeStruct \<times> ('d, 'p) splay_heap) option" where
  "SplaySplay tree compareMethod s = do {
     aver (SplayTreeCheck tree);
     let top_node = root tree;
     if top_node = 0 then Some (False, 0, tree, s)
     else do {
       compareTop \<leftarrow> compareMethod s top_node;
       if compareTop = CompareEQUAL then Some (True, top_node, tree, s)
       else do {
         s \<leftarrow> SplayNodeInit sides s;
         (found, top_node, leftLast, rightFirst, s) \<leftarrow>
           SplaySplay_loop tree compareMethod compareTop top_node sides sides s;
         s \<leftarrow> SplayAssemble tree top_node (right_of s sides) leftLast (left_of s sides) rightFirst s;
         Some (found, top_node, tree\<lparr>root := top_node\<rparr>, s)
       }
     }
   }"

text \<open>The client's comparison \<^verbatim>\<open>tree->compare\<close> with a key, as a method of \<open>SplaySplay\<close>.\<close>

definition SplayCompare ::
  "('k, 'd, 'p) SplayTreeStruct \<Rightarrow> 'k \<Rightarrow> ('d, 'p) splay_heap \<Rightarrow> nat \<Rightarrow> Compare option" where
  "SplayCompare tree k s node = do { cmp \<leftarrow> compare tree; Some (cmp k (data_of s node)) }"

definition SplayTreeInsert ::
  "('k, 'd, 'p) SplayTreeStruct \<Rightarrow> nat \<Rightarrow> 'k \<Rightarrow> ('d, 'p) splay_heap \<Rightarrow>
    (Res \<times> ('k, 'd, 'p) SplayTreeStruct \<times> ('d, 'p) splay_heap) option" where
  "SplayTreeInsert tree node k s = do {
     aver (SplayTreeCheck tree);
     aver (SplayNodeCheck node);
     aver (left_of s node = 0);
     aver (right_of s node = 0);
     if root tree = 0 then Some (ResOK, tree\<lparr>root := node\<rparr>, s)
     else do {
       (found, neighbour, tree, s) \<leftarrow> SplaySplay tree (SplayCompare tree k) s;
       if found then Some (ResFAIL, tree, s)
       else do {
         aver (root tree = neighbour);
         c \<leftarrow> SplayCompare tree k s neighbour;
         (tree, s) \<leftarrow>
           (case c of
              CompareGREATER \<Rightarrow>
                (let tree = tree\<lparr>root := node\<rparr>;
                     s = SplayNodeSetRightChild node (right_of s neighbour) s;
                     s = SplayNodeSetLeftChild node neighbour s;
                     s = SplayNodeSetRightChild neighbour 0 s
                 in Some (tree, s))
            | CompareLESS \<Rightarrow>
                (let tree = tree\<lparr>root := node\<rparr>;
                     s = SplayNodeSetLeftChild node (left_of s neighbour) s;
                     s = SplayNodeSetRightChild node neighbour s;
                     s = SplayNodeSetLeftChild neighbour 0 s
                 in Some (tree, s))
            | CompareEQUAL \<Rightarrow> None);
         if updateNode tree \<noteq> None then do {
           s \<leftarrow> SplayNodeUpdate tree neighbour s;
           s \<leftarrow> SplayNodeUpdate tree node s;
           Some (ResOK, tree, s)
         } else Some (ResOK, tree, s)
       }
     }
   }"

definition SplayTreeDelete ::
  "('k, 'd, 'p) SplayTreeStruct \<Rightarrow> nat \<Rightarrow> 'k \<Rightarrow> ('d, 'p) splay_heap \<Rightarrow>
    (Res \<times> ('k, 'd, 'p) SplayTreeStruct \<times> ('d, 'p) splay_heap) option" where
  "SplayTreeDelete tree node k s = do {
     aver (SplayTreeCheck tree);
     aver (SplayNodeCheck node);
     (found, del, tree, s) \<leftarrow> SplaySplay tree (SplayCompare tree k) s;
     aver (\<not> found \<or> del = node);
     if \<not> found then Some (ResFAIL, tree, s)
     else if left_of s node = 0 then do {
       s' \<leftarrow> SplayNodeFinish node s;
       Some (ResOK, tree\<lparr>root := right_of s node\<rparr>, s')
     }
     else if right_of s node = 0 then do {
       s' \<leftarrow> SplayNodeFinish node s;
       Some (ResOK, tree\<lparr>root := left_of s node\<rparr>, s')
     }
     else do {
       let rightHalf = right_of s node;
       let tree = tree\<lparr>root := left_of s node\<rparr>;
       (found, leftLast, tree, s) \<leftarrow> SplaySplay tree (SplayCompare tree k) s;
       if found then Some (ResFAIL, tree, s)
       else do {
         aver (right_of s leftLast = 0);
         let s = SplayNodeSetRightChild leftLast rightHalf s;
         s \<leftarrow> (if updateNode tree \<noteq> None then SplayNodeUpdate tree leftLast s else Some s);
         s \<leftarrow> SplayNodeFinish node s;
         Some (ResOK, tree, s)
       }
     }
   }"

definition SplayTreeSearch ::
  "('k, 'd, 'p) SplayTreeStruct \<Rightarrow> 'k \<Rightarrow> ('d, 'p) splay_heap \<Rightarrow>
    (Res \<times> nat option \<times> ('k, 'd, 'p) SplayTreeStruct \<times> ('d, 'p) splay_heap) option" where
  "SplayTreeSearch tree k s = do {
     aver (SplayTreeCheck tree);
     (found, node, tree, s) \<leftarrow> SplaySplay tree (SplayCompare tree k) s;
     if found then Some (ResOK, Some node, tree, s) else Some (ResFAIL, None, tree, s)
   }"

definition SplayTreePredecessor ::
  "('k, 'd, 'p) SplayTreeStruct \<Rightarrow> 'k \<Rightarrow> ('d, 'p) splay_heap \<Rightarrow>
    (nat \<times> ('k, 'd, 'p) SplayTreeStruct \<times> ('d, 'p) splay_heap) option" where
  "SplayTreePredecessor tree k s = do {
     aver (SplayTreeCheck tree);
     let oldRoot = root tree;
     aver (SplayNodeCheck oldRoot);
     if left_of s oldRoot = 0 then Some (0, tree, s)
     else do {
       let tree = tree\<lparr>root := left_of s oldRoot\<rparr>;
       let s = SplayNodeSetLeftChild oldRoot 0 s;
       (found, newRoot, tree, s) \<leftarrow> SplaySplay tree (SplayCompare tree k) s;
       aver (\<not> found);
       aver (right_of s newRoot = 0);
       let s = SplayNodeSetRightChild newRoot oldRoot s;
       if updateNode tree \<noteq> None then do {
         s \<leftarrow> SplayNodeUpdate tree oldRoot s;
         s \<leftarrow> SplayNodeUpdate tree newRoot s;
         Some (newRoot, tree, s)
       } else Some (newRoot, tree, s)
     }
   }"

definition SplayTreeSuccessor ::
  "('k, 'd, 'p) SplayTreeStruct \<Rightarrow> 'k \<Rightarrow> ('d, 'p) splay_heap \<Rightarrow>
    (nat \<times> ('k, 'd, 'p) SplayTreeStruct \<times> ('d, 'p) splay_heap) option" where
  "SplayTreeSuccessor tree k s = do {
     aver (SplayTreeCheck tree);
     let oldRoot = root tree;
     aver (SplayNodeCheck oldRoot);
     if right_of s oldRoot = 0 then Some (0, tree, s)
     else do {
       let tree = tree\<lparr>root := right_of s oldRoot\<rparr>;
       let s = SplayNodeSetRightChild oldRoot 0 s;
       (found, newRoot, tree, s) \<leftarrow> SplaySplay tree (SplayCompare tree k) s;
       aver (\<not> found);
       aver (left_of s newRoot = 0);
       let s = SplayNodeSetLeftChild newRoot oldRoot s;
       if updateNode tree \<noteq> None then do {
         s \<leftarrow> SplayNodeUpdate tree oldRoot s;
         s \<leftarrow> SplayNodeUpdate tree newRoot s;
         Some (newRoot, tree, s)
       } else Some (newRoot, tree, s)
     }
   }"

definition SplayTreeNeighbours ::
  "('k, 'd, 'p) SplayTreeStruct \<Rightarrow> 'k \<Rightarrow> ('d, 'p) splay_heap \<Rightarrow>
    (Res \<times> (nat \<times> nat) option \<times> ('k, 'd, 'p) SplayTreeStruct \<times> ('d, 'p) splay_heap) option" where
  "SplayTreeNeighbours tree k s = do {
     aver (SplayTreeCheck tree);
     (found, neighbour, tree, s) \<leftarrow> SplaySplay tree (SplayCompare tree k) s;
     if found then Some (ResFAIL, None, tree, s)
     else if neighbour = 0 then Some (ResOK, Some (0, 0), tree, s)
     else do {
       c \<leftarrow> SplayCompare tree k s neighbour;
       (case c of
          CompareLESS \<Rightarrow> do {
            (leftNode, tree, s) \<leftarrow> SplayTreePredecessor tree k s;
            Some (ResOK, Some (leftNode, neighbour), tree, s)
          }
        | CompareGREATER \<Rightarrow> do {
            (rightNode, tree, s) \<leftarrow> SplayTreeSuccessor tree k s;
            Some (ResOK, Some (neighbour, rightNode), tree, s)
          }
        | CompareEQUAL \<Rightarrow> None)
     }
   }"

definition SplayTreeFirst ::
  "('k, 'd, 'p) SplayTreeStruct \<Rightarrow> 'k \<Rightarrow> ('d, 'p) splay_heap \<Rightarrow>
    (nat \<times> ('k, 'd, 'p) SplayTreeStruct \<times> ('d, 'p) splay_heap) option" where
  "SplayTreeFirst tree zeroKey s = do {
     aver (SplayTreeCheck tree);
     if root tree = 0 then Some (0, tree, s)
     else do {
       (found, node, tree, s) \<leftarrow> SplaySplay tree (SplayCompare tree zeroKey) s;
       aver (\<not> found);
       aver (left_of s node = 0);
       Some (node, tree, s)
     }
   }"

definition SplayTreeNext ::
  "('k, 'd, 'p) SplayTreeStruct \<Rightarrow> nat \<Rightarrow> 'k \<Rightarrow> ('d, 'p) splay_heap \<Rightarrow>
    (nat \<times> ('k, 'd, 'p) SplayTreeStruct \<times> ('d, 'p) splay_heap) option" where
  "SplayTreeNext tree oldNode oldKey s = do {
     aver (SplayTreeCheck tree);
     aver (SplayNodeCheck oldNode);
     (b, node, tree, s) \<leftarrow> SplaySplay tree (SplayCompare tree oldKey) s;
     aver b;
     aver (node = oldNode);
     SplayTreeSuccessor tree oldKey s
   }"

text \<open>
  The tests of \<^verbatim>\<open>SplayFindFirst\<close> and \<^verbatim>\<open>SplayFindLast\<close>: the client's test of a node reads its data, the
  test of a subtree reads the client property of its root. The closure arguments are part of them.
\<close>

definition SplayFindFirstCompare ::
  "('d \<Rightarrow> bool) \<Rightarrow> ('p \<Rightarrow> bool) \<Rightarrow> ('d, 'p) splay_heap \<Rightarrow> nat \<Rightarrow> Compare option" where
  "SplayFindFirstCompare testNode testTree s node = do {
     aver (SplayNodeCheck node);
     if left_of s node \<noteq> 0 \<and> testTree (prop_of s (left_of s node)) then Some CompareLESS
     else if testNode (data_of s node) then Some CompareEQUAL
     else do {
       aver (right_of s node \<noteq> 0);
       aver (testTree (prop_of s (right_of s node)));
       Some CompareGREATER
     }
   }"

definition SplayFindLastCompare ::
  "('d \<Rightarrow> bool) \<Rightarrow> ('p \<Rightarrow> bool) \<Rightarrow> ('d, 'p) splay_heap \<Rightarrow> nat \<Rightarrow> Compare option" where
  "SplayFindLastCompare testNode testTree s node = do {
     aver (SplayNodeCheck node);
     if right_of s node \<noteq> 0 \<and> testTree (prop_of s (right_of s node)) then Some CompareGREATER
     else if testNode (data_of s node) then Some CompareEQUAL
     else do {
       aver (left_of s node \<noteq> 0);
       aver (testTree (prop_of s (left_of s node)));
       Some CompareLESS
     }
   }"

definition SplayFindFirst ::
  "('k, 'd, 'p) SplayTreeStruct \<Rightarrow> ('d \<Rightarrow> bool) \<Rightarrow> ('p \<Rightarrow> bool) \<Rightarrow> ('d, 'p) splay_heap \<Rightarrow>
    (nat option \<times> ('k, 'd, 'p) SplayTreeStruct \<times> ('d, 'p) splay_heap) option" where
  "SplayFindFirst tree testNode testTree s = do {
     aver (SplayTreeCheck tree);
     let node = root tree;
     if node = 0 \<or> \<not> testTree (prop_of s node) then Some (None, tree, s)
     else do {
       (found, node, tree, s) \<leftarrow> SplaySplay tree (SplayFindFirstCompare testNode testTree) s;
       Some (if found then Some node else None, tree, s)
     }
   }"

definition SplayFindLast ::
  "('k, 'd, 'p) SplayTreeStruct \<Rightarrow> ('d \<Rightarrow> bool) \<Rightarrow> ('p \<Rightarrow> bool) \<Rightarrow> ('d, 'p) splay_heap \<Rightarrow>
    (nat option \<times> ('k, 'd, 'p) SplayTreeStruct \<times> ('d, 'p) splay_heap) option" where
  "SplayFindLast tree testNode testTree s = do {
     aver (SplayTreeCheck tree);
     let node = root tree;
     if node = 0 \<or> \<not> testTree (prop_of s node) then Some (None, tree, s)
     else do {
       (found, node, tree, s) \<leftarrow> SplaySplay tree (SplayFindLastCompare testNode testTree) s;
       Some (if found then Some node else None, tree, s)
     }
   }"

definition SplayRoot :: "('k, 'd, 'p) SplayTreeStruct \<Rightarrow> nat option option" where
  "SplayRoot tree = do {
     aver (SplayTreeCheck tree);
     let node = root tree;
     Some (if node = 0 then None else Some node)
   }"

definition SplayNodeRefresh ::
  "('k, 'd, 'p) SplayTreeStruct \<Rightarrow> nat \<Rightarrow> 'k \<Rightarrow> ('d, 'p) splay_heap \<Rightarrow>
    (('k, 'd, 'p) SplayTreeStruct \<times> ('d, 'p) splay_heap) option" where
  "SplayNodeRefresh tree node k s = do {
     aver (SplayTreeCheck tree);
     aver (SplayNodeCheck node);
     (b, node2, tree, s) \<leftarrow> SplaySplay tree (SplayCompare tree k) s;
     aver b;
     aver (node = node2);
     s \<leftarrow> SplayNodeUpdate tree node s;
     Some (tree, s)
   }"

subsection \<open>Trees in the heap\<close>

fun is_tree :: "('d, 'p) splay_heap \<Rightarrow> nat \<Rightarrow> nat tree \<Rightarrow> bool" where
  "is_tree s p Leaf \<longleftrightarrow> p = 0"
| "is_tree s p (Node l n r) \<longleftrightarrow> p = n \<and> n \<noteq> 0 \<and> is_tree s (left_of s n) l \<and> is_tree s (right_of s n) r"

fun root_prop :: "('d, 'p) splay_heap \<Rightarrow> nat tree \<Rightarrow> 'p option" where
  "root_prop s Leaf = None"
| "root_prop s (Node l n r) = Some (prop_of s n)"

text \<open>Every node of the tree has the property that the callback would compute.\<close>

fun current :: "('d \<Rightarrow> 'p option \<Rightarrow> 'p option \<Rightarrow> 'p) option \<Rightarrow> ('d, 'p) splay_heap \<Rightarrow> nat tree \<Rightarrow> bool" where
  "current u s Leaf \<longleftrightarrow> True"
| "current u s (Node l n r) \<longleftrightarrow> current u s l \<and> current u s r \<and>
     (\<forall>g. u = Some g \<longrightarrow> prop_of s n = g (data_of s n) (root_prop s l) (root_prop s r))"

lemma is_tree_0 [simp]: "is_tree s 0 t \<longleftrightarrow> t = Leaf"
  by (cases t) auto

lemma is_tree_nonzero: "is_tree s p t \<Longrightarrow> p \<noteq> 0 \<Longrightarrow> \<exists>l r. t = Node l p r"
  by (cases t) auto

lemma is_tree_mem: "is_tree s p t \<Longrightarrow> p \<noteq> 0 \<Longrightarrow> p \<in> set_tree t"
  by (cases t) auto

lemma is_tree_cong:
  "(\<And>n. n \<in> set_tree t \<Longrightarrow> left_of s' n = left_of s n \<and> right_of s' n = right_of s n) \<Longrightarrow>
    is_tree s' p t = is_tree s p t"
  by (induction t arbitrary: p) auto

lemma root_prop_cong:
  "(\<And>n. n \<in> set_tree t \<Longrightarrow> prop_of s' n = prop_of s n) \<Longrightarrow> root_prop s' t = root_prop s t"
  by (cases t) auto

lemma current_cong:
  "(\<And>n. n \<in> set_tree t \<Longrightarrow> prop_of s' n = prop_of s n \<and> data_of s' n = data_of s n) \<Longrightarrow>
    current u s' t = current u s t"
proof (induction t)
  case (Node l n r)
  have "root_prop s' l = root_prop s l" "root_prop s' r = root_prop s r"
    using Node.prems by (auto intro!: root_prop_cong)
  with Node show ?case by auto
qed simp

lemma prop_at_tree: "is_tree s p t \<Longrightarrow> prop_at s p = root_prop s t"
  by (cases t) (auto simp: prop_at_def)

text \<open>What an operation leaves alone.\<close>

definition same_but :: "nat set \<Rightarrow> ('d, 'p) splay_heap \<Rightarrow> ('d, 'p) splay_heap \<Rightarrow> bool" where
  "same_but A s s' \<longleftrightarrow> data_of s' = data_of s \<and>
     (\<forall>n. n \<notin> A \<longrightarrow> left_of s' n = left_of s n \<and> right_of s' n = right_of s n \<and> prop_of s' n = prop_of s n)"

lemma same_but_refl [simp, intro]: "same_but A s s"
  by (simp add: same_but_def)

lemma same_but_trans: "same_but A s s' \<Longrightarrow> same_but B s' s'' \<Longrightarrow> A \<union> B \<subseteq> C \<Longrightarrow> same_but C s s''"
  unfolding same_but_def by (metis UnI1 UnI2 subsetD)

lemma same_but_mono: "same_but A s s' \<Longrightarrow> A \<subseteq> B \<Longrightarrow> same_but B s s'"
  unfolding same_but_def by blast

lemma same_but_tree:
  assumes "same_but A s s'" and "A \<inter> set_tree t = {}"
  shows "is_tree s' p t = is_tree s p t" and "current u s' t = current u s t" and "root_prop s' t = root_prop s t"
  using assms unfolding same_but_def
  by (auto intro!: is_tree_cong current_cong root_prop_cong)

subsection \<open>Reflection\<close>

text \<open>The code comes in pairs that exchange left and right; each pair is proved once.\<close>

fun mirc :: "Compare \<Rightarrow> Compare" where
  "mirc CompareLESS = CompareGREATER"
| "mirc CompareEQUAL = CompareEQUAL"
| "mirc CompareGREATER = CompareLESS"

definition mir :: "('d, 'p) splay_heap \<Rightarrow> ('d, 'p) splay_heap" where
  "mir s = s\<lparr>left_of := right_of s, right_of := left_of s\<rparr>"

definition miru :: "('d \<Rightarrow> 'p option \<Rightarrow> 'p option \<Rightarrow> 'p) option \<Rightarrow> ('d \<Rightarrow> 'p option \<Rightarrow> 'p option \<Rightarrow> 'p) option" where
  "miru u = map_option (\<lambda>g d a b. g d b a) u"

definition mirt :: "('k, 'd, 'p) SplayTreeStruct \<Rightarrow> ('k, 'd, 'p) SplayTreeStruct" where
  "mirt tree = tree\<lparr>compare := map_option (\<lambda>cmp k d. mirc (cmp k d)) (compare tree), updateNode := miru (updateNode tree)\<rparr>"

lemma mirc_mirc [simp]: "mirc (mirc c) = c"
  by (cases c) auto

lemma mirc_iff [simp]:
  "mirc c = CompareLESS \<longleftrightarrow> c = CompareGREATER" "mirc c = CompareEQUAL \<longleftrightarrow> c = CompareEQUAL"
  "mirc c = CompareGREATER \<longleftrightarrow> c = CompareLESS"
  by (cases c; simp)+

lemma mir_simps [simp]:
  "left_of (mir s) = right_of s" "right_of (mir s) = left_of s" "data_of (mir s) = data_of s"
  "prop_of (mir s) = prop_of s" "mir (mir s) = s" "prop_at (mir s) = prop_at s"
  "SplayNodeSetLeftChild n c (mir s) = mir (SplayNodeSetRightChild n c s)"
  "SplayNodeSetRightChild n c (mir s) = mir (SplayNodeSetLeftChild n c s)"
  by (simp_all add: mir_def prop_at_def fun_eq_iff SplayNodeSetLeftChild_def SplayNodeSetRightChild_def)

lemma miru_simps [simp]: "miru (miru u) = u" "miru u = None \<longleftrightarrow> u = None"
  by (cases u; simp add: miru_def)+

lemma mirt_simps [simp]:
  "root (mirt tree) = root tree" "updateNode (mirt tree) = miru (updateNode tree)"
  "SplayTreeCheck (mirt tree) = SplayTreeCheck tree" "(mirt tree)\<lparr>root := p\<rparr> = mirt (tree\<lparr>root := p\<rparr>)"
  by (simp_all add: mirt_def SplayTreeCheck_def)

lemma mirt_mirt [simp]: "mirt (mirt tree) = tree"
  by (cases tree) (simp add: mirt_def option.map_comp comp_def option.map_ident)

lemma is_tree_mir: "is_tree (mir s) p t = is_tree s p (mirror t)"
  by (induction t arbitrary: p) auto

lemma root_prop_mir [simp]: "root_prop (mir s) t = root_prop s t" "root_prop s (mirror t) = root_prop s t"
  by (cases t; simp)+

lemma current_mir: "current (miru u) (mir s) t = current u s (mirror t)"
  by (induction t) (cases u; auto simp: miru_def)+

lemma same_but_mir: "same_but A (mir s) (mir s') = same_but A s s'"
  by (auto simp: same_but_def)

lemma SplayNodeUpdate_mir: "SplayNodeUpdate (mirt tree) n (mir s) = map_option mir (SplayNodeUpdate tree n s)"
  by (cases "updateNode tree"; cases "SplayTreeCheck tree"; cases "SplayNodeCheck n")
    (simp_all add: SplayNodeUpdate_def miru_def prop_at_def mir_def)

lemma SplayLinkLeft_mir:
  "SplayLinkLeft top_node l s = map_option (\<lambda>(t, r, s). (t, r, mir s)) (SplayLinkRight top_node l (mir s))"
  by (cases "SplayNodeCheck top_node"; cases "SplayNodeCheck l"; cases "right_of s l = 0")
    (simp_all add: SplayLinkLeft_def SplayLinkRight_def Let_def)

lemma SplayRotateLeft_mir:
  "SplayRotateLeft tree n s = map_option (\<lambda>(t, s). (t, mir s)) (SplayRotateRight (mirt tree) n (mir s))"
  by (cases "SplayNodeCheck n"; cases "SplayNodeCheck (right_of s n)"; cases "SplayTreeCheck tree";
      cases "updateNode tree")
    (simp_all add: SplayRotateLeft_def SplayRotateRight_def Let_def SplayNodeUpdate_mir option.map_comp
      option.case_eq_if split: bind_splits)

lemma reverse_left_mir:
  "reverse_right l n p s = Some (a, b, s') \<Longrightarrow> reverse_left l n p (mir s) = Some (a, b, mir s')"
proof (induction l n p s "(a, b, s')" rule: reverse_right.raw_induct [rotated, consumes 1, case_names 1])
  case (1 f l n p s)
  then show ?case by (subst reverse_left.simps) (auto simp: Let_def split: if_splits)
qed

lemma restore_left_mir:
  "restore_right tree l n p s = Some s' \<Longrightarrow> restore_left (mirt tree) l n p (mir s) = Some (mir s')"
proof (induction tree l n p s s' rule: restore_right.raw_induct [rotated, consumes 1, case_names 1])
  case (1 f tree l n p s s')
  then show ?case
    by (subst restore_left.simps) (auto simp: Let_def SplayNodeUpdate_mir split: if_splits bind_splits)
qed

lemma SplayAssemble_right_mir:
  "SplayAssemble_left tree top_node t l s = Some s' \<Longrightarrow>
    SplayAssemble_right (mirt tree) top_node t l (mir s) = Some (mir s')"
  by (auto simp: SplayAssemble_left_def SplayAssemble_right_def Let_def SplayNodeUpdate_mir
      split: if_splits bind_splits dest!: reverse_left_mir restore_left_mir)

lemma SplaySplay_step_mir:
  "SplaySplay_step tree cmp CompareGREATER top_node l r s =
    map_option (\<lambda>(out, t, r, l, s). (out, t, l, r, mir s))
      (SplaySplay_step (mirt tree) (\<lambda>s n. map_option mirc (cmp (mir s) n)) CompareLESS top_node r l (mir s))"
proof (cases "right_of s top_node = 0")
  case False
  show ?thesis
  proof (cases "cmp s (right_of s top_node)")
    case (Some c)
    with False show ?thesis
      by (cases c) (auto simp: SplaySplay_step_def Let_def SplayLinkLeft_mir SplayRotateLeft_mir option.map_comp
        option.case_eq_if split: bind_splits)
  qed (use False in \<open>simp add: SplaySplay_step_def\<close>)
qed (simp add: SplaySplay_step_def)

subsection \<open>The side trees\<close>

text \<open>
  The left tree of a splay hangs from the right pointer of an address \<open>q\<close>: a list of nodes, each the
  right child of the one before, with their left subtrees, ending in \<open>last\<close>. The right tree is the
  same in the reflected heap.
\<close>

fun lspine :: "('d, 'p) splay_heap \<Rightarrow> nat \<Rightarrow> (nat tree \<times> nat) list \<Rightarrow> nat \<Rightarrow> bool" where
  "lspine s q [] z \<longleftrightarrow> z = q"
| "lspine s q ((l, n) # sp) z \<longleftrightarrow> right_of s q = n \<and> n \<noteq> 0 \<and> is_tree s (left_of s n) l \<and> lspine s n sp z"

fun spine_nodes :: "(nat tree \<times> nat) list \<Rightarrow> nat list" where
  "spine_nodes [] = []"
| "spine_nodes ((l, n) # sp) = inorder l @ n # spine_nodes sp"

fun spine_tree :: "(nat tree \<times> nat) list \<Rightarrow> nat tree \<Rightarrow> nat tree" where
  "spine_tree [] X = X"
| "spine_tree ((l, n) # sp) X = Node l n (spine_tree sp X)"

lemma spine_nodes_append [simp]: "spine_nodes (xs @ ys) = spine_nodes xs @ spine_nodes ys"
  by (induction xs rule: spine_nodes.induct) auto

lemma spine_tree_append [simp]: "spine_tree (xs @ ys) X = spine_tree xs (spine_tree ys X)"
  by (induction xs X rule: spine_tree.induct) auto

lemma inorder_spine_tree [simp]: "inorder (spine_tree sp X) = spine_nodes sp @ inorder X"
  by (induction sp X rule: spine_tree.induct) auto

lemma lspine_append:
  "lspine s q (xs @ ys) z \<longleftrightarrow> (\<exists>y. lspine s q xs y \<and> lspine s y ys z)"
  by (induction xs arbitrary: q) auto

lemma lspine_last_mem: "lspine s q sp z \<Longrightarrow> z = q \<and> sp = [] \<or> z \<in> set (spine_nodes sp)"
proof (induction sp arbitrary: q)
  case (Cons a sp)
  then show ?case by (cases a) fastforce
qed simp

lemma lspine_cong:
  assumes "lspine s q sp z" and "distinct (q # spine_nodes sp)"
    and "\<And>x. x \<in> set (spine_nodes sp) \<Longrightarrow> left_of s' x = left_of s x"
    and "\<And>x. x \<in> set (q # spine_nodes sp) \<Longrightarrow> x \<noteq> z \<Longrightarrow> right_of s' x = right_of s x"
  shows "lspine s' q sp z"
  using assms
proof (induction sp arbitrary: q)
  case (Cons a sp)
  obtain l n where a: "a = (l, n)" by fastforce
  have z: "z \<in> set (n # spine_nodes sp)" using lspine_last_mem [of s n sp z] Cons.prems(1) a by auto
  have "is_tree s' (left_of s' n) l"
  proof -
    have "is_tree s' (left_of s n) l = is_tree s (left_of s n) l"
      using Cons.prems(2-4) a z by (intro is_tree_cong) auto
    then show ?thesis using Cons.prems(1,3) a by simp
  qed
  moreover have "right_of s' q = n" using Cons.prems(1,2,4) a z by force
  moreover have "lspine s' n sp z" using Cons.prems a by (intro Cons.IH) auto
  ultimately show ?case using Cons.prems(1) a by simp
qed simp

lemma lspine_same_but:
  assumes "lspine s q sp z" and "same_but A s s'" and "A \<inter> set (q # spine_nodes sp) = {}"
  shows "lspine s' q sp z"
  using assms
proof (induction sp arbitrary: q)
  case (Cons a sp)
  obtain l n where a: "a = (l, n)" by fastforce
  have "is_tree s' (left_of s n) l = is_tree s (left_of s n) l"
    using Cons.prems(2,3) a by (intro same_but_tree) auto
  moreover have "left_of s' n = left_of s n" "right_of s' q = right_of s q"
    using Cons.prems(2,3) a by (auto simp: same_but_def)
  ultimately show ?case using Cons a by auto
qed simp

lemma spine_current_cong:
  assumes "\<forall>(l, n) \<in> set sp. current u s l" and "same_but A s s'" and "A \<inter> set (spine_nodes sp) = {}"
  shows "\<forall>(l, n) \<in> set sp. current u s' l"
  using assms(1,3)
proof (induction sp)
  case (Cons a sp)
  obtain l n where a: "a = (l, n)" by fastforce
  have "current u s' l = current u s l"
    using Cons.prems(2) a by (intro same_but_tree(2) [OF assms(2)]) auto
  then show ?case using Cons a by auto
qed simp

text \<open>The reversed part of a spine, from the last node back to the first.\<close>

fun rchain :: "('d, 'p) splay_heap \<Rightarrow> nat \<Rightarrow> (nat tree \<times> nat) list \<Rightarrow> bool" where
  "rchain s p [] \<longleftrightarrow> p = 0"
| "rchain s p ((l, n) # ps) \<longleftrightarrow> p = n \<and> n \<noteq> 0 \<and> is_tree s (left_of s n) l \<and> rchain s (right_of s n) ps"

lemma rchain_cong:
  "rchain s p ps \<Longrightarrow> (\<And>x. x \<in> set (spine_nodes ps) \<Longrightarrow> left_of s' x = left_of s x \<and> right_of s' x = right_of s x) \<Longrightarrow>
    rchain s' p ps"
proof (induction ps arbitrary: p)
  case (Cons a ps)
  obtain l n where a: "a = (l, n)" by fastforce
  have "is_tree s' (left_of s n) l = is_tree s (left_of s n) l"
    using Cons.prems(2) a by (intro is_tree_cong) auto
  then show ?case using Cons a by auto
qed simp

lemma reverse_right_ok:
  assumes "lspine s n sp z" and "n \<noteq> 0" and "is_tree s (left_of s n) l" and "rchain s p ps"
    and "distinct (spine_nodes ((l, n) # sp) @ spine_nodes ps)"
  shows "\<exists>p' l' qs s'. reverse_right z n p s = Some (z, p', s') \<and> rev ((l, n) # sp) = (l', z) # qs \<and>
    rchain s' p' (qs @ ps) \<and> is_tree s' (left_of s' z) l' \<and> right_of s' z = right_of s z \<and>
    same_but (set (spine_nodes ((l, n) # sp))) s s' \<and> left_of s' = left_of s \<and> prop_of s' = prop_of s"
  using assms
proof (induction sp arbitrary: l n p ps s)
  case Nil
  then show ?case by (subst reverse_right.simps) auto
next
  case (Cons a sp)
  obtain l2 n2 where a: "a = (l2, n2)" by fastforce
  define s1 where "s1 = SplayNodeSetRightChild n p s"
  have s1: "left_of s1 = left_of s" "prop_of s1 = prop_of s" "\<And>x. x \<noteq> n \<Longrightarrow> right_of s1 x = right_of s x"
    "right_of s1 n = p" "same_but {n} s s1"
    by (simp_all add: s1_def SplayNodeSetRightChild_def same_but_def)
  have nd: "n \<notin> set (inorder l2 @ n2 # spine_nodes sp)" "n \<notin> set (spine_nodes ps)" "n \<notin> set_tree l"
    using Cons.prems(5) a by auto
  have z: "z \<in> set (n2 # spine_nodes sp)" using lspine_last_mem [of s n2 sp z] Cons.prems(1) a by auto
  then have "n \<noteq> z" using nd by auto
  have "lspine s1 n2 sp z"
    using Cons.prems(1) a nd by (intro lspine_same_but [OF _ s1(5)]) auto
  moreover have "is_tree s1 (left_of s1 n2) l2"
    using Cons.prems(1) a nd same_but_tree(1) [OF s1(5), of l2] s1(1) by auto
  moreover have rc: "rchain s1 p ps"
  proof (rule rchain_cong [OF Cons.prems(4)])
    fix x assume "x \<in> set (spine_nodes ps)"
    then have "x \<noteq> n" using nd(2) by auto
    then show "left_of s1 x = left_of s x \<and> right_of s1 x = right_of s x" using s1(1,3) by simp
  qed
  moreover have "rchain s1 n ((l, n) # ps)"
    using Cons.prems(2-4) nd same_but_tree(1) [OF s1(5), of l] s1(1,4) rc by auto
  moreover have "distinct (spine_nodes ((l2, n2) # sp) @ spine_nodes ((l, n) # ps))"
    using Cons.prems(5) a by auto
  ultimately obtain p' l' qs s' where r: "reverse_right z n2 n s1 = Some (z, p', s')"
    "rev ((l2, n2) # sp) = (l', z) # qs" "rchain s' p' (qs @ (l, n) # ps)" "is_tree s' (left_of s' z) l'"
    "right_of s' z = right_of s1 z" "same_but (set (spine_nodes ((l2, n2) # sp))) s1 s'" "left_of s' = left_of s1"
    "prop_of s' = prop_of s1"
    using Cons.IH [of s1 n2 l2 n "(l, n) # ps"] Cons.prems(1) a by auto
  have "reverse_right z n p s = Some (z, p', s')"
    using r(1) \<open>n \<noteq> z\<close> Cons.prems(1) a by (subst reverse_right.simps) (simp add: s1_def)
  moreover have "rev ((l, n) # a # sp) = (l', z) # qs @ [(l, n)]" using r(2) a by simp
  moreover have "same_but (set (spine_nodes ((l, n) # a # sp))) s s'"
    using a by (intro same_but_trans [OF s1(5) r(6)]) auto
  moreover have "right_of s' z = right_of s z" using r(5) s1(3) \<open>n \<noteq> z\<close> by simp
  ultimately show ?case using r(3,4,7,8) s1(1,2) by auto
qed

lemma SplayNodeUpdate_ok:
  assumes "SplayTreeCheck tree" and "updateNode tree = Some g" and "n \<noteq> 0"
    and "is_tree s (left_of s n) l" and "is_tree s (right_of s n) r"
    and "current (Some g) s l" and "current (Some g) s r" and "n \<notin> set_tree l \<union> set_tree r"
  shows "\<exists>s'. SplayNodeUpdate tree n s = Some s' \<and> is_tree s' n (Node l n r) \<and> current (Some g) s' (Node l n r) \<and>
    same_but {n} s s' \<and> left_of s' = left_of s \<and> right_of s' = right_of s"
proof -
  define s' where "s' = s\<lparr>prop_of := (prop_of s)(n := g (data_of s n) (root_prop s l) (root_prop s r))\<rparr>"
  have sb: "same_but {n} s s'" by (simp add: s'_def same_but_def)
  have "SplayNodeUpdate tree n s = Some s'"
    using assms(1-3) prop_at_tree [OF assms(4)] prop_at_tree [OF assms(5)]
    by (simp add: SplayNodeUpdate_def SplayNodeCheck_def s'_def)
  moreover have eq: "left_of s' = left_of s" "right_of s' = right_of s" by (simp_all add: s'_def)
  moreover have "is_tree s' n (Node l n r)"
    using assms(3-5,8) same_but_tree(1) [OF sb, of l] same_but_tree(1) [OF sb, of r] eq by simp
  moreover have "current (Some g) s' (Node l n r)"
    using assms(6-8) same_but_tree(2,3) [OF sb, of l] same_but_tree(2,3) [OF sb, of r] by (simp add: s'_def)
  ultimately show ?thesis using sb by blast
qed

lemma restore_right_ok:
  assumes t: "SplayTreeCheck tree" "updateNode tree = Some g"
    and "rchain s p ps" and "is_tree s n Y" and "n \<noteq> 0" and "current (Some g) s Y"
    and "\<forall>(l, m) \<in> set ps. current (Some g) s l" and "distinct (spine_nodes (rev ps) @ inorder Y)"
    and "z = (if ps = [] then n else snd (last ps))"
  shows "\<exists>s'. restore_right tree z n p s = Some s' \<and> is_tree s' z (spine_tree (rev ps) Y) \<and>
    current (Some g) s' (spine_tree (rev ps) Y) \<and> same_but (set (spine_nodes (rev ps))) s s' \<and> left_of s' = left_of s"
  using assms(3-)
proof (induction ps arbitrary: s n p Y)
  case Nil
  then show ?case by (subst restore_right.simps) auto
next
  case (Cons a ps)
  obtain l m where a: "a = (l, m)" by fastforce
  have pm: "p = m" "m \<noteq> 0" and tl: "is_tree s (left_of s m) l" and rc: "rchain s (right_of s m) ps"
    using Cons.prems(1) a by auto
  have dist: "m \<notin> set_tree l" "m \<notin> set_tree Y" "m \<notin> set (spine_nodes (rev ps))" "set_tree l \<inter> set_tree Y = {}"
    "distinct (spine_nodes (rev ps) @ inorder (Node l m Y))"
    using Cons.prems(6) a by auto
  have nY: "n \<in> set_tree Y" using is_tree_mem [OF Cons.prems(2,3)] .
  have zn: "z \<noteq> n"
  proof
    assume "z = n"
    moreover have "z \<in> set (spine_nodes (rev (a # ps)))"
    proof -
      have "\<exists>l'. last (a # ps) = (l', z)" using Cons.prems(7) by (metis list.discI prod.collapse)
      then obtain l' where "(l', z) \<in> set (a # ps)" by (metis last_in_set list.discI)
      then obtain xs ys where "a # ps = xs @ (l', z) # ys" by (meson split_list)
      then show ?thesis by simp
    qed
    ultimately show False using nY Cons.prems(6) by auto
  qed
  define s1 where "s1 = SplayNodeSetRightChild m n s"
  have s1: "same_but {m} s s1" "left_of s1 = left_of s" "right_of s1 m = n" "prop_of s1 = prop_of s"
    "\<And>x. x \<noteq> m \<Longrightarrow> right_of s1 x = right_of s x"
    by (simp_all add: s1_def SplayNodeSetRightChild_def same_but_def)
  have "is_tree s1 (left_of s1 m) l" "is_tree s1 (right_of s1 m) Y" "current (Some g) s1 l" "current (Some g) s1 Y"
    using tl Cons.prems(2,4,5) dist a s1(2,3) same_but_tree(1,2) [OF s1(1), of l] same_but_tree(1,2) [OF s1(1), of Y]
    by auto
  from SplayNodeUpdate_ok [OF t pm(2) this] obtain s2 where s2: "SplayNodeUpdate tree m s1 = Some s2"
    "is_tree s2 m (Node l m Y)" "current (Some g) s2 (Node l m Y)" "same_but {m} s1 s2" "left_of s2 = left_of s1"
    "right_of s2 = right_of s1"
    using dist by auto
  have sb: "same_but {m} s s2" by (rule same_but_trans [OF s1(1) s2(4)]) simp
  have rc2: "rchain s2 (right_of s m) ps"
  proof (rule rchain_cong [OF rc])
    fix x assume x: "x \<in> set (spine_nodes ps)"
    have "set (spine_nodes (rev ps)) = set (spine_nodes ps)" by (induction ps rule: spine_nodes.induct) auto
    with x dist have "x \<noteq> m" by auto
    then show "left_of s2 x = left_of s x \<and> right_of s2 x = right_of s x" using s2(5,6) s1 by simp
  qed
  have cur: "\<forall>(l, m) \<in> set ps. current (Some g) s2 l"
  proof -
    have "\<forall>(l, m) \<in> set (rev ps). current (Some g) s2 l"
      using Cons.prems(5) dist by (intro spine_current_cong [OF _ sb]) auto
    then show ?thesis by simp
  qed
  have z: "z = (if ps = [] then m else snd (last ps))" using Cons.prems(7) a by simp
  obtain s' where s': "restore_right tree z m (right_of s m) s2 = Some s'"
    "is_tree s' z (spine_tree (rev ps) (Node l m Y))" "current (Some g) s' (spine_tree (rev ps) (Node l m Y))"
    "same_but (set (spine_nodes (rev ps))) s2 s'" "left_of s' = left_of s2"
    using Cons.IH [OF rc2 s2(2) pm(2) s2(3) cur dist(5) z] by blast
  have "restore_right tree z n p s = Some s'"
    using zn s2(1) s'(1) pm by (subst restore_right.simps) (simp add: s1_def)
  moreover have "same_but (set (spine_nodes (rev (a # ps)))) s s'"
    using a by (intro same_but_trans [OF sb s'(4)]) auto
  ultimately show ?case using s'(2,3,5) s2(5) s1(2) a by auto
qed

lemma current_None [simp]: "current None s t"
  by (induction t) auto

lemma lspine_tree:
  "lspine s q sp z \<Longrightarrow> is_tree s (right_of s z) X \<Longrightarrow> is_tree s (right_of s q) (spine_tree sp X)"
proof (induction sp arbitrary: q)
  case (Cons a sp)
  then show ?case by (cases a) auto
qed simp

lemma SplayAssemble_left_ok:
  assumes t: "SplayTreeCheck tree" and sp: "lspine s sides sp z" and rz: "right_of s z = 0"
    and top: "top_node \<noteq> 0" "top_node \<noteq> sides" "is_tree s (left_of s top_node) X"
    and dist: "distinct (spine_nodes sp @ inorder X)" "top_node \<notin> set (spine_nodes sp @ inorder X)"
      "sides \<notin> set (spine_nodes sp @ inorder X)"
    and cur: "current (updateNode tree) s X" "\<forall>(l, n) \<in> set sp. current (updateNode tree) s l"
  shows "\<exists>s'. SplayAssemble_left tree top_node (right_of s sides) z s = Some s' \<and>
    is_tree s' (left_of s' top_node) (spine_tree sp X) \<and> current (updateNode tree) s' (spine_tree sp X) \<and>
    same_but (set (spine_nodes sp) \<union> {top_node}) s s' \<and> right_of s' top_node = right_of s top_node"
proof (cases sp)
  case Nil
  then show ?thesis using sp rz top cur by (auto simp: SplayAssemble_left_def)
next
  case (Cons a sp')
  obtain l n where a: "a = (l, n)" by fastforce
  have n: "right_of s sides = n" "n \<noteq> 0" "is_tree s (left_of s n) l" "lspine s n sp' z"
    using sp Cons a by auto
  have zin: "z \<in> set (n # spine_nodes sp')" using lspine_last_mem [OF n(4)] by auto
  define s1 where "s1 = SplayNodeSetRightChild z (left_of s top_node) s"
  define s2 where "s2 = SplayNodeSetLeftChild top_node n s1"
  have zt: "z \<noteq> top_node" "z \<noteq> sides" using zin dist(2,3) Cons a by auto
  have s2: "same_but {z, top_node} s s2" "left_of s2 top_node = n" "right_of s2 z = left_of s top_node"
    "prop_of s2 = prop_of s" "right_of s2 top_node = right_of s top_node"
    "\<And>x. x \<noteq> z \<Longrightarrow> right_of s2 x = right_of s x" "\<And>x. x \<noteq> top_node \<Longrightarrow> left_of s2 x = left_of s x"
    using zt by (auto simp: s2_def s1_def SplayNodeSetRightChild_def SplayNodeSetLeftChild_def same_but_def)
  have zX: "z \<notin> set_tree X" using zin dist(1) Cons a by auto
  have sp2: "lspine s2 sides sp z"
  proof (rule lspine_cong [OF sp])
    show "distinct (sides # spine_nodes sp)" using dist by auto
    show "left_of s2 x = left_of s x" if "x \<in> set (spine_nodes sp)" for x
      using that dist(2) s2(7) [of x] by fastforce
    show "right_of s2 x = right_of s x" if "x \<noteq> z" for x using that s2(6) by simp
  qed
  have X2: "is_tree s2 (right_of s2 z) X" "current (updateNode tree) s2 X"
    using top(3) cur(1) same_but_tree(1,2) [OF s2(1), of X] s2(3) zX dist(2) by auto
  have cur2: "\<forall>(l, n) \<in> set sp. current (updateNode tree) s2 l"
  proof -
    have "current (updateNode tree) s2 l" if "(l, n) \<in> set sp" for l n
    proof -
      have "current (updateNode tree) s2 l = current (updateNode tree) s l"
        using s2(1,4) by (intro current_cong) (simp add: same_but_def)
      then show ?thesis using cur(2) that by auto
    qed
    then show ?thesis by auto
  qed
  have sb0: "same_but (set (spine_nodes sp) \<union> {top_node}) s s2"
    by (rule same_but_mono [OF s2(1)]) (use zin Cons a in auto)
  show ?thesis
  proof (cases "updateNode tree")
    case None
    have "right_of s2 sides = n" using s2(6) zt(2) n(1) by simp
    then have "is_tree s2 n (spine_tree sp X)" using lspine_tree [OF sp2 X2(1)] by simp
    then show ?thesis
      using None n(1,2) sb0 s2(2,5) by (auto simp: SplayAssemble_left_def Let_def simp flip: s1_def s2_def)
  next
    case (Some g)
    have n2: "lspine s2 n sp' z" "is_tree s2 (left_of s2 n) l" using sp2 Cons a s2(6) zt(2) n(1) by auto
    have "rchain s2 0 []" "distinct (spine_nodes ((l, n) # sp') @ spine_nodes [])"
      using dist(1) Cons a by (auto simp: Int_Un_distrib)
    from reverse_right_ok [OF n2(1) n(2) n2(2) this] obtain p' l' qs s3 where
      r: "reverse_right z n 0 s2 = Some (z, p', s3)" "rev ((l, n) # sp') = (l', z) # qs" "rchain s3 p' qs"
      "is_tree s3 (left_of s3 z) l'" "right_of s3 z = right_of s2 z"
      "same_but (set (spine_nodes ((l, n) # sp'))) s2 s3" "left_of s3 = left_of s2" "prop_of s3 = prop_of s2"
      by auto
    have spq: "sp = rev qs @ [(l', z)]" using r(2) Cons a by (metis rev.simps(2) rev_rev_ident)
    have cur3: "current (Some g) s3 t = current (Some g) s2 t" for t
      using r(6,8) by (intro current_cong) (simp add: same_but_def)
    have X3: "is_tree s3 (right_of s3 z) X" "current (Some g) s3 X"
      using X2 same_but_tree(1) [OF r(6), of X] r(5) dist(1) Cons a Some by (auto simp: cur3 Int_Un_distrib2)
    have "\<forall>(l, m) \<in> set (rev qs @ [(l', z)]). current (Some g) s3 l"
      using cur2 Some unfolding spq [symmetric] cur3 by simp
    then have Y3: "current (Some g) s3 l'" "\<forall>(l, m) \<in> set qs. current (Some g) s3 l" by simp_all
    have z0: "z \<noteq> 0" "z \<notin> set_tree l' \<union> set_tree X"
      "distinct (spine_nodes (rev qs) @ inorder (Node l' z X))"
      using r(2) dist(1) lspine_last_mem spq zX is_tree_mem sp2
      by (auto simp: spq lspine_append)
    obtain s4 where s4: "SplayNodeUpdate tree z s3 = Some s4" "is_tree s4 z (Node l' z X)"
      "current (Some g) s4 (Node l' z X)" "same_but {z} s3 s4" "left_of s4 = left_of s3" "right_of s4 = right_of s3"
      using SplayNodeUpdate_ok [OF t Some z0(1) r(4) X3(1) Y3(1) X3(2) z0(2)] by blast
    have zq: "z \<notin> set (spine_nodes (rev qs))" using z0(3) by auto
    have sq: "set (spine_nodes qs) = set (spine_nodes (rev qs))" for qs :: "(nat tree \<times> nat) list"
      by (induction qs rule: spine_nodes.induct) auto
    have rc4: "rchain s4 p' qs"
      using s4(5,6) by (intro rchain_cong [OF r(3)]) simp
    have "\<forall>(l, m) \<in> set (rev qs). current (Some g) s4 l"
      using Y3(2) zq by (intro spine_current_cong [OF _ s4(4)]) auto
    then have cur4: "\<forall>(l, m) \<in> set qs. current (Some g) s4 l" by simp
    have nz: "n = (if qs = [] then z else snd (last qs))"
    proof -
      have "hd (rev qs @ [(l', z)]) = (l, n)" using spq Cons a by (metis list.sel(1))
      then show ?thesis by (cases qs rule: rev_cases) auto
    qed
    obtain s5 where s5: "restore_right tree n z p' s4 = Some s5" "is_tree s5 n (spine_tree (rev qs) (Node l' z X))"
      "current (Some g) s5 (spine_tree (rev qs) (Node l' z X))" "same_but (set (spine_nodes (rev qs))) s4 s5"
      "left_of s5 = left_of s4"
      using restore_right_ok [OF t Some rc4 s4(2) z0(1) s4(3) cur4 z0(3) nz] by blast
    have tr: "spine_tree (rev qs) (Node l' z X) = spine_tree sp X" by (simp add: spq)
    have "SplayAssemble_left tree top_node (right_of s sides) z s = Some s5"
      using Some n(1,2) r(1) s4(1) s5(1) by (simp add: SplayAssemble_left_def Let_def flip: s1_def s2_def)
    moreover have l5: "left_of s5 top_node = n" using s5(5) s4(5) r(7) s2(2) by simp
    moreover have sub: "set (spine_nodes ((l, n) # sp')) = set (spine_nodes sp)" using Cons a by simp
    have "same_but (set (spine_nodes sp) \<union> {top_node}) s s5"
    proof (rule same_but_trans [OF sb0])
      have "same_but (set (spine_nodes sp)) s2 s4"
        by (rule same_but_trans [OF r(6) s4(4)]) (use sub spq in auto)
      then show "same_but (set (spine_nodes sp)) s2 s5"
        by (rule same_but_trans [OF _ s5(4)]) (use spq in auto)
    qed simp
    moreover have "right_of s5 top_node = right_of s top_node"
    proof -
      have "top_node \<notin> set (spine_nodes (rev qs))" "top_node \<notin> set (spine_nodes ((l, n) # sp'))"
        using dist(2) spq sub by auto
      then have "right_of s5 top_node = right_of s2 top_node"
        using s5(4) s4(6) r(6) by (auto simp: same_but_def)
      then show ?thesis using s2(5) by simp
    qed
    ultimately show ?thesis using s5(2,3) Some tr by simp
  qed
qed

subsection \<open>The invariant of the splay loop\<close>

text \<open>
  \<open>c\<close> classifies the nodes as the comparison with the key does: \<open>CompareGREATER\<close> for the nodes before
  the one that is looked for, \<open>CompareEQUAL\<close> for that node and \<open>CompareLESS\<close> for the nodes after it.
\<close>

definition precedes :: "(nat \<Rightarrow> Compare) \<Rightarrow> nat \<Rightarrow> nat \<Rightarrow> bool" where
  "precedes c x y \<longleftrightarrow> c x = CompareGREATER \<or> c y = CompareLESS"

definition classified :: "(nat \<Rightarrow> Compare) \<Rightarrow> nat list \<Rightarrow> bool" where
  "classified c xs \<longleftrightarrow> sorted_wrt (precedes c) xs \<and> distinct xs \<and> 0 \<notin> set xs \<and> sides \<notin> set xs"

fun good :: "('d \<Rightarrow> 'p option \<Rightarrow> 'p option \<Rightarrow> 'p) option \<Rightarrow> (nat \<Rightarrow> Compare) \<Rightarrow> ('d, 'p) splay_heap \<Rightarrow> nat tree \<Rightarrow> bool" where
  "good u c s Leaf \<longleftrightarrow> True"
| "good u c s (Node l n r) \<longleftrightarrow>
     (if c n = CompareLESS then good u c s l else current u s l) \<and>
     (if c n = CompareGREATER then good u c s r else current u s r)"

fun kids :: "('d \<Rightarrow> 'p option \<Rightarrow> 'p option \<Rightarrow> 'p) option \<Rightarrow> ('d, 'p) splay_heap \<Rightarrow> nat tree \<Rightarrow> bool" where
  "kids u s Leaf \<longleftrightarrow> True"
| "kids u s (Node l n r) \<longleftrightarrow> current u s l \<and> current u s r"

lemma current_good: "current u s t \<Longrightarrow> good u c s t"
  by (induction t) auto

lemma current_kids: "current u s t \<Longrightarrow> kids u s t"
  by (cases t) auto

lemma good_cong:
  "(\<And>n. n \<in> set_tree t \<Longrightarrow> prop_of s' n = prop_of s n \<and> data_of s' n = data_of s n) \<Longrightarrow> good u c s' t = good u c s t"
proof (induction t)
  case (Node l n r)
  have "current u s' l = current u s l" "current u s' r = current u s r"
    using Node.prems by (auto intro!: current_cong)
  with Node show ?case by auto
qed simp

lemma kids_cong:
  "(\<And>n. n \<in> set_tree t \<Longrightarrow> prop_of s' n = prop_of s n \<and> data_of s' n = data_of s n) \<Longrightarrow> kids u s' t = kids u s t"
proof (cases t)
  case (Node l n r)
  assume *: "\<And>n. n \<in> set_tree t \<Longrightarrow> prop_of s' n = prop_of s n \<and> data_of s' n = data_of s n"
  have "current u s' l = current u s l" "current u s' r = current u s r"
    using * Node by (auto intro!: current_cong)
  with Node show ?thesis by auto
qed simp

lemma good_mir: "good (miru u) (mirc \<circ> c) (mir s) (mirror t) = good u c s t"
  by (induction t) (auto simp: current_mir)

lemma kids_mir: "kids (miru u) (mir s) (mirror t) = kids u s t"
  by (cases t) (auto simp: current_mir)

lemma classified_rev: "classified (mirc \<circ> c) (rev xs) = classified c xs"
proof -
  have "(\<lambda>x y. precedes (mirc \<circ> c) y x) = precedes c" by (auto simp: precedes_def fun_eq_iff)
  then show ?thesis by (simp add: classified_def sorted_wrt_rev)
qed

text \<open>
  What the loop asks of the comparison: it agrees with \<open>c\<close> at the root of any subtree that no node
  looked for lies outside of. \<open>U\<close> tells whether it may read the client properties of the children.
\<close>

definition cmp_ok ::
  "('d \<Rightarrow> 'p option \<Rightarrow> 'p option \<Rightarrow> 'p) option \<Rightarrow> bool \<Rightarrow> (nat \<Rightarrow> Compare) \<Rightarrow> (nat \<Rightarrow> 'd) \<Rightarrow> nat list \<Rightarrow>
    (('d, 'p) splay_heap \<Rightarrow> nat \<Rightarrow> Compare option) \<Rightarrow> bool" where
  "cmp_ok u U c d xs cmp \<longleftrightarrow> (\<forall>s p t as bs. is_tree s p t \<and> p \<noteq> 0 \<and> (U \<longrightarrow> kids u s t) \<and> data_of s = d \<and>
     xs = as @ inorder t @ bs \<and> (\<forall>x \<in> set as. c x = CompareGREATER) \<and> (\<forall>x \<in> set bs. c x = CompareLESS) \<longrightarrow>
     cmp s p = Some (c p))"

lemma cmp_okD:
  "cmp_ok u U c d xs cmp \<Longrightarrow> is_tree s p t \<Longrightarrow> p \<noteq> 0 \<Longrightarrow> (U \<Longrightarrow> kids u s t) \<Longrightarrow> data_of s = d \<Longrightarrow>
    xs = as @ inorder t @ bs \<Longrightarrow> \<forall>x \<in> set as. c x = CompareGREATER \<Longrightarrow> \<forall>x \<in> set bs. c x = CompareLESS \<Longrightarrow>
    cmp s p = Some (c p)"
  unfolding cmp_ok_def by blast

lemma cmp_ok_mir:
  assumes "cmp_ok u U c d xs cmp"
  shows "cmp_ok (miru u) U (mirc \<circ> c) d (rev xs) (\<lambda>s n. map_option mirc (cmp (mir s) n))"
  unfolding cmp_ok_def
proof (intro allI impI)
  fix s :: "('a, 'b) splay_heap" and p t as bs
  assume a: "is_tree s p t \<and> p \<noteq> 0 \<and> (U \<longrightarrow> kids (miru u) s t) \<and> data_of s = d \<and> rev xs = as @ inorder t @ bs \<and>
    (\<forall>x \<in> set as. (mirc \<circ> c) x = CompareGREATER) \<and> (\<forall>x \<in> set bs. (mirc \<circ> c) x = CompareLESS)"
  then have "xs = rev bs @ inorder (mirror t) @ rev as"
    by (metis append.assoc inorder_mirror rev_append rev_rev_ident)
  moreover have "kids u (mir s) (mirror t) = kids (miru u) s t" using kids_mir [of "miru u" s t] by simp
  ultimately have "cmp (mir s) p = Some (c p)"
    using a by (intro cmp_okD [OF assms, of "mir s" p "mirror t"]) (auto simp: is_tree_mir)
  then show "map_option mirc (cmp (mir s) p) = Some ((mirc \<circ> c) p)" by simp
qed

definition splay_inv ::
  "('d \<Rightarrow> 'p option \<Rightarrow> 'p option \<Rightarrow> 'p) option \<Rightarrow> bool \<Rightarrow> (nat \<Rightarrow> Compare) \<Rightarrow> nat list \<Rightarrow> ('d, 'p) splay_heap \<Rightarrow>
    nat \<Rightarrow> nat tree \<Rightarrow> (nat tree \<times> nat) list \<Rightarrow> nat \<Rightarrow> (nat tree \<times> nat) list \<Rightarrow> nat \<Rightarrow> bool" where
  "splay_inv u U c xs s p t spl ll spr rf \<longleftrightarrow>
     xs = spine_nodes spl @ inorder t @ rev (spine_nodes spr) \<and> is_tree s p t \<and> p \<noteq> 0 \<and>
     lspine s sides spl ll \<and> right_of s ll = 0 \<and> lspine (mir s) sides spr rf \<and> left_of s rf = 0 \<and>
     (\<forall>(l, n) \<in> set spl. current u s l) \<and> (\<forall>(l, n) \<in> set spr. current (miru u) (mir s) l) \<and>
     good u c s t \<and> (U \<longrightarrow> kids u s t) \<and>
     (\<forall>x \<in> set (spine_nodes spl). c x = CompareGREATER) \<and> (\<forall>x \<in> set (spine_nodes spr). c x = CompareLESS)"

lemma splay_inv_mir:
  "splay_inv (miru u) U (mirc \<circ> c) (rev xs) (mir s) p (mirror t) spr rf spl ll =
    splay_inv u U c xs s p t spl ll spr rf"
proof -
  have "rev xs = spine_nodes spr @ inorder (mirror t) @ rev (spine_nodes spl) \<longleftrightarrow>
    xs = spine_nodes spl @ inorder t @ rev (spine_nodes spr)"
    by (metis append.assoc inorder_mirror rev_append rev_rev_ident)
  moreover have "is_tree (mir s) p (mirror t) = is_tree s p t" by (simp add: is_tree_mir)
  ultimately show ?thesis
    unfolding splay_inv_def by (auto simp: good_mir kids_mir)
qed

lemma inorder_mirror_rev [simp]: "inorder (mirror t) = rev (inorder t)"
  by (simp add: inorder_mirror)

lemma link_right_inv:
  assumes cl: "classified c xs" and inv: "splay_inv u U c xs s p (Node l n r) spl ll spr rf"
    and c: "c n = CompareLESS" and l: "l \<noteq> Leaf" and cur: "U \<Longrightarrow> kids u s l"
  shows "\<exists>s'. SplayLinkRight p rf s = Some (left_of s p, p, s') \<and>
    splay_inv u U c xs s' (left_of s p) l spl ll (spr @ [(mirror r, p)]) p \<and> same_but (set xs \<union> {sides}) s s'"
proof -
  note i = inv [unfolded splay_inv_def]
  define s' where "s' = SplayNodeSetLeftChild p 0 (SplayNodeSetLeftChild rf p s)"
  have p: "p = n" "n \<noteq> 0" "is_tree s (left_of s n) l" "is_tree s (right_of s n) r" using i by auto
  have dist: "distinct (spine_nodes spl @ inorder l @ n # inorder r @ rev (spine_nodes spr))"
    "sides \<notin> set (spine_nodes spl @ inorder l @ n # inorder r @ rev (spine_nodes spr))"
    using cl i by (auto simp: classified_def)
  have lspr: "lspine (mir s) sides spr rf" and lspl: "lspine s sides spl ll" using i by auto
  have rf: "rf \<in> set (sides # spine_nodes spr)" using lspine_last_mem [OF lspr] by auto
  have "0 \<notin> set xs" using cl by (simp add: classified_def)
  then have "0 \<notin> set (sides # spine_nodes spr)" using i by (auto simp: sides_def)
  then have rf0: "rf \<noteq> 0" using rf by metis
  have rfn: "rf \<noteq> n" "rf \<notin> set_tree l" "rf \<notin> set_tree r" "rf \<notin> set (spine_nodes spl)" using rf dist by auto
  have s': "right_of s' = right_of s" "prop_of s' = prop_of s" "data_of s' = data_of s" "left_of s' n = 0" "left_of s' rf = n"
    "\<And>x. x \<noteq> n \<Longrightarrow> x \<noteq> rf \<Longrightarrow> left_of s' x = left_of s x"
    using rfn(1) p(1) by (simp_all add: s'_def SplayNodeSetLeftChild_def)
  have tl: "is_tree s' (left_of s n) l" "is_tree s' (right_of s n) r"
  proof -
    have "is_tree s' q t = is_tree s q t" if "n \<notin> set_tree t" "rf \<notin> set_tree t" for q t
      using that s'(1,6) by (intro is_tree_cong) (metis)
    then show "is_tree s' (left_of s n) l" "is_tree s' (right_of s n) r" using p dist rfn by auto
  qed
  have cur': "current v s' t = current v s t" "kids v s' t = kids v s t" "good v c s' t = good v c s t"
    "current v (mir s') t = current v (mir s) t" for v t
    using s'(2,3) by (auto intro!: current_cong kids_cong good_cong)
  have lr: "\<forall>x \<in> set (inorder r @ rev (spine_nodes spr)). c x = CompareLESS"
    using cl c i by (auto simp: classified_def sorted_wrt_append precedes_def)
  have L: "lspine s' sides spl ll"
  proof (rule lspine_cong [OF lspl])
    show "distinct (sides # spine_nodes spl)" using dist by auto
    show "left_of s' x = left_of s x" if "x \<in> set (spine_nodes spl)" for x
      using that rfn(4) dist(1) s'(6) [of x] by fastforce
    show "right_of s' x = right_of s x" for x using s'(1) by simp
  qed
  have R: "lspine (mir s') sides spr rf"
  proof (rule lspine_cong [OF lspr])
    show "distinct (sides # spine_nodes spr)" using dist by auto
    show "left_of (mir s') x = left_of (mir s) x" for x using s'(1) by simp
    show "right_of (mir s') x = right_of (mir s) x" if "x \<in> set (sides # spine_nodes spr)" "x \<noteq> rf" for x
    proof -
      have "x \<noteq> n" using that dist by auto
      then show ?thesis using that(2) s'(6) by simp
    qed
  qed
  have R': "lspine (mir s') sides (spr @ [(mirror r, n)]) n"
    unfolding lspine_append using R s'(1,5) tl(2) p(2) by (auto simp: is_tree_mir)
  have cr: "current (miru u) (mir s) (mirror r)" using i c by (simp add: current_mir)
  have "splay_inv u U c xs s' (left_of s n) l spl ll (spr @ [(mirror r, n)]) n"
    unfolding splay_inv_def
  proof (intro conjI)
    show "xs = spine_nodes spl @ inorder l @ rev (spine_nodes (spr @ [(mirror r, n)]))" using i by simp
    show "left_of s n \<noteq> 0" using p(3) l by (cases l) auto
    show "is_tree s' (left_of s n) l" by (rule tl)
    show "lspine s' sides spl ll" by (rule L)
    show "right_of s' ll = 0" using i s'(1) by simp
    show "lspine (mir s') sides (spr @ [(mirror r, n)]) n" by (rule R')
    show "left_of s' n = 0" by (rule s'(4))
    show "\<forall>(l, n) \<in> set spl. current u s' l" using i unfolding cur' by auto
    show "\<forall>(l, n) \<in> set (spr @ [(mirror r, n)]). current (miru u) (mir s') l" using i cr unfolding cur' by auto
    show "good u c s' l" using i c unfolding cur' by simp
    show "U \<longrightarrow> kids u s' l" using cur unfolding cur' by simp
    show "\<forall>x \<in> set (spine_nodes spl). c x = CompareGREATER" using i by simp
    show "\<forall>x \<in> set (spine_nodes (spr @ [(mirror r, n)])). c x = CompareLESS" using lr c by auto
  qed
  moreover have "left_of s rf = 0" using i by simp
  then have "SplayLinkRight p rf s = Some (left_of s p, p, s')"
    using p(1,2) rf0 rfn(1) by (simp add: SplayLinkRight_def SplayNodeCheck_def s'_def Let_def)
      (simp add: SplayNodeSetLeftChild_def)
  moreover have "same_but (set xs \<union> {sides}) s s'"
    using s' rf i by (auto simp: same_but_def)
  ultimately show ?thesis using p(1) by blast
qed

lemma mirror_Leaf_iff [simp]: "mirror t = Leaf \<longleftrightarrow> t = Leaf"
  by (cases t) auto

lemma link_left_inv:
  assumes cl: "classified c xs" and inv: "splay_inv u U c xs s p (Node l n r) spl ll spr rf"
    and c: "c n = CompareGREATER" and r: "r \<noteq> Leaf" and cur: "U \<Longrightarrow> kids u s r"
  shows "\<exists>s'. SplayLinkLeft p ll s = Some (right_of s p, p, s') \<and>
    splay_inv u U c xs s' (right_of s p) r (spl @ [(l, p)]) p spr rf \<and> same_but (set xs \<union> {sides}) s s'"
proof -
  have "classified (mirc \<circ> c) (rev xs)" using cl by (simp add: classified_rev)
  moreover have "splay_inv (miru u) U (mirc \<circ> c) (rev xs) (mir s) p (Node (mirror r) n (mirror l)) spr rf spl ll"
    using inv splay_inv_mir [of u U c xs s p "Node l n r" spr rf spl ll] by simp
  ultimately have "\<exists>s'. SplayLinkRight p ll (mir s) = Some (left_of (mir s) p, p, s') \<and>
    splay_inv (miru u) U (mirc \<circ> c) (rev xs) s' (left_of (mir s) p) (mirror r) spr rf (spl @ [(mirror (mirror l), p)]) p \<and>
    same_but (set (rev xs) \<union> {sides}) (mir s) s'"
    by (rule link_right_inv) (use c r cur in \<open>auto simp: kids_mir\<close>)
  then obtain s' where s': "SplayLinkRight p ll (mir s) = Some (right_of s p, p, s')"
    "splay_inv (miru u) U (mirc \<circ> c) (rev xs) s' (right_of s p) (mirror r) spr rf (spl @ [(l, p)]) p"
    "same_but (set xs \<union> {sides}) (mir s) s'"
    by auto
  have "SplayLinkLeft p ll s = Some (right_of s p, p, mir s')" by (simp add: SplayLinkLeft_mir s'(1))
  moreover have "splay_inv u U c xs (mir s') (right_of s p) r (spl @ [(l, p)]) p spr rf"
    using s'(2) splay_inv_mir [of u U c xs "mir s'"] by simp
  moreover have "same_but (set xs \<union> {sides}) s (mir s')"
    using s'(3) same_but_mir [of _ s "mir s'"] by simp
  ultimately show ?thesis by blast
qed

lemma rotate_right_inv:
  assumes t: "SplayTreeCheck tree" "updateNode tree = u"
    and cl: "classified c xs" and inv: "splay_inv u U c xs s p (Node (Node a m b) n r) spl ll spr rf"
    and c: "c n = CompareLESS" "c m = CompareLESS"
  shows "\<exists>s'. SplayRotateRight tree p s = Some (m, s') \<and>
    splay_inv u U c xs s' m (Node a m (Node b n r)) spl ll spr rf \<and> same_but (set xs) s s' \<and>
    left_of s' m = left_of s m"
proof -
  note i = inv [unfolded splay_inv_def]
  have p: "p = n" "n \<noteq> 0" "left_of s n = m" "m \<noteq> 0" "is_tree s (left_of s m) a" "is_tree s (right_of s m) b"
    "is_tree s (right_of s n) r" using i by auto
  have dist: "distinct (spine_nodes spl @ inorder a @ m # inorder b @ n # inorder r @ rev (spine_nodes spr))"
    "sides \<notin> set (spine_nodes spl @ inorder a @ m # inorder b @ n # inorder r @ rev (spine_nodes spr))"
    using cl i by (auto simp: classified_def)
  have mn: "m \<noteq> n" using dist by auto
  define s1 where "s1 = SplayNodeSetRightChild m n (SplayNodeSetLeftChild n (right_of s m) s)"
  have s1: "same_but {m, n} s s1" "left_of s1 n = right_of s m" "right_of s1 m = n" "left_of s1 m = left_of s m"
    "right_of s1 n = right_of s n" "prop_of s1 = prop_of s"
    using mn by (auto simp: s1_def SplayNodeSetLeftChild_def SplayNodeSetRightChild_def same_but_def)
  have fr: "is_tree s1 q t = is_tree s q t" "current v s1 t = current v s t" if "m \<notin> set_tree t" "n \<notin> set_tree t" for q v t
    using that same_but_tree [OF s1(1), of t] by auto
  have trees: "is_tree s1 (left_of s1 n) b" "is_tree s1 (right_of s1 n) r" "is_tree s1 (left_of s1 m) a"
    using p dist s1(2,4,5) by (auto simp: fr)
  have cur: "current u s1 b" "current u s1 r" "good u c s1 a" "U \<Longrightarrow> current u s1 a"
  proof -
    have "current u s b" "current u s r" "good u c s a" "U \<Longrightarrow> current u s a" using i c by auto
    moreover have "good u c s1 a = good u c s a" "current u s1 t = current u s t" for t
      using s1(1,6) by (auto intro!: good_cong current_cong simp: same_but_def)
    ultimately show "current u s1 b" "current u s1 r" "good u c s1 a" "U \<Longrightarrow> current u s1 a" by auto
  qed
  have "\<exists>s2. (if u \<noteq> None then SplayNodeUpdate tree n s1 else Some s1) = Some s2 \<and> same_but {n} s1 s2 \<and>
    left_of s2 = left_of s1 \<and> right_of s2 = right_of s1 \<and> is_tree s2 n (Node b n r) \<and> current u s2 (Node b n r)"
  proof (cases u)
    case None
    then show ?thesis using trees(1,2) p(2) by auto
  next
    case (Some g)
    have n: "n \<notin> set_tree b \<union> set_tree r" using dist by auto
    have cu: "current (Some g) s1 b" "current (Some g) s1 r" using cur Some by auto
    obtain s2 where "SplayNodeUpdate tree n s1 = Some s2" "is_tree s2 n (Node b n r)"
      "current (Some g) s2 (Node b n r)" "same_but {n} s1 s2" "left_of s2 = left_of s1" "right_of s2 = right_of s1"
      using SplayNodeUpdate_ok [OF t(1) _ p(2) trees(1,2) cu n] t(2) Some by blast
    then show ?thesis using Some by auto
  qed
  then obtain s2 where s2: "(if u \<noteq> None then SplayNodeUpdate tree n s1 else Some s1) = Some s2" "same_but {n} s1 s2"
    "left_of s2 = left_of s1" "right_of s2 = right_of s1" "is_tree s2 n (Node b n r)" "current u s2 (Node b n r)"
    by blast
  have sb: "same_but {m, n} s s2" by (rule same_but_trans [OF s1(1) s2(2)]) auto
  have ca: "good u c s2 a" "U \<Longrightarrow> current u s2 a" "is_tree s2 (left_of s2 m) a"
  proof -
    have n: "{n} \<inter> set_tree a = {}" using dist by auto
    have "\<And>x. x \<in> set_tree a \<Longrightarrow> prop_of s2 x = prop_of s1 x \<and> data_of s2 x = data_of s1 x"
      using n s2(2) by (auto simp: same_but_def)
    then have "good u c s2 a = good u c s1 a" by (rule good_cong)
    then show "good u c s2 a" using cur(3) by simp
    show "is_tree s2 (left_of s2 m) a" using same_but_tree(1) [OF s2(2) n] trees(3) s2(3) by simp
    show "U \<Longrightarrow> current u s2 a" using same_but_tree(2) [OF s2(2) n] cur(4) by simp
  qed
  have out: "{m, n} \<inter> set (spine_nodes spl) = {}" "{m, n} \<inter> set (spine_nodes spr) = {}" "sides \<notin> {m, n}" using dist by auto
  have sbm: "same_but {m, n} (mir s) (mir s2)" using sb by (simp add: same_but_mir)
  have llrf: "ll \<in> set (sides # spine_nodes spl)" "rf \<in> set (sides # spine_nodes spr)"
    using i lspine_last_mem [of s sides spl ll] lspine_last_mem [of "mir s" sides spr rf] by auto
  have "splay_inv u U c xs s2 m (Node a m (Node b n r)) spl ll spr rf"
    unfolding splay_inv_def
  proof (intro conjI)
    show "xs = spine_nodes spl @ inorder (Node a m (Node b n r)) @ rev (spine_nodes spr)" using i by simp
    show "is_tree s2 m (Node a m (Node b n r))" using ca(3) s2(4,5) s1(3) p(4) by simp
    show "m \<noteq> 0" by (rule p(4))
    show "lspine s2 sides spl ll" using i out by (intro lspine_same_but [OF _ sb]) auto
    show "lspine (mir s2) sides spr rf" using i out by (intro lspine_same_but [OF _ sbm]) auto
    have "ll \<notin> {m, n}" "rf \<notin> {m, n}" using llrf out by auto
    then show "right_of s2 ll = 0" "left_of s2 rf = 0" using i sb by (auto simp: same_but_def)
    show "\<forall>(l, n) \<in> set spl. current u s2 l" using i out by (intro spine_current_cong [OF _ sb]) auto
    show "\<forall>(l, n) \<in> set spr. current (miru u) (mir s2) l" using i out by (intro spine_current_cong [OF _ sbm]) auto
    show "good u c s2 (Node a m (Node b n r))" using ca(1) s2(6) c by simp
    show "U \<longrightarrow> kids u s2 (Node a m (Node b n r))" using ca(2) s2(6) by simp
  qed (use i in simp_all)
  moreover have "SplayRotateRight tree p s = Some (m, s2)"
    using s2(1) p t mn s1(3)
    by (cases u) (simp_all add: SplayRotateRight_def SplayNodeCheck_def Let_def flip: s1_def)
  moreover have "same_but (set xs) s s2" using i by (intro same_but_mono [OF sb]) auto
  ultimately show ?thesis using s2(3) s1(4) by auto
qed

text \<open>The states in which the loop ends.\<close>

definition done_at :: "(nat \<Rightarrow> Compare) \<Rightarrow> nat tree \<Rightarrow> bool \<Rightarrow> bool" where
  "done_at c t found \<longleftrightarrow> (\<exists>l n r. t = Node l n r \<and>
     (if found then c n = CompareEQUAL else c n = CompareLESS \<and> l = Leaf \<or> c n = CompareGREATER \<and> r = Leaf))"

lemma done_at_mir: "done_at (mirc \<circ> c) (mirror t) f = done_at c t f"
  by (cases t) (auto simp: done_at_def)

definition step_ok where
  "step_ok u U c xs s t res \<longleftrightarrow> (\<exists>out p' ll' rf' s' t' spl' spr'. res = Some (out, p', ll', rf', s') \<and>
     splay_inv u U c xs s' p' t' spl' ll' spr' rf' \<and> same_but (set xs \<union> {sides}) s s' \<and>
     (out = Continue \<longrightarrow> size t' < size t) \<and> (out \<noteq> Continue \<longrightarrow> done_at c t' (out = Assemble True)))"

lemma step_okI:
  "res = Some (out, p', ll', rf', s') \<Longrightarrow> splay_inv u U c xs s' p' t' spl' ll' spr' rf' \<Longrightarrow>
    same_but (set xs \<union> {sides}) s s' \<Longrightarrow> (out = Continue \<Longrightarrow> size t' < size t) \<Longrightarrow>
    (out \<noteq> Continue \<Longrightarrow> done_at c t' (out = Assemble True)) \<Longrightarrow> step_ok u U c xs s t res"
  unfolding step_ok_def by blast

lemma step_less:
  assumes t: "SplayTreeCheck tree" "updateNode tree = u" and cl: "classified c xs"
    and inv: "splay_inv u U c xs s p (Node l n r) spl ll spr rf"
    and c: "c n = CompareLESS" and cmp: "cmp_ok u U c (data_of s) xs cmp"
  shows "step_ok u U c xs s (Node l n r) (SplaySplay_step tree cmp CompareLESS p ll rf s)"
proof -
  note i = inv [unfolded splay_inv_def]
  have p: "p = n" "is_tree s (left_of s p) l" using i by auto
  show ?thesis
  proof (cases l)
    case Leaf
    then have "SplaySplay_step tree cmp CompareLESS p ll rf s = Some (Assemble False, p, ll, rf, s)"
      using p by (simp add: SplaySplay_step_def)
    then show ?thesis using inv Leaf c by (rule_tac step_okI) (auto simp: done_at_def)
  next
    case (Node a m b)
    then have m: "left_of s p = m" "m \<noteq> 0" "is_tree s m l" "is_tree s (left_of s m) a" "is_tree s (right_of s m) b"
      using p(2) by auto
    have lr: "\<forall>x \<in> set (n # inorder r @ rev (spine_nodes spr)). c x = CompareLESS"
      using cl c i by (auto simp: classified_def sorted_wrt_append precedes_def)
    have kl: "U \<Longrightarrow> kids u s l" using i by (auto intro: current_kids)
    have cm: "cmp s m = Some (c m)"
      using i lr kl by (intro cmp_okD [OF cmp m(3,2), of "spine_nodes spl" "n # inorder r @ rev (spine_nodes spr)"]) auto
    have "l \<noteq> Leaf" using Node by simp
    from link_right_inv [OF cl inv c this kl] obtain s1 where
      s1: "SplayLinkRight p rf s = Some (m, p, s1)" "splay_inv u U c xs s1 m l spl ll (spr @ [(mirror r, p)]) p"
      "same_but (set xs \<union> {sides}) s s1"
      unfolding m(1) by blast
    show ?thesis
    proof (cases "c m")
      case CompareEQUAL
      then have "SplaySplay_step tree cmp CompareLESS p ll rf s = Some (Assemble True, m, ll, p, s1)"
        using m cm s1(1) by (simp add: SplaySplay_step_def)
      then show ?thesis using s1 CompareEQUAL Node by (rule_tac step_okI) (auto simp: done_at_def)
    next
      case cmL: CompareLESS
      show ?thesis
      proof (cases "a = Leaf")
        case True
        then have "SplaySplay_step tree cmp CompareLESS p ll rf s = Some (Assemble False, m, ll, p, s1)"
          using m cm s1(1) cmL by (simp add: SplaySplay_step_def)
        then show ?thesis using s1 cmL Node True by (rule_tac step_okI) (auto simp: done_at_def)
      next
        case False
        obtain s2 where s2: "SplayRotateRight tree p s = Some (m, s2)"
          "splay_inv u U c xs s2 m (Node a m (Node b n r)) spl ll spr rf" "same_but (set xs) s s2"
          "left_of s2 m = left_of s m"
          using rotate_right_inv [OF t cl _ c cmL, of U s p a b r spl ll spr rf] inv Node by auto
        have kl: "kids u s2 a" if U
        proof -
          have "current u s2 a" using s2(2) that by (auto simp: splay_inv_def)
          then show ?thesis by (rule current_kids)
        qed
        from link_right_inv [OF cl s2(2) cmL False kl] obtain s3 where
          s3: "SplayLinkRight m rf s2 = Some (left_of s m, m, s3)"
          "splay_inv u U c xs s3 (left_of s m) a spl ll (spr @ [(mirror (Node b n r), m)]) m"
          "same_but (set xs \<union> {sides}) s2 s3"
          unfolding s2(4) by blast
        have "left_of s m \<noteq> 0" using m(4) False by (cases a) auto
        then have "SplaySplay_step tree cmp CompareLESS p ll rf s = Some (Continue, left_of s m, ll, m, s3)"
          using m cm s2(1) s3(1) cmL by (simp add: SplaySplay_step_def)
        moreover have "same_but (set xs \<union> {sides}) s s3" by (rule same_but_trans [OF s2(3) s3(3)]) auto
        ultimately show ?thesis using s3(2) Node by (rule_tac step_okI) auto
      qed
    next
      case cmG: CompareGREATER
      show ?thesis
      proof (cases "b = Leaf")
        case True
        then have "SplaySplay_step tree cmp CompareLESS p ll rf s = Some (Assemble False, m, ll, p, s1)"
          using m cm s1(1) cmG by (simp add: SplaySplay_step_def)
        then show ?thesis using s1 cmG Node True by (rule_tac step_okI) (auto simp: done_at_def)
      next
        case False
        have kb: "kids u s1 b" if U
        proof -
          have "current u s1 b" using s1(2) Node that by (auto simp: splay_inv_def)
          then show ?thesis by (rule current_kids)
        qed
        have "right_of s1 m = right_of s m"
        proof -
          have "p \<noteq> m" using p cl Node i by (auto simp: classified_def)
          then show ?thesis using s1(1) by (auto simp: SplayLinkRight_def SplayNodeSetLeftChild_def Let_def split: bind_splits)
        qed
        then obtain s2 where s2: "SplayLinkLeft m ll s1 = Some (right_of s m, m, s2)"
          "splay_inv u U c xs s2 (right_of s m) b (spl @ [(a, m)]) m (spr @ [(mirror r, p)]) p"
          "same_but (set xs \<union> {sides}) s1 s2"
          using link_left_inv [OF cl s1(2) [unfolded Node] cmG False kb] by auto
        have "right_of s m \<noteq> 0" using m(5) False by (cases b) auto
        then have "SplaySplay_step tree cmp CompareLESS p ll rf s = Some (Continue, right_of s m, m, p, s2)"
          using m cm s1(1) s2(1) cmG by (simp add: SplaySplay_step_def)
        moreover have "same_but (set xs \<union> {sides}) s s2" by (rule same_but_trans [OF s1(3) s2(3)]) auto
        ultimately show ?thesis using s2(2) Node by (rule_tac step_okI) auto
      qed
    qed
  qed
qed

lemma step_greater:
  assumes t: "SplayTreeCheck tree" "updateNode tree = u" and cl: "classified c xs"
    and inv: "splay_inv u U c xs s p (Node l n r) spl ll spr rf"
    and c: "c n = CompareGREATER" and cmp: "cmp_ok u U c (data_of s) xs cmp"
  shows "step_ok u U c xs s (Node l n r) (SplaySplay_step tree cmp CompareGREATER p ll rf s)"
proof -
  have "step_ok (miru u) U (mirc \<circ> c) (rev xs) (mir s) (mirror (Node l n r))
    (SplaySplay_step (mirt tree) (\<lambda>s n. map_option mirc (cmp (mir s) n)) CompareLESS p rf ll (mir s))"
    unfolding mirror.simps
  proof (rule step_less)
    show "SplayTreeCheck (mirt tree)" "updateNode (mirt tree) = miru u" using t by simp_all
    show "classified (mirc \<circ> c) (rev xs)" using cl by (simp add: classified_rev)
    show "splay_inv (miru u) U (mirc \<circ> c) (rev xs) (mir s) p (Node (mirror r) n (mirror l)) spr rf spl ll"
      using inv splay_inv_mir [of u U c xs s p "Node l n r"] by simp
    show "(mirc \<circ> c) n = CompareLESS" using c by simp
    show "cmp_ok (miru u) U (mirc \<circ> c) (data_of (mir s)) (rev xs) (\<lambda>s n. map_option mirc (cmp (mir s) n))"
      using cmp_ok_mir [OF cmp] by simp
  qed
  then obtain out p' ll' rf' s' t' spl' spr' where
    r: "SplaySplay_step (mirt tree) (\<lambda>s n. map_option mirc (cmp (mir s) n)) CompareLESS p rf ll (mir s) = Some (out, p', rf', ll', s')"
    "splay_inv (miru u) U (mirc \<circ> c) (rev xs) s' p' t' spr' rf' spl' ll'" "same_but (set xs \<union> {sides}) (mir s) s'"
    "out = Continue \<longrightarrow> size t' < size (mirror (Node l n r))" "out \<noteq> Continue \<longrightarrow> done_at (mirc \<circ> c) t' (out = Assemble True)"
    unfolding step_ok_def set_rev by blast
  show ?thesis
  proof (rule step_okI)
    show "SplaySplay_step tree cmp CompareGREATER p ll rf s = Some (out, p', ll', rf', mir s')"
      by (simp add: SplaySplay_step_mir r(1))
    show "splay_inv u U c xs (mir s') p' (mirror t') spl' ll' spr' rf'"
      using r(2) splay_inv_mir [of u U c xs "mir s'" p' "mirror t'"] by simp
    show "same_but (set xs \<union> {sides}) s (mir s')" using r(3) same_but_mir [of _ s "mir s'"] by simp
    show "out = Continue \<Longrightarrow> size (mirror t') < size (Node l n r)" using r(4) by simp
    show "out \<noteq> Continue \<Longrightarrow> done_at c (mirror t') (out = Assemble True)"
      using r(5) done_at_mir [of c "mirror t'"] by simp
  qed
qed

lemma SplaySplay_loop_ok:
  assumes t: "SplayTreeCheck tree" "updateNode tree = u" and cl: "classified c xs"
    and "splay_inv u U c xs s p t spl ll spr rf" and "cmp_ok u U c (data_of s) xs cmp"
  shows "\<exists>found p' ll' rf' s' t' spl' spr'.
    SplaySplay_loop tree cmp (c p) p ll rf s = Some (found, p', ll', rf', s') \<and>
    splay_inv u U c xs s' p' t' spl' ll' spr' rf' \<and> same_but (set xs \<union> {sides}) s s' \<and> done_at c t' found"
  using assms(4,5)
proof (induction "size t" arbitrary: s p t spl ll spr rf rule: less_induct)
  case less
  note i = less.prems(1) [unfolded splay_inv_def]
  obtain l n r where tn: "t = Node l n r" "p = n" using i is_tree_nonzero by blast
  have "step_ok u U c xs s t (SplaySplay_step tree cmp (c p) p ll rf s)"
  proof (cases "c p")
    case CompareLESS
    then show ?thesis using step_less [OF t cl less.prems(1) [unfolded tn] _ less.prems(2)] tn by simp
  next
    case CompareGREATER
    then show ?thesis using step_greater [OF t cl less.prems(1) [unfolded tn] _ less.prems(2)] tn by simp
  next
    case CompareEQUAL
    then show ?thesis
      using less.prems(1) tn by (intro step_okI [of _ "Assemble True" p ll rf s]) (auto simp: SplaySplay_step_def done_at_def)
  qed
  then obtain out p' ll' rf' s' t' spl' spr' where
    r: "SplaySplay_step tree cmp (c p) p ll rf s = Some (out, p', ll', rf', s')"
    "splay_inv u U c xs s' p' t' spl' ll' spr' rf'" "same_but (set xs \<union> {sides}) s s'"
    "out = Continue \<Longrightarrow> size t' < size t" "out \<noteq> Continue \<Longrightarrow> done_at c t' (out = Assemble True)"
    unfolding step_ok_def by blast
  show ?case
  proof (cases "out = Continue")
    case False
    then show ?thesis using r by (subst SplaySplay_loop.simps) auto
  next
    case True
    note i' = r(2) [unfolded splay_inv_def]
    have d: "data_of s' = data_of s" using r(3) by (simp add: same_but_def)
    have cm: "cmp s' p' = Some (c p')"
      using i' d by (intro cmp_okD [OF less.prems(2), of s' p' t' "spine_nodes spl'" "rev (spine_nodes spr')"]) auto
    from less.hyps [OF r(4) [OF True] r(2)] less.prems(2) d obtain found q ll2 rf2 s2 t2 spl2 spr2 where
      q: "SplaySplay_loop tree cmp (c p') p' ll' rf' s' = Some (found, q, ll2, rf2, s2)"
      "splay_inv u U c xs s2 q t2 spl2 ll2 spr2 rf2" "same_but (set xs \<union> {sides}) s' s2" "done_at c t2 found"
      by metis
    have "SplaySplay_loop tree cmp (c p) p ll rf s = Some (found, q, ll2, rf2, s2)"
      using r(1) True cm q(1) by (subst SplaySplay_loop.simps) simp
    moreover have "same_but (set xs \<union> {sides}) s s2" by (rule same_but_trans [OF r(3) q(3)]) auto
    ultimately show ?thesis using q(2,4) by blast
  qed
qed

subsection \<open>The splay\<close>

lemma SplayAssemble_ok:
  assumes t: "SplayTreeCheck tree" "updateNode tree = u" and cl: "classified c xs"
    and inv: "splay_inv u U c xs s p (Node l n r) spl ll spr rf" and kids: "kids u s (Node l n r)"
  shows "\<exists>s'. SplayAssemble tree p (right_of s sides) ll (left_of s sides) rf s = Some s' \<and>
    is_tree s' n (Node (spine_tree spl l) n (mirror (spine_tree spr (mirror r)))) \<and>
    current u s' (Node (spine_tree spl l) n (mirror (spine_tree spr (mirror r)))) \<and>
    same_but (set xs) s s'"
proof -
  note i = inv [unfolded splay_inv_def]
  have p: "p = n" "n \<noteq> 0" "is_tree s (left_of s n) l" "is_tree s (right_of s n) r" using i by auto
  have dist: "distinct (spine_nodes spl @ inorder l @ n # inorder r @ rev (spine_nodes spr))"
    "sides \<notin> set (spine_nodes spl @ inorder l @ n # inorder r @ rev (spine_nodes spr))"
    using cl i by (auto simp: classified_def)
  have nz: "0 \<notin> set (sides # spine_nodes spl)" "0 \<notin> set (sides # spine_nodes spr)"
    using cl i by (auto simp: classified_def sides_def)
  have "ll \<in> set (sides # spine_nodes spl)" "rf \<in> set (sides # spine_nodes spr)"
    using i lspine_last_mem [of s sides spl ll] lspine_last_mem [of "mir s" sides spr rf] by auto
  then have checks: "SplayNodeCheck ll" "SplayNodeCheck rf" using nz unfolding SplayNodeCheck_def by metis+
  have "\<exists>s1. SplayAssemble_left tree n (right_of s sides) ll s = Some s1 \<and>
    is_tree s1 (left_of s1 n) (spine_tree spl l) \<and> current (updateNode tree) s1 (spine_tree spl l) \<and>
    same_but (set (spine_nodes spl) \<union> {n}) s s1 \<and> right_of s1 n = right_of s n"
    by (rule SplayAssemble_left_ok) (use t p dist i kids in auto)
  then obtain s1 where s1: "SplayAssemble_left tree n (right_of s sides) ll s = Some s1"
    "is_tree s1 (left_of s1 n) (spine_tree spl l)" "current u s1 (spine_tree spl l)"
    "same_but (set (spine_nodes spl) \<union> {n}) s s1" "right_of s1 n = right_of s n"
    using t by auto
  have out: "(set (spine_nodes spl) \<union> {n}) \<inter> set (sides # spine_nodes spr) = {}"
    "(set (spine_nodes spl) \<union> {n}) \<inter> set_tree r = {}" "n \<notin> set (sides # spine_nodes spr)" "n \<noteq> sides"
    using dist by auto
  have sbm: "same_but (set (spine_nodes spl) \<union> {n}) (mir s) (mir s1)" using s1(4) by (simp add: same_but_mir)
  have R: "lspine (mir s1) sides spr rf" by (rule lspine_same_but [OF _ sbm out(1)]) (use i in simp)
  have rf: "left_of s1 rf = 0"
    using i lspine_last_mem [OF R] s1(4) out by (auto simp: same_but_def)
  have curR: "\<forall>(l, n) \<in> set spr. current (miru u) (mir s1) l"
    by (rule spine_current_cong [OF _ sbm]) (use i out in auto)
  have r1: "is_tree s1 (right_of s1 n) r" "current u s1 r"
    using same_but_tree(1,2) [OF s1(4) out(2)] p(4) s1(5) kids by simp_all
  have ls: "left_of s1 sides = left_of s sides" using s1(4) dist by (auto simp: same_but_def)
  have "\<exists>s2. SplayAssemble_left (mirt tree) n (right_of (mir s1) sides) rf (mir s1) = Some s2 \<and>
    is_tree s2 (left_of s2 n) (spine_tree spr (mirror r)) \<and> current (updateNode (mirt tree)) s2 (spine_tree spr (mirror r)) \<and>
    same_but (set (spine_nodes spr) \<union> {n}) (mir s1) s2 \<and> right_of s2 n = right_of (mir s1) n"
    by (rule SplayAssemble_left_ok) (use t p dist R rf curR r1 out in \<open>auto simp: is_tree_mir current_mir\<close>)
  then obtain s2 where s2: "SplayAssemble_left (mirt tree) n (left_of s1 sides) rf (mir s1) = Some s2"
    "is_tree s2 (left_of s2 n) (spine_tree spr (mirror r))" "current (miru u) s2 (spine_tree spr (mirror r))"
    "same_but (set (spine_nodes spr) \<union> {n}) (mir s1) s2" "right_of s2 n = left_of s1 n"
    using t by auto
  define s3 where "s3 = mir s2"
  have a3: "SplayAssemble_right tree n (left_of s1 sides) rf s1 = Some s3"
    using SplayAssemble_right_mir [OF s2(1)] by (simp add: s3_def)
  have sb3: "same_but (set (spine_nodes spr) \<union> {n}) s1 s3"
    using s2(4) same_but_mir [of _ s1 s3] by (simp add: s3_def)
  have L3: "is_tree s3 (left_of s3 n) (spine_tree spl l)" "current u s3 (spine_tree spl l)"
  proof -
    have "(set (spine_nodes spr) \<union> {n}) \<inter> set_tree (spine_tree spl l) = {}"
      using dist unfolding set_inorder [symmetric] by auto
    from same_but_tree(1,2) [OF sb3 this] s1(2,3) s2(5)
    show "is_tree s3 (left_of s3 n) (spine_tree spl l)" "current u s3 (spine_tree spl l)" by (simp_all add: s3_def)
  qed
  have R3: "is_tree s3 (right_of s3 n) (mirror (spine_tree spr (mirror r)))" "current u s3 (mirror (spine_tree spr (mirror r)))"
    using s2(2,3) is_tree_mir [of s3 "left_of s2 n" "spine_tree spr (mirror r)"]
      current_mir [of u s3 "spine_tree spr (mirror r)"] by (simp_all add: s3_def)
  let ?T = "Node (spine_tree spl l) n (mirror (spine_tree spr (mirror r)))"
  have sb: "same_but (set xs) s s3" by (rule same_but_trans [OF s1(4) sb3]) (use i in auto)
  have "\<exists>s4. (if u \<noteq> None then SplayNodeUpdate tree n s3 else Some s3) = Some s4 \<and> is_tree s4 n ?T \<and> current u s4 ?T \<and>
    same_but {n} s3 s4"
  proof (cases u)
    case None
    then show ?thesis using L3 R3 p(2) by auto
  next
    case (Some g)
    have "n \<notin> set_tree (spine_tree spl l) \<union> set_tree (mirror (spine_tree spr (mirror r)))"
      using dist unfolding set_inorder [symmetric] by auto
    from SplayNodeUpdate_ok [OF t(1) _ p(2) L3(1) R3(1) _ _ this, of g] L3(2) R3(2) t(2) Some
    show ?thesis by auto
  qed
  then obtain s4 where s4: "(if u \<noteq> None then SplayNodeUpdate tree n s3 else Some s3) = Some s4" "is_tree s4 n ?T"
    "current u s4 ?T" "same_but {n} s3 s4" by blast
  have "SplayAssemble tree n (right_of s sides) ll (left_of s sides) rf s = Some s4"
  proof -
    have "right_of s sides = 0 \<or> SplayNodeCheck (right_of s sides) \<and> SplayNodeCheck ll"
      "left_of s sides = 0 \<or> SplayNodeCheck (left_of s sides) \<and> SplayNodeCheck rf" "SplayNodeCheck n"
      using checks p(2) by (auto simp: SplayNodeCheck_def)
    then show ?thesis using t p(1) s1(1) a3 s4(1) ls by (simp add: SplayAssemble_def)
  qed
  moreover have "same_but (set xs) s s4" by (rule same_but_trans [OF sb s4(4)]) (use i in auto)
  ultimately show ?thesis using s4(2,3) p(1) by blast
qed

lemma classified_root:
  assumes "classified c (inorder l @ n # inorder r)"
  shows "c n = CompareEQUAL \<or> c n = CompareLESS \<and> (\<forall>x \<in> set_tree l. c x = CompareGREATER) \<or>
      c n = CompareGREATER \<and> (\<forall>x \<in> set_tree r. c x = CompareLESS) \<Longrightarrow>
    (\<forall>x \<in> set_tree l. c x = CompareGREATER) \<and> (\<forall>x \<in> set_tree r. c x = CompareLESS)"
  using assms by (cases "c n") (auto simp: classified_def sorted_wrt_append precedes_def)

lemma SplaySplay_ok:
  assumes t: "SplayTreeCheck tree" "updateNode tree = u" and cl: "classified c (inorder T)"
    and T: "is_tree s (root tree) T" "T \<noteq> Leaf" and good: "good u c s T" and kids: "U \<longrightarrow> kids u s T"
    and cmp: "cmp_ok u U c (data_of s) (inorder T) cmp"
  shows "\<exists>n l r s'. SplaySplay tree cmp s = Some (\<exists>x \<in> set_tree T. c x = CompareEQUAL, n, tree\<lparr>root := n\<rparr>, s') \<and>
    is_tree s' n (Node l n r) \<and> inorder l @ n # inorder r = inorder T \<and>
    same_but (set_tree T \<union> {sides}) s s' \<and> kids u s' (Node l n r) \<and> (current u s T \<longrightarrow> current u s' (Node l n r)) \<and>
    (c n = CompareEQUAL \<longleftrightarrow> (\<exists>x \<in> set_tree T. c x = CompareEQUAL)) \<and>
    (\<forall>x \<in> set_tree l. c x = CompareGREATER) \<and> (\<forall>x \<in> set_tree r. c x = CompareLESS)"
proof -
  have r0: "root tree \<noteq> 0" using T by (cases T) auto
  obtain l0 n0 r0' where T': "T = Node l0 n0 r0'" "root tree = n0" using T by (cases T) auto
  have cm: "cmp s' (root tree) = Some (c (root tree))" if "is_tree s' (root tree) T" "data_of s' = data_of s" "U \<longrightarrow> kids u s' T" for s'
    using that r0 by (intro cmp_okD [OF cmp, of s' "root tree" T "[]" "[]"]) auto
  show ?thesis
  proof (cases "c (root tree) = CompareEQUAL")
    case True
    have "SplaySplay tree cmp s = Some (True, root tree, tree, s)"
      using t r0 cm [of s] T(1) True kids by (simp add: SplaySplay_def Let_def)
    moreover have "tree = tree\<lparr>root := root tree\<rparr>" by simp
    moreover have eq: "\<exists>x \<in> set_tree T. c x = CompareEQUAL" using True T' by auto
    moreover have "kids u s T" using good True T' by simp
    moreover have "(\<forall>x \<in> set_tree l0. c x = CompareGREATER) \<and> (\<forall>x \<in> set_tree r0'. c x = CompareLESS)"
    proof (rule classified_root)
      show "classified c (inorder l0 @ n0 # inorder r0')" using cl unfolding T'(1) by simp
    qed (use True T'(2) in simp)
    ultimately show ?thesis
      using T(1) T' True by (intro exI [of _ n0] exI [of _ l0] exI [of _ r0'] exI [of _ s]) auto
  next
    case False
    define s1 where "s1 = SplayNodeSetRightChild sides 0 (SplayNodeSetLeftChild sides 0 s)"
    have s1: "same_but {sides} s s1" "left_of s1 sides = 0" "right_of s1 sides = 0"
      by (simp_all add: s1_def SplayNodeSetRightChild_def SplayNodeSetLeftChild_def same_but_def)
    have init: "SplayNodeInit sides s = Some s1"
      by (simp add: SplayNodeInit_def SplayNodeCheck_def sides_def s1_def Let_def)
    have fr: "{sides} \<inter> set_tree T = {}" using cl by (simp add: classified_def)
    have pr: "prop_of s1 = prop_of s" "data_of s1 = data_of s"
      by (simp_all add: s1_def SplayNodeSetRightChild_def SplayNodeSetLeftChild_def)
    have "good u c s1 T = good u c s T" "kids u s1 T = kids u s T"
      using pr by (auto intro!: good_cong kids_cong)
    then have inv: "splay_inv u U c (inorder T) s1 (root tree) T [] sides [] sides"
      using T(1) r0 s1(2,3) good kids same_but_tree(1) [OF s1(1) fr] by (simp add: splay_inv_def)
    have cmp1: "cmp_ok u U c (data_of s1) (inorder T) cmp" using cmp pr by simp
    obtain found p ll rf s2 t2 spl spr where
      l: "SplaySplay_loop tree cmp (c (root tree)) (root tree) sides sides s1 = Some (found, p, ll, rf, s2)"
      "splay_inv u U c (inorder T) s2 p t2 spl ll spr rf" "same_but (set (inorder T) \<union> {sides}) s1 s2" "done_at c t2 found"
      using SplaySplay_loop_ok [OF t cl inv cmp1] by blast
    note i = l(2) [unfolded splay_inv_def]
    obtain l2 r2 where t2: "t2 = Node l2 p r2" using i is_tree_nonzero by blast
    have k2: "kids u s2 (Node l2 p r2)" using i l(4) t2 by (auto simp: done_at_def split: if_splits)
    obtain s3 where s3: "SplayAssemble tree p (right_of s2 sides) ll (left_of s2 sides) rf s2 = Some s3"
      "is_tree s3 p (Node (spine_tree spl l2) p (mirror (spine_tree spr (mirror r2))))"
      "current u s3 (Node (spine_tree spl l2) p (mirror (spine_tree spr (mirror r2))))" "same_but (set (inorder T)) s2 s3"
      using SplayAssemble_ok [OF t cl l(2) [unfolded t2] k2] by blast
    let ?l = "spine_tree spl l2" and ?r = "mirror (spine_tree spr (mirror r2))"
    have ino: "inorder ?l @ p # inorder ?r = inorder T" using i t2 by simp
    have g: "(\<forall>x \<in> set_tree ?l. c x = CompareGREATER) \<and> (\<forall>x \<in> set_tree ?r. c x = CompareLESS)"
    proof (rule classified_root)
      show "classified c (inorder ?l @ p # inorder ?r)" using cl ino by simp
      show "c p = CompareEQUAL \<or> c p = CompareLESS \<and> (\<forall>x \<in> set_tree ?l. c x = CompareGREATER) \<or>
        c p = CompareGREATER \<and> (\<forall>x \<in> set_tree ?r. c x = CompareLESS)"
        using l(4) i t2 unfolding set_inorder [symmetric] by (auto simp: done_at_def split: if_splits)
    qed
    have f: "found \<longleftrightarrow> c p = CompareEQUAL" using l(4) t2 by (auto simp: done_at_def split: if_splits)
    have sT: "set_tree T = set_tree ?l \<union> {p} \<union> set_tree ?r"
    proof -
      have "set (inorder T) = set (inorder ?l @ p # inorder ?r)" by (simp only: ino)
      then show ?thesis by (simp only: set_append set_inorder list.set) blast
    qed
    have f2: "c p = CompareEQUAL \<longleftrightarrow> (\<exists>x \<in> set_tree T. c x = CompareEQUAL)"
    proof
      show "c p = CompareEQUAL \<Longrightarrow> \<exists>x \<in> set_tree T. c x = CompareEQUAL" by (auto simp: sT)
      assume "\<exists>x \<in> set_tree T. c x = CompareEQUAL"
      then obtain x where x: "x \<in> set_tree ?l \<or> x = p \<or> x \<in> set_tree ?r" "c x = CompareEQUAL" unfolding sT by blast
      moreover have "x \<notin> set_tree ?l" "x \<notin> set_tree ?r" using g x(2) by force+
      ultimately show "c p = CompareEQUAL" by blast
    qed
    have ff: "(\<exists>x \<in> set_tree T. c x = CompareEQUAL) = found" using f f2 by simp
    have "SplaySplay tree cmp s = Some (\<exists>x \<in> set_tree T. c x = CompareEQUAL, p, tree\<lparr>root := p\<rparr>, s3)"
      unfolding ff using t(1) r0 cm [of s] T(1) kids False init l(1) s3(1) by (simp add: SplaySplay_def Let_def)
    moreover have "same_but (set_tree T \<union> {sides}) s s3"
      by (rule same_but_trans [OF same_but_trans [OF s1(1) l(3) order_refl] s3(4)]) auto
    moreover have "kids u s3 (Node ?l p ?r)" using s3(3) by (simp add: current_kids)
    ultimately show ?thesis using s3(2,3) ino g f2 by blast
  qed
qed

end
