(* ===== verification/Splay_Ops.thy ===== *)
theory Splay_Ops
  imports Splay_Tree
begin

text \<open>
  What the operations of \<^verbatim>\<open>splay.c\<close> do to the ordered list of nodes of a tree, on every branch:
  search, insertion, deletion, neighbours, iteration, the searches for a client property and the
  refresh of a node.
\<close>


subsection \<open>The operations\<close>

text \<open>A tree of the heap whose nodes are \<open>xs\<close> in order and whose client properties are up to date.\<close>

definition tree_at :: "('k, 'd, 'p) SplayTreeStruct \<Rightarrow> ('d, 'p) splay_heap \<Rightarrow> nat tree \<Rightarrow> bool" where
  "tree_at tree s T \<longleftrightarrow> SplayTreeCheck tree \<and> is_tree s (root tree) T \<and> current (updateNode tree) s T"

definition splay_nodes :: "('k, 'd, 'p) SplayTreeStruct \<Rightarrow> ('d, 'p) splay_heap \<Rightarrow> nat list \<Rightarrow> bool" where
  "splay_nodes tree s xs \<longleftrightarrow> (\<exists>T. tree_at tree s T \<and> inorder T = xs)"

text \<open>How a node compares with a key; a key is usable if its classification is ordered along the nodes.\<close>

definition class_of :: "('k, 'd, 'p) SplayTreeStruct \<Rightarrow> ('d, 'p) splay_heap \<Rightarrow> 'k \<Rightarrow> nat \<Rightarrow> Compare" where
  "class_of tree s k n = the (compare tree) k (data_of s n)"

lemma SplayCompare_eq: "SplayTreeCheck tree \<Longrightarrow> SplayCompare tree k s n = Some (class_of tree s k n)"
  by (auto simp: SplayCompare_def class_of_def SplayTreeCheck_def)

lemma class_of_root [simp]: "class_of (tree\<lparr>root := p\<rparr>) s k = class_of tree s k"
  by (simp add: class_of_def fun_eq_iff)

lemma class_of_cong: "data_of s' = data_of s \<Longrightarrow> class_of tree s' k = class_of tree s k"
  by (simp add: class_of_def fun_eq_iff)

lemma SplayTreeCheck_root [simp]: "SplayTreeCheck (tree\<lparr>root := p\<rparr>) = SplayTreeCheck tree"
  by (simp add: SplayTreeCheck_def)

lemma cmp_ok_key: "SplayTreeCheck tree \<Longrightarrow> cmp_ok u False (class_of tree s k) (data_of s) xs (SplayCompare tree k)"
  unfolding cmp_ok_def
proof (intro allI impI)
  fix s' p t as bs
  assume c: "SplayTreeCheck tree"
    and a: "is_tree s' p t \<and> p \<noteq> 0 \<and> (False \<longrightarrow> kids u s' t) \<and> data_of s' = data_of s \<and> xs = as @ inorder t @ bs \<and>
    (\<forall>x \<in> set as. class_of tree s k x = CompareGREATER) \<and> (\<forall>x \<in> set bs. class_of tree s k x = CompareLESS)"
  then show "SplayCompare tree k s' p = Some (class_of tree s k p)"
    by (simp add: SplayCompare_eq class_of_cong [of s' s])
qed

lemma classified_sub: "classified c (as @ xs @ bs) \<Longrightarrow> classified c xs"
  by (auto simp: classified_def sorted_wrt_append)

lemma splay_empty: "tree_at tree s Leaf \<Longrightarrow> SplaySplay tree cmp s = Some (False, 0, tree, s)"
  by (simp add: SplaySplay_def tree_at_def Let_def)

text \<open>A splay at a key, in the form the operations use.\<close>

lemma splay_key:
  assumes "tree_at tree s T" and "T \<noteq> Leaf" and "classified (class_of tree s k) (inorder T)"
  obtains n l r s' where
    "SplaySplay tree (SplayCompare tree k) s =
      Some (\<exists>x \<in> set_tree T. class_of tree s k x = CompareEQUAL, n, tree\<lparr>root := n\<rparr>, s')"
    "tree_at (tree\<lparr>root := n\<rparr>) s' (Node l n r)" "inorder l @ n # inorder r = inorder T"
    "same_but (set_tree T \<union> {sides}) s s'"
    "class_of tree s k n = CompareEQUAL \<longleftrightarrow> (\<exists>x \<in> set_tree T. class_of tree s k x = CompareEQUAL)"
    "\<forall>x \<in> set_tree l. class_of tree s k x = CompareGREATER" "\<forall>x \<in> set_tree r. class_of tree s k x = CompareLESS"
proof -
  note t = assms(1) [unfolded tree_at_def]
  have "good (updateNode tree) (class_of tree s k) s T" using t by (auto intro: current_good)
  then have "\<exists>n l r s'. SplaySplay tree (SplayCompare tree k) s =
      Some (\<exists>x \<in> set_tree T. class_of tree s k x = CompareEQUAL, n, tree\<lparr>root := n\<rparr>, s') \<and>
    is_tree s' n (Node l n r) \<and> inorder l @ n # inorder r = inorder T \<and>
    same_but (set_tree T \<union> {sides}) s s' \<and> kids (updateNode tree) s' (Node l n r) \<and>
    (current (updateNode tree) s T \<longrightarrow> current (updateNode tree) s' (Node l n r)) \<and>
    (class_of tree s k n = CompareEQUAL \<longleftrightarrow> (\<exists>x \<in> set_tree T. class_of tree s k x = CompareEQUAL)) \<and>
    (\<forall>x \<in> set_tree l. class_of tree s k x = CompareGREATER) \<and> (\<forall>x \<in> set_tree r. class_of tree s k x = CompareLESS)"
    by (intro SplaySplay_ok [OF _ refl assms(3) _ assms(2), where U = False] cmp_ok_key) (use t in simp_all)
  then obtain n l r s' where r: "SplaySplay tree (SplayCompare tree k) s =
      Some (\<exists>x \<in> set_tree T. class_of tree s k x = CompareEQUAL, n, tree\<lparr>root := n\<rparr>, s')"
    "is_tree s' n (Node l n r)" "inorder l @ n # inorder r = inorder T"
    "same_but (set_tree T \<union> {sides}) s s'" "current (updateNode tree) s T \<longrightarrow> current (updateNode tree) s' (Node l n r)"
    "class_of tree s k n = CompareEQUAL \<longleftrightarrow> (\<exists>x \<in> set_tree T. class_of tree s k x = CompareEQUAL)"
    "\<forall>x \<in> set_tree l. class_of tree s k x = CompareGREATER" "\<forall>x \<in> set_tree r. class_of tree s k x = CompareLESS"
    by (elim exE conjE)
  have "tree_at (tree\<lparr>root := n\<rparr>) s' (Node l n r)" using r(2,5) t unfolding tree_at_def by simp
  from that [OF r(1) this r(3,4,6-8)] show ?thesis .
qed

lemma filter_classes:
  assumes "\<forall>x \<in> set as. c x = CompareGREATER" and "\<forall>x \<in> set bs. c x = CompareLESS"
  shows "filter (\<lambda>x. c x = CompareGREATER) (as @ n # bs) = as @ (if c n = CompareGREATER then [n] else [])"
    and "filter (\<lambda>x. c x = CompareLESS) (as @ n # bs) = (if c n = CompareLESS then [n] else []) @ bs"
proof -
  have "filter (\<lambda>x. c x = CompareGREATER) as = as" "filter (\<lambda>x. c x = CompareLESS) bs = bs"
    "filter (\<lambda>x. c x = CompareGREATER) bs = []" "filter (\<lambda>x. c x = CompareLESS) as = []"
    using assms by (auto simp: filter_id_conv filter_empty_conv)
  then show "filter (\<lambda>x. c x = CompareGREATER) (as @ n # bs) = as @ (if c n = CompareGREATER then [n] else [])"
    and "filter (\<lambda>x. c x = CompareLESS) (as @ n # bs) = (if c n = CompareLESS then [n] else []) @ bs" by simp_all
qed

lemma SplayTreeSearch_ok:
  assumes "splay_nodes tree s xs" and "classified (class_of tree s k) xs"
  shows "\<exists>tree' s'. SplayTreeSearch tree k s =
      Some (case find (\<lambda>x. class_of tree s k x = CompareEQUAL) xs of
              None \<Rightarrow> (ResFAIL, None, tree', s') | Some n \<Rightarrow> (ResOK, Some n, tree', s')) \<and>
    splay_nodes tree' s' xs \<and> same_but (set xs \<union> {sides}) s s' \<and> (\<exists>p. tree' = tree\<lparr>root := p\<rparr>)"
proof -
  obtain T where T: "tree_at tree s T" "inorder T = xs" using assms(1) by (auto simp: splay_nodes_def)
  let ?c = "class_of tree s k"
  have chk: "SplayTreeCheck tree" using T by (simp add: tree_at_def)
  show ?thesis
  proof (cases "T = Leaf")
    case True
    have "\<exists>p. tree = tree\<lparr>root := p\<rparr>" by (rule exI [of _ "root tree"]) simp
    with True show ?thesis
      using splay_empty [of tree s] T chk assms(1) by (intro exI [of _ tree] exI [of _ s]) (auto simp: SplayTreeSearch_def)
  next
    case False
    have "classified ?c (inorder T)" using T(2) assms(2) by simp
    from T(1) False this obtain n l r s' where sp: "SplaySplay tree (SplayCompare tree k) s =
        Some (\<exists>x \<in> set_tree T. ?c x = CompareEQUAL, n, tree\<lparr>root := n\<rparr>, s')"
      "tree_at (tree\<lparr>root := n\<rparr>) s' (Node l n r)" "inorder l @ n # inorder r = inorder T"
      "same_but (set_tree T \<union> {sides}) s s'" "?c n = CompareEQUAL \<longleftrightarrow> (\<exists>x \<in> set_tree T. ?c x = CompareEQUAL)"
      "\<forall>x \<in> set_tree l. ?c x = CompareGREATER" "\<forall>x \<in> set_tree r. ?c x = CompareLESS"
      by (rule splay_key)
    have sn: "splay_nodes (tree\<lparr>root := n\<rparr>) s' xs" using sp(2,3) T(2) by (auto simp: splay_nodes_def)
    have sb: "same_but (set xs \<union> {sides}) s s'" using sp(4) T(2) by (metis set_inorder)
    show ?thesis
    proof (cases "?c n = CompareEQUAL")
      case True
      have "find (\<lambda>x. ?c x = CompareEQUAL) xs = Some n"
      proof -
        have "find (\<lambda>x. ?c x = CompareEQUAL) (as @ n # bs) = Some n" if "\<forall>x \<in> set as. ?c x = CompareGREATER" for as bs
          using that True by (induction as) auto
        then show ?thesis using sp(3,6) T(2) by (metis set_inorder)
      qed
      then show ?thesis using sp(1,5) True sn sb chk by (auto simp: SplayTreeSearch_def)
    next
      case False
      then have "find (\<lambda>x. ?c x = CompareEQUAL) xs = None"
        using sp(5) T(2) by (auto simp: find_None_iff)
      then show ?thesis using sp(1,5) False sn sb chk by (auto simp: SplayTreeSearch_def)
    qed
  qed
qed

text \<open>The outcome of an operation: the nodes are \<open>xs\<close> and only nodes of \<open>A\<close> were written.\<close>

definition becomes ::
  "('k, 'd, 'p) SplayTreeStruct \<Rightarrow> ('d, 'p) splay_heap \<Rightarrow> nat set \<Rightarrow> ('k, 'd, 'p) SplayTreeStruct \<Rightarrow>
    ('d, 'p) splay_heap \<Rightarrow> nat list \<Rightarrow> bool" where
  "becomes tree s A tree' s' xs \<longleftrightarrow>
     splay_nodes tree' s' xs \<and> (\<exists>p. tree' = tree\<lparr>root := p\<rparr>) \<and> same_but A s s'"

lemma becomesI:
  "tree_at (tree\<lparr>root := p\<rparr>) s' T \<Longrightarrow> inorder T = xs \<Longrightarrow> same_but A s s' \<Longrightarrow> becomes tree s A (tree\<lparr>root := p\<rparr>) s' xs"
  by (auto simp: becomes_def splay_nodes_def)

lemma becomes_refl: "splay_nodes tree s xs \<Longrightarrow> becomes tree s A tree s xs"
  unfolding becomes_def by (auto intro: exI [of _ "root tree"])

lemma becomes_trans:
  assumes "becomes tree s A tree1 s1 ys" and "becomes tree1 s1 B tree2 s2 xs" and "A \<union> B \<subseteq> C"
  shows "becomes tree s C tree2 s2 xs"
  using assms unfolding becomes_def by (fastforce intro: same_but_trans)

lemma becomes_mono: "becomes tree s A tree1 s1 xs \<Longrightarrow> A \<subseteq> B \<Longrightarrow> becomes tree s B tree1 s1 xs"
  unfolding becomes_def by (auto intro: same_but_mono)

lemma maybe_update:
  assumes "SplayTreeCheck tree" and "n \<noteq> 0"
    and "is_tree s (left_of s n) l" and "is_tree s (right_of s n) r"
    and "current (updateNode tree) s l" and "current (updateNode tree) s r" and "n \<notin> set_tree l \<union> set_tree r"
  shows "\<exists>s'. (if updateNode tree \<noteq> None then SplayNodeUpdate tree n s else Some s) = Some s' \<and>
    is_tree s' n (Node l n r) \<and> current (updateNode tree) s' (Node l n r) \<and>
    same_but {n} s s' \<and> left_of s' = left_of s \<and> right_of s' = right_of s"
proof (cases "updateNode tree")
  case None
  then show ?thesis using assms(2-4) by auto
next
  case (Some g)
  then show ?thesis using SplayNodeUpdate_ok [OF assms(1) Some assms(2-4)] assms(5-7) by simp
qed

lemma update_root [simp]: "SplayNodeUpdate (tree\<lparr>root := p\<rparr>) n s = SplayNodeUpdate tree n s"
  by (simp add: SplayNodeUpdate_def)

text \<open>Two updates, of a node and then of its new parent, as insertion and the neighbour functions do.\<close>

lemma update_child_right:
  assumes "SplayTreeCheck tree" and "m \<noteq> 0" "n \<noteq> 0"
    and "is_tree s (left_of s m) a" "is_tree s (right_of s m) b"
    and "left_of s n = m" "is_tree s (right_of s n) r"
    and "current (updateNode tree) s a" "current (updateNode tree) s b" "current (updateNode tree) s r"
    and "distinct (inorder a @ m # inorder b @ n # inorder r)"
  shows "\<exists>s'. (if updateNode tree \<noteq> None then do { s \<leftarrow> SplayNodeUpdate tree m s; SplayNodeUpdate tree n s } else Some s) = Some s' \<and>
    is_tree s' n (Node (Node a m b) n r) \<and> current (updateNode tree) s' (Node (Node a m b) n r) \<and> same_but {m, n} s s'"
proof -
  have "m \<notin> set_tree a \<union> set_tree b" using assms(11) by auto
  then obtain s1 where s1: "(if updateNode tree \<noteq> None then SplayNodeUpdate tree m s else Some s) = Some s1"
    "is_tree s1 m (Node a m b)" "current (updateNode tree) s1 (Node a m b)" "same_but {m} s s1"
    "left_of s1 = left_of s" "right_of s1 = right_of s"
    using maybe_update [OF assms(1,2,4,5,8,9)] by blast
  have d: "{m} \<inter> set_tree r = {}" "n \<notin> set_tree (Node a m b) \<union> set_tree r" using assms(11) by auto
  have l: "is_tree s1 (left_of s1 n) (Node a m b)" using s1(2,5) assms(6) by simp
  have r: "is_tree s1 (right_of s1 n) r" "current (updateNode tree) s1 r"
    using same_but_tree [OF s1(4) d(1)] assms(7,10) s1(6) by simp_all
  obtain s2 where s2: "(if updateNode tree \<noteq> None then SplayNodeUpdate tree n s1 else Some s1) = Some s2"
    "is_tree s2 n (Node (Node a m b) n r)" "current (updateNode tree) s2 (Node (Node a m b) n r)" "same_but {n} s1 s2"
    using maybe_update [OF assms(1,3) l r(1) s1(3) r(2) d(2)] by blast
  have "same_but {m, n} s s2" by (rule same_but_trans [OF s1(4) s2(4)]) auto
  then show ?thesis using s1(1) s2(1-3) by (cases "updateNode tree") auto
qed

lemma mirt_check: "updateNode tree \<noteq> None \<longleftrightarrow> updateNode (mirt tree) \<noteq> None"
  by simp

lemma update_child_left:
  assumes "SplayTreeCheck tree" and "m \<noteq> 0" "n \<noteq> 0"
    and "is_tree s (left_of s m) a" "is_tree s (right_of s m) b"
    and "right_of s n = m" "is_tree s (left_of s n) l"
    and "current (updateNode tree) s a" "current (updateNode tree) s b" "current (updateNode tree) s l"
    and "distinct (inorder l @ n # inorder a @ m # inorder b)"
  shows "\<exists>s'. (if updateNode tree \<noteq> None then do { s \<leftarrow> SplayNodeUpdate tree m s; SplayNodeUpdate tree n s } else Some s) = Some s' \<and>
    is_tree s' n (Node l n (Node a m b)) \<and> current (updateNode tree) s' (Node l n (Node a m b)) \<and> same_but {m, n} s s'"
proof -
  have "\<exists>s'. (if updateNode (mirt tree) \<noteq> None then do { s \<leftarrow> SplayNodeUpdate (mirt tree) m (mir s); SplayNodeUpdate (mirt tree) n s } else Some (mir s)) = Some s' \<and>
    is_tree s' n (Node (Node (mirror b) m (mirror a)) n (mirror l)) \<and>
    current (updateNode (mirt tree)) s' (Node (Node (mirror b) m (mirror a)) n (mirror l)) \<and> same_but {m, n} (mir s) s'"
    by (rule update_child_right) (use assms in \<open>auto simp: is_tree_mir current_mir\<close>)
  then obtain s' where s': "(if updateNode (mirt tree) \<noteq> None then do { s \<leftarrow> SplayNodeUpdate (mirt tree) m (mir s); SplayNodeUpdate (mirt tree) n s } else Some (mir s)) = Some s'"
    "is_tree s' n (mirror (Node l n (Node a m b)))" "current (miru (updateNode tree)) s' (mirror (Node l n (Node a m b)))" "same_but {m, n} (mir s) s'"
    by auto
  let ?s = "mir s'"
  have m: "SplayNodeUpdate tree x y = map_option mir (SplayNodeUpdate (mirt tree) x (mir y))" for x y
    using SplayNodeUpdate_mir [of "mirt tree" x "mir y"] by simp
  have "(if updateNode tree \<noteq> None then do { s \<leftarrow> SplayNodeUpdate tree m s; SplayNodeUpdate tree n s } else Some s) = Some ?s"
    using s'(1) by (cases "SplayNodeUpdate (mirt tree) m (mir s)"; cases "updateNode tree") (auto simp: m miru_def)
  moreover have "is_tree ?s n (Node l n (Node a m b))" using s'(2) is_tree_mir [of s' n "Node l n (Node a m b)"] by simp
  moreover have "current (updateNode tree) ?s (Node l n (Node a m b))"
    using s'(3) current_mir [of "updateNode tree" ?s "mirror (Node l n (Node a m b))"] by simp
  moreover have "same_but {m, n} s ?s" using s'(4) same_but_mir [of _ s ?s] by simp
  ultimately show ?thesis by blast
qed

definition fresh_node :: "('k, 'd, 'p) SplayTreeStruct \<Rightarrow> ('d, 'p) splay_heap \<Rightarrow> nat \<Rightarrow> bool" where
  "fresh_node tree s node \<longleftrightarrow> node \<noteq> 0 \<and> node \<noteq> sides \<and> left_of s node = 0 \<and> right_of s node = 0 \<and>
     current (updateNode tree) s (Node Leaf node Leaf)"

lemma graft_right:
  fixes n node :: nat and s1 :: "('d, 'p) splay_heap" and tree :: "('k, 'd, 'p) SplayTreeStruct"
  defines "s2 \<equiv> SplayNodeSetRightChild n 0 (SplayNodeSetLeftChild node n (SplayNodeSetRightChild node (right_of s1 n) s1))"
  assumes chk: "SplayTreeCheck tree"
    and t1: "is_tree s1 n (Node l n r)" "current (updateNode tree) s1 l" "current (updateNode tree) s1 r"
    and dist: "distinct (inorder l @ n # inorder r)" "node \<notin> set (inorder l @ n # inorder r)" and nd: "node \<noteq> 0"
  shows "\<exists>s3. (if updateNode tree \<noteq> None then do { s \<leftarrow> SplayNodeUpdate tree n s2; SplayNodeUpdate tree node s } else Some s2) = Some s3 \<and>
    is_tree s3 node (Node (Node l n Leaf) node r) \<and> current (updateNode tree) s3 (Node (Node l n Leaf) node r) \<and> same_but {n, node} s1 s3"
proof -
    have s2: "same_but {n, node} s1 s2" "left_of s2 n = left_of s1 n" "right_of s2 n = 0" "left_of s2 node = n"
      "right_of s2 node = right_of s1 n" "prop_of s2 = prop_of s1" "data_of s2 = data_of s1"
      using dist by (auto simp: s2_def SplayNodeSetLeftChild_def SplayNodeSetRightChild_def same_but_def)
    have cur: "current u s2 t = current u s1 t" for u t using s2(6,7) by (intro current_cong) simp
    have fr: "{n, node} \<inter> set_tree l = {}" "{n, node} \<inter> set_tree r = {}" using dist by auto
    have "\<exists>s3. (if updateNode tree \<noteq> None then do { s \<leftarrow> SplayNodeUpdate tree n s2; SplayNodeUpdate tree node s } else Some s2) = Some s3 \<and>
      is_tree s3 node (Node (Node l n Leaf) node r) \<and> current (updateNode tree) s3 (Node (Node l n Leaf) node r) \<and> same_but {n, node} s2 s3"
      by (rule update_child_right)
        (use chk t1 nd s2 dist cur same_but_tree(1) [OF s2(1) fr(1)] same_but_tree(1) [OF s2(1) fr(2)] in auto)
    then obtain s3 where "(if updateNode tree \<noteq> None then do { s \<leftarrow> SplayNodeUpdate tree n s2; SplayNodeUpdate tree node s } else Some s2) = Some s3"
      "is_tree s3 node (Node (Node l n Leaf) node r)" "current (updateNode tree) s3 (Node (Node l n Leaf) node r)" "same_but {n, node} s2 s3"
      by blast
    moreover from this(4) have "same_but {n, node} s1 s3" by (rule same_but_trans [OF s2(1)]) simp
    ultimately show ?thesis by blast
qed

lemma graft_left:
  fixes n node :: nat and s1 :: "('d, 'p) splay_heap" and tree :: "('k, 'd, 'p) SplayTreeStruct"
  defines "s2 \<equiv> SplayNodeSetLeftChild n 0 (SplayNodeSetRightChild node n (SplayNodeSetLeftChild node (left_of s1 n) s1))"
  assumes chk: "SplayTreeCheck tree"
    and t1: "is_tree s1 n (Node l n r)" "current (updateNode tree) s1 l" "current (updateNode tree) s1 r"
    and dist: "distinct (inorder l @ n # inorder r)" "node \<notin> set (inorder l @ n # inorder r)" and nd: "node \<noteq> 0"
  shows "\<exists>s3. (if updateNode tree \<noteq> None then do { s \<leftarrow> SplayNodeUpdate tree n s2; SplayNodeUpdate tree node s } else Some s2) = Some s3 \<and>
    is_tree s3 node (Node l node (Node Leaf n r)) \<and> current (updateNode tree) s3 (Node l node (Node Leaf n r)) \<and> same_but {n, node} s1 s3"
proof -
    have s2: "same_but {n, node} s1 s2" "right_of s2 n = right_of s1 n" "left_of s2 n = 0" "right_of s2 node = n"
      "left_of s2 node = left_of s1 n" "prop_of s2 = prop_of s1" "data_of s2 = data_of s1"
      using dist by (auto simp: s2_def SplayNodeSetLeftChild_def SplayNodeSetRightChild_def same_but_def)
    have cur: "current u s2 t = current u s1 t" for u t using s2(6,7) by (intro current_cong) simp
    have fr: "{n, node} \<inter> set_tree l = {}" "{n, node} \<inter> set_tree r = {}" using dist by auto
    have "\<exists>s3. (if updateNode tree \<noteq> None then do { s \<leftarrow> SplayNodeUpdate tree n s2; SplayNodeUpdate tree node s } else Some s2) = Some s3 \<and>
      is_tree s3 node (Node l node (Node Leaf n r)) \<and> current (updateNode tree) s3 (Node l node (Node Leaf n r)) \<and> same_but {n, node} s2 s3"
      by (rule update_child_left)
        (use chk t1 nd s2 dist cur same_but_tree(1) [OF s2(1) fr(1)] same_but_tree(1) [OF s2(1) fr(2)] in auto)
    then obtain s3 where "(if updateNode tree \<noteq> None then do { s \<leftarrow> SplayNodeUpdate tree n s2; SplayNodeUpdate tree node s } else Some s2) = Some s3"
      "is_tree s3 node (Node l node (Node Leaf n r))" "current (updateNode tree) s3 (Node l node (Node Leaf n r))" "same_but {n, node} s2 s3"
      by blast
    moreover from this(4) have "same_but {n, node} s1 s3" by (rule same_but_trans [OF s2(1)]) simp
    ultimately show ?thesis by blast
qed

lemma SplayTreeInsert_ok:
  assumes "splay_nodes tree s xs" and cl: "classified (class_of tree s k) xs"
    and fresh: "fresh_node tree s node" "node \<notin> set xs"
  shows "\<exists>tree' s'. SplayTreeInsert tree node k s =
      Some (if \<exists>x \<in> set xs. class_of tree s k x = CompareEQUAL then ResFAIL else ResOK, tree', s') \<and>
    becomes tree s (insert node (set xs \<union> {sides})) tree' s'
      (if \<exists>x \<in> set xs. class_of tree s k x = CompareEQUAL then xs
       else filter (\<lambda>x. class_of tree s k x = CompareGREATER) xs @ node #
         filter (\<lambda>x. class_of tree s k x = CompareLESS) xs)"
proof -
  obtain T where T: "tree_at tree s T" "inorder T = xs" using assms(1) by (auto simp: splay_nodes_def)
  let ?c = "class_of tree s k" and ?A = "insert node (set xs \<union> {sides})"
  have chk: "SplayTreeCheck tree" using T by (simp add: tree_at_def)
  have nd: "node \<noteq> 0" "left_of s node = 0" "right_of s node = 0" "node \<noteq> sides" using fresh by (auto simp: fresh_node_def)
  show ?thesis
  proof (cases "T = Leaf")
    case True
    then have "root tree = 0" using T(1) by (simp add: tree_at_def)
    moreover have "tree_at (tree\<lparr>root := node\<rparr>) s (Node Leaf node Leaf)"
      using chk fresh by (simp add: tree_at_def fresh_node_def)
    then have "becomes tree s ?A (tree\<lparr>root := node\<rparr>) s [node]" by (rule becomesI) auto
    ultimately show ?thesis
      using True T chk nd by (auto simp: SplayTreeInsert_def SplayNodeCheck_def)
  next
    case False
    then have r0: "root tree \<noteq> 0" using T(1) by (cases T) (auto simp: tree_at_def)
    have "classified ?c (inorder T)" using T(2) cl by simp
    from T(1) False this obtain n l r s1 where sp: "SplaySplay tree (SplayCompare tree k) s =
        Some (\<exists>x \<in> set_tree T. ?c x = CompareEQUAL, n, tree\<lparr>root := n\<rparr>, s1)"
      "tree_at (tree\<lparr>root := n\<rparr>) s1 (Node l n r)" "inorder l @ n # inorder r = inorder T"
      "same_but (set_tree T \<union> {sides}) s s1" "?c n = CompareEQUAL \<longleftrightarrow> (\<exists>x \<in> set_tree T. ?c x = CompareEQUAL)"
      "\<forall>x \<in> set_tree l. ?c x = CompareGREATER" "\<forall>x \<in> set_tree r. ?c x = CompareLESS"
      by (rule splay_key)
    have sT: "set_tree T = set xs" using T(2) by (metis set_inorder)
    have sb1: "same_but (set xs \<union> {sides}) s s1" using sp(4) sT by simp
    have found: "(\<exists>x \<in> set_tree T. ?c x = CompareEQUAL) \<longleftrightarrow> ?c n = CompareEQUAL" using sp(5) by simp
    show ?thesis
    proof (cases "?c n = CompareEQUAL")
      case True
      have "becomes tree s ?A (tree\<lparr>root := n\<rparr>) s1 xs"
        by (rule becomesI [OF sp(2)]) (use sp(3) T(2) same_but_mono [OF sb1, of ?A] in \<open>simp_all add: subset_insertI\<close>)
      then show ?thesis
        using sp(1) found True chk nd r0 sT by (auto simp: SplayTreeInsert_def SplayNodeCheck_def)
    next
      case ne: False
      have t1: "is_tree s1 n (Node l n r)" "current (updateNode tree) s1 l" "current (updateNode tree) s1 r" "n \<noteq> 0"
        "is_tree s1 (left_of s1 n) l" "is_tree s1 (right_of s1 n) r"
        using sp(2) by (auto simp: tree_at_def)
      have dist: "distinct (inorder l @ n # inorder r)" "node \<notin> set (inorder l @ n # inorder r)"
        using cl fresh(2) T(2) sp(3) by (auto simp: classified_def)
      have node1: "left_of s1 node = 0" "right_of s1 node = 0"
        using sb1 nd fresh(2) by (auto simp: same_but_def)
      have cls: "class_of tree s1 k = ?c" using sb1 by (auto simp: same_but_def intro: class_of_cong)
      have flt: "filter (\<lambda>x. ?c x = CompareGREATER) xs = inorder l @ (if ?c n = CompareGREATER then [n] else [])"
        "filter (\<lambda>x. ?c x = CompareLESS) xs = (if ?c n = CompareLESS then [n] else []) @ inorder r"
        unfolding T(2) [symmetric] sp(3) [symmetric]
        using sp(6,7) by (intro filter_classes; simp)+
      have start: "SplayTreeInsert tree node k s = do {
          (tree, s) \<leftarrow> (case ?c n of
              CompareGREATER \<Rightarrow> Some (tree\<lparr>root := node\<rparr>, SplayNodeSetRightChild n 0
                (SplayNodeSetLeftChild node n (SplayNodeSetRightChild node (right_of s1 n) s1)))
            | CompareLESS \<Rightarrow> Some (tree\<lparr>root := node\<rparr>, SplayNodeSetLeftChild n 0
                (SplayNodeSetRightChild node n (SplayNodeSetLeftChild node (left_of s1 n) s1)))
            | CompareEQUAL \<Rightarrow> None);
          (if updateNode tree \<noteq> None
           then do { s \<leftarrow> SplayNodeUpdate tree n s; s \<leftarrow> SplayNodeUpdate tree node s; Some (ResOK, tree, s) }
           else Some (ResOK, tree, s))
        }"
        using sp(1) found ne chk nd r0 cls
        by (simp add: SplayTreeInsert_def SplayNodeCheck_def SplayCompare_eq Let_def cong: Compare.case_cong)
      show ?thesis
      proof (cases "?c n")
        case CompareEQUAL
        with ne show ?thesis by simp
      next
        case G: CompareGREATER
        from graft_right [OF chk t1(1-3) dist nd(1)] obtain s3 where s3: "(if updateNode tree \<noteq> None then do { s \<leftarrow> SplayNodeUpdate tree n (SplayNodeSetRightChild n 0 (SplayNodeSetLeftChild node n (SplayNodeSetRightChild node (right_of s1 n) s1))); SplayNodeUpdate tree node s } else Some (SplayNodeSetRightChild n 0 (SplayNodeSetLeftChild node n (SplayNodeSetRightChild node (right_of s1 n) s1)))) = Some s3"
          "is_tree s3 node (Node (Node l n Leaf) node r)" "current (updateNode tree) s3 (Node (Node l n Leaf) node r)" "same_but {n, node} s1 s3"
          by blast
        have "SplayTreeInsert tree node k s = Some (ResOK, tree\<lparr>root := node\<rparr>, s3)"
          unfolding start using G s3(1)
          by (cases "updateNode tree") (auto split: bind_splits)
        moreover have "same_but ?A s s3"
          by (rule same_but_trans [OF sb1 s3(4)]) (use sp(3) T(2) sT in auto)
        then have "becomes tree s ?A (tree\<lparr>root := node\<rparr>) s3 (inorder l @ [n] @ node # inorder r)"
          by (intro becomesI [of _ _ _ "Node (Node l n Leaf) node r"]) (use s3(2,3) chk in \<open>auto simp: tree_at_def\<close>)
        ultimately show ?thesis using found ne sT G flt by auto
      next
        case L: CompareLESS
        from graft_left [OF chk t1(1-3) dist nd(1)] obtain s3 where s3: "(if updateNode tree \<noteq> None then do { s \<leftarrow> SplayNodeUpdate tree n (SplayNodeSetLeftChild n 0 (SplayNodeSetRightChild node n (SplayNodeSetLeftChild node (left_of s1 n) s1))); SplayNodeUpdate tree node s } else Some (SplayNodeSetLeftChild n 0 (SplayNodeSetRightChild node n (SplayNodeSetLeftChild node (left_of s1 n) s1)))) = Some s3"
          "is_tree s3 node (Node l node (Node Leaf n r))" "current (updateNode tree) s3 (Node l node (Node Leaf n r))" "same_but {n, node} s1 s3"
          by blast
        have "SplayTreeInsert tree node k s = Some (ResOK, tree\<lparr>root := node\<rparr>, s3)"
          unfolding start using L s3(1)
          by (cases "updateNode tree") (auto split: bind_splits)
        moreover have "same_but ?A s s3"
          by (rule same_but_trans [OF sb1 s3(4)]) (use sp(3) T(2) sT in auto)
        then have "becomes tree s ?A (tree\<lparr>root := node\<rparr>) s3 (inorder l @ node # n # inorder r)"
          by (intro becomesI [of _ _ _ "Node l node (Node Leaf n r)"]) (use s3(2,3) chk in \<open>auto simp: tree_at_def\<close>)
        ultimately show ?thesis using found ne sT L flt by auto
      qed
    qed
  qed
qed

text \<open>A splay of a subtree all of whose nodes lie on one side of the key ends at the last or first of them.\<close>

lemma precedes_all:
  "(\<forall>x \<in> set xs. c x = CompareGREATER) \<or> (\<forall>x \<in> set xs. c x = CompareLESS) \<Longrightarrow> sorted_wrt (precedes c) xs"
  by (induction xs) (auto simp: precedes_def)

lemma splay_all_greater:
  assumes "tree_at tree s T" "T \<noteq> Leaf" and "\<forall>x \<in> set_tree T. class_of tree s k x = CompareGREATER"
    and "distinct (inorder T)" "0 \<notin> set_tree T" "sides \<notin> set_tree T"
  obtains l m s' where "SplaySplay tree (SplayCompare tree k) s = Some (False, m, tree\<lparr>root := m\<rparr>, s')"
    "tree_at (tree\<lparr>root := m\<rparr>) s' (Node l m Leaf)" "inorder T = inorder l @ [m]" "same_but (set_tree T \<union> {sides}) s s'"
proof -
  let ?c = "class_of tree s k"
  have "sorted_wrt (precedes ?c) (inorder T)"
    using assms(3) by (intro precedes_all) simp
  then have "classified ?c (inorder T)" using assms(4-6) by (simp add: classified_def)
  from assms(1,2) this obtain m l r s' where sp: "SplaySplay tree (SplayCompare tree k) s =
      Some (\<exists>x \<in> set_tree T. ?c x = CompareEQUAL, m, tree\<lparr>root := m\<rparr>, s')"
    "tree_at (tree\<lparr>root := m\<rparr>) s' (Node l m r)" "inorder l @ m # inorder r = inorder T"
    "same_but (set_tree T \<union> {sides}) s s'" "?c m = CompareEQUAL \<longleftrightarrow> (\<exists>x \<in> set_tree T. ?c x = CompareEQUAL)"
    "\<forall>x \<in> set_tree l. ?c x = CompareGREATER" "\<forall>x \<in> set_tree r. ?c x = CompareLESS"
    by (rule splay_key)
  have "r = Leaf"
  proof (cases r)
    case (Node a x b)
    then have "x \<in> set_tree T" using sp(3) by (metis in_set_conv_decomp append_Cons append_assoc inorder.simps(2) set_inorder)
    then show ?thesis using sp(7) assms(3) Node by simp
  qed
  moreover have "\<not> (\<exists>x \<in> set_tree T. ?c x = CompareEQUAL)" using assms(3) by auto
  ultimately show ?thesis using that [of m s' l] sp(1-4) by simp
qed

lemma splay_all_less:
  assumes "tree_at tree s T" "T \<noteq> Leaf" and "\<forall>x \<in> set_tree T. class_of tree s k x = CompareLESS"
    and "distinct (inorder T)" "0 \<notin> set_tree T" "sides \<notin> set_tree T"
  obtains r m s' where "SplaySplay tree (SplayCompare tree k) s = Some (False, m, tree\<lparr>root := m\<rparr>, s')"
    "tree_at (tree\<lparr>root := m\<rparr>) s' (Node Leaf m r)" "inorder T = m # inorder r" "same_but (set_tree T \<union> {sides}) s s'"
proof -
  let ?c = "class_of tree s k"
  have "sorted_wrt (precedes ?c) (inorder T)"
    using assms(3) by (intro precedes_all) simp
  then have "classified ?c (inorder T)" using assms(4-6) by (simp add: classified_def)
  from assms(1,2) this obtain m l r s' where sp: "SplaySplay tree (SplayCompare tree k) s =
      Some (\<exists>x \<in> set_tree T. ?c x = CompareEQUAL, m, tree\<lparr>root := m\<rparr>, s')"
    "tree_at (tree\<lparr>root := m\<rparr>) s' (Node l m r)" "inorder l @ m # inorder r = inorder T"
    "same_but (set_tree T \<union> {sides}) s s'" "?c m = CompareEQUAL \<longleftrightarrow> (\<exists>x \<in> set_tree T. ?c x = CompareEQUAL)"
    "\<forall>x \<in> set_tree l. ?c x = CompareGREATER" "\<forall>x \<in> set_tree r. ?c x = CompareLESS"
    by (rule splay_key)
  have "l = Leaf"
  proof (cases l)
    case (Node a x b)
    then have "x \<in> set_tree T" using sp(3) by (metis in_set_conv_decomp append_Cons append_assoc inorder.simps(2) set_inorder)
    then show ?thesis using sp(6) assms(3) Node by simp
  qed
  moreover have "\<not> (\<exists>x \<in> set_tree T. ?c x = CompareEQUAL)" using assms(3) by auto
  ultimately show ?thesis using that [of m s' r] sp(1-4) by simp
qed

definition proper :: "nat list \<Rightarrow> bool" where
  "proper xs \<longleftrightarrow> distinct xs \<and> 0 \<notin> set xs \<and> sides \<notin> set xs"

lemma classified_proper: "classified c xs \<Longrightarrow> proper xs"
  by (simp add: classified_def proper_def)

lemma SplayTreePredecessor_ok:
  assumes t: "tree_at tree s (Node l n r)" and p: "proper (inorder l @ n # inorder r)"
    and less: "\<forall>x \<in> set_tree l. class_of tree s k x = CompareGREATER"
  shows "\<exists>tree' s'. SplayTreePredecessor tree k s = Some (if l = Leaf then 0 else last (inorder l), tree', s') \<and>
    becomes tree s (set_tree l \<union> {n, sides}) tree' s' (inorder l @ n # inorder r)"
proof (cases "l = Leaf")
  case True
  have "splay_nodes tree s (inorder l @ n # inorder r)" using t by (auto simp: splay_nodes_def)
  then show ?thesis
    using True t by (auto simp: SplayTreePredecessor_def tree_at_def SplayNodeCheck_def Let_def intro: becomes_refl)
next
  case False
  have r: "SplayTreeCheck tree" "root tree = n" "n \<noteq> 0" "is_tree s (left_of s n) l" "is_tree s (right_of s n) r"
    "current (updateNode tree) s l" "current (updateNode tree) s r" using t by (auto simp: tree_at_def)
  have l0: "left_of s n \<noteq> 0" using r(4) False by (cases l) auto
  have dist: "distinct (inorder l @ n # inorder r)" "0 \<notin> set_tree l" "sides \<notin> set_tree l" "n \<noteq> sides" "sides \<notin> set_tree r"
    using p by (auto simp: proper_def)
  define tree0 where "tree0 = tree\<lparr>root := left_of s n\<rparr>"
  define s0 where "s0 = SplayNodeSetLeftChild n 0 s"
  have s0: "same_but {n} s s0" "left_of s0 n = 0" "right_of s0 = right_of s" "prop_of s0 = prop_of s" "data_of s0 = data_of s"
    by (simp_all add: s0_def SplayNodeSetLeftChild_def same_but_def)
  have nl: "{n} \<inter> set_tree l = {}" "{n} \<inter> set_tree r = {}" using dist by auto
  have t0: "tree_at tree0 s0 l" using r same_but_tree [OF s0(1) nl(1)] by (simp add: tree_at_def tree0_def)
  have cl: "class_of tree0 s0 k = class_of tree s k" using s0(5) by (simp add: tree0_def class_of_cong [of s0 s])
  obtain l' m s1 where sp: "SplaySplay tree0 (SplayCompare tree0 k) s0 = Some (False, m, tree0\<lparr>root := m\<rparr>, s1)"
    "tree_at (tree0\<lparr>root := m\<rparr>) s1 (Node l' m Leaf)" "inorder l = inorder l' @ [m]" "same_but (set_tree l \<union> {sides}) s0 s1"
    using splay_all_greater [OF t0 False less [folded cl] _ dist(2,3)] dist(1) by (metis distinct_append)
  have m: "m \<noteq> 0" "is_tree s1 (left_of s1 m) l'" "right_of s1 m = 0" "current (updateNode tree) s1 l'"
    using sp(2) by (auto simp: tree_at_def tree0_def)
  have sl: "set_tree l = set_tree l' \<union> {m}" using arg_cong [OF sp(3), of set] by auto
  define s2 where "s2 = SplayNodeSetRightChild m n s1"
  have s2: "same_but {m} s1 s2" "left_of s2 = left_of s1" "right_of s2 m = n" "prop_of s2 = prop_of s1" "data_of s2 = data_of s1"
    "\<And>x. x \<noteq> m \<Longrightarrow> right_of s2 x = right_of s1 x"
    by (simp_all add: s2_def SplayNodeSetRightChild_def same_but_def)
  have cur: "current u s2 t = current u s1 t" for u t using s2(4,5) by (intro current_cong) simp
  have dist2: "distinct (inorder l' @ m # inorder Leaf @ n # inorder r)" "m \<notin> set_tree l'" "m \<noteq> n"
    using dist(1) sp(3) by auto
  have fr: "(set_tree l \<union> {sides}) \<inter> set_tree r = {}" "{m} \<inter> set_tree r = {}" "{m} \<inter> set_tree l' = {}" "n \<notin> set_tree l \<union> {sides}"
    using dist dist2 by auto
  have n1: "left_of s1 n = 0" "right_of s1 n = right_of s n" using sp(4) fr(4) s0(2,3) by (auto simp: same_but_def)
  have r1: "is_tree s2 (right_of s2 n) r" "current (updateNode tree) s2 r"
    using same_but_tree [OF s2(1) fr(2)] same_but_tree [OF sp(4) fr(1)] same_but_tree [OF s0(1) nl(2)] r(5,7) n1 s2(6) dist2(3)
    by simp_all
  have "\<exists>s3. (if updateNode tree \<noteq> None then do { s \<leftarrow> SplayNodeUpdate tree n s2; SplayNodeUpdate tree m s } else Some s2) = Some s3 \<and>
    is_tree s3 m (Node l' m (Node Leaf n r)) \<and> current (updateNode tree) s3 (Node l' m (Node Leaf n r)) \<and> same_but {n, m} s2 s3"
    by (rule update_child_left)
      (use r m s2 n1 r1 cur dist2 same_but_tree(1) [OF s2(1) fr(3)] in auto)
  then obtain s3 where s3: "(if updateNode tree \<noteq> None then do { s \<leftarrow> SplayNodeUpdate tree n s2; SplayNodeUpdate tree m s } else Some s2) = Some s3"
    "is_tree s3 m (Node l' m (Node Leaf n r))" "current (updateNode tree) s3 (Node l' m (Node Leaf n r))" "same_but {n, m} s2 s3"
    by blast
  have "SplayTreePredecessor tree k s = Some (m, tree\<lparr>root := m\<rparr>, s3)"
    using r(1-3) l0 sp(1) m(3) s3(1)
    by (cases "updateNode tree") (auto simp: SplayTreePredecessor_def SplayNodeCheck_def Let_def tree0_def
      simp flip: s0_def s2_def split: bind_splits)
  moreover have "same_but (set_tree l \<union> {n, sides}) s s3"
    by (rule same_but_trans [OF same_but_trans [OF s0(1) sp(4) order_refl] same_but_trans [OF s2(1) s3(4) order_refl]])
      (use sl in auto)
  then have "becomes tree s (set_tree l \<union> {n, sides}) (tree\<lparr>root := m\<rparr>) s3 (inorder l @ n # inorder r)"
    by (intro becomesI [of _ _ _ "Node l' m (Node Leaf n r)"]) (use s3(2,3) r(1) sp(3) in \<open>auto simp: tree_at_def\<close>)
  ultimately show ?thesis using False sp(3) by auto
qed

lemma SplayTreeSuccessor_ok:
  assumes t: "tree_at tree s (Node l n r)" and p: "proper (inorder l @ n # inorder r)"
    and gr: "\<forall>x \<in> set_tree r. class_of tree s k x = CompareLESS"
  shows "\<exists>tree' s'. SplayTreeSuccessor tree k s = Some (if r = Leaf then 0 else hd (inorder r), tree', s') \<and>
    becomes tree s (set_tree r \<union> {n, sides}) tree' s' (inorder l @ n # inorder r)"
proof (cases "r = Leaf")
  case True
  have "splay_nodes tree s (inorder l @ n # inorder r)" using t by (auto simp: splay_nodes_def)
  then show ?thesis
    using True t by (auto simp: SplayTreeSuccessor_def tree_at_def SplayNodeCheck_def Let_def intro: becomes_refl)
next
  case False
  have f: "SplayTreeCheck tree" "root tree = n" "n \<noteq> 0" "is_tree s (right_of s n) r" "is_tree s (left_of s n) l"
    "current (updateNode tree) s r" "current (updateNode tree) s l" using t by (auto simp: tree_at_def)
  have r0: "right_of s n \<noteq> 0" using f(4) False by (cases r) auto
  have dist: "distinct (inorder l @ n # inorder r)" "0 \<notin> set_tree r" "sides \<notin> set_tree r" "n \<noteq> sides" "sides \<notin> set_tree l"
    using p by (auto simp: proper_def)
  define tree0 where "tree0 = tree\<lparr>root := right_of s n\<rparr>"
  define s0 where "s0 = SplayNodeSetRightChild n 0 s"
  have s0: "same_but {n} s s0" "right_of s0 n = 0" "left_of s0 = left_of s" "prop_of s0 = prop_of s" "data_of s0 = data_of s"
    by (simp_all add: s0_def SplayNodeSetRightChild_def same_but_def)
  have nl: "{n} \<inter> set_tree r = {}" "{n} \<inter> set_tree l = {}" using dist by auto
  have t0: "tree_at tree0 s0 r" using f same_but_tree [OF s0(1) nl(1)] by (simp add: tree_at_def tree0_def)
  have cl: "class_of tree0 s0 k = class_of tree s k" using s0(5) by (simp add: tree0_def class_of_cong [of s0 s])
  obtain r' m s1 where sp: "SplaySplay tree0 (SplayCompare tree0 k) s0 = Some (False, m, tree0\<lparr>root := m\<rparr>, s1)"
    "tree_at (tree0\<lparr>root := m\<rparr>) s1 (Node Leaf m r')" "inorder r = m # inorder r'" "same_but (set_tree r \<union> {sides}) s0 s1"
    using splay_all_less [OF t0 False gr [folded cl] _ dist(2,3)] dist(1) by (metis distinct_append distinct.simps(2))
  have m: "m \<noteq> 0" "is_tree s1 (right_of s1 m) r'" "left_of s1 m = 0" "current (updateNode tree) s1 r'"
    using sp(2) by (auto simp: tree_at_def tree0_def)
  have sl: "set_tree r = set_tree r' \<union> {m}" using arg_cong [OF sp(3), of set] by auto
  define s2 where "s2 = SplayNodeSetLeftChild m n s1"
  have s2: "same_but {m} s1 s2" "right_of s2 = right_of s1" "left_of s2 m = n" "prop_of s2 = prop_of s1" "data_of s2 = data_of s1"
    "\<And>x. x \<noteq> m \<Longrightarrow> left_of s2 x = left_of s1 x"
    by (simp_all add: s2_def SplayNodeSetLeftChild_def same_but_def)
  have cur: "current u s2 t = current u s1 t" for u t using s2(4,5) by (intro current_cong) simp
  have dist2: "distinct (inorder l @ n # inorder Leaf @ m # inorder r')" "m \<notin> set_tree r'" "m \<noteq> n"
    using dist(1) sp(3) by auto
  have fr: "(set_tree r \<union> {sides}) \<inter> set_tree l = {}" "{m} \<inter> set_tree l = {}" "{m} \<inter> set_tree r' = {}" "n \<notin> set_tree r \<union> {sides}"
    using dist dist2 by auto
  have n1: "right_of s1 n = 0" "left_of s1 n = left_of s n" using sp(4) fr(4) s0(2,3) by (auto simp: same_but_def)
  have r1: "is_tree s2 (left_of s2 n) l" "current (updateNode tree) s2 l"
    using same_but_tree [OF s2(1) fr(2)] same_but_tree [OF sp(4) fr(1)] same_but_tree [OF s0(1) nl(2)] f(5,7) n1 s2(6) dist2(3)
    by simp_all
  have "\<exists>s3. (if updateNode tree \<noteq> None then do { s \<leftarrow> SplayNodeUpdate tree n s2; SplayNodeUpdate tree m s } else Some s2) = Some s3 \<and>
    is_tree s3 m (Node (Node l n Leaf) m r') \<and> current (updateNode tree) s3 (Node (Node l n Leaf) m r') \<and> same_but {n, m} s2 s3"
    by (rule update_child_right)
      (use f m s2 n1 r1 cur dist2 same_but_tree(1) [OF s2(1) fr(3)] in auto)
  then obtain s3 where s3: "(if updateNode tree \<noteq> None then do { s \<leftarrow> SplayNodeUpdate tree n s2; SplayNodeUpdate tree m s } else Some s2) = Some s3"
    "is_tree s3 m (Node (Node l n Leaf) m r')" "current (updateNode tree) s3 (Node (Node l n Leaf) m r')" "same_but {n, m} s2 s3"
    by blast
  have "SplayTreeSuccessor tree k s = Some (m, tree\<lparr>root := m\<rparr>, s3)"
    using f(1-3) r0 sp(1) m(3) s3(1)
    by (cases "updateNode tree") (auto simp: SplayTreeSuccessor_def SplayNodeCheck_def Let_def tree0_def
      simp flip: s0_def s2_def split: bind_splits)
  moreover have "same_but (set_tree r \<union> {n, sides}) s s3"
    by (rule same_but_trans [OF same_but_trans [OF s0(1) sp(4) order_refl] same_but_trans [OF s2(1) s3(4) order_refl]])
      (use sl in auto)
  then have "becomes tree s (set_tree r \<union> {n, sides}) (tree\<lparr>root := m\<rparr>) s3 (inorder l @ n # inorder r)"
    by (intro becomesI [of _ _ _ "Node (Node l n Leaf) m r'"]) (use s3(2,3) f(1) sp(3) in \<open>auto simp: tree_at_def\<close>)
  ultimately show ?thesis using False sp(3) by auto
qed

subsection \<open>Deletion\<close>

lemma becomes_finish:
  assumes "is_tree s p T" "current (updateNode tree) s T" "SplayTreeCheck tree" and "node \<noteq> 0" "node \<notin> set_tree T"
  shows "\<exists>s'. SplayNodeFinish node s = Some s' \<and> tree_at (tree\<lparr>root := p\<rparr>) s' T \<and> same_but {node} s s'"
proof -
  define s' where "s' = SplayNodeSetRightChild node 0 (SplayNodeSetLeftChild node 0 s)"
  have sb: "same_but {node} s s'"
    by (simp add: s'_def SplayNodeSetRightChild_def SplayNodeSetLeftChild_def same_but_def)
  moreover have "SplayNodeFinish node s = Some s'"
    using assms(4) by (simp add: SplayNodeFinish_def SplayNodeCheck_def s'_def Let_def)
  moreover have "tree_at (tree\<lparr>root := p\<rparr>) s' T"
    using assms same_but_tree [OF sb, of T] by (simp add: tree_at_def)
  ultimately show ?thesis by blast
qed

text \<open>Joining the two subtrees of a root that is being deleted.\<close>

lemma delete_join:
  assumes t: "tree_at tree s (Node l n r)" and ne: "l \<noteq> Leaf" and p: "proper (inorder l @ n # inorder r)"
    and greater: "\<forall>x \<in> set_tree l. class_of tree s k x = CompareGREATER"
  shows "\<exists>m s1 s2 T. SplaySplay (tree\<lparr>root := left_of s n\<rparr>) (SplayCompare (tree\<lparr>root := left_of s n\<rparr>) k) s =
      Some (False, m, tree\<lparr>root := m\<rparr>, s1) \<and> right_of s1 m = 0 \<and>
    (if updateNode tree \<noteq> None then SplayNodeUpdate tree m (SplayNodeSetRightChild m (right_of s n) s1)
     else Some (SplayNodeSetRightChild m (right_of s n) s1)) = Some s2 \<and>
    is_tree s2 m T \<and> current (updateNode tree) s2 T \<and> inorder T = inorder l @ inorder r \<and>
    same_but (set_tree l \<union> {sides}) s s2"
proof -
  have f: "SplayTreeCheck tree" "is_tree s (left_of s n) l" "is_tree s (right_of s n) r"
    "current (updateNode tree) s l" "current (updateNode tree) s r" using t by (auto simp: tree_at_def)
  have dist: "distinct (inorder l)" "0 \<notin> set_tree l" "sides \<notin> set_tree l" "sides \<notin> set_tree r"
    "set_tree l \<inter> set_tree r = {}" using p by (auto simp: proper_def)
  let ?tree = "tree\<lparr>root := left_of s n\<rparr>"
  have t0: "tree_at ?tree s l" using f by (simp add: tree_at_def)
  obtain l' m s1 where sp: "SplaySplay ?tree (SplayCompare ?tree k) s = Some (False, m, ?tree\<lparr>root := m\<rparr>, s1)"
    "tree_at (?tree\<lparr>root := m\<rparr>) s1 (Node l' m Leaf)" "inorder l = inorder l' @ [m]" "same_but (set_tree l \<union> {sides}) s s1"
    using splay_all_greater [OF t0 ne _ dist(1-3), of k] greater by (metis class_of_root)
  have m: "m \<noteq> 0" "is_tree s1 (left_of s1 m) l'" "right_of s1 m = 0" "current (updateNode tree) s1 l'"
    using sp(2) by (auto simp: tree_at_def)
  have sl: "set_tree l = set_tree l' \<union> {m}" "m \<notin> set_tree l'"
    unfolding set_inorder [symmetric] using sp(3) dist(1) by (simp, auto)
  define s2 where "s2 = SplayNodeSetRightChild m (right_of s n) s1"
  have s2: "same_but {m} s1 s2" "left_of s2 = left_of s1" "right_of s2 m = right_of s n" "prop_of s2 = prop_of s1" "data_of s2 = data_of s1"
    by (simp_all add: s2_def SplayNodeSetRightChild_def same_but_def)
  have cur: "current u s2 t = current u s1 t" for u t using s2(4,5) by (intro current_cong) simp
  have fr: "(set_tree l \<union> {sides}) \<inter> set_tree r = {}" "{m} \<inter> set_tree r = {}" "{m} \<inter> set_tree l' = {}"
    "m \<notin> set_tree l' \<union> set_tree r"
    using dist sl by auto
  have r2: "is_tree s2 (right_of s2 m) r" "current (updateNode tree) s2 r"
    using same_but_tree [OF s2(1) fr(2)] same_but_tree [OF sp(4) fr(1)] f(3,5) s2(3) by simp_all
  have l2: "is_tree s2 (left_of s2 m) l'" "current (updateNode tree) s2 l'"
    using same_but_tree(1) [OF s2(1) fr(3)] m(2,4) s2(2) cur by simp_all
  obtain s3 where s3: "(if updateNode tree \<noteq> None then SplayNodeUpdate tree m s2 else Some s2) = Some s3"
    "is_tree s3 m (Node l' m r)" "current (updateNode tree) s3 (Node l' m r)" "same_but {m} s2 s3"
    using maybe_update [OF f(1) m(1) l2(1) r2(1) l2(2) r2(2) fr(4)] by blast
  have "same_but (set_tree l \<union> {sides}) s s3"
    by (rule same_but_trans [OF sp(4) same_but_trans [OF s2(1) s3(4) order_refl]]) (use sl in auto)
  moreover have "SplaySplay ?tree (SplayCompare ?tree k) s = Some (False, m, tree\<lparr>root := m\<rparr>, s1)" using sp(1) by simp
  moreover have "inorder (Node l' m r) = inorder l @ inorder r" using sp(3) by simp
  ultimately show ?thesis using m(3) s3(1-3) unfolding s2_def by blast
qed

lemma SplayTreeDelete_ok:
  assumes "splay_nodes tree s xs" and cl: "classified (class_of tree s k) xs"
    and node: "node \<noteq> 0" "\<forall>x \<in> set xs. class_of tree s k x = CompareEQUAL \<longrightarrow> x = node"
  shows "\<exists>tree' s'. SplayTreeDelete tree node k s =
      Some (if \<exists>x \<in> set xs. class_of tree s k x = CompareEQUAL then ResOK else ResFAIL, tree', s') \<and>
    becomes tree s (set xs \<union> {sides}) tree' s'
      (if \<exists>x \<in> set xs. class_of tree s k x = CompareEQUAL then remove1 node xs else xs)"
proof -
  obtain T where T: "tree_at tree s T" "inorder T = xs" using assms(1) by (auto simp: splay_nodes_def)
  let ?c = "class_of tree s k" and ?A = "set xs \<union> {sides}"
  have chk: "SplayTreeCheck tree" using T by (simp add: tree_at_def)
  show ?thesis
  proof (cases "T = Leaf")
    case True
    then show ?thesis
      using splay_empty [of tree s] T chk assms(1) node becomes_refl [OF assms(1)]
      by (auto simp: SplayTreeDelete_def SplayNodeCheck_def)
  next
    case False
    have "classified ?c (inorder T)" using T(2) cl by simp
    from T(1) False this obtain n l r s1 where sp: "SplaySplay tree (SplayCompare tree k) s =
        Some (\<exists>x \<in> set_tree T. ?c x = CompareEQUAL, n, tree\<lparr>root := n\<rparr>, s1)"
      "tree_at (tree\<lparr>root := n\<rparr>) s1 (Node l n r)" "inorder l @ n # inorder r = inorder T"
      "same_but (set_tree T \<union> {sides}) s s1" "?c n = CompareEQUAL \<longleftrightarrow> (\<exists>x \<in> set_tree T. ?c x = CompareEQUAL)"
      "\<forall>x \<in> set_tree l. ?c x = CompareGREATER" "\<forall>x \<in> set_tree r. ?c x = CompareLESS"
      by (rule splay_key)
    have sT: "set_tree T = set xs" using T(2) by (metis set_inorder)
    have sb1: "same_but ?A s s1" using sp(4) sT by simp
    have xs: "xs = inorder l @ n # inorder r" using sp(3) T(2) by simp
    show ?thesis
    proof (cases "?c n = CompareEQUAL")
      case nf: False
      have "becomes tree s ?A (tree\<lparr>root := n\<rparr>) s1 xs" by (rule becomesI [OF sp(2) _ sb1]) (use xs in simp)
      then show ?thesis
        using sp(1,5) nf chk node(1) sT by (auto simp: SplayTreeDelete_def SplayNodeCheck_def)
    next
      case eq: True
      then have n: "n = node" using node(2) xs by auto
      have pr: "proper (inorder l @ n # inorder r)" using classified_proper [OF cl] xs by simp
      then have nn: "node \<notin> set_tree l" "node \<notin> set_tree r" using n by (auto simp: proper_def)
      have rem: "remove1 node xs = inorder l @ inorder r" using nn n by (simp add: xs remove1_append)
      have t1: "is_tree s1 (left_of s1 n) l" "is_tree s1 (right_of s1 n) r"
        "current (updateNode tree) s1 l" "current (updateNode tree) s1 r" using sp(2) by (auto simp: tree_at_def)
      have start: "SplayTreeDelete tree node k s = (if left_of s1 n = 0 then do {
           s' \<leftarrow> SplayNodeFinish node s1; Some (ResOK, tree\<lparr>root := right_of s1 n\<rparr>, s') }
         else if right_of s1 n = 0 then do {
           s' \<leftarrow> SplayNodeFinish node s1; Some (ResOK, tree\<lparr>root := left_of s1 n\<rparr>, s') }
         else do {
           (found, leftLast, tree', s) \<leftarrow> SplaySplay (tree\<lparr>root := left_of s1 n\<rparr>) (SplayCompare (tree\<lparr>root := left_of s1 n\<rparr>) k) s1;
           if found then Some (ResFAIL, tree', s)
           else do {
             aver (right_of s leftLast = 0);
             s \<leftarrow> (if updateNode tree' \<noteq> None then SplayNodeUpdate tree' leftLast (SplayNodeSetRightChild leftLast (right_of s1 n) s)
                  else Some (SplayNodeSetRightChild leftLast (right_of s1 n) s));
             s \<leftarrow> SplayNodeFinish node s;
             Some (ResOK, tree', s)
           }
         })"
        using sp(1,5) eq n chk node(1) by (simp add: SplayTreeDelete_def SplayNodeCheck_def Let_def cong: if_cong)
      have found: "\<exists>x \<in> set xs. ?c x = CompareEQUAL" using eq xs by auto
      have sub: "?A \<union> {node} \<subseteq> ?A" using xs n by auto
      show ?thesis
      proof (cases "l = Leaf \<or> r = Leaf")
        case True
        define p where "p = (if l = Leaf then right_of s1 n else left_of s1 n)"
        define T' where "T' = (if l = Leaf then r else l)"
        have T': "is_tree s1 p T'" "current (updateNode tree) s1 T'" "node \<notin> set_tree T'" "inorder T' = inorder l @ inorder r"
          using t1 nn True by (auto simp: p_def T'_def)
        obtain s2 where s2: "SplayNodeFinish node s1 = Some s2" "tree_at (tree\<lparr>root := p\<rparr>) s2 T'" "same_but {node} s1 s2"
          using becomes_finish [OF T'(1,2) chk node(1) T'(3)] by blast
        have lz: "left_of s1 n = 0 \<longleftrightarrow> l = Leaf" "right_of s1 n = 0 \<longleftrightarrow> r = Leaf"
          using t1(1,2) by (cases l; cases r; auto)+
        have "SplayTreeDelete tree node k s = Some (ResOK, tree\<lparr>root := p\<rparr>, s2)"
          unfolding start using s2(1) True lz by (auto simp: p_def)
        moreover have "becomes tree s ?A (tree\<lparr>root := p\<rparr>) s2 (inorder l @ inorder r)"
          by (rule becomesI [OF s2(2) T'(4) same_but_trans [OF sb1 s2(3) sub]])
        ultimately show ?thesis using found rem by auto
      next
        case False
        have cls: "class_of (tree\<lparr>root := n\<rparr>) s1 k = ?c" using sb1 by (simp add: same_but_def class_of_cong [of s1 s])
        have dj: "\<forall>x \<in> set_tree l. class_of (tree\<lparr>root := n\<rparr>) s1 k x = CompareGREATER" "l \<noteq> Leaf"
          using sp(6) cls False by simp_all
        have up: "updateNode (tree\<lparr>root := n\<rparr>) = updateNode tree" "tree\<lparr>root := n, root := q\<rparr> = tree\<lparr>root := q\<rparr>" for q
          by simp_all
        from delete_join [OF sp(2) dj(2) pr dj(1), unfolded up update_root] obtain m s2 s3 T' where j:
          "SplaySplay (tree\<lparr>root := left_of s1 n\<rparr>) (SplayCompare (tree\<lparr>root := left_of s1 n\<rparr>) k) s1 = Some (False, m, tree\<lparr>root := m\<rparr>, s2)"
          "right_of s2 m = 0"
          "(if updateNode tree \<noteq> None then SplayNodeUpdate tree m (SplayNodeSetRightChild m (right_of s1 n) s2)
            else Some (SplayNodeSetRightChild m (right_of s1 n) s2)) = Some s3"
          "is_tree s3 m T'" "current (updateNode tree) s3 T'" "inorder T' = inorder l @ inorder r" "same_but (set_tree l \<union> {sides}) s1 s3"
          by (elim exE conjE)
        have nT: "node \<notin> set_tree T'" unfolding set_inorder [symmetric] j(6) using nn by simp
        obtain s4 where s4: "SplayNodeFinish node s3 = Some s4" "tree_at (tree\<lparr>root := m\<rparr>) s4 T'" "same_but {node} s3 s4"
          using becomes_finish [OF j(4,5) chk node(1) nT] by blast
        have lz: "left_of s1 n \<noteq> 0" "right_of s1 n \<noteq> 0"
          using t1(1,2) False by (cases l; cases r; auto)+
        have "SplayTreeDelete tree node k s = Some (ResOK, tree\<lparr>root := m\<rparr>, s4)"
          unfolding start using j(1,2) lz s4(1) j(3) by (cases "updateNode tree") simp_all
        moreover have "same_but ?A s s4"
          by (rule same_but_trans [OF sb1 same_but_trans [OF j(7) s4(3) order_refl]]) (use xs n in auto)
        then have "becomes tree s ?A (tree\<lparr>root := m\<rparr>) s4 (inorder l @ inorder r)"
          by (rule becomesI [OF s4(2) j(6)])
        ultimately show ?thesis using found rem by auto
      qed
    qed
  qed
qed

subsection \<open>Neighbours and iteration\<close>

definition last_or_null :: "nat list \<Rightarrow> nat" where
  "last_or_null xs = (if xs = [] then 0 else last xs)"

definition first_or_null :: "nat list \<Rightarrow> nat" where
  "first_or_null xs = (if xs = [] then 0 else hd xs)"

lemma inorder_Nil [simp]: "inorder t = [] \<longleftrightarrow> t = Leaf"
  by (cases t) auto

lemma SplayTreeNeighbours_ok:
  assumes "splay_nodes tree s xs" and cl: "classified (class_of tree s k) xs"
  shows "\<exists>tree' s'. SplayTreeNeighbours tree k s =
      (if \<exists>x \<in> set xs. class_of tree s k x = CompareEQUAL then Some (ResFAIL, None, tree', s')
       else Some (ResOK, Some (last_or_null (filter (\<lambda>x. class_of tree s k x = CompareGREATER) xs),
         first_or_null (filter (\<lambda>x. class_of tree s k x = CompareLESS) xs)), tree', s')) \<and>
    becomes tree s (set xs \<union> {sides}) tree' s' xs"
proof -
  obtain T where T: "tree_at tree s T" "inorder T = xs" using assms(1) by (auto simp: splay_nodes_def)
  let ?c = "class_of tree s k" and ?A = "set xs \<union> {sides}"
  have chk: "SplayTreeCheck tree" using T by (simp add: tree_at_def)
  show ?thesis
  proof (cases "T = Leaf")
    case True
    then show ?thesis
      using splay_empty [of tree s] T chk becomes_refl [OF assms(1)]
      by (auto simp: SplayTreeNeighbours_def last_or_null_def first_or_null_def)
  next
    case False
    have "classified ?c (inorder T)" using T(2) cl by simp
    from T(1) False this obtain n l r s1 where sp: "SplaySplay tree (SplayCompare tree k) s =
        Some (\<exists>x \<in> set_tree T. ?c x = CompareEQUAL, n, tree\<lparr>root := n\<rparr>, s1)"
      "tree_at (tree\<lparr>root := n\<rparr>) s1 (Node l n r)" "inorder l @ n # inorder r = inorder T"
      "same_but (set_tree T \<union> {sides}) s s1" "?c n = CompareEQUAL \<longleftrightarrow> (\<exists>x \<in> set_tree T. ?c x = CompareEQUAL)"
      "\<forall>x \<in> set_tree l. ?c x = CompareGREATER" "\<forall>x \<in> set_tree r. ?c x = CompareLESS"
      by (rule splay_key)
    have sT: "set_tree T = set xs" using T(2) by (metis set_inorder)
    have sb1: "same_but ?A s s1" using sp(4) sT by simp
    have xs: "inorder l @ n # inorder r = xs" using sp(3) T(2) by simp
    have b1: "becomes tree s ?A (tree\<lparr>root := n\<rparr>) s1 xs" by (rule becomesI [OF sp(2) _ sb1]) (simp add: xs)
    have pr: "proper (inorder l @ n # inorder r)" using classified_proper [OF cl] xs by simp
    have n0: "n \<noteq> 0" using pr by (simp add: proper_def)
    have cls: "class_of tree s1 k = ?c" "class_of (tree\<lparr>root := n\<rparr>) s1 k = ?c"
      using sb1 by (simp_all add: same_but_def class_of_cong [of s1 s])
    have sub: "set_tree l \<union> {n, sides} \<subseteq> ?A" "set_tree r \<union> {n, sides} \<subseteq> ?A" using xs by auto
    have flt: "filter (\<lambda>x. ?c x = CompareGREATER) xs = inorder l @ (if ?c n = CompareGREATER then [n] else [])"
      "filter (\<lambda>x. ?c x = CompareLESS) xs = (if ?c n = CompareLESS then [n] else []) @ inorder r"
      unfolding xs [symmetric] using sp(6,7) by (intro filter_classes; simp)+
    show ?thesis
    proof (cases "?c n")
      case CompareEQUAL
      then show ?thesis using sp(1,5) chk b1 sT by (auto simp: SplayTreeNeighbours_def)
    next
      case CompareLESS
      have "\<forall>x \<in> set_tree l. class_of (tree\<lparr>root := n\<rparr>) s1 k x = CompareGREATER" using sp(6) cls by simp
      from SplayTreePredecessor_ok [OF sp(2) pr this] obtain tree' s' where p:
        "SplayTreePredecessor (tree\<lparr>root := n\<rparr>) k s1 = Some (if l = Leaf then 0 else last (inorder l), tree', s')"
        "becomes (tree\<lparr>root := n\<rparr>) s1 (set_tree l \<union> {n, sides}) tree' s' xs" unfolding xs by blast
      have "becomes tree s ?A tree' s' xs" by (rule becomes_trans [OF b1 p(2)]) (use sub in auto)
      then show ?thesis
        using sp(1,5) chk CompareLESS p(1) sT flt n0 cls
        by (auto simp: SplayTreeNeighbours_def SplayCompare_eq last_or_null_def first_or_null_def)
    next
      case CompareGREATER
      have "\<forall>x \<in> set_tree r. class_of (tree\<lparr>root := n\<rparr>) s1 k x = CompareLESS" using sp(7) cls by simp
      from SplayTreeSuccessor_ok [OF sp(2) pr this] obtain tree' s' where p:
        "SplayTreeSuccessor (tree\<lparr>root := n\<rparr>) k s1 = Some (if r = Leaf then 0 else hd (inorder r), tree', s')"
        "becomes (tree\<lparr>root := n\<rparr>) s1 (set_tree r \<union> {n, sides}) tree' s' xs" unfolding xs by blast
      have "becomes tree s ?A tree' s' xs" by (rule becomes_trans [OF b1 p(2)]) (use sub in auto)
      then show ?thesis
        using sp(1,5) chk CompareGREATER p(1) sT flt n0 cls
        by (auto simp: SplayTreeNeighbours_def SplayCompare_eq last_or_null_def first_or_null_def)
    qed
  qed
qed

lemma SplayTreeFirst_ok:
  assumes "splay_nodes tree s xs" and pr: "proper xs" and less: "\<forall>x \<in> set xs. class_of tree s k x = CompareLESS"
  shows "\<exists>tree' s'. SplayTreeFirst tree k s = Some (first_or_null xs, tree', s') \<and>
    becomes tree s (set xs \<union> {sides}) tree' s' xs"
proof -
  obtain T where T: "tree_at tree s T" "inorder T = xs" using assms(1) by (auto simp: splay_nodes_def)
  have chk: "SplayTreeCheck tree" using T by (simp add: tree_at_def)
  have sT: "set_tree T = set xs" using T(2) by (metis set_inorder)
  show ?thesis
  proof (cases "T = Leaf")
    case True
    then show ?thesis
      using T chk becomes_refl [OF assms(1)] by (auto simp: SplayTreeFirst_def first_or_null_def tree_at_def)
  next
    case False
    have p: "distinct (inorder T)" "0 \<notin> set_tree T" "sides \<notin> set_tree T" using pr T(2) sT by (auto simp: proper_def)
    obtain r m s' where sp: "SplaySplay tree (SplayCompare tree k) s = Some (False, m, tree\<lparr>root := m\<rparr>, s')"
      "tree_at (tree\<lparr>root := m\<rparr>) s' (Node Leaf m r)" "inorder T = m # inorder r" "same_but (set_tree T \<union> {sides}) s s'"
      using splay_all_less [OF T(1) False _ p, of k] less sT by metis
    have "becomes tree s (set xs \<union> {sides}) (tree\<lparr>root := m\<rparr>) s' xs"
      by (rule becomesI [OF sp(2)]) (use sp(3,4) T(2) sT in simp_all)
    moreover have "root tree \<noteq> 0" using T(1) False by (cases T) (auto simp: tree_at_def)
    moreover have "left_of s' m = 0" using sp(2) by (simp add: tree_at_def)
    ultimately show ?thesis using sp(1,3) T(2) chk by (auto simp: SplayTreeFirst_def first_or_null_def)
  qed
qed

lemma SplayTreeNext_ok:
  assumes "splay_nodes tree s xs" and cl: "classified (class_of tree s k) xs"
    and old: "old \<in> set xs" "class_of tree s k old = CompareEQUAL"
  shows "\<exists>tree' s'. SplayTreeNext tree old k s =
      Some (first_or_null (filter (\<lambda>x. class_of tree s k x = CompareLESS) xs), tree', s') \<and>
    becomes tree s (set xs \<union> {sides}) tree' s' xs"
proof -
  obtain T where T: "tree_at tree s T" "inorder T = xs" using assms(1) by (auto simp: splay_nodes_def)
  let ?c = "class_of tree s k" and ?A = "set xs \<union> {sides}"
  have chk: "SplayTreeCheck tree" using T by (simp add: tree_at_def)
  have "T \<noteq> Leaf" using T(2) old(1) by auto
  have "classified ?c (inorder T)" using T(2) cl by simp
  from T(1) \<open>T \<noteq> Leaf\<close> this obtain n l r s1 where sp: "SplaySplay tree (SplayCompare tree k) s =
      Some (\<exists>x \<in> set_tree T. ?c x = CompareEQUAL, n, tree\<lparr>root := n\<rparr>, s1)"
    "tree_at (tree\<lparr>root := n\<rparr>) s1 (Node l n r)" "inorder l @ n # inorder r = inorder T"
    "same_but (set_tree T \<union> {sides}) s s1" "?c n = CompareEQUAL \<longleftrightarrow> (\<exists>x \<in> set_tree T. ?c x = CompareEQUAL)"
    "\<forall>x \<in> set_tree l. ?c x = CompareGREATER" "\<forall>x \<in> set_tree r. ?c x = CompareLESS"
    by (rule splay_key)
  have sT: "set_tree T = set xs" using T(2) by (metis set_inorder)
  have sb1: "same_but ?A s s1" using sp(4) sT by simp
  have xs: "inorder l @ n # inorder r = xs" using sp(3) T(2) by simp
  have "old \<in> set_tree l \<or> old = n \<or> old \<in> set_tree r" using old(1) unfolding xs [symmetric] by auto
  then have on: "n = old" using sp(6,7) old(2) by auto
  have pr: "proper (inorder l @ n # inorder r)" using classified_proper [OF cl] xs by simp
  have "\<forall>x \<in> set_tree r. class_of (tree\<lparr>root := n\<rparr>) s1 k x = CompareLESS"
    using sp(7) sb1 by (simp add: same_but_def class_of_cong [of s1 s])
  from SplayTreeSuccessor_ok [OF sp(2) pr this] obtain tree' s' where p:
    "SplayTreeSuccessor (tree\<lparr>root := n\<rparr>) k s1 = Some (if r = Leaf then 0 else hd (inorder r), tree', s')"
    "becomes (tree\<lparr>root := n\<rparr>) s1 (set_tree r \<union> {n, sides}) tree' s' xs" unfolding xs by blast
  have flt: "filter (\<lambda>x. ?c x = CompareLESS) xs = inorder r"
    unfolding xs [symmetric] using filter_classes(2) [of "inorder l" ?c "inorder r" n] sp(6,7) old(2) on by simp
  have "becomes tree s ?A (tree\<lparr>root := n\<rparr>) s1 xs" by (rule becomesI [OF sp(2) _ sb1]) (simp add: xs)
  from this p(2) have "becomes tree s ?A tree' s' xs" by (rule becomes_trans) (use xs in auto)
  moreover have "old \<noteq> 0" using pr on by (simp add: proper_def)
  moreover have "(\<exists>x \<in> set_tree T. ?c x = CompareEQUAL)" using sT old by auto
  ultimately show ?thesis
    using sp(1) chk p(1) flt on by (auto simp: SplayTreeNext_def SplayNodeCheck_def first_or_null_def)
qed

subsection \<open>Searching for a client property\<close>

text \<open>
  What \<^verbatim>\<open>SplayFindFirst\<close> asks of its client: the test of a subtree tells whether the test of some node of
  the subtree holds, given that the callback has combined the properties of node and children.
\<close>

locale aggregate =
  fixes update :: "'d \<Rightarrow> 'p option \<Rightarrow> 'p option \<Rightarrow> 'p" and testNode :: "'d \<Rightarrow> bool" and testTree :: "'p \<Rightarrow> bool"
  assumes combine: "testTree (update d pl pr) \<longleftrightarrow>
    testNode d \<or> (\<exists>p. pl = Some p \<and> testTree p) \<or> (\<exists>p. pr = Some p \<and> testTree p)"
begin

lemma current_test:
  "current (Some update) s T \<Longrightarrow> is_tree s p T \<Longrightarrow> p \<noteq> 0 \<Longrightarrow>
    testTree (prop_of s p) \<longleftrightarrow> (\<exists>x \<in> set_tree T. testNode (data_of s x))"
proof (induction T arbitrary: p)
  case (Node l n r)
  have "(\<exists>q. root_prop s t = Some q \<and> testTree q) \<longleftrightarrow> (\<exists>x \<in> set_tree t. testNode (data_of s x))"
    if "is_tree s q t" "q \<noteq> 0 \<Longrightarrow> testTree (prop_of s q) \<longleftrightarrow> (\<exists>x \<in> set_tree t. testNode (data_of s x))" for q t
    using that by (cases t) auto
  from this [of "left_of s n" l] this [of "right_of s n" r] show ?case
    using Node combine [of "data_of s n" "root_prop s l" "root_prop s r"] by auto
qed simp

lemma subtree_test:
  assumes "current (Some update) s T" and "is_tree s q T"
  shows "q \<noteq> 0 \<and> testTree (prop_of s q) \<longleftrightarrow> (\<exists>x \<in> set_tree T. testNode (data_of s x))"
proof (cases "q = 0")
  case True
  then show ?thesis using assms(2) by simp
next
  case False
  then show ?thesis using current_test [OF assms] by simp
qed

lemma find_first_cmp:
  assumes cl: "classified c xs" and e: "e \<in> set xs" "c e = CompareEQUAL"
    and t: "\<forall>x \<in> set xs. c x = CompareGREATER \<longrightarrow> \<not> testNode (d x)" "\<forall>x \<in> set xs. c x = CompareEQUAL \<longrightarrow> testNode (d x)"
  shows "cmp_ok (Some update) True c d xs (SplayFindFirstCompare testNode testTree)"
  unfolding cmp_ok_def
proof (intro allI impI)
  fix s :: "('d, 'p) splay_heap" and p tr as bs
  assume a: "is_tree s p tr \<and> p \<noteq> 0 \<and> (True \<longrightarrow> kids (Some update) s tr) \<and> data_of s = d \<and> xs = as @ inorder tr @ bs \<and>
    (\<forall>x \<in> set as. c x = CompareGREATER) \<and> (\<forall>x \<in> set bs. c x = CompareLESS)"
  then obtain l r where tr: "tr = Node l p r" using is_tree_nonzero by blast
  have k: "current (Some update) s l" "current (Some update) s r" "is_tree s (left_of s p) l" "is_tree s (right_of s p) r"
    and d: "data_of s = d" and xs: "xs = as @ (inorder l @ p # inorder r) @ bs" using a tr by auto
  have L: "left_of s p \<noteq> 0 \<and> testTree (prop_of s (left_of s p)) \<longleftrightarrow> (\<exists>x \<in> set_tree l. testNode (d x))"
    and R: "right_of s p \<noteq> 0 \<and> testTree (prop_of s (right_of s p)) \<longleftrightarrow> (\<exists>x \<in> set_tree r. testNode (d x))"
    using subtree_test [OF k(1,3)] subtree_test [OF k(2,4)] d by simp_all
  have ord: "\<forall>x \<in> set_tree l. c x = CompareGREATER \<or> c p = CompareLESS"
    "\<forall>x \<in> set_tree r. c p = CompareGREATER \<or> c x = CompareLESS"
    using cl unfolding xs by (auto simp: classified_def sorted_wrt_append precedes_def)
  have et: "e \<in> set_tree l \<or> e = p \<or> e \<in> set_tree r"
  proof -
    have "e \<notin> set as" "e \<notin> set bs" using a e(2) by auto
    then show ?thesis using e(1) unfolding xs by auto
  qed
  have sub: "set_tree l \<subseteq> set xs" "p \<in> set xs" "set_tree r \<subseteq> set xs" unfolding xs by auto
  have p0: "SplayNodeCheck p" using a by (simp add: SplayNodeCheck_def)
  show "SplayFindFirstCompare testNode testTree s p = Some (c p)"
  proof (cases "c p")
    case CompareLESS
    then have "e \<in> set_tree l" using et e(2) ord(2) by auto
    then have "\<exists>x \<in> set_tree l. testNode (d x)" using t(2) e sub by auto
    then show ?thesis using L p0 CompareLESS by (simp add: SplayFindFirstCompare_def)
  next
    case CompareEQUAL
    then have "\<not> (\<exists>x \<in> set_tree l. testNode (d x))" using ord(1) t(1) sub by auto
    moreover have "testNode (d p)" using CompareEQUAL t(2) sub by auto
    ultimately show ?thesis using L p0 CompareEQUAL d by (simp add: SplayFindFirstCompare_def)
  next
    case CompareGREATER
    then have "\<not> (\<exists>x \<in> set_tree l. testNode (d x))" "\<not> testNode (d p)" using ord(1) t(1) sub by auto
    moreover have "e \<in> set_tree r" using et e(2) ord(1) CompareGREATER by auto
    then have "\<exists>x \<in> set_tree r. testNode (d x)" using t(2) e sub by auto
    ultimately show ?thesis using L R p0 CompareGREATER d by (auto simp: SplayFindFirstCompare_def)
  qed
qed

end

lemma aggregate_flip: "aggregate u testNode testTree \<Longrightarrow> aggregate (\<lambda>d a b. u d b a) testNode testTree"
  by (auto simp: aggregate_def)

lemma find_last_cmp:
  assumes agg: "aggregate update testNode testTree" and cl: "classified c xs" and e: "e \<in> set xs" "c e = CompareEQUAL"
    and t: "\<forall>x \<in> set xs. c x = CompareLESS \<longrightarrow> \<not> testNode (d x)" "\<forall>x \<in> set xs. c x = CompareEQUAL \<longrightarrow> testNode (d x)"
  shows "cmp_ok (Some update) True c d xs (SplayFindLastCompare testNode testTree)"
proof -
  have "cmp_ok (Some (\<lambda>d a b. update d b a)) True (mirc \<circ> c) d (rev xs) (SplayFindFirstCompare testNode testTree)"
    by (rule aggregate.find_first_cmp [OF aggregate_flip [OF agg], where e = e])
      (use assms in \<open>auto simp: classified_rev\<close>)
  from cmp_ok_mir [OF this]
  have "cmp_ok (Some update) True (mirc \<circ> (mirc \<circ> c)) d xs
    (\<lambda>s n. map_option mirc (SplayFindFirstCompare testNode testTree (mir s) n))" by (simp add: miru_def)
  moreover have "(\<lambda>s n. map_option mirc (SplayFindFirstCompare testNode testTree (mir s) n)) = SplayFindLastCompare testNode testTree"
    by (auto simp: fun_eq_iff SplayFindFirstCompare_def SplayFindLastCompare_def aver_def)
  ultimately show ?thesis by (simp add: comp_def)
qed

text \<open>The classification of the nodes by their place before, at or after the node \<open>e\<close>.\<close>

definition place :: "nat list \<Rightarrow> nat \<Rightarrow> nat \<Rightarrow> Compare" where
  "place as e x = (if x \<in> set as then CompareGREATER else if x = e then CompareEQUAL else CompareLESS)"

lemma place_classified: "proper (as @ e # bs) \<Longrightarrow> classified (place as e) (as @ e # bs)"
proof -
  assume p: "proper (as @ e # bs)"
  have "sorted_wrt (precedes (place as e)) as" by (rule precedes_all) (simp add: place_def)
  moreover have "\<forall>x \<in> set bs. place as e x = CompareLESS" using p by (auto simp: place_def proper_def)
  moreover from this have "sorted_wrt (precedes (place as e)) bs" by (intro precedes_all) simp
  ultimately show ?thesis using p
    by (auto simp: classified_def proper_def sorted_wrt_append precedes_def place_def)
qed

text \<open>A splay whose comparison agrees with \<open>place\<close> ends at \<open>e\<close>.\<close>

lemma splay_place:
  assumes t: "tree_at tree s T" and xs: "inorder T = as @ e # bs" "proper (as @ e # bs)"
    and cmp: "cmp_ok (updateNode tree) True (place as e) (data_of s) (inorder T) cmp"
  shows "\<exists>s'. SplaySplay tree cmp s = Some (True, e, tree\<lparr>root := e\<rparr>, s') \<and>
    becomes tree s (set (inorder T) \<union> {sides}) (tree\<lparr>root := e\<rparr>) s' (inorder T)"
proof -
  let ?c = "place as e"
  note f = t [unfolded tree_at_def]
  have ne: "T \<noteq> Leaf" using xs by auto
  have cl: "classified ?c (inorder T)" using place_classified [OF xs(2)] xs(1) by simp
  have eT: "e \<in> set_tree T" using xs(1) by (metis in_set_conv_decomp set_inorder)
  have ce: "?c e = CompareEQUAL" using xs(2) by (simp add: place_def proper_def)
  have "\<exists>n l r s'. SplaySplay tree cmp s = Some (\<exists>x \<in> set_tree T. ?c x = CompareEQUAL, n, tree\<lparr>root := n\<rparr>, s') \<and>
    is_tree s' n (Node l n r) \<and> inorder l @ n # inorder r = inorder T \<and>
    same_but (set_tree T \<union> {sides}) s s' \<and> kids (updateNode tree) s' (Node l n r) \<and>
    (current (updateNode tree) s T \<longrightarrow> current (updateNode tree) s' (Node l n r)) \<and>
    (?c n = CompareEQUAL \<longleftrightarrow> (\<exists>x \<in> set_tree T. ?c x = CompareEQUAL)) \<and>
    (\<forall>x \<in> set_tree l. ?c x = CompareGREATER) \<and> (\<forall>x \<in> set_tree r. ?c x = CompareLESS)"
    by (rule SplaySplay_ok [OF _ refl cl _ ne, where U = True])
      (use f cmp current_good [of _ s T] current_kids [of _ s T] in auto)
  then obtain n l r s' where r: "SplaySplay tree cmp s = Some (\<exists>x \<in> set_tree T. ?c x = CompareEQUAL, n, tree\<lparr>root := n\<rparr>, s')"
    "is_tree s' n (Node l n r)" "inorder l @ n # inorder r = inorder T" "same_but (set_tree T \<union> {sides}) s s'"
    "current (updateNode tree) s' (Node l n r)" "?c n = CompareEQUAL \<longleftrightarrow> (\<exists>x \<in> set_tree T. ?c x = CompareEQUAL)"
    using f by blast
  have ex: "\<exists>x \<in> set_tree T. ?c x = CompareEQUAL" using eT ce by blast
  then have "n = e" using r(6) by (auto simp: place_def split: if_splits)
  moreover have "becomes tree s (set (inorder T) \<union> {sides}) (tree\<lparr>root := n\<rparr>) s' (inorder T)"
    by (rule becomesI [of _ _ _ "Node l n r"]) (use r f in \<open>simp_all add: tree_at_def\<close>)
  ultimately show ?thesis using r(1) ex by auto
qed

lemma SplayFindFirst_ok:
  assumes "splay_nodes tree s xs" and pr: "proper xs" and u: "updateNode tree = Some g"
    and agg: "aggregate g testNode testTree"
  shows "\<exists>tree' s'. SplayFindFirst tree testNode testTree s = Some (find (\<lambda>x. testNode (data_of s x)) xs, tree', s') \<and>
    becomes tree s (set xs \<union> {sides}) tree' s' xs"
proof -
  obtain T where T: "tree_at tree s T" "inorder T = xs" using assms(1) by (auto simp: splay_nodes_def)
  have f: "SplayTreeCheck tree" "is_tree s (root tree) T" "current (Some g) s T" using T(1) u by (auto simp: tree_at_def)
  have sT: "set_tree T = set xs" using T(2) by (metis set_inorder)
  note test = aggregate.subtree_test [OF agg f(3,2), unfolded sT]
  show ?thesis
  proof (cases "\<exists>x \<in> set xs. testNode (data_of s x)")
    case False
    then have "find (\<lambda>x. testNode (data_of s x)) xs = None" by (auto simp: find_None_iff)
    then show ?thesis using False test f(1) becomes_refl [OF assms(1)] by (auto simp: SplayFindFirst_def Let_def)
  next
    case True
    then obtain as e bs where e: "xs = as @ e # bs" "testNode (data_of s e)" "\<forall>x \<in> set as. \<not> testNode (data_of s x)"
      using split_list_first_prop [of xs "\<lambda>x. testNode (data_of s x)"] by blast
    have fnd: "find (\<lambda>x. testNode (data_of s x)) xs = Some e"
      using e(2,3) unfolding e(1) by (induction as) auto
    have "cmp_ok (Some g) True (place as e) (data_of s) (inorder T) (SplayFindFirstCompare testNode testTree)"
      by (rule aggregate.find_first_cmp [OF agg, where e = e])
        (use e T(2) pr place_classified [of as e bs] in \<open>auto simp: place_def proper_def split: if_splits\<close>)
    then obtain s' where "SplaySplay tree (SplayFindFirstCompare testNode testTree) s = Some (True, e, tree\<lparr>root := e\<rparr>, s')"
      "becomes tree s (set (inorder T) \<union> {sides}) (tree\<lparr>root := e\<rparr>) s' (inorder T)"
      using splay_place [OF T(1), of as e bs] e(1) T(2) pr u by auto
    then show ?thesis using True test f(1) fnd T(2) by (auto simp: SplayFindFirst_def Let_def)
  qed
qed

lemma SplayFindLast_ok:
  assumes "splay_nodes tree s xs" and pr: "proper xs" and u: "updateNode tree = Some g"
    and agg: "aggregate g testNode testTree"
  shows "\<exists>tree' s'. SplayFindLast tree testNode testTree s = Some (find (\<lambda>x. testNode (data_of s x)) (rev xs), tree', s') \<and>
    becomes tree s (set xs \<union> {sides}) tree' s' xs"
proof -
  obtain T where T: "tree_at tree s T" "inorder T = xs" using assms(1) by (auto simp: splay_nodes_def)
  have f: "SplayTreeCheck tree" "is_tree s (root tree) T" "current (Some g) s T" using T(1) u by (auto simp: tree_at_def)
  have sT: "set_tree T = set xs" using T(2) by (metis set_inorder)
  note test = aggregate.subtree_test [OF agg f(3,2), unfolded sT]
  show ?thesis
  proof (cases "\<exists>x \<in> set xs. testNode (data_of s x)")
    case False
    then have "find (\<lambda>x. testNode (data_of s x)) (rev xs) = None" by (auto simp: find_None_iff)
    then show ?thesis using False test f(1) becomes_refl [OF assms(1)] by (auto simp: SplayFindLast_def Let_def)
  next
    case True
    then obtain as e bs where e: "xs = as @ e # bs" "testNode (data_of s e)" "\<forall>x \<in> set bs. \<not> testNode (data_of s x)"
      using split_list_last_prop [of xs "\<lambda>x. testNode (data_of s x)"] by blast
    have "find (\<lambda>x. testNode (data_of s x)) (zs @ e # ys) = Some e" if "\<forall>x \<in> set zs. \<not> testNode (data_of s x)" for zs ys
      using e(2) that by (induction zs) auto
    then have fnd: "find (\<lambda>x. testNode (data_of s x)) (rev xs) = Some e"
      using e(3) unfolding e(1) by simp
    have "cmp_ok (Some g) True (place as e) (data_of s) (inorder T) (SplayFindLastCompare testNode testTree)"
      by (rule find_last_cmp [OF agg, where e = e])
        (use e T(2) pr place_classified [of as e bs] in \<open>auto simp: place_def proper_def split: if_splits\<close>)
    then obtain s' where "SplaySplay tree (SplayFindLastCompare testNode testTree) s = Some (True, e, tree\<lparr>root := e\<rparr>, s')"
      "becomes tree s (set (inorder T) \<union> {sides}) (tree\<lparr>root := e\<rparr>) s' (inorder T)"
      using splay_place [OF T(1), of as e bs] e(1) T(2) pr u by auto
    then show ?thesis using True test f(1) fnd T(2) by (auto simp: SplayFindLast_def Let_def)
  qed
qed

subsection \<open>Refreshing a node\<close>

lemma good_changed:
  assumes "current u s0 T" and "classified c (inorder T)" and "c node = CompareEQUAL"
    and "\<And>n. prop_of s n = prop_of s0 n" and "\<And>n. n \<noteq> node \<Longrightarrow> data_of s n = data_of s0 n"
  shows "good u c s T"
  using assms(1,2)
proof (induction T)
  case (Node l n r)
  have cur: "current u s t = current u s0 t" if "node \<notin> set_tree t" for t
    using that assms(4,5) by (intro current_cong) metis
  have sub: "classified c (inorder l)" "classified c (inorder r)"
    using classified_sub [of c "[]" "inorder l" "n # inorder r"] classified_sub [of c "inorder l @ [n]" "inorder r" "[]"]
      Node.prems(2) by simp_all
  have l: "node \<notin> set_tree l" if "c n \<noteq> CompareLESS"
    using Node.prems(2) that assms(3) by (fastforce simp: classified_def sorted_wrt_append precedes_def)
  have r: "node \<notin> set_tree r" if "c n \<noteq> CompareGREATER"
    using Node.prems(2) that assms(3) by (fastforce simp: classified_def sorted_wrt_append precedes_def)
  show ?case using Node sub cur l r by auto
qed simp

text \<open>
  The client has changed the data of \<open>node\<close>, so the properties of the node and of all its ancestors may
  be out of date; \<open>old\<close> is the heap before the change.
\<close>

lemma SplayNodeRefresh_ok:
  assumes chk: "SplayTreeCheck tree" and T: "is_tree s (root tree) T" "current (updateNode tree) old T"
    and cl: "classified (class_of tree s k) (inorder T)" and u: "updateNode tree \<noteq> None"
    and node: "node \<in> set_tree T" "class_of tree s k node = CompareEQUAL"
    and old: "\<And>n. prop_of s n = prop_of old n" "\<And>n. n \<noteq> node \<Longrightarrow> data_of s n = data_of old n"
  shows "\<exists>tree' s'. SplayNodeRefresh tree node k s = Some (tree', s') \<and>
    becomes tree s (set_tree T \<union> {sides}) tree' s' (inorder T)"
proof -
  let ?c = "class_of tree s k" and ?u = "updateNode tree"
  have ne: "T \<noteq> Leaf" using node(1) by auto
  have good: "good ?u ?c s T" by (rule good_changed [OF T(2) cl node(2) old])
  have "\<exists>n l r s'. SplaySplay tree (SplayCompare tree k) s = Some (\<exists>x \<in> set_tree T. ?c x = CompareEQUAL, n, tree\<lparr>root := n\<rparr>, s') \<and>
    is_tree s' n (Node l n r) \<and> inorder l @ n # inorder r = inorder T \<and>
    same_but (set_tree T \<union> {sides}) s s' \<and> kids ?u s' (Node l n r) \<and>
    (current ?u s T \<longrightarrow> current ?u s' (Node l n r)) \<and>
    (?c n = CompareEQUAL \<longleftrightarrow> (\<exists>x \<in> set_tree T. ?c x = CompareEQUAL)) \<and>
    (\<forall>x \<in> set_tree l. ?c x = CompareGREATER) \<and> (\<forall>x \<in> set_tree r. ?c x = CompareLESS)"
    by (rule SplaySplay_ok [OF chk refl cl T(1) ne good, where U = False]) (simp_all add: cmp_ok_key [OF chk])
  then obtain n l r s1 where sp: "SplaySplay tree (SplayCompare tree k) s = Some (\<exists>x \<in> set_tree T. ?c x = CompareEQUAL, n, tree\<lparr>root := n\<rparr>, s1)"
    "is_tree s1 n (Node l n r)" "inorder l @ n # inorder r = inorder T" "same_but (set_tree T \<union> {sides}) s s1"
    "kids ?u s1 (Node l n r)" "\<forall>x \<in> set_tree l. ?c x = CompareGREATER" "\<forall>x \<in> set_tree r. ?c x = CompareLESS"
    by blast
  have found: "\<exists>x \<in> set_tree T. ?c x = CompareEQUAL" using node by blast
  have sT: "set_tree T = set_tree l \<union> {n} \<union> set_tree r"
    unfolding set_inorder [symmetric] sp(3) [symmetric] by auto
  then have n: "n = node" using node sp(6,7) by auto
  have dist: "n \<notin> set_tree l \<union> set_tree r" using cl unfolding sp(3) [symmetric] by (auto simp: classified_def)
  have n0: "n \<noteq> 0" "is_tree s1 (left_of s1 n) l" "is_tree s1 (right_of s1 n) r" "current ?u s1 l" "current ?u s1 r"
    using sp(2,5) by auto
  from u obtain g where g: "?u = Some g" by blast
  from maybe_update [OF chk n0 dist] g obtain s2 where s2: "SplayNodeUpdate tree n s1 = Some s2"
    "is_tree s2 n (Node l n r)" "current ?u s2 (Node l n r)" "same_but {n} s1 s2"
    by auto
  have "same_but (set_tree T \<union> {sides}) s s2" by (rule same_but_trans [OF sp(4) s2(4)]) (use sT in auto)
  then have "becomes tree s (set_tree T \<union> {sides}) (tree\<lparr>root := n\<rparr>) s2 (inorder T)"
    by (intro becomesI [of _ _ _ "Node l n r"]) (use s2 chk sp(3) in \<open>auto simp: tree_at_def\<close>)
  moreover have "SplayNodeRefresh tree node k s = Some (tree\<lparr>root := n\<rparr>, s2)"
    using sp(1) found s2(1) n n0(1) chk by (simp add: SplayNodeRefresh_def SplayNodeCheck_def)
  ultimately show ?thesis by blast
qed

subsection \<open>Properties\<close>

text \<open>A tree of three nodes, used by the witnesses: keys 5, 7, 9, and the largest key as client property.\<close>

definition order_nat :: "nat \<Rightarrow> nat \<Rightarrow> Compare" where
  "order_nat k d = (if k < d then CompareLESS else if k = d then CompareEQUAL else CompareGREATER)"

definition largest :: "nat \<Rightarrow> nat option \<Rightarrow> nat option \<Rightarrow> nat" where
  "largest d l r = max d (max (case l of None \<Rightarrow> 0 | Some p \<Rightarrow> p) (case r of None \<Rightarrow> 0 | Some p \<Rightarrow> p))"

definition sample_tree :: "(nat, nat, nat) SplayTreeStruct" where
  "sample_tree = \<lparr>compare = Some order_nat, updateNode = Some largest, root = 20\<rparr>"

definition sample_heap :: "(nat, nat) splay_heap" where
  "sample_heap = \<lparr>left_of = (\<lambda>n. if n = 20 then 10 else 0), right_of = (\<lambda>n. if n = 20 then 30 else 0),
     data_of = (\<lambda>n. if n = 10 then 5 else if n = 20 then 7 else if n = 30 then 9 else 6),
     prop_of = (\<lambda>n. if n = 10 then 5 else if n = 40 then 6 else 9)\<rparr>"

lemma sample_at: "tree_at sample_tree sample_heap (Node (Node Leaf 10 Leaf) 20 (Node Leaf 30 Leaf))"
  by (simp add: tree_at_def sample_tree_def sample_heap_def SplayTreeCheck_def largest_def)

lemma sample_nodes: "splay_nodes sample_tree sample_heap [10, 20, 30]"
  using sample_at by (auto simp: splay_nodes_def)

lemma sample_class: "class_of sample_tree sample_heap k n =
    order_nat k (if n = 10 then 5 else if n = 20 then 7 else if n = 30 then 9 else 6)"
  by (simp add: class_of_def sample_tree_def sample_heap_def)

lemma sample_classified: "classified (class_of sample_tree sample_heap k) [10, 20, 30]"
  by (auto simp: classified_def precedes_def sample_class order_nat_def sides_def)

text \<open>
  C1: splaying a tree at a key keeps the nodes and their order, brings to the root the node that compares
  equal if there is one and otherwise a neighbour of the key's place, so that everything to the left
  of the root is before the key and everything to the right after it, recomputes every client property
  (rotations, links and the pointer reversal of the assembly included), and writes no other node.
\<close>

theorem splay_preserves_order:
  assumes "tree_at tree s T" and "T \<noteq> Leaf" and "classified (class_of tree s k) (inorder T)"
  shows "\<exists>n l r s'. SplaySplay tree (SplayCompare tree k) s =
      Some (\<exists>x \<in> set_tree T. class_of tree s k x = CompareEQUAL, n, tree\<lparr>root := n\<rparr>, s') \<and>
    tree_at (tree\<lparr>root := n\<rparr>) s' (Node l n r) \<and> inorder (Node l n r) = inorder T \<and>
    same_but (set_tree T \<union> {sides}) s s' \<and>
    (class_of tree s k n = CompareEQUAL \<longleftrightarrow> (\<exists>x \<in> set_tree T. class_of tree s k x = CompareEQUAL)) \<and>
    (\<forall>x \<in> set_tree l. class_of tree s k x = CompareGREATER) \<and> (\<forall>x \<in> set_tree r. class_of tree s k x = CompareLESS)"
proof -
  from assms obtain n l r s' where sp: "SplaySplay tree (SplayCompare tree k) s =
      Some (\<exists>x \<in> set_tree T. class_of tree s k x = CompareEQUAL, n, tree\<lparr>root := n\<rparr>, s')"
    "tree_at (tree\<lparr>root := n\<rparr>) s' (Node l n r)" "inorder l @ n # inorder r = inorder T"
    "same_but (set_tree T \<union> {sides}) s s'"
    "class_of tree s k n = CompareEQUAL \<longleftrightarrow> (\<exists>x \<in> set_tree T. class_of tree s k x = CompareEQUAL)"
    "\<forall>x \<in> set_tree l. class_of tree s k x = CompareGREATER" "\<forall>x \<in> set_tree r. class_of tree s k x = CompareLESS"
    by (rule splay_key)
  have "inorder (Node l n r) = inorder T" using sp(3) by simp
  with sp(1,2,4-7) show ?thesis by blast
qed

theorem splay_preserves_order_witness:
  "\<exists>n l r s'. SplaySplay sample_tree (SplayCompare sample_tree 9) sample_heap = Some (True, n, sample_tree\<lparr>root := n\<rparr>, s') \<and>
    inorder (Node l n r) = [10, 20, 30] \<and> same_but {1, 10, 20, 30} sample_heap s' \<and>
    class_of sample_tree sample_heap 9 n = CompareEQUAL"
proof -
  have e: "\<exists>x \<in> set_tree (Node (Node Leaf 10 Leaf) 20 (Node Leaf 30 Leaf)). class_of sample_tree sample_heap 9 x = CompareEQUAL"
    by (simp add: sample_class order_nat_def)
  have s: "set_tree (Node (Node Leaf 10 Leaf) 20 (Node Leaf 30 Leaf)) \<union> {sides} = {1, 10, 20, 30}" by (auto simp: sides_def)
  have cl: "classified (class_of sample_tree sample_heap 9) (inorder (Node (Node Leaf 10 Leaf) 20 (Node Leaf 30 Leaf)))"
    using sample_classified [of 9] by simp
  obtain n l r s' where r: "SplaySplay sample_tree (SplayCompare sample_tree 9) sample_heap =
      Some (\<exists>x \<in> set_tree (Node (Node Leaf 10 Leaf) 20 (Node Leaf 30 Leaf)). class_of sample_tree sample_heap 9 x = CompareEQUAL,
        n, sample_tree\<lparr>root := n\<rparr>, s')"
    "inorder (Node l n r) = inorder (Node (Node Leaf 10 Leaf) 20 (Node Leaf 30 Leaf))"
    "same_but (set_tree (Node (Node Leaf 10 Leaf) 20 (Node Leaf 30 Leaf)) \<union> {sides}) sample_heap s'"
    "class_of sample_tree sample_heap 9 n = CompareEQUAL \<longleftrightarrow>
      (\<exists>x \<in> set_tree (Node (Node Leaf 10 Leaf) 20 (Node Leaf 30 Leaf)). class_of sample_tree sample_heap 9 x = CompareEQUAL)"
    using splay_preserves_order [OF sample_at _ cl] by blast
  have "inorder (Node l n r) = [10, 20, 30]" using r(2) by simp
  moreover from e have "(\<exists>x \<in> set_tree (Node (Node Leaf 10 Leaf) 20 (Node Leaf 30 Leaf)). class_of sample_tree sample_heap 9 x = CompareEQUAL) = True"
    by blast
  note r = r [unfolded this s]
  ultimately show ?thesis using r(1,3,4) by blast
qed

text \<open>
  C2: inserting a fresh node under a key for which no node compares equal puts it between the nodes before
  the key and those after it; if some node compares equal the answer is \<open>ResFAIL\<close> and the nodes are
  the same. In both cases the tree is well formed with all its client properties up to date.
\<close>

theorem SplayTreeInsert_correct:
  assumes "splay_nodes tree s xs" and "classified (class_of tree s k) xs"
    and "fresh_node tree s node" and "node \<notin> set xs"
  shows "\<exists>tree' s'. SplayTreeInsert tree node k s =
      Some (if \<exists>x \<in> set xs. class_of tree s k x = CompareEQUAL then ResFAIL else ResOK, tree', s') \<and>
    becomes tree s (insert node (set xs \<union> {sides})) tree' s'
      (if \<exists>x \<in> set xs. class_of tree s k x = CompareEQUAL then xs
       else filter (\<lambda>x. class_of tree s k x = CompareGREATER) xs @ node #
         filter (\<lambda>x. class_of tree s k x = CompareLESS) xs)"
  using assms by (rule SplayTreeInsert_ok)

theorem SplayTreeInsert_correct_witness:
  "\<exists>tree' s'. SplayTreeInsert sample_tree 40 6 sample_heap = Some (ResOK, tree', s') \<and>
    splay_nodes tree' s' [10, 40, 20, 30]"
proof -
  have "fresh_node sample_tree sample_heap 40"
    by (simp add: fresh_node_def sides_def sample_heap_def sample_tree_def largest_def)
  from SplayTreeInsert_correct [OF sample_nodes sample_classified this, of 6]
  show ?thesis by (auto simp: sample_class order_nat_def becomes_def)
qed

text \<open>
  C3: deleting the node that compares equal to a key removes exactly that node from the ordered list,
  whether it has no left subtree, no right subtree or both; a key no node equals gives \<open>ResFAIL\<close>.
\<close>

theorem SplayTreeDelete_correct:
  assumes "splay_nodes tree s xs" and "classified (class_of tree s k) xs"
    and "node \<noteq> 0" and "\<forall>x \<in> set xs. class_of tree s k x = CompareEQUAL \<longrightarrow> x = node"
  shows "\<exists>tree' s'. SplayTreeDelete tree node k s =
      Some (if \<exists>x \<in> set xs. class_of tree s k x = CompareEQUAL then ResOK else ResFAIL, tree', s') \<and>
    becomes tree s (set xs \<union> {sides}) tree' s'
      (if \<exists>x \<in> set xs. class_of tree s k x = CompareEQUAL then remove1 node xs else xs)"
  using assms by (rule SplayTreeDelete_ok)

theorem SplayTreeDelete_correct_witness:
  "\<exists>tree' s'. SplayTreeDelete sample_tree 20 7 sample_heap = Some (ResOK, tree', s') \<and> splay_nodes tree' s' [10, 30]"
  using SplayTreeDelete_correct [OF sample_nodes sample_classified [of 7], of 20]
  by (auto simp: sample_class order_nat_def becomes_def)

text \<open>
  C30: \<open>SplayTreeNeighbours\<close> answers with the last node before the key and the first node after it, either
  of them \<open>NULL\<close> when there is none, and fails exactly if a node compares equal; \<open>SplayTreeNext\<close> from
  a node answers with the node that follows it in the order, \<open>NULL\<close> after the last one.
\<close>

theorem SplayTreeNeighbours_correct:
  assumes "splay_nodes tree s xs" and "classified (class_of tree s k) xs"
  shows "(\<exists>tree' s'. becomes tree s (set xs \<union> {sides}) tree' s' xs \<and>
    SplayTreeNeighbours tree k s =
      (if \<exists>x \<in> set xs. class_of tree s k x = CompareEQUAL then Some (ResFAIL, None, tree', s')
       else Some (ResOK, Some (last_or_null (filter (\<lambda>x. class_of tree s k x = CompareGREATER) xs),
         first_or_null (filter (\<lambda>x. class_of tree s k x = CompareLESS) xs)), tree', s'))) \<and>
    (\<forall>old \<in> set xs. class_of tree s k old = CompareEQUAL \<longrightarrow>
      (\<exists>tree' s'. SplayTreeNext tree old k s =
        Some (first_or_null (filter (\<lambda>x. class_of tree s k x = CompareLESS) xs), tree', s') \<and>
        becomes tree s (set xs \<union> {sides}) tree' s' xs))"
  using SplayTreeNeighbours_ok [OF assms] SplayTreeNext_ok [OF assms] by blast

theorem SplayTreeNeighbours_correct_witness:
  "(\<exists>tree' s'. SplayTreeNeighbours sample_tree 8 sample_heap = Some (ResOK, Some (20, 30), tree', s')) \<and>
   (\<exists>tree' s'. SplayTreeNext sample_tree 30 9 sample_heap = Some (0, tree', s'))"
  using SplayTreeNeighbours_correct [OF sample_nodes sample_classified [of 8]]
    SplayTreeNeighbours_correct [OF sample_nodes sample_classified [of 9]]
  by (auto simp: sample_class order_nat_def last_or_null_def first_or_null_def)

text \<open>
  C31: when the client's callback combines the properties of a node and its children so that the test of a
  subtree tells whether some node of it passes, \<open>SplayFindFirst\<close> and \<open>SplayFindLast\<close> answer with the
  first and the last node of the order that passes, no assertion fails, and they answer \<open>FALSE\<close>
  exactly if no node passes.
\<close>

theorem SplayFind_correct:
  assumes "splay_nodes tree s xs" and "proper xs" and "updateNode tree = Some g"
    and "\<And>d pl pr. testTree (g d pl pr) \<longleftrightarrow>
      testNode d \<or> (\<exists>p. pl = Some p \<and> testTree p) \<or> (\<exists>p. pr = Some p \<and> testTree p)"
  shows "\<exists>tree' s' tree'' s''.
    SplayFindFirst tree testNode testTree s = Some (find (\<lambda>x. testNode (data_of s x)) xs, tree', s') \<and>
    becomes tree s (set xs \<union> {sides}) tree' s' xs \<and>
    SplayFindLast tree testNode testTree s = Some (find (\<lambda>x. testNode (data_of s x)) (rev xs), tree'', s'') \<and>
    becomes tree s (set xs \<union> {sides}) tree'' s'' xs"
proof -
  have "aggregate g testNode testTree" using assms(4) by (simp add: aggregate_def)
  from SplayFindFirst_ok [OF assms(1-3) this] SplayFindLast_ok [OF assms(1-3) this] show ?thesis by blast
qed

theorem SplayFind_correct_witness:
  "\<exists>tree' s' tree'' s''.
    SplayFindFirst sample_tree (\<lambda>d. 6 \<le> d) (\<lambda>p. 6 \<le> p) sample_heap = Some (Some 20, tree', s') \<and>
    SplayFindLast sample_tree (\<lambda>d. 6 \<le> d) (\<lambda>p. 6 \<le> p) sample_heap = Some (Some 30, tree'', s'')"
proof -
  have "proper [10, 20, 30]" by (simp add: proper_def sides_def)
  moreover have "updateNode sample_tree = Some largest" by (simp add: sample_tree_def)
  moreover have "6 \<le> largest d pl pr \<longleftrightarrow> 6 \<le> d \<or> (\<exists>p. pl = Some p \<and> 6 \<le> p) \<or> (\<exists>p. pr = Some p \<and> 6 \<le> p)" for d pl pr
    by (cases pl; cases pr) (auto simp: largest_def)
  ultimately show ?thesis
    using SplayFind_correct [OF sample_nodes, of largest "\<lambda>p. 6 \<le> p" "\<lambda>d. 6 \<le> d"]
    by (simp add: sample_heap_def [THEN arg_cong [where f = data_of]]) blast
qed

text \<open>
  C32: after the client has changed the data of one node, so that the client properties of that node and of
  its ancestors are out of date, \<open>SplayNodeRefresh\<close> brings every client property of the tree up to
  date and keeps the nodes and their order.
\<close>

theorem SplayNodeRefresh_correct:
  assumes "SplayTreeCheck tree" and "is_tree s (root tree) T" and "current (updateNode tree) old T"
    and "classified (class_of tree s k) (inorder T)" and "updateNode tree \<noteq> None"
    and "node \<in> set_tree T" and "class_of tree s k node = CompareEQUAL"
    and "\<And>n. prop_of s n = prop_of old n" and "\<And>n. n \<noteq> node \<Longrightarrow> data_of s n = data_of old n"
  shows "\<exists>tree' s'. SplayNodeRefresh tree node k s = Some (tree', s') \<and>
    becomes tree s (set_tree T \<union> {sides}) tree' s' (inorder T)"
  using assms by (rule SplayNodeRefresh_ok)

definition sample_changed :: "(nat, nat) splay_heap" where
  "sample_changed = sample_heap\<lparr>data_of := (data_of sample_heap)(30 := 8)\<rparr>"

theorem SplayNodeRefresh_correct_witness:
  "\<exists>tree' s'. SplayNodeRefresh sample_tree 30 8 sample_changed = Some (tree', s') \<and> splay_nodes tree' s' [10, 20, 30]"
proof -
  have "is_tree sample_changed 20 (Node (Node Leaf 10 Leaf) 20 (Node Leaf 30 Leaf))"
    "classified (class_of sample_tree sample_changed 8) (inorder (Node (Node Leaf 10 Leaf) 20 (Node Leaf 30 Leaf)))"
    "class_of sample_tree sample_changed 8 30 = CompareEQUAL"
    by (auto simp: sample_changed_def sample_heap_def class_of_def sample_tree_def order_nat_def classified_def precedes_def sides_def)
  then show ?thesis
    using SplayNodeRefresh_correct [of sample_tree sample_changed "Node (Node Leaf 10 Leaf) 20 (Node Leaf 30 Leaf)" sample_heap 8 30] sample_at
    by (auto simp: tree_at_def sample_changed_def sample_tree_def becomes_def)
qed

end
