(* ===== verification/Shield.thy ===== *)
theory Shield
  imports Mps_Prelude
begin

text \<open>
  The shield (\<^verbatim>\<open>shield.c\<close>): the collector's barrier between the mutator and the memory it must not
  access, with its cache of segments whose protection is out of date. A segment is its number. The
  state holds the shield fields of the arena and, for each segment, the fields \<^verbatim>\<open>sm\<close>, \<^verbatim>\<open>pm\<close> and the
  four-bit \<^verbatim>\<open>depth\<close>; \<open>hardware\<close> is what the last \<^verbatim>\<open>ProtSet\<close> made the hardware refuse to the mutator and
  \<open>running\<close> tells whether the mutator's threads run, which \<^verbatim>\<open>ThreadRingSuspend\<close> and \<^verbatim>\<open>ThreadRingResume\<close>
  change. \<^verbatim>\<open>ArenaCheck\<close> is its shield part.
\<close>

unbundle bit_operations_syntax

type_synonym AccessSet = "2 word"

definition AccessSetEMPTY :: AccessSet where "AccessSetEMPTY = 0"
definition AccessREAD :: AccessSet where "AccessREAD = push_bit 0 1"
definition AccessWRITE :: AccessSet where "AccessWRITE = push_bit 1 1"

definition ShieldCacheSIZE :: nat where "ShieldCacheSIZE = 16"
definition ShieldDepthWIDTH :: nat where "ShieldDepthWIDTH = 4"

record SegStruct =
  depth :: nat
  pm :: AccessSet
  sm :: AccessSet

record ArenaStruct =
  insideShield :: bool
  shCache :: "nat option list"
  shCacheI :: nat
  shCacheLimit :: nat
  shDepth :: nat
  suspended :: bool
  segs :: "nat \<Rightarrow> SegStruct"
  hardware :: "nat \<Rightarrow> AccessSet"
  running :: bool

definition SegPM :: "ArenaStruct \<Rightarrow> nat \<Rightarrow> AccessSet" where "SegPM a seg = pm (segs a seg)"
definition SegSM :: "ArenaStruct \<Rightarrow> nat \<Rightarrow> AccessSet" where "SegSM a seg = sm (segs a seg)"
definition SegDepth :: "ArenaStruct \<Rightarrow> nat \<Rightarrow> nat" where "SegDepth a seg = depth (segs a seg)"

definition SegSetPM :: "nat \<Rightarrow> AccessSet \<Rightarrow> ArenaStruct \<Rightarrow> ArenaStruct" where
  "SegSetPM seg mode a = a\<lparr>segs := (segs a)(seg := (segs a seg)\<lparr>pm := mode\<rparr>)\<rparr>"

definition SegSetSM :: "nat \<Rightarrow> AccessSet \<Rightarrow> ArenaStruct \<Rightarrow> ArenaStruct" where
  "SegSetSM seg mode a = a\<lparr>segs := (segs a)(seg := (segs a seg)\<lparr>sm := mode\<rparr>)\<rparr>"

text \<open>The field is \<^verbatim>\<open>ShieldDepthWIDTH\<close> bits wide, so an assignment to it wraps.\<close>

definition SegSetDepth :: "nat \<Rightarrow> nat \<Rightarrow> ArenaStruct \<Rightarrow> ArenaStruct" where
  "SegSetDepth seg d a = a\<lparr>segs := (segs a)(seg := (segs a seg)\<lparr>depth := d mod 2 ^ ShieldDepthWIDTH\<rparr>)\<rparr>"

definition ProtSet :: "nat \<Rightarrow> AccessSet \<Rightarrow> ArenaStruct \<Rightarrow> ArenaStruct" where
  "ProtSet seg mode a = a\<lparr>hardware := (hardware a)(seg := mode)\<rparr>"

definition slot_depth :: "ArenaStruct \<Rightarrow> nat \<Rightarrow> nat" where
  "slot_depth a i = (case shCache a ! i of None \<Rightarrow> 0 | Some seg \<Rightarrow> SegDepth a seg)"

definition ArenaCheck :: "ArenaStruct \<Rightarrow> bool" where
  "ArenaCheck a \<longleftrightarrow> shCacheLimit a \<le> ShieldCacheSIZE \<and> shCacheI a < shCacheLimit a \<and>
     sum_list (map (slot_depth a) [0 ..< shCacheLimit a]) \<le> shDepth a"

definition ShieldInit :: "ArenaStruct \<Rightarrow> ArenaStruct" where
  "ShieldInit a = a\<lparr>insideShield := False, shCacheI := 0, shCacheLimit := 1, shDepth := 0, suspended := False,
     shCache := replicate ShieldCacheSIZE None\<rparr>"

definition ShieldSuspend :: "ArenaStruct \<Rightarrow> ArenaStruct option" where
  "ShieldSuspend a = do {
     aver (ArenaCheck a);
     aver (insideShield a);
     Some (if \<not> suspended a then a\<lparr>running := False, suspended := True\<rparr> else a)
   }"

definition ShieldResume :: "ArenaStruct \<Rightarrow> ArenaStruct option" where
  "ShieldResume a = do {
     aver (ArenaCheck a);
     aver (insideShield a);
     aver (suspended a);
     Some a
   }"

definition protLower :: "ArenaStruct \<Rightarrow> nat \<Rightarrow> AccessSet \<Rightarrow> ArenaStruct option" where
  "protLower a seg mode = do {
     aver (ArenaCheck a);
     Some (if SegPM a seg AND mode \<noteq> 0
           then let a = SegSetPM seg (SegPM a seg AND NOT mode) a in ProtSet seg (SegPM a seg) a
           else a)
   }"

definition sync :: "ArenaStruct \<Rightarrow> nat \<Rightarrow> ArenaStruct option" where
  "sync a seg = do {
     aver (ArenaCheck a);
     Some (if SegPM a seg \<noteq> SegSM a seg
           then let a = ProtSet seg (SegSM a seg) a in SegSetPM seg (SegSM a seg) a
           else a)
   }"

definition flush :: "ArenaStruct \<Rightarrow> nat \<Rightarrow> ArenaStruct option" where
  "flush a i = do {
     aver (ArenaCheck a);
     aver (i < shCacheLimit a);
     entry \<leftarrow> rd (shCache a) i;
     (case entry of
        None \<Rightarrow> Some a
      | Some seg \<Rightarrow> do {
          aver (shDepth a > 0);
          aver (SegDepth a seg > 0);
          let a = a\<lparr>shDepth := shDepth a - 1\<rparr>;
          let a = SegSetDepth seg (SegDepth a seg - 1) a;
          a \<leftarrow> (if SegDepth a seg = 0 then sync a seg else Some a);
          c \<leftarrow> wr (shCache a) i None;
          Some (a\<lparr>shCache := c\<rparr>)
        })
   }"

definition cache :: "ArenaStruct \<Rightarrow> nat \<Rightarrow> ArenaStruct option" where
  "cache a seg = do {
     aver (ArenaCheck a);
     if SegSM a seg = SegPM a seg then Some a
     else if SegDepth a seg > 0 then ShieldSuspend a
     else if ShieldCacheSIZE = 0 \<or> \<not> suspended a then sync a seg
     else do {
       let a = SegSetDepth seg (SegDepth a seg + 1) a;
       let a = a\<lparr>shDepth := shDepth a + 1\<rparr>;
       aver (shDepth a > 0);
       aver (SegDepth a seg > 0);
       aver (shCacheLimit a \<le> ShieldCacheSIZE);
       aver (shCacheI a < shCacheLimit a);
       a \<leftarrow> flush a (shCacheI a);
       c \<leftarrow> wr (shCache a) (shCacheI a) (Some seg);
       let a = a\<lparr>shCache := c\<rparr>;
       let a = a\<lparr>shCacheI := shCacheI a + 1\<rparr>;
       let a = (if shCacheI a = ShieldCacheSIZE then a\<lparr>shCacheI := 0\<rparr> else a);
       let a = (if shCacheI a = shCacheLimit a then a\<lparr>shCacheLimit := shCacheLimit a + 1\<rparr> else a);
       Some a
     }
   }"

definition ShieldRaise :: "ArenaStruct \<Rightarrow> nat \<Rightarrow> AccessSet \<Rightarrow> ArenaStruct option" where
  "ShieldRaise a seg mode = do {
     aver (SegSM a seg AND mode = AccessSetEMPTY);
     let a = SegSetSM seg (SegSM a seg OR mode) a;
     a \<leftarrow> cache a seg;
     aver (ArenaCheck a);
     Some a
   }"

definition ShieldLower :: "ArenaStruct \<Rightarrow> nat \<Rightarrow> AccessSet \<Rightarrow> ArenaStruct option" where
  "ShieldLower a seg mode = do {
     aver (SegSM a seg AND mode = mode);
     let a = SegSetSM seg (SegSM a seg AND NOT mode) a;
     a \<leftarrow> protLower a seg mode;
     aver (ArenaCheck a);
     Some a
   }"

definition ShieldEnter :: "ArenaStruct \<Rightarrow> ArenaStruct option" where
  "ShieldEnter a = do {
     aver (ArenaCheck a);
     aver (\<not> insideShield a);
     aver (shDepth a = 0);
     aver (\<not> suspended a);
     aver (shCacheLimit a \<le> ShieldCacheSIZE);
     aver (shCacheI a < shCacheLimit a);
     aver (\<forall>i \<in> set [0 ..< shCacheLimit a]. shCache a ! i = None);
     Some (a\<lparr>shCacheI := 0, shCacheLimit := 1, insideShield := True\<rparr>)
   }"

fun ShieldFlush_loop :: "nat list \<Rightarrow> ArenaStruct \<Rightarrow> ArenaStruct option" where
  "ShieldFlush_loop [] a = Some a"
| "ShieldFlush_loop (i # is) a =
     (if shDepth a = 0 then Some a else do { a \<leftarrow> flush a i; ShieldFlush_loop is a })"

definition ShieldFlush :: "ArenaStruct \<Rightarrow> ArenaStruct option" where
  "ShieldFlush a = ShieldFlush_loop [0 ..< shCacheLimit a] a"

definition ShieldLeave :: "ArenaStruct \<Rightarrow> ArenaStruct option" where
  "ShieldLeave a = do {
     aver (ArenaCheck a);
     aver (insideShield a);
     a \<leftarrow> ShieldFlush a;
     aver (shDepth a = 0);
     let a = (if suspended a then a\<lparr>running := True, suspended := False\<rparr> else a);
     Some (a\<lparr>insideShield := False\<rparr>)
   }"

definition ShieldExpose :: "ArenaStruct \<Rightarrow> nat \<Rightarrow> ArenaStruct option" where
  "ShieldExpose a seg = do {
     let mode = AccessREAD OR AccessWRITE;
     aver (ArenaCheck a);
     aver (insideShield a);
     let a = SegSetDepth seg (SegDepth a seg + 1) a;
     let a = a\<lparr>shDepth := shDepth a + 1\<rparr>;
     aver (shDepth a > 0);
     aver (SegDepth a seg > 0);
     a \<leftarrow> (if SegPM a seg AND mode \<noteq> 0 then ShieldSuspend a else Some a);
     protLower a seg mode
   }"

definition ShieldCover :: "ArenaStruct \<Rightarrow> nat \<Rightarrow> ArenaStruct option" where
  "ShieldCover a seg = do {
     aver (ArenaCheck a);
     aver (SegPM a seg = AccessSetEMPTY);
     aver (shDepth a > 0);
     aver (SegDepth a seg > 0);
     let a = SegSetDepth seg (SegDepth a seg - 1) a;
     let a = a\<lparr>shDepth := shDepth a - 1\<rparr>;
     cache a seg
   }"

subsection \<open>Depths\<close>

definition total :: "(nat \<Rightarrow> nat) \<Rightarrow> nat" where
  "total d = (\<Sum>s \<in> {s. d s \<noteq> 0}. d s)"

lemma total_superset: "finite A \<Longrightarrow> {s. d s \<noteq> 0} \<subseteq> A \<Longrightarrow> total d = sum d A"
  unfolding total_def by (rule sum.mono_neutral_left) auto

lemma total_update:
  assumes "finite {s. d s \<noteq> 0}"
  shows "finite {s. (d(x := v)) s \<noteq> 0}" and "total (d(x := v)) + d x = total d + v"
proof -
  let ?A = "insert x {s. d s \<noteq> 0}"
  have fin: "finite ?A" using assms by simp
  have sub: "{s. (d(x := v)) s \<noteq> 0} \<subseteq> ?A" by auto
  show "finite {s. (d(x := v)) s \<noteq> 0}" using sub fin by (rule finite_subset)
  have "total (d(x := v)) = sum (d(x := v)) ?A" by (rule total_superset [OF fin sub])
  also have "\<dots> = (d(x := v)) x + sum (d(x := v)) (?A - {x})" by (rule sum.remove [OF fin]) simp
  also have "sum (d(x := v)) (?A - {x}) = sum d (?A - {x})" by (rule sum.cong) auto
  also have "(d(x := v)) x = v" by simp
  finally have 1: "total (d(x := v)) = v + sum d (?A - {x})" .
  have "total d = sum d ?A" by (rule total_superset [OF fin]) auto
  also have "\<dots> = d x + sum d (?A - {x})" by (rule sum.remove [OF fin]) simp
  finally show "total (d(x := v)) + d x = total d + v" using 1 by simp
qed

lemma total_0: "finite {s. d s \<noteq> 0} \<Longrightarrow> total d = 0 \<longleftrightarrow> (\<forall>s. d s = 0)"
  by (auto simp: total_def)

lemma total_ge: "finite {s. d s \<noteq> 0} \<Longrightarrow> d x \<le> total d"
  by (cases "d x = 0") (auto simp: total_def intro: member_le_sum)

subsection \<open>The shape of the cache\<close>

definition cached :: "ArenaStruct \<Rightarrow> nat \<Rightarrow> bool" where
  "cached a seg \<longleftrightarrow> Some seg \<in> set (shCache a)"

definition shape :: "ArenaStruct \<Rightarrow> bool" where
  "shape a \<longleftrightarrow> length (shCache a) = ShieldCacheSIZE \<and> shCacheLimit a \<le> ShieldCacheSIZE \<and>
     shCacheI a < shCacheLimit a \<and> (\<forall>i < ShieldCacheSIZE. shCacheLimit a \<le> i \<longrightarrow> shCache a ! i = None) \<and>
     (\<forall>i < ShieldCacheSIZE. \<forall>j < ShieldCacheSIZE. shCache a ! i = shCache a ! j \<longrightarrow> shCache a ! i \<noteq> None \<longrightarrow> i = j)"

definition totals :: "ArenaStruct \<Rightarrow> bool" where
  "totals a \<longleftrightarrow> finite {s. SegDepth a s \<noteq> 0} \<and> shDepth a = total (SegDepth a)"

lemma ArenaCheck_ok:
  assumes "shape a" and "totals a"
  shows "ArenaCheck a"
proof -
  let ?I = "{i. i < shCacheLimit a \<and> shCache a ! i \<noteq> None}"
  let ?f = "\<lambda>i. the (shCache a ! i)"
  have inj: "inj_on ?f ?I"
    using assms(1) by (auto simp: inj_on_def shape_def)
  have "sum_list (map (slot_depth a) [0 ..< shCacheLimit a]) = (\<Sum>i < shCacheLimit a. slot_depth a i)"
    by (simp add: interv_sum_list_conv_sum_set_nat atLeast0LessThan)
  also have "\<dots> = (\<Sum>i \<in> ?I. slot_depth a i)"
    by (rule sum.mono_neutral_right) (auto simp: slot_depth_def)
  also have "\<dots> = (\<Sum>i \<in> ?I. SegDepth a (?f i))" by (rule sum.cong) (auto simp: slot_depth_def)
  also have "\<dots> = sum (SegDepth a) (?f ` ?I)" using sum.reindex [OF inj, of "SegDepth a"] by simp
  also have "\<dots> \<le> sum (SegDepth a) (?f ` ?I \<union> {s. SegDepth a s \<noteq> 0})"
    using assms(2) by (intro sum_mono2) (auto simp: totals_def)
  also have "\<dots> = total (SegDepth a)"
    using assms(2) by (intro total_superset [symmetric]) (auto simp: totals_def)
  finally show ?thesis using assms by (simp add: ArenaCheck_def shape_def totals_def)
qed

lemma slot_cached: "shape a \<Longrightarrow> i < shCacheLimit a \<Longrightarrow> shCache a ! i = Some seg \<Longrightarrow> cached a seg"
  unfolding cached_def shape_def by (metis less_le_trans nth_mem)

lemma cached_slot: "shape a \<Longrightarrow> cached a seg \<Longrightarrow> \<exists>i < shCacheLimit a. shCache a ! i = Some seg"
  unfolding cached_def shape_def in_set_conv_nth by (metis not_le option.discI)

lemma shape_clear:
  assumes "shape a" and "i < shCacheLimit a"
  shows "shape (a\<lparr>shCache := (shCache a)[i := None]\<rparr>)"
    and "cached (a\<lparr>shCache := (shCache a)[i := None]\<rparr>) seg \<longleftrightarrow> cached a seg \<and> shCache a ! i \<noteq> Some seg"
proof -
  have len: "i < length (shCache a)" using assms by (simp add: shape_def)
  show "shape (a\<lparr>shCache := (shCache a)[i := None]\<rparr>)"
    using assms by (auto simp: shape_def nth_list_update)
  show "cached (a\<lparr>shCache := (shCache a)[i := None]\<rparr>) seg \<longleftrightarrow> cached a seg \<and> shCache a ! i \<noteq> Some seg"
  proof
    assume "cached (a\<lparr>shCache := (shCache a)[i := None]\<rparr>) seg"
    then obtain j where j: "j < length (shCache a)" "(shCache a)[i := None] ! j = Some seg"
      by (auto simp: cached_def in_set_conv_nth)
    then have "j \<noteq> i" "shCache a ! j = Some seg" using len by (auto simp: nth_list_update split: if_splits)
    moreover have "shCache a ! i \<noteq> Some seg"
    proof
      assume "shCache a ! i = Some seg"
      with \<open>shCache a ! j = Some seg\<close> assms j(1) len have "j = i" by (auto simp: shape_def)
      with \<open>j \<noteq> i\<close> show False by simp
    qed
    ultimately show "cached a seg \<and> shCache a ! i \<noteq> Some seg" using j(1) by (auto simp: cached_def in_set_conv_nth)
  next
    assume "cached a seg \<and> shCache a ! i \<noteq> Some seg"
    then obtain j where j: "j < length (shCache a)" "shCache a ! j = Some seg" "j \<noteq> i"
      by (auto simp: cached_def in_set_conv_nth)
    then have "(shCache a)[i := None] ! j = Some seg" by simp
    then show "cached (a\<lparr>shCache := (shCache a)[i := None]\<rparr>) seg"
      using j(1) unfolding cached_def by (simp add: in_set_conv_nth) blast
  qed
qed

text \<open>Entering a segment in the slot after the last one, as \<^verbatim>\<open>cache\<close> does once the slot is empty.\<close>

definition advance :: "ArenaStruct \<Rightarrow> nat \<Rightarrow> ArenaStruct" where
  "advance a seg =
     (let a = a\<lparr>shCache := (shCache a)[shCacheI a := Some seg]\<rparr>;
          a = a\<lparr>shCacheI := shCacheI a + 1\<rparr>;
          a = (if shCacheI a = ShieldCacheSIZE then a\<lparr>shCacheI := 0\<rparr> else a)
      in if shCacheI a = shCacheLimit a then a\<lparr>shCacheLimit := shCacheLimit a + 1\<rparr> else a)"

lemma shape_advance:
  assumes "shape a" and "shCache a ! shCacheI a = None" and "\<not> cached a seg"
  shows "shape (advance a seg)" and "cached (advance a seg) x \<longleftrightarrow> x = seg \<or> cached a x"
proof -
  have sh: "length (shCache a) = 16" "shCacheLimit a \<le> 16" "shCacheI a < shCacheLimit a"
    using assms(1) by (simp_all add: shape_def ShieldCacheSIZE_def)
  let ?c = "(shCache a)[shCacheI a := Some seg]"
  have c: "shCache (advance a seg) = ?c" by (simp add: advance_def Let_def)
  have lim: "shCacheLimit (advance a seg) = (if shCacheI a + 1 = shCacheLimit a \<and> shCacheI a + 1 \<noteq> 16
      then shCacheLimit a + 1 else shCacheLimit a)"
    "shCacheI (advance a seg) = (if shCacheI a + 1 = 16 then 0 else shCacheI a + 1)"
    using sh by (auto simp: advance_def Let_def ShieldCacheSIZE_def)
  have ns: "shCache a ! j \<noteq> Some seg" if "j < 16" for j
    using assms(3) that sh(1) unfolding cached_def by (metis nth_mem)
  have uniq: "i = j" if "i < 16" "j < 16" "?c ! i = ?c ! j" "?c ! i \<noteq> None" for i j
  proof -
    have one: "shCache a ! i = shCache a ! j \<Longrightarrow> shCache a ! i \<noteq> None \<Longrightarrow> i = j"
      using assms(1) that(1,2) unfolding shape_def ShieldCacheSIZE_def by blast
    show ?thesis
      using that ns [OF that(1)] ns [OF that(2)] sh(1) one
      by (cases "i = shCacheI a"; cases "j = shCacheI a") simp_all
  qed
  have out: "?c ! i = None" if "i < 16" "shCacheLimit a \<le> i" for i
    using that assms(1) sh by (auto simp: shape_def ShieldCacheSIZE_def)
  show "shape (advance a seg)"
    unfolding shape_def c lim ShieldCacheSIZE_def using sh uniq out by auto
  show "cached (advance a seg) x \<longleftrightarrow> x = seg \<or> cached a x"
  proof
    assume "cached (advance a seg) x"
    then have "Some x \<in> set ?c" by (simp add: cached_def c)
    then show "x = seg \<or> cached a x"
      using set_update_subset_insert [of "shCache a" "shCacheI a" "Some seg"] by (auto simp: cached_def)
  next
    assume "x = seg \<or> cached a x"
    then show "cached (advance a seg) x"
    proof
      assume "x = seg"
      then show ?thesis using sh by (simp add: cached_def c set_update_memI)
    next
      assume "cached a x"
      then obtain j where j: "j < length (shCache a)" "shCache a ! j = Some x" by (auto simp: cached_def in_set_conv_nth)
      then have "?c ! j = Some x" using assms(2) by (cases "j = shCacheI a") auto
      then show ?thesis using j(1) unfolding cached_def c by (metis length_list_update nth_mem)
    qed
  qed
qed

lemma seg_simps [simp]:
  "SegPM (SegSetPM s m a) x = (if x = s then m else SegPM a x)" "SegPM (SegSetSM s m a) x = SegPM a x"
  "SegPM (SegSetDepth s d a) x = SegPM a x" "SegPM (ProtSet s m a) x = SegPM a x"
  "SegSM (SegSetPM s m a) x = SegSM a x" "SegSM (SegSetSM s m a) x = (if x = s then m else SegSM a x)"
  "SegSM (SegSetDepth s d a) x = SegSM a x" "SegSM (ProtSet s m a) x = SegSM a x"
  "SegDepth (SegSetPM s m a) x = SegDepth a x" "SegDepth (SegSetSM s m a) x = SegDepth a x"
  "SegDepth (SegSetDepth s d a) x = (if x = s then d mod 16 else SegDepth a x)" "SegDepth (ProtSet s m a) x = SegDepth a x"
  by (simp_all add: SegPM_def SegSM_def SegDepth_def SegSetPM_def SegSetSM_def SegSetDepth_def ProtSet_def ShieldDepthWIDTH_def)

lemma field_simps_shield [simp]:
  "shCache (SegSetPM s m a) = shCache a" "shCache (SegSetSM s m a) = shCache a"
  "shCache (SegSetDepth s d a) = shCache a" "shCache (ProtSet s m a) = shCache a"
  "shCacheI (SegSetPM s m a) = shCacheI a" "shCacheI (SegSetSM s m a) = shCacheI a"
  "shCacheI (SegSetDepth s d a) = shCacheI a" "shCacheI (ProtSet s m a) = shCacheI a"
  "shCacheLimit (SegSetPM s m a) = shCacheLimit a" "shCacheLimit (SegSetSM s m a) = shCacheLimit a"
  "shCacheLimit (SegSetDepth s d a) = shCacheLimit a" "shCacheLimit (ProtSet s m a) = shCacheLimit a"
  "shDepth (SegSetPM s m a) = shDepth a" "shDepth (SegSetSM s m a) = shDepth a"
  "shDepth (SegSetDepth s d a) = shDepth a" "shDepth (ProtSet s m a) = shDepth a"
  "suspended (SegSetPM s m a) = suspended a" "suspended (SegSetSM s m a) = suspended a"
  "suspended (SegSetDepth s d a) = suspended a" "suspended (ProtSet s m a) = suspended a"
  "insideShield (SegSetPM s m a) = insideShield a" "insideShield (SegSetSM s m a) = insideShield a"
  "insideShield (SegSetDepth s d a) = insideShield a" "insideShield (ProtSet s m a) = insideShield a"
  "running (SegSetPM s m a) = running a" "running (SegSetSM s m a) = running a"
  "running (SegSetDepth s d a) = running a" "running (ProtSet s m a) = running a"
  "hardware (SegSetPM s m a) = hardware a" "hardware (SegSetSM s m a) = hardware a"
  "hardware (SegSetDepth s d a) = hardware a" "hardware (ProtSet s m a) = (hardware a)(s := m)"
  by (simp_all add: SegSetPM_def SegSetSM_def SegSetDepth_def ProtSet_def)

lemma seg_field_update [simp]:
  "SegPM (a\<lparr>shCache := c\<rparr>) = SegPM a" "SegPM (a\<lparr>shDepth := n\<rparr>) = SegPM a" "SegPM (a\<lparr>suspended := b, running := r\<rparr>) = SegPM a"
  "SegSM (a\<lparr>shCache := c\<rparr>) = SegSM a" "SegSM (a\<lparr>shDepth := n\<rparr>) = SegSM a"
  "SegDepth (a\<lparr>shCache := c\<rparr>) = SegDepth a" "SegDepth (a\<lparr>shDepth := n\<rparr>) = SegDepth a"
  by (simp_all add: SegPM_def SegSM_def SegDepth_def fun_eq_iff)

lemma shape_cong:
  "shCache a' = shCache a \<Longrightarrow> shCacheI a' = shCacheI a \<Longrightarrow> shCacheLimit a' = shCacheLimit a \<Longrightarrow> shape a' = shape a"
  by (simp add: shape_def)

lemma cached_cong: "shCache a' = shCache a \<Longrightarrow> cached a' x = cached a x"
  by (simp add: cached_def)

lemma totals_cong: "SegDepth a' = SegDepth a \<Longrightarrow> shDepth a' = shDepth a \<Longrightarrow> totals a' = totals a"
  by (simp add: totals_def)

subsection \<open>The invariants\<close>

text \<open>
  The invariants of the header of \<^verbatim>\<open>shield.c\<close>. \<open>exposes seg\<close> is the number of exposures of the segment not
  yet covered, the quantity its definition of depth refers to.
\<close>

definition accounted :: "ArenaStruct \<Rightarrow> (nat \<Rightarrow> nat) \<Rightarrow> bool" where
  "accounted a exposes \<longleftrightarrow> shape a \<and> totals a \<and>
     (\<forall>s. SegDepth a s = exposes s + (if cached a s then 1 else 0) \<and> SegDepth a s < 16)"

definition modes :: "ArenaStruct \<Rightarrow> bool" where
  "modes a \<longleftrightarrow> (\<forall>s. SegPM a s AND SegSM a s = SegPM a s) \<and> (\<forall>s. hardware a s = SegPM a s) \<and>
     running a = (\<not> suspended a)"

definition synced_or_held :: "ArenaStruct \<Rightarrow> nat \<Rightarrow> bool" where
  "synced_or_held a s \<longleftrightarrow> SegPM a s = SegSM a s \<or> suspended a \<and> SegDepth a s > 0"

definition shield_inv :: "ArenaStruct \<Rightarrow> (nat \<Rightarrow> nat) \<Rightarrow> bool" where
  "shield_inv a exposes \<longleftrightarrow> accounted a exposes \<and> modes a \<and> (\<forall>s. synced_or_held a s) \<and>
     (\<forall>s. exposes s > 0 \<longrightarrow> SegPM a s = AccessSetEMPTY) \<and>
     (\<not> insideShield a \<longrightarrow> \<not> suspended a \<and> (\<forall>s. SegDepth a s = 0))"

lemma accounted_check: "accounted a e \<Longrightarrow> ArenaCheck a"
  by (simp add: accounted_def ArenaCheck_ok)

lemma totals_update:
  assumes "totals a" and "SegDepth a' = (SegDepth a)(x := v)" and "shDepth a' + SegDepth a x = shDepth a + v"
  shows "totals a'"
  using assms total_update [of "SegDepth a" x v] by (auto simp: totals_def)

lemma sync_ok:
  assumes "ArenaCheck a" and "modes a"
  shows "\<exists>a'. sync a seg = Some a' \<and> modes a' \<and> SegSM a' = SegSM a \<and> SegPM a' = (SegPM a)(seg := SegSM a seg) \<and>
    SegDepth a' = SegDepth a \<and> shCache a' = shCache a \<and> shCacheI a' = shCacheI a \<and> shCacheLimit a' = shCacheLimit a \<and>
    shDepth a' = shDepth a \<and> suspended a' = suspended a \<and> insideShield a' = insideShield a"
proof (cases "SegPM a seg = SegSM a seg")
  case True
  then show ?thesis using assms by (auto simp: sync_def fun_eq_iff)
next
  case False
  then show ?thesis using assms by (auto simp: sync_def Let_def modes_def fun_eq_iff)
qed

lemma flush_ok:
  assumes acc: "accounted a e" and m: "modes a" and held: "\<forall>s. synced_or_held a s" and i: "i < shCacheLimit a"
  shows "\<exists>a'. flush a i = Some a' \<and> accounted a' e \<and> modes a' \<and> (\<forall>s. synced_or_held a' s) \<and>
    shCache a' = (shCache a)[i := None] \<and> shCacheI a' = shCacheI a \<and> shCacheLimit a' = shCacheLimit a \<and>
    suspended a' = suspended a \<and> insideShield a' = insideShield a \<and> SegSM a' = SegSM a \<and>
    (\<forall>s. e s > 0 \<or> \<not> cached a s \<longrightarrow> SegPM a' s = SegPM a s)"
proof -
  note ac = acc [unfolded accounted_def]
  have sh: "shape a" and tot: "totals a" using ac by auto
  have len: "i < length (shCache a)" using sh i by (simp add: shape_def)
  note chk = accounted_check [OF acc]
  show ?thesis
  proof (cases "shCache a ! i")
    case None
    then have "(shCache a)[i := None] = shCache a" by (metis list_update_id)
    then show ?thesis using None chk i len acc m held by (auto simp: flush_def)
  next
    case (Some seg)
    have c: "cached a seg" by (rule slot_cached [OF sh i Some])
    then have d: "0 < SegDepth a seg" "SegDepth a seg < 16" "SegDepth a seg = e seg + 1"
      using c ac [THEN conjunct2, THEN conjunct2, THEN spec, of seg] by simp_all
    have "SegDepth a seg \<le> shDepth a" using tot total_ge [of "SegDepth a" seg] by (simp add: totals_def)
    with d have sd: "0 < shDepth a" by simp
    define a1 where "a1 = SegSetDepth seg (e seg) (a\<lparr>shDepth := shDepth a - Suc 0\<rparr>)"
    have a1: "SegDepth a1 = (SegDepth a)(seg := e seg)" "shDepth a1 = shDepth a - 1" "SegPM a1 = SegPM a" "SegSM a1 = SegSM a"
      "shCache a1 = shCache a" "shCacheI a1 = shCacheI a" "shCacheLimit a1 = shCacheLimit a" "suspended a1 = suspended a"
      "insideShield a1 = insideShield a" "hardware a1 = hardware a" "running a1 = running a"
      using d by (auto simp: a1_def fun_eq_iff)
    have t1: "totals a1" by (rule totals_update [OF tot a1(1)]) (use a1(2) sd d in simp)
    have s1: "shape a1" using sh shape_cong [of a1 a] a1 by simp
    have m1: "modes a1" using m a1 by (simp add: modes_def)
    obtain a2 where a2: "(if SegDepth a1 seg = 0 then sync a1 seg else Some a1) = Some a2" "modes a2" "SegSM a2 = SegSM a"
      "SegPM a2 = (if e seg = 0 then (SegPM a)(seg := SegSM a seg) else SegPM a)" "SegDepth a2 = SegDepth a1"
      "shCache a2 = shCache a" "shCacheI a2 = shCacheI a" "shCacheLimit a2 = shCacheLimit a" "shDepth a2 = shDepth a1"
      "suspended a2 = suspended a" "insideShield a2 = insideShield a"
      using sync_ok [OF ArenaCheck_ok [OF s1 t1] m1, of seg] m1 a1 by (cases "e seg = 0") auto
    define a3 where "a3 = a2\<lparr>shCache := (shCache a)[i := None]\<rparr>"
    have s2: "shape a2" using sh shape_cong [of a2 a] a2 by simp
    have s3: "shape a3" "\<And>x. cached a3 x \<longleftrightarrow> cached a x \<and> x \<noteq> seg"
      using shape_clear [OF s2, of i] i a2(6,8) Some cached_cong [of a2 a] by (auto simp: a3_def)
    have t3: "totals a3" using t1 totals_cong [of a3 a1] a2(5,9) by (simp add: a3_def)
    have "flush a i = Some a3"
      using chk i len Some sd d(2,3) a2(1,6)
      by (cases "e seg = 0") (auto simp: flush_def a3_def Let_def a1_def)
    moreover have "SegDepth a3 s = e s + (if cached a3 s then 1 else 0) \<and> SegDepth a3 s < 16" for s
      using ac [THEN conjunct2, THEN conjunct2, THEN spec, of s] d(2,3) s3(2) [of s] a2(5) a1(1)
      by (cases "s = seg") (simp_all add: a3_def)
    then have "accounted a3 e" unfolding accounted_def using s3(1) t3 by blast
    moreover have "modes a3" using a2(2) by (simp add: modes_def a3_def)
    moreover have "synced_or_held a3 s" for s
      using held [THEN spec, of s] a2 a1 d by (auto simp: synced_or_held_def a3_def)
    ultimately show ?thesis using a2 c d(3) by (intro exI [of _ a3]) (auto simp: a3_def)
  qed
qed

definition outside_rest :: "ArenaStruct \<Rightarrow> bool" where
  "outside_rest a \<longleftrightarrow> (\<not> insideShield a \<longrightarrow> \<not> suspended a \<and> (\<forall>s. SegDepth a s = 0))"

lemma advance_fields [simp]:
  "SegPM (advance a seg) = SegPM a" "SegSM (advance a seg) = SegSM a" "SegDepth (advance a seg) = SegDepth a"
  "shDepth (advance a seg) = shDepth a" "suspended (advance a seg) = suspended a" "insideShield (advance a seg) = insideShield a"
  "running (advance a seg) = running a" "hardware (advance a seg) = hardware a"
  by (simp_all add: advance_def Let_def SegPM_def SegSM_def SegDepth_def fun_eq_iff)

lemma ShieldSuspend_ok:
  assumes "ArenaCheck a" and "insideShield a"
  shows "ShieldSuspend a = Some (a\<lparr>running := (running a \<and> suspended a), suspended := True\<rparr>)"
  using assms by (cases a) (auto simp: ShieldSuspend_def)

lemma accounted_cong:
  "shCache a' = shCache a \<Longrightarrow> shCacheI a' = shCacheI a \<Longrightarrow> shCacheLimit a' = shCacheLimit a \<Longrightarrow> shDepth a' = shDepth a \<Longrightarrow>
    SegDepth a' = SegDepth a \<Longrightarrow> accounted a' e = accounted a e"
  by (simp add: accounted_def shape_def totals_def cached_def)

lemma suspend_inv:
  assumes "accounted a e" and "modes a"
  shows "accounted (a\<lparr>running := (running a \<and> suspended a), suspended := True\<rparr>) e"
    and "modes (a\<lparr>running := (running a \<and> suspended a), suspended := True\<rparr>)"
proof -
  let ?a = "a\<lparr>running := (running a \<and> suspended a), suspended := True\<rparr>"
  have s: "SegDepth ?a = SegDepth a" "SegPM ?a = SegPM a" "SegSM ?a = SegSM a"
    by (simp_all add: SegPM_def SegSM_def SegDepth_def fun_eq_iff)
  show "accounted ?a e" using assms(1) s(1) accounted_cong [of ?a a e] by simp
  show "modes ?a" using assms(2) s by (simp add: modes_def)
qed

lemma cache_ok:
  assumes acc: "accounted a e" and m: "modes a" and held: "\<forall>s. s \<noteq> seg \<longrightarrow> synced_or_held a s"
    and out: "outside_rest a"
  shows "\<exists>a'. cache a seg = Some a' \<and> accounted a' e \<and> modes a' \<and> (\<forall>s. synced_or_held a' s) \<and> outside_rest a' \<and>
    insideShield a' = insideShield a \<and> SegSM a' = SegSM a \<and> (\<forall>s. e s > 0 \<longrightarrow> SegPM a' s = SegPM a s)"
proof -
  note chk = accounted_check [OF acc] and ac = acc [unfolded accounted_def]
  have sh: "shape a" and tot: "totals a" using ac by auto
  show ?thesis
  proof (cases "SegSM a seg = SegPM a seg")
    case True
    then have "synced_or_held a s" for s using held by (cases "s = seg") (auto simp: synced_or_held_def)
    then show ?thesis using True chk assms by (auto simp: cache_def)
  next
    case un: False
    show ?thesis
    proof (cases "SegDepth a seg > 0")
      case True
      then have ins: "insideShield a" using out by (auto simp: outside_rest_def)
      define a' where "a' = a\<lparr>running := (running a \<and> suspended a), suspended := True\<rparr>"
      have s: "SegDepth a' = SegDepth a" "SegPM a' = SegPM a" "SegSM a' = SegSM a" "suspended a'" "insideShield a'"
        using ins by (simp_all add: a'_def SegPM_def SegSM_def SegDepth_def fun_eq_iff)
      have "synced_or_held a' s" for s
        using held s True by (cases "s = seg") (auto simp: synced_or_held_def)
      then show ?thesis
        using un True chk ShieldSuspend_ok [OF chk ins] suspend_inv [OF acc m] s ins
        by (auto simp: cache_def outside_rest_def simp flip: a'_def)
    next
      case d0: False
      then have e0: "e seg = 0" "\<not> cached a seg"
        using ac [THEN conjunct2, THEN conjunct2, THEN spec, of seg] by (auto split: if_splits)
      show ?thesis
      proof (cases "suspended a")
        case False
        obtain a' where a': "sync a seg = Some a'" "modes a'" "SegSM a' = SegSM a" "SegPM a' = (SegPM a)(seg := SegSM a seg)"
          "SegDepth a' = SegDepth a" "shCache a' = shCache a" "shCacheI a' = shCacheI a" "shCacheLimit a' = shCacheLimit a"
          "shDepth a' = shDepth a" "suspended a' = suspended a" "insideShield a' = insideShield a"
          using sync_ok [OF chk m, of seg] by blast
        have "accounted a' e" using acc a' accounted_cong [of a' a e] by simp
        moreover have "synced_or_held a' s" for s
          using held a' by (cases "s = seg") (auto simp: synced_or_held_def)
        ultimately show ?thesis
          using False un d0 chk a' e0 out by (auto simp: cache_def ShieldCacheSIZE_def outside_rest_def)
      next
        case sus: True
        define a1 where "a1 = (SegSetDepth seg (SegDepth a seg + 1) a)\<lparr>shDepth := shDepth a + 1\<rparr>"
        have a1: "SegDepth a1 = (SegDepth a)(seg := 1)" "shDepth a1 = shDepth a + 1" "SegPM a1 = SegPM a" "SegSM a1 = SegSM a"
          "shCache a1 = shCache a" "shCacheI a1 = shCacheI a" "shCacheLimit a1 = shCacheLimit a" "suspended a1"
          "insideShield a1 = insideShield a" "hardware a1 = hardware a" "running a1 = running a"
          using d0 sus by (auto simp: a1_def fun_eq_iff)
        have "totals a1" by (rule totals_update [OF tot a1(1)]) (use a1(2) d0 in simp)
        moreover have "shape a1" using sh shape_cong [of a1 a] a1 by simp
        moreover have "SegDepth a1 s = (e(seg := 1)) s + (if cached a1 s then 1 else 0) \<and> SegDepth a1 s < 16" for s
          using ac [THEN conjunct2, THEN conjunct2, THEN spec, of s] e0 a1(1) cached_cong [OF a1(5), of s]
          by (cases "s = seg") simp_all
        ultimately have acc1: "accounted a1 (e(seg := 1))" unfolding accounted_def by blast
        have m1: "modes a1" using m a1 sus by (simp add: modes_def)
        have held1: "\<forall>s. synced_or_held a1 s" using held a1 sus by (auto simp: synced_or_held_def)
        have I: "shCacheI a < shCacheLimit a" "shCacheLimit a \<le> ShieldCacheSIZE" "length (shCache a) = ShieldCacheSIZE"
          using sh by (simp_all add: shape_def)
        obtain a2 where a2: "flush a1 (shCacheI a) = Some a2" "accounted a2 (e(seg := 1))" "modes a2" "\<forall>s. synced_or_held a2 s"
          "shCache a2 = (shCache a)[shCacheI a := None]" "shCacheI a2 = shCacheI a" "shCacheLimit a2 = shCacheLimit a"
          "suspended a2" "insideShield a2 = insideShield a" "SegSM a2 = SegSM a"
          "\<forall>s. (e(seg := 1)) s > 0 \<or> \<not> cached a1 s \<longrightarrow> SegPM a2 s = SegPM a s"
          using flush_ok [OF acc1 m1 held1, of "shCacheI a"] a1 I by auto
        define a3 where "a3 = advance a2 seg"
        have slot: "shCache a2 ! shCacheI a2 = None" using a2(5,6) I by simp
        have nc: "\<not> cached a2 seg"
        proof -
          have "set (shCache a2) \<subseteq> insert None (set (shCache a))" unfolding a2(5) by (rule set_update_subset_insert)
          then show ?thesis using e0(2) by (auto simp: cached_def)
        qed
        have sh2: "shape a2" using a2(2) by (simp add: accounted_def)
        have sh3: "shape a3" "\<And>x. cached a3 x \<longleftrightarrow> x = seg \<or> cached a2 x"
          unfolding a3_def using shape_advance [OF sh2 slot nc] by auto
        have t3: "totals a3" using a2(2) totals_cong [of a3 a2] by (simp add: accounted_def a3_def)
        have "SegDepth a3 s = e s + (if cached a3 s then 1 else 0) \<and> SegDepth a3 s < 16" for s
          using a2(2) [unfolded accounted_def, THEN conjunct2, THEN conjunct2, THEN spec, of s] e0(1) nc sh3(2) [of s]
          by (cases "s = seg") (simp_all add: a3_def)
        then have "accounted a3 e" unfolding accounted_def using sh3(1) t3 by blast
        moreover have "modes a3" using a2(3) by (simp add: a3_def modes_def)
        moreover have "\<forall>s. synced_or_held a3 s" using a2(4) by (simp add: a3_def synced_or_held_def)
        moreover have "cache a seg = Some a3"
        proof -
          have "length (shCache a2) = ShieldCacheSIZE" using a2(5) I by simp
          moreover have "SegDepth a1 seg > 0" "shDepth a1 > 0" using a1(1,2) by simp_all
          ultimately have "cache a seg = (flush a1 (shCacheI a1) \<bind> (\<lambda>a. wr (shCache a) (shCacheI a) (Some seg) \<bind>
            (\<lambda>c. Some (let a = a\<lparr>shCache := c\<rparr>; a = a\<lparr>shCacheI := shCacheI a + 1\<rparr>;
              a = (if shCacheI a = ShieldCacheSIZE then a\<lparr>shCacheI := 0\<rparr> else a);
              a = (if shCacheI a = shCacheLimit a then a\<lparr>shCacheLimit := shCacheLimit a + 1\<rparr> else a) in a))))"
            using chk un d0 sus I a1(6,7) unfolding cache_def a1_def ShieldCacheSIZE_def
            by (simp only: aver_True if_False if_True Let_def simp_thms bind.bind_lunit) simp
          then show ?thesis
            using a1(6) a2(1,6) I \<open>length (shCache a2) = ShieldCacheSIZE\<close> by (simp add: a3_def advance_def Let_def)
        qed
        moreover have "insideShield a" using sus out by (auto simp: outside_rest_def)
        ultimately show ?thesis using a2 e0(1) by (intro exI [of _ a3]) (auto simp: a3_def outside_rest_def)
      qed
    qed
  qed
qed

subsection \<open>Every operation keeps the invariants\<close>

lemma word_absorb:
  fixes x y z :: "'a::len word"
  shows "x AND y = x \<Longrightarrow> x AND (y OR z) = x"
    and "x AND y = x \<Longrightarrow> (x AND NOT z) AND (y AND NOT z) = x AND NOT z"
    and "x AND z = 0 \<Longrightarrow> x AND NOT z = x"
  by (auto simp: bit_eq_iff bit_simps)

lemma shield_invD:
  assumes "shield_inv a e"
  shows "accounted a e" "modes a" "synced_or_held a s" "e s > 0 \<Longrightarrow> SegPM a s = AccessSetEMPTY" "outside_rest a" "ArenaCheck a"
  using assms accounted_check by (auto simp: shield_inv_def outside_rest_def)

lemma shield_invI:
  "accounted a e \<Longrightarrow> modes a \<Longrightarrow> (\<And>s. synced_or_held a s) \<Longrightarrow> (\<And>s. e s > 0 \<Longrightarrow> SegPM a s = AccessSetEMPTY) \<Longrightarrow>
    outside_rest a \<Longrightarrow> shield_inv a e"
  by (simp add: shield_inv_def outside_rest_def)

lemma ShieldInit_inv:
  assumes "\<And>s. depth (segs a s) = 0" "\<And>s. pm (segs a s) = 0" "\<And>s. sm (segs a s) = 0" "\<And>s. hardware a s = 0" "running a"
  shows "shield_inv (ShieldInit a) (\<lambda>s. 0)"
  using assms
  by (auto simp: shield_inv_def ShieldInit_def accounted_def shape_def totals_def total_def cached_def modes_def synced_or_held_def
      SegDepth_def SegPM_def SegSM_def ShieldCacheSIZE_def)

lemma ShieldRaise_ok:
  assumes inv: "shield_inv a e" and mode: "SegSM a seg AND mode = AccessSetEMPTY"
  shows "\<exists>a'. ShieldRaise a seg mode = Some a' \<and> shield_inv a' e \<and> SegSM a' = (SegSM a)(seg := SegSM a seg OR mode) \<and>
    insideShield a' = insideShield a"
proof -
  note i = shield_invD [OF inv]
  define a1 where "a1 = SegSetSM seg (SegSM a seg OR mode) a"
  have a1: "SegSM a1 = (SegSM a)(seg := SegSM a seg OR mode)" "SegPM a1 = SegPM a" "SegDepth a1 = SegDepth a"
    by (auto simp: a1_def fun_eq_iff)
  have "accounted a1 e" using i(1) accounted_cong [of a1 a e] a1(3) by (simp add: a1_def)
  moreover have "modes a1" using i(2) word_absorb(1) [of "SegPM a seg" "SegSM a seg" mode] by (auto simp: modes_def a1_def)
  moreover have "\<forall>s. s \<noteq> seg \<longrightarrow> synced_or_held a1 s" using i(3) by (auto simp: synced_or_held_def a1_def)
  moreover have "outside_rest a1" using i(5) by (simp add: outside_rest_def a1_def)
  ultimately obtain a2 where a2: "cache a1 seg = Some a2" "accounted a2 e" "modes a2" "\<forall>s. synced_or_held a2 s" "outside_rest a2"
    "insideShield a2 = insideShield a1" "SegSM a2 = SegSM a1" "\<forall>s. e s > 0 \<longrightarrow> SegPM a2 s = SegPM a1 s"
    using cache_ok [of a1 e seg] by blast
  have "shield_inv a2 e" using a2 i(4) a1(2) by (intro shield_invI) auto
  moreover have "ShieldRaise a seg mode = Some a2"
    using mode a2(1) accounted_check [OF a2(2)] by (simp add: ShieldRaise_def flip: a1_def)
  ultimately show ?thesis using a2(6,7) a1(1) by (auto simp: a1_def)
qed

lemma protLower_ok:
  assumes "ArenaCheck a" and "hardware a seg = SegPM a seg"
  shows "\<exists>a'. protLower a seg mode = Some a' \<and> SegPM a' = (SegPM a)(seg := SegPM a seg AND NOT mode) \<and>
    hardware a' = (hardware a)(seg := SegPM a seg AND NOT mode) \<and> SegSM a' = SegSM a \<and> SegDepth a' = SegDepth a \<and>
    shCache a' = shCache a \<and> shCacheI a' = shCacheI a \<and> shCacheLimit a' = shCacheLimit a \<and> shDepth a' = shDepth a \<and>
    suspended a' = suspended a \<and> insideShield a' = insideShield a \<and> running a' = running a"
proof (cases "SegPM a seg AND mode = 0")
  case True
  then show ?thesis using assms word_absorb(3) [OF True] by (auto simp: protLower_def fun_eq_iff)
next
  case False
  then show ?thesis using assms by (auto simp: protLower_def Let_def fun_eq_iff)
qed

lemma ShieldLower_ok:
  assumes inv: "shield_inv a e" and mode: "SegSM a seg AND mode = mode"
  shows "\<exists>a'. ShieldLower a seg mode = Some a' \<and> shield_inv a' e \<and> SegSM a' = (SegSM a)(seg := SegSM a seg AND NOT mode) \<and>
    insideShield a' = insideShield a"
proof -
  note i = shield_invD [OF inv]
  define a1 where "a1 = SegSetSM seg (SegSM a seg AND NOT mode) a"
  have a1: "SegSM a1 = (SegSM a)(seg := SegSM a seg AND NOT mode)" "SegPM a1 = SegPM a" "SegDepth a1 = SegDepth a"
    "hardware a1 = hardware a"
    by (auto simp: a1_def fun_eq_iff)
  have acc1: "accounted a1 e" using i(1) accounted_cong [of a1 a e] a1(3) by (simp add: a1_def)
  have "hardware a1 seg = SegPM a1 seg" using i(2) a1 by (simp add: modes_def)
  then obtain a2 where a2: "protLower a1 seg mode = Some a2" "SegPM a2 = (SegPM a1)(seg := SegPM a1 seg AND NOT mode)"
    "hardware a2 = (hardware a1)(seg := SegPM a1 seg AND NOT mode)" "SegSM a2 = SegSM a1" "SegDepth a2 = SegDepth a1"
    "shCache a2 = shCache a1" "shCacheI a2 = shCacheI a1" "shCacheLimit a2 = shCacheLimit a1" "shDepth a2 = shDepth a1"
    "suspended a2 = suspended a1" "insideShield a2 = insideShield a1" "running a2 = running a1"
    using protLower_ok [OF accounted_check [OF acc1], of seg mode] by blast
  have acc2: "accounted a2 e" using acc1 accounted_cong [of a2 a1 e] a2 by simp
  have "shield_inv a2 e"
  proof (rule shield_invI [OF acc2])
    have "(SegPM a seg AND NOT mode) AND (SegSM a seg AND NOT mode) = SegPM a seg AND NOT mode"
      using word_absorb(2) [of "SegPM a seg" "SegSM a seg" mode] i(2) by (simp only: modes_def)
    then show "modes a2" using i(2) a2 a1 by (auto simp: modes_def a1_def)
    show "synced_or_held a2 s" for s using i(3) [of s] a2 a1 by (auto simp: synced_or_held_def a1_def)
    show "SegPM a2 s = AccessSetEMPTY" if "e s > 0" for s using i(4) [OF that] a2 a1 by (auto simp: AccessSetEMPTY_def)
    show "outside_rest a2" using i(5) a2 a1 by (simp add: outside_rest_def a1_def)
  qed
  moreover have "ShieldLower a seg mode = Some a2"
    using mode a2(1) accounted_check [OF acc2] by (simp add: ShieldLower_def flip: a1_def)
  ultimately show ?thesis using a2(4,11) a1(1) by (auto simp: a1_def)
qed

lemma ShieldSuspend_inv:
  assumes inv: "shield_inv a e" and "insideShield a"
  shows "\<exists>a'. ShieldSuspend a = Some a' \<and> shield_inv a' e \<and> suspended a' \<and> insideShield a' \<and> SegSM a' = SegSM a \<and>
    SegPM a' = SegPM a \<and> SegDepth a' = SegDepth a"
proof -
  note i = shield_invD [OF inv]
  define a' where "a' = a\<lparr>running := (running a \<and> suspended a), suspended := True\<rparr>"
  have s: "SegDepth a' = SegDepth a" "SegPM a' = SegPM a" "SegSM a' = SegSM a" "suspended a'" "insideShield a'"
    using assms(2) by (simp_all add: a'_def SegPM_def SegSM_def SegDepth_def fun_eq_iff)
  have "synced_or_held a' x" for x using i(3) [of x] s by (auto simp: synced_or_held_def)
  then have "shield_inv a' e"
    using suspend_inv [OF i(1,2)] i(4) s by (intro shield_invI) (auto simp: outside_rest_def simp flip: a'_def)
  then show ?thesis using ShieldSuspend_ok [OF i(6) assms(2)] s by (auto simp flip: a'_def)
qed

lemma both_modes: "(x :: AccessSet) AND (AccessREAD OR AccessWRITE) = x" "(x :: AccessSet) AND NOT (AccessREAD OR AccessWRITE) = 0"
proof -
  have "AccessREAD OR AccessWRITE = (-1 :: AccessSet)" by (simp add: AccessREAD_def AccessWRITE_def)
  then show "x AND (AccessREAD OR AccessWRITE) = x" "x AND NOT (AccessREAD OR AccessWRITE) = 0" by simp_all
qed

lemma ShieldExpose_ok:
  assumes inv: "shield_inv a e" and ins: "insideShield a" and d: "SegDepth a seg < 15"
  shows "\<exists>a'. ShieldExpose a seg = Some a' \<and> shield_inv a' (e(seg := e seg + 1)) \<and> SegSM a' = SegSM a \<and> insideShield a'"
proof -
  note i = shield_invD [OF inv]
  let ?e = "e(seg := e seg + 1)"
  define a1 where "a1 = (SegSetDepth seg (SegDepth a seg + 1) a)\<lparr>shDepth := shDepth a + 1\<rparr>"
  have a1: "SegDepth a1 = (SegDepth a)(seg := SegDepth a seg + 1)" "shDepth a1 = shDepth a + 1" "SegPM a1 = SegPM a" "SegSM a1 = SegSM a"
    "shCache a1 = shCache a" "shCacheI a1 = shCacheI a" "shCacheLimit a1 = shCacheLimit a" "suspended a1 = suspended a"
    "insideShield a1" "hardware a1 = hardware a" "running a1 = running a"
    using d ins by (auto simp: a1_def fun_eq_iff)
  note ac = i(1) [unfolded accounted_def]
  have "totals a1" by (rule totals_update [OF ac [THEN conjunct2, THEN conjunct1] a1(1)]) (use a1(2) in simp)
  moreover have "shape a1" using ac shape_cong [of a1 a] a1 by simp
  moreover have "SegDepth a1 s = ?e s + (if cached a1 s then 1 else 0) \<and> SegDepth a1 s < 16" for s
    using ac [THEN conjunct2, THEN conjunct2, THEN spec, of s] a1(1) cached_cong [OF a1(5), of s] d
    by (cases "s = seg") simp_all
  ultimately have acc1: "accounted a1 ?e" unfolding accounted_def by blast
  have m1: "modes a1" using i(2) a1 by (simp add: modes_def)
  have held1: "synced_or_held a1 s" for s using i(3) [of s] a1 by (auto simp: synced_or_held_def)
  obtain a2 where a2: "(if SegPM a1 seg AND (AccessREAD OR AccessWRITE) \<noteq> 0 then ShieldSuspend a1 else Some a1) = Some a2"
    "accounted a2 ?e" "modes a2" "SegPM a2 = SegPM a" "SegSM a2 = SegSM a" "SegDepth a2 = SegDepth a1" "insideShield a2"
    "suspended a \<longrightarrow> suspended a2" "SegPM a seg \<noteq> 0 \<longrightarrow> suspended a2"
  proof (cases "SegPM a seg = 0")
    case True
    then show ?thesis using that [of a1] acc1 m1 a1 both_modes by simp
  next
    case False
    define a2 where "a2 = a1\<lparr>running := (running a1 \<and> suspended a1), suspended := True\<rparr>"
    have "SegDepth a2 = SegDepth a1" "SegPM a2 = SegPM a" "SegSM a2 = SegSM a" "suspended a2" "insideShield a2"
      using a1 by (simp_all add: a2_def SegPM_def SegSM_def SegDepth_def fun_eq_iff)
    then show ?thesis
      using that [of a2] suspend_inv [OF acc1 m1] ShieldSuspend_ok [OF accounted_check [OF acc1] a1(9)] False a1(3) both_modes
      by (simp flip: a2_def)
  qed
  have "hardware a2 seg = SegPM a2 seg" using a2(3) by (simp add: modes_def)
  then obtain a3 where a3: "protLower a2 seg (AccessREAD OR AccessWRITE) = Some a3"
    "SegPM a3 = (SegPM a2)(seg := SegPM a2 seg AND NOT (AccessREAD OR AccessWRITE))"
    "hardware a3 = (hardware a2)(seg := SegPM a2 seg AND NOT (AccessREAD OR AccessWRITE))" "SegSM a3 = SegSM a2" "SegDepth a3 = SegDepth a2"
    "shCache a3 = shCache a2" "shCacheI a3 = shCacheI a2" "shCacheLimit a3 = shCacheLimit a2" "shDepth a3 = shDepth a2"
    "suspended a3 = suspended a2" "insideShield a3 = insideShield a2" "running a3 = running a2"
    using protLower_ok [OF accounted_check [OF a2(2)], of seg "AccessREAD OR AccessWRITE"] by blast
  have pm3: "SegPM a3 = (SegPM a)(seg := 0)" "hardware a3 = (hardware a2)(seg := 0)" using a3(2,3) a2(4) both_modes by simp_all
  have "shield_inv a3 ?e"
  proof (rule shield_invI)
    show "accounted a3 ?e" using a2(2) accounted_cong [of a3 a2 ?e] a3 by simp
    show "modes a3" using a2(3-5) a3(4,10,12) pm3 by (auto simp: modes_def)
    show "synced_or_held a3 s" for s
      using i(3) [of s] a1(1) a2(5,6,8,9) a3(4,5,10) pm3(1)
      by (cases "s = seg"; cases "SegPM a seg = 0") (auto simp: synced_or_held_def)
    show "SegPM a3 s = AccessSetEMPTY" if "?e s > 0" for s
      using that i(4) [of s] pm3(1) by (auto simp: AccessSetEMPTY_def split: if_splits)
    show "outside_rest a3" using a3(11) a2(7) by (simp add: outside_rest_def)
  qed
  moreover have "ShieldExpose a seg = Some a3"
  proof -
    have "SegDepth a1 seg > 0" "shDepth a1 > 0" using a1(1,2) by simp_all
    then have "ShieldExpose a seg = ((if SegPM a1 seg AND (AccessREAD OR AccessWRITE) \<noteq> 0 then ShieldSuspend a1 else Some a1)
      \<bind> (\<lambda>a. protLower a seg (AccessREAD OR AccessWRITE)))"
      using i(6) ins unfolding ShieldExpose_def a1_def
      by (simp only: aver_True simp_thms Let_def bind.bind_lunit) simp
    then show ?thesis using a2(1) a3(1) by simp
  qed
  ultimately show ?thesis using a3(4,11) a2(5,7) by auto
qed

lemma depth_le: "accounted a e \<Longrightarrow> SegDepth a s \<le> shDepth a"
  unfolding accounted_def totals_def by (metis total_ge)

lemma ShieldCover_ok:
  assumes inv: "shield_inv a e" and ins: "insideShield a" and ex: "e seg > 0"
  shows "\<exists>a'. ShieldCover a seg = Some a' \<and> shield_inv a' (e(seg := e seg - 1)) \<and> SegSM a' = SegSM a \<and> insideShield a'"
proof -
  note i = shield_invD [OF inv]
  let ?e = "e(seg := e seg - 1)"
  note ac = i(1) [unfolded accounted_def]
  have d: "SegDepth a seg > 0" "SegDepth a seg < 16" "SegDepth a seg = e seg + (if cached a seg then 1 else 0)"
    using ac [THEN conjunct2, THEN conjunct2, THEN spec, of seg] ex by auto
  have "SegDepth a seg \<le> shDepth a" using i(1) by (rule depth_le)
  with d(1) have sd: "shDepth a > 0" by (rule less_le_trans)
  define a1 where "a1 = (SegSetDepth seg (SegDepth a seg - 1) a)\<lparr>shDepth := shDepth a - 1\<rparr>"
  have a1: "SegDepth a1 = (SegDepth a)(seg := SegDepth a seg - 1)" "shDepth a1 = shDepth a - 1" "SegPM a1 = SegPM a" "SegSM a1 = SegSM a"
    "shCache a1 = shCache a" "shCacheI a1 = shCacheI a" "shCacheLimit a1 = shCacheLimit a" "suspended a1 = suspended a"
    "insideShield a1" "hardware a1 = hardware a" "running a1 = running a"
    using d ins by (auto simp: a1_def fun_eq_iff)
  have "totals a1" by (rule totals_update [OF ac [THEN conjunct2, THEN conjunct1] a1(1)]) (use a1(2) d(1) sd in simp)
  moreover have "shape a1" using ac shape_cong [of a1 a] a1 by simp
  moreover have "SegDepth a1 s = ?e s + (if cached a1 s then 1 else 0) \<and> SegDepth a1 s < 16" for s
    using ac [THEN conjunct2, THEN conjunct2, THEN spec, of s] a1(1) cached_cong [OF a1(5), of s] d ex
    by (cases "s = seg") simp_all
  ultimately have acc1: "accounted a1 ?e" unfolding accounted_def by blast
  have m1: "modes a1" using i(2) a1 by (simp add: modes_def)
  have "synced_or_held a1 s" if "s \<noteq> seg" for s using i(3) [of s] a1 that by (auto simp: synced_or_held_def)
  then obtain a2 where a2: "cache a1 seg = Some a2" "accounted a2 ?e" "modes a2" "\<forall>s. synced_or_held a2 s" "outside_rest a2"
    "insideShield a2 = insideShield a1" "SegSM a2 = SegSM a1" "\<forall>s. ?e s > 0 \<longrightarrow> SegPM a2 s = SegPM a1 s"
    using cache_ok [OF acc1 m1, of seg] a1(9) by (auto simp: outside_rest_def)
  have "shield_inv a2 ?e"
  proof (rule shield_invI [OF a2(2,3)])
    show "SegPM a2 s = AccessSetEMPTY" if "?e s > 0" for s
      using that a2(8) a1(3) i(4) [of s] ex by (cases "s = seg") auto
  qed (use a2 in auto)
  moreover have "ShieldCover a seg = Some a2"
    using i(6) i(4) [OF ex] sd d(1) a2(1) unfolding ShieldCover_def a1_def
    by (simp only: aver_True simp_thms Let_def bind.bind_lunit field_simps_shield)
  ultimately show ?thesis using a2(6,7) a1(4,9) by auto
qed

lemma shield_inv_empty:
  assumes "shield_inv a e" and "shDepth a = 0"
  shows "SegDepth a s = 0" and "\<not> cached a s" and "SegPM a s = SegSM a s"
proof -
  note i = shield_invD [OF assms(1)]
  show 0: "SegDepth a s = 0" using depth_le [OF i(1), of s] assms(2) by simp
  show "\<not> cached a s" using i(1) [unfolded accounted_def, THEN conjunct2, THEN conjunct2, THEN spec, of s] 0 by (simp split: if_splits)
  show "SegPM a s = SegSM a s" using i(3) [of s] 0 by (simp add: synced_or_held_def)
qed

lemma uncached_slot: "shape a \<Longrightarrow> (\<And>s. \<not> cached a s) \<Longrightarrow> i < ShieldCacheSIZE \<Longrightarrow> shCache a ! i = None"
  by (metis cached_def nth_mem option.exhaust shape_def)

lemma shield_inv_outside: "shield_inv a e \<Longrightarrow> \<not> insideShield a \<Longrightarrow> shDepth a = 0"
  using total_0 [of "SegDepth a"] by (auto simp: shield_inv_def accounted_def totals_def)

lemma flush_inv:
  assumes inv: "shield_inv a e" and i: "i < shCacheLimit a"
  shows "\<exists>a'. flush a i = Some a' \<and> shield_inv a' e \<and> shCache a' = (shCache a)[i := None] \<and> shCacheLimit a' = shCacheLimit a \<and>
    SegSM a' = SegSM a \<and> insideShield a' = insideShield a"
proof -
  note v = shield_invD [OF inv]
  obtain a' where a': "flush a i = Some a'" "accounted a' e" "modes a'" "\<forall>s. synced_or_held a' s" "shCache a' = (shCache a)[i := None]"
    "shCacheLimit a' = shCacheLimit a" "suspended a' = suspended a" "insideShield a' = insideShield a" "SegSM a' = SegSM a"
    "\<forall>s. e s > 0 \<or> \<not> cached a s \<longrightarrow> SegPM a' s = SegPM a s"
    using flush_ok [OF v(1,2) _ i] v(3) by blast
  have "SegDepth a' s \<le> SegDepth a s" for s
  proof -
    have "cached a s" if "cached a' s"
      using that a'(5) set_update_subset_insert [of "shCache a" i None] by (auto simp: cached_def)
    then show ?thesis
      using v(1) a'(2) unfolding accounted_def by (metis add_left_mono order.refl zero_le_one)
  qed
  then have "outside_rest a'" using v(5) a'(7,8) by (simp add: outside_rest_def) (metis le_zero_eq)
  then have "shield_inv a' e" using a' v(4) by (intro shield_invI) auto
  then show ?thesis using a' by blast
qed

lemma ShieldFlush_loop_ok:
  "shield_inv a e \<Longrightarrow> \<forall>i \<in> set is. i < shCacheLimit a \<Longrightarrow>
    \<exists>a'. ShieldFlush_loop is a = Some a' \<and> shield_inv a' e \<and> SegSM a' = SegSM a \<and> insideShield a' = insideShield a \<and>
      shCacheLimit a' = shCacheLimit a \<and> (\<forall>i < ShieldCacheSIZE. i \<in> set is \<or> shCache a ! i = None \<longrightarrow> shCache a' ! i = None)"
proof (induction "is" arbitrary: a)
  case Nil
  then show ?case by auto
next
  case (Cons i "is")
  have sh: "shape a" using Cons.prems(1) by (simp add: shield_inv_def accounted_def)
  show ?case
  proof (cases "shDepth a = 0")
    case True
    then show ?thesis
      using Cons.prems uncached_slot [OF sh shield_inv_empty(2) [OF Cons.prems(1) True]] by auto
  next
    case False
    obtain a1 where a1: "flush a i = Some a1" "shield_inv a1 e" "shCache a1 = (shCache a)[i := None]"
      "shCacheLimit a1 = shCacheLimit a" "SegSM a1 = SegSM a" "insideShield a1 = insideShield a"
      using flush_inv [OF Cons.prems(1), of i] Cons.prems(2) by auto
    have "shCache a1 ! j = None" if "j < ShieldCacheSIZE" "j = i \<or> shCache a ! j = None" for j
      using that a1(3) sh by (cases "j = i") (auto simp: shape_def)
    then show ?thesis using False a1 Cons.IH [of a1] Cons.prems(2) by fastforce
  qed
qed

lemma ShieldFlush_ok:
  assumes inv: "shield_inv a e"
  shows "\<exists>a'. ShieldFlush a = Some a' \<and> shield_inv a' e \<and> SegSM a' = SegSM a \<and> insideShield a' = insideShield a \<and>
    (\<forall>s. \<not> cached a' s)"
proof -
  have sh: "shape a" using inv by (simp add: shield_inv_def accounted_def)
  obtain a' where a': "ShieldFlush a = Some a'" "shield_inv a' e" "SegSM a' = SegSM a" "insideShield a' = insideShield a"
    "\<forall>i < ShieldCacheSIZE. i \<in> set [0 ..< shCacheLimit a] \<or> shCache a ! i = None \<longrightarrow> shCache a' ! i = None"
    using ShieldFlush_loop_ok [OF inv, of "[0 ..< shCacheLimit a]"] unfolding ShieldFlush_def by auto
  have "shCache a' ! i = None" if "i < ShieldCacheSIZE" for i
    using a'(5) that sh unfolding shape_def by (cases "i < shCacheLimit a") auto
  moreover have "length (shCache a') = ShieldCacheSIZE" using a'(2) by (simp add: shield_inv_def accounted_def shape_def)
  ultimately have "\<not> cached a' s" for s by (auto simp: cached_def in_set_conv_nth)
  with a' show ?thesis by blast
qed

lemma ShieldLeave_ok:
  assumes inv: "shield_inv a e" and ins: "insideShield a" and e: "\<forall>s. e s = 0"
  shows "\<exists>a'. ShieldLeave a = Some a' \<and> shield_inv a' e \<and> SegSM a' = SegSM a \<and> \<not> insideShield a'"
proof -
  obtain a1 where a1: "ShieldFlush a = Some a1" "shield_inv a1 e" "SegSM a1 = SegSM a" "insideShield a1" "\<forall>s. \<not> cached a1 s"
    using ShieldFlush_ok [OF inv] ins by auto
  note i = shield_invD [OF a1(2)]
  have d: "SegDepth a1 s = 0" for s using i(1) [unfolded accounted_def, THEN conjunct2, THEN conjunct2, THEN spec, of s] a1(5) e by simp
  have sd: "shDepth a1 = 0" using i(1) d total_0 [of "SegDepth a1"] by (simp add: accounted_def totals_def)
  define a2 where "a2 = (if suspended a1 then a1\<lparr>running := True, suspended := False\<rparr> else a1)\<lparr>insideShield := False\<rparr>"
  have a2: "SegDepth a2 = SegDepth a1" "SegPM a2 = SegPM a1" "SegSM a2 = SegSM a1" "hardware a2 = hardware a1" "\<not> insideShield a2"
    "\<not> suspended a2" "shCache a2 = shCache a1" "shCacheI a2 = shCacheI a1" "shCacheLimit a2 = shCacheLimit a1"
    "shDepth a2 = shDepth a1" "running a2"
    using i(2) by (auto simp: a2_def modes_def SegPM_def SegSM_def SegDepth_def fun_eq_iff)
  have "shield_inv a2 e"
  proof (rule shield_invI)
    show "accounted a2 e" using i(1) accounted_cong [of a2 a1 e] a2 by simp
    show "modes a2" using i(2) a2 by (auto simp: modes_def)
    show "synced_or_held a2 s" for s
      using shield_inv_empty(3) [OF a1(2) sd, of s] a2 by (simp add: synced_or_held_def)
    show "outside_rest a2" using a2 d by (simp add: outside_rest_def)
  qed (use e in simp)
  moreover have "ShieldLeave a = Some a2"
    using shield_invD(6) [OF inv] ins a1(1) sd by (simp add: ShieldLeave_def Let_def a2_def)
  ultimately show ?thesis using a2 a1(3) by auto
qed

lemma ShieldEnter_ok:
  assumes inv: "shield_inv a e" and out: "\<not> insideShield a"
  shows "\<exists>a'. ShieldEnter a = Some a' \<and> shield_inv a' e \<and> SegSM a' = SegSM a \<and> insideShield a'"
proof -
  note i = shield_invD [OF inv]
  have sd: "shDepth a = 0" by (rule shield_inv_outside [OF inv out])
  note emp = shield_inv_empty [OF inv sd]
  have sh: "shape a" using i(1) by (simp add: accounted_def)
  note slot = uncached_slot [OF sh emp(2)]
  define a1 where "a1 = a\<lparr>shCacheI := 0, shCacheLimit := 1, insideShield := True\<rparr>"
  have a1: "SegDepth a1 = SegDepth a" "SegPM a1 = SegPM a" "SegSM a1 = SegSM a" "hardware a1 = hardware a" "insideShield a1"
    "suspended a1 = suspended a" "shCache a1 = shCache a" "shCacheI a1 = 0" "shCacheLimit a1 = 1" "shDepth a1 = shDepth a"
    "running a1 = running a"
    by (auto simp: a1_def SegPM_def SegSM_def SegDepth_def fun_eq_iff)
  have "shield_inv a1 e"
  proof (rule shield_invI)
    have "shape a1" using sh slot a1 by (auto simp: shape_def ShieldCacheSIZE_def)
    moreover have "totals a1" using i(1) totals_cong [of a1 a] a1 by (simp add: accounted_def)
    ultimately show "accounted a1 e"
      using i(1) unfolding accounted_def a1(1) cached_cong [OF a1(7)] by blast
    show "modes a1" using i(2) a1 by (simp add: modes_def)
    show "synced_or_held a1 s" for s using i(3) [of s] a1 by (simp add: synced_or_held_def)
    show "SegPM a1 s = AccessSetEMPTY" if "e s > 0" for s using i(4) [OF that] a1 by simp
    show "outside_rest a1" using a1 by (simp add: outside_rest_def)
  qed
  moreover have "ShieldEnter a = Some a1"
    using i(5,6) out sd sh slot by (auto simp: ShieldEnter_def shape_def outside_rest_def a1_def)
  ultimately show ?thesis using a1 by auto
qed

subsection \<open>The protocol of the shield's clients\<close>

text \<open>
  A client call with the condition under which the design allows it, and the number of exposes of
  each segment that no cover has matched yet.
\<close>

datatype shield_call =
    CallEnter | CallLeave | CallFlush | CallSuspend | CallResume
  | CallRaise nat AccessSet | CallLower nat AccessSet | CallExpose nat | CallCover nat

definition permitted :: "ArenaStruct \<Rightarrow> (nat \<Rightarrow> nat) \<Rightarrow> shield_call \<Rightarrow> bool" where
  "permitted a e c = (case c of
     CallEnter \<Rightarrow> \<not> insideShield a
   | CallLeave \<Rightarrow> insideShield a \<and> (\<forall>s. e s = 0)
   | CallFlush \<Rightarrow> True
   | CallSuspend \<Rightarrow> insideShield a
   | CallResume \<Rightarrow> insideShield a \<and> suspended a
   | CallRaise seg mode \<Rightarrow> SegSM a seg AND mode = AccessSetEMPTY
   | CallLower seg mode \<Rightarrow> SegSM a seg AND mode = mode
   | CallExpose seg \<Rightarrow> insideShield a \<and> SegDepth a seg < 15
   | CallCover seg \<Rightarrow> e seg > 0)"

inductive shield_step :: "ArenaStruct \<Rightarrow> (nat \<Rightarrow> nat) \<Rightarrow> shield_call \<Rightarrow> ArenaStruct \<Rightarrow> (nat \<Rightarrow> nat) \<Rightarrow> bool" where
  Enter: "ShieldEnter a = Some a' \<Longrightarrow> shield_step a e CallEnter a' e"
| Leave: "ShieldLeave a = Some a' \<Longrightarrow> shield_step a e CallLeave a' e"
| Flush: "ShieldFlush a = Some a' \<Longrightarrow> shield_step a e CallFlush a' e"
| Suspend: "ShieldSuspend a = Some a' \<Longrightarrow> shield_step a e CallSuspend a' e"
| Resume: "ShieldResume a = Some a' \<Longrightarrow> shield_step a e CallResume a' e"
| Raise: "ShieldRaise a seg mode = Some a' \<Longrightarrow> shield_step a e (CallRaise seg mode) a' e"
| Lower: "ShieldLower a seg mode = Some a' \<Longrightarrow> shield_step a e (CallLower seg mode) a' e"
| Expose: "ShieldExpose a seg = Some a' \<Longrightarrow> shield_step a e (CallExpose seg) a' (e(seg := e seg + 1))"
| Cover: "ShieldCover a seg = Some a' \<Longrightarrow> shield_step a e (CallCover seg) a' (e(seg := e seg - 1))"

inductive_simps shield_step_simps [simp]:
  "shield_step a e CallEnter a' e'" "shield_step a e CallLeave a' e'" "shield_step a e CallFlush a' e'"
  "shield_step a e CallSuspend a' e'" "shield_step a e CallResume a' e'" "shield_step a e (CallRaise seg mode) a' e'"
  "shield_step a e (CallLower seg mode) a' e'" "shield_step a e (CallExpose seg) a' e'" "shield_step a e (CallCover seg) a' e'"

definition fresh :: "ArenaStruct \<Rightarrow> bool" where
  "fresh a \<longleftrightarrow> (\<forall>s. segs a s = \<lparr>depth = 0, pm = AccessSetEMPTY, sm = AccessSetEMPTY\<rparr> \<and> hardware a s = AccessSetEMPTY) \<and> running a"

inductive shield_reachable :: "ArenaStruct \<Rightarrow> (nat \<Rightarrow> nat) \<Rightarrow> bool" where
  Init: "fresh a \<Longrightarrow> shield_reachable (ShieldInit a) (\<lambda>s. 0)"
| Step: "shield_reachable a e \<Longrightarrow> permitted a e c \<Longrightarrow> shield_step a e c a' e' \<Longrightarrow> shield_reachable a' e'"

lemma exposed_inside: "shield_inv a e \<Longrightarrow> e s > 0 \<Longrightarrow> insideShield a"
  unfolding shield_inv_def accounted_def by (metis add_is_0 less_numeral_extra(3))

lemma ShieldResume_ok: "ArenaCheck a \<Longrightarrow> insideShield a \<Longrightarrow> suspended a \<Longrightarrow> ShieldResume a = Some a"
  by (simp add: ShieldResume_def)

lemma permitted_step:
  assumes "shield_inv a e" and "permitted a e c"
  shows "\<exists>a' e'. shield_step a e c a' e' \<and> shield_inv a' e'"
proof (cases c)
  case (CallExpose seg)
  then show ?thesis using ShieldExpose_ok [OF assms(1), of seg] assms(2) by (auto simp: permitted_def)
next
  case (CallCover seg)
  then show ?thesis
    using ShieldCover_ok [OF assms(1), of seg] exposed_inside [OF assms(1), of seg] assms(2) by (auto simp: permitted_def)
next
  case (CallRaise seg mode)
  then show ?thesis using ShieldRaise_ok [OF assms(1), of seg mode] assms(2) by (auto simp: permitted_def)
next
  case (CallLower seg mode)
  then show ?thesis using ShieldLower_ok [OF assms(1), of seg mode] assms(2) by (auto simp: permitted_def)
next
  case CallFlush
  then show ?thesis using ShieldFlush_ok [OF assms(1)] by auto
next
  case CallEnter
  then show ?thesis using ShieldEnter_ok [OF assms(1)] assms(2) by (auto simp: permitted_def)
next
  case CallLeave
  then show ?thesis using ShieldLeave_ok [OF assms(1)] assms(2) by (auto simp: permitted_def)
next
  case CallSuspend
  then show ?thesis using ShieldSuspend_inv [OF assms(1)] assms(2) by (auto simp: permitted_def)
next
  case CallResume
  then show ?thesis using ShieldResume_ok [OF shield_invD(6) [OF assms(1)]] assms by (auto simp: permitted_def)
qed

lemma shield_step_det: "shield_step a e c a1 e1 \<Longrightarrow> shield_step a e c a2 e2 \<Longrightarrow> a1 = a2 \<and> e1 = e2"
  by (cases c) auto

lemma reachable_inv: "shield_reachable a e \<Longrightarrow> shield_inv a e"
proof (induction rule: shield_reachable.induct)
  case (Init a)
  then show ?case by (intro ShieldInit_inv) (auto simp: fresh_def AccessSetEMPTY_def)
next
  case (Step a e c a' e')
  then show ?case using permitted_step [of a e c] shield_step_det by blast
qed

lemma reachable_depth:
  assumes "shield_reachable a e"
  shows "SegDepth a s = e s + (if cached a s then 1 else 0)" and "shDepth a = total (SegDepth a)"
  using reachable_inv [OF assms] by (auto simp: shield_inv_def accounted_def totals_def)

text \<open>
  C4: The invariants and the properties that the design comments of shield.c state hold in every
  state clients that follow the protocol can reach. The mutator runs outside the shield. While it
  runs, the hardware refuses exactly the accesses the shield mode names, for every segment, so no
  access to shielded memory goes unnoticed. An unsynchronised segment has positive depth and the
  mutator is suspended. Protection never exceeds the shield mode. An exposed segment is not
  protected at all. The depth of a segment is its unmatched exposes plus its place in the cache,
  the total depth is their sum, it is 0 outside the shield, and the arena check holds.
\<close>

theorem shield_invariants:
  assumes "shield_reachable a e"
  shows "(\<not> insideShield a \<longrightarrow> running a \<and> shDepth a = 0) \<and> (running a \<longrightarrow> hardware a = SegSM a) \<and>
    (\<forall>s. SegPM a s \<noteq> SegSM a s \<longrightarrow> \<not> running a \<and> suspended a \<and> SegDepth a s > 0) \<and>
    (\<forall>s. hardware a s AND SegSM a s = hardware a s) \<and> (\<forall>s. e s > 0 \<longrightarrow> hardware a s = AccessSetEMPTY) \<and>
    (\<forall>s. SegDepth a s = e s + (if cached a s then 1 else 0) \<and> SegDepth a s < 2 ^ ShieldDepthWIDTH) \<and>
    shDepth a = total (SegDepth a) \<and> ArenaCheck a"
proof -
  note inv = reachable_inv [OF assms]
  note i = shield_invD [OF inv]
  have run: "running a = (\<not> suspended a)" and hw: "hardware a s = SegPM a s" for s using i(2) by (auto simp: modes_def)
  have "\<not> insideShield a \<longrightarrow> running a \<and> shDepth a = 0"
    using shield_inv_outside [OF inv] i(5) run by (auto simp: outside_rest_def)
  moreover have "running a \<longrightarrow> hardware a = SegSM a"
    using i(3) run hw by (auto simp: synced_or_held_def fun_eq_iff)
  moreover have "\<forall>s. SegPM a s \<noteq> SegSM a s \<longrightarrow> \<not> running a \<and> suspended a \<and> SegDepth a s > 0"
    using i(3) run by (auto simp: synced_or_held_def)
  moreover have "\<forall>s. hardware a s AND SegSM a s = hardware a s" using i(2) by (simp add: modes_def)
  moreover have "\<forall>s. e s > 0 \<longrightarrow> hardware a s = AccessSetEMPTY" using i(4) hw by simp
  moreover have "SegDepth a s < 2 ^ ShieldDepthWIDTH" for s
    using i(1) [unfolded accounted_def, THEN conjunct2, THEN conjunct2, THEN spec, of s] unfolding ShieldDepthWIDTH_def by simp
  ultimately show ?thesis using reachable_depth [OF assms] i(6) by blast
qed

definition shield_start :: ArenaStruct where
  "shield_start = \<lparr>insideShield = True, shCache = [], shCacheI = 7, shCacheLimit = 9, shDepth = 3, suspended = True,
     segs = (\<lambda>s. \<lparr>depth = 0, pm = 0, sm = 0\<rparr>), hardware = (\<lambda>s. 0), running = True\<rparr>"

lemma shield_start_reachable: "shield_reachable (ShieldInit shield_start) (\<lambda>s. 0)"
  by (rule shield_reachable.Init) (simp add: fresh_def shield_start_def AccessSetEMPTY_def)

definition shield_demo :: "ArenaStruct option" where
  "shield_demo = do {
     a \<leftarrow> ShieldRaise (ShieldInit shield_start) 5 AccessWRITE;
     a \<leftarrow> ShieldEnter a;
     ShieldExpose a 5
   }"

lemma shield_demo_reachable: "\<exists>a. shield_demo = Some a \<and> shield_reachable a ((\<lambda>s. 0)(5 := 1)) \<and> SegSM a 5 = 2"
proof -
  let ?a0 = "ShieldInit shield_start"
  note i0 = reachable_inv [OF shield_start_reachable]
  have sm: "SegSM ?a0 5 = 0" by (simp add: ShieldInit_def shield_start_def SegSM_def)
  have out: "\<not> insideShield ?a0" by (simp add: ShieldInit_def)
  obtain a1 where a1: "ShieldRaise ?a0 5 AccessWRITE = Some a1" "SegSM a1 = (SegSM ?a0)(5 := 2)" "\<not> insideShield a1"
    using ShieldRaise_ok [OF i0, of 5 AccessWRITE] sm out by (auto simp: AccessSetEMPTY_def AccessWRITE_def)
  have r1: "shield_reachable a1 (\<lambda>s. 0)"
    by (rule shield_reachable.Step [OF shield_start_reachable, of "CallRaise 5 AccessWRITE"])
      (simp_all add: permitted_def AccessSetEMPTY_def a1(1) sm)
  obtain a2 where a2: "ShieldEnter a1 = Some a2" "SegSM a2 = SegSM a1" "insideShield a2"
    using ShieldEnter_ok [OF reachable_inv [OF r1] a1(3)] by blast
  have r2: "shield_reachable a2 (\<lambda>s. 0)"
    by (rule shield_reachable.Step [OF r1, of CallEnter]) (simp_all add: permitted_def a2(1) a1(3))
  have d: "SegDepth a2 5 < 15" using reachable_depth(1) [OF r2, of 5] by simp
  obtain a3 where a3: "ShieldExpose a2 5 = Some a3" "SegSM a3 = SegSM a2"
    using ShieldExpose_ok [OF reachable_inv [OF r2] a2(3) d] by blast
  have "shield_reachable a3 ((\<lambda>s. 0)(5 := 1))"
    by (rule shield_reachable.Step [OF r2, of "CallExpose 5"]) (simp_all add: permitted_def a3(1) a2(3) d)
  then show ?thesis using a1 a2 a3 by (auto simp: shield_demo_def)
qed

theorem shield_invariants_witness:
  "\<exists>a. shield_demo = Some a \<and> SegSM a 5 = 2 \<and> hardware a 5 = 0 \<and> suspended a \<and> ArenaCheck a"
proof -
  obtain a where a: "shield_demo = Some a" "shield_reachable a ((\<lambda>s. 0)(5 := 1))" "SegSM a 5 = 2"
    using shield_demo_reachable by blast
  note t = shield_invariants [OF a(2)]
  have hw: "hardware a 5 = 0" using t by (auto simp: AccessSetEMPTY_def)
  then have "\<not> running a" using t a(3) by auto
  then have "suspended a" using reachable_inv [OF a(2)] by (simp add: shield_inv_def modes_def)
  with a hw t show ?thesis by blast
qed

text \<open>
  C5: No assertion of the shield ever fails for clients that follow the protocol, and every call the
  protocol permits returns: it takes a reachable state to another one. A sixteenth depth on one
  segment is caught, not wrapped: exposing a segment of depth 15 fails the assertion.
\<close>

theorem shield_progress:
  assumes "shield_reachable a e"
  shows "(permitted a e c \<longrightarrow> (\<exists>a' e'. shield_step a e c a' e' \<and> shield_reachable a' e')) \<and>
    (SegDepth a seg = 15 \<longrightarrow> ShieldExpose a seg = None)"
proof
  show "permitted a e c \<longrightarrow> (\<exists>a' e'. shield_step a e c a' e' \<and> shield_reachable a' e')"
    using permitted_step [OF reachable_inv [OF assms]] assms by (blast intro: shield_reachable.Step)
  show "SegDepth a seg = 15 \<longrightarrow> ShieldExpose a seg = None"
    by (auto simp: ShieldExpose_def Let_def aver_bind)
qed

theorem shield_progress_witness:
  "\<exists>a' e'. shield_step (ShieldInit shield_start) (\<lambda>s. 0) CallEnter a' e' \<and> shield_reachable a' e'"
proof -
  have "permitted (ShieldInit shield_start) (\<lambda>s. 0) CallEnter" by (simp add: permitted_def ShieldInit_def)
  then show ?thesis
    using shield_progress [OF shield_start_reachable, of CallEnter 0] by blast
qed

end
