(* ===== verification/Pool_Mfs.thy ===== *)
theory Pool_Mfs
  imports Mpm_Words
begin

text \<open>
  The pool of fixed small units (\<^verbatim>\<open>poolmfs.c\<close>), from which the other data structures of the memory
  pool system take their descriptors. \<open>next_of\<close> is the first word of each free unit and \<open>tract_p\<close> the
  client pointer of the first tract of each extent. The arena is a parameter: \<open>arena_answers\<close> are its
  answers to the following calls of \<^verbatim>\<open>ArenaAlloc\<close>, and an exhausted list refuses.
\<close>

type_synonym arena_answers = "(Res + mword) list"

definition ArenaAlloc :: "arena_answers \<Rightarrow> (Res + mword) \<times> arena_answers" where
  "ArenaAlloc answers = (case answers of [] \<Rightarrow> (Inl ResRESOURCE, []) | r # rs \<Rightarrow> (r, rs))"

definition MPS_PF_ALIGN :: mword where "MPS_PF_ALIGN = 4"

definition UNIT_MIN :: mword where "UNIT_MIN = 4"

record MFSStruct =
  unroundedUnitSize :: mword
  extendBy :: mword
  unitSize :: mword
  unitsPerExtent :: mword
  freeList :: mword
  tractList :: mword
  next_of :: "mword \<Rightarrow> mword"
  tract_p :: "mword \<Rightarrow> mword"

definition MFSInit :: "mword \<Rightarrow> mword \<Rightarrow> mword \<Rightarrow> MFSStruct \<Rightarrow> MFSStruct option" where
  "MFSInit arenaAlign extendBy0 unitSize0 m = do {
     aver (unitSize0 \<ge> UNIT_MIN);
     aver (extendBy0 \<ge> unitSize0);
     let m = m\<lparr>unroundedUnitSize := unitSize0\<rparr>;
     let unitSize' = WordAlignUp unitSize0 MPS_PF_ALIGN;
     let extendBy' = WordAlignUp extendBy0 arenaAlign;
     Some (m\<lparr>extendBy := extendBy', unitSize := unitSize', unitsPerExtent := extendBy' div unitSize',
       freeList := 0, tractList := 0\<rparr>)
   }"

definition MFSCheck :: "mword \<Rightarrow> MFSStruct \<Rightarrow> bool" where
  "MFSCheck arenaAlign m \<longleftrightarrow> unroundedUnitSize m \<ge> UNIT_MIN \<and> extendBy m \<ge> UNIT_MIN \<and>
     WordIsAligned (extendBy m) arenaAlign \<and> WordAlignUp (unroundedUnitSize m) MPS_PF_ALIGN = unitSize m \<and>
     unitsPerExtent m = extendBy m div unitSize m"

text \<open>The tracts handed back to the arena, in order, with their size.\<close>

partial_function (option) MFSFinish_loop :: "MFSStruct \<Rightarrow> mword \<Rightarrow> (mword \<times> mword) list option" where
  "MFSFinish_loop m tract =
     (if tract \<noteq> 0
      then do { freed \<leftarrow> MFSFinish_loop m (tract_p m tract); Some ((tract, extendBy m) # freed) }
      else Some [])"

definition MFSFinish :: "MFSStruct \<Rightarrow> (mword \<times> mword) list option" where
  "MFSFinish m = MFSFinish_loop m (tractList m)"

text \<open>The loop that threads the units of a new extent: the remaining indices, \<^verbatim>\<open>header\<close> and \<^verbatim>\<open>next\<close>.\<close>

fun MFSAlloc_sew :: "mword \<Rightarrow> nat list \<Rightarrow> mword \<Rightarrow> mword \<Rightarrow> MFSStruct \<Rightarrow> (mword \<times> MFSStruct) option" where
  "MFSAlloc_sew base0 [] header nxt m = Some (header, m)"
| "MFSAlloc_sew base0 (i # js) header nxt m = do {
     let header = base0 + unitSize m * (unitsPerExtent m - of_nat i - 1);
     aver (WordIsAligned header MPS_PF_ALIGN);
     aver (header + unitSize m \<le> base0 + extendBy m);
     let m = m\<lparr>next_of := (next_of m)(header := nxt)\<rparr>;
     MFSAlloc_sew base0 js header header m
   }"

definition MFSAlloc :: "MFSStruct \<Rightarrow> mword \<Rightarrow> arena_answers \<Rightarrow> (Res \<times> mword \<times> MFSStruct \<times> arena_answers) option" where
  "MFSAlloc m size_wanted answers = do {
     aver (size_wanted = unroundedUnitSize m);
     let f = freeList m;
     r \<leftarrow> (if f = 0
          then (case ArenaAlloc answers of
                  (Inl res, answers) \<Rightarrow> Some (Inl (res, answers))
                | (Inr base0, answers) \<Rightarrow> do {
                    let m = m\<lparr>tract_p := (tract_p m)(base0 := tractList m)\<rparr>;
                    let m = m\<lparr>tractList := base0\<rparr>;
                    (header, m) \<leftarrow> MFSAlloc_sew base0 [0 ..< unat (unitsPerExtent m)] 0 0 m;
                    Some (Inr (header, m, answers))
                  })
          else Some (Inr (f, m, answers)));
     (case r of
        Inl (res, answers) \<Rightarrow> Some (res, 0, m, answers)
      | Inr (f, m, answers) \<Rightarrow> do {
          aver (f \<noteq> 0);
          Some (ResOK, f, m\<lparr>freeList := next_of m f\<rparr>, answers)
        })
   }"

definition MFSFree :: "MFSStruct \<Rightarrow> mword \<Rightarrow> mword \<Rightarrow> MFSStruct option" where
  "MFSFree m old size_given = do {
     aver (old \<noteq> 0);
     aver (size_given = unroundedUnitSize m);
     Some (m\<lparr>next_of := (next_of m)(old := freeList m), freeList := old\<rparr>)
   }"

subsection \<open>Chains of words in memory\<close>

fun chain :: "(mword \<Rightarrow> mword) \<Rightarrow> mword \<Rightarrow> mword list \<Rightarrow> bool" where
  "chain nx p [] \<longleftrightarrow> p = 0"
| "chain nx p (x # xs) \<longleftrightarrow> p = x \<and> x \<noteq> 0 \<and> chain nx (nx x) xs"

lemma chain_0 [simp]: "chain nx 0 xs \<longleftrightarrow> xs = []"
  by (cases xs) auto

lemma chain_nonzero: "chain nx p xs \<Longrightarrow> p \<noteq> 0 \<Longrightarrow> \<exists>ys. xs = p # ys"
  by (cases xs) auto

lemma chain_upd: "x \<notin> set xs \<Longrightarrow> chain (nx(x := v)) p xs = chain nx p xs"
  by (induction xs arbitrary: p) auto

lemma chain_notin_0: "chain nx p xs \<Longrightarrow> 0 \<notin> set xs"
  by (induction xs arbitrary: p) auto

subsection \<open>The invariant of the pool\<close>

definition mfs_wf :: "MFSStruct \<Rightarrow> bool" where
  "mfs_wf m \<longleftrightarrow> unitSize m > 0 \<and> WordIsAligned (unitSize m) MPS_PF_ALIGN \<and> unitsPerExtent m > 0 \<and>
     unat (unitSize m) * unat (unitsPerExtent m) \<le> unat (extendBy m)"

definition unit_addr :: "MFSStruct \<Rightarrow> mword \<Rightarrow> nat \<Rightarrow> mword" where
  "unit_addr m b j = b + unitSize m * of_nat j"

definition units_of :: "MFSStruct \<Rightarrow> mword \<Rightarrow> mword set" where
  "units_of m b = unit_addr m b ` {..< unat (unitsPerExtent m)}"

text \<open>An extent of the arena: not null, aligned and inside the address space.\<close>

definition extent_ok :: "mword \<Rightarrow> mword \<Rightarrow> bool" where
  "extent_ok ext b \<longleftrightarrow> b \<noteq> 0 \<and> WordIsAligned b MPS_PF_ALIGN \<and> unat b + unat ext < 2 ^ 32"

definition apart :: "mword \<Rightarrow> mword \<Rightarrow> mword \<Rightarrow> bool" where
  "apart sz a b \<longleftrightarrow> unat a + unat sz \<le> unat b \<or> unat b + unat sz \<le> unat a"

definition extents_ok :: "mword \<Rightarrow> mword list \<Rightarrow> bool" where
  "extents_ok ext bs \<longleftrightarrow> (\<forall>b \<in> set bs. extent_ok ext b) \<and> sorted_wrt (apart ext) bs"

definition granted :: "arena_answers \<Rightarrow> mword list" where
  "granted answers = map projr (filter (\<lambda>r. \<not> isl r) answers)"

text \<open>
  What the pool relies on: the regions the arena will grant are new, disjoint from each other and from
  the extents \<open>es\<close> the pool has, and a refusal is not \<open>ResOK\<close>.
\<close>

definition arena_ok :: "mword \<Rightarrow> mword list \<Rightarrow> arena_answers \<Rightarrow> bool" where
  "arena_ok ext es answers \<longleftrightarrow> extents_ok ext (es @ granted answers) \<and> Inl ResOK \<notin> set answers"

definition mfs_inv :: "MFSStruct \<Rightarrow> mword list \<Rightarrow> mword list \<Rightarrow> mword set \<Rightarrow> bool" where
  "mfs_inv m es fs live \<longleftrightarrow> mfs_wf m \<and> chain (tract_p m) (tractList m) es \<and> chain (next_of m) (freeList m) fs \<and>
     distinct fs \<and> set fs \<inter> live = {} \<and> (\<forall>x \<in> set fs \<union> live. \<exists>b \<in> set es. x \<in> units_of m b) \<and> extents_ok (extendBy m) es"

definition same_sizes :: "MFSStruct \<Rightarrow> MFSStruct \<Rightarrow> bool" where
  "same_sizes m m' \<longleftrightarrow> unroundedUnitSize m' = unroundedUnitSize m \<and> unitSize m' = unitSize m \<and> extendBy m' = extendBy m \<and>
     unitsPerExtent m' = unitsPerExtent m"

lemma same_sizes_refl [simp]: "same_sizes m m"
  by (simp add: same_sizes_def)

lemma same_sizes_trans: "same_sizes a b \<Longrightarrow> same_sizes b c \<Longrightarrow> same_sizes a c"
  by (simp add: same_sizes_def)

lemma same_sizesD:
  "same_sizes m m' \<Longrightarrow> mfs_wf m' = mfs_wf m" "same_sizes m m' \<Longrightarrow> unit_addr m' b j = unit_addr m b j"
  "same_sizes m m' \<Longrightarrow> units_of m' b = units_of m b"
  by (simp_all add: same_sizes_def mfs_wf_def unit_addr_def units_of_def)

lemma align4: "WordIsAligned w MPS_PF_ALIGN \<longleftrightarrow> 4 dvd unat w"
  using WordIsAligned_iff [of 4 w] AlignCheck_iff [of 4] by (auto simp: MPS_PF_ALIGN_def intro: exI [of _ 2])

lemma unit_fits:
  assumes "mfs_wf m" and "j < unat (unitsPerExtent m)"
  shows "unat (unitSize m) * j + unat (unitSize m) \<le> unat (extendBy m)"
proof -
  have "unat (unitSize m) * (j + 1) \<le> unat (unitSize m) * unat (unitsPerExtent m)" using assms(2) by (intro mult_le_mono2) simp
  then show ?thesis using assms(1) by (simp add: mfs_wf_def)
qed

lemma unat_unit_addr:
  assumes "mfs_wf m" and "extent_ok (extendBy m) b" and "j < unat (unitsPerExtent m)"
  shows "unat (unit_addr m b j) = unat b + unat (unitSize m) * j"
proof -
  have b: "unat b + unat (unitSize m) * j < 2 ^ 32"
    using unit_fits [OF assms(1,3)] assms(2) by (simp add: extent_ok_def)
  have "unat (of_nat j :: mword) = j" using assms(3) unat_mword_less [of "unitsPerExtent m"] by (simp add: unsigned_of_nat take_bit_nat_eq_self)
  then have "unat (unit_addr m b j) = (unat b + unat (unitSize m) * j) mod 2 ^ 32"
    by (simp add: unit_addr_def unat_word_ariths mod_simps)
  with b show ?thesis by simp
qed

lemma unit_addr_props:
  assumes "mfs_wf m" and "extent_ok (extendBy m) b" and "x \<in> units_of m b"
  shows "x \<noteq> 0" and "WordIsAligned x MPS_PF_ALIGN" and "unat b \<le> unat x" and "unat x + unat (unitSize m) \<le> unat b + unat (extendBy m)"
proof -
  obtain j where j: "j < unat (unitsPerExtent m)" "x = unit_addr m b j" using assms(3) by (auto simp: units_of_def)
  note u = unat_unit_addr [OF assms(1,2) j(1)] and f = unit_fits [OF assms(1) j(1)]
  have "unat b > 0" using assms(2) by (simp add: extent_ok_def unat_gt_0)
  then show "x \<noteq> 0" using u j(2) unat_gt_0 [of x] by simp
  show "unat b \<le> unat x" using u j(2) by simp
  show "unat x + unat (unitSize m) \<le> unat b + unat (extendBy m)" using u f j(2) by simp
  show "WordIsAligned x MPS_PF_ALIGN"
    using u j(2) assms(1,2) unfolding align4 mfs_wf_def extent_ok_def by simp
qed

lemma units_apart:
  assumes wf: "mfs_wf m" and ext: "extents_ok (extendBy m) es"
    and x: "a \<in> set es" "x \<in> units_of m a" and y: "b \<in> set es" "y \<in> units_of m b" and ne: "x \<noteq> y"
  shows "apart (unitSize m) x y"
proof -
  have oa: "extent_ok (extendBy m) a" and ob: "extent_ok (extendBy m) b" using ext x(1) y(1) by (auto simp: extents_ok_def)
  note px = unit_addr_props [OF wf oa x(2)] and py = unit_addr_props [OF wf ob y(2)]
  show ?thesis
  proof (cases "a = b")
    case True
    obtain i where i: "i < unat (unitsPerExtent m)" "x = unit_addr m a i" using x(2) by (auto simp: units_of_def)
    obtain j where j: "j < unat (unitsPerExtent m)" "y = unit_addr m a j" using y(2) True by (auto simp: units_of_def)
    have ux: "unat x = unat a + unat (unitSize m) * i" using unat_unit_addr [OF wf oa i(1)] i(2) by simp
    have uy: "unat y = unat a + unat (unitSize m) * j" using unat_unit_addr [OF wf oa j(1)] j(2) by simp
    have "i \<noteq> j" using ne i(2) j(2) by auto
    then consider "i + 1 \<le> j" | "j + 1 \<le> i" by linarith
    then show ?thesis
    proof cases
      case 1
      then have "unat (unitSize m) * (i + 1) \<le> unat (unitSize m) * j" by (rule mult_le_mono2)
      then show ?thesis by (simp add: apart_def ux uy)
    next
      case 2
      then have "unat (unitSize m) * (j + 1) \<le> unat (unitSize m) * i" by (rule mult_le_mono2)
      then show ?thesis by (simp add: apart_def ux uy)
    qed
  next
    case False
    have "apart (extendBy m) a b \<or> apart (extendBy m) b a"
      using ext x(1) y(1) False unfolding extents_ok_def sorted_wrt_iff_nth_less in_set_conv_nth
      by (metis nat_neq_iff)
    then show ?thesis using px(3,4) py(3,4) by (auto simp: apart_def)
  qed
qed

subsection \<open>What the operations keep\<close>

lemma unit_addr_inj:
  assumes "mfs_wf m" and "extent_ok (extendBy m) b" and "i < unat (unitsPerExtent m)" and "j < unat (unitsPerExtent m)"
    and "unit_addr m b i = unit_addr m b j"
  shows "i = j"
proof -
  have "unat b + unat (unitSize m) * i = unat b + unat (unitSize m) * j"
    using unat_unit_addr [OF assms(1,2,3)] unat_unit_addr [OF assms(1,2,4)] assms(5) by metis
  then have "unat (unitSize m) * i = unat (unitSize m) * j" by simp
  moreover have "unat (unitSize m) > 0" using assms(1) by (simp add: mfs_wf_def word_less_nat_alt)
  ultimately show ?thesis by (metis mult_cancel1 less_not_refl)
qed

lemma MFSAlloc_sew_ok:
  assumes wf: "mfs_wf m" and b: "extent_ok (extendBy m) b"
  shows "k \<le> unat (unitsPerExtent m) \<Longrightarrow> chain nx h (map (unit_addr m b) [unat (unitsPerExtent m) - k ..< unat (unitsPerExtent m)]) \<Longrightarrow>
    \<exists>h' nx'. MFSAlloc_sew b [k ..< unat (unitsPerExtent m)] h h (m\<lparr>next_of := nx\<rparr>) = Some (h', m\<lparr>next_of := nx'\<rparr>) \<and>
      chain nx' h' (map (unit_addr m b) [0 ..< unat (unitsPerExtent m)]) \<and> (\<forall>x. x \<notin> units_of m b \<longrightarrow> nx' x = nx x)"
proof (induction "unat (unitsPerExtent m) - k" arbitrary: k h nx)
  case 0
  then show ?case by auto
next
  case (Suc d)
  let ?n = "unat (unitsPerExtent m)"
  have k: "k < ?n" using Suc.hyps(2) by simp
  define j where "j = ?n - k - 1"
  have j: "j < ?n" "?n - k = Suc j" using k by (auto simp: j_def)
  have uk: "unat (of_nat k :: mword) = k" using k unat_mword_less [of "unitsPerExtent m"] by (simp add: unsigned_of_nat take_bit_nat_eq_self)
  have idx: "unitsPerExtent m - of_nat k - 1 = (of_nat j :: mword)"
  proof -
    have "?n = j + k + 1" using j k by simp
    then have "(of_nat ?n :: mword) = of_nat (j + k + 1)" by (rule arg_cong)
    then have "unitsPerExtent m = of_nat j + of_nat k + 1" by simp
    then show ?thesis by simp
  qed
  define x where "x = unit_addr m b j"
  have x: "x \<in> units_of m b" using j(1) by (auto simp: x_def units_of_def)
  note px = unit_addr_props [OF wf b x]
  have ux: "unat x = unat b + unat (unitSize m) * j" using unat_unit_addr [OF wf b j(1)] by (simp add: x_def)
  have le: "x + unitSize m \<le> b + extendBy m"
  proof -
    have bb: "unat b + unat (extendBy m) < 2 ^ 32" using b by (simp add: extent_ok_def)
    have "unat (b + extendBy m) = unat b + unat (extendBy m)" using bb by (simp add: unat_word_ariths)
    moreover have "unat (x + unitSize m) = unat x + unat (unitSize m)" using bb px(4) by (simp add: unat_word_ariths)
    ultimately show ?thesis using px(4) by (simp add: word_le_nat_alt)
  qed
  have new: "x \<notin> set (map (unit_addr m b) [?n - k ..< ?n])"
  proof
    assume "x \<in> set (map (unit_addr m b) [?n - k ..< ?n])"
    then obtain i where i: "?n - k \<le> i" "i < ?n" "x = unit_addr m b i" by auto
    then have "j = i" using unit_addr_inj [OF wf b j(1) i(2)] unfolding x_def by blast
    then show False using i(1) j(2) by simp
  qed
  have "chain (nx(x := h)) x (map (unit_addr m b) [?n - Suc k ..< ?n])"
  proof -
    have "?n - Suc k = j" using j(2) by arith
    then have "[?n - Suc k ..< ?n] = j # [?n - k ..< ?n]" using j by (simp add: upt_conv_Cons)
    then show ?thesis using Suc.prems(2) px(1) chain_upd [OF new] by (simp add: x_def)
  qed
  moreover have "d = ?n - Suc k" "Suc k \<le> ?n" using Suc.hyps(2) k by simp_all
  ultimately obtain h' nx' where r: "MFSAlloc_sew b [Suc k ..< ?n] x x (m\<lparr>next_of := nx(x := h)\<rparr>) = Some (h', m\<lparr>next_of := nx'\<rparr>)"
    "chain nx' h' (map (unit_addr m b) [0 ..< ?n])" "\<forall>y. y \<notin> units_of m b \<longrightarrow> nx' y = (nx(x := h)) y"
    using Suc.hyps(1) by blast
  have xe: "b + unitSize m * of_nat j = x" by (simp add: x_def unit_addr_def)
  have "MFSAlloc_sew b (k # [Suc k ..< ?n]) h h (m\<lparr>next_of := nx\<rparr>) = Some (h', m\<lparr>next_of := nx'\<rparr>)"
  proof -
    have f: "unitSize (m\<lparr>next_of := nx\<rparr>) = unitSize m" "unitsPerExtent (m\<lparr>next_of := nx\<rparr>) = unitsPerExtent m"
      "extendBy (m\<lparr>next_of := nx\<rparr>) = extendBy m" "next_of (m\<lparr>next_of := nx\<rparr>) = nx"
      "m\<lparr>next_of := nx, next_of := nx(x := h)\<rparr> = m\<lparr>next_of := nx(x := h)\<rparr>" by simp_all
    show ?thesis unfolding MFSAlloc_sew.simps Let_def f(1-4) idx xe f(5)
      by (simp only: px(2) le r(1) aver_True bind.bind_lunit)
  qed
  then have "MFSAlloc_sew b [k ..< ?n] h h (m\<lparr>next_of := nx\<rparr>) = Some (h', m\<lparr>next_of := nx'\<rparr>)"
    unfolding upt_conv_Cons [OF k] .
  then show ?case using r(2,3) x by fastforce
qed

lemma extents_ok_Cons:
  "extents_ok ext (b # es) \<longleftrightarrow> extent_ok ext b \<and> (\<forall>e \<in> set es. apart ext b e) \<and> extents_ok ext es"
  by (auto simp: extents_ok_def)

lemma apart_sym: "apart sz a b \<longleftrightarrow> apart sz b a"
  by (auto simp: apart_def)

lemma extents_ok_move: "extents_ok ext (es @ b # bs) \<longleftrightarrow> extents_ok ext ((b # es) @ bs)"
  unfolding extents_ok_def by (auto simp: sorted_wrt_append apart_sym)

lemma granted_simps [simp]: "granted [] = []" "granted (Inl r # rs) = granted rs" "granted (Inr b # rs) = b # granted rs"
  by (simp_all add: granted_def)

lemma MFSAlloc_ok:
  assumes inv: "mfs_inv m es fs live" and ar: "arena_ok (extendBy m) es answers"
  shows "\<exists>res p m' answers' es' fs'. MFSAlloc m (unroundedUnitSize m) answers = Some (res, p, m', answers') \<and>
    mfs_inv m' es' fs' (if res = ResOK then insert p live else live) \<and> arena_ok (extendBy m') es' answers' \<and>
    same_sizes m m' \<and> (res = ResOK \<longrightarrow> p \<notin> live) \<and> set (es' @ granted answers') = set (es @ granted answers) \<and>
    (\<forall>x \<in> live. next_of m' x = next_of m x)"
proof -
  note i = inv [unfolded mfs_inv_def]
  have wf: "mfs_wf m" and ext: "extents_ok (extendBy m) es" using i by simp_all
  show ?thesis
  proof (cases fs)
    case (Cons f fs')
    define m' where "m' = m\<lparr>freeList := next_of m f\<rparr>"
    have sz: "same_sizes m m'" by (simp add: m'_def same_sizes_def)
    have f: "freeList m = f" "f \<noteq> 0" "chain (next_of m) (next_of m f) fs'" using i Cons by auto
    have "MFSAlloc m (unroundedUnitSize m) answers = Some (ResOK, f, m', answers)"
      using f by (simp add: MFSAlloc_def m'_def Let_def)
    moreover have "mfs_inv m' es fs' (insert f live)"
    proof -
      have "chain (tract_p m') (tractList m') es" "chain (next_of m') (freeList m') fs'" "extendBy m' = extendBy m"
        using i f by (simp_all add: m'_def)
      then show ?thesis
        unfolding mfs_inv_def using i Cons same_sizesD [OF sz] by auto
    qed
    moreover have "arena_ok (extendBy m') es answers" using ar by (simp add: m'_def)
    moreover have "f \<notin> live" using i Cons by auto
    moreover have "next_of m' = next_of m" by (simp add: m'_def)
    ultimately show ?thesis using sz
      by (intro exI [of _ ResOK] exI [of _ f] exI [of _ m'] exI [of _ answers] exI [of _ es] exI [of _ fs']) simp
  next
    case Nil
    then have f0: "freeList m = 0" using i by simp
    show ?thesis
    proof (cases "fst (ArenaAlloc answers)")
      case (Inl res)
      have "res \<noteq> ResOK" "arena_ok (extendBy m) es (snd (ArenaAlloc answers))"
        "granted (snd (ArenaAlloc answers)) = granted answers"
        using Inl ar by (auto simp: ArenaAlloc_def arena_ok_def split: list.splits)
      moreover have "MFSAlloc m (unroundedUnitSize m) answers = Some (res, 0, m, snd (ArenaAlloc answers))"
        using f0 Inl by (cases "ArenaAlloc answers") (simp add: MFSAlloc_def Let_def)
      ultimately show ?thesis using inv
        by (intro exI [of _ res] exI [of _ 0] exI [of _ m] exI [of _ "snd (ArenaAlloc answers)"] exI [of _ es] exI [of _ fs]) simp
    next
      case (Inr b)
      then obtain rest where ans: "answers = Inr b # rest" by (auto simp: ArenaAlloc_def split: list.splits)
      let ?n = "unat (unitsPerExtent m)"
      have ext': "extents_ok (extendBy m) ((b # es) @ granted rest)" and res: "Inl ResOK \<notin> set rest"
        using ar by (simp_all add: arena_ok_def ans extents_ok_move)
      then have ob: "extent_ok (extendBy m) b" and extb: "extents_ok (extendBy m) (b # es)"
        by (auto simp: extents_ok_def sorted_wrt_append)
      define m1 where "m1 = m\<lparr>tract_p := (tract_p m)(b := tractList m), tractList := b\<rparr>"
      have sz1: "same_sizes m m1" by (simp add: m1_def same_sizes_def)
      have e1: "extendBy m1 = extendBy m" "unitsPerExtent m1 = unitsPerExtent m" using sz1 by (simp_all add: same_sizes_def)
      obtain h nx' where sew: "MFSAlloc_sew b [0 ..< ?n] 0 0 m1 = Some (h, m1\<lparr>next_of := nx'\<rparr>)"
        "chain nx' h (map (unit_addr m b) [0 ..< ?n])" "\<forall>x. x \<notin> units_of m b \<longrightarrow> nx' x = next_of m x"
      proof -
        have wf1: "mfs_wf m1" and ob1: "extent_ok (extendBy m1) b" and nx1: "next_of m1 = next_of m"
          using wf ob e1 same_sizesD(1) [OF sz1] by (simp_all add: m1_def)
        have "m1\<lparr>next_of := next_of m\<rparr> = m1" by (simp add: m1_def)
        then show thesis
          using that MFSAlloc_sew_ok [OF wf1 ob1, of 0 "next_of m" 0] same_sizesD(2,3) [OF sz1] e1(2)
          by (simp cong: map_cong) blast
      qed
      have n0: "?n > 0" using wf by (simp add: mfs_wf_def word_less_nat_alt)
      define fs' where "fs' = map (unit_addr m b) [1 ..< ?n]"
      have units: "map (unit_addr m b) [0 ..< ?n] = h # fs'" "h \<noteq> 0" "chain nx' (nx' h) fs'"
      proof -
        have e: "map (unit_addr m b) [0 ..< ?n] = unit_addr m b 0 # fs'"
          unfolding fs'_def using n0 by (simp add: upt_conv_Cons)
        then show "map (unit_addr m b) [0 ..< ?n] = h # fs'" "h \<noteq> 0" "chain nx' (nx' h) fs'" using sew(2) by auto
      qed
      define m' where "m' = m1\<lparr>next_of := nx', freeList := nx' h\<rparr>"
      have sz: "same_sizes m m'" by (simp add: m'_def m1_def same_sizes_def)
      have run: "MFSAlloc m (unroundedUnitSize m) answers = Some (ResOK, h, m', rest)"
        using f0 sew(1) units(2)
        by (simp add: MFSAlloc_def ans ArenaAlloc_def Let_def m'_def m1_def)
      have dist: "distinct (h # fs')" unfolding units(1) [symmetric]
        using unit_addr_inj [OF wf ob] by (auto simp: distinct_map inj_on_def)
      have sub: "set (h # fs') = units_of m b" unfolding units(1) [symmetric] by (auto simp: units_of_def)
      have new: "units_of m b \<inter> live = {}"
      proof -
        have "x \<notin> units_of m b" if x: "x \<in> live" for x
        proof
          assume xb: "x \<in> units_of m b"
          obtain c where c: "c \<in> set es" "x \<in> units_of m c" using i x by blast
          have oc: "extent_ok (extendBy m) c" using ext c(1) by (simp add: extents_ok_def)
          have "apart (extendBy m) b c" using extb c(1) by (simp add: extents_ok_Cons)
          moreover have "unat (unitSize m) > 0" using wf by (simp add: mfs_wf_def word_less_nat_alt)
          ultimately show False
            using unit_addr_props(3,4) [OF wf ob xb] unit_addr_props(3,4) [OF wf oc c(2)] by (auto simp: apart_def)
        qed
        then show ?thesis by blast
      qed
      have bes: "b \<notin> set es"
      proof
        assume "b \<in> set es"
        then have "apart (extendBy m) b b" using extb by (simp add: extents_ok_Cons)
        moreover have "unat (extendBy m) > 0"
          using wf unit_fits [OF wf n0] by (simp add: mfs_wf_def word_less_nat_alt)
        ultimately show False by (simp add: apart_def)
      qed
      have "mfs_inv m' (b # es) fs' (insert h live)"
      proof -
        have "b \<noteq> 0" using ob by (simp add: extent_ok_def)
        then have "chain (tract_p m') (tractList m') (b # es)"
          using i chain_upd [OF bes] by (simp add: m'_def m1_def)
        moreover have "chain (next_of m') (freeList m') fs'" "extendBy m' = extendBy m" using units(3) by (simp_all add: m'_def m1_def)
        moreover have "\<forall>x \<in> set fs' \<union> insert h live. \<exists>c \<in> set (b # es). x \<in> units_of m c" using i sub by auto
        moreover have "set fs' \<inter> insert h live = {}" "distinct fs'" using dist sub new by auto
        ultimately show ?thesis unfolding mfs_inv_def using wf extb same_sizesD [OF sz] by simp
      qed
      moreover have "arena_ok (extendBy m') (b # es) rest" using ext' res sz by (simp add: arena_ok_def same_sizes_def)
      moreover have "h \<notin> live" using sub new by auto
      moreover have "\<forall>x \<in> live. next_of m' x = next_of m x" using sew(3) new by (auto simp: m'_def)
      ultimately show ?thesis using run sz
        by (intro exI [of _ ResOK] exI [of _ h] exI [of _ m'] exI [of _ rest] exI [of _ "b # es"] exI [of _ fs']) (simp add: ans)
    qed
  qed
qed

lemma MFSFree_ok:
  assumes inv: "mfs_inv m es fs live" and x: "x \<in> live"
  shows "\<exists>m'. MFSFree m x (unroundedUnitSize m) = Some m' \<and> mfs_inv m' es (x # fs) (live - {x}) \<and> same_sizes m m'"
proof -
  note i = inv [unfolded mfs_inv_def]
  obtain b where b: "b \<in> set es" "x \<in> units_of m b" using i x by blast
  have x0: "x \<noteq> 0" using unit_addr_props(1) [of m b x] i b by (auto simp: extents_ok_def)
  define m' where "m' = m\<lparr>next_of := (next_of m)(x := freeList m), freeList := x\<rparr>"
  have sz: "same_sizes m m'" by (simp add: m'_def same_sizes_def)
  have xf: "x \<notin> set fs" using i x by blast
  have "chain (next_of m') (freeList m') (x # fs)" "chain (tract_p m') (tractList m') es" "extendBy m' = extendBy m"
    using i x0 chain_upd [OF xf] by (simp_all add: m'_def)
  then have "mfs_inv m' es (x # fs) (live - {x})"
    unfolding mfs_inv_def using i xf x same_sizesD [OF sz] by auto
  moreover have "MFSFree m x (unroundedUnitSize m) = Some m'" using x0 by (simp add: MFSFree_def m'_def)
  ultimately show ?thesis using sz by blast
qed

lemma MFSInit_ok:
  assumes "UNIT_MIN \<le> size0" and "size0 \<le> ext0" and "AlignCheck arenaAlign" and "MPS_PF_ALIGN \<le> arenaAlign"
    and "unat ext0 + unat arenaAlign \<le> 2 ^ 32" and "unat size0 + 4 \<le> 2 ^ 32"
  shows "\<exists>m'. MFSInit arenaAlign ext0 size0 m = Some m' \<and> mfs_inv m' [] [] {} \<and> MFSCheck arenaAlign m' \<and>
    unroundedUnitSize m' = size0 \<and> size0 \<le> unitSize m' \<and> ext0 \<le> extendBy m'"
proof -
  let ?u = "WordAlignUp size0 MPS_PF_ALIGN" and ?x = "WordAlignUp ext0 arenaAlign"
  define m' where "m' = m\<lparr>unroundedUnitSize := size0, extendBy := ?x, unitSize := ?u, unitsPerExtent := ?x div ?u,
    freeList := 0, tractList := 0\<rparr>"
  have a4: "AlignCheck MPS_PF_ALIGN" "unat MPS_PF_ALIGN = 4" by (auto simp: AlignCheck_iff MPS_PF_ALIGN_def intro: exI [of _ 2])
  have u: "unat ?u = (unat size0 + 3) div 4 * 4" using unat_WordAlignUp [OF a4(1), of size0] assms(6) a4(2) by simp
  have x: "unat ?x = (unat ext0 + unat arenaAlign - 1) div unat arenaAlign * unat arenaAlign"
    by (rule unat_WordAlignUp [OF assms(3,5)])
  obtain k where k: "k < 32" "unat arenaAlign = 2 ^ k" using AlignCheckE [OF assms(3)] by metis
  have "4 \<le> unat arenaAlign" using assms(4) a4(2) by (simp add: word_le_nat_alt)
  then have "(2::nat) ^ 2 \<le> 2 ^ k" using k(2) by simp
  then have "2 \<le> k" by (rule power_le_imp_le_exp [rotated]) simp
  then have d4: "4 dvd unat arenaAlign" using le_imp_power_dvd [of 2 k "2::nat"] k(2) by simp
  have ap: "unat arenaAlign > 0" using k(2) by simp
  have s4: "4 \<le> unat size0" using assms(1) by (simp add: UNIT_MIN_def word_le_nat_alt)
  have le: "unat size0 \<le> unat ext0" using assms(2) by (simp add: word_le_nat_alt)
  have xge: "unat ext0 \<le> unat ?x"
  proof -
    have "unat ext0 + unat arenaAlign - 1 - (unat ext0 + unat arenaAlign - 1) mod unat arenaAlign = unat ?x"
      unfolding x by (rule minus_mod_eq_div_mult)
    moreover have "(unat ext0 + unat arenaAlign - 1) mod unat arenaAlign < unat arenaAlign" using ap by simp
    ultimately show ?thesis using ap by linarith
  qed
  have uge: "unat size0 \<le> unat ?u" using u by linarith
  have ule: "unat ?u \<le> unat ?x"
  proof -
    have "4 dvd unat ?x" unfolding x using d4 by simp
    then obtain q where q: "unat ?x = 4 * q" by (elim dvdE)
    have "(unat size0 + 3) div 4 \<le> q" using xge le q by linarith
    then show ?thesis using u q by simp
  qed
  have u0: "0 < ?u" using uge s4 unfolding word_less_nat_alt by simp
  have n: "unat (?x div ?u) = unat ?x div unat ?u" by (rule unat_div_distrib)
  have n0: "0 < ?x div ?u" using n ule u0 by (simp add: word_less_nat_alt div_greater_zero_iff)
  have "unat ?u * unat (?x div ?u) \<le> unat ?x" unfolding n by simp
  then have wf: "mfs_wf m'"
    using u0 n0 u unfolding mfs_wf_def align4 by (simp add: m'_def)
  have "mfs_inv m' [] [] {}" unfolding mfs_inv_def using wf by (simp add: m'_def extents_ok_def)
  moreover have "MFSCheck arenaAlign m'"
    using assms(1) xge le s4 unat_WordAlignUp [OF assms(3,5)] WordIsAligned_iff [OF assms(3)]
    by (simp add: MFSCheck_def m'_def UNIT_MIN_def word_le_nat_alt)
  moreover have "MFSInit arenaAlign ext0 size0 m = Some m'" using assms(1,2) by (simp add: MFSInit_def m'_def Let_def)
  ultimately show ?thesis using uge xge by (auto simp: m'_def word_le_nat_alt)
qed

lemma MFSFinish_ok: "chain (tract_p m) p es \<Longrightarrow> MFSFinish_loop m p = Some (map (\<lambda>b. (b, extendBy m)) es)"
  by (induction es arbitrary: p) (simp_all add: MFSFinish_loop.simps)

subsection \<open>The contract of an allocator of units\<close>

locale unit_allocator =
  fixes inv :: "'s \<Rightarrow> mword set \<Rightarrow> bool" and alloc :: "'s \<Rightarrow> (Res \<times> mword \<times> 's) option"
    and dealloc :: "'s \<Rightarrow> mword \<Rightarrow> 's option"
  assumes alloc_law: "inv s live \<Longrightarrow> \<exists>res p s'. alloc s = Some (res, p, s') \<and>
      inv s' (if res = ResOK then insert p live else live) \<and> (res = ResOK \<longrightarrow> p \<notin> live)"
    and dealloc_law: "inv s live \<Longrightarrow> p \<in> live \<Longrightarrow> \<exists>s'. dealloc s p = Some s' \<and> inv s' (live - {p})"
    and unit_law: "inv s live \<Longrightarrow> p \<in> live \<Longrightarrow> p \<noteq> 0 \<and> WordIsAligned p MPS_PF_ALIGN"
begin

lemma fresh_unit:
  assumes "inv s live" and "alloc s = Some (ResOK, p, s')"
  shows "inv s' (insert p live)" and "p \<notin> live" and "p \<noteq> 0" and "unat p \<noteq> 1"
proof -
  show i: "inv s' (insert p live)" and "p \<notin> live" using alloc_law [OF assms(1)] assms(2) by auto
  show "p \<noteq> 0" using unit_law [OF i] by simp
  have "4 dvd unat p" using unit_law [OF i, of p] by (simp add: align4)
  then show "unat p \<noteq> 1" by auto
qed

lemma no_unit: "inv s live \<Longrightarrow> alloc s = Some (res, p, s') \<Longrightarrow> res \<noteq> ResOK \<Longrightarrow> inv s' live"
  using alloc_law [of s live] by auto

lemma alloc_dealloc:
  assumes "inv s live" and "alloc s = Some (ResOK, p, s1)"
  shows "\<exists>s2. dealloc s1 p = Some s2 \<and> inv s2 live"
  using dealloc_law [OF fresh_unit(1) [OF assms], of p] fresh_unit(2) [OF assms] by simp

end

text \<open>A pool and the answers its arena has left.\<close>

definition pool_inv :: "MFSStruct \<times> arena_answers \<Rightarrow> mword set \<Rightarrow> bool" where
  "pool_inv p live \<longleftrightarrow> (\<exists>es fs. mfs_inv (fst p) es fs live \<and> arena_ok (extendBy (fst p)) es (snd p))"

definition pool_alloc :: "MFSStruct \<times> arena_answers \<Rightarrow> (Res \<times> mword \<times> MFSStruct \<times> arena_answers) option" where
  "pool_alloc p = MFSAlloc (fst p) (unroundedUnitSize (fst p)) (snd p)"

definition pool_free :: "MFSStruct \<times> arena_answers \<Rightarrow> mword \<Rightarrow> (MFSStruct \<times> arena_answers) option" where
  "pool_free p x = map_option (\<lambda>m. (m, snd p)) (MFSFree (fst p) x (unroundedUnitSize (fst p)))"

interpretation mfs: unit_allocator pool_inv pool_alloc pool_free
proof
  fix p live
  assume "pool_inv p live"
  then obtain es fs where "mfs_inv (fst p) es fs live" "arena_ok (extendBy (fst p)) es (snd p)" by (auto simp: pool_inv_def)
  from MFSAlloc_ok [OF this]
  show "\<exists>res q p'. pool_alloc p = Some (res, q, p') \<and> pool_inv p' (if res = ResOK then insert q live else live) \<and> (res = ResOK \<longrightarrow> q \<notin> live)"
    unfolding pool_alloc_def pool_inv_def by fastforce
next
  fix p live and x :: mword
  assume "pool_inv p live" and x: "x \<in> live"
  then obtain es fs where i: "mfs_inv (fst p) es fs live" "arena_ok (extendBy (fst p)) es (snd p)" by (auto simp: pool_inv_def)
  from MFSFree_ok [OF i(1) x] i(2)
  show "\<exists>p'. pool_free p x = Some p' \<and> pool_inv p' (live - {x})"
    unfolding pool_free_def pool_inv_def by (fastforce simp: same_sizes_def)
next
  fix p live and x :: mword
  assume "pool_inv p live" and "x \<in> live"
  then show "x \<noteq> 0 \<and> WordIsAligned x MPS_PF_ALIGN"
    unfolding pool_inv_def mfs_inv_def extents_ok_def by (meson UnCI unit_addr_props(1,2))
qed

subsection \<open>A pool serving requests\<close>

datatype request = Alloc | Free mword

text \<open>Clients free only the units they hold; \<open>live\<close> is the set of units in their hands.\<close>

fun MFSServe :: "request list \<Rightarrow> MFSStruct \<Rightarrow> arena_answers \<Rightarrow> mword set \<Rightarrow> (MFSStruct \<times> arena_answers \<times> mword set) option" where
  "MFSServe [] m answers live = Some (m, answers, live)"
| "MFSServe (Alloc # rs) m answers live = do {
     (res, p, m, answers) \<leftarrow> MFSAlloc m (unroundedUnitSize m) answers;
     MFSServe rs m answers (if res = ResOK then insert p live else live)
   }"
| "MFSServe (Free x # rs) m answers live =
     (if x \<in> live then do { m \<leftarrow> MFSFree m x (unroundedUnitSize m); MFSServe rs m answers (live - {x}) }
      else MFSServe rs m answers live)"

lemma MFSServe_ok:
  "mfs_inv m es fs live \<Longrightarrow> arena_ok (extendBy m) es answers \<Longrightarrow>
    \<exists>m' answers' live' es' fs'. MFSServe rs m answers live = Some (m', answers', live') \<and> mfs_inv m' es' fs' live' \<and>
      same_sizes m m' \<and> set es' \<subseteq> set (es @ granted answers)"
proof (induction rs m answers live arbitrary: es fs rule: MFSServe.induct)
  case (1 m answers live)
  then show ?case by (fastforce)
next
  case (2 rs m answers live)
  obtain res p m1 ans1 es1 fs1 where a: "MFSAlloc m (unroundedUnitSize m) answers = Some (res, p, m1, ans1)"
    "mfs_inv m1 es1 fs1 (if res = ResOK then insert p live else live)" "arena_ok (extendBy m1) es1 ans1" "same_sizes m m1"
    "set (es1 @ granted ans1) = set (es @ granted answers)"
    using MFSAlloc_ok [OF 2(2,3)] by blast
  show ?case using 2(1) [OF a(1) refl refl refl a(2,3)] a(1,4,5) same_sizes_trans by fastforce
next
  case (3 x rs m answers live)
  show ?case
  proof (cases "x \<in> live")
    case True
    obtain m1 where f: "MFSFree m x (unroundedUnitSize m) = Some m1" "mfs_inv m1 es (x # fs) (live - {x})" "same_sizes m m1"
      using MFSFree_ok [OF 3(3) True] by blast
    have "arena_ok (extendBy m1) es answers" using 3(4) f(3) by (simp add: same_sizes_def)
    then show ?thesis using 3(1) [OF True f(1,2)] f(1,3) True same_sizes_trans by fastforce
  next
    case False
    then show ?thesis using 3(2) [OF False 3(3,4)] by simp
  qed
qed

text \<open>
  C28: A pool of fixed small units, from its initialisation through any sequence of allocations and frees
  and to its end: no assertion fails; the units that the clients hold are aligned, lie inside extents
  the arena granted and are pairwise disjoint, each as large as was asked; and finishing the pool gives
  back to the arena exactly extents it granted.
\<close>

theorem MFS_units_disjoint:
  assumes "UNIT_MIN \<le> size0" and "size0 \<le> ext0" and "AlignCheck arenaAlign" and "MPS_PF_ALIGN \<le> arenaAlign"
    and "unat ext0 + unat arenaAlign \<le> 2 ^ 32" and "unat size0 + 4 \<le> 2 ^ 32"
    and "arena_ok (WordAlignUp ext0 arenaAlign) [] answers"
  shows "\<exists>m1 m answers' live es. MFSInit arenaAlign ext0 size0 m0 = Some m1 \<and>
    MFSServe requests m1 answers {} = Some (m, answers', live) \<and>
    (\<forall>x \<in> live. WordIsAligned x MPS_PF_ALIGN \<and> (\<forall>y \<in> live. x \<noteq> y \<longrightarrow> apart size0 x y) \<and>
      (\<exists>b \<in> set es. unat b \<le> unat x \<and> unat x + unat size0 \<le> unat b + unat (WordAlignUp ext0 arenaAlign))) \<and>
    MFSFinish m = Some (map (\<lambda>b. (b, WordAlignUp ext0 arenaAlign)) es) \<and> set es \<subseteq> set (granted answers)"
proof -
  obtain m1 where m1: "MFSInit arenaAlign ext0 size0 m0 = Some m1" "mfs_inv m1 [] [] {}" "unroundedUnitSize m1 = size0"
    "size0 \<le> unitSize m1"
    using MFSInit_ok [OF assms(1-6), of m0] by blast
  have x: "extendBy m1 = WordAlignUp ext0 arenaAlign"
    using m1(1) by (auto simp: MFSInit_def Let_def run_iff)
  have "arena_ok (extendBy m1) [] answers" using assms(7) x by simp
  from MFSServe_ok [OF m1(2) this, of requests] obtain m answers' live es fs where
    r: "MFSServe requests m1 answers {} = Some (m, answers', live)" "mfs_inv m es fs live" "same_sizes m1 m"
      "set es \<subseteq> set (granted answers)" by auto
  note i = r(2) [unfolded mfs_inv_def]
  have sz: "extendBy m = WordAlignUp ext0 arenaAlign" "unat size0 \<le> unat (unitSize m)"
    using r(3) x m1(4) by (simp_all add: same_sizes_def word_le_nat_alt)
  have unit: "\<exists>b \<in> set es. x \<in> units_of m b \<and> extent_ok (extendBy m) b" if "x \<in> live" for x
    using i that by (auto simp: extents_ok_def)
  have "WordIsAligned x MPS_PF_ALIGN \<and> (\<forall>y \<in> live. x \<noteq> y \<longrightarrow> apart size0 x y) \<and>
      (\<exists>b \<in> set es. unat b \<le> unat x \<and> unat x + unat size0 \<le> unat b + unat (WordAlignUp ext0 arenaAlign))"
    if x: "x \<in> live" for x
  proof -
    obtain b where b: "b \<in> set es" "x \<in> units_of m b" "extent_ok (extendBy m) b" using unit [OF x] by blast
    have "apart size0 x y" if y: "y \<in> live" "x \<noteq> y" for y
    proof -
      obtain c where c: "c \<in> set es" "y \<in> units_of m c" using unit [OF y(1)] by blast
      have "apart (unitSize m) x y" using units_apart [OF _ _ b(1,2) c y(2)] i by blast
      then show ?thesis using sz(2) unfolding apart_def by linarith
    qed
    moreover have "unat b \<le> unat x" "unat x + unat size0 \<le> unat b + unat (WordAlignUp ext0 arenaAlign)" "WordIsAligned x MPS_PF_ALIGN"
      using unit_addr_props [OF _ b(3,2)] i sz by auto
    ultimately show ?thesis using b(1) by blast
  qed
  moreover have "MFSFinish m = Some (map (\<lambda>b. (b, WordAlignUp ext0 arenaAlign)) es)"
    using MFSFinish_ok [of m "tractList m" es] i sz(1) by (simp add: MFSFinish_def)
  ultimately show ?thesis using m1(1) r(1,4) by blast
qed

definition blank_mfs :: MFSStruct where
  "blank_mfs = \<lparr>unroundedUnitSize = 0, extendBy = 0, unitSize = 0, unitsPerExtent = 0, freeList = 0, tractList = 0,
     next_of = (\<lambda>x. 0), tract_p = (\<lambda>x. 0)\<rparr>"

theorem MFS_units_disjoint_witness:
  "\<exists>m1 m answers' live. MFSInit 16 70 18 blank_mfs = Some m1 \<and>
    MFSServe [Alloc, Alloc, Free 4096, Alloc, Alloc] m1 [Inr 4096, Inl ResMEMORY, Inr 8192] {} = Some (m, answers', live) \<and>
    (\<forall>x \<in> live. \<forall>y \<in> live. x \<noteq> y \<longrightarrow> apart 18 x y)"
proof -
  have "arena_ok (WordAlignUp 70 16) [] [Inr 4096, Inl ResMEMORY, Inr 8192]"
    by (simp add: arena_ok_def extents_ok_def extent_ok_def WordAlignUp_def WordIsAligned_def MPS_PF_ALIGN_def apart_def)
  moreover have "AlignCheck 16" by (simp add: AlignCheck_def)
  ultimately show ?thesis
    using MFS_units_disjoint [of 18 70 16 "[Inr 4096, Inl ResMEMORY, Inr 8192]" blank_mfs "[Alloc, Alloc, Free 4096, Alloc, Alloc]"]
    by (simp add: UNIT_MIN_def MPS_PF_ALIGN_def) blast
qed

end
