(* ===== verification/Sac.thy ===== *)
theory Sac
  imports Pool_Mfs
begin

text \<open>
  Segregated allocation caches (\<^verbatim>\<open>sac.c\<close>, \<^verbatim>\<open>sac.h\<close>) with the allocation macros of \<^verbatim>\<open>mps.h\<close>: lists of free blocks of a few
  sizes in front of a pool, searched from the middle size up or down. The free blocks are threaded through their
  own first words. The pool is an argument, the methods of its class and its memory; its contract is a
  locale, and the pool of fixed small units is a model of it. The caller's check that an address belongs to the
  pool needs the tracts of the arena and is one of the methods.
\<close>

subsection \<open>Data\<close>

record 's pool_methods =
  alloc_method :: "'s \<Rightarrow> mword \<Rightarrow> bool \<Rightarrow> (Res \<times> mword \<times> 's) option"
  free_method :: "'s \<Rightarrow> mword \<Rightarrow> mword \<Rightarrow> 's option"
  PoolHasAddr :: "'s \<Rightarrow> mword \<Rightarrow> bool"
  PoolAlignment :: mword
  peek :: "'s \<Rightarrow> mword \<Rightarrow> mword"
  poke :: "'s \<Rightarrow> mword \<Rightarrow> mword \<Rightarrow> 's"

definition PoolAlloc :: "'s pool_methods \<Rightarrow> 's \<Rightarrow> mword \<Rightarrow> bool \<Rightarrow> (Res \<times> mword \<times> 's) option" where
  "PoolAlloc pool s size_wanted permit = do {
     aver (size_wanted > 0);
     (res, p, s) \<leftarrow> alloc_method pool s size_wanted permit;
     if res \<noteq> ResOK then Some (res, p, s)
     else do { aver (PoolHasAddr pool s p); Some (ResOK, p, s) }
   }"

definition PoolFree :: "'s pool_methods \<Rightarrow> 's \<Rightarrow> mword \<Rightarrow> mword \<Rightarrow> 's option" where
  "PoolFree pool s old size_given = do {
     aver (old \<noteq> 0);
     aver (size_given > 0);
     free_method pool s old size_given
   }"

record SACFreeListBlockStruct =
  fl_size :: mword
  fl_count :: nat
  fl_countMax :: nat
  fl_blocks :: mword

record SACStruct =
  classesCount :: nat
  middleIndex :: nat
  middle :: mword
  trapped :: bool
  freelists :: "SACFreeListBlockStruct list"

record SACClassesStruct =
  blockSize :: mword
  cachedCount :: nat
  frequency :: mword

definition SizeMAX :: mword where "SizeMAX = - 1"

subsection \<open>Checks\<close>

fun sacFreeListBlockCheck_loop :: "('s \<Rightarrow> mword \<Rightarrow> mword) \<Rightarrow> 's \<Rightarrow> nat \<Rightarrow> mword \<Rightarrow> bool" where
  "sacFreeListBlockCheck_loop pk s 0 cb \<longleftrightarrow> cb = 0"
| "sacFreeListBlockCheck_loop pk s (Suc j) cb \<longleftrightarrow> cb \<noteq> 0 \<and> sacFreeListBlockCheck_loop pk s j (pk s cb)"

definition sacFreeListBlockCheck :: "'s pool_methods \<Rightarrow> 's \<Rightarrow> SACFreeListBlockStruct \<Rightarrow> bool" where
  "sacFreeListBlockCheck pool s fb \<longleftrightarrow> fl_count fb \<le> fl_countMax fb \<and>
     sacFreeListBlockCheck_loop (peek pool) s (fl_count fb) (fl_blocks fb)"

text \<open>The loops over the classes above the middle, which returns the last index plus two, and below it.\<close>

function SACCheck_above :: "'s pool_methods \<Rightarrow> 's \<Rightarrow> SACStruct \<Rightarrow> nat \<Rightarrow> nat \<Rightarrow> mword \<Rightarrow> nat option" where
  "SACCheck_above pool s sac j i prevSize =
     (if j \<le> classesCount sac
      then (if i < length (freelists sac) \<and> prevSize < fl_size (freelists sac ! i) \<and>
              sacFreeListBlockCheck pool s (freelists sac ! i)
            then SACCheck_above pool s sac (j + 1) (i + 2) (fl_size (freelists sac ! i)) else None)
      else Some i)"
  by pat_completeness auto
termination
  by (relation "measure (\<lambda>(_, _, sac, j, _). classesCount sac + 1 - j)") auto

declare SACCheck_above.simps [simp del]

fun SACCheck_below :: "'s pool_methods \<Rightarrow> 's \<Rightarrow> SACStruct \<Rightarrow> nat \<Rightarrow> nat \<Rightarrow> mword \<Rightarrow> nat option" where
  "SACCheck_below pool s sac 0 i prevSize = Some i"
| "SACCheck_below pool s sac (Suc j) i prevSize =
     (if i < length (freelists sac) \<and> prevSize > fl_size (freelists sac ! i) \<and>
        sacFreeListBlockCheck pool s (freelists sac ! i)
      then SACCheck_below pool s sac j (i + 2) (fl_size (freelists sac ! i)) else None)"

definition SACCheck :: "'s pool_methods \<Rightarrow> 's \<Rightarrow> SACStruct \<Rightarrow> unit option" where
  "SACCheck pool s sac = do {
     aver (classesCount sac > 0);
     aver (classesCount sac > middleIndex sac);
     aver (middle sac > 0);
     i \<leftarrow> SACCheck_above pool s sac (middleIndex sac + 1) 0 (middle sac);
     overlarge \<leftarrow> rd (freelists sac) (i - 2);
     aver (fl_size overlarge = SizeMAX);
     aver (fl_count overlarge = 0);
     aver (fl_countMax overlarge = 0);
     aver (fl_blocks overlarge = 0);
     i \<leftarrow> SACCheck_below pool s sac (middleIndex sac) 1 (middle sac);
     smallest \<leftarrow> rd (freelists sac) i;
     aver (fl_size smallest = 0);
     aver (sacFreeListBlockCheck pool s smallest)
   }"

subsection \<open>Creation\<close>

text \<open>The highest index of the array, and the size of the structure with an array of that size.\<close>

definition sac_indexMax :: "nat \<Rightarrow> nat \<Rightarrow> nat" where
  "sac_indexMax m n = (if m + 1 < n - m then 2 * (n - m - 1) else 1 + 2 * m)"

definition sac_header_size :: nat where "sac_header_size = 24"

definition sac_block_size :: nat where "sac_block_size = 16"

definition sacSize :: "nat \<Rightarrow> nat \<Rightarrow> nat" where
  "sacSize m n = sac_header_size + sac_block_size * (sac_indexMax m n + 1)"

fun SACCreate_check :: "mword \<Rightarrow> mword \<Rightarrow> SACClassesStruct list \<Rightarrow> unit option" where
  "SACCreate_check al prevSize [] = Some ()"
| "SACCreate_check al prevSize (c # cs) = do {
     aver (blockSize c > 0);
     aver (WordIsAligned (blockSize c) al);
     aver (prevSize < blockSize c);
     SACCreate_check al (blockSize c) cs
   }"

fun SACCreate_total :: "mword \<Rightarrow> SACClassesStruct list \<Rightarrow> mword option" where
  "SACCreate_total totalFreq [] = Some totalFreq"
| "SACCreate_total totalFreq (c # cs) = do {
     let oldFreq = totalFreq;
     let totalFreq = totalFreq + frequency c;
     aver (oldFreq \<le> totalFreq);
     SACCreate_total totalFreq cs
   }"

fun SACCreate_find :: "nat \<Rightarrow> mword \<Rightarrow> SACClassesStruct list \<Rightarrow> nat \<times> mword" where
  "SACCreate_find i totalFreq [] = (i, totalFreq)"
| "SACCreate_find i totalFreq (c # cs) =
     (if totalFreq < frequency c then (i, totalFreq) else SACCreate_find (i + 1) (totalFreq - frequency c) cs)"

text \<open>The classes above the middle, from \<open>j\<close> on.\<close>

fun SACCreate_above :: "SACClassesStruct list \<Rightarrow> nat \<Rightarrow> SACFreeListBlockStruct list \<Rightarrow> (nat \<times> SACFreeListBlockStruct list) option" where
  "SACCreate_above [] i fls = Some (i, fls)"
| "SACCreate_above (c # cs) i fls = do {
     fls \<leftarrow> wr fls i \<lparr>fl_size = blockSize c, fl_count = 0, fl_countMax = cachedCount c, fl_blocks = 0\<rparr>;
     SACCreate_above cs (i + 2) fls
   }"

fun SACCreate_below :: "SACClassesStruct list \<Rightarrow> nat \<Rightarrow> nat \<Rightarrow> SACFreeListBlockStruct list \<Rightarrow> (nat \<times> SACFreeListBlockStruct list) option" where
  "SACCreate_below classes 0 i fls = Some (i, fls)"
| "SACCreate_below classes (Suc j) i fls = do {
     lower \<leftarrow> rd classes j;
     c \<leftarrow> rd classes (Suc j);
     fls \<leftarrow> wr fls i \<lparr>fl_size = blockSize lower, fl_count = 0, fl_countMax = cachedCount c, fl_blocks = 0\<rparr>;
     SACCreate_below classes j (i + 2) fls
   }"

text \<open>
  The answer of the control pool and what its memory holds before it is written are arguments. A class beyond
  the last one is read only by undefined behaviour.
\<close>

definition SACCreate ::
  "'s pool_methods \<Rightarrow> 's \<Rightarrow> SACClassesStruct list \<Rightarrow> Res \<Rightarrow> SACFreeListBlockStruct \<Rightarrow> (Res + SACStruct) option" where
  "SACCreate pool s classes answer junk = do {
     let n = length classes;
     aver (n > 0);
     SACCreate_check (PoolAlignment pool) (4 - 1) classes;
     totalFreq \<leftarrow> SACCreate_total 0 classes;
     let (i, totalFreq) = SACCreate_find 0 (totalFreq div 2) classes;
     c \<leftarrow> rd classes i;
     let m = (if totalFreq \<le> frequency c div 2 then i else i + 1);
     if answer \<noteq> ResOK then Some (Inl answer)
     else do {
       let fls = replicate ((sacSize m n - sac_header_size) div sac_block_size) junk;
       (i, fls) \<leftarrow> SACCreate_above (drop (m + 1) classes) 0 fls;
       fls \<leftarrow> wr fls i \<lparr>fl_size = SizeMAX, fl_count = 0, fl_countMax = 0, fl_blocks = 0\<rparr>;
       (i, fls) \<leftarrow> SACCreate_below classes m 1 fls;
       c0 \<leftarrow> rd classes 0;
       fls \<leftarrow> wr fls i \<lparr>fl_size = 0, fl_count = 0, fl_countMax = cachedCount c0, fl_blocks = 0\<rparr>;
       c \<leftarrow> rd classes m;
       let sac = \<lparr>classesCount = n, middleIndex = m, middle = blockSize c, trapped = False, freelists = fls\<rparr>;
       SACCheck pool s sac;
       Some (Inr sac)
     }
   }"

subsection \<open>Finding the list for a size\<close>

function sacFind_above :: "SACStruct \<Rightarrow> mword \<Rightarrow> nat \<Rightarrow> nat \<Rightarrow> nat option" where
  "sacFind_above sac sz i j =
     (if i < length (freelists sac)
      then (if sz > fl_size (freelists sac ! i)
            then (if j < classesCount sac then sacFind_above sac sz (i + 2) (j + 1) else None)
            else Some i)
      else None)"
  by pat_completeness auto
termination
  by (relation "measure (\<lambda>(sac, _, _, j). classesCount sac - j)") auto

function sacFind_below :: "SACStruct \<Rightarrow> mword \<Rightarrow> nat \<Rightarrow> nat \<Rightarrow> mword \<Rightarrow> (nat \<times> mword) option" where
  "sacFind_below sac sz i j prevSize =
     (if i < length (freelists sac)
      then (if sz \<le> fl_size (freelists sac ! i)
            then (if j > 0 then sacFind_below sac sz (i + 2) (j - 1) (fl_size (freelists sac ! i)) else None)
            else Some (i, prevSize))
      else None)"
  by pat_completeness auto
termination
  by (relation "measure (\<lambda>(sac, _, _, j, _). j)") auto

declare sacFind_above.simps [simp del] sacFind_below.simps [simp del]

definition sacFind :: "SACStruct \<Rightarrow> mword \<Rightarrow> (nat \<times> mword) option" where
  "sacFind sac sz =
     (if sz > middle sac then do {
        aver (middleIndex sac + 1 \<le> classesCount sac);
        i \<leftarrow> sacFind_above sac sz 0 (middleIndex sac + 1);
        Some (i, fl_size (freelists sac ! i))
      }
      else sacFind_below sac sz 1 (middleIndex sac) (middle sac))"

text \<open>The loops of the macros, which have no assertions.\<close>

function mps_sac_find_above :: "SACStruct \<Rightarrow> mword \<Rightarrow> nat \<Rightarrow> nat option" where
  "mps_sac_find_above sac sz i =
     (if i < length (freelists sac)
      then (if sz > fl_size (freelists sac ! i) then mps_sac_find_above sac sz (i + 2) else Some i)
      else None)"
  by pat_completeness auto
termination
  by (relation "measure (\<lambda>(sac, _, i). length (freelists sac) - i)") auto

function mps_sac_find_below :: "SACStruct \<Rightarrow> mword \<Rightarrow> nat \<Rightarrow> nat option" where
  "mps_sac_find_below sac sz i =
     (if i < length (freelists sac)
      then (if sz \<le> fl_size (freelists sac ! i) then mps_sac_find_below sac sz (i + 2) else Some i)
      else None)"
  by pat_completeness auto
termination
  by (relation "measure (\<lambda>(sac, _, i). length (freelists sac) - i)") auto

declare mps_sac_find_above.simps [simp del] mps_sac_find_below.simps [simp del]

definition mps_sac_find :: "SACStruct \<Rightarrow> mword \<Rightarrow> nat option" where
  "mps_sac_find sac sz =
     (if sz > middle sac then mps_sac_find_above sac sz 0 else mps_sac_find_below sac sz 1)"

subsection \<open>Filling, emptying and flushing\<close>

definition with_list :: "SACStruct \<Rightarrow> nat \<Rightarrow> (SACFreeListBlockStruct \<Rightarrow> SACFreeListBlockStruct) \<Rightarrow> SACStruct" where
  "with_list sac i f = sac\<lparr>freelists := (freelists sac)[i := f (freelists sac ! i)]\<rparr>"

text \<open>The number of blocks still to be allocated and the number allocated.\<close>

fun SACFill_loop ::
  "'s pool_methods \<Rightarrow> mword \<Rightarrow> bool \<Rightarrow> nat \<Rightarrow> nat \<Rightarrow> mword \<Rightarrow> Res \<Rightarrow> 's \<Rightarrow> (Res \<times> nat \<times> mword \<times> 's) option" where
  "SACFill_loop pool bsize permit 0 j fl res s = Some (res, j, fl, s)"
| "SACFill_loop pool bsize permit (Suc k) j fl res s = do {
     (res, p, s) \<leftarrow> PoolAlloc pool s bsize permit;
     if res \<noteq> ResOK then Some (res, j, fl, s)
     else SACFill_loop pool bsize permit k (j + 1) p res (poke pool s p fl)
   }"

definition SACFill ::
  "'s pool_methods \<Rightarrow> SACStruct \<Rightarrow> 's \<Rightarrow> mword \<Rightarrow> bool \<Rightarrow> (Res \<times> mword \<times> SACStruct \<times> 's) option" where
  "SACFill pool sac s sz permit = do {
     SACCheck pool s sac;
     aver (sz \<noteq> 0);
     (i, bsize) \<leftarrow> sacFind sac sz;
     fb \<leftarrow> rd (freelists sac) i;
     aver (fl_count fb = 0);
     let blockCount = fl_countMax fb div 3;
     let bsize = (if bsize = SizeMAX then WordAlignUp sz (PoolAlignment pool) else bsize);
     (res, j, fl, s) \<leftarrow> SACFill_loop pool bsize permit (blockCount + 1) 0 (fl_blocks fb) ResOK s;
     if j = 0 then do { aver (res \<noteq> ResOK); Some (res, 0, sac, s) }
     else Some (ResOK, fl, with_list sac i (\<lambda>fb. fb\<lparr>fl_count := j - 1, fl_blocks := peek pool s fl\<rparr>), s)
   }"

fun sacClassFlush_loop :: "'s pool_methods \<Rightarrow> mword \<Rightarrow> nat \<Rightarrow> mword \<Rightarrow> 's \<Rightarrow> (mword \<times> 's) option" where
  "sacClassFlush_loop pool bsize 0 fl s = Some (fl, s)"
| "sacClassFlush_loop pool bsize (Suc k) fl s = do {
     let cb = fl;
     let fl = peek pool s cb;
     s \<leftarrow> PoolFree pool s cb bsize;
     sacClassFlush_loop pool bsize k fl s
   }"

definition sacClassFlush :: "'s pool_methods \<Rightarrow> SACStruct \<Rightarrow> 's \<Rightarrow> nat \<Rightarrow> mword \<Rightarrow> nat \<Rightarrow> (SACStruct \<times> 's) option" where
  "sacClassFlush pool sac s i bsize blockCount = do {
     fb \<leftarrow> rd (freelists sac) i;
     (fl, s) \<leftarrow> sacClassFlush_loop pool bsize blockCount (fl_blocks fb) s;
     Some (with_list sac i (\<lambda>fb. fb\<lparr>fl_count := fl_count fb - blockCount, fl_blocks := fl\<rparr>), s)
   }"

definition SACEmpty :: "'s pool_methods \<Rightarrow> SACStruct \<Rightarrow> 's \<Rightarrow> mword \<Rightarrow> mword \<Rightarrow> (SACStruct \<times> 's) option" where
  "SACEmpty pool sac s p sz = do {
     SACCheck pool s sac;
     aver (p \<noteq> 0);
     aver (PoolHasAddr pool s p);
     aver (sz > 0);
     (i, bsize) \<leftarrow> sacFind sac sz;
     fb \<leftarrow> rd (freelists sac) i;
     aver (fl_count fb = fl_countMax fb);
     let bsize = (if bsize = SizeMAX then WordAlignUp sz (PoolAlignment pool) else bsize);
     if fl_countMax fb > 0 then do {
       let blockCount = fl_count fb - fl_count fb div 3;
       (sac, s) \<leftarrow> sacClassFlush pool sac s i bsize (if blockCount > 0 then blockCount else 1);
       let s = poke pool s p (fl_blocks (freelists sac ! i));
       Some (with_list sac i (\<lambda>fb. fb\<lparr>fl_count := fl_count fb + 1, fl_blocks := p\<rparr>), s)
     }
     else do { s \<leftarrow> PoolFree pool s p bsize; Some (sac, s) }
   }"

text \<open>The loops of \<^verbatim>\<open>SACFlush\<close>: the remaining classes above the middle, and those below it.\<close>

definition SACFlush_class :: "'s pool_methods \<Rightarrow> SACStruct \<Rightarrow> 's \<Rightarrow> nat \<Rightarrow> mword \<Rightarrow> (SACStruct \<times> 's) option" where
  "SACFlush_class pool sac s i bsize = do {
     fb \<leftarrow> rd (freelists sac) i;
     (sac, s) \<leftarrow> sacClassFlush pool sac s i bsize (fl_count fb);
     aver (fl_blocks (freelists sac ! i) = 0);
     Some (sac, s)
   }"

fun SACFlush_above :: "'s pool_methods \<Rightarrow> nat \<Rightarrow> nat \<Rightarrow> SACStruct \<Rightarrow> 's \<Rightarrow> (SACStruct \<times> 's) option" where
  "SACFlush_above pool 0 i sac s = Some (sac, s)"
| "SACFlush_above pool (Suc k) i sac s = do {
     fb \<leftarrow> rd (freelists sac) i;
     (sac, s) \<leftarrow> SACFlush_class pool sac s i (fl_size fb);
     SACFlush_above pool k (i + 2) sac s
   }"

fun SACFlush_below :: "'s pool_methods \<Rightarrow> nat \<Rightarrow> nat \<Rightarrow> mword \<Rightarrow> SACStruct \<Rightarrow> 's \<Rightarrow> (nat \<times> mword \<times> SACStruct \<times> 's) option" where
  "SACFlush_below pool 0 i prevSize sac s = Some (i, prevSize, sac, s)"
| "SACFlush_below pool (Suc j) i prevSize sac s = do {
     (sac, s) \<leftarrow> SACFlush_class pool sac s i prevSize;
     fb \<leftarrow> rd (freelists sac) i;
     SACFlush_below pool j (i + 2) (fl_size fb) sac s
   }"

definition SACFlush :: "'s pool_methods \<Rightarrow> SACStruct \<Rightarrow> 's \<Rightarrow> (SACStruct \<times> 's) option" where
  "SACFlush pool sac s = do {
     SACCheck pool s sac;
     (sac, s) \<leftarrow> SACFlush_above pool (classesCount sac - (middleIndex sac + 1)) 0 sac s;
     (i, prevSize, sac, s) \<leftarrow> SACFlush_below pool (middleIndex sac) 1 (middle sac) sac s;
     SACFlush_class pool sac s i prevSize
   }"

text \<open>What remains of the pool when the cache is gone, and the size handed back to the control pool.\<close>

definition SACDestroy :: "'s pool_methods \<Rightarrow> SACStruct \<Rightarrow> 's \<Rightarrow> ('s \<times> nat) option" where
  "SACDestroy pool sac s = do {
     SACCheck pool s sac;
     (sac, s) \<leftarrow> SACFlush pool sac s;
     Some (s, sacSize (middleIndex sac) (classesCount sac))
   }"

subsection \<open>Allocating and freeing through the cache\<close>

definition MPS_SAC_ALLOC_FAST ::
  "'s pool_methods \<Rightarrow> SACStruct \<Rightarrow> 's \<Rightarrow> mword \<Rightarrow> bool \<Rightarrow> (Res \<times> mword \<times> SACStruct \<times> 's) option" where
  "MPS_SAC_ALLOC_FAST pool sac s sz permit = do {
     i \<leftarrow> mps_sac_find sac sz;
     fb \<leftarrow> rd (freelists sac) i;
     if fl_count fb \<noteq> 0
     then Some (ResOK, fl_blocks fb,
            with_list sac i (\<lambda>fb. fb\<lparr>fl_blocks := peek pool s (fl_blocks fb), fl_count := fl_count fb - 1\<rparr>), s)
     else SACFill pool sac s sz permit
   }"

definition MPS_SAC_FREE_FAST :: "'s pool_methods \<Rightarrow> SACStruct \<Rightarrow> 's \<Rightarrow> mword \<Rightarrow> mword \<Rightarrow> (SACStruct \<times> 's) option" where
  "MPS_SAC_FREE_FAST pool sac s p sz = do {
     i \<leftarrow> mps_sac_find sac sz;
     fb \<leftarrow> rd (freelists sac) i;
     if fl_count fb < fl_countMax fb
     then Some (with_list sac i (\<lambda>fb. fb\<lparr>fl_blocks := p, fl_count := fl_count fb + 1\<rparr>), poke pool s p (fl_blocks fb))
     else SACEmpty pool sac s p sz
   }"

definition mps_sac_alloc ::
  "'s pool_methods \<Rightarrow> SACStruct \<Rightarrow> 's \<Rightarrow> mword \<Rightarrow> bool \<Rightarrow> (Res \<times> mword \<times> SACStruct \<times> 's) option" where
  "mps_sac_alloc pool sac s sz permit = do {
     aver (sz > 0);
     MPS_SAC_ALLOC_FAST pool sac s sz permit
   }"

definition mps_sac_free :: "'s pool_methods \<Rightarrow> SACStruct \<Rightarrow> 's \<Rightarrow> mword \<Rightarrow> mword \<Rightarrow> (SACStruct \<times> 's) option" where
  "mps_sac_free pool sac s p sz = do {
     aver (sz > 0);
     MPS_SAC_FREE_FAST pool sac s p sz
   }"

subsection \<open>The class of a size\<close>

definition class_index :: "mword list \<Rightarrow> mword \<Rightarrow> nat" where
  "class_index bs z = length (takeWhile (\<lambda>b. b < z) bs)"

lemma class_index_le: "class_index bs z \<le> length bs"
  by (simp add: class_index_def length_takeWhile_le)

lemma class_index_le_iff:
  assumes "sorted_wrt (<) bs" and "k < length bs"
  shows "class_index bs z \<le> k \<longleftrightarrow> z \<le> bs ! k"
proof
  assume le: "class_index bs z \<le> k"
  let ?c = "class_index bs z"
  have "?c < length bs" using le assms(2) by simp
  then have "\<not> bs ! ?c < z" unfolding class_index_def by (rule nth_length_takeWhile)
  moreover have "bs ! ?c \<le> bs ! k" using le assms sorted_wrt_nth_less [OF assms(1), of ?c k] by (cases "?c = k") auto
  ultimately show "z \<le> bs ! k" by simp
next
  assume z: "z \<le> bs ! k"
  show "class_index bs z \<le> k"
  proof (rule ccontr)
    assume "\<not> ?thesis"
    then have "k < length (takeWhile (\<lambda>b. b < z) bs)" by (simp add: class_index_def)
    then have "bs ! k < z" using set_takeWhileD [OF nth_mem] takeWhile_nth by metis
    then show False using z by simp
  qed
qed

text \<open>The place of the list of a class, with the overlarge class after the last one, and the limit of its search.\<close>

definition slot :: "nat \<Rightarrow> nat \<Rightarrow> nat" where
  "slot m k = (if m < k then 2 * (k - m - 1) else 2 * (m - k) + 1)"

definition list_size :: "mword list \<Rightarrow> nat \<Rightarrow> nat \<Rightarrow> mword" where
  "list_size bs m k = (if k = length bs then SizeMAX else if m < k then bs ! k else if k = 0 then 0 else bs ! (k - 1))"

lemma slot_eq_iff: "slot m j = slot m k \<longleftrightarrow> j = k"
  unfolding slot_def by (auto split: if_splits) presburger+

text \<open>
  A cache for classes of given block sizes: the sizes in its lists, the limits of its lists, and the empty overlarge list.
\<close>

definition sac_shape :: "mword list \<Rightarrow> nat list \<Rightarrow> SACStruct \<Rightarrow> bool" where
  "sac_shape bs cm sac \<longleftrightarrow> (let m = middleIndex sac; n = length bs in
     sorted_wrt (<) bs \<and> (\<forall>b \<in> set bs. 0 < b \<and> b < SizeMAX) \<and> length cm = n \<and> classesCount sac = n \<and> m < n \<and>
     middle sac = bs ! m \<and>
     (\<forall>k \<le> n. slot m k < length (freelists sac) \<and> fl_size (freelists sac ! slot m k) = list_size bs m k) \<and>
     (\<forall>k < n. fl_countMax (freelists sac ! slot m k) = cm ! k) \<and>
     fl_count (freelists sac ! slot m n) = 0 \<and> fl_countMax (freelists sac ! slot m n) = 0 \<and> fl_blocks (freelists sac ! slot m n) = 0)"

lemma sac_shapeD:
  assumes "sac_shape bs cm sac"
  shows "sorted_wrt (<) bs" and "\<And>k. k < length bs \<Longrightarrow> 0 < bs ! k" and "\<And>k. k < length bs \<Longrightarrow> bs ! k < SizeMAX"
    and "classesCount sac = length bs" and "middleIndex sac < length bs" and "middle sac = bs ! middleIndex sac"
    and "\<And>k. k \<le> length bs \<Longrightarrow> slot (middleIndex sac) k < length (freelists sac)"
    and "\<And>k. k \<le> length bs \<Longrightarrow> fl_size (freelists sac ! slot (middleIndex sac) k) = list_size bs (middleIndex sac) k"
    and "\<And>k. k < length bs \<Longrightarrow> fl_countMax (freelists sac ! slot (middleIndex sac) k) = cm ! k"
    and "fl_count (freelists sac ! slot (middleIndex sac) (length bs)) = 0"
    and "fl_countMax (freelists sac ! slot (middleIndex sac) (length bs)) = 0"
    and "fl_blocks (freelists sac ! slot (middleIndex sac) (length bs)) = 0"
  using assms unfolding sac_shape_def Let_def by (auto dest: nth_mem)

lemma slot_up: "m < j \<Longrightarrow> slot m j + 2 = slot m (Suc j)"
  by (simp add: slot_def)

lemma slot_down: "Suc j \<le> m \<Longrightarrow> slot m (Suc j) + 2 = slot m j"
  by (simp add: slot_def)

lemma slot_0: "slot m (Suc m) = 0" "slot m m = 1"
  by (simp_all add: slot_def)

text \<open>Whether the search stops at the list of a class.\<close>

lemma list_size_above:
  assumes "sac_shape bs cm sac" and "m = middleIndex sac" and "m < j" and "j \<le> length bs" and "class_index bs z \<ge> j"
  shows "list_size bs m j < z \<longleftrightarrow> class_index bs z \<noteq> j"
proof (cases "j = length bs")
  case True
  have "\<not> SizeMAX < z" unfolding SizeMAX_def using word_order.extremum [of z] by (simp add: not_less)
  moreover have "class_index bs z = j" using assms(5) class_index_le [of bs z] True by simp
  ultimately show ?thesis using True by (simp add: list_size_def)
next
  case False
  then have "j < length bs" using assms(4) by simp
  then show ?thesis using class_index_le_iff [OF sac_shapeD(1) [OF assms(1)], of j z] assms(3,5) False
    by (auto simp: list_size_def)
qed

lemma list_size_below:
  assumes "sac_shape bs cm sac" and "m = middleIndex sac" and "j \<le> m" and "0 < z" and "class_index bs z \<le> j"
  shows "z \<le> list_size bs m j \<longleftrightarrow> class_index bs z \<noteq> j"
proof (cases j)
  case 0
  have "length bs \<noteq> 0" using sac_shapeD(5) [OF assms(1)] by auto
  moreover have "\<not> z \<le> 0" using assms(4) by simp
  ultimately show ?thesis using assms(5) 0 by (simp add: list_size_def)
next
  case (Suc i)
  have "j < length bs" using assms(2,3) sac_shapeD(5) [OF assms(1)] by simp
  then show ?thesis using class_index_le_iff [OF sac_shapeD(1) [OF assms(1)], of i z] assms(3,5) Suc
    by (auto simp: list_size_def)
qed

lemma sacFind_above_ok:
  assumes "sac_shape bs cm sac" and "m = middleIndex sac"
  shows "m < j \<Longrightarrow> j \<le> class_index bs z \<Longrightarrow> sacFind_above sac z (slot m j) j = Some (slot m (class_index bs z)) \<and>
    mps_sac_find_above sac z (slot m j) = Some (slot m (class_index bs z))"
proof (induction "class_index bs z - j" arbitrary: j)
  case 0
  then have j: "class_index bs z = j" by simp
  note l = list_size_above [OF assms 0(2) _ 0(3)] sac_shapeD(7,8) [OF assms(1)]
  show ?case using l class_index_le [of bs z] j assms(2) by (simp add: sacFind_above.simps mps_sac_find_above.simps)
next
  case (Suc d)
  have le: "Suc j \<le> class_index bs z" using Suc.hyps(2) by simp
  have IH: "sacFind_above sac z (slot m (Suc j)) (Suc j) = Some (slot m (class_index bs z)) \<and>
      mps_sac_find_above sac z (slot m (Suc j)) = Some (slot m (class_index bs z))"
    using Suc.hyps(1) [of "Suc j"] Suc.hyps(2) Suc.prems le by simp
  have j: "j < length bs" using le class_index_le [of bs z] by simp
  note l = list_size_above [OF assms Suc.prems(1) _ Suc.prems(2)] sac_shapeD(4,7,8) [OF assms(1)]
  show ?case
    using l j le assms(2) IH slot_up [OF Suc.prems(1)]
    by (subst sacFind_above.simps, subst mps_sac_find_above.simps) simp
qed

lemma sacFind_below_ok:
  assumes "sac_shape bs cm sac" and "m = middleIndex sac" and "0 < z"
  shows "j \<le> m \<Longrightarrow> class_index bs z \<le> j \<Longrightarrow>
    sacFind_below sac z (slot m j) j (bs ! j) = Some (slot m (class_index bs z), bs ! class_index bs z) \<and>
    mps_sac_find_below sac z (slot m j) = Some (slot m (class_index bs z))"
proof (induction j)
  case 0
  note l = list_size_below [OF assms(1,2) 0(1) assms(3) 0(2)] sac_shapeD(5,7,8) [OF assms(1)]
  show ?case using l 0 assms(2) by (simp add: sacFind_below.simps mps_sac_find_below.simps)
next
  case (Suc j)
  note l = list_size_below [OF assms(1,2) Suc(2) assms(3) Suc(3)] sac_shapeD(5,7,8) [OF assms(1)]
  have j: "Suc j \<le> length bs" "slot m (Suc j) + 2 = slot m j"
    using Suc(2) assms(2) l(2) slot_down [OF Suc(2)] by simp_all
  show ?case
  proof (cases "class_index bs z = Suc j")
    case True
    then show ?thesis using l j assms(2) by (simp add: sacFind_below.simps mps_sac_find_below.simps)
  next
    case False
    have "list_size bs m (Suc j) = bs ! j" using Suc(2) l(2) assms(2) by (simp add: list_size_def)
    then show ?thesis using l j assms(2) False Suc
      by (subst sacFind_below.simps, subst mps_sac_find_below.simps) simp
  qed
qed

definition find_size :: "mword list \<Rightarrow> mword \<Rightarrow> mword" where
  "find_size bs z = (if class_index bs z < length bs then bs ! class_index bs z else SizeMAX)"

lemma sacFind_ok:
  assumes "sac_shape bs cm sac" and "0 < z"
  shows "sacFind sac z = Some (slot (middleIndex sac) (class_index bs z), find_size bs z) \<and>
    mps_sac_find sac z = Some (slot (middleIndex sac) (class_index bs z))"
proof -
  let ?m = "middleIndex sac" and ?c = "class_index bs z"
  note sh = sac_shapeD [OF assms(1)]
  have "z > middle sac \<longleftrightarrow> ?m < ?c"
    using class_index_le_iff [OF sh(1,5), of z] sh(6) by auto
  moreover have "fl_size (freelists sac ! slot ?m ?c) = find_size bs z" if "?m < ?c"
    using sh(8) [OF class_index_le [of bs z]] that class_index_le [of bs z] by (auto simp: list_size_def find_size_def)
  moreover have "?m < ?c \<Longrightarrow> ?m + 1 \<le> classesCount sac" using sh(4,5) by simp
  ultimately show ?thesis
    using sacFind_above_ok [OF assms(1) refl, of "Suc ?m" z] sacFind_below_ok [OF assms(1) refl assms(2), of ?m] sh(5,6)
    by (cases "?m < ?c") (auto simp: sacFind_def mps_sac_find_def slot_0 find_size_def)
qed

end
