(* ===== verification/Sac_Correct.thy ===== *)
theory Sac_Correct
  imports Sac
begin

text \<open>
  Segregated allocation caches are correct: the contract of a pool, the invariant of a cache in front of a pool that
  keeps it, and the operations; then what creation makes of the classes, and the pool of fixed small units as a pool
  that keeps the contract.
\<close>

subsection \<open>The contract of a pool\<close>

text \<open>
  \<open>pok s live\<close> says that \<open>s\<close> is a proper state of the pool in which the blocks \<open>live\<close>, with their sizes, are allocated.
  The pool does not touch the words of allocated blocks, and a caller may write them. \<open>serves\<close> says which sizes the pool can serve.
\<close>

locale pool_contract =
  fixes pool :: "'s pool_methods" and pok :: "'s \<Rightarrow> (mword \<times> mword) set \<Rightarrow> bool" and serves :: "mword \<Rightarrow> bool"
  assumes alloc_law: "pok s live \<Longrightarrow> serves z \<Longrightarrow> \<exists>res p s'. alloc_method pool s z permit = Some (res, p, s') \<and>
      pok s' (if res = ResOK then insert (p, z) live else live) \<and> (res = ResOK \<longrightarrow> p \<notin> fst ` live) \<and>
      (\<forall>a \<in> fst ` live. peek pool s' a = peek pool s a)"
    and free_law: "pok s live \<Longrightarrow> (p, z) \<in> live \<Longrightarrow> \<exists>s'. free_method pool s p z = Some s' \<and> pok s' (live - {(p, z)}) \<and>
      (\<forall>a \<in> fst ` live - {p}. peek pool s' a = peek pool s a)"
    and poke_law: "pok s live \<Longrightarrow> a \<in> fst ` live \<Longrightarrow> pok (poke pool s a v) live"
    and peek_law: "peek pool (poke pool s a v) b = (if b = a then v else peek pool s b)"
    and live_law: "pok s live \<Longrightarrow> (p, z) \<in> live \<Longrightarrow> p \<noteq> 0 \<and> z \<noteq> 0 \<and> PoolHasAddr pool s p"
    and once_law: "pok s live \<Longrightarrow> inj_on fst live"
    and serves_law: "serves z \<Longrightarrow> z \<noteq> 0"
begin

lemma PoolAlloc_ok:
  assumes "pok s live" and "serves z"
  obtains (failed) res p s' where "PoolAlloc pool s z permit = Some (res, p, s')" "res \<noteq> ResOK" "pok s' live"
      "\<forall>a \<in> fst ` live. peek pool s' a = peek pool s a"
  | (allocated) p s' where "PoolAlloc pool s z permit = Some (ResOK, p, s')" "pok s' (insert (p, z) live)" "p \<notin> fst ` live" "p \<noteq> 0"
      "\<forall>a \<in> fst ` live. peek pool s' a = peek pool s a"
proof -
  obtain res p s' where a: "alloc_method pool s z permit = Some (res, p, s')"
    "pok s' (if res = ResOK then insert (p, z) live else live)" "res = ResOK \<longrightarrow> p \<notin> fst ` live"
    "\<forall>a \<in> fst ` live. peek pool s' a = peek pool s a"
    using alloc_law [OF assms] by blast
  have z: "0 < z" using serves_law [OF assms(2)] word_neq_0_conv by blast
  show thesis
  proof (cases "res = ResOK")
    case True
    then have "PoolHasAddr pool s' p" "p \<noteq> 0" using live_law [of s' "insert (p, z) live" p z] a(2) by auto
    then show ?thesis using allocated [of p s'] a z True by (simp add: PoolAlloc_def)
  next
    case False
    then show ?thesis using failed [of res p s'] a z by (simp add: PoolAlloc_def)
  qed
qed

lemma PoolFree_ok:
  assumes "pok s live" and "(p, z) \<in> live"
  obtains s' where "PoolFree pool s p z = Some s'" "pok s' (live - {(p, z)})" "\<forall>a \<in> fst ` live - {p}. peek pool s' a = peek pool s a"
  using free_law [OF assms] live_law [OF assms] unfolding PoolFree_def by (auto simp: aver_bind word_neq_0_conv)

lemma chain_keep: "\<forall>a \<in> set xs. nx' a = nx a \<Longrightarrow> chain nx' p xs = chain nx p xs"
  by (induction xs arbitrary: p) auto

lemma SACFill_loop_ok:
  "pok s (set (map (\<lambda>x. (x, z)) xs) \<union> live) \<Longrightarrow> serves z \<Longrightarrow> chain (peek pool s) fl xs \<Longrightarrow> distinct xs \<Longrightarrow>
    set xs \<inter> fst ` live = {} \<Longrightarrow>
    \<exists>res ys fl' s'. SACFill_loop pool z permit k j fl rold s = Some (res, j + length ys, fl', s') \<and>
      (length ys = k \<and> (k = 0 \<or> res = ResOK) \<or> length ys < k \<and> res \<noteq> ResOK) \<and>
      chain (peek pool s') fl' (ys @ xs) \<and> distinct (ys @ xs) \<and> set (ys @ xs) \<inter> fst ` live = {} \<and>
      pok s' (set (map (\<lambda>x. (x, z)) (ys @ xs)) \<union> live) \<and> (\<forall>a \<in> fst ` live. peek pool s' a = peek pool s a)"
proof (induction k arbitrary: j fl rold s xs)
  case 0
  then show ?case by (intro exI [of _ rold] exI [of _ "[]"]) simp
next
  case (Suc k)
  let ?live = "set (map (\<lambda>x. (x, z)) xs) \<union> live"
  have fst: "fst ` ?live = set xs \<union> fst ` live" by (force simp: image_Un)
  from Suc.prems(1,2) show ?case
  proof (cases rule: PoolAlloc_ok [where permit = permit])
    case (failed res p s')
    have keep: "peek pool s' a = peek pool s a" if "a \<in> set xs \<union> fst ` live" for a
      using failed(4) that unfolding fst by blast
    then have "chain (peek pool s') fl xs" using Suc.prems(3) chain_keep [of xs "peek pool s'" "peek pool s" fl] by simp
    then show ?thesis using Suc.prems failed(1-3) keep
      by (intro exI [of _ res] exI [of _ "[]"] exI [of _ fl] exI [of _ s']) simp
  next
    case (allocated p s1)
    let ?s = "poke pool s1 p fl"
    have new: "p \<notin> set xs" "p \<notin> fst ` live" using allocated(3) unfolding fst by auto
    have keep: "peek pool ?s a = peek pool s a" if "a \<in> set xs \<union> fst ` live" for a
      using allocated(5) new that unfolding fst peek_law by auto
    have "pok ?s (insert (p, z) ?live)" using poke_law [OF allocated(2), of p fl] by simp
    then have i: "pok ?s (set (map (\<lambda>x. (x, z)) (p # xs)) \<union> live)" by simp
    have c: "chain (peek pool ?s) p (p # xs)"
      using Suc.prems(3) allocated(4) chain_keep [of xs "peek pool ?s" "peek pool s" fl] keep peek_law by simp
    have "set (p # xs) \<inter> fst ` live = {}" "distinct (p # xs)" using Suc.prems(4,5) new by auto
    from Suc.IH [OF i Suc.prems(2) c this(2,1), of "j + 1" ResOK] obtain res ys fl' s' where
      r: "SACFill_loop pool z permit k (j + 1) p ResOK ?s = Some (res, j + 1 + length ys, fl', s')"
        "length ys = k \<and> (k = 0 \<or> res = ResOK) \<or> length ys < k \<and> res \<noteq> ResOK"
        "chain (peek pool s') fl' (ys @ p # xs)" "distinct (ys @ p # xs)" "set (ys @ p # xs) \<inter> fst ` live = {}"
        "pok s' (set (map (\<lambda>x. (x, z)) (ys @ p # xs)) \<union> live)" "\<forall>a \<in> fst ` live. peek pool s' a = peek pool ?s a"
      by (elim exE conjE) (rule that; assumption)
    have "k = 0 \<Longrightarrow> res = ResOK" using r(1,2) by auto
    then have res: "length (ys @ [p]) = Suc k \<and> (Suc k = 0 \<or> res = ResOK) \<or> length (ys @ [p]) < Suc k \<and> res \<noteq> ResOK"
      using r(2) by auto
    have "SACFill_loop pool z permit (Suc k) j fl rold s = Some (res, j + length (ys @ [p]), fl', s')"
      using r(1) allocated(1) by simp
    moreover have "\<forall>a \<in> fst ` live. peek pool s' a = peek pool s a" using r(7) keep by simp
    moreover note res r(3-6)
    ultimately show ?thesis
      by (intro exI [of _ res] exI [of _ "ys @ [p]"] exI [of _ fl'] exI [of _ s']) (simp only: append_assoc append_Cons append_Nil simp_thms)
  qed
qed

lemma sacClassFlush_loop_ok:
  "pok s (set (map (\<lambda>x. (x, z)) xs) \<union> live) \<Longrightarrow> chain (peek pool s) fl xs \<Longrightarrow> distinct xs \<Longrightarrow> set xs \<inter> fst ` live = {} \<Longrightarrow>
    k \<le> length xs \<Longrightarrow>
    \<exists>fl' s'. sacClassFlush_loop pool z k fl s = Some (fl', s') \<and> chain (peek pool s') fl' (drop k xs) \<and>
      pok s' (set (map (\<lambda>x. (x, z)) (drop k xs)) \<union> live) \<and> (\<forall>a \<in> fst ` live. peek pool s' a = peek pool s a)"
proof (induction k arbitrary: fl s xs)
  case 0
  then show ?case by simp
next
  case (Suc k)
  then obtain x ys where xs: "xs = x # ys" by (cases xs) auto
  then have fl: "fl = x" "chain (peek pool s) (peek pool s x) ys" using Suc.prems(2) by simp_all
  let ?live = "set (map (\<lambda>x. (x, z)) xs) \<union> live"
  obtain s1 where f: "PoolFree pool s x z = Some s1" "pok s1 (?live - {(x, z)})"
    "\<forall>a \<in> fst ` ?live - {x}. peek pool s1 a = peek pool s a"
    using PoolFree_ok [OF Suc.prems(1), of x z] xs by auto
  have x: "x \<notin> set ys" "x \<notin> fst ` live" using Suc.prems(3,4) xs by auto
  have "?live - {(x, z)} = set (map (\<lambda>x. (x, z)) ys) \<union> live" using x xs by force
  then have i: "pok s1 (set (map (\<lambda>x. (x, z)) ys) \<union> live)" using f(2) by simp
  have keep: "peek pool s1 a = peek pool s a" if "a \<in> set ys \<union> fst ` live" for a
    using f(3) that x xs by (force simp: image_Un)
  have c: "chain (peek pool s1) (peek pool s x) ys" using fl(2) chain_keep [of ys "peek pool s1" "peek pool s"] keep by simp
  have "distinct ys" "set ys \<inter> fst ` live = {}" "k \<le> length ys" using Suc.prems(3-5) xs by auto
  from Suc.IH [OF i c this] show ?case using f(1) fl(1) keep xs by simp
qed

end

subsection \<open>The invariant of a cache\<close>

text \<open>The blocks in the lists, the blocks in the hands of clients, which know the sizes they asked for, and their real sizes.\<close>

definition cached :: "mword list \<Rightarrow> (nat \<Rightarrow> mword list) \<Rightarrow> (mword \<times> mword) set" where
  "cached bs bl = (\<Union>k < length bs. (\<lambda>x. (x, bs ! k)) ` set (bl k))"

definition served_size :: "mword list \<Rightarrow> mword \<Rightarrow> mword \<Rightarrow> mword" where
  "served_size bs al z = (if class_index bs z < length bs then bs ! class_index bs z else WordAlignUp z al)"

definition held_blocks :: "mword list \<Rightarrow> mword \<Rightarrow> (mword \<rightharpoonup> mword) \<Rightarrow> (mword \<times> mword) set" where
  "held_blocks bs al held = {(p, served_size bs al z) | p z. held p = Some z}"

definition list_ok :: "'s pool_methods \<Rightarrow> 's \<Rightarrow> SACFreeListBlockStruct \<Rightarrow> mword list \<Rightarrow> bool" where
  "list_ok pool s fb xs \<longleftrightarrow> chain (peek pool s) (fl_blocks fb) xs \<and> distinct xs \<and> length xs = fl_count fb \<and>
     fl_count fb \<le> fl_countMax fb"

definition sac_inv ::
  "'s pool_methods \<Rightarrow> ('s \<Rightarrow> (mword \<times> mword) set \<Rightarrow> bool) \<Rightarrow> (mword \<Rightarrow> bool) \<Rightarrow> mword list \<Rightarrow> nat list \<Rightarrow>
     (nat \<Rightarrow> mword list) \<Rightarrow> (mword \<rightharpoonup> mword) \<Rightarrow> SACStruct \<Rightarrow> 's \<Rightarrow> bool" where
  "sac_inv pool pok serves bs cm bl held sac s \<longleftrightarrow>
     sac_shape bs cm sac \<and> (\<forall>k < length bs. serves (bs ! k)) \<and>
     (\<forall>k < length bs. list_ok pool s (freelists sac ! slot (middleIndex sac) k) (bl k)) \<and>
     pok s (cached bs bl \<union> held_blocks bs (PoolAlignment pool) held) \<and> fst ` cached bs bl \<inter> dom held = {} \<and>
     (\<forall>p z. held p = Some z \<longrightarrow> 0 < z \<and> serves (served_size bs (PoolAlignment pool) z))"

lemma in_cached: "(x, b) \<in> cached bs bl \<longleftrightarrow> (\<exists>j < length bs. b = bs ! j \<and> x \<in> set (bl j))"
  by (auto simp: cached_def)

lemma cached_split: "k < length bs \<Longrightarrow> cached bs bl = set (map (\<lambda>x. (x, bs ! k)) (bl k)) \<union> cached bs (bl(k := []))"
  by (rule set_eqI, case_tac x) (auto simp: in_cached)

lemma cached_upd: "k < length bs \<Longrightarrow> cached bs (bl(k := xs)) = set (map (\<lambda>x. (x, bs ! k)) xs) \<union> cached bs (bl(k := []))"
  using cached_split [of k bs "bl(k := xs)"] by simp

lemma fst_held [simp]: "fst ` held_blocks bs al held = dom held"
  by (force simp: held_blocks_def)

lemma fst_pairs [simp]: "fst ` (\<lambda>x. (x, z)) ` X = X"
  by force

definition set_class :: "SACStruct \<Rightarrow> nat \<Rightarrow> nat \<Rightarrow> mword \<Rightarrow> SACStruct" where
  "set_class sac k c p = with_list sac (slot (middleIndex sac) k) (\<lambda>fb. fb\<lparr>fl_count := c, fl_blocks := p\<rparr>)"

lemma set_class_simps [simp]:
  "classesCount (set_class sac k c p) = classesCount sac" "middleIndex (set_class sac k c p) = middleIndex sac"
  "middle (set_class sac k c p) = middle sac" "length (freelists (set_class sac k c p)) = length (freelists sac)"
  by (simp_all add: set_class_def with_list_def)

lemma set_class_list:
  "slot (middleIndex sac) k < length (freelists sac) \<Longrightarrow> freelists (set_class sac k c p) ! slot (middleIndex sac) j =
    (if j = k then (freelists sac ! slot (middleIndex sac) k)\<lparr>fl_count := c, fl_blocks := p\<rparr> else freelists sac ! slot (middleIndex sac) j)"
  by (simp add: set_class_def with_list_def slot_eq_iff nth_list_update)

lemma set_class_shape:
  assumes "sac_shape bs cm sac" and "k < length bs"
  shows "sac_shape bs cm (set_class sac k c p)"
proof -
  have "slot (middleIndex sac) k < length (freelists sac)" using sac_shapeD(7) [OF assms(1), of k] assms(2) by simp
  then show ?thesis using assms unfolding sac_shape_def Let_def by (simp add: set_class_list)
qed

lemma list_ok_check: "list_ok pool s fb xs \<Longrightarrow> sacFreeListBlockCheck pool s fb"
proof -
  have "chain (peek pool s) p xs \<Longrightarrow> sacFreeListBlockCheck_loop (peek pool) s (length xs) p" for p
    by (induction xs arbitrary: p) auto
  then show "list_ok pool s fb xs \<Longrightarrow> sacFreeListBlockCheck pool s fb"
    unfolding list_ok_def sacFreeListBlockCheck_def by metis
qed

lemma SACCheck_above_ok:
  assumes shape: "sac_shape bs cm sac" and m: "m = middleIndex sac"
    and good: "\<And>k. k \<le> length bs \<Longrightarrow> sacFreeListBlockCheck pool s (freelists sac ! slot m k)"
  shows "m < j \<Longrightarrow> j \<le> length bs \<Longrightarrow> SACCheck_above pool s sac j (slot m j) (bs ! (j - 1)) = Some (slot m (length bs) + 2)"
proof (induction "length bs - j" arbitrary: j)
  case 0
  then have j: "j = length bs" by simp
  have "bs ! (j - 1) < SizeMAX" using sac_shapeD(3) [OF shape, of "j - 1"] 0 j by simp
  then show ?case using sac_shapeD(4,7,8) [OF shape] good [of j] j m
    by (simp add: SACCheck_above.simps list_size_def)
next
  case (Suc d)
  then have j: "j < length bs" by simp
  have "list_size bs m j = bs ! j" using j Suc.prems(1) by (simp add: list_size_def)
  moreover have "bs ! (j - 1) < bs ! j" using sorted_wrt_nth_less [OF sac_shapeD(1) [OF shape], of "j - 1" j] j Suc.prems(1) by simp
  moreover have "SACCheck_above pool s sac (Suc j) (slot m (Suc j)) (bs ! j) = Some (slot m (length bs) + 2)"
    using Suc.hyps(1) [of "Suc j"] Suc.hyps(2) Suc.prems(1) j by simp
  ultimately show ?case using sac_shapeD(4,7,8) [OF shape] good [of j] j m slot_up [OF Suc.prems(1)]
    by (subst SACCheck_above.simps) simp
qed

lemma SACCheck_below_ok:
  assumes shape: "sac_shape bs cm sac" and m: "m = middleIndex sac"
    and good: "\<And>k. k \<le> length bs \<Longrightarrow> sacFreeListBlockCheck pool s (freelists sac ! slot m k)"
  shows "j \<le> m \<Longrightarrow> SACCheck_below pool s sac j (slot m j) (bs ! j) = Some (slot m 0)"
proof (induction j)
  case 0
  then show ?case by simp
next
  case (Suc j)
  have j: "Suc j < length bs" using Suc.prems m sac_shapeD(5) [OF shape] by simp
  have "list_size bs m (Suc j) = bs ! j" using Suc.prems j by (simp add: list_size_def)
  moreover have "bs ! j < bs ! Suc j" using sorted_wrt_nth_less [OF sac_shapeD(1) [OF shape], of j "Suc j"] j by simp
  ultimately show ?case using Suc j sac_shapeD(7,8) [OF shape] good [of "Suc j"] m slot_down [OF Suc.prems] by simp
qed

lemma SACCheck_ok:
  assumes shape: "sac_shape bs cm sac" and m: "m = middleIndex sac"
    and good: "\<And>k. k \<le> length bs \<Longrightarrow> sacFreeListBlockCheck pool s (freelists sac ! slot m k)"
  shows "SACCheck pool s sac = Some ()"
proof -
  note sh = sac_shapeD [OF shape, folded m]
  have n: "0 < length bs" using sh(5) by auto
  have "SACCheck_above pool s sac (m + 1) 0 (middle sac) = Some (slot m (length bs) + 2)"
    using SACCheck_above_ok [OF assms, of "Suc m"] sh(5,6) m by (simp add: slot_0)
  moreover have "SACCheck_below pool s sac m 1 (middle sac) = Some (slot m 0)"
    using SACCheck_below_ok [OF assms, of m] sh(6) m by (simp add: slot_0)
  moreover have "list_size bs m 0 = 0" "list_size bs m (length bs) = SizeMAX" using n by (auto simp: list_size_def)
  moreover have "rd (freelists sac) (slot m (length bs) + 2 - 2) = Some (freelists sac ! slot m (length bs))"
    "rd (freelists sac) (slot m 0) = Some (freelists sac ! slot m 0)"
    using sh(7) [of 0] sh(7) [of "length bs"] by simp_all
  moreover have "0 < middle sac" "m < classesCount sac" "0 < classesCount sac" using sh(2) [of m] sh(4,5,6) n by simp_all
  moreover have "fl_size (freelists sac ! slot m 0) = 0" "fl_size (freelists sac ! slot m (length bs)) = SizeMAX"
    using sh(8) [of 0] sh(8) [of "length bs"] calculation(3,4) by simp_all
  ultimately show ?thesis using good [of 0]
    unfolding SACCheck_def m [symmetric] by (simp only: aver_bindI bind.bind_lunit sh(10-12) aver_True simp_thms zero_le)
qed

context pool_contract
begin

lemma inv_SACCheck:
  assumes "sac_inv pool pok serves bs cm bl held sac s"
  shows "SACCheck pool s sac = Some ()"
proof (rule SACCheck_ok [OF _ refl])
  show sh: "sac_shape bs cm sac" using assms by (simp add: sac_inv_def)
  fix k assume "k \<le> length bs"
  then consider "k < length bs" | "k = length bs" by linarith
  then show "sacFreeListBlockCheck pool s (freelists sac ! slot (middleIndex sac) k)"
  proof cases
    case 1
    then have "list_ok pool s (freelists sac ! slot (middleIndex sac) k) (bl k)" using assms by (simp add: sac_inv_def)
    then show ?thesis by (rule list_ok_check)
  next
    case 2
    then show ?thesis using sac_shapeD(10-12) [OF sh] by (simp add: sacFreeListBlockCheck_def)
  qed
qed

text \<open>One list taken out of the invariant, and put back.\<close>

lemma sac_inv_split:
  assumes "sac_inv pool pok serves bs cm bl held sac s" and "k < length bs"
  defines "rest \<equiv> cached bs (bl(k := [])) \<union> held_blocks bs (PoolAlignment pool) held"
  shows "pok s (set (map (\<lambda>x. (x, bs ! k)) (bl k)) \<union> rest)" and "set (bl k) \<inter> fst ` rest = {}"
    and "list_ok pool s (freelists sac ! slot (middleIndex sac) k) (bl k)" and "serves (bs ! k)"
    and "fst ` cached bs (bl(k := [])) \<inter> dom held = {}"
proof -
  note i = assms(1) [unfolded sac_inv_def]
  show pok: "pok s (set (map (\<lambda>x. (x, bs ! k)) (bl k)) \<union> rest)"
    using i cached_split [OF assms(2), of bl] by (simp add: rest_def Un_assoc)
  show "list_ok pool s (freelists sac ! slot (middleIndex sac) k) (bl k)" and "serves (bs ! k)" using i assms(2) by simp_all
  show "fst ` cached bs (bl(k := [])) \<inter> dom held = {}" using i cached_split [OF assms(2), of bl] by auto
  have False if "x \<in> set (bl k)" and "(x, b) \<in> rest" for x b
  proof -
    have "(x, bs ! k) \<in> set (map (\<lambda>x. (x, bs ! k)) (bl k)) \<union> rest" using that(1) by simp
    then have b: "b = bs ! k" using inj_onD [OF once_law [OF pok], of "(x, b)" "(x, bs ! k)"] that(2) by simp
    have "x \<notin> dom held" using i that(1) cached_split [OF assms(2), of bl] by fastforce
    then have "(x, b) \<in> cached bs (bl(k := []))" using that(2) by (auto simp: rest_def held_blocks_def)
    then obtain j where j: "j < length bs" "j \<noteq> k" "b = bs ! j" by (auto simp: cached_def split: if_splits)
    have "distinct bs" using sac_shapeD(1) [OF i [THEN conjunct1]] by (simp add: strict_sorted_iff)
    then show False using j b assms(2) nth_eq_iff_index_eq by metis
  qed
  then show "set (bl k) \<inter> fst ` rest = {}" by fastforce
qed

lemma sac_inv_join:
  assumes "sac_inv pool pok serves bs cm bl held sac s" and "k < length bs"
    and "chain (peek pool s') p ys" and "distinct ys" and "length ys \<le> cm ! k"
    and "pok s' (set (map (\<lambda>x. (x, bs ! k)) ys) \<union> (cached bs (bl(k := [])) \<union> held_blocks bs (PoolAlignment pool) held'))"
    and "set ys \<inter> dom held' = {}" and "fst ` cached bs (bl(k := [])) \<inter> dom held' = {}"
    and "\<forall>a \<in> fst ` cached bs (bl(k := [])). peek pool s' a = peek pool s a"
    and "\<forall>p z. held' p = Some z \<longrightarrow> 0 < z \<and> serves (served_size bs (PoolAlignment pool) z)"
  shows "sac_inv pool pok serves bs cm (bl(k := ys)) held' (set_class sac k (length ys) p) s'"
proof -
  note i = assms(1) [unfolded sac_inv_def]
  note sh = sac_shapeD [OF i [THEN conjunct1]]
  have slot: "slot (middleIndex sac) k < length (freelists sac)" using sh(7) [of k] assms(2) by simp
  have "list_ok pool s' (freelists (set_class sac k (length ys) p) ! slot (middleIndex sac) j) ((bl(k := ys)) j)"
    if j: "j < length bs" for j
  proof (cases "j = k")
    case True
    then show ?thesis using assms(3-5) sh(9) [OF assms(2)] slot by (simp add: list_ok_def set_class_list)
  next
    case False
    have "set (bl j) \<subseteq> fst ` cached bs (bl(k := []))" using j False by (force simp: cached_def)
    then have "\<forall>a \<in> set (bl j). peek pool s' a = peek pool s a" using assms(9) by blast
    then show ?thesis using i j False slot chain_keep [of "bl j" "peek pool s'" "peek pool s"] by (simp add: list_ok_def set_class_list)
  qed
  moreover have "pok s' (cached bs (bl(k := ys)) \<union> held_blocks bs (PoolAlignment pool) held')"
    using assms(6) cached_upd [OF assms(2), of bl ys] by (simp add: Un_assoc)
  moreover have "fst ` cached bs (bl(k := ys)) \<inter> dom held' = {}"
    using assms(7,8) cached_upd [OF assms(2), of bl ys] by (auto simp: image_Un)
  ultimately show ?thesis using i set_class_shape [OF _ assms(2)] assms(10) unfolding sac_inv_def by simp
qed

end

lemma with_list_same: "f (freelists sac ! i) = freelists sac ! i \<Longrightarrow> with_list sac i f = sac"
  by (simp add: with_list_def)

lemma with_list_set_class:
  "f (freelists sac ! slot (middleIndex sac) k) = (freelists sac ! slot (middleIndex sac) k)\<lparr>fl_count := c, fl_blocks := p\<rparr> \<Longrightarrow>
    with_list sac (slot (middleIndex sac) k) f = set_class sac k c p"
  by (simp add: with_list_def set_class_def)

lemma held_blocks_upd: "held p = None \<Longrightarrow> held_blocks bs al (held(p \<mapsto> z)) = insert (p, served_size bs al z) (held_blocks bs al held)"
  by (auto simp: held_blocks_def split: if_splits)

lemma held_blocks_del: "held p = Some z \<Longrightarrow> held_blocks bs al held = insert (p, served_size bs al z) (held_blocks bs al (held(p := None)))"
  using held_blocks_upd [of "held(p := None)" p bs al z] by (simp add: fun_upd_idem)

context pool_contract
begin

text \<open>When only the pool and the blocks of clients change.\<close>

lemma sac_inv_state:
  assumes "sac_inv pool pok serves bs cm bl held sac s"
    and "pok s' (cached bs bl \<union> held_blocks bs (PoolAlignment pool) held')" and "\<forall>a \<in> fst ` cached bs bl. peek pool s' a = peek pool s a"
    and "fst ` cached bs bl \<inter> dom held' = {}" and "\<forall>p z. held' p = Some z \<longrightarrow> 0 < z \<and> serves (served_size bs (PoolAlignment pool) z)"
  shows "sac_inv pool pok serves bs cm bl held' sac s'"
proof -
  have "list_ok pool s' (freelists sac ! slot (middleIndex sac) j) (bl j)" if j: "j < length bs" for j
  proof -
    have "set (bl j) \<subseteq> fst ` cached bs bl" using j by (force simp: cached_def)
    then have "\<forall>a \<in> set (bl j). peek pool s' a = peek pool s a" using assms(3) by blast
    then show ?thesis using assms(1) j chain_keep [of "bl j" "peek pool s'" "peek pool s"] by (simp add: list_ok_def sac_inv_def)
  qed
  then show ?thesis using assms unfolding sac_inv_def by simp
qed

lemma sac_inv_find:
  assumes "sac_inv pool pok serves bs cm bl held sac s" and "0 < z"
  shows "sacFind sac z = Some (slot (middleIndex sac) (class_index bs z), find_size bs z)"
    and "mps_sac_find sac z = Some (slot (middleIndex sac) (class_index bs z))"
    and "rd (freelists sac) (slot (middleIndex sac) (class_index bs z)) = Some (freelists sac ! slot (middleIndex sac) (class_index bs z))"
proof -
  have sh: "sac_shape bs cm sac" using assms(1) by (simp add: sac_inv_def)
  show "sacFind sac z = Some (slot (middleIndex sac) (class_index bs z), find_size bs z)"
    and "mps_sac_find sac z = Some (slot (middleIndex sac) (class_index bs z))"
    using sacFind_ok [OF sh assms(2)] by simp_all
  show "rd (freelists sac) (slot (middleIndex sac) (class_index bs z)) = Some (freelists sac ! slot (middleIndex sac) (class_index bs z))"
    using sac_shapeD(7) [OF sh class_index_le [of bs z]] by simp
qed

lemma find_size_served:
  assumes "sac_inv pool pok serves bs cm bl held sac s"
  shows "(if find_size bs z = SizeMAX then WordAlignUp z al else find_size bs z) = served_size bs al z"
proof -
  have "sac_shape bs cm sac" using assms by (simp add: sac_inv_def)
  from sac_shapeD(3) [OF this, of "class_index bs z"] show ?thesis by (auto simp: find_size_def served_size_def)
qed

lemma SACFill_ok:
  assumes i: "sac_inv pool pok serves bs cm bl held sac s" and z: "0 < z" "serves (served_size bs (PoolAlignment pool) z)"
    and empty: "fl_count (freelists sac ! slot (middleIndex sac) (class_index bs z)) = 0"
  shows "\<exists>res p sac' s' bl'. SACFill pool sac s z permit = Some (res, p, sac', s') \<and>
    (if res = ResOK then p \<noteq> 0 \<and> held p = None \<and> sac_inv pool pok serves bs cm bl' (held(p \<mapsto> z)) sac' s'
     else sac' = sac \<and> sac_inv pool pok serves bs cm bl held sac s')"
proof -
  let ?al = "PoolAlignment pool" and ?c = "class_index bs z" and ?m = "middleIndex sac"
  let ?z = "served_size bs ?al z" and ?fb = "freelists sac ! slot ?m ?c"
  let ?live = "cached bs bl \<union> held_blocks bs ?al held"
  note I = i [unfolded sac_inv_def]
  have blocks: "fl_blocks ?fb = 0"
  proof (cases "?c < length bs")
    case True
    then have "list_ok pool s ?fb (bl ?c)" using I by simp
    then show ?thesis using empty by (auto simp: list_ok_def)
  next
    case False
    then have "?c = length bs" using class_index_le [of bs z] by simp
    then show ?thesis using sac_shapeD(12) [of bs cm sac] I by simp
  qed
  have live: "pok s (set (map (\<lambda>x. (x, ?z)) []) \<union> ?live)" using I by simp
  from SACFill_loop_ok [OF live z(2), where fl = 0 and k = "fl_countMax ?fb div 3 + 1" and permit = permit and j = 0 and rold = ResOK]
  obtain res ys fl' s' where
    r: "SACFill_loop pool ?z permit (fl_countMax ?fb div 3 + 1) 0 0 ResOK s = Some (res, length ys, fl', s')"
      "length ys = fl_countMax ?fb div 3 + 1 \<and> res = ResOK \<or> length ys < fl_countMax ?fb div 3 + 1 \<and> res \<noteq> ResOK"
      "chain (peek pool s') fl' ys" "distinct ys" "set ys \<inter> fst ` ?live = {}"
      "pok s' (set (map (\<lambda>x. (x, ?z)) ys) \<union> ?live)" "\<forall>a \<in> fst ` ?live. peek pool s' a = peek pool s a"
    by auto
  have step: "SACFill pool sac s z permit = (if ys = [] then do { aver (res \<noteq> ResOK); Some (res, 0, sac, s') }
      else Some (ResOK, fl', with_list sac (slot ?m ?c) (\<lambda>fb. fb\<lparr>fl_count := length ys - 1, fl_blocks := peek pool s' fl'\<rparr>), s'))"
    unfolding SACFill_def
    using inv_SACCheck [OF i] sac_inv_find(1,3) [OF i z(1)] empty z(1) r(1) blocks find_size_served [OF i, of z ?al]
    by (simp add: Let_def word_neq_0_conv del: SACFill_loop.simps)
  show ?thesis
  proof (cases ys)
    case Nil
    then have "res \<noteq> ResOK" using r(2) by auto
    moreover have "sac_inv pool pok serves bs cm bl held sac s'"
      using sac_inv_state [OF i, of s' held] r(6,7) Nil I by (auto simp: image_Un)
    ultimately show ?thesis using step Nil by auto
  next
    case (Cons p qs)
    then have p: "fl' = p" "p \<noteq> 0" "chain (peek pool s') (peek pool s' p) qs" "held p = None" "p \<notin> fst ` cached bs bl"
      using r(3,5) by (auto simp: image_Un)
    have held: "held_blocks bs ?al (held(p \<mapsto> z)) = insert (p, ?z) (held_blocks bs ?al held)" using p(4) by (rule held_blocks_upd)
    have sizes: "\<forall>q y. (held(p \<mapsto> z)) q = Some y \<longrightarrow> 0 < y \<and> serves (served_size bs ?al y)" using I z by auto
    have "\<exists>bl'. sac_inv pool pok serves bs cm bl' (held(p \<mapsto> z))
        (with_list sac (slot ?m ?c) (\<lambda>fb. fb\<lparr>fl_count := length ys - 1, fl_blocks := peek pool s' fl'\<rparr>)) s'"
    proof (cases "?c < length bs")
      case True
      note sp = sac_inv_split [OF i True]
      have bl: "bl ?c = []" using sp(3) empty by (simp add: list_ok_def)
      then have cc: "cached bs (bl(?c := [])) = cached bs bl" using cached_split [OF True, of bl] by simp
      have zz: "?z = bs ! ?c" using True by (simp add: served_size_def)
      have cm: "length qs \<le> cm ! ?c" using r(2) Cons sac_shapeD(9) [OF I [THEN conjunct1] True] by auto
      have "sac_inv pool pok serves bs cm (bl(?c := qs)) (held(p \<mapsto> z)) (set_class sac ?c (length qs) (peek pool s' p)) s'"
      proof (rule sac_inv_join [OF i True p(3) _ cm])
        show "distinct qs" "set qs \<inter> dom (held(p \<mapsto> z)) = {}" using r(4,5) Cons by (auto simp: image_Un)
        show "pok s' (set (map (\<lambda>x. (x, bs ! ?c)) qs) \<union> (cached bs (bl(?c := [])) \<union> held_blocks bs ?al (held(p \<mapsto> z))))"
          using r(6) Cons by (simp add: held cc zz Un_left_commute)
        show "fst ` cached bs (bl(?c := [])) \<inter> dom (held(p \<mapsto> z)) = {}" using I p(5) by (auto simp: cc)
        show "\<forall>a \<in> fst ` cached bs (bl(?c := [])). peek pool s' a = peek pool s a" using r(7) by (auto simp: cc image_Un)
      qed (rule sizes)
      moreover have "with_list sac (slot ?m ?c) (\<lambda>fb. fb\<lparr>fl_count := length ys - 1, fl_blocks := peek pool s' fl'\<rparr>) =
          set_class sac ?c (length qs) (peek pool s' p)"
        using Cons p(1) by (intro with_list_set_class) simp
      ultimately show ?thesis by auto
    next
      case False
      then have c: "?c = length bs" using class_index_le [of bs z] by simp
      note sh = sac_shapeD(10-12) [OF I [THEN conjunct1]]
      have "qs = []" using r(2) Cons sh(2) c by auto
      then have "with_list sac (slot ?m ?c) (\<lambda>fb. fb\<lparr>fl_count := length ys - 1, fl_blocks := peek pool s' fl'\<rparr>) = sac"
        using Cons p(1,3) sh c by (intro with_list_same) simp
      moreover have "sac_inv pool pok serves bs cm bl (held(p \<mapsto> z)) sac s'"
        using sac_inv_state [OF i, of s' "held(p \<mapsto> z)"] r(6,7) Cons \<open>qs = []\<close> I p(5) sizes by (auto simp: image_Un held)
      ultimately show ?thesis by auto
    qed
    then show ?thesis using step Cons p(1,2,4) by auto
  qed
qed

lemma mps_sac_alloc_ok:
  assumes i: "sac_inv pool pok serves bs cm bl held sac s" and z: "0 < z" "serves (served_size bs (PoolAlignment pool) z)"
  shows "\<exists>res p sac' s' bl'. mps_sac_alloc pool sac s z permit = Some (res, p, sac', s') \<and>
    (if res = ResOK then p \<noteq> 0 \<and> held p = None \<and> sac_inv pool pok serves bs cm bl' (held(p \<mapsto> z)) sac' s'
     else sac_inv pool pok serves bs cm bl' held sac' s')"
proof -
  let ?al = "PoolAlignment pool" and ?c = "class_index bs z" and ?m = "middleIndex sac"
  let ?fb = "freelists sac ! slot ?m ?c"
  note I = i [unfolded sac_inv_def]
  have step: "mps_sac_alloc pool sac s z permit = (if fl_count ?fb \<noteq> 0
      then Some (ResOK, fl_blocks ?fb,
        with_list sac (slot ?m ?c) (\<lambda>fb. fb\<lparr>fl_blocks := peek pool s (fl_blocks fb), fl_count := fl_count fb - 1\<rparr>), s)
      else SACFill pool sac s z permit)"
    using sac_inv_find(2,3) [OF i z(1)] z(1) by (simp add: mps_sac_alloc_def MPS_SAC_ALLOC_FAST_def)
  show ?thesis
  proof (cases "fl_count ?fb = 0")
    case True
    then show ?thesis using SACFill_ok [OF i z True, of permit] step by (auto split: if_splits)
  next
    case False
    then have c: "?c < length bs" using sac_shapeD(10) [of bs cm sac] I class_index_le [of bs z] by (cases "?c = length bs") auto
    note sp = sac_inv_split [OF i c]
    obtain p qs where xs: "bl ?c = p # qs" using sp(3) False by (cases "bl ?c") (auto simp: list_ok_def)
    have l: "fl_blocks ?fb = p" "p \<noteq> 0" "chain (peek pool s) (peek pool s p) qs" "p \<notin> set qs" "distinct qs" "length qs = fl_count ?fb - 1"
      "fl_count ?fb \<le> fl_countMax ?fb"
      using sp(3) xs by (auto simp: list_ok_def)
    have p: "held p = None" "p \<notin> fst ` cached bs (bl(?c := []))" "set qs \<inter> dom held = {}" using sp(2) xs by (auto simp: image_Un)
    have held: "held_blocks bs ?al (held(p \<mapsto> z)) = insert (p, bs ! ?c) (held_blocks bs ?al held)"
      using held_blocks_upd [where held = held and p = p and z = z and bs = bs and al = ?al] p(1) c by (simp add: served_size_def)
    have "sac_inv pool pok serves bs cm (bl(?c := qs)) (held(p \<mapsto> z)) (set_class sac ?c (length qs) (peek pool s p)) s"
    proof (rule sac_inv_join [OF i c l(3,5)])
      show "length qs \<le> cm ! ?c" using l(6,7) sac_shapeD(9) [OF I [THEN conjunct1] c] by simp
      show "pok s (set (map (\<lambda>x. (x, bs ! ?c)) qs) \<union> (cached bs (bl(?c := [])) \<union> held_blocks bs ?al (held(p \<mapsto> z))))"
        using sp(1) xs by (simp add: held Un_left_commute)
      show "set qs \<inter> dom (held(p \<mapsto> z)) = {}" "fst ` cached bs (bl(?c := [])) \<inter> dom (held(p \<mapsto> z)) = {}"
        using p l(4) sp(5) by auto
      show "\<forall>q y. (held(p \<mapsto> z)) q = Some y \<longrightarrow> 0 < y \<and> serves (served_size bs ?al y)" using I z by auto
    qed simp
    moreover have "with_list sac (slot ?m ?c) (\<lambda>fb. fb\<lparr>fl_blocks := peek pool s (fl_blocks fb), fl_count := fl_count fb - 1\<rparr>) =
        set_class sac ?c (length qs) (peek pool s p)"
      using l(1,6) by (intro with_list_set_class) simp
    ultimately show ?thesis using step False l(1,2) p(1) by auto
  qed
qed

end

context pool_contract
begin

text \<open>A block handed back: it goes to the front of its list, after part of the list went to the pool; or it goes to the pool.\<close>

lemma put_in_list:
  assumes i: "sac_inv pool pok serves bs cm bl held sac s" and h: "held p = Some z" and c: "class_index bs z < length bs"
    and k: "k \<le> length (bl (class_index bs z))" "length (bl (class_index bs z)) - k < cm ! class_index bs z"
    and f: "sacClassFlush_loop pool (bs ! class_index bs z) k (fl_blocks (freelists sac ! slot (middleIndex sac) (class_index bs z))) s = Some (fl, s1)"
  defines "xs \<equiv> drop k (bl (class_index bs z))"
  shows "sac_inv pool pok serves bs cm (bl(class_index bs z := p # xs)) (held(p := None))
    (set_class sac (class_index bs z) (length xs + 1) p) (poke pool s1 p fl)"
proof -
  let ?c = "class_index bs z" and ?al = "PoolAlignment pool" and ?s = "poke pool s1 p fl"
  note I = i [unfolded sac_inv_def] and sp = sac_inv_split [OF i c]
  let ?rest = "cached bs (bl(?c := [])) \<union> held_blocks bs ?al held"
  have "chain (peek pool s) (fl_blocks (freelists sac ! slot (middleIndex sac) ?c)) (bl ?c)" "distinct (bl ?c)"
    using sp(3) by (simp_all add: list_ok_def)
  from sacClassFlush_loop_ok [OF sp(1) this sp(2) k(1)] f
  have r: "chain (peek pool s1) fl xs" "pok s1 (set (map (\<lambda>x. (x, bs ! ?c)) xs) \<union> ?rest)"
    "\<forall>a \<in> fst ` ?rest. peek pool s1 a = peek pool s a"
    unfolding xs_def by auto
  have held: "held_blocks bs ?al held = insert (p, bs ! ?c) (held_blocks bs ?al (held(p := None)))"
    using held_blocks_del [where held = held and p = p and z = z and bs = bs and al = ?al] h c by (simp add: served_size_def)
  have p: "p \<noteq> 0" "p \<notin> set xs" "p \<notin> fst ` cached bs (bl(?c := []))" "distinct xs" "set xs \<inter> dom held = {}"
  proof -
    show "p \<noteq> 0" using live_law [OF r(2), of p "bs ! ?c"] held by simp
    show "p \<notin> fst ` cached bs (bl(?c := []))" using sp(5) h by blast
    show "distinct xs" using sp(3) by (simp add: xs_def list_ok_def)
    show x: "set xs \<inter> dom held = {}" using sp(2) set_drop_subset [of k "bl ?c"] by (auto simp: xs_def image_Un)
    show "p \<notin> set xs" using x h by auto
  qed
  have "sac_inv pool pok serves bs cm (bl(?c := p # xs)) (held(p := None)) (set_class sac ?c (length (p # xs)) p) ?s"
  proof (rule sac_inv_join [OF i c])
    show "chain (peek pool ?s) p (p # xs)"
      using r(1) p(1,2) chain_keep [of xs "peek pool ?s" "peek pool s1"] peek_law by (auto simp: peek_law)
    show "distinct (p # xs)" using p by simp
    show "length (p # xs) \<le> cm ! ?c" using k(2) by (simp add: xs_def)
    show "pok ?s (set (map (\<lambda>x. (x, bs ! ?c)) (p # xs)) \<union> (cached bs (bl(?c := [])) \<union> held_blocks bs ?al (held(p := None))))"
      using poke_law [OF r(2), of p fl] by (simp add: held)
    show "set (p # xs) \<inter> dom (held(p := None)) = {}" "fst ` cached bs (bl(?c := [])) \<inter> dom (held(p := None)) = {}"
      using p(5) sp(5) by auto
    show "\<forall>a \<in> fst ` cached bs (bl(?c := [])). peek pool ?s a = peek pool s a"
      using r(3) p(3) by (auto simp: peek_law image_Un)
    show "\<forall>q y. (held(p := None)) q = Some y \<longrightarrow> 0 < y \<and> serves (served_size bs ?al y)" using I by auto
  qed
  then show ?thesis by simp
qed

lemma give_to_pool:
  assumes i: "sac_inv pool pok serves bs cm bl held sac s" and h: "held p = Some z"
  shows "\<exists>s'. PoolFree pool s p (served_size bs (PoolAlignment pool) z) = Some s' \<and>
    sac_inv pool pok serves bs cm bl (held(p := None)) sac s'"
proof -
  let ?al = "PoolAlignment pool"
  note I = i [unfolded sac_inv_def]
  let ?live = "cached bs bl \<union> held_blocks bs ?al held"
  have held: "held_blocks bs ?al held = insert (p, served_size bs ?al z) (held_blocks bs ?al (held(p := None)))"
    using h by (rule held_blocks_del)
  obtain s' where f: "PoolFree pool s p (served_size bs ?al z) = Some s'" "pok s' (?live - {(p, served_size bs ?al z)})"
    "\<forall>a \<in> fst ` ?live - {p}. peek pool s' a = peek pool s a"
    using PoolFree_ok [of s ?live p "served_size bs ?al z"] I held by auto
  have p: "p \<notin> fst ` cached bs bl" using I h by blast
  have "p \<notin> dom (held(p := None))" by simp
  then have "(p, served_size bs ?al z) \<notin> held_blocks bs ?al (held(p := None))" using fst_held by (metis fst_conv image_eqI)
  then have "?live - {(p, served_size bs ?al z)} = cached bs bl \<union> held_blocks bs ?al (held(p := None))"
    using p held by force
  moreover have "\<forall>a \<in> fst ` cached bs bl. peek pool s' a = peek pool s a" using f(3) p by (auto simp: image_Un)
  moreover have "fst ` cached bs bl \<inter> dom (held(p := None)) = {}" using I by auto
  ultimately have "sac_inv pool pok serves bs cm bl (held(p := None)) sac s'"
    using sac_inv_state [OF i, of s' "held(p := None)"] f(2) I by auto
  then show ?thesis using f(1) by blast
qed

lemma mps_sac_free_ok:
  assumes i: "sac_inv pool pok serves bs cm bl held sac s" and h: "held p = Some z"
  shows "\<exists>sac' s' bl'. mps_sac_free pool sac s p z = Some (sac', s') \<and> sac_inv pool pok serves bs cm bl' (held(p := None)) sac' s'"
proof -
  let ?al = "PoolAlignment pool" and ?c = "class_index bs z" and ?m = "middleIndex sac"
  let ?i = "slot ?m ?c" and ?fb = "freelists sac ! slot ?m ?c"
  let ?k = "fl_count ?fb - fl_count ?fb div 3"
  note I = i [unfolded sac_inv_def] and sh = sac_shapeD [OF i [unfolded sac_inv_def, THEN conjunct1]]
  have z: "0 < z" using I h by blast
  have "(p, served_size bs ?al z) \<in> cached bs bl \<union> held_blocks bs ?al held" using h by (auto simp: held_blocks_def)
  with I have p: "p \<noteq> 0" "PoolHasAddr pool s p" using live_law [of s "cached bs bl \<union> held_blocks bs ?al held" p "served_size bs ?al z"] by simp_all
  have slot: "?i < length (freelists sac)" using sh(7) [OF class_index_le [of bs z]] .
  note find = sac_inv_find [OF i z] find_size_served [OF i, of z ?al] inv_SACCheck [OF i]
  have empty: "SACEmpty pool sac s p z = (if fl_countMax ?fb > 0 then do {
       (sac, s) \<leftarrow> sacClassFlush pool sac s ?i (served_size bs ?al z) (if ?k > 0 then ?k else 1);
       let s = poke pool s p (fl_blocks (freelists sac ! ?i));
       Some (with_list sac ?i (\<lambda>fb. fb\<lparr>fl_count := fl_count fb + 1, fl_blocks := p\<rparr>), s)
     }
     else do { s \<leftarrow> PoolFree pool s p (served_size bs ?al z); Some (sac, s) })" if "fl_count ?fb = fl_countMax ?fb"
    using find p z that by (simp add: SACEmpty_def Let_def)
  have step: "mps_sac_free pool sac s p z = (if fl_count ?fb < fl_countMax ?fb
      then Some (with_list sac ?i (\<lambda>fb. fb\<lparr>fl_blocks := p, fl_count := fl_count fb + 1\<rparr>), poke pool s p (fl_blocks ?fb))
      else SACEmpty pool sac s p z)"
    using find z by (simp add: mps_sac_free_def MPS_SAC_FREE_FAST_def)
  show ?thesis
  proof (cases "fl_countMax ?fb = 0")
    case True
    have "fl_count ?fb = 0"
    proof (cases "?c < length bs")
      case True
      then have "list_ok pool s ?fb (bl ?c)" using I by simp
      then show ?thesis using \<open>fl_countMax ?fb = 0\<close> by (simp add: list_ok_def)
    next
      case False
      then show ?thesis using sh(10) class_index_le [of bs z] by (cases "?c = length bs") simp_all
    qed
    then show ?thesis using step empty True give_to_pool [OF i h] by auto
  next
    case False
    then have c: "?c < length bs" using sh(11) class_index_le [of bs z] by (cases "?c = length bs") auto
    have zz: "served_size bs ?al z = bs ! ?c" using c by (simp add: served_size_def)
    have l: "length (bl ?c) = fl_count ?fb" "fl_count ?fb \<le> fl_countMax ?fb" "fl_countMax ?fb = cm ! ?c"
      using sac_inv_split(3) [OF i c] sh(9) [OF c] by (simp_all add: list_ok_def)
    show ?thesis
    proof (cases "fl_count ?fb < fl_countMax ?fb")
      case True
      have "with_list sac ?i (\<lambda>fb. fb\<lparr>fl_blocks := p, fl_count := fl_count fb + 1\<rparr>) = set_class sac ?c (length (bl ?c) + 1) p"
        using l(1) by (intro with_list_set_class) simp
      then show ?thesis using put_in_list [OF i h c, of 0 "fl_blocks ?fb" s] step True l by auto
    next
      case full: False
      then have eq: "fl_count ?fb = fl_countMax ?fb" "0 < ?k" "?k \<le> fl_count ?fb" using l(2) False by auto
      note sp = sac_inv_split [OF i c]
      have "chain (peek pool s) (fl_blocks ?fb) (bl ?c)" "distinct (bl ?c)" using sp(3) by (simp_all add: list_ok_def)
      from sacClassFlush_loop_ok [OF sp(1) this sp(2), of ?k] eq(3) l(1) obtain fl s1
        where f: "sacClassFlush_loop pool (bs ! ?c) ?k (fl_blocks ?fb) s = Some (fl, s1)" by auto
      let ?sac = "with_list sac ?i (\<lambda>fb. fb\<lparr>fl_count := fl_count fb - ?k, fl_blocks := fl\<rparr>)"
      have cf: "sacClassFlush pool sac s ?i (bs ! ?c) ?k = Some (?sac, s1)"
        using f slot by (simp add: sacClassFlush_def)
      have "with_list ?sac ?i (\<lambda>fb. fb\<lparr>fl_count := fl_count fb + 1, fl_blocks := p\<rparr>) =
          set_class sac ?c (length (drop ?k (bl ?c)) + 1) p"
        using l(1) slot by (simp add: with_list_def set_class_def)
      moreover have "fl_blocks (freelists ?sac ! ?i) = fl" using slot by (simp add: with_list_def)
      ultimately have "mps_sac_free pool sac s p z = Some (set_class sac ?c (length (drop ?k (bl ?c)) + 1) p, poke pool s1 p fl)"
        using step full empty [OF eq(1)] False eq(2) zz cf by (simp add: Let_def)
      moreover have "sac_inv pool pok serves bs cm (bl(?c := p # drop ?k (bl ?c))) (held(p := None))
          (set_class sac ?c (length (drop ?k (bl ?c)) + 1) p) (poke pool s1 p fl)"
        using put_in_list [OF i h c _ _ f] eq l by simp
      ultimately show ?thesis by blast
    qed
  qed
qed

lemma SACFlush_class_ok:
  assumes i: "sac_inv pool pok serves bs cm bl held sac s" and c: "k < length bs"
  shows "\<exists>s'. SACFlush_class pool sac s (slot (middleIndex sac) k) (bs ! k) = Some (set_class sac k 0 0, s') \<and>
    sac_inv pool pok serves bs cm (bl(k := [])) held (set_class sac k 0 0) s'"
proof -
  let ?i = "slot (middleIndex sac) k" and ?fb = "freelists sac ! slot (middleIndex sac) k"
  note I = i [unfolded sac_inv_def] and sp = sac_inv_split [OF i c]
  have slot: "?i < length (freelists sac)" using sac_shapeD(7) [OF I [THEN conjunct1], of k] c by simp
  have l: "chain (peek pool s) (fl_blocks ?fb) (bl k)" "distinct (bl k)" "length (bl k) = fl_count ?fb"
    using sp(3) by (simp_all add: list_ok_def)
  from sacClassFlush_loop_ok [OF sp(1) l(1,2) sp(2), of "fl_count ?fb"] l(3) obtain s' where
    f: "sacClassFlush_loop pool (bs ! k) (fl_count ?fb) (fl_blocks ?fb) s = Some (0, s')"
      "pok s' (cached bs (bl(k := [])) \<union> held_blocks bs (PoolAlignment pool) held)"
      "\<forall>a \<in> fst ` (cached bs (bl(k := [])) \<union> held_blocks bs (PoolAlignment pool) held). peek pool s' a = peek pool s a"
    by auto
  let ?f = "\<lambda>fb. fb\<lparr>fl_count := fl_count fb - fl_count ?fb, fl_blocks := 0\<rparr>"
  have w: "with_list sac ?i ?f = set_class sac k 0 0" by (intro with_list_set_class) simp
  have "sacClassFlush pool sac s ?i (bs ! k) (fl_count ?fb) = Some (set_class sac k 0 0, s')"
    using f(1) slot unfolding w [symmetric] by (simp add: sacClassFlush_def)
  moreover have "fl_blocks (freelists (set_class sac k 0 0) ! ?i) = 0" using slot by (simp add: set_class_list)
  ultimately have "SACFlush_class pool sac s ?i (bs ! k) = Some (set_class sac k 0 0, s')"
    using slot by (simp add: SACFlush_class_def)
  moreover have "sac_inv pool pok serves bs cm (bl(k := [])) held (set_class sac k (length ([] :: mword list)) 0) s'"
    by (rule sac_inv_join [OF i c]) (use f sp I in \<open>auto simp: image_Un\<close>)
  ultimately show ?thesis by auto
qed

lemma SACFlush_above_ok:
  "sac_inv pool pok serves bs cm bl held sac s \<Longrightarrow> middleIndex sac < j \<Longrightarrow> j + k = length bs \<Longrightarrow>
    \<exists>sac' s' bl'. SACFlush_above pool k (slot (middleIndex sac) j) sac s = Some (sac', s') \<and>
      sac_inv pool pok serves bs cm bl' held sac' s' \<and> middleIndex sac' = middleIndex sac \<and>
      (\<forall>i. bl' i = (if j \<le> i \<and> i < length bs then [] else bl i))"
proof (induction k arbitrary: j bl sac s)
  case 0
  then show ?case by (intro exI [of _ sac] exI [of _ s] exI [of _ bl]) auto
next
  case (Suc k)
  then have j: "j < length bs" by simp
  note sh = sac_shapeD(7,8) [OF Suc.prems(1) [unfolded sac_inv_def, THEN conjunct1], of j]
  have size: "fl_size (freelists sac ! slot (middleIndex sac) j) = bs ! j" using sh(2) j Suc.prems(2) by (simp add: list_size_def)
  obtain s1 where f: "SACFlush_class pool sac s (slot (middleIndex sac) j) (bs ! j) = Some (set_class sac j 0 0, s1)"
    "sac_inv pool pok serves bs cm (bl(j := [])) held (set_class sac j 0 0) s1"
    using SACFlush_class_ok [OF Suc.prems(1) j] by blast
  have m: "middleIndex (set_class sac j 0 0) < Suc j" "Suc j + k = length bs" using Suc.prems by simp_all
  from Suc.IH [OF f(2) this] obtain sac' s' bl' where
    r: "SACFlush_above pool k (slot (middleIndex sac) (Suc j)) (set_class sac j 0 0) s1 = Some (sac', s')"
      "sac_inv pool pok serves bs cm bl' held sac' s'" "middleIndex sac' = middleIndex sac"
      "\<forall>i. bl' i = (if Suc j \<le> i \<and> i < length bs then [] else (bl(j := [])) i)"
    by auto
  have "SACFlush_above pool (Suc k) (slot (middleIndex sac) j) sac s = Some (sac', s')"
    using f(1) r(1) size sh(1) j slot_up [OF Suc.prems(2)] by simp
  moreover have "\<forall>i. bl' i = (if j \<le> i \<and> i < length bs then [] else bl i)" using r(4) j by auto
  ultimately show ?case using r(2,3) by blast
qed

lemma SACFlush_below_ok:
  "sac_inv pool pok serves bs cm bl held sac s \<Longrightarrow> j \<le> middleIndex sac \<Longrightarrow>
    \<exists>sac' s' bl'. SACFlush_below pool j (slot (middleIndex sac) j) (bs ! j) sac s = Some (slot (middleIndex sac) 0, bs ! 0, sac', s') \<and>
      sac_inv pool pok serves bs cm bl' held sac' s' \<and> middleIndex sac' = middleIndex sac \<and>
      (\<forall>i. bl' i = (if 0 < i \<and> i \<le> j then [] else bl i))"
proof (induction j arbitrary: bl sac s)
  case 0
  then show ?case by (intro exI [of _ sac] exI [of _ s] exI [of _ bl]) auto
next
  case (Suc j)
  note sh = sac_shapeD(5,7,8) [OF Suc.prems(1) [unfolded sac_inv_def, THEN conjunct1]]
  have j: "Suc j < length bs" using sh(1) Suc.prems(2) by simp
  obtain s1 where f: "SACFlush_class pool sac s (slot (middleIndex sac) (Suc j)) (bs ! Suc j) = Some (set_class sac (Suc j) 0 0, s1)"
    "sac_inv pool pok serves bs cm (bl(Suc j := [])) held (set_class sac (Suc j) 0 0) s1"
    using SACFlush_class_ok [OF Suc.prems(1) j] by blast
  have slot: "slot (middleIndex sac) (Suc j) < length (freelists sac)" using sh(2) [of "Suc j"] j by simp
  have size: "fl_size (freelists (set_class sac (Suc j) 0 0) ! slot (middleIndex sac) (Suc j)) = bs ! j"
    using sh(3) [of "Suc j"] j Suc.prems(2) slot by (simp add: list_size_def set_class_list)
  have "j \<le> middleIndex (set_class sac (Suc j) 0 0)" using Suc.prems(2) by simp
  from Suc.IH [OF f(2) this] obtain sac' s' bl' where
    r: "SACFlush_below pool j (slot (middleIndex sac) j) (bs ! j) (set_class sac (Suc j) 0 0) s1 =
        Some (slot (middleIndex sac) 0, bs ! 0, sac', s')"
      "sac_inv pool pok serves bs cm bl' held sac' s'" "middleIndex sac' = middleIndex sac"
      "\<forall>i. bl' i = (if 0 < i \<and> i \<le> j then [] else (bl(Suc j := [])) i)"
    by auto
  have "SACFlush_below pool (Suc j) (slot (middleIndex sac) (Suc j)) (bs ! Suc j) sac s = Some (slot (middleIndex sac) 0, bs ! 0, sac', s')"
    using f(1) r(1) size slot slot_down [OF Suc.prems(2)] by simp
  moreover have "\<forall>i. bl' i = (if 0 < i \<and> i \<le> Suc j then [] else bl i)" using r(4) by auto
  ultimately show ?case using r(2,3) by blast
qed

lemma SACFlush_ok:
  assumes i: "sac_inv pool pok serves bs cm bl held sac s"
  shows "\<exists>sac' s'. SACFlush pool sac s = Some (sac', s') \<and> sac_inv pool pok serves bs cm (\<lambda>k. []) held sac' s' \<and>
    middleIndex sac' = middleIndex sac"
proof -
  let ?m = "middleIndex sac"
  note sh = sac_shapeD(4-6) [OF i [unfolded sac_inv_def, THEN conjunct1]]
  have "Suc ?m + (length bs - Suc ?m) = length bs" "?m < Suc ?m" using sh(2) by simp_all
  from SACFlush_above_ok [OF i this(2,1)] obtain sac1 s1 bl1 where
    a: "SACFlush_above pool (length bs - Suc ?m) (slot ?m (Suc ?m)) sac s = Some (sac1, s1)"
      "sac_inv pool pok serves bs cm bl1 held sac1 s1" "middleIndex sac1 = ?m"
      "\<forall>i. bl1 i = (if Suc ?m \<le> i \<and> i < length bs then [] else bl i)" by blast
  note sh1 = sac_shapeD(4-6) [OF a(2) [unfolded sac_inv_def, THEN conjunct1]]
  from SACFlush_below_ok [OF a(2), of ?m] a(3) obtain sac2 s2 bl2 where
    b: "SACFlush_below pool ?m (slot ?m ?m) (bs ! ?m) sac1 s1 = Some (slot ?m 0, bs ! 0, sac2, s2)"
      "sac_inv pool pok serves bs cm bl2 held sac2 s2" "middleIndex sac2 = ?m"
      "\<forall>i. bl2 i = (if 0 < i \<and> i \<le> ?m then [] else bl1 i)" by auto
  have n: "0 < length bs" using sh(2) by auto
  obtain s3 where c: "SACFlush_class pool sac2 s2 (slot ?m 0) (bs ! 0) = Some (set_class sac2 0 0 0, s3)"
    "sac_inv pool pok serves bs cm (bl2(0 := [])) held (set_class sac2 0 0 0) s3"
    using SACFlush_class_ok [OF b(2) n] b(3) by auto
  have "\<forall>k < length bs. (bl2(0 := [])) k = []" using a(4) b(4) by auto
  then have "sac_inv pool pok serves bs cm (\<lambda>k. []) held (set_class sac2 0 0 0) s3"
    using c(2) unfolding sac_inv_def cached_def by simp
  moreover have "SACFlush pool sac s = Some (set_class sac2 0 0 0, s3)"
    using inv_SACCheck [OF i] a(1,3) b(1) c(1) sh sh1 by (simp add: SACFlush_def slot_0)
  ultimately show ?thesis using b(3) by auto
qed

lemma SACDestroy_ok:
  assumes i: "sac_inv pool pok serves bs cm bl held sac s"
  shows "\<exists>s'. SACDestroy pool sac s = Some (s', sacSize (middleIndex sac) (length bs)) \<and> pok s' (held_blocks bs (PoolAlignment pool) held)"
proof -
  obtain sac' s' where f: "SACFlush pool sac s = Some (sac', s')" "sac_inv pool pok serves bs cm (\<lambda>k. []) held sac' s'"
    "middleIndex sac' = middleIndex sac" using SACFlush_ok [OF i] by blast
  have "classesCount sac' = length bs" by (rule sac_shapeD(4) [OF f(2) [unfolded sac_inv_def, THEN conjunct1]])
  then show ?thesis using f inv_SACCheck [OF i] by (simp add: SACDestroy_def sac_inv_def cached_def)
qed

end

subsection \<open>What creation makes\<close>

lemma SACCreate_check_iff:
  "SACCreate_check al prev cs = Some () \<longleftrightarrow>
    sorted_wrt (<) (prev # map blockSize cs) \<and> (\<forall>c \<in> set cs. WordIsAligned (blockSize c) al)"
proof (induction cs arbitrary: prev)
  case Nil
  then show ?case by simp
next
  case (Cons c cs)
  have "0 < blockSize c" if "prev < blockSize c" using that word_neq_0_conv by fastforce
  then show ?case using Cons by (auto simp: aver_bind)
qed

definition freq_sum :: "SACClassesStruct list \<Rightarrow> nat" where
  "freq_sum cs = sum_list (map (\<lambda>c. unat (frequency c)) cs)"

lemma SACCreate_total_ok:
  "unat t + freq_sum cs < 2 ^ 32 \<Longrightarrow> \<exists>t'. SACCreate_total t cs = Some t' \<and> unat t' = unat t + freq_sum cs"
proof (induction cs arbitrary: t)
  case Nil
  then show ?case by (simp add: freq_sum_def)
next
  case (Cons c cs)
  have "unat (t + frequency c) = unat t + unat (frequency c)"
    using Cons.prems by (intro unat_add_lem [THEN iffD1]) (simp add: freq_sum_def)
  moreover have "t \<le> t + frequency c" using calculation by (simp add: word_le_nat_alt)
  ultimately show ?case using Cons.IH [of "t + frequency c"] Cons.prems by (simp add: freq_sum_def aver_bind add.assoc)
qed

lemma SACCreate_find_ok:
  "unat t < freq_sum cs \<Longrightarrow> \<exists>j t'. SACCreate_find i t cs = (i + j, t') \<and> j < length cs \<and>
    unat t = freq_sum (take j cs) + unat t' \<and> unat t' < unat (frequency (cs ! j))"
proof (induction cs arbitrary: i t)
  case Nil
  then show ?case by (simp add: freq_sum_def)
next
  case (Cons c cs)
  show ?case
  proof (cases "t < frequency c")
    case True
    then show ?thesis by (intro exI [of _ 0] exI [of _ t]) (simp add: freq_sum_def word_less_nat_alt)
  next
    case False
    then have le: "unat (frequency c) \<le> unat t" by (simp add: word_less_nat_alt)
    then have u: "unat (t - frequency c) = unat t - unat (frequency c)" by (simp add: unat_sub word_le_nat_alt)
    then have "unat (t - frequency c) < freq_sum cs" using Cons.prems le by (simp add: freq_sum_def)
    from Cons.IH [OF this, of "i + 1"] obtain j t' where
      "SACCreate_find (i + 1) (t - frequency c) cs = (i + 1 + j, t')" "j < length cs"
      "unat (t - frequency c) = freq_sum (take j cs) + unat t'" "unat t' < unat (frequency (cs ! j))" by blast
    then show ?thesis using False u le by (intro exI [of _ "Suc j"] exI [of _ t']) (simp add: freq_sum_def)
  qed
qed

lemma SACCreate_find_none: "freq_sum cs = 0 \<Longrightarrow> SACCreate_find i 0 cs = (i + length cs, 0)"
proof (induction cs arbitrary: i)
  case Nil
  then show ?case by simp
next
  case (Cons c cs)
  then have "frequency c = 0" by (simp add: freq_sum_def unat_eq_0)
  then show ?case using Cons by (simp add: freq_sum_def)
qed

text \<open>
  The middle class: no other boundary between classes divides the frequencies more evenly.
\<close>

definition most_even :: "SACClassesStruct list \<Rightarrow> nat \<Rightarrow> bool" where
  "most_even cs m \<longleftrightarrow> m < length cs \<and> (\<forall>k \<le> length cs.
     \<bar>int (freq_sum (take m cs)) - int (freq_sum cs div 2)\<bar> \<le> \<bar>int (freq_sum (take k cs)) - int (freq_sum cs div 2)\<bar>)"

lemma freq_sum_mono: "j \<le> k \<Longrightarrow> freq_sum (take j cs) \<le> freq_sum (take k cs)"
proof -
  assume "j \<le> k"
  then have "take k cs = take j cs @ drop j (take k cs)" by (metis append_take_drop_id min.absorb1 take_take)
  then show ?thesis by (metis freq_sum_def le_add1 map_append sum_list_append)
qed

lemma freq_sum_Suc: "j < length cs \<Longrightarrow> freq_sum (take (Suc j) cs) = freq_sum (take j cs) + unat (frequency (cs ! j))"
  by (simp add: take_Suc_conv_app_nth freq_sum_def)

lemma most_even_middle:
  assumes h: "freq_sum cs div 2 = freq_sum (take j cs) + t" and t: "t < unat (frequency (cs ! j))" and j: "j < length cs"
  shows "most_even cs (if t \<le> unat (frequency (cs ! j)) div 2 then j else j + 1)"
proof -
  let ?S = "\<lambda>k. freq_sum (take k cs)"
  obtain f where f: "unat (frequency (cs ! j)) = f" by simp
  note t = t [unfolded f]
  have Sj: "?S (Suc j) = ?S j + f" using freq_sum_Suc [OF j] f by simp
  have low: "?S k \<le> ?S j" if "k \<le> j" for k by (rule freq_sum_mono [OF that])
  have high: "?S (Suc j) \<le> ?S k" if "Suc j \<le> k" for k by (rule freq_sum_mono [OF that])
  have all: "?S (length cs) = freq_sum cs" by simp
  show ?thesis
  proof (cases "t \<le> f div 2")
    case True
    have "\<bar>int (?S j) - int (freq_sum cs div 2)\<bar> \<le> \<bar>int (?S k) - int (freq_sum cs div 2)\<bar>" for k
      using low [of k] high [of k] h t Sj True by (cases "k \<le> j") auto
    then show ?thesis using True j f by (simp add: most_even_def)
  next
    case False
    have "Suc j \<noteq> length cs"
    proof
      assume "Suc j = length cs"
      then have "freq_sum cs = ?S j + f" using Sj all by simp
      then show False using h t False by linarith
    qed
    moreover have "\<bar>int (?S (Suc j)) - int (freq_sum cs div 2)\<bar> \<le> \<bar>int (?S k) - int (freq_sum cs div 2)\<bar>" for k
      using low [of k] high [of k] h t Sj False by (cases "k \<le> j") auto
    ultimately show ?thesis using False j f by (simp add: most_even_def)
  qed
qed

definition new_list :: "SACClassesStruct list \<Rightarrow> nat \<Rightarrow> nat \<Rightarrow> SACFreeListBlockStruct" where
  "new_list cs m k = \<lparr>fl_size = list_size (map blockSize cs) m k, fl_count = 0,
     fl_countMax = (if k < length cs then cachedCount (cs ! k) else 0), fl_blocks = 0\<rparr>"

lemma SACCreate_above_ok:
  "m < j \<Longrightarrow> j \<le> length cs \<Longrightarrow> \<forall>k \<le> length cs. slot m k < length fls \<Longrightarrow>
    \<exists>fls'. SACCreate_above (drop j cs) (slot m j) fls = Some (slot m (length cs), fls') \<and> length fls' = length fls \<and>
      (\<forall>k. j \<le> k \<and> k < length cs \<longrightarrow> fls' ! slot m k = new_list cs m k) \<and> (\<forall>k. k < j \<longrightarrow> fls' ! slot m k = fls ! slot m k)"
proof (induction "length cs - j" arbitrary: j fls)
  case 0
  then show ?case by auto
next
  case (Suc d)
  then have j: "j < length cs" by simp
  have new: "\<lparr>fl_size = blockSize (cs ! j), fl_count = 0, fl_countMax = cachedCount (cs ! j), fl_blocks = 0\<rparr> = new_list cs m j"
    using j Suc.prems(1) by (simp add: new_list_def list_size_def)
  let ?fls = "fls[slot m j := new_list cs m j]"
  have "d = length cs - Suc j" "m < Suc j" "Suc j \<le> length cs" "\<forall>k \<le> length cs. slot m k < length ?fls"
    using Suc.hyps(2) Suc.prems j by simp_all
  from Suc.hyps(1) [OF this] obtain fls' where r: "SACCreate_above (drop (Suc j) cs) (slot m (Suc j)) ?fls = Some (slot m (length cs), fls')"
    "length fls' = length fls" "\<forall>k. Suc j \<le> k \<and> k < length cs \<longrightarrow> fls' ! slot m k = new_list cs m k"
    "\<forall>k. k < Suc j \<longrightarrow> fls' ! slot m k = ?fls ! slot m k" by auto
  have "SACCreate_above (drop j cs) (slot m j) fls = Some (slot m (length cs), fls')"
    using r(1) Suc.prems(3) j new slot_up [OF Suc.prems(1)] by (simp add: Cons_nth_drop_Suc [symmetric])
  moreover have "fls' ! slot m j = new_list cs m j" using r(4) Suc.prems(3) j by simp
  moreover have "\<forall>k. k < j \<longrightarrow> fls' ! slot m k = fls ! slot m k" using r(4) by (simp add: slot_eq_iff)
  ultimately show ?case using r(2,3) by (metis Suc_leI le_neq_implies_less)
qed

lemma SACCreate_below_ok:
  "j \<le> m \<Longrightarrow> m < length cs \<Longrightarrow> \<forall>k \<le> length cs. slot m k < length fls \<Longrightarrow>
    \<exists>fls'. SACCreate_below cs j (slot m j) fls = Some (slot m 0, fls') \<and> length fls' = length fls \<and>
      (\<forall>k. 0 < k \<and> k \<le> j \<longrightarrow> fls' ! slot m k = new_list cs m k) \<and> (\<forall>k. j < k \<longrightarrow> fls' ! slot m k = fls ! slot m k)"
proof (induction j arbitrary: fls)
  case 0
  then show ?case by simp
next
  case (Suc j)
  then have j: "Suc j < length cs" by simp
  have new: "\<lparr>fl_size = blockSize (cs ! j), fl_count = 0, fl_countMax = cachedCount (cs ! Suc j), fl_blocks = 0\<rparr> = new_list cs m (Suc j)"
    using j Suc.prems(1) by (simp add: new_list_def list_size_def)
  let ?fls = "fls[slot m (Suc j) := new_list cs m (Suc j)]"
  have "j \<le> m" "\<forall>k \<le> length cs. slot m k < length ?fls" using Suc.prems by simp_all
  from Suc.IH [OF this(1) Suc.prems(2) this(2)] obtain fls' where r: "SACCreate_below cs j (slot m j) ?fls = Some (slot m 0, fls')"
    "length fls' = length fls" "\<forall>k. 0 < k \<and> k \<le> j \<longrightarrow> fls' ! slot m k = new_list cs m k"
    "\<forall>k. j < k \<longrightarrow> fls' ! slot m k = ?fls ! slot m k" by auto
  have "SACCreate_below cs (Suc j) (slot m (Suc j)) fls = Some (slot m 0, fls')"
    using r(1) Suc.prems(3) j new slot_down [OF Suc.prems(1)] by simp
  moreover have "fls' ! slot m (Suc j) = new_list cs m (Suc j)" using r(4) Suc.prems(3) j by simp
  moreover have "\<forall>k. Suc j < k \<longrightarrow> fls' ! slot m k = fls ! slot m k" using r(4) by (simp add: slot_eq_iff)
  ultimately show ?case using r(2,3) by (metis le_SucE)
qed

lemma slot_le_indexMax: "k \<le> n \<Longrightarrow> m < n \<Longrightarrow> slot m k \<le> sac_indexMax m n"
  by (auto simp: slot_def sac_indexMax_def)

lemma sacSize_count: "(sacSize m n - sac_header_size) div sac_block_size = sac_indexMax m n + 1"
  by (simp add: sacSize_def sac_header_size_def sac_block_size_def)

lemma SizeMAX_unaligned: "WordIsAligned b al \<Longrightarrow> al \<noteq> 1 \<Longrightarrow> b < SizeMAX"
  using word_order.not_eq_extremum [of b] by (auto simp: WordIsAligned_def SizeMAX_def)

definition sac_classes_ok :: "mword \<Rightarrow> SACClassesStruct list \<Rightarrow> bool" where
  "sac_classes_ok al cs \<longleftrightarrow> cs \<noteq> [] \<and> sorted_wrt (<) (3 # map blockSize cs) \<and> (\<forall>c \<in> set cs. WordIsAligned (blockSize c) al) \<and>
     freq_sum cs < 2 ^ 32"

lemma SACCreate_ok:
  fixes pool :: "'s pool_methods"
  assumes ok: "sac_classes_ok (PoolAlignment pool) cs" and al: "PoolAlignment pool \<noteq> 1" and freq: "0 < freq_sum cs"
  shows "\<exists>sac. SACCreate pool s cs answer junk = Some (if answer = ResOK then Inr sac else Inl answer) \<and>
    sac_shape (map blockSize cs) (map cachedCount cs) sac \<and> most_even cs (middleIndex sac) \<and>
    (\<forall>k < length cs. freelists sac ! slot (middleIndex sac) k = new_list cs (middleIndex sac) k) \<and> SACCheck pool s sac = Some ()"
proof -
  let ?n = "length cs" and ?bs = "map blockSize cs"
  have check: "SACCreate_check (PoolAlignment pool) (4 - 1) cs = Some ()" using ok by (simp add: SACCreate_check_iff sac_classes_ok_def)
  have n: "0 < ?n" using ok by (simp add: sac_classes_ok_def)
  obtain t where t: "SACCreate_total 0 cs = Some t" "unat t = freq_sum cs"
    using SACCreate_total_ok [of 0 cs] ok by (auto simp: sac_classes_ok_def)
  have half: "unat (t div 2) = freq_sum cs div 2" using t(2) by (simp add: unat_div)
  then have "unat (t div 2) < freq_sum cs" using freq by simp
  from SACCreate_find_ok [OF this, of 0] obtain i r where
    f: "SACCreate_find 0 (t div 2) cs = (i, r)" "i < ?n" "freq_sum cs div 2 = freq_sum (take i cs) + unat r" "unat r < unat (frequency (cs ! i))"
    using half by auto
  define m where "m = (if r \<le> frequency (cs ! i) div 2 then i else i + 1)"
  have "r \<le> frequency (cs ! i) div 2 \<longleftrightarrow> unat r \<le> unat (frequency (cs ! i)) div 2" by (simp add: word_le_nat_alt unat_div)
  then have even: "most_even cs m" using most_even_middle [OF f(3,4,2)] by (simp add: m_def)
  then have m: "m < ?n" by (simp add: most_even_def)
  let ?fls = "replicate (sac_indexMax m ?n + 1) junk"
  have slots: "\<forall>k \<le> ?n. slot m k < length ?fls" using slot_le_indexMax [OF _ m] by (simp add: less_Suc_eq_le)
  obtain fls1 where a: "SACCreate_above (drop (m + 1) cs) 0 ?fls = Some (slot m ?n, fls1)" "length fls1 = length ?fls"
    "\<forall>k. Suc m \<le> k \<and> k < ?n \<longrightarrow> fls1 ! slot m k = new_list cs m k"
    using SACCreate_above_ok [of m "Suc m" cs ?fls] m slots by (auto simp: slot_0)
  have over: "\<lparr>fl_size = SizeMAX, fl_count = 0, fl_countMax = 0, fl_blocks = 0\<rparr> = new_list cs m ?n"
    by (simp add: new_list_def list_size_def)
  let ?fls1 = "fls1[slot m ?n := new_list cs m ?n]"
  have slots1: "\<forall>k \<le> ?n. slot m k < length ?fls1" using slots a(2) by simp
  obtain fls2 where b: "SACCreate_below cs m 1 ?fls1 = Some (slot m 0, fls2)" "length fls2 = length fls1"
    "\<forall>k. 0 < k \<and> k \<le> m \<longrightarrow> fls2 ! slot m k = new_list cs m k" "\<forall>k. m < k \<longrightarrow> fls2 ! slot m k = ?fls1 ! slot m k"
    using SACCreate_below_ok [of m m cs ?fls1] m slots1 by (auto simp: slot_0)
  have small: "\<lparr>fl_size = 0, fl_count = 0, fl_countMax = cachedCount (cs ! 0), fl_blocks = 0\<rparr> = new_list cs m 0"
    using n by (auto simp: new_list_def list_size_def)
  define sac where "sac = \<lparr>classesCount = ?n, middleIndex = m, middle = blockSize (cs ! m), trapped = False,
    freelists = fls2[slot m 0 := new_list cs m 0]\<rparr>"
  have sf: "middleIndex sac = m" "classesCount sac = ?n" "middle sac = ?bs ! m" using m by (simp_all add: sac_def)
  have len: "slot m k < length (freelists sac)" if "k \<le> ?n" for k using slots1 b(2) that by (simp add: sac_def)
  have all: "freelists sac ! slot m k = new_list cs m k" if k: "k \<le> ?n" for k
  proof (cases "k = 0")
    case True
    then show ?thesis using len [of 0] by (simp add: sac_def)
  next
    case False
    then have "freelists sac ! slot m k = fls2 ! slot m k" by (simp add: sac_def slot_eq_iff)
    moreover have "fls2 ! slot m k = new_list cs m k" if "k \<le> m" using b(3) that False by blast
    moreover have "fls2 ! slot m k = new_list cs m k" if "m < k" "k < ?n" using b(4) a(3) that by (simp add: slot_eq_iff)
    moreover have "fls2 ! slot m k = new_list cs m k" if "m < k" "k = ?n" using b(4) slots1 that by simp
    ultimately show ?thesis using k by (cases "k \<le> m"; cases "k = ?n") simp_all
  qed
  have shape: "sac_shape ?bs (map cachedCount cs) sac"
  proof -
    have "sorted_wrt (<) ?bs" "\<forall>b \<in> set ?bs. 0 < b \<and> b < SizeMAX"
      using ok al SizeMAX_unaligned word_neq_0_conv by (fastforce simp: sac_classes_ok_def)+
    then show ?thesis unfolding sac_shape_def Let_def using m len all by (simp add: sf new_list_def)
  qed
  have "SACCheck pool s sac = Some ()"
  proof (rule SACCheck_ok [OF shape sf(1) [symmetric]])
    fix k assume "k \<le> length ?bs"
    then show "sacFreeListBlockCheck pool s (freelists sac ! slot m k)" using all by (simp add: sacFreeListBlockCheck_def new_list_def)
  qed
  moreover have "SACCreate pool s cs answer junk = Some (if answer = ResOK then Inr sac else Inl answer)"
  proof -
    have "slot m 0 < length fls2" "slot m ?n < length fls1" using slots1 b(2) by simp_all
    then show ?thesis unfolding SACCreate_def using check n t f(1,2) m a(1) b(1) calculation
      by (simp add: Let_def m_def [symmetric] sacSize_count over small sac_def [symmetric] del: One_nat_def)
  qed
  ultimately show ?thesis using shape even all sf(1) by auto
qed

lemma SACCreate_unweighted:
  assumes "sac_classes_ok (PoolAlignment pool) cs" and "freq_sum cs = 0"
  shows "SACCreate pool s cs answer junk = None"
proof -
  obtain t where "SACCreate_total 0 cs = Some t" "unat t = 0"
    using SACCreate_total_ok [of 0 cs] assms by (auto simp: sac_classes_ok_def)
  then have "SACCreate_total 0 cs = Some 0" by (simp add: unat_eq_0)
  moreover have "SACCreate_check (PoolAlignment pool) (4 - 1) cs = Some ()"
    using assms(1) by (simp add: SACCreate_check_iff sac_classes_ok_def)
  ultimately show ?thesis using SACCreate_find_none [OF assms(2), of 0] by (simp add: SACCreate_def rd_def)
qed

subsection \<open>A pool of fixed small units behind a cache\<close>

text \<open>The words of free blocks and of cached blocks are the same memory. An address is in the pool when it is in one of its extents.\<close>

definition MFSHasAddr :: "MFSStruct \<Rightarrow> mword \<Rightarrow> bool" where
  "MFSHasAddr m a = (case MFSFinish m of None \<Rightarrow> False | Some es \<Rightarrow> list_ex (\<lambda>(b, z). b \<le> a \<and> a < b + z) es)"

definition mfs_methods :: "(MFSStruct \<times> arena_answers) pool_methods" where
  "mfs_methods = \<lparr>alloc_method = (\<lambda>p z permit. MFSAlloc (fst p) z (snd p)),
     free_method = (\<lambda>p a z. map_option (\<lambda>m. (m, snd p)) (MFSFree (fst p) a z)),
     PoolHasAddr = (\<lambda>p a. MFSHasAddr (fst p) a), PoolAlignment = MPS_PF_ALIGN, peek = (\<lambda>p. next_of (fst p)),
     poke = (\<lambda>p a v. ((fst p)\<lparr>next_of := (next_of (fst p))(a := v)\<rparr>, snd p))\<rparr>"

definition mfs_serving :: "mword \<Rightarrow> MFSStruct \<times> arena_answers \<Rightarrow> (mword \<times> mword) set \<Rightarrow> bool" where
  "mfs_serving u p live \<longleftrightarrow> pool_inv p (fst ` live) \<and> unroundedUnitSize (fst p) = u \<and> 0 < u \<and> (\<forall>x \<in> live. snd x = u)"

lemma MFSHasAddr_unit:
  assumes "mfs_inv m es fs live" and "a \<in> live"
  shows "MFSHasAddr m a"
proof -
  note i = assms(1) [unfolded mfs_inv_def]
  obtain b where b: "b \<in> set es" "a \<in> units_of m b" using i assms(2) by blast
  then have ob: "extent_ok (extendBy m) b" using i by (simp add: extents_ok_def)
  note p = unit_addr_props [OF _ ob b(2)]
  have "0 < unat (unitSize m)" using i by (simp add: mfs_wf_def word_less_nat_alt)
  then have "unat a < unat b + unat (extendBy m)" "unat b \<le> unat a" using p(3,4) i by auto
  moreover have "unat (b + extendBy m) = unat b + unat (extendBy m)" using ob by (simp add: extent_ok_def unat_word_ariths)
  ultimately have "b \<le> a \<and> a < b + extendBy m" by (simp add: word_le_nat_alt word_less_nat_alt)
  then show ?thesis using MFSFinish_ok [of m "tractList m" es] i b(1) by (auto simp: MFSHasAddr_def MFSFinish_def list_ex_iff)
qed

lemma mfs_inv_poke: "mfs_inv m es fs live \<Longrightarrow> a \<in> live \<Longrightarrow> mfs_inv (m\<lparr>next_of := (next_of m)(a := v)\<rparr>) es fs live"
proof -
  assume i: "mfs_inv m es fs live" and a: "a \<in> live"
  have sz: "same_sizes m (m\<lparr>next_of := (next_of m)(a := v)\<rparr>)" by (simp add: same_sizes_def)
  have "a \<notin> set fs" using i a unfolding mfs_inv_def by blast
  then show ?thesis using i chain_upd [of a fs "next_of m"] same_sizesD [OF sz] unfolding mfs_inv_def by simp
qed

interpretation mfs_pool: pool_contract mfs_methods "mfs_serving u" "\<lambda>z. z = u \<and> 0 < u" for u
proof
  fix p live and z :: mword and permit
  assume s: "mfs_serving u p live" and z: "z = u \<and> 0 < u"
  then obtain es fs where i: "mfs_inv (fst p) es fs (fst ` live)" "arena_ok (extendBy (fst p)) es (snd p)"
    by (auto simp: mfs_serving_def pool_inv_def)
  obtain res a m' answers' es' fs' where r: "MFSAlloc (fst p) (unroundedUnitSize (fst p)) (snd p) = Some (res, a, m', answers')"
    "mfs_inv m' es' fs' (if res = ResOK then insert a (fst ` live) else fst ` live)" "arena_ok (extendBy m') es' answers'"
    "same_sizes (fst p) m'" "res = ResOK \<longrightarrow> a \<notin> fst ` live" "\<forall>x \<in> fst ` live. next_of m' x = next_of (fst p) x"
    using MFSAlloc_ok [OF i] by (elim exE conjE) (rule that)
  have "pool_inv (m', answers') (if res = ResOK then insert a (fst ` live) else fst ` live)"
    unfolding pool_inv_def fst_conv snd_conv using r(2,3) by blast
  moreover have "unroundedUnitSize m' = u" using r(4) s by (simp add: same_sizes_def mfs_serving_def)
  ultimately have "mfs_serving u (m', answers') (if res = ResOK then insert (a, z) live else live)"
    using s z by (simp add: mfs_serving_def split: if_splits)
  then show "\<exists>res a s'. alloc_method mfs_methods p z permit = Some (res, a, s') \<and>
      mfs_serving u s' (if res = ResOK then insert (a, z) live else live) \<and> (res = ResOK \<longrightarrow> a \<notin> fst ` live) \<and>
      (\<forall>x \<in> fst ` live. peek mfs_methods s' x = peek mfs_methods p x)"
    using r(1,5,6) s z by (intro exI [of _ res] exI [of _ a] exI [of _ "(m', answers')"]) (auto simp: mfs_methods_def mfs_serving_def)
next
  fix p live and a z :: mword
  assume s: "mfs_serving u p live" and a: "(a, z) \<in> live"
  then obtain es fs where i: "mfs_inv (fst p) es fs (fst ` live)" "arena_ok (extendBy (fst p)) es (snd p)"
    by (auto simp: mfs_serving_def pool_inv_def)
  have z: "z = u" "unroundedUnitSize (fst p) = u" using s a by (auto simp: mfs_serving_def)
  have al: "a \<in> fst ` live" using a by force
  obtain m' where f: "MFSFree (fst p) a (unroundedUnitSize (fst p)) = Some m'" "mfs_inv m' es (a # fs) (fst ` live - {a})" "same_sizes (fst p) m'"
    using MFSFree_ok [OF i(1) al] by blast
  have "fst ` (live - {(a, z)}) = fst ` live - {a}" using s z(1) by (force simp: mfs_serving_def)
  then have "mfs_serving u (m', snd p) (live - {(a, z)})"
    using s f(2,3) i(2) unfolding mfs_serving_def pool_inv_def same_sizes_def by auto
  moreover have "\<forall>x \<in> fst ` live - {a}. next_of m' x = next_of (fst p) x"
    using f(1) by (auto simp: MFSFree_def run_iff split: if_splits)
  ultimately show "\<exists>s'. free_method mfs_methods p a z = Some s' \<and> mfs_serving u s' (live - {(a, z)}) \<and>
      (\<forall>x \<in> fst ` live - {a}. peek mfs_methods s' x = peek mfs_methods p x)"
    using f(1) z by (intro exI [of _ "(m', snd p)"]) (simp add: mfs_methods_def)
next
  fix p live and a v :: mword
  assume "mfs_serving u p live" and "a \<in> fst ` live"
  then show "mfs_serving u (poke mfs_methods p a v) live"
    using mfs_inv_poke by (fastforce simp: mfs_serving_def pool_inv_def mfs_methods_def)
next
  fix p and a v b :: mword
  show "peek mfs_methods (poke mfs_methods p a v) b = (if b = a then v else peek mfs_methods p b)"
    by (simp add: mfs_methods_def)
next
  fix p live and a z :: mword
  assume s: "mfs_serving u p live" and a: "(a, z) \<in> live"
  then obtain es fs where i: "mfs_inv (fst p) es fs (fst ` live)" by (auto simp: mfs_serving_def pool_inv_def)
  have al: "a \<in> fst ` live" using a by force
  obtain b where "b \<in> set es" "a \<in> units_of (fst p) b" using i al unfolding mfs_inv_def by blast
  then have "a \<noteq> 0" using i unit_addr_props(1) [of "fst p" b a] by (simp add: mfs_inv_def extents_ok_def)
  then show "a \<noteq> 0 \<and> z \<noteq> 0 \<and> PoolHasAddr mfs_methods p a"
    using MFSHasAddr_unit [OF i al] s a by (auto simp: mfs_methods_def mfs_serving_def)
next
  fix p live
  assume "mfs_serving u p live"
  then show "inj_on fst live" unfolding inj_on_def mfs_serving_def by (metis prod.collapse)
next
  fix z :: mword
  assume "z = u \<and> 0 < u"
  then show "z \<noteq> 0" by auto
qed

subsection \<open>A cache serving requests\<close>

datatype sac_request = SacAlloc mword bool | SacFree mword | SacFlush

text \<open>Clients free only the blocks they hold, with the sizes they asked for.\<close>

fun SACServe ::
  "'s pool_methods \<Rightarrow> sac_request list \<Rightarrow> SACStruct \<Rightarrow> 's \<Rightarrow> (mword \<rightharpoonup> mword) \<Rightarrow> (SACStruct \<times> 's \<times> (mword \<rightharpoonup> mword)) option" where
  "SACServe pool [] sac s held = Some (sac, s, held)"
| "SACServe pool (SacAlloc z permit # rs) sac s held = do {
     (res, p, sac, s) \<leftarrow> mps_sac_alloc pool sac s z permit;
     SACServe pool rs sac s (if res = ResOK then held(p \<mapsto> z) else held)
   }"
| "SACServe pool (SacFree p # rs) sac s held =
     (case held p of None \<Rightarrow> SACServe pool rs sac s held
      | Some z \<Rightarrow> do { (sac, s) \<leftarrow> mps_sac_free pool sac s p z; SACServe pool rs sac s (held(p := None)) })"
| "SACServe pool (SacFlush # rs) sac s held = do {
     (sac, s) \<leftarrow> SACFlush pool sac s;
     SACServe pool rs sac s held
   }"

context pool_contract
begin

lemma SACServe_ok:
  "sac_inv pool pok serves bs cm bl held sac s \<Longrightarrow>
    \<forall>z permit. SacAlloc z permit \<in> set requests \<longrightarrow> 0 < z \<and> serves (served_size bs (PoolAlignment pool) z) \<Longrightarrow>
    \<exists>sac' s' held' bl'. SACServe pool requests sac s held = Some (sac', s', held') \<and> sac_inv pool pok serves bs cm bl' held' sac' s'"
proof (induction requests arbitrary: sac s held bl)
  case Nil
  then show ?case by auto
next
  case (Cons r rs)
  have rest: "\<forall>z permit. SacAlloc z permit \<in> set rs \<longrightarrow> 0 < z \<and> serves (served_size bs (PoolAlignment pool) z)" using Cons.prems(2) by simp
  note IH = Cons.IH [OF _ rest]
  show ?case
  proof (cases r)
    case (SacAlloc z permit)
    then have z: "0 < z" "serves (served_size bs (PoolAlignment pool) z)" using Cons.prems(2) by auto
    from mps_sac_alloc_ok [OF Cons.prems(1) z, of permit]
    obtain res p sac' s' bl' where a: "mps_sac_alloc pool sac s z permit = Some (res, p, sac', s')"
      "sac_inv pool pok serves bs cm bl' (if res = ResOK then held(p \<mapsto> z) else held) sac' s'"
      by (elim exE conjE) (rule that, auto split: if_splits)
    then show ?thesis using IH [OF a(2)] SacAlloc by auto
  next
    case (SacFree p)
    show ?thesis
    proof (cases "held p")
      case None
      then show ?thesis using IH [OF Cons.prems(1)] SacFree by simp
    next
      case (Some z)
      obtain sac' s' bl' where f: "mps_sac_free pool sac s p z = Some (sac', s')"
        "sac_inv pool pok serves bs cm bl' (held(p := None)) sac' s'" using mps_sac_free_ok [OF Cons.prems(1) Some] by blast
      have "SACServe pool (r # rs) sac s held = SACServe pool rs sac' s' (held(p := None))" using f(1) Some SacFree by simp
      then show ?thesis using IH [OF f(2)] by (simp only:)
    qed
  next
    case SacFlush
    obtain sac' s' where f: "SACFlush pool sac s = Some (sac', s')" "sac_inv pool pok serves bs cm (\<lambda>k. []) held sac' s'"
      using SACFlush_ok [OF Cons.prems(1)] by blast
    then show ?thesis using IH [OF f(2)] SacFlush by simp
  qed
qed

lemma new_cache_inv:
  assumes "sac_shape (map blockSize cs) (map cachedCount cs) sac" and "pok s {}" and "\<forall>c \<in> set cs. serves (blockSize c)"
    and "\<forall>k < length cs. freelists sac ! slot (middleIndex sac) k = new_list cs (middleIndex sac) k"
  shows "sac_inv pool pok serves (map blockSize cs) (map cachedCount cs) (\<lambda>k. []) Map.empty sac s"
  using assms by (simp add: sac_inv_def cached_def held_blocks_def list_ok_def new_list_def)

end

text \<open>The size of the blocks that serve a request, and how many of them a cache may keep.\<close>

lemma find_size_smallest:
  assumes "sorted_wrt (<) (map blockSize cs)"
  shows "(\<exists>c \<in> set cs. z \<le> blockSize c \<and> find_size (map blockSize cs) z = blockSize c \<and> (\<forall>d \<in> set cs. z \<le> blockSize d \<longrightarrow> blockSize c \<le> blockSize d) \<and>
      cs ! class_index (map blockSize cs) z = c) \<or>
    ((\<forall>c \<in> set cs. blockSize c < z) \<and> class_index (map blockSize cs) z = length cs \<and> find_size (map blockSize cs) z = SizeMAX)"
proof -
  let ?bs = "map blockSize cs" and ?c = "class_index (map blockSize cs) z"
  note iff = class_index_le_iff [OF assms, of _ z, simplified]
  show ?thesis
  proof (cases "?c < length cs")
    case True
    have "blockSize (cs ! ?c) \<le> blockSize d" if d: "d \<in> set cs" "z \<le> blockSize d" for d
    proof -
      obtain k where k: "k < length cs" "d = cs ! k" using d(1) by (metis in_set_conv_nth)
      then have "?c \<le> k" using iff d(2) by simp
      then show ?thesis using k sorted_wrt_nth_less [OF assms, of ?c k] by (cases "?c = k") auto
    qed
    then show ?thesis using True iff [of ?c] by (auto simp: find_size_def)
  next
    case False
    then have c: "?c = length cs" using class_index_le [of ?bs z] by simp
    have "blockSize d < z" if d: "d \<in> set cs" for d
    proof -
      obtain k where "k < length cs" "d = cs ! k" using d by (metis in_set_conv_nth)
      then show ?thesis using iff [of k] c by (simp add: not_le [symmetric])
    qed
    then show ?thesis using c by (simp add: find_size_def)
  qed
qed

lemma SACCreate_result:
  assumes "sac_classes_ok (PoolAlignment pool) cs" and "PoolAlignment pool \<noteq> 1" and "SACCreate pool s cs ResOK junk = Some (Inr sac)"
  shows "sac_shape (map blockSize cs) (map cachedCount cs) sac"
    and "\<forall>k < length cs. freelists sac ! slot (middleIndex sac) k = new_list cs (middleIndex sac) k"
proof -
  have "0 < freq_sum cs" using SACCreate_unweighted [OF assms(1), of s ResOK junk] assms(3) by (cases "freq_sum cs = 0") auto
  from SACCreate_ok [OF assms(1,2) this, of s ResOK junk]
  show "sac_shape (map blockSize cs) (map cachedCount cs) sac"
    and "\<forall>k < length cs. freelists sac ! slot (middleIndex sac) k = new_list cs (middleIndex sac) k"
    using assms(3) by auto
qed

subsection \<open>Correctness\<close>

text \<open>
  C26: Creating a cache for classes of growing, aligned block sizes: a refusal of the control pool is passed
  on; otherwise the cache passes its check, every list is empty with the limit of its class, and the middle class is one
  that divides the frequencies most evenly. When all frequencies are zero, the search for the middle class reads beyond the classes.
\<close>

theorem SACCreate_correct:
  assumes "sac_classes_ok (PoolAlignment pool) cs" and "PoolAlignment pool \<noteq> 1"
  shows "if freq_sum cs = 0 then SACCreate pool s cs answer junk = None
    else if answer \<noteq> ResOK then SACCreate pool s cs answer junk = Some (Inl answer)
    else \<exists>sac. SACCreate pool s cs answer junk = Some (Inr sac) \<and> SACCheck pool s sac = Some () \<and>
      most_even cs (middleIndex sac) \<and> middle sac = blockSize (cs ! middleIndex sac) \<and>
      (\<forall>k < length cs. let fb = freelists sac ! slot (middleIndex sac) k in
        fl_count fb = 0 \<and> fl_blocks fb = 0 \<and> fl_countMax fb = cachedCount (cs ! k))"
proof (cases "freq_sum cs = 0")
  case True
  then show ?thesis using SACCreate_unweighted [OF assms(1)] by simp
next
  case False
  then obtain sac where r: "SACCreate pool s cs answer junk = Some (if answer = ResOK then Inr sac else Inl answer)"
    "sac_shape (map blockSize cs) (map cachedCount cs) sac" "most_even cs (middleIndex sac)"
    "\<forall>k < length cs. freelists sac ! slot (middleIndex sac) k = new_list cs (middleIndex sac) k" "SACCheck pool s sac = Some ()"
    using SACCreate_ok [OF assms, of s answer junk] by auto
  have "middle sac = blockSize (cs ! middleIndex sac)" using sac_shapeD(5,6) [OF r(2)] by simp
  then show ?thesis using r False by (auto simp: new_list_def Let_def)
qed

definition sample_classes :: "SACClassesStruct list" where
  "sample_classes = [\<lparr>blockSize = 8, cachedCount = 6, frequency = 2\<rparr>, \<lparr>blockSize = 16, cachedCount = 3, frequency = 5\<rparr>,
     \<lparr>blockSize = 40, cachedCount = 1, frequency = 1\<rparr>]"

lemma sample_classes_ok: "sac_classes_ok MPS_PF_ALIGN sample_classes" "freq_sum sample_classes = 8"
  by (simp_all add: sac_classes_ok_def sample_classes_def WordIsAligned_def MPS_PF_ALIGN_def freq_sum_def)

theorem SACCreate_correct_witness:
  "\<exists>sac. SACCreate mfs_methods (blank_mfs, []) sample_classes ResOK \<lparr>fl_size = 7, fl_count = 7, fl_countMax = 7, fl_blocks = 7\<rparr> =
    Some (Inr sac) \<and> most_even sample_classes (middleIndex sac)"
proof -
  have "PoolAlignment mfs_methods = MPS_PF_ALIGN" "MPS_PF_ALIGN \<noteq> 1" by (simp_all add: mfs_methods_def MPS_PF_ALIGN_def)
  then show ?thesis
    using SACCreate_correct [of mfs_methods sample_classes "(blank_mfs, [])" ResOK "\<lparr>fl_size = 7, fl_count = 7, fl_countMax = 7, fl_blocks = 7\<rparr>"]
      sample_classes_ok by auto
qed

text \<open>
  C25: In a new cache, the search of the client's macros, which has no assertions, and the search inside the cache find the
  same list for every size: that of the smallest blocks that are large enough, or the overlarge list, which keeps nothing.
\<close>

theorem sacFind_correct:
  assumes "sac_classes_ok (PoolAlignment pool) cs" and "PoolAlignment pool \<noteq> 1"
    and "SACCreate pool s cs ResOK junk = Some (Inr sac)" and "0 < z"
  shows "\<exists>i. mps_sac_find sac z = Some i \<and>
    ((\<exists>c \<in> set cs. z \<le> blockSize c \<and> (\<forall>d \<in> set cs. z \<le> blockSize d \<longrightarrow> blockSize c \<le> blockSize d) \<and>
        sacFind sac z = Some (i, blockSize c) \<and> fl_countMax (freelists sac ! i) = cachedCount c) \<or>
     (\<forall>c \<in> set cs. blockSize c < z) \<and> sacFind sac z = Some (i, SizeMAX) \<and> fl_countMax (freelists sac ! i) = 0)"
proof -
  let ?bs = "map blockSize cs" and ?m = "middleIndex sac"
  note r = SACCreate_result [OF assms(1-3)]
  note f = sacFind_ok [OF r(1) assms(4)] and sh = sac_shapeD(1,11) [OF r(1)]
  from find_size_smallest [OF sh(1), of z] show ?thesis
  proof
    assume "\<exists>c \<in> set cs. z \<le> blockSize c \<and> find_size ?bs z = blockSize c \<and> (\<forall>d \<in> set cs. z \<le> blockSize d \<longrightarrow> blockSize c \<le> blockSize d) \<and>
      cs ! class_index ?bs z = c"
    then obtain c where c: "c \<in> set cs" "z \<le> blockSize c" "find_size ?bs z = blockSize c"
      "\<forall>d \<in> set cs. z \<le> blockSize d \<longrightarrow> blockSize c \<le> blockSize d" "cs ! class_index ?bs z = c" by blast
    obtain k where "k < length cs" "c = cs ! k" using c(1) by (metis in_set_conv_nth)
    then have "class_index ?bs z < length cs" using class_index_le_iff [OF sh(1), of k z] c(2) by simp
    then have "fl_countMax (freelists sac ! slot ?m (class_index ?bs z)) = cachedCount c" using r(2) c(5) by (simp add: new_list_def)
    then show ?thesis using f c by auto
  next
    assume "(\<forall>c \<in> set cs. blockSize c < z) \<and> class_index ?bs z = length cs \<and> find_size ?bs z = SizeMAX"
    then show ?thesis using f sh(2) by auto
  qed
qed

theorem sacFind_correct_witness:
  "\<exists>sac i. SACCreate mfs_methods (blank_mfs, []) sample_classes ResOK \<lparr>fl_size = 7, fl_count = 7, fl_countMax = 7, fl_blocks = 7\<rparr> =
    Some (Inr sac) \<and> mps_sac_find sac 9 = Some i \<and> sacFind sac 9 = Some (i, 16) \<and> fl_countMax (freelists sac ! i) = 3"
proof -
  let ?junk = "\<lparr>fl_size = 7, fl_count = 7, fl_countMax = 7, fl_blocks = 7\<rparr>"
  have al: "PoolAlignment mfs_methods = MPS_PF_ALIGN" "MPS_PF_ALIGN \<noteq> 1" by (simp_all add: mfs_methods_def MPS_PF_ALIGN_def)
  obtain sac where sac: "SACCreate mfs_methods (blank_mfs, []) sample_classes ResOK ?junk = Some (Inr sac)"
    using SACCreate_ok [of mfs_methods sample_classes "(blank_mfs, [])" ResOK ?junk] sample_classes_ok al by auto
  have "sac_classes_ok (PoolAlignment mfs_methods) sample_classes" "PoolAlignment mfs_methods \<noteq> 1" using sample_classes_ok al by simp_all
  from sacFind_correct [OF this sac, of 9] show ?thesis using sac by (auto simp: sample_classes_def)
qed

text \<open>
  C7: A cache in front of any pool that keeps the contract, from its creation through any sequence of allocations, frees and
  flushes by clients: no assertion fails; every block that the pool has handed out is in the hands of one client or once
  in one list of the cache, with the size that it was allocated with; no list is longer than its limit; and destroying
  the cache gives everything back to the pool but what the clients hold.
\<close>

theorem SAC_conserves_blocks:
  assumes "pool_contract pool pok serves" and "pok s {}"
    and "sac_classes_ok (PoolAlignment pool) cs" and "PoolAlignment pool \<noteq> 1" and "0 < freq_sum cs"
    and "\<forall>c \<in> set cs. serves (blockSize c)"
    and "\<forall>z permit. SacAlloc z permit \<in> set requests \<longrightarrow> 0 < z \<and> serves (served_size (map blockSize cs) (PoolAlignment pool) z)"
  shows "\<exists>sac0 sac s1 held bl s2. SACCreate pool s cs ResOK junk = Some (Inr sac0) \<and>
    SACServe pool requests sac0 s Map.empty = Some (sac, s1, held) \<and>
    pok s1 (cached (map blockSize cs) bl \<union> held_blocks (map blockSize cs) (PoolAlignment pool) held) \<and>
    (\<forall>k < length cs. distinct (bl k) \<and> length (bl k) \<le> cachedCount (cs ! k) \<and> set (bl k) \<inter> dom held = {}) \<and>
    SACDestroy pool sac s1 = Some (s2, sacSize (middleIndex sac) (length cs)) \<and>
    pok s2 (held_blocks (map blockSize cs) (PoolAlignment pool) held)"
proof -
  let ?bs = "map blockSize cs" and ?cm = "map cachedCount cs"
  note c = assms(1)
  obtain sac0 where sac0: "SACCreate pool s cs ResOK junk = Some (Inr sac0)"
    using SACCreate_ok [OF assms(3,4,5), of s ResOK junk] by auto
  have "sac_inv pool pok serves ?bs ?cm (\<lambda>k. []) Map.empty sac0 s"
    using pool_contract.new_cache_inv [OF c _ assms(2,6)] SACCreate_result [OF assms(3,4) sac0] by blast
  from pool_contract.SACServe_ok [OF c this assms(7)] obtain sac s1 held bl where
    r: "SACServe pool requests sac0 s Map.empty = Some (sac, s1, held)" "sac_inv pool pok serves ?bs ?cm bl held sac s1" by blast
  obtain s2 where d: "SACDestroy pool sac s1 = Some (s2, sacSize (middleIndex sac) (length cs))" "pok s2 (held_blocks ?bs (PoolAlignment pool) held)"
    using pool_contract.SACDestroy_ok [OF c r(2)] by auto
  note i = r(2) [unfolded sac_inv_def]
  have "distinct (bl k) \<and> length (bl k) \<le> cachedCount (cs ! k) \<and> set (bl k) \<inter> dom held = {}" if k: "k < length cs" for k
  proof -
    have "list_ok pool s1 (freelists sac ! slot (middleIndex sac) k) (bl k)" using i k by simp
    moreover have "fl_countMax (freelists sac ! slot (middleIndex sac) k) = cachedCount (cs ! k)"
      using sac_shapeD(9) [OF i [THEN conjunct1], of k] k by simp
    moreover have "set (bl k) \<subseteq> fst ` cached ?bs bl"
    proof
      fix x assume "x \<in> set (bl k)"
      then have "(x, ?bs ! k) \<in> cached ?bs bl" using k by (auto simp: in_cached)
      then show "x \<in> fst ` cached ?bs bl" by force
    qed
    ultimately show ?thesis using i by (auto simp: list_ok_def)
  qed
  then show ?thesis using sac0 r(1) i d
    by (intro exI [of _ sac0] exI [of _ sac] exI [of _ s1] exI [of _ held] exI [of _ bl] exI [of _ s2]) simp
qed

theorem SAC_conserves_blocks_witness:
  "\<exists>m sac0 sac s1 held s2. MFSInit 16 70 20 blank_mfs = Some m \<and>
    SACCreate mfs_methods (m, [Inr 4096]) [\<lparr>blockSize = 20, cachedCount = 3, frequency = 1\<rparr>] ResOK
      \<lparr>fl_size = 7, fl_count = 7, fl_countMax = 7, fl_blocks = 7\<rparr> = Some (Inr sac0) \<and>
    SACServe mfs_methods [SacAlloc 12 False, SacAlloc 20 False, SacFree 4096, SacFlush, SacAlloc 20 True, SacFree 4116] sac0 (m, [Inr 4096])
      Map.empty = Some (sac, s1, held) \<and>
    SACDestroy mfs_methods sac s1 = Some (s2, sacSize (middleIndex sac) 1) \<and> mfs_serving 20 s2 (held_blocks [20] MPS_PF_ALIGN held)"
proof -
  let ?cs = "[\<lparr>blockSize = 20, cachedCount = 3, frequency = 1\<rparr>] :: SACClassesStruct list"
  let ?junk = "\<lparr>fl_size = 7, fl_count = 7, fl_countMax = 7, fl_blocks = 7\<rparr>"
  let ?requests = "[SacAlloc 12 False, SacAlloc 20 False, SacFree 4096, SacFlush, SacAlloc 20 True, SacFree 4116]"
  have "AlignCheck 16" by (simp add: AlignCheck_def)
  then obtain m where m: "MFSInit 16 70 20 blank_mfs = Some m" "mfs_inv m [] [] {}" "unroundedUnitSize m = 20"
    using MFSInit_ok [of 20 70 16 blank_mfs] by (auto simp: UNIT_MIN_def MPS_PF_ALIGN_def)
  have x: "extendBy m = 80" using m(1) by (auto simp: MFSInit_def Let_def run_iff WordAlignUp_def UNIT_MIN_def)
  have "arena_ok (extendBy m) [] [Inr 4096]"
    by (simp add: x arena_ok_def extents_ok_def extent_ok_def WordIsAligned_def MPS_PF_ALIGN_def)
  then have s: "mfs_serving 20 (m, [Inr 4096]) {}" using m(2,3) by (auto simp: mfs_serving_def pool_inv_def)
  have al: "PoolAlignment mfs_methods = MPS_PF_ALIGN" by (simp add: mfs_methods_def)
  have "sac_classes_ok MPS_PF_ALIGN ?cs" "MPS_PF_ALIGN \<noteq> 1" "0 < freq_sum ?cs"
    by (simp_all add: sac_classes_ok_def WordIsAligned_def MPS_PF_ALIGN_def freq_sum_def)
  moreover have "served_size [20] a z = 20" if "z \<le> 20" for a z using that by (simp add: served_size_def class_index_def leD)
  ultimately have "\<exists>sac0 sac s1 held bl s2. SACCreate mfs_methods (m, [Inr 4096]) ?cs ResOK ?junk = Some (Inr sac0) \<and>
    SACServe mfs_methods ?requests sac0 (m, [Inr 4096]) Map.empty = Some (sac, s1, held) \<and>
    mfs_serving 20 s1 (cached [20] bl \<union> held_blocks [20] MPS_PF_ALIGN held) \<and>
    (\<forall>k < length ?cs. distinct (bl k) \<and> length (bl k) \<le> cachedCount (?cs ! k) \<and> set (bl k) \<inter> dom held = {}) \<and>
    SACDestroy mfs_methods sac s1 = Some (s2, sacSize (middleIndex sac) (length ?cs)) \<and>
    mfs_serving 20 s2 (held_blocks [20] MPS_PF_ALIGN held)"
    using SAC_conserves_blocks [OF mfs_pool.pool_contract_axioms s, of ?cs ?requests ?junk, unfolded al] by auto
  then show ?thesis using m(1) by auto
qed

end
