(* ===== verification/Cbs.thy ===== *)
theory Cbs
  imports Splay_Ops Pool_Mfs
begin

text \<open>
  Coalescing block structures (\<^verbatim>\<open>cbs.c\<close>): the free ranges of a pool, each a block in a splay tree ordered
  by address, with a descriptor from a pool of fixed small units. One record holds the structure and
  what its operations reach: the heap of splay nodes, whose data are the base and limit of the block
  and whose client property is \<^verbatim>\<open>maxSize\<close>; the words of the free memory itself, in which the emergency
  lists live; the answers the arena will give; and the calls of the client's methods, of which only
  whether they are \<^verbatim>\<open>NULL\<close> matters. The address of a block is its splay node.
\<close>

subsection \<open>Data\<close>

record CBSBlockStruct =
  CBSBlockBase :: mword
  CBSBlockLimit :: mword

datatype cbs_call =
    NewCall nat mword mword | DeleteCall nat mword mword | GrowCall nat mword mword | ShrinkCall nat mword mword

record CBSStruct =
  splayTree :: "(mword option, CBSBlockStruct, mword) SplayTreeStruct"
  blockPool :: MFSStruct
  newMethod :: bool
  deleteMethod :: bool
  growMethod :: bool
  shrinkMethod :: bool
  minSize :: mword
  alignment :: mword
  mayUseInline :: bool
  fastFind :: bool
  inCBS :: bool
  emergencyBlockList :: mword
  emergencyGrainList :: mword
  nodes :: "(CBSBlockStruct, mword) splay_heap"
  words :: "mword \<Rightarrow> mword"
  answers :: arena_answers
  calls :: "cbs_call list"

definition AddrOffset :: "mword \<Rightarrow> mword \<Rightarrow> mword" where "AddrOffset b l = l - b"

definition cbsMinimumAlignment :: mword where "cbsMinimumAlignment = 4"

definition sizeof_CBSBlockStruct :: mword where "sizeof_CBSBlockStruct = 20"

definition CBSBlockSize :: "CBSBlockStruct \<Rightarrow> mword" where
  "CBSBlockSize block = AddrOffset (CBSBlockBase block) (CBSBlockLimit block)"

abbreviation block_at :: "CBSStruct \<Rightarrow> nat \<Rightarrow> CBSBlockStruct" where
  "block_at cbs block \<equiv> data_of (nodes cbs) block"

definition CBSBlockSetBase :: "nat \<Rightarrow> mword \<Rightarrow> CBSStruct \<Rightarrow> CBSStruct" where
  "CBSBlockSetBase block b cbs =
     cbs\<lparr>nodes := (nodes cbs)\<lparr>data_of := (data_of (nodes cbs))(block := (block_at cbs block)\<lparr>CBSBlockBase := b\<rparr>)\<rparr>\<rparr>"

definition CBSBlockSetLimit :: "nat \<Rightarrow> mword \<Rightarrow> CBSStruct \<Rightarrow> CBSStruct" where
  "CBSBlockSetLimit block l cbs =
     cbs\<lparr>nodes := (nodes cbs)\<lparr>data_of := (data_of (nodes cbs))(block := (block_at cbs block)\<lparr>CBSBlockLimit := l\<rparr>)\<rparr>\<rparr>"

definition keyOfCBSBlock :: "CBSStruct \<Rightarrow> nat \<Rightarrow> mword option" where
  "keyOfCBSBlock cbs block = Some (CBSBlockBase (block_at cbs block))"

definition CBSEnter :: "CBSStruct \<Rightarrow> CBSStruct option" where
  "CBSEnter cbs = do { aver (\<not> inCBS cbs); Some (cbs\<lparr>inCBS := True\<rparr>) }"

definition CBSLeave :: "CBSStruct \<Rightarrow> CBSStruct option" where
  "CBSLeave cbs = do { aver (inCBS cbs); Some (cbs\<lparr>inCBS := False\<rparr>) }"

definition CBSCheck :: "CBSStruct \<Rightarrow> bool" where
  "CBSCheck cbs \<longleftrightarrow> SplayTreeCheck (splayTree cbs) \<and>
     (mayUseInline cbs \<or> emergencyBlockList cbs = 0) \<and> (mayUseInline cbs \<or> emergencyGrainList cbs = 0) \<and>
     (\<not> mayUseInline cbs \<or> WordIsAligned (alignment cbs) cbsMinimumAlignment)"

definition CBSBlockCheck :: "CBSStruct \<Rightarrow> nat \<Rightarrow> bool" where
  "CBSBlockCheck cbs block \<longleftrightarrow> SplayNodeCheck block \<and>
     CBSBlockBase (block_at cbs block) \<le> CBSBlockLimit (block_at cbs block)"

text \<open>The comparison, the tests and the callback of the splay tree. A \<^verbatim>\<open>NULL\<close> key is \<open>None\<close>.\<close>

definition cbsSplayCompare :: "mword option \<Rightarrow> CBSBlockStruct \<Rightarrow> Compare" where
  "cbsSplayCompare k block = (case k of
     None \<Rightarrow> CompareLESS
   | Some base1 \<Rightarrow>
       let base2 = CBSBlockBase block;
           limit2 = CBSBlockLimit block
       in if base1 < base2 then CompareLESS
          else if base1 \<ge> limit2 then CompareGREATER
          else CompareEQUAL)"

definition cbsTestNode :: "mword \<Rightarrow> CBSBlockStruct \<Rightarrow> bool" where
  "cbsTestNode sz block \<longleftrightarrow> CBSBlockSize block \<ge> sz"

definition cbsTestTree :: "mword \<Rightarrow> mword \<Rightarrow> bool" where
  "cbsTestTree sz maxSize \<longleftrightarrow> maxSize \<ge> sz"

definition cbsUpdateNode :: "CBSBlockStruct \<Rightarrow> mword option \<Rightarrow> mword option \<Rightarrow> mword" where
  "cbsUpdateNode block leftChild rightChild =
     (let maxSize = CBSBlockSize block;
          maxSize = (case leftChild of None \<Rightarrow> maxSize | Some sz \<Rightarrow> if sz > maxSize then sz else maxSize);
          maxSize = (case rightChild of None \<Rightarrow> maxSize | Some sz \<Rightarrow> if sz > maxSize then sz else maxSize)
      in maxSize)"

subsection \<open>Initialisation\<close>

text \<open>\<open>poolRes\<close> is the answer of \<^verbatim>\<open>PoolCreate\<close> before it initialises the pool.\<close>

definition CBSInit :: "mword \<Rightarrow> Res \<Rightarrow> bool \<Rightarrow> bool \<Rightarrow> bool \<Rightarrow> bool \<Rightarrow> mword \<Rightarrow> mword \<Rightarrow> bool \<Rightarrow> bool \<Rightarrow> CBSStruct \<Rightarrow>
    (Res \<times> CBSStruct) option" where
  "CBSInit arenaAlign poolRes new del grow shrink minSize0 alignment0 mayUseInline0 fastFind0 cbs =
     (if mayUseInline0 \<and> \<not> WordIsAligned alignment0 cbsMinimumAlignment then Some (ResPARAM, cbs)
      else do {
        tree \<leftarrow> SplayTreeInit cbsSplayCompare (if fastFind0 then Some cbsUpdateNode else None);
        let cbs = cbs\<lparr>splayTree := tree\<rparr>;
        if poolRes \<noteq> ResOK then Some (poolRes, cbs)
        else do {
          pool \<leftarrow> MFSInit arenaAlign (sizeof_CBSBlockStruct * 64) sizeof_CBSBlockStruct (blockPool cbs);
          let cbs = cbs\<lparr>blockPool := pool, newMethod := new, deleteMethod := del, growMethod := grow, shrinkMethod := shrink,
            minSize := minSize0, mayUseInline := mayUseInline0, fastFind := fastFind0, alignment := alignment0, inCBS := True,
            emergencyBlockList := 0, emergencyGrainList := 0\<rparr>;
          aver (CBSCheck cbs);
          cbs \<leftarrow> CBSLeave cbs;
          Some (ResOK, cbs)
        }
      })"

definition CBSFinish :: "CBSStruct \<Rightarrow> ((mword \<times> mword) list \<times> CBSStruct) option" where
  "CBSFinish cbs = do {
     aver (CBSCheck cbs);
     cbs \<leftarrow> CBSEnter cbs;
     tree \<leftarrow> SplayTreeFinish (splayTree cbs);
     freed \<leftarrow> MFSFinish (blockPool cbs);
     Some (freed, cbs\<lparr>splayTree := tree, emergencyBlockList := 0, emergencyGrainList := 0\<rparr>)
   }"

subsection \<open>Changing a block\<close>

definition cbsBlockDelete :: "nat \<Rightarrow> CBSStruct \<Rightarrow> CBSStruct option" where
  "cbsBlockDelete block cbs = do {
     aver (CBSCheck cbs);
     aver (CBSBlockCheck cbs block);
     let oldSize = CBSBlockSize (block_at cbs block);
     (res, tree, s) \<leftarrow> SplayTreeDelete (splayTree cbs) block (keyOfCBSBlock cbs block) (nodes cbs);
     let cbs = cbs\<lparr>splayTree := tree, nodes := s\<rparr>;
     aver (res = ResOK);
     let cbs = CBSBlockSetLimit block (CBSBlockBase (block_at cbs block)) cbs;
     let cbs = (if deleteMethod cbs \<and> oldSize \<ge> minSize cbs then cbs\<lparr>calls := calls cbs @ [DeleteCall block oldSize 0]\<rparr> else cbs);
     pool \<leftarrow> MFSFree (blockPool cbs) (of_nat block) sizeof_CBSBlockStruct;
     Some (cbs\<lparr>blockPool := pool\<rparr>)
   }"

text \<open>The refresh that \<^verbatim>\<open>cbsBlockShrink\<close> and \<^verbatim>\<open>cbsBlockGrow\<close> have in common.\<close>

definition cbsBlockRefresh :: "nat \<Rightarrow> CBSStruct \<Rightarrow> CBSStruct option" where
  "cbsBlockRefresh block cbs =
     (if fastFind cbs then do {
        (tree, s) \<leftarrow> SplayNodeRefresh (splayTree cbs) block (keyOfCBSBlock cbs block) (nodes cbs);
        let cbs = cbs\<lparr>splayTree := tree, nodes := s\<rparr>;
        aver (CBSBlockSize (block_at cbs block) \<le> prop_of (nodes cbs) block);
        Some cbs
      } else Some cbs)"

definition cbsBlockShrink :: "nat \<Rightarrow> mword \<Rightarrow> CBSStruct \<Rightarrow> CBSStruct option" where
  "cbsBlockShrink block oldSize cbs = do {
     aver (CBSCheck cbs);
     aver (CBSBlockCheck cbs block);
     let newSize = CBSBlockSize (block_at cbs block);
     aver (oldSize > newSize);
     cbs \<leftarrow> cbsBlockRefresh block cbs;
     Some (if deleteMethod cbs \<and> oldSize \<ge> minSize cbs \<and> newSize < minSize cbs
           then cbs\<lparr>calls := calls cbs @ [DeleteCall block oldSize newSize]\<rparr>
           else if shrinkMethod cbs \<and> newSize \<ge> minSize cbs
           then cbs\<lparr>calls := calls cbs @ [ShrinkCall block oldSize newSize]\<rparr>
           else cbs)
   }"

definition cbsBlockGrow :: "nat \<Rightarrow> mword \<Rightarrow> CBSStruct \<Rightarrow> CBSStruct option" where
  "cbsBlockGrow block oldSize cbs = do {
     aver (CBSCheck cbs);
     aver (CBSBlockCheck cbs block);
     let newSize = CBSBlockSize (block_at cbs block);
     aver (oldSize < newSize);
     cbs \<leftarrow> cbsBlockRefresh block cbs;
     Some (if newMethod cbs \<and> oldSize < minSize cbs \<and> newSize \<ge> minSize cbs
           then cbs\<lparr>calls := calls cbs @ [NewCall block oldSize newSize]\<rparr>
           else if growMethod cbs \<and> oldSize \<ge> minSize cbs
           then cbs\<lparr>calls := calls cbs @ [GrowCall block oldSize newSize]\<rparr>
           else cbs)
   }"

definition cbsBlockNew :: "mword \<Rightarrow> mword \<Rightarrow> CBSStruct \<Rightarrow> (Res \<times> CBSStruct) option" where
  "cbsBlockNew b l cbs = do {
     aver (CBSCheck cbs);
     (res, p, pool, ans) \<leftarrow> MFSAlloc (blockPool cbs) sizeof_CBSBlockStruct (answers cbs);
     let cbs = cbs\<lparr>blockPool := pool, answers := ans\<rparr>;
     if res \<noteq> ResOK then Some (res, cbs)
     else do {
       let block = unat p;
       s \<leftarrow> SplayNodeInit block (nodes cbs);
       let cbs = cbs\<lparr>nodes := s\<rparr>;
       let cbs = CBSBlockSetBase block b cbs;
       let cbs = CBSBlockSetLimit block l cbs;
       let newSize = CBSBlockSize (block_at cbs block);
       let cbs = cbs\<lparr>nodes := (nodes cbs)\<lparr>prop_of := (prop_of (nodes cbs))(block := newSize)\<rparr>\<rparr>;
       aver (CBSBlockCheck cbs block);
       (res, tree, s) \<leftarrow> SplayTreeInsert (splayTree cbs) block (keyOfCBSBlock cbs block) (nodes cbs);
       let cbs = cbs\<lparr>splayTree := tree, nodes := s\<rparr>;
       aver (res = ResOK);
       let cbs = (if newMethod cbs \<and> newSize \<ge> minSize cbs then cbs\<lparr>calls := calls cbs @ [NewCall block 0 newSize]\<rparr> else cbs);
       Some (ResOK, cbs)
     }
   }"

subsection \<open>Ranges in the tree\<close>

text \<open>Which of the two neighbours the range joins: both, the left, the right or none.\<close>

definition cbsInsertIntoTree_merge ::
  "mword \<Rightarrow> mword \<Rightarrow> nat \<Rightarrow> nat \<Rightarrow> bool \<Rightarrow> bool \<Rightarrow> CBSStruct \<Rightarrow> (Res \<times> CBSStruct) option" where
  "cbsInsertIntoTree_merge b l left_node right_node leftMerge rightMerge cbs =
    (if leftMerge then
        if rightMerge then do {
          let oldLeftSize = CBSBlockSize (block_at cbs left_node);
          let oldRightSize = CBSBlockSize (block_at cbs right_node);
          if oldLeftSize \<ge> oldRightSize then do {
            let rightLimit = CBSBlockLimit (block_at cbs right_node);
            cbs \<leftarrow> cbsBlockDelete right_node cbs;
            let cbs = CBSBlockSetLimit left_node rightLimit cbs;
            cbs \<leftarrow> cbsBlockGrow left_node oldLeftSize cbs;
            Some (ResOK, cbs)
          } else do {
            let leftBase = CBSBlockBase (block_at cbs left_node);
            cbs \<leftarrow> cbsBlockDelete left_node cbs;
            let cbs = CBSBlockSetBase right_node leftBase cbs;
            cbs \<leftarrow> cbsBlockGrow right_node oldRightSize cbs;
            Some (ResOK, cbs)
          }
        } else do {
          let oldSize = CBSBlockSize (block_at cbs left_node);
          let cbs = CBSBlockSetLimit left_node l cbs;
          cbs \<leftarrow> cbsBlockGrow left_node oldSize cbs;
          Some (ResOK, cbs)
        }
      else if rightMerge then do {
        let oldSize = CBSBlockSize (block_at cbs right_node);
        let cbs = CBSBlockSetBase right_node b cbs;
        cbs \<leftarrow> cbsBlockGrow right_node oldSize cbs;
        Some (ResOK, cbs)
      } else cbsBlockNew b l cbs)"

definition cbsInsertIntoTree :: "mword \<Rightarrow> mword \<Rightarrow> CBSStruct \<Rightarrow> (Res \<times> (mword \<times> mword) option \<times> CBSStruct) option" where
  "cbsInsertIntoTree b l cbs = do {
     aver (CBSCheck cbs);
     aver (b \<noteq> 0);
     aver (b < l);
     aver (WordIsAligned b (alignment cbs));
     aver (WordIsAligned l (alignment cbs));
     (res, neighbours, tree, s) \<leftarrow> SplayTreeNeighbours (splayTree cbs) (Some b) (nodes cbs);
     let cbs = cbs\<lparr>splayTree := tree, nodes := s\<rparr>;
     if res \<noteq> ResOK then Some (res, None, cbs)
     else do {
       (left_node, right_node) \<leftarrow> neighbours;
       aver (left_node = 0 \<or> CBSBlockLimit (block_at cbs left_node) \<le> b);
       let leftMerge = (left_node \<noteq> 0 \<and> CBSBlockLimit (block_at cbs left_node) = b);
       if right_node \<noteq> 0 \<and> l > CBSBlockBase (block_at cbs right_node) then Some (ResFAIL, None, cbs)
       else do {
         let rightMerge = (right_node \<noteq> 0 \<and> CBSBlockBase (block_at cbs right_node) = l);
         let newBase = (if leftMerge then CBSBlockBase (block_at cbs left_node) else b);
         let newLimit = (if rightMerge then CBSBlockLimit (block_at cbs right_node) else l);
         (res, cbs) \<leftarrow>
           cbsInsertIntoTree_merge b l left_node right_node leftMerge rightMerge cbs;
         if res \<noteq> ResOK then Some (res, None, cbs)
         else do {
           aver (newBase \<le> b);
           aver (newLimit \<ge> l);
           Some (ResOK, Some (newBase, newLimit), cbs)
         }
       }
     }
   }"

subsection \<open>The emergency lists\<close>

text \<open>
  A range that finds no descriptor is kept on a list threaded through the range itself: a block has
  its successor in its first word and its limit in the second, a grain (a range of one unit of the
  alignment) only its successor.
\<close>

definition CBSEmergencyBlockNext :: "CBSStruct \<Rightarrow> mword \<Rightarrow> mword" where
  "CBSEmergencyBlockNext cbs block = words cbs block"

definition CBSEmergencyBlockLimit :: "CBSStruct \<Rightarrow> mword \<Rightarrow> mword" where
  "CBSEmergencyBlockLimit cbs block = words cbs (block + 4)"

definition CBSEmergencyBlockSize :: "CBSStruct \<Rightarrow> mword \<Rightarrow> mword" where
  "CBSEmergencyBlockSize cbs block = AddrOffset block (CBSEmergencyBlockLimit cbs block)"

definition CBSEmergencyBlockSetNext :: "mword \<Rightarrow> mword \<Rightarrow> CBSStruct \<Rightarrow> CBSStruct" where
  "CBSEmergencyBlockSetNext block nxt cbs = cbs\<lparr>words := (words cbs)(block := nxt)\<rparr>"

definition CBSEmergencyBlockSetLimit :: "mword \<Rightarrow> mword \<Rightarrow> CBSStruct \<Rightarrow> CBSStruct" where
  "CBSEmergencyBlockSetLimit block l cbs = cbs\<lparr>words := (words cbs)(block + 4 := l)\<rparr>"

definition CBSEmergencyGrainSize :: "CBSStruct \<Rightarrow> mword" where
  "CBSEmergencyGrainSize cbs = alignment cbs"

definition CBSEmergencyGrainLimit :: "CBSStruct \<Rightarrow> mword \<Rightarrow> mword" where
  "CBSEmergencyGrainLimit cbs grain = grain + CBSEmergencyGrainSize cbs"

definition CBSEmergencyGrainNext :: "CBSStruct \<Rightarrow> mword \<Rightarrow> mword" where
  "CBSEmergencyGrainNext cbs grain = words cbs grain"

definition CBSEmergencyGrainSetNext :: "mword \<Rightarrow> mword \<Rightarrow> CBSStruct \<Rightarrow> CBSStruct" where
  "CBSEmergencyGrainSetNext grain nxt cbs = cbs\<lparr>words := (words cbs)(grain := nxt)\<rparr>"

definition CBSEmergencyBlockInit :: "mword \<Rightarrow> mword \<Rightarrow> CBSStruct \<Rightarrow> CBSStruct" where
  "CBSEmergencyBlockInit b l cbs = CBSEmergencyBlockSetLimit b l (CBSEmergencyBlockSetNext b 0 cbs)"

definition CBSEmergencyGrainInit :: "mword \<Rightarrow> mword \<Rightarrow> CBSStruct \<Rightarrow> CBSStruct option" where
  "CBSEmergencyGrainInit b l cbs = do {
     aver (AddrOffset b l = CBSEmergencyGrainSize cbs);
     Some (CBSEmergencyGrainSetNext b 0 cbs)
   }"

text \<open>
  The loop of \<^verbatim>\<open>cbsCoalesceWithEmergencyLists\<close> over the blocks: the range so far, the number of
  coalescences and the structure, or \<open>None\<close> inside if the range meets a block. The counts of the lists
  exist only for statistics.
\<close>

partial_function (option) cbsCoalesce_blocks ::
  "mword \<Rightarrow> mword \<Rightarrow> mword \<Rightarrow> mword \<Rightarrow> nat \<Rightarrow> CBSStruct \<Rightarrow> ((mword \<times> mword \<times> nat) option \<times> CBSStruct) option" where
  "cbsCoalesce_blocks prev block b l n cbs =
     (if block \<noteq> 0 \<and> block \<le> l then do {
        let blockLimit = CBSEmergencyBlockLimit cbs block;
        aver (block < blockLimit);
        aver (prev = 0 \<or> CBSEmergencyBlockLimit cbs prev < block);
        let nxt = CBSEmergencyBlockNext cbs block;
        let cut = (if prev = 0 then cbs\<lparr>emergencyBlockList := nxt\<rparr> else CBSEmergencyBlockSetNext prev nxt cbs);
        if blockLimit = b then cbsCoalesce_blocks prev (CBSEmergencyBlockNext cut block) block l (n + 1) cut
        else if block = l then cbsCoalesce_blocks prev (CBSEmergencyBlockNext cut block) b blockLimit (n + 1) cut
        else if blockLimit > b then Some (None, cbs)
        else cbsCoalesce_blocks block nxt b l n cbs
      } else Some (Some (b, l, n), cbs))"

partial_function (option) cbsCoalesce_grains ::
  "mword \<Rightarrow> mword \<Rightarrow> mword \<Rightarrow> mword \<Rightarrow> nat \<Rightarrow> CBSStruct \<Rightarrow> ((mword \<times> mword \<times> nat) option \<times> CBSStruct) option" where
  "cbsCoalesce_grains prev grain b l n cbs =
     (if grain \<noteq> 0 \<and> grain \<le> l \<and> n < 2 then do {
        let grainLimit = CBSEmergencyGrainLimit cbs grain;
        aver (grain < grainLimit);
        aver (prev = 0 \<or> CBSEmergencyGrainLimit cbs prev < grain);
        let nxt = CBSEmergencyGrainNext cbs grain;
        let cut = (if prev = 0 then cbs\<lparr>emergencyGrainList := nxt\<rparr> else CBSEmergencyGrainSetNext prev nxt cbs);
        if grainLimit = b then cbsCoalesce_grains prev (CBSEmergencyGrainNext cut grain) grain l (n + 1) cut
        else if grain = l then Some (Some (b, grainLimit, n + 1), cut)
        else if grainLimit > b then Some (None, cbs)
        else cbsCoalesce_grains grain nxt b l n cbs
      } else Some (Some (b, l, n), cbs))"

definition cbsCoalesceWithEmergencyLists :: "mword \<Rightarrow> mword \<Rightarrow> CBSStruct \<Rightarrow> (Res \<times> (mword \<times> mword) \<times> CBSStruct) option" where
  "cbsCoalesceWithEmergencyLists b0 l0 cbs = do {
     aver (CBSCheck cbs);
     aver (mayUseInline cbs);
     aver (b0 < l0);
     (r, cbs) \<leftarrow> (if emergencyBlockList cbs \<noteq> 0 then cbsCoalesce_blocks 0 (emergencyBlockList cbs) b0 l0 0 cbs
                 else Some (Some (b0, l0, 0), cbs));
     (case r of
        None \<Rightarrow> Some (ResFAIL, (b0, l0), cbs)
      | Some (b, l, n) \<Rightarrow> do {
          (r, cbs) \<leftarrow> (if emergencyGrainList cbs \<noteq> 0 then cbsCoalesce_grains 0 (emergencyGrainList cbs) b l n cbs
                      else Some (Some (b, l, n), cbs));
          (case r of
             None \<Rightarrow> Some (ResFAIL, (b0, l0), cbs)
           | Some (b, l, n) \<Rightarrow> do {
               aver (n \<le> 2);
               Some (ResOK, (b, l), cbs)
             })
        })
   }"

text \<open>The loops of \<^verbatim>\<open>cbsAddToEmergencyLists\<close> that look for the place of a range: \<^verbatim>\<open>prev\<close> and its successor.\<close>

partial_function (option) cbsAdd_block_place :: "mword \<Rightarrow> mword \<Rightarrow> mword \<Rightarrow> CBSStruct \<Rightarrow> (mword \<times> mword) option" where
  "cbsAdd_block_place prev block b cbs =
     (if block \<noteq> 0 \<and> block < b then do {
        aver (prev = 0 \<or> CBSEmergencyBlockLimit cbs prev < block);
        aver (block < CBSEmergencyBlockLimit cbs block);
        cbsAdd_block_place block (CBSEmergencyBlockNext cbs block) b cbs
      } else Some (prev, block))"

partial_function (option) cbsAdd_grain_place :: "mword \<Rightarrow> mword \<Rightarrow> mword \<Rightarrow> CBSStruct \<Rightarrow> (mword \<times> mword) option" where
  "cbsAdd_grain_place prev grain b cbs =
     (if grain \<noteq> 0 \<and> grain < b then do {
        aver (prev = 0 \<or> CBSEmergencyGrainLimit cbs prev < grain);
        cbsAdd_grain_place grain (CBSEmergencyGrainNext cbs grain) b cbs
      } else Some (prev, grain))"

definition cbsAddToEmergencyLists :: "mword \<Rightarrow> mword \<Rightarrow> CBSStruct \<Rightarrow> (Res \<times> CBSStruct) option" where
  "cbsAddToEmergencyLists b l cbs = do {
     aver (CBSCheck cbs);
     aver (b < l);
     aver (mayUseInline cbs);
     let sz = AddrOffset b l;
     if sz > cbsMinimumAlignment then do {
       let cbs = CBSEmergencyBlockInit b l cbs;
       (prev, block) \<leftarrow> cbsAdd_block_place 0 (emergencyBlockList cbs) b cbs;
       aver (prev = 0 \<or> block = 0 \<or> CBSEmergencyBlockLimit cbs prev < block);
       if prev \<noteq> 0 \<and> CBSEmergencyBlockLimit cbs prev \<ge> b then Some (ResFAIL, cbs)
       else if block \<noteq> 0 \<and> l \<ge> block then Some (ResFAIL, cbs)
       else do {
         let cbs = (if prev = 0 then cbs\<lparr>emergencyBlockList := b\<rparr> else CBSEmergencyBlockSetNext prev b cbs);
         Some (ResOK, CBSEmergencyBlockSetNext b block cbs)
       }
     } else if sz = CBSEmergencyGrainSize cbs then do {
       cbs \<leftarrow> CBSEmergencyGrainInit b l cbs;
       (prev, grain) \<leftarrow> cbsAdd_grain_place 0 (emergencyGrainList cbs) b cbs;
       aver (prev = 0 \<or> grain = 0 \<or> CBSEmergencyGrainLimit cbs prev < grain);
       if prev \<noteq> 0 \<and> CBSEmergencyGrainLimit cbs prev \<ge> b then Some (ResFAIL, cbs)
       else if grain \<noteq> 0 \<and> l \<ge> grain then Some (ResFAIL, cbs)
       else do {
         let cbs = (if prev = 0 then cbs\<lparr>emergencyGrainList := b\<rparr> else CBSEmergencyGrainSetNext prev b cbs);
         Some (ResOK, CBSEmergencyGrainSetNext b grain cbs)
       }
     } else None
   }"

text \<open>The loops of \<^verbatim>\<open>cbsFlushEmergencyLists\<close>; they answer whether every range went into the tree.\<close>

partial_function (option) cbsFlush_blocks :: "mword \<Rightarrow> CBSStruct \<Rightarrow> (bool \<times> CBSStruct) option" where
  "cbsFlush_blocks block cbs =
     (if block \<noteq> 0 then do {
        let blockLimit = CBSEmergencyBlockLimit cbs block;
        aver (block < blockLimit);
        (res, range, cbs) \<leftarrow> cbsInsertIntoTree block blockLimit cbs;
        if res = ResOK then do {
          aver (emergencyBlockList cbs = block);
          aver (range = Some (block, CBSEmergencyBlockLimit cbs block));
          let cbs = cbs\<lparr>emergencyBlockList := CBSEmergencyBlockNext cbs block\<rparr>;
          cbsFlush_blocks (CBSEmergencyBlockNext cbs block) cbs
        } else do {
          aver (ResIsAllocFailure res);
          Some (False, cbs)
        }
      } else Some (True, cbs))"

partial_function (option) cbsFlush_grains :: "mword \<Rightarrow> CBSStruct \<Rightarrow> (bool \<times> CBSStruct) option" where
  "cbsFlush_grains grain cbs =
     (if grain \<noteq> 0 then do {
        (res, range, cbs) \<leftarrow> cbsInsertIntoTree grain (CBSEmergencyGrainLimit cbs grain) cbs;
        if res = ResOK then do {
          aver (emergencyGrainList cbs = grain);
          aver (range = Some (grain, CBSEmergencyGrainLimit cbs grain));
          let cbs = cbs\<lparr>emergencyGrainList := CBSEmergencyGrainNext cbs grain\<rparr>;
          cbsFlush_grains (CBSEmergencyGrainNext cbs grain) cbs
        } else do {
          aver (ResIsAllocFailure res);
          Some (False, cbs)
        }
      } else Some (True, cbs))"

definition cbsFlushEmergencyLists :: "CBSStruct \<Rightarrow> CBSStruct option" where
  "cbsFlushEmergencyLists cbs = do {
     aver (CBSCheck cbs);
     aver (mayUseInline cbs);
     (all_in, cbs) \<leftarrow> cbsFlush_blocks (emergencyBlockList cbs) cbs;
     if \<not> all_in then Some cbs
     else do { (all_in, cbs) \<leftarrow> cbsFlush_grains (emergencyGrainList cbs) cbs; Some cbs }
   }"

subsection \<open>Insertion\<close>

definition CBSInsertReturningRange :: "mword \<Rightarrow> mword \<Rightarrow> CBSStruct \<Rightarrow> (Res \<times> (mword \<times> mword) option \<times> CBSStruct) option" where
  "CBSInsertReturningRange b l cbs = do {
     aver (CBSCheck cbs);
     cbs \<leftarrow> CBSEnter cbs;
     aver (b \<noteq> 0);
     aver (b < l);
     aver (WordIsAligned b (alignment cbs));
     aver (WordIsAligned l (alignment cbs));
     (res, range, cbs) \<leftarrow>
       (if mayUseInline cbs then do {
          (res, (b1, l1), cbs) \<leftarrow> cbsCoalesceWithEmergencyLists b l cbs;
          if res \<noteq> ResOK then do { aver (res = ResFAIL); Some (res, Some (b1, l1), cbs) }
          else do {
            (res, range, cbs) \<leftarrow> cbsInsertIntoTree b1 l1 cbs;
            let range = (if res = ResOK then range else Some (b1, l1));
            if ResIsAllocFailure res then do {
              (res, cbs) \<leftarrow> cbsAddToEmergencyLists b1 l1 cbs;
              aver (res = ResOK \<or> res = ResFAIL);
              Some (res, range, cbs)
            } else do {
              cbs \<leftarrow> cbsFlushEmergencyLists cbs;
              Some (res, range, cbs)
            }
          }
        } else cbsInsertIntoTree b l cbs);
     if res = ResOK then do {
       (newBase, newLimit) \<leftarrow> range;
       aver (newBase \<le> b);
       aver (l \<le> newLimit);
       cbs \<leftarrow> CBSLeave cbs;
       Some (res, Some (newBase, newLimit), cbs)
     } else do {
       cbs \<leftarrow> CBSLeave cbs;
       Some (res, None, cbs)
     }
   }"

definition CBSInsert :: "mword \<Rightarrow> mword \<Rightarrow> CBSStruct \<Rightarrow> (Res \<times> CBSStruct) option" where
  "CBSInsert b l cbs = do { (res, range, cbs) \<leftarrow> CBSInsertReturningRange b l cbs; Some (res, cbs) }"

subsection \<open>Deletion\<close>

text \<open>The deletion once the block that holds the base has been found.\<close>

definition cbsDeleteFrom_block :: "mword \<Rightarrow> mword \<Rightarrow> nat \<Rightarrow> CBSStruct \<Rightarrow> (Res \<times> CBSStruct) option" where
  "cbsDeleteFrom_block b l block cbs =
    (if l > CBSBlockLimit (block_at cbs block) then Some (ResFAIL, cbs)
     else if b = CBSBlockBase (block_at cbs block) then
       if l = CBSBlockLimit (block_at cbs block) then do {
         cbs \<leftarrow> cbsBlockDelete block cbs;
         Some (ResOK, cbs)
       } else do {
         aver (l < CBSBlockLimit (block_at cbs block));
         let oldSize = CBSBlockSize (block_at cbs block);
         let cbs = CBSBlockSetBase block l cbs;
         cbs \<leftarrow> cbsBlockShrink block oldSize cbs;
         Some (ResOK, cbs)
       }
     else do {
       aver (b > CBSBlockBase (block_at cbs block));
       if l = CBSBlockLimit (block_at cbs block) then do {
         let oldSize = CBSBlockSize (block_at cbs block);
         let cbs = CBSBlockSetLimit block b cbs;
         cbs \<leftarrow> cbsBlockShrink block oldSize cbs;
         Some (ResOK, cbs)
       } else do {
         let leftNewSize = AddrOffset (CBSBlockBase (block_at cbs block)) b;
         let rightNewSize = AddrOffset l (CBSBlockLimit (block_at cbs block));
         if leftNewSize \<ge> rightNewSize then do {
           let oldLimit = CBSBlockLimit (block_at cbs block);
           aver (l < CBSBlockLimit (block_at cbs block));
           let oldSize = CBSBlockSize (block_at cbs block);
           let cbs = CBSBlockSetLimit block b cbs;
           cbs \<leftarrow> cbsBlockShrink block oldSize cbs;
           (res, cbs) \<leftarrow> cbsBlockNew l oldLimit cbs;
           if res \<noteq> ResOK then do {
             aver (ResIsAllocFailure res);
             if mayUseInline cbs then do {
               (res, cbs) \<leftarrow> cbsAddToEmergencyLists l oldLimit cbs;
               aver (res = ResOK);
               Some (ResOK, cbs)
             } else Some (res, cbs)
           } else Some (ResOK, cbs)
         } else do {
           let oldBase = CBSBlockBase (block_at cbs block);
           aver (b > CBSBlockBase (block_at cbs block));
           let oldSize = CBSBlockSize (block_at cbs block);
           let cbs = CBSBlockSetBase block l cbs;
           cbs \<leftarrow> cbsBlockShrink block oldSize cbs;
           (res, cbs) \<leftarrow> cbsBlockNew oldBase b cbs;
           if res \<noteq> ResOK then do {
             aver (ResIsAllocFailure res);
             if mayUseInline cbs then do {
               (res, cbs) \<leftarrow> cbsAddToEmergencyLists oldBase b cbs;
               aver (res = ResOK);
               Some (ResOK, cbs)
             } else Some (res, cbs)
           } else Some (ResOK, cbs)
         }
       }
     })"

definition cbsDeleteFromTree :: "mword \<Rightarrow> mword \<Rightarrow> CBSStruct \<Rightarrow> (Res \<times> CBSStruct) option" where
  "cbsDeleteFromTree b l cbs = do {
     (res, found, tree, s) \<leftarrow> SplayTreeSearch (splayTree cbs) (Some b) (nodes cbs);
     let cbs = cbs\<lparr>splayTree := tree, nodes := s\<rparr>;
     if res \<noteq> ResOK then Some (res, cbs)
     else do {
       block \<leftarrow> found;
       cbsDeleteFrom_block b l block cbs
     }
   }"

text \<open>
  The loops of \<^verbatim>\<open>cbsDeleteFromEmergencyBlockList\<close> and its companion for grains: \<^verbatim>\<open>prev\<close> and the first
  element that ends at or after \<open>l\<close>, or \<open>None\<close> inside where the loop itself fails.
\<close>

partial_function (option) cbsDelete_block_place :: "mword \<Rightarrow> mword \<Rightarrow> mword \<Rightarrow> mword \<Rightarrow> CBSStruct \<Rightarrow> (mword \<times> mword) option option" where
  "cbsDelete_block_place prev block b l cbs =
     (if block \<noteq> 0 \<and> CBSEmergencyBlockLimit cbs block < l then do {
        aver (block < CBSEmergencyBlockLimit cbs block);
        if block \<ge> b then Some None
        else do {
          aver (prev = 0 \<or> CBSEmergencyBlockLimit cbs prev < block);
          cbsDelete_block_place block (CBSEmergencyBlockNext cbs block) b l cbs
        }
      } else Some (Some (prev, block)))"

partial_function (option) cbsDelete_grain_place :: "mword \<Rightarrow> mword \<Rightarrow> mword \<Rightarrow> CBSStruct \<Rightarrow> (mword \<times> mword) option" where
  "cbsDelete_grain_place prev grain l cbs =
     (if grain \<noteq> 0 \<and> CBSEmergencyGrainLimit cbs grain < l then do {
        aver (prev = 0 \<or> CBSEmergencyGrainLimit cbs prev < grain);
        cbsDelete_grain_place grain (CBSEmergencyGrainNext cbs grain) l cbs
      } else Some (prev, grain))"

definition cbsDeleteFromEmergencyBlockList :: "mword \<Rightarrow> mword \<Rightarrow> CBSStruct \<Rightarrow> (Res \<times> CBSStruct) option" where
  "cbsDeleteFromEmergencyBlockList b l cbs = do {
     aver (mayUseInline cbs);
     p \<leftarrow> cbsDelete_block_place 0 (emergencyBlockList cbs) b l cbs;
     (case p of
        None \<Rightarrow> Some (ResFAIL, cbs)
      | Some (prev, block) \<Rightarrow>
          if block \<noteq> 0 then do {
            let blockLimit = CBSEmergencyBlockLimit cbs block;
            aver (block < blockLimit);
            aver (blockLimit \<ge> l);
            if block \<le> b \<and> l \<le> blockLimit then do {
              let cbs = (if prev = 0 then cbs\<lparr>emergencyBlockList := CBSEmergencyBlockNext cbs block\<rparr>
                         else CBSEmergencyBlockSetNext prev (CBSEmergencyBlockNext cbs block) cbs);
              (res, cbs) \<leftarrow> (if block < b then cbsAddToEmergencyLists block b cbs else Some (ResOK, cbs));
              if res \<noteq> ResOK then Some (res, cbs)
              else if l < blockLimit then cbsAddToEmergencyLists l blockLimit cbs
              else Some (ResOK, cbs)
            } else Some (ResFAIL, cbs)
          } else Some (ResFAIL, cbs))
   }"

definition cbsDeleteFromEmergencyGrainList :: "mword \<Rightarrow> mword \<Rightarrow> CBSStruct \<Rightarrow> (Res \<times> CBSStruct) option" where
  "cbsDeleteFromEmergencyGrainList b l cbs = do {
     aver (mayUseInline cbs);
     if AddrOffset b l \<noteq> CBSEmergencyGrainSize cbs then Some (ResFAIL, cbs)
     else do {
       (prev, grain) \<leftarrow> cbsDelete_grain_place 0 (emergencyGrainList cbs) l cbs;
       if grain \<noteq> 0 then do {
         let grainLimit = CBSEmergencyGrainLimit cbs grain;
         aver (grainLimit \<ge> l);
         if grain \<le> b \<and> l \<le> grainLimit then do {
           aver (grain = b);
           aver (grainLimit = l);
           Some (ResOK, if prev = 0 then cbs\<lparr>emergencyGrainList := CBSEmergencyGrainNext cbs grain\<rparr>
                        else CBSEmergencyGrainSetNext prev (CBSEmergencyGrainNext cbs grain) cbs)
         } else Some (ResFAIL, cbs)
       } else Some (ResFAIL, cbs)
     }
   }"

definition CBSDelete :: "mword \<Rightarrow> mword \<Rightarrow> CBSStruct \<Rightarrow> (Res \<times> CBSStruct) option" where
  "CBSDelete b l cbs = do {
     aver (CBSCheck cbs);
     cbs \<leftarrow> CBSEnter cbs;
     aver (b \<noteq> 0);
     aver (l > b);
     aver (WordIsAligned b (alignment cbs));
     aver (WordIsAligned l (alignment cbs));
     (res, cbs) \<leftarrow> cbsDeleteFromTree b l cbs;
     (res, cbs) \<leftarrow>
       (if mayUseInline cbs then do {
          aver (res = ResOK \<or> res = ResFAIL);
          (res, cbs) \<leftarrow>
            (if res = ResFAIL then do {
               (res, cbs) \<leftarrow> cbsDeleteFromEmergencyBlockList b l cbs;
               if res = ResFAIL then cbsDeleteFromEmergencyGrainList b l cbs else Some (res, cbs)
             } else Some (res, cbs));
          cbs \<leftarrow> (if res = ResOK then cbsFlushEmergencyLists cbs else Some cbs);
          Some (res, cbs)
        } else Some (res, cbs));
     cbs \<leftarrow> CBSLeave cbs;
     Some (res, cbs)
   }"

subsection \<open>Searching for a size\<close>

datatype CBSFindDelete = CBSFindDeleteNONE | CBSFindDeleteLOW | CBSFindDeleteHIGH | CBSFindDeleteENTIRE

definition cbsFindDeleteRange ::
  "mword \<Rightarrow> mword \<Rightarrow> mword \<Rightarrow> (mword \<Rightarrow> mword \<Rightarrow> CBSStruct \<Rightarrow> (Res \<times> CBSStruct) option) \<Rightarrow> CBSFindDelete \<Rightarrow> CBSStruct \<Rightarrow>
    ((mword \<times> mword) \<times> CBSStruct) option" where
  "cbsFindDeleteRange b l sz del findDelete cbs = do {
     aver (CBSCheck cbs);
     aver (b < l);
     aver (sz > 0);
     aver (AddrOffset b l \<ge> sz);
     let callDelete = (findDelete \<noteq> CBSFindDeleteNONE);
     let l' = (if findDelete = CBSFindDeleteLOW then b + sz else l);
     let b' = (if findDelete = CBSFindDeleteHIGH then l - sz else b);
     if callDelete then do {
       (res, cbs) \<leftarrow> del b' l' cbs;
       aver (res = ResOK);
       Some ((b', l'), cbs)
     } else Some ((b', l'), cbs)
   }"

text \<open>A range that was found and the function that deletes from where it was found.\<close>

type_synonym cbs_found = "(mword \<times> mword \<times> (mword \<Rightarrow> mword \<Rightarrow> CBSStruct \<Rightarrow> (Res \<times> CBSStruct) option)) option"

partial_function (option) cbsFindFirst_blocks :: "mword \<Rightarrow> mword \<Rightarrow> cbs_found \<Rightarrow> CBSStruct \<Rightarrow> cbs_found option" where
  "cbsFindFirst_blocks block sz found cbs =
     (if block \<noteq> 0 \<and> (found = None \<or> block < fst (the found))
      then if CBSEmergencyBlockSize cbs block \<ge> sz
           then Some (Some (block, CBSEmergencyBlockLimit cbs block, cbsDeleteFromEmergencyBlockList))
           else cbsFindFirst_blocks (CBSEmergencyBlockNext cbs block) sz found cbs
      else Some found)"

definition CBSFindFirst :: "mword \<Rightarrow> CBSFindDelete \<Rightarrow> CBSStruct \<Rightarrow> ((mword \<times> mword) option \<times> CBSStruct) option" where
  "CBSFindFirst sz findDelete cbs = do {
     aver (CBSCheck cbs);
     cbs \<leftarrow> CBSEnter cbs;
     aver (sz > 0);
     aver (WordIsAligned sz (alignment cbs));
     aver (fastFind cbs);
     cbs \<leftarrow> cbsFlushEmergencyLists cbs;
     (node, tree, s) \<leftarrow> SplayFindFirst (splayTree cbs) (cbsTestNode sz) (cbsTestTree sz) (nodes cbs);
     let cbs = cbs\<lparr>splayTree := tree, nodes := s\<rparr>;
     aver (case node of None \<Rightarrow> True | Some block \<Rightarrow> CBSBlockSize (block_at cbs block) \<ge> sz);
     let found = (case node of None \<Rightarrow> None
       | Some block \<Rightarrow> Some (CBSBlockBase (block_at cbs block), CBSBlockLimit (block_at cbs block), cbsDeleteFromTree));
     found \<leftarrow> cbsFindFirst_blocks (emergencyBlockList cbs) sz found cbs;
     let grain = emergencyGrainList cbs;
     let found = (if grain \<noteq> 0 \<and> sz \<le> CBSEmergencyGrainSize cbs \<and> (found = None \<or> grain < fst (the found))
       then Some (grain, CBSEmergencyGrainLimit cbs grain, cbsDeleteFromEmergencyGrainList) else found);
     (range, cbs) \<leftarrow> (case found of
         None \<Rightarrow> Some (None, cbs)
       | Some (b, l, del) \<Rightarrow> do {
           aver (AddrOffset b l \<ge> sz);
           (range, cbs) \<leftarrow> cbsFindDeleteRange b l sz del findDelete cbs;
           Some (Some range, cbs)
         });
     cbs \<leftarrow> CBSLeave cbs;
     Some (range, cbs)
   }"

partial_function (option) cbsFindLast_blocks :: "mword \<Rightarrow> mword \<Rightarrow> cbs_found \<Rightarrow> CBSStruct \<Rightarrow> cbs_found option" where
  "cbsFindLast_blocks block sz found cbs =
     (if block \<noteq> 0
      then cbsFindLast_blocks (CBSEmergencyBlockNext cbs block) sz
        (if CBSEmergencyBlockSize cbs block \<ge> sz \<and> (found = None \<or> block > fst (the found))
         then Some (block, CBSEmergencyBlockLimit cbs block, cbsDeleteFromEmergencyBlockList) else found) cbs
      else Some found)"

partial_function (option) last_grain :: "CBSStruct \<Rightarrow> mword \<Rightarrow> mword option" where
  "last_grain cbs grain =
     (if CBSEmergencyGrainNext cbs grain \<noteq> 0 then last_grain cbs (CBSEmergencyGrainNext cbs grain) else Some grain)"

definition CBSFindLast :: "mword \<Rightarrow> CBSFindDelete \<Rightarrow> CBSStruct \<Rightarrow> ((mword \<times> mword) option \<times> CBSStruct) option" where
  "CBSFindLast sz findDelete cbs = do {
     aver (CBSCheck cbs);
     cbs \<leftarrow> CBSEnter cbs;
     aver (sz > 0);
     aver (WordIsAligned sz (alignment cbs));
     aver (fastFind cbs);
     cbs \<leftarrow> cbsFlushEmergencyLists cbs;
     (node, tree, s) \<leftarrow> SplayFindLast (splayTree cbs) (cbsTestNode sz) (cbsTestTree sz) (nodes cbs);
     let cbs = cbs\<lparr>splayTree := tree, nodes := s\<rparr>;
     aver (case node of None \<Rightarrow> True | Some block \<Rightarrow> CBSBlockSize (block_at cbs block) \<ge> sz);
     let found = (case node of None \<Rightarrow> None
       | Some block \<Rightarrow> Some (CBSBlockBase (block_at cbs block), CBSBlockLimit (block_at cbs block), cbsDeleteFromTree));
     found \<leftarrow> cbsFindLast_blocks (emergencyBlockList cbs) sz found cbs;
     found \<leftarrow> (if emergencyGrainList cbs \<noteq> 0 \<and> sz \<le> CBSEmergencyGrainSize cbs
       then do {
         grain \<leftarrow> last_grain cbs (emergencyGrainList cbs);
         Some (if found = None \<or> grain > fst (the found)
               then Some (grain, CBSEmergencyGrainLimit cbs grain, cbsDeleteFromEmergencyGrainList) else found)
       } else Some found);
     (range, cbs) \<leftarrow> (case found of
         None \<Rightarrow> Some (None, cbs)
       | Some (b, l, del) \<Rightarrow> do {
           aver (AddrOffset b l \<ge> sz);
           (range, cbs) \<leftarrow> cbsFindDeleteRange b l sz del findDelete cbs;
           Some (Some range, cbs)
         });
     cbs \<leftarrow> CBSLeave cbs;
     Some (range, cbs)
   }"

text \<open>The scan of the whole block list for the largest; the running size starts at that of the tree.\<close>

partial_function (option) cbsFindLargest_blocks :: "mword \<Rightarrow> mword \<Rightarrow> cbs_found \<Rightarrow> CBSStruct \<Rightarrow> (mword \<times> cbs_found) option" where
  "cbsFindLargest_blocks block sz found cbs =
     (if block \<noteq> 0
      then if CBSEmergencyBlockSize cbs block \<ge> sz
           then cbsFindLargest_blocks (CBSEmergencyBlockNext cbs block) (CBSEmergencyBlockSize cbs block)
             (Some (block, CBSEmergencyBlockLimit cbs block, cbsDeleteFromEmergencyBlockList)) cbs
           else cbsFindLargest_blocks (CBSEmergencyBlockNext cbs block) sz found cbs
      else Some (sz, found))"

definition CBSFindLargest :: "CBSFindDelete \<Rightarrow> CBSStruct \<Rightarrow> ((mword \<times> mword) option \<times> CBSStruct) option" where
  "CBSFindLargest findDelete cbs = do {
     aver (CBSCheck cbs);
     cbs \<leftarrow> CBSEnter cbs;
     aver (fastFind cbs);
     cbs \<leftarrow> cbsFlushEmergencyLists cbs;
     r \<leftarrow> SplayRoot (splayTree cbs);
     (sz, found, cbs) \<leftarrow> (case r of
         None \<Rightarrow> Some (0, None, cbs)
       | Some rt \<Rightarrow> do {
           let sz = prop_of (nodes cbs) rt;
           (node, tree, s) \<leftarrow> SplayFindFirst (splayTree cbs) (cbsTestNode sz) (cbsTestTree sz) (nodes cbs);
           let cbs = cbs\<lparr>splayTree := tree, nodes := s\<rparr>;
           aver (node \<noteq> None);
           block \<leftarrow> node;
           aver (CBSBlockSize (block_at cbs block) \<ge> sz);
           Some (sz, Some (CBSBlockBase (block_at cbs block), CBSBlockLimit (block_at cbs block), cbsDeleteFromTree), cbs)
         });
     (sz, found) \<leftarrow> cbsFindLargest_blocks (emergencyBlockList cbs) sz found cbs;
     let grain = emergencyGrainList cbs;
     let (sz, found) = (if found = None \<and> grain \<noteq> 0
       then (CBSEmergencyGrainSize cbs, Some (grain, CBSEmergencyGrainLimit cbs grain, cbsDeleteFromEmergencyGrainList))
       else (sz, found));
     (range, cbs) \<leftarrow> (case found of
         None \<Rightarrow> Some (None, cbs)
       | Some (b, l, del) \<Rightarrow> do {
           (range, cbs) \<leftarrow> cbsFindDeleteRange b l sz del findDelete cbs;
           Some (Some range, cbs)
         });
     cbs \<leftarrow> CBSLeave cbs;
     Some (range, cbs)
   }"

subsection \<open>The ranges of a structure\<close>

definition isolated :: "(mword \<times> mword) list \<Rightarrow> bool" where
  "isolated rs \<longleftrightarrow> (\<forall>r \<in> set rs. fst r < snd r) \<and> sorted_wrt (\<lambda>r r'. snd r < fst r') rs"

definition free_of :: "(mword \<times> mword) list \<Rightarrow> mword set" where
  "free_of rs = (\<Union>r \<in> set rs. {fst r ..< snd r})"

lemma isolated_simps [simp]:
  "isolated []" "isolated [r] \<longleftrightarrow> fst r < snd r"
  "isolated (r # rs) \<longleftrightarrow> fst r < snd r \<and> (\<forall>r' \<in> set rs. snd r < fst r') \<and> isolated rs"
  by (auto simp: isolated_def)

lemma isolated_append [simp]:
  "isolated (rs @ qs) \<longleftrightarrow> isolated rs \<and> isolated qs \<and> (\<forall>r \<in> set rs. \<forall>q \<in> set qs. snd r < fst q)"
  by (auto simp: isolated_def sorted_wrt_append)

lemma free_of_simps [simp]: "free_of [] = {}" "free_of (r # rs) = {fst r ..< snd r} \<union> free_of rs" "free_of (rs @ qs) = free_of rs \<union> free_of qs"
  by (auto simp: free_of_def)

definition range_of :: "(CBSBlockStruct, mword) splay_heap \<Rightarrow> nat \<Rightarrow> mword \<times> mword" where
  "range_of s n = (CBSBlockBase (data_of s n), CBSBlockLimit (data_of s n))"

abbreviation ranges :: "CBSStruct \<Rightarrow> nat list \<Rightarrow> (mword \<times> mword) list" where
  "ranges cbs xs \<equiv> map (range_of (nodes cbs)) xs"

lemma range_of_simps [simp]: "fst (range_of s n) = CBSBlockBase (data_of s n)" "snd (range_of s n) = CBSBlockLimit (data_of s n)"
  by (simp_all add: range_of_def)

lemma range_of_cong: "data_of s' n = data_of s n \<Longrightarrow> range_of s' n = range_of s n"
  by (simp add: range_of_def)

text \<open>The comparison on the blocks, and why every address is a usable key.\<close>

definition at_addr :: "(CBSBlockStruct, mword) splay_heap \<Rightarrow> mword \<Rightarrow> nat \<Rightarrow> Compare" where
  "at_addr s b n = cbsSplayCompare (Some b) (data_of s n)"

lemma at_addr_eq:
  "at_addr s b n = CompareLESS \<longleftrightarrow> b < fst (range_of s n)"
  "at_addr s b n = CompareEQUAL \<longleftrightarrow> fst (range_of s n) \<le> b \<and> b < snd (range_of s n)"
  "at_addr s b n = CompareGREATER \<longleftrightarrow> fst (range_of s n) \<le> b \<and> snd (range_of s n) \<le> b"
  by (auto simp: at_addr_def cbsSplayCompare_def Let_def)

lemma at_addr_classified:
  assumes "isolated (map (range_of s) xs)" and "proper xs"
  shows "classified (at_addr s b) xs"
proof -
  have "sorted_wrt (\<lambda>x y. snd (range_of s x) < fst (range_of s y)) xs" and ne: "\<forall>x \<in> set xs. fst (range_of s x) < snd (range_of s x)"
    using assms(1) by (auto simp: isolated_def sorted_wrt_map)
  then have "sorted_wrt (precedes (at_addr s b)) xs"
  proof (rule_tac sorted_wrt_mono_rel)
    fix x y
    assume "x \<in> set xs" "y \<in> set xs" "snd (range_of s x) < fst (range_of s y)"
    with ne show "precedes (at_addr s b) x y"
      unfolding precedes_def at_addr_eq by (meson le_less_trans less_le_trans not_less order.strict_implies_order)
  qed
  then show ?thesis using assms(2) by (simp add: classified_def proper_def)
qed

definition tree_wf :: "CBSStruct \<Rightarrow> bool" where
  "tree_wf cbs \<longleftrightarrow> compare (splayTree cbs) = Some cbsSplayCompare \<and>
     updateNode (splayTree cbs) = (if fastFind cbs then Some cbsUpdateNode else None)"

lemma class_at_addr: "tree_wf cbs \<Longrightarrow> class_of (splayTree cbs) s (Some b) = at_addr s b"
  by (simp add: tree_wf_def class_of_def at_addr_def fun_eq_iff)

lemma tree_wf_check: "tree_wf cbs \<Longrightarrow> SplayTreeCheck (splayTree cbs)"
  by (simp add: tree_wf_def SplayTreeCheck_def)

interpretation sizes: aggregate cbsUpdateNode "cbsTestNode sz" "cbsTestTree sz" for sz
  by unfold_locales (auto simp: cbsUpdateNode_def cbsTestNode_def cbsTestTree_def Let_def split: option.splits)

lemma current_size: "current (Some cbsUpdateNode) s T \<Longrightarrow> n \<in> set_tree T \<Longrightarrow> CBSBlockSize (data_of s n) \<le> prop_of s n"
  by (induction T) (auto simp: cbsUpdateNode_def Let_def split: option.splits)

subsection \<open>The invariant\<close>

text \<open>The units of the block pool in use are the nodes of the tree.\<close>

definition cbs_inv :: "CBSStruct \<Rightarrow> nat list \<Rightarrow> bool" where
  "cbs_inv cbs xs \<longleftrightarrow> tree_wf cbs \<and> CBSCheck cbs \<and> splay_nodes (splayTree cbs) (nodes cbs) xs \<and> proper xs \<and>
     isolated (ranges cbs xs) \<and> unroundedUnitSize (blockPool cbs) = sizeof_CBSBlockStruct \<and>
     (\<exists>live. pool_inv (blockPool cbs, answers cbs) live \<and> set xs = unat ` live)"

text \<open>What no operation on the tree changes.\<close>

definition same_frame :: "CBSStruct \<Rightarrow> CBSStruct \<Rightarrow> bool" where
  "same_frame c c' \<longleftrightarrow> newMethod c' = newMethod c \<and> deleteMethod c' = deleteMethod c \<and> growMethod c' = growMethod c \<and>
     shrinkMethod c' = shrinkMethod c \<and> minSize c' = minSize c \<and> alignment c' = alignment c \<and> mayUseInline c' = mayUseInline c \<and>
     fastFind c' = fastFind c \<and> inCBS c' = inCBS c \<and> emergencyBlockList c' = emergencyBlockList c \<and>
     emergencyGrainList c' = emergencyGrainList c \<and> words c' = words c"

lemma same_frame_refl [simp]: "same_frame c c"
  by (simp add: same_frame_def)

lemma same_frame_trans: "same_frame a b \<Longrightarrow> same_frame b c \<Longrightarrow> same_frame a c"
  by (simp add: same_frame_def)

lemma inv_update:
  assumes "cbs_inv c xs" and "same_frame c c'" and "becomes (splayTree c) s A (splayTree c') (nodes c') ys"
    and "proper ys" and "isolated (ranges c' ys)"
    and "unroundedUnitSize (blockPool c') = unroundedUnitSize (blockPool c)"
    and "pool_inv (blockPool c', answers c') live" and "set ys = unat ` live"
  shows "cbs_inv c' ys"
proof -
  have wf: "tree_wf c" and chk: "CBSCheck c" and u: "unroundedUnitSize (blockPool c) = sizeof_CBSBlockStruct"
    using assms(1) by (simp_all add: cbs_inv_def)
  obtain p where p: "splayTree c' = (splayTree c)\<lparr>root := p\<rparr>" and sn: "splay_nodes (splayTree c') (nodes c') ys"
    using assms(3) by (auto simp: becomes_def)
  have "tree_wf c'" using wf p assms(2) by (simp add: tree_wf_def same_frame_def)
  moreover have "CBSCheck c'" using chk p assms(2) by (simp add: CBSCheck_def same_frame_def SplayTreeCheck_def)
  moreover have "\<exists>live. pool_inv (blockPool c', answers c') live \<and> set ys = unat ` live" using assms(7,8) by blast
  ultimately show ?thesis unfolding cbs_inv_def using sn assms(4-6) u by simp
qed

text \<open>An access to the tree that keeps its nodes.\<close>

lemma inv_access:
  assumes "cbs_inv c xs" and "becomes (splayTree c) (nodes c) A tree s xs"
  shows "cbs_inv (c\<lparr>splayTree := tree, nodes := s\<rparr>) xs" and "data_of s = data_of (nodes c)"
    and "same_frame c (c\<lparr>splayTree := tree, nodes := s\<rparr>)"
proof -
  show d: "data_of s = data_of (nodes c)" using assms(2) by (simp add: becomes_def same_but_def)
  show f: "same_frame c (c\<lparr>splayTree := tree, nodes := s\<rparr>)" by (simp add: same_frame_def)
  have r: "ranges (c\<lparr>splayTree := tree, nodes := s\<rparr>) xs = ranges c xs" by (simp add: d range_of_def)
  obtain live where l: "pool_inv (blockPool c, answers c) live" "set xs = unat ` live" using assms(1) by (auto simp: cbs_inv_def)
  have pr: "proper xs" "isolated (ranges c xs)" using assms(1) by (simp_all add: cbs_inv_def)
  show "cbs_inv (c\<lparr>splayTree := tree, nodes := s\<rparr>) xs"
    by (rule inv_update [OF assms(1) f _ pr(1) pr(2) [folded r] _ _ l(2), of "nodes c" A]) (use assms(2) l(1) in simp_all)
qed

definition set_block :: "nat \<Rightarrow> CBSBlockStruct \<Rightarrow> CBSStruct \<Rightarrow> CBSStruct" where
  "set_block block d c = c\<lparr>nodes := (nodes c)\<lparr>data_of := (data_of (nodes c))(block := d)\<rparr>\<rparr>"

lemma set_block_simps [simp]:
  "splayTree (set_block n d c) = splayTree c" "fastFind (set_block n d c) = fastFind c" "blockPool (set_block n d c) = blockPool c"
  "answers (set_block n d c) = answers c" "calls (set_block n d c) = calls c" "same_frame c (set_block n d c)"
  "left_of (nodes (set_block n d c)) = left_of (nodes c)" "right_of (nodes (set_block n d c)) = right_of (nodes c)"
  "prop_of (nodes (set_block n d c)) = prop_of (nodes c)" "data_of (nodes (set_block n d c)) = (data_of (nodes c))(n := d)"
  "CBSCheck (set_block n d c) = CBSCheck c" "tree_wf (set_block n d c) = tree_wf c"
  by (simp_all add: set_block_def same_frame_def CBSCheck_def tree_wf_def)

lemma CBSBlockSet_eq:
  "CBSBlockSetBase n b c = set_block n (block_at c n\<lparr>CBSBlockBase := b\<rparr>) c"
  "CBSBlockSetLimit n l c = set_block n (block_at c n\<lparr>CBSBlockLimit := l\<rparr>) c"
  by (simp_all add: CBSBlockSetBase_def CBSBlockSetLimit_def set_block_def)

lemma isolated_at:
  assumes "isolated (map (range_of s) xs)" and "n \<in> set xs"
  shows "CBSBlockBase (data_of s n) < CBSBlockLimit (data_of s n)"
  using assms by (auto simp: isolated_def)

lemma key_equal:
  assumes "isolated (map (range_of s) xs)" and "n \<in> set xs"
  shows "at_addr s (CBSBlockBase (data_of s n)) n = CompareEQUAL"
  using isolated_at [OF assms] by (simp add: at_addr_eq)

lemma cbsBlockRefresh_ok:
  assumes inv: "cbs_inv c xs" and n: "n \<in> set xs" and iso: "isolated (ranges (set_block n d c) xs)"
  shows "\<exists>c'. cbsBlockRefresh n (set_block n d c) = Some c' \<and> cbs_inv c' xs \<and> same_frame c c' \<and> calls c' = calls c \<and>
    data_of (nodes c') = (data_of (nodes c))(n := d)"
proof -
  note i = inv [unfolded cbs_inv_def]
  let ?c = "set_block n d c"
  have wf: "tree_wf c" and pr: "proper xs" using i by simp_all
  obtain T where T: "tree_at (splayTree c) (nodes c) T" "inorder T = xs" using i by (auto simp: splay_nodes_def)
  obtain live where live: "pool_inv (blockPool c, answers c) live" "set xs = unat ` live" using i by blast
  have is_tree: "is_tree (nodes ?c) (root (splayTree c)) T"
    using T(1) is_tree_cong [of T "nodes ?c" "nodes c"] by (simp add: tree_at_def)
  show ?thesis
  proof (cases "fastFind c")
    case False
    then have u: "updateNode (splayTree c) = None" using wf by (simp add: tree_wf_def)
    have "splay_nodes (splayTree c) (nodes ?c) xs"
      using is_tree T tree_wf_check [OF wf] u unfolding splay_nodes_def tree_at_def by auto
    then have "becomes (splayTree c) (nodes ?c) {} (splayTree ?c) (nodes ?c) xs" by (simp add: becomes_refl)
    then have "cbs_inv ?c xs"
      by (intro inv_update [OF inv _ _ pr iso _ _ live(2)]) (use live(1) in simp_all)
    then show ?thesis using False by (simp add: cbsBlockRefresh_def)
  next
    case True
    then have u: "updateNode (splayTree c) = Some cbsUpdateNode" using wf by (simp add: tree_wf_def)
    have iso': "isolated (map (range_of (nodes ?c)) xs)" using iso .
    have cl: "classified (class_of (splayTree c) (nodes ?c) (Some (CBSBlockBase d))) (inorder T)"
      using at_addr_classified [OF iso' pr] class_at_addr [OF wf] T(2) by simp
    have eq: "class_of (splayTree c) (nodes ?c) (Some (CBSBlockBase d)) n = CompareEQUAL"
      using key_equal [OF iso' n] class_at_addr [OF wf] by simp
    have nT: "n \<in> set_tree T" using n T(2) by (metis set_inorder)
    obtain tree s where r: "SplayNodeRefresh (splayTree c) n (Some (CBSBlockBase d)) (nodes ?c) = Some (tree, s)"
      "becomes (splayTree c) (nodes ?c) (set_tree T \<union> {sides}) tree s (inorder T)"
      using SplayNodeRefresh_ok [OF tree_wf_check [OF wf] is_tree _ cl _ nT eq, of "nodes c"] T(1) u
      by (auto simp: tree_at_def)
    define c' where "c' = ?c\<lparr>splayTree := tree, nodes := s\<rparr>"
    have d: "data_of s = (data_of (nodes c))(n := d)" using r(2) by (simp add: becomes_def same_but_def)
    have f: "same_frame c c'" by (simp add: c'_def same_frame_def set_block_def)
    have "ranges c' xs = ranges ?c xs" by (simp add: c'_def d range_of_def)
    then have iso2: "isolated (ranges c' xs)" using iso by (rule ssubst)
    have inv': "cbs_inv c' xs"
      by (rule inv_update [OF inv f _ pr iso2 _ _ live(2), of "nodes ?c" "set_tree T \<union> {sides}"])
        (use r(2) T(2) live(1) in \<open>simp_all add: c'_def\<close>)
    have "CBSBlockSize (block_at c' n) \<le> prop_of (nodes c') n"
    proof -
      obtain T' where T': "tree_at (splayTree c') (nodes c') T'" "inorder T' = xs"
        using inv' by (auto simp: cbs_inv_def splay_nodes_def)
      have "updateNode (splayTree c') = Some cbsUpdateNode" using r(2) u by (auto simp: c'_def becomes_def)
      moreover have "n \<in> set_tree T'" using n T'(2) by (metis set_inorder)
      ultimately show ?thesis using T'(1) current_size [of "nodes c'" T' n] by (simp add: tree_at_def)
    qed
    then have "cbsBlockRefresh n ?c = Some c'"
      using True r(1) by (simp add: cbsBlockRefresh_def keyOfCBSBlock_def Let_def c'_def)
    then show ?thesis using inv' f d by (auto simp: c'_def)
  qed
qed

lemma calls_inv [simp]: "cbs_inv (c\<lparr>calls := ev\<rparr>) xs = cbs_inv c xs"
  by (simp add: cbs_inv_def tree_wf_def CBSCheck_def)

lemma calls_frame [simp]: "same_frame c (c'\<lparr>calls := ev\<rparr>) = same_frame c c'"
  by (simp add: same_frame_def)

lemma block_check: "isolated (map (range_of (nodes c)) xs) \<Longrightarrow> proper xs \<Longrightarrow> n \<in> set xs \<Longrightarrow> CBSBlockCheck c n"
  using isolated_at [of "nodes c" xs n] by (cases n) (auto simp: CBSBlockCheck_def SplayNodeCheck_def proper_def)

text \<open>The calls a change of size makes.\<close>

definition shrink_calls :: "CBSStruct \<Rightarrow> nat \<Rightarrow> mword \<Rightarrow> mword \<Rightarrow> cbs_call list" where
  "shrink_calls c n old new =
     (if deleteMethod c \<and> old \<ge> minSize c \<and> new < minSize c then [DeleteCall n old new]
      else if shrinkMethod c \<and> new \<ge> minSize c then [ShrinkCall n old new] else [])"

definition grow_calls :: "CBSStruct \<Rightarrow> nat \<Rightarrow> mword \<Rightarrow> mword \<Rightarrow> cbs_call list" where
  "grow_calls c n old new =
     (if newMethod c \<and> old < minSize c \<and> new \<ge> minSize c then [NewCall n old new]
      else if growMethod c \<and> old \<ge> minSize c then [GrowCall n old new] else [])"

lemma cbsBlockShrink_ok:
  assumes inv: "cbs_inv c xs" and n: "n \<in> set xs" and iso: "isolated (ranges (set_block n d c) xs)" and sz: "CBSBlockSize d < old"
  shows "\<exists>c'. cbsBlockShrink n old (set_block n d c) = Some c' \<and> cbs_inv c' xs \<and> same_frame c c' \<and>
    calls c' = calls c @ shrink_calls c n old (CBSBlockSize d) \<and> data_of (nodes c') = (data_of (nodes c))(n := d)"
proof -
  obtain c' where r: "cbsBlockRefresh n (set_block n d c) = Some c'" "cbs_inv c' xs" "same_frame c c'" "calls c' = calls c"
    "data_of (nodes c') = (data_of (nodes c))(n := d)" using cbsBlockRefresh_ok [OF inv n iso] by blast
  have chk: "CBSCheck c" "proper xs" using inv by (simp_all add: cbs_inv_def)
  have fields: "deleteMethod c' = deleteMethod c" "shrinkMethod c' = shrinkMethod c" "minSize c' = minSize c"
    using r(3) by (simp_all add: same_frame_def)
  have "cbsBlockShrink n old (set_block n d c) = Some (c'\<lparr>calls := calls c @ shrink_calls c n old (CBSBlockSize d)\<rparr>)"
    using chk block_check [OF iso chk(2) n] sz r(1,4) fields
    by (cases c') (simp add: cbsBlockShrink_def shrink_calls_def Let_def)
  then show ?thesis using r by auto
qed

lemma cbsBlockGrow_ok:
  assumes inv: "cbs_inv c xs" and n: "n \<in> set xs" and iso: "isolated (ranges (set_block n d c) xs)" and sz: "old < CBSBlockSize d"
  shows "\<exists>c'. cbsBlockGrow n old (set_block n d c) = Some c' \<and> cbs_inv c' xs \<and> same_frame c c' \<and>
    calls c' = calls c @ grow_calls c n old (CBSBlockSize d) \<and> data_of (nodes c') = (data_of (nodes c))(n := d)"
proof -
  obtain c' where r: "cbsBlockRefresh n (set_block n d c) = Some c'" "cbs_inv c' xs" "same_frame c c'" "calls c' = calls c"
    "data_of (nodes c') = (data_of (nodes c))(n := d)" using cbsBlockRefresh_ok [OF inv n iso] by blast
  have chk: "CBSCheck c" "proper xs" using inv by (simp_all add: cbs_inv_def)
  have fields: "newMethod c' = newMethod c" "growMethod c' = growMethod c" "minSize c' = minSize c"
    using r(3) by (simp_all add: same_frame_def)
  have "cbsBlockGrow n old (set_block n d c) = Some (c'\<lparr>calls := calls c @ grow_calls c n old (CBSBlockSize d)\<rparr>)"
    using chk block_check [OF iso chk(2) n] sz r(1,4) fields
    by (cases c') (simp add: cbsBlockGrow_def grow_calls_def Let_def)
  then show ?thesis using r by auto
qed

lemma splay_nodes_cong:
  assumes "\<And>n. n \<in> set xs \<Longrightarrow> left_of s' n = left_of s n \<and> right_of s' n = right_of s n \<and> prop_of s' n = prop_of s n \<and> data_of s' n = data_of s n"
  shows "splay_nodes tree s' xs = splay_nodes tree s xs"
proof -
  have "tree_at tree s' T = tree_at tree s T" if "inorder T = xs" for T
  proof -
    have st: "set_tree T = set xs" using that by (metis set_inorder)
    have "is_tree s' (root tree) T = is_tree s (root tree) T" by (rule is_tree_cong) (use assms st in blast)
    moreover have "current (updateNode tree) s' T = current (updateNode tree) s T" by (rule current_cong) (use assms st in blast)
    ultimately show ?thesis by (simp add: tree_at_def)
  qed
  then show ?thesis by (auto simp: splay_nodes_def)
qed

lemma at_addr_unique:
  assumes "isolated (map (range_of s) xs)" and "x \<in> set xs" and "y \<in> set xs"
    and "at_addr s b x = CompareEQUAL" and "at_addr s b y = CompareEQUAL"
  shows "x = y"
proof -
  obtain i j where ij: "i < length xs" "x = xs ! i" "j < length xs" "y = xs ! j" using assms(2,3) by (auto simp: in_set_conv_nth)
  have lt: "snd (range_of s (xs ! i)) < fst (range_of s (xs ! j))" if "i < j" "j < length xs" for i j
    using assms(1) that by (auto simp: isolated_def sorted_wrt_iff_nth_less)
  have "\<not> i < j" "\<not> j < i" using lt [of i j] lt [of j i] ij assms(4,5) by (auto simp: at_addr_eq)
  then show ?thesis using ij by (cases i j rule: linorder_cases) auto
qed

lemma isolated_remove1: "isolated (map f xs) \<Longrightarrow> isolated (map f (remove1 n xs))"
  unfolding isolated_def
proof (induction xs)
  case (Cons x xs)
  have "set (remove1 n xs) \<subseteq> set xs" by (rule set_remove1_subset)
  with Cons show ?case by auto
qed simp

lemma proper_remove1: "proper xs \<Longrightarrow> proper (remove1 n xs)"
  using set_remove1_subset [of n xs] by (auto simp: proper_def)

definition delete_calls :: "CBSStruct \<Rightarrow> nat \<Rightarrow> mword \<Rightarrow> cbs_call list" where
  "delete_calls c n old = (if deleteMethod c \<and> old \<ge> minSize c then [DeleteCall n old 0] else [])"

lemma cbsBlockDelete_ok:
  assumes inv: "cbs_inv c xs" and n: "n \<in> set xs"
  shows "\<exists>c'. cbsBlockDelete n c = Some c' \<and> cbs_inv c' (remove1 n xs) \<and> same_frame c c' \<and>
    calls c' = calls c @ delete_calls c n (CBSBlockSize (block_at c n)) \<and>
    (\<forall>m. m \<noteq> n \<longrightarrow> data_of (nodes c') m = data_of (nodes c) m)"
proof -
  note i = inv [unfolded cbs_inv_def]
  have wf: "tree_wf c" and pr: "proper xs" and iso: "isolated (ranges c xs)" and sn: "splay_nodes (splayTree c) (nodes c) xs"
    and sz: "unroundedUnitSize (blockPool c) = sizeof_CBSBlockStruct" and chk: "CBSCheck c" using i by simp_all
  obtain live where live: "pool_inv (blockPool c, answers c) live" "set xs = unat ` live" using i by blast
  let ?k = "CBSBlockBase (block_at c n)"
  have cl: "classified (class_of (splayTree c) (nodes c) (Some ?k)) xs" using at_addr_classified [OF iso pr] class_at_addr [OF wf] by simp
  have eq: "class_of (splayTree c) (nodes c) (Some ?k) n = CompareEQUAL" using key_equal [OF iso n] class_at_addr [OF wf] by simp
  have uniq: "\<forall>x \<in> set xs. class_of (splayTree c) (nodes c) (Some ?k) x = CompareEQUAL \<longrightarrow> x = n"
    using at_addr_unique [OF iso _ n] eq class_at_addr [OF wf] by simp
  have n0: "n \<noteq> 0" using n pr unfolding proper_def by metis
  obtain tree s where del: "SplayTreeDelete (splayTree c) n (Some ?k) (nodes c) = Some (ResOK, tree, s)"
    "becomes (splayTree c) (nodes c) (set xs \<union> {sides}) tree s (remove1 n xs)"
  proof -
    have ex: "\<exists>x \<in> set xs. class_of (splayTree c) (nodes c) (Some ?k) x = CompareEQUAL" using eq n by blast
    show thesis using that SplayTreeDelete_ok [OF sn cl n0 uniq] unfolding if_P [OF ex] by blast
  qed
  define c1 where "c1 = set_block n (block_at c n\<lparr>CBSBlockLimit := ?k\<rparr>) (c\<lparr>splayTree := tree, nodes := s\<rparr>)"
  have ds: "data_of s = data_of (nodes c)" using del(2) by (simp add: becomes_def same_but_def)
  obtain p where p: "p \<in> live" "unat p = n" using n live(2) by auto
  have on: "of_nat n = p" unfolding p(2) [symmetric] by simp
  obtain m where m: "MFSFree (blockPool c) p sizeof_CBSBlockStruct = Some m" "pool_inv (m, answers c) (live - {p})"
    "unroundedUnitSize m = sizeof_CBSBlockStruct"
  proof -
    obtain q where q: "pool_free (blockPool c, answers c) p = Some q" "pool_inv q (live - {p})" using mfs.dealloc_law [OF live(1) p(1)] by blast
    then obtain m where "MFSFree (blockPool c) p sizeof_CBSBlockStruct = Some m" "q = (m, answers c)" using sz by (auto simp: pool_free_def)
    moreover from this(1) have "unroundedUnitSize m = sizeof_CBSBlockStruct" using sz by (auto simp: MFSFree_def run_iff)
    ultimately show thesis using that q(2) by simp
  qed
  define c' where "c' = c1\<lparr>blockPool := m, calls := calls c @ delete_calls c n (CBSBlockSize (block_at c n))\<rparr>"
  have run: "cbsBlockDelete n c = Some c'"
    using chk block_check [OF iso pr n] del(1) m(1)
    by (simp add: cbsBlockDelete_def keyOfCBSBlock_def Let_def CBSBlockSet_eq ds on c1_def set_block_def delete_calls_def c'_def)
  have f: "same_frame c c'" by (simp add: c'_def c1_def set_block_def same_frame_def)
  have dc: "data_of (nodes c') = (data_of (nodes c))(n := block_at c n\<lparr>CBSBlockLimit := ?k\<rparr>)" by (simp add: c'_def c1_def ds)
  have nr: "n \<notin> set (remove1 n xs)" using pr by (simp add: proper_def)
  have "splay_nodes tree (nodes c') (remove1 n xs)"
  proof -
    have "splay_nodes tree s (remove1 n xs)" using del(2) by (simp add: becomes_def)
    moreover have "splay_nodes tree (nodes c') (remove1 n xs) = splay_nodes tree s (remove1 n xs)"
      by (rule splay_nodes_cong) (use nr in \<open>auto simp: c'_def c1_def\<close>)
    ultimately show ?thesis by simp
  qed
  then have b: "becomes (splayTree c) (nodes c') {} (splayTree c') (nodes c') (remove1 n xs)"
    using del(2) by (simp add: becomes_def c'_def c1_def)
  have "ranges c' (remove1 n xs) = ranges c (remove1 n xs)" using nr dc by (auto simp: range_of_def)
  then have iso': "isolated (ranges c' (remove1 n xs))" using isolated_remove1 [OF iso, of n] by (rule ssubst)
  have "set (remove1 n xs) = unat ` (live - {p})"
  proof -
    have "inj (unat :: mword \<Rightarrow> nat)" by (rule injI) (simp add: word_unat_eq_iff)
    then have "unat ` (live - {p}) = unat ` live - {unat p}" by (simp add: image_set_diff)
    moreover have "set (remove1 n xs) = set xs - {n}" using pr by (intro set_remove1_eq) (simp add: proper_def)
    ultimately show ?thesis using live(2) p(2) by simp
  qed
  then have "cbs_inv c' (remove1 n xs)"
    by (intro inv_update [OF inv f b proper_remove1 [OF pr] iso', of "live - {p}"]) (use m(2,3) sz in \<open>simp_all add: c'_def c1_def\<close>)
  then show ?thesis using run f dc by (auto simp: c'_def)
qed

definition new_calls :: "CBSStruct \<Rightarrow> nat \<Rightarrow> mword \<Rightarrow> cbs_call list" where
  "new_calls c n new = (if newMethod c \<and> new \<ge> minSize c then [NewCall n 0 new] else [])"

lemma at_addr_filter:
  assumes "isolated (map (range_of s) (as @ bs))" and "\<forall>x \<in> set as. snd (range_of s x) \<le> b" and "\<forall>x \<in> set bs. b < fst (range_of s x)"
  shows "filter (\<lambda>x. at_addr s b x = CompareGREATER) (as @ bs) = as" and "filter (\<lambda>x. at_addr s b x = CompareLESS) (as @ bs) = bs"
    and "\<forall>x \<in> set (as @ bs). at_addr s b x \<noteq> CompareEQUAL"
proof -
  have G: "\<forall>x \<in> set as. at_addr s b x = CompareGREATER"
    using assms(2) isolated_at [OF assms(1)] unfolding at_addr_eq range_of_simps by (fastforce intro: less_imp_le order_trans)
  have L: "\<forall>x \<in> set bs. at_addr s b x = CompareLESS" using assms(3) unfolding at_addr_eq by blast
  show "filter (\<lambda>x. at_addr s b x = CompareGREATER) (as @ bs) = as" "filter (\<lambda>x. at_addr s b x = CompareLESS) (as @ bs) = bs"
    using G L by (auto simp: filter_id_conv filter_empty_conv)
  show "\<forall>x \<in> set (as @ bs). at_addr s b x \<noteq> CompareEQUAL" using G L by auto
qed

lemma cbsBlockNew_ok:
  assumes inv: "cbs_inv c (as @ bs)" and iso: "isolated (ranges c as @ (b, l) # ranges c bs)"
  shows "\<exists>res c'. cbsBlockNew b l c = Some (res, c') \<and> same_frame c c' \<and>
    (if res = ResOK
     then \<exists>n. n \<notin> set (as @ bs) \<and> cbs_inv c' (as @ n # bs) \<and> data_of (nodes c') = (data_of (nodes c))(n := \<lparr>CBSBlockBase = b, CBSBlockLimit = l\<rparr>) \<and>
       calls c' = calls c @ new_calls c n (AddrOffset b l)
     else cbs_inv c' (as @ bs) \<and> nodes c' = nodes c \<and> calls c' = calls c)"
proof -
  note i = inv [unfolded cbs_inv_def]
  have wf: "tree_wf c" and pr: "proper (as @ bs)" and isoc: "isolated (ranges c (as @ bs))" and sn: "splay_nodes (splayTree c) (nodes c) (as @ bs)"
    and sz: "unroundedUnitSize (blockPool c) = sizeof_CBSBlockStruct" and chk: "CBSCheck c" using i by simp_all
  obtain live where live: "pool_inv (blockPool c, answers c) live" "set (as @ bs) = unat ` live" using i by blast
  obtain res p m an where a: "pool_alloc (blockPool c, answers c) = Some (res, p, (m, an))"
    "pool_inv (m, an) (if res = ResOK then insert p live else live)" "res = ResOK \<longrightarrow> p \<notin> live"
    using mfs.alloc_law [OF live(1)] by (metis surj_pair)
  have alloc: "MFSAlloc (blockPool c) sizeof_CBSBlockStruct (answers c) = Some (res, p, m, an)" using a(1) sz by (simp add: pool_alloc_def)
  have usz: "unroundedUnitSize m = sizeof_CBSBlockStruct"
  proof -
    obtain es fs where "mfs_inv (blockPool c) es fs live" "arena_ok (extendBy (blockPool c)) es (answers c)"
      using live(1) by (auto simp: pool_inv_def)
    from MFSAlloc_ok [OF this] show ?thesis using alloc sz by (auto simp: same_sizes_def)
  qed
  define c1 where "c1 = c\<lparr>blockPool := m, answers := an\<rparr>"
  show ?thesis
  proof (cases "res = ResOK")
    case False
    have f: "same_frame c c1" by (simp add: c1_def same_frame_def)
    have b: "becomes (splayTree c) (nodes c) {} (splayTree c1) (nodes c1) (as @ bs)" using becomes_refl [OF sn] becomes_mono by (simp add: c1_def)
    have "ranges c1 (as @ bs) = ranges c (as @ bs)" by (simp add: c1_def)
    then have "isolated (ranges c1 (as @ bs))" using isoc by (rule ssubst)
    then have "cbs_inv c1 (as @ bs)"
      by (intro inv_update [OF inv f b pr _ _ _ live(2)]) (use a(2) False usz sz in \<open>simp_all add: c1_def\<close>)
    moreover have "cbsBlockNew b l c = Some (res, c1)" using chk alloc False by (simp add: cbsBlockNew_def c1_def Let_def)
    ultimately show ?thesis using False f by (intro exI [of _ res] exI [of _ c1]) (simp add: c1_def)
  next
    case True
    have al: "pool_alloc (blockPool c, answers c) = Some (ResOK, p, (m, an))" using a(1) True by simp
    note fresh = mfs.fresh_unit [OF live(1) al]
    define n where "n = unat p"
    have n0: "n \<noteq> 0" "n \<noteq> sides" using fresh(3,4) by (simp_all add: n_def unat_eq_0 sides_def)
    have nx: "n \<notin> set (as @ bs)"
    proof
      assume "n \<in> set (as @ bs)"
      then obtain q where "q \<in> live" "unat p = unat q" unfolding live(2) n_def by blast
      then show False using fresh(2) by (metis word_unat_eq_iff)
    qed
    let ?d = "\<lparr>CBSBlockBase = b, CBSBlockLimit = l\<rparr>"
    have bl: "b < l" using iso by simp
    define s1 where "s1 = (nodes c)\<lparr>left_of := (left_of (nodes c))(n := 0), right_of := (right_of (nodes c))(n := 0),
      data_of := (data_of (nodes c))(n := ?d), prop_of := (prop_of (nodes c))(n := AddrOffset b l)\<rparr>"
    have s1: "splay_nodes (splayTree c) s1 (as @ bs)"
    proof -
      have "splay_nodes (splayTree c) s1 (as @ bs) = splay_nodes (splayTree c) (nodes c) (as @ bs)"
        by (rule splay_nodes_cong) (use nx in \<open>auto simp: s1_def\<close>)
      then show ?thesis using sn by simp
    qed
    have "map (range_of s1) (as @ bs) = ranges c (as @ bs)" using nx by (auto simp: range_of_def s1_def)
    then have iso1: "isolated (map (range_of s1) (as @ bs))" using isoc by (rule ssubst)
    have r1: "range_of s1 x = range_of (nodes c) x" if "x \<in> set (as @ bs)" for x using that nx by (auto simp: range_of_def s1_def)
    have lo: "\<forall>x \<in> set as. snd (range_of s1 x) \<le> b" and hi: "\<forall>x \<in> set bs. b < fst (range_of s1 x)"
      using iso r1 bl by (auto simp: less_imp_le intro: less_trans)
    note flt = at_addr_filter [OF iso1 lo hi]
    have cls: "class_of (splayTree c) s1 (Some b) = at_addr s1 b" by (rule class_at_addr [OF wf])
    have cl: "classified (class_of (splayTree c) s1 (Some b)) (as @ bs)" unfolding cls by (rule at_addr_classified [OF iso1 pr])
    have fr: "fresh_node (splayTree c) s1 n"
      using n0 wf by (auto simp: fresh_node_def s1_def tree_wf_def cbsUpdateNode_def CBSBlockSize_def)
    obtain tree s where ins: "SplayTreeInsert (splayTree c) n (Some b) s1 = Some (ResOK, tree, s)"
      "becomes (splayTree c) s1 (insert n (set (as @ bs) \<union> {sides})) tree s (as @ n # bs)"
    proof -
      have ne: "\<not> (\<exists>x \<in> set (as @ bs). at_addr s1 b x = CompareEQUAL)" using flt(3) by blast
      show thesis using that SplayTreeInsert_ok [OF s1 cl fr nx] unfolding cls if_not_P [OF ne] flt(1,2) by blast
    qed
    define c' where "c' = c1\<lparr>splayTree := tree, nodes := s, calls := calls c @ new_calls c n (AddrOffset b l)\<rparr>"
    have ds: "data_of s = (data_of (nodes c))(n := ?d)" using ins(2) by (simp add: becomes_def same_but_def s1_def)
    have "cbsBlockNew b l c = Some (ResOK, c')"
    proof -
      let ?s = "(nodes c)\<lparr>left_of := (left_of (nodes c))(n := 0), right_of := (right_of (nodes c))(n := 0)\<rparr>"
      have "SplayNodeInit n (nodes c) = Some ?s"
        using n0 by (simp add: SplayNodeInit_def SplayNodeCheck_def SplayNodeSetLeftChild_def SplayNodeSetRightChild_def Let_def)
      then have e0: "SplayNodeInit n (nodes c1) = Some ?s" by (simp add: c1_def)
      have rec: "r\<lparr>CBSBlockBase := b, CBSBlockLimit := l\<rparr> = ?d" for r :: CBSBlockStruct by (cases r) simp
      have e1: "CBSBlockSetLimit n l (CBSBlockSetBase n b (c1\<lparr>nodes := ?s\<rparr>)) =
          c1\<lparr>nodes := ?s\<lparr>data_of := (data_of (nodes c))(n := ?d)\<rparr>\<rparr>" (is "_ = ?c2")
        by (simp add: CBSBlockSetLimit_def CBSBlockSetBase_def rec c1_def)
      have e2: "CBSBlockSize (block_at ?c2 n) = AddrOffset b l" by (simp add: CBSBlockSize_def)
      have e3: "?c2\<lparr>nodes := (nodes ?c2)\<lparr>prop_of := (prop_of (nodes ?c2))(n := AddrOffset b l)\<rparr>\<rparr> = c1\<lparr>nodes := s1\<rparr>"
        by (simp add: s1_def)
      have e4: "CBSBlockCheck (c1\<lparr>nodes := s1\<rparr>) n" "keyOfCBSBlock (c1\<lparr>nodes := s1\<rparr>) n = Some b"
        "SplayTreeInsert (splayTree (c1\<lparr>nodes := s1\<rparr>)) n (Some b) (nodes (c1\<lparr>nodes := s1\<rparr>)) = Some (ResOK, tree, s)"
        using n0 bl ins(1) by (simp_all add: CBSBlockCheck_def SplayNodeCheck_def keyOfCBSBlock_def s1_def c1_def less_imp_le)
      have "cbsBlockNew b l c = Some (ResOK, let cbs = c1\<lparr>nodes := s1, splayTree := tree, nodes := s\<rparr> in
          if newMethod cbs \<and> AddrOffset b l \<ge> minSize cbs then cbs\<lparr>calls := calls cbs @ [NewCall n 0 (AddrOffset b l)]\<rparr> else cbs)"
        unfolding cbsBlockNew_def
        by (simp only: chk alloc aver_True bind.bind_lunit split_conv Let_def True simp_thms not_True_eq_False if_False c1_def [symmetric]
            n_def [symmetric] e0 e1 e2 e3 e4)
      then show ?thesis by (simp add: c'_def c1_def new_calls_def Let_def)
    qed
    moreover have f: "same_frame c c'" by (simp add: c'_def c1_def same_frame_def)
    moreover have "cbs_inv c' (as @ n # bs)"
    proof (rule inv_update [OF inv f])
      show "becomes (splayTree c) s1 (insert n (set (as @ bs) \<union> {sides})) (splayTree c') (nodes c') (as @ n # bs)"
        using ins(2) by (simp add: c'_def)
      show "proper (as @ n # bs)" using pr nx n0 by (auto simp: proper_def)
      have "ranges c' (as @ n # bs) = ranges c as @ (b, l) # ranges c bs" using nx by (auto simp: c'_def ds range_of_def)
      then show "isolated (ranges c' (as @ n # bs))" using iso by (rule ssubst)
      show "unroundedUnitSize (blockPool c') = unroundedUnitSize (blockPool c)" using usz sz by (simp add: c'_def c1_def)
      show "pool_inv (blockPool c', answers c') (insert p live)" using fresh(1) by (simp add: c'_def c1_def)
      show "set (as @ n # bs) = unat ` insert p live" using live(2) by (auto simp: n_def)
    qed
    ultimately show ?thesis using nx ds by (intro exI [of _ ResOK] exI [of _ c']) (auto simp: c'_def c1_def)
  qed
qed

subsection \<open>What the operations on the tree do to the ranges\<close>

lemma offset_less_limit: "b \<le> l \<Longrightarrow> l < l' \<Longrightarrow> AddrOffset b l < AddrOffset b l'"
  unfolding AddrOffset_def by (simp add: word_less_nat_alt word_le_nat_alt unat_sub)

lemma offset_less_base: "b' < b \<Longrightarrow> b \<le> l \<Longrightarrow> AddrOffset b l < AddrOffset b' l"
  unfolding AddrOffset_def by (simp add: word_less_nat_alt word_le_nat_alt unat_sub)

lemma ranges_set_block:
  assumes "proper (as @ n # bs)"
  shows "map (range_of (nodes (set_block n d c))) (as @ n # bs) = ranges c as @ (CBSBlockBase d, CBSBlockLimit d) # ranges c bs"
  using assms by (auto simp: range_of_def proper_def)

lemma ranges_data:
  assumes "proper (as @ n # bs)" and "data_of (nodes c') = (data_of (nodes c))(n := d)"
  shows "ranges c' (as @ n # bs) = ranges c as @ (CBSBlockBase d, CBSBlockLimit d) # ranges c bs"
  using assms by (auto simp: range_of_def proper_def)

lemma cbs_inv_proper: "cbs_inv c xs \<Longrightarrow> proper xs"
  by (simp add: cbs_inv_def)

lemma cbs_inv_isolated: "cbs_inv c xs \<Longrightarrow> isolated (ranges c xs)"
  by (simp add: cbs_inv_def)

lemma grow_at:
  assumes inv: "cbs_inv c (as @ n # bs)" and iso: "isolated (ranges c as @ (CBSBlockBase d, CBSBlockLimit d) # ranges c bs)"
    and sz: "old < CBSBlockSize d"
  shows "\<exists>c'. cbsBlockGrow n old (set_block n d c) = Some c' \<and> cbs_inv c' (as @ n # bs) \<and> same_frame c c' \<and>
    calls c' = calls c @ grow_calls c n old (CBSBlockSize d) \<and>
    ranges c' (as @ n # bs) = ranges c as @ (CBSBlockBase d, CBSBlockLimit d) # ranges c bs"
proof -
  note pr = cbs_inv_proper [OF inv]
  have "isolated (ranges (set_block n d c) (as @ n # bs))" unfolding ranges_set_block [OF pr] by (rule iso)
  from cbsBlockGrow_ok [OF inv _ this sz] show ?thesis using ranges_data [OF pr] by fastforce
qed

lemma shrink_at:
  assumes inv: "cbs_inv c (as @ n # bs)" and iso: "isolated (ranges c as @ (CBSBlockBase d, CBSBlockLimit d) # ranges c bs)"
    and sz: "CBSBlockSize d < old"
  shows "\<exists>c'. cbsBlockShrink n old (set_block n d c) = Some c' \<and> cbs_inv c' (as @ n # bs) \<and> same_frame c c' \<and>
    calls c' = calls c @ shrink_calls c n old (CBSBlockSize d) \<and>
    ranges c' (as @ n # bs) = ranges c as @ (CBSBlockBase d, CBSBlockLimit d) # ranges c bs"
proof -
  note pr = cbs_inv_proper [OF inv]
  have "isolated (ranges (set_block n d c) (as @ n # bs))" unfolding ranges_set_block [OF pr] by (rule iso)
  from cbsBlockShrink_ok [OF inv _ this sz] show ?thesis using ranges_data [OF pr] by fastforce
qed

lemma delete_at:
  assumes inv: "cbs_inv c (as @ n # bs)"
  shows "\<exists>c'. cbsBlockDelete n c = Some c' \<and> cbs_inv c' (as @ bs) \<and> same_frame c c' \<and>
    calls c' = calls c @ delete_calls c n (CBSBlockSize (block_at c n)) \<and>
    (\<forall>m. m \<noteq> n \<longrightarrow> data_of (nodes c') m = data_of (nodes c) m) \<and> ranges c' (as @ bs) = ranges c (as @ bs)"
proof -
  have "n \<notin> set as \<union> set bs" using cbs_inv_proper [OF inv] by (auto simp: proper_def)
  moreover from this have "remove1 n (as @ n # bs) = as @ bs" by (simp add: remove1_append)
  ultimately show ?thesis using cbsBlockDelete_ok [OF inv, of n] by (fastforce simp: range_of_def)
qed

text \<open>The four ways in which a range joins the tree.\<close>

lemma merge_left:
  assumes inv: "cbs_inv c (as @ p # bs)" and p: "CBSBlockLimit (block_at c p) = b" and r: "\<forall>x \<in> set bs. l < fst (range_of (nodes c) x)" and bl: "b < l"
  shows "\<exists>c'. cbsInsertIntoTree_merge b l p q True False c = Some (ResOK, c') \<and> cbs_inv c' (as @ p # bs) \<and> same_frame c c' \<and>
    ranges c' (as @ p # bs) = ranges c as @ (CBSBlockBase (block_at c p), l) # ranges c bs"
proof -
  note iso = cbs_inv_isolated [OF inv]
  let ?d = "block_at c p\<lparr>CBSBlockLimit := l\<rparr>"
  have lt: "CBSBlockBase (block_at c p) < b" using iso p by auto
  have sz: "CBSBlockSize (block_at c p) < CBSBlockSize ?d"
    using offset_less_limit [OF less_imp_le [OF lt] bl] p by (simp add: CBSBlockSize_def)
  have "isolated (ranges c as @ (CBSBlockBase ?d, CBSBlockLimit ?d) # ranges c bs)" using iso r lt bl by auto
  from grow_at [OF inv this sz] show ?thesis
    by (auto simp: cbsInsertIntoTree_merge_def Let_def CBSBlockSet_eq)
qed

lemma merge_right:
  assumes inv: "cbs_inv c (as @ q # bs)" and q: "CBSBlockBase (block_at c q) = l" and r: "\<forall>x \<in> set as. snd (range_of (nodes c) x) < b" and bl: "b < l"
  shows "\<exists>c'. cbsInsertIntoTree_merge b l p q False True c = Some (ResOK, c') \<and> cbs_inv c' (as @ q # bs) \<and> same_frame c c' \<and>
    ranges c' (as @ q # bs) = ranges c as @ (b, CBSBlockLimit (block_at c q)) # ranges c bs"
proof -
  note iso = cbs_inv_isolated [OF inv]
  let ?d = "block_at c q\<lparr>CBSBlockBase := b\<rparr>"
  have lt: "l < CBSBlockLimit (block_at c q)" using iso q by auto
  have sz: "CBSBlockSize (block_at c q) < CBSBlockSize ?d"
    using offset_less_base [OF bl less_imp_le [OF lt]] q by (simp add: CBSBlockSize_def)
  have "isolated (ranges c as @ (CBSBlockBase ?d, CBSBlockLimit ?d) # ranges c bs)" using iso r lt bl by auto
  from grow_at [OF inv this sz] show ?thesis
    by (auto simp: cbsInsertIntoTree_merge_def Let_def CBSBlockSet_eq)
qed

lemma merge_both:
  assumes inv: "cbs_inv c (as @ p # q # bs)" and p: "CBSBlockLimit (block_at c p) = b" and q: "CBSBlockBase (block_at c q) = l" and bl: "b < l"
  shows "\<exists>c' n. cbsInsertIntoTree_merge b l p q True True c = Some (ResOK, c') \<and> cbs_inv c' (as @ n # bs) \<and> same_frame c c' \<and>
    ranges c' (as @ n # bs) = ranges c as @ (CBSBlockBase (block_at c p), CBSBlockLimit (block_at c q)) # ranges c bs"
proof -
  note iso = cbs_inv_isolated [OF inv]
  let ?pb = "CBSBlockBase (block_at c p)" and ?ql = "CBSBlockLimit (block_at c q)"
  have lt: "?pb < b" "l < ?ql" using iso p q by auto
  have new: "isolated (ranges c as @ (?pb, ?ql) # ranges c bs)" using iso lt bl by auto
  have pq: "p \<noteq> q" using cbs_inv_proper [OF inv] by (auto simp: proper_def)
  show ?thesis
  proof (cases "CBSBlockSize (block_at c p) \<ge> CBSBlockSize (block_at c q)")
    case True
    obtain c1 where c1: "cbsBlockDelete q c = Some c1" "cbs_inv c1 (as @ p # bs)" "same_frame c c1"
      "\<forall>m. m \<noteq> q \<longrightarrow> data_of (nodes c1) m = data_of (nodes c) m" "ranges c1 ((as @ [p]) @ bs) = ranges c ((as @ [p]) @ bs)"
      using delete_at [of c "as @ [p]" q bs] inv by auto
    let ?d = "block_at c p\<lparr>CBSBlockLimit := ?ql\<rparr>"
    have d: "block_at c1 p = block_at c p" using c1(4) pq by simp
    have r: "ranges c1 as = ranges c as" "ranges c1 bs = ranges c bs" using c1(5) by simp_all
    have "isolated (ranges c1 as @ (CBSBlockBase ?d, CBSBlockLimit ?d) # ranges c1 bs)" unfolding r using new by simp
    moreover have "CBSBlockSize (block_at c p) < CBSBlockSize ?d"
      using offset_less_limit [of ?pb b ?ql] lt bl p by (simp add: CBSBlockSize_def less_imp_le)
    ultimately obtain c2 where "cbsBlockGrow p (CBSBlockSize (block_at c p)) (set_block p ?d c1) = Some c2" "cbs_inv c2 (as @ p # bs)"
      "same_frame c1 c2" "ranges c2 (as @ p # bs) = ranges c1 as @ (CBSBlockBase ?d, CBSBlockLimit ?d) # ranges c1 bs"
      using grow_at [OF c1(2)] by blast
    then show ?thesis
      using True c1(1,3) d same_frame_trans unfolding r
      by (intro exI [of _ c2] exI [of _ p]) (auto simp: cbsInsertIntoTree_merge_def Let_def CBSBlockSet_eq)
  next
    case False
    obtain c1 where c1: "cbsBlockDelete p c = Some c1" "cbs_inv c1 (as @ q # bs)" "same_frame c c1"
      "\<forall>m. m \<noteq> p \<longrightarrow> data_of (nodes c1) m = data_of (nodes c) m" "ranges c1 (as @ q # bs) = ranges c (as @ q # bs)"
      using delete_at [of c as p "q # bs"] inv by auto
    let ?d = "block_at c q\<lparr>CBSBlockBase := ?pb\<rparr>"
    have d: "block_at c1 q = block_at c q" using c1(4) pq by simp
    have r: "ranges c1 as = ranges c as" "ranges c1 bs = ranges c bs" using c1(5) by simp_all
    have "isolated (ranges c1 as @ (CBSBlockBase ?d, CBSBlockLimit ?d) # ranges c1 bs)" unfolding r using new by simp
    moreover have "CBSBlockSize (block_at c q) < CBSBlockSize ?d"
      using offset_less_base [of ?pb l ?ql] lt bl q by (simp add: CBSBlockSize_def less_imp_le)
    ultimately obtain c2 where "cbsBlockGrow q (CBSBlockSize (block_at c q)) (set_block q ?d c1) = Some c2" "cbs_inv c2 (as @ q # bs)"
      "same_frame c1 c2" "ranges c2 (as @ q # bs) = ranges c1 as @ (CBSBlockBase ?d, CBSBlockLimit ?d) # ranges c1 bs"
      using grow_at [OF c1(2)] by blast
    then show ?thesis
      using False c1(1,3) d same_frame_trans unfolding r
      by (intro exI [of _ c2] exI [of _ q]) (auto simp: cbsInsertIntoTree_merge_def Let_def CBSBlockSet_eq)
  qed
qed

text \<open>An address that no block holds splits the blocks into those below it and those above it.\<close>

lemma at_addr_split:
  assumes iso: "isolated (map (range_of s) xs)" and none: "\<forall>x \<in> set xs. at_addr s b x \<noteq> CompareEQUAL"
  shows "\<exists>as bs. xs = as @ bs \<and> (\<forall>x \<in> set as. snd (range_of s x) \<le> b) \<and> (\<forall>x \<in> set bs. b < fst (range_of s x))"
  using assms
proof (induction xs)
  case Nil
  then show ?case by simp
next
  case (Cons x xs)
  show ?case
  proof (cases "at_addr s b x = CompareGREATER")
    case True
    obtain as bs where "xs = as @ bs" "\<forall>x \<in> set as. snd (range_of s x) \<le> b" "\<forall>x \<in> set bs. b < fst (range_of s x)"
      using Cons by auto
    moreover have "snd (range_of s x) \<le> b" using True by (simp only: at_addr_eq)
    ultimately have "x # xs = (x # as) @ bs \<and> (\<forall>x \<in> set (x # as). snd (range_of s x) \<le> b) \<and> (\<forall>x \<in> set bs. b < fst (range_of s x))"
      by simp
    then show ?thesis by blast
  next
    case False
    moreover have "at_addr s b x \<noteq> CompareEQUAL" using Cons.prems(2) by simp
    ultimately have "at_addr s b x = CompareLESS" by (cases "at_addr s b x") auto
    then have b: "b < fst (range_of s x)" by (simp only: at_addr_eq)
    moreover have "b < fst (range_of s y)" if "y \<in> set xs" for y
    proof -
      have "fst (range_of s x) < snd (range_of s x)" "snd (range_of s x) < fst (range_of s y)" using Cons.prems(1) that by auto
      with b show ?thesis by (meson less_trans)
    qed
    ultimately have "x # xs = [] @ (x # xs) \<and> (\<forall>x \<in> set []. snd (range_of s x) \<le> b) \<and> (\<forall>y \<in> set (x # xs). b < fst (range_of s y))"
      by simp
    then show ?thesis by blast
  qed
qed

lemma free_of_mem: "free_of (map (range_of s) xs) = (\<Union>x \<in> set xs. {fst (range_of s x) ..< snd (range_of s x)})"
  by (auto simp: free_of_def)

lemma at_addr_free: "b \<in> free_of (map (range_of s) xs) \<longleftrightarrow> (\<exists>x \<in> set xs. at_addr s b x = CompareEQUAL)"
  unfolding free_of_mem at_addr_eq by auto

lemma free_above: "\<forall>x \<in> set bs. l \<le> fst (range_of s x) \<Longrightarrow> free_of (map (range_of s) bs) \<inter> {b ..< l} = {}"
  unfolding free_of_mem by fastforce

lemma free_below: "\<forall>x \<in> set as. snd (range_of s x) \<le> b \<Longrightarrow> free_of (map (range_of s) as) \<inter> {b ..< l} = {}"
  unfolding free_of_mem by fastforce

text \<open>The tree after the range has joined it, with the node that now holds it.\<close>

definition joined :: "mword \<Rightarrow> mword \<Rightarrow> CBSStruct \<Rightarrow> nat list \<Rightarrow> CBSStruct \<Rightarrow> nat list \<Rightarrow> mword \<times> mword \<Rightarrow> bool" where
  "joined b l c xs c' xs' rg \<longleftrightarrow> cbs_inv c' xs' \<and> same_frame c c' \<and> free_of (ranges c' xs') = free_of (ranges c xs) \<union> {b ..< l} \<and>
     rg \<in> set (ranges c' xs') \<and> fst rg \<le> b \<and> l \<le> snd rg"

lemma merge_ok:
  assumes inv: "cbs_inv c (as @ bs)" and lo: "\<forall>x \<in> set as. snd (range_of (nodes c) x) \<le> b"
    and hi: "\<forall>x \<in> set bs. l \<le> fst (range_of (nodes c) x)" and bl: "b < l"
  defines "p \<equiv> last_or_null as" and "q \<equiv> first_or_null bs"
  defines "lm \<equiv> p \<noteq> 0 \<and> CBSBlockLimit (block_at c p) = b" and "rm \<equiv> q \<noteq> 0 \<and> CBSBlockBase (block_at c q) = l"
  shows "\<exists>res c' xs'. cbsInsertIntoTree_merge b l p q lm rm c = Some (res, c') \<and> (res \<noteq> ResOK \<longrightarrow> \<not> lm \<and> \<not> rm) \<and>
    (if res = ResOK then joined b l c (as @ bs) c' xs'
        (if lm then CBSBlockBase (block_at c p) else b, if rm then CBSBlockLimit (block_at c q) else l)
     else cbs_inv c' (as @ bs) \<and> same_frame c c' \<and> ranges c' (as @ bs) = ranges c (as @ bs) \<and> calls c' = calls c)"
proof -
  note pr = cbs_inv_proper [OF inv] and iso = cbs_inv_isolated [OF inv]
  have p0: "p \<noteq> 0 \<longleftrightarrow> as \<noteq> []" using pr last_in_set [of as] unfolding p_def last_or_null_def proper_def by (metis UnI1 set_append)
  have q0: "q \<noteq> 0 \<longleftrightarrow> bs \<noteq> []" using pr hd_in_set [of bs] unfolding q_def first_or_null_def proper_def by (metis UnI2 set_append)
  have as: "as = butlast as @ [p]" if "p \<noteq> 0" using that p0 by (simp add: p_def last_or_null_def)
  have bs: "bs = q # tl bs" if "q \<noteq> 0" using that q0 by (simp add: q_def first_or_null_def)
  have lo': "\<forall>x \<in> set as. snd (range_of (nodes c) x) < b" if "\<not> lm"
  proof
    fix x assume x: "x \<in> set as"
    then have "p \<noteq> 0" using p0 by auto
    then have sa: "set as = set (butlast as @ [p])" by (intro arg_cong [OF as])
    from x consider "x = p" | "x \<in> set (butlast as)" unfolding sa by auto
    then show "snd (range_of (nodes c) x) < b"
    proof cases
      case 1
      have "snd (range_of (nodes c) x) \<noteq> b" using that \<open>p \<noteq> 0\<close> unfolding 1 lm_def range_of_simps by blast
      moreover have "snd (range_of (nodes c) x) \<le> b" using lo x by blast
      ultimately show ?thesis by (rule order.not_eq_order_implies_strict)
    next
      case 2
      have "isolated (ranges c as)" using iso by simp
      then have "isolated (ranges c (butlast as @ [p]))" by (rule subst [OF as [OF \<open>p \<noteq> 0\<close>]])
      then have "snd (range_of (nodes c) x) < fst (range_of (nodes c) p)" "fst (range_of (nodes c) p) < snd (range_of (nodes c) p)"
        using 2 by auto
      moreover have "snd (range_of (nodes c) p) \<le> b" using lo unfolding sa by simp
      ultimately show ?thesis by (meson less_le_trans less_trans)
    qed
  qed
  have hi': "\<forall>x \<in> set bs. l < fst (range_of (nodes c) x)" if "\<not> rm"
  proof
    fix x assume x: "x \<in> set bs"
    then have "q \<noteq> 0" using q0 by auto
    then have sb: "set bs = set (q # tl bs)" by (intro arg_cong [OF bs])
    from x consider "x = q" | "x \<in> set (tl bs)" unfolding sb by auto
    then show "l < fst (range_of (nodes c) x)"
    proof cases
      case 1
      have "l \<noteq> fst (range_of (nodes c) x)" using that \<open>q \<noteq> 0\<close> unfolding 1 rm_def range_of_simps by metis
      moreover have "l \<le> fst (range_of (nodes c) x)" using hi x by blast
      ultimately show ?thesis by (rule order.not_eq_order_implies_strict)
    next
      case 2
      have "isolated (ranges c bs)" using iso by simp
      then have "isolated (ranges c (q # tl bs))" by (rule subst [OF bs [OF \<open>q \<noteq> 0\<close>]])
      then have "snd (range_of (nodes c) q) < fst (range_of (nodes c) x)" "fst (range_of (nodes c) q) < snd (range_of (nodes c) q)"
        using 2 by auto
      moreover have "l \<le> fst (range_of (nodes c) q)" using hi unfolding sb by simp
      ultimately show ?thesis by (meson le_less_trans less_trans)
    qed
  qed
  have J: "joined b l c xs c' xs' (nb, nl)"
    if "cbs_inv c' xs'" "same_frame c c'" "ranges c' xs' = A @ (nb, nl) # B" "free_of (ranges c xs) \<union> {b ..< l} = free_of A \<union> {nb ..< nl} \<union> free_of B"
      "nb \<le> b" "l \<le> nl" for xs c' xs' A B nb nl
    unfolding joined_def using that by auto
  consider "lm" "rm" | "lm" "\<not> rm" | "\<not> lm" "rm" | "\<not> lm" "\<not> rm" by blast
  then show ?thesis
  proof cases
    case 1
    then have z: "p \<noteq> 0" "q \<noteq> 0" and e: "CBSBlockLimit (block_at c p) = b" "CBSBlockBase (block_at c q) = l" by (auto simp: lm_def rm_def)
    note xs = as [OF z(1)] bs [OF z(2)]
    have inv': "cbs_inv c (butlast as @ p # q # tl bs)" using inv xs by (metis append_Cons append_Nil append_assoc)
    have lt: "CBSBlockBase (block_at c p) < b" "l < CBSBlockLimit (block_at c q)" using cbs_inv_isolated [OF inv'] e by auto
    obtain c' n where r: "cbsInsertIntoTree_merge b l p q True True c = Some (ResOK, c')" "cbs_inv c' (butlast as @ n # tl bs)" "same_frame c c'"
      "ranges c' (butlast as @ n # tl bs) = ranges c (butlast as) @ (CBSBlockBase (block_at c p), CBSBlockLimit (block_at c q)) # ranges c (tl bs)"
      using merge_both [OF inv' e bl] by blast
    have "free_of (ranges c (as @ bs)) \<union> {b ..< l} = free_of (ranges c (butlast as)) \<union>
        {CBSBlockBase (block_at c p) ..< CBSBlockLimit (block_at c q)} \<union> free_of (ranges c (tl bs))"
    proof -
      have "{CBSBlockBase (block_at c p) ..< b} \<union> {b ..< l} \<union> {l ..< CBSBlockLimit (block_at c q)} =
          {CBSBlockBase (block_at c p) ..< CBSBlockLimit (block_at c q)}" using lt bl by auto
      moreover have "free_of (ranges c as) = free_of (ranges c (butlast as)) \<union> {CBSBlockBase (block_at c p) ..< b}"
        using arg_cong [OF xs(1), of "\<lambda>ys. free_of (ranges c ys)"] e(1) by simp
      moreover have "free_of (ranges c bs) = {l ..< CBSBlockLimit (block_at c q)} \<union> free_of (ranges c (tl bs))"
        using arg_cong [OF xs(2), of "\<lambda>ys. free_of (ranges c ys)"] e(2) by simp
      ultimately show ?thesis by (simp add: Un_assoc) blast
    qed
    from J [OF r(2-4) this] lt show ?thesis using r(1) 1 by (intro exI [of _ ResOK] exI [of _ c'] exI) (auto simp: less_imp_le)
  next
    case 2
    then have z: "p \<noteq> 0" and e: "CBSBlockLimit (block_at c p) = b" by (auto simp: lm_def)
    note xs = as [OF z]
    have inv': "cbs_inv c (butlast as @ p # bs)" using inv xs by (metis append_Cons append_Nil append_assoc)
    have lt: "CBSBlockBase (block_at c p) < b" using cbs_inv_isolated [OF inv'] e by auto
    obtain c' where r: "cbsInsertIntoTree_merge b l p q True False c = Some (ResOK, c')" "cbs_inv c' (butlast as @ p # bs)" "same_frame c c'"
      "ranges c' (butlast as @ p # bs) = ranges c (butlast as) @ (CBSBlockBase (block_at c p), l) # ranges c bs"
      using merge_left [OF inv' e hi' [OF 2(2)] bl] by blast
    have "free_of (ranges c (as @ bs)) \<union> {b ..< l} = free_of (ranges c (butlast as)) \<union> {CBSBlockBase (block_at c p) ..< l} \<union> free_of (ranges c bs)"
    proof -
      have "{CBSBlockBase (block_at c p) ..< b} \<union> {b ..< l} = {CBSBlockBase (block_at c p) ..< l}" using lt bl by auto
      moreover have "free_of (ranges c as) = free_of (ranges c (butlast as)) \<union> {CBSBlockBase (block_at c p) ..< b}"
        using arg_cong [OF xs, of "\<lambda>ys. free_of (ranges c ys)"] e by simp
      ultimately show ?thesis by (simp add: Un_assoc) blast
    qed
    from J [OF r(2-4) this] lt show ?thesis using r(1) 2 by (intro exI [of _ ResOK] exI [of _ c'] exI) (auto simp: less_imp_le)
  next
    case 3
    then have z: "q \<noteq> 0" and e: "CBSBlockBase (block_at c q) = l" by (auto simp: rm_def)
    note xs = bs [OF z]
    have inv': "cbs_inv c (as @ q # tl bs)" using inv xs by metis
    have lt: "l < CBSBlockLimit (block_at c q)" using cbs_inv_isolated [OF inv'] e by auto
    obtain c' where r: "cbsInsertIntoTree_merge b l p q False True c = Some (ResOK, c')" "cbs_inv c' (as @ q # tl bs)" "same_frame c c'"
      "ranges c' (as @ q # tl bs) = ranges c as @ (b, CBSBlockLimit (block_at c q)) # ranges c (tl bs)"
      using merge_right [OF inv' e lo' [OF 3(1)] bl] by blast
    have "free_of (ranges c (as @ bs)) \<union> {b ..< l} = free_of (ranges c as) \<union> {b ..< CBSBlockLimit (block_at c q)} \<union> free_of (ranges c (tl bs))"
    proof -
      have "{b ..< l} \<union> {l ..< CBSBlockLimit (block_at c q)} = {b ..< CBSBlockLimit (block_at c q)}" using lt bl by auto
      moreover have "free_of (ranges c bs) = {l ..< CBSBlockLimit (block_at c q)} \<union> free_of (ranges c (tl bs))"
        using arg_cong [OF xs, of "\<lambda>ys. free_of (ranges c ys)"] e by simp
      ultimately show ?thesis by (simp add: Un_assoc) blast
    qed
    from J [OF r(2-4) this] lt show ?thesis using r(1) 3 by (intro exI [of _ ResOK] exI [of _ c'] exI) (auto simp: less_imp_le)
  next
    case 4
    have "isolated (ranges c as @ (b, l) # ranges c bs)" using iso lo' [OF 4(1)] hi' [OF 4(2)] bl by auto
    from cbsBlockNew_ok [OF inv this] obtain res c' where r: "cbsBlockNew b l c = Some (res, c')" "same_frame c c'"
      "if res = ResOK
       then \<exists>n. n \<notin> set (as @ bs) \<and> cbs_inv c' (as @ n # bs) \<and> data_of (nodes c') = (data_of (nodes c))(n := \<lparr>CBSBlockBase = b, CBSBlockLimit = l\<rparr>) \<and>
         calls c' = calls c @ new_calls c n (AddrOffset b l)
       else cbs_inv c' (as @ bs) \<and> nodes c' = nodes c \<and> calls c' = calls c" by blast
    have run: "cbsInsertIntoTree_merge b l p q lm rm c = Some (res, c')" using 4 r(1) by (simp add: cbsInsertIntoTree_merge_def)
    show ?thesis
    proof (cases "res = ResOK")
      case True
      then obtain n where n: "cbs_inv c' (as @ n # bs)" "data_of (nodes c') = (data_of (nodes c))(n := \<lparr>CBSBlockBase = b, CBSBlockLimit = l\<rparr>)"
        using r(3) by auto
      have "ranges c' (as @ n # bs) = ranges c as @ (b, l) # ranges c bs"
        using ranges_data [OF cbs_inv_proper [OF n(1)] n(2)] by simp
      from J [OF n(1) r(2) this, of "as @ bs"] have "joined b l c (as @ bs) c' (as @ n # bs) (b, l)" by auto
      then show ?thesis using run True 4 by (intro exI [of _ ResOK] exI [of _ c'] exI [of _ "as @ n # bs"]) simp
    next
      case False
      then show ?thesis using run r(2,3) 4 by (intro exI [of _ res] exI [of _ c']) simp
    qed
  qed
qed

lemma cbsInsertIntoTree_ok:
  assumes inv: "cbs_inv c xs" and b0: "b \<noteq> 0" and bl: "b < l" and al: "WordIsAligned b (alignment c)" "WordIsAligned l (alignment c)"
  shows "\<exists>res rg c' xs'. cbsInsertIntoTree b l c = Some (res, rg, c') \<and>
    (res = ResOK \<longrightarrow> free_of (ranges c xs) \<inter> {b ..< l} = {} \<and> (\<exists>r. rg = Some r \<and> joined b l c xs c' xs' r)) \<and>
    (res \<noteq> ResOK \<longrightarrow> cbs_inv c' xs' \<and> same_frame c c' \<and> ranges c' xs' = ranges c xs \<and> calls c' = calls c) \<and>
    (free_of (ranges c xs) \<inter> {b ..< l} \<noteq> {} \<longrightarrow> res = ResFAIL)"
proof -
  note i = inv [unfolded cbs_inv_def]
  have wf: "tree_wf c" and pr: "proper xs" and iso: "isolated (ranges c xs)" and sn: "splay_nodes (splayTree c) (nodes c) xs"
    and chk: "CBSCheck c" using i by simp_all
  let ?free = "free_of (ranges c xs)"
  have cl: "classified (class_of (splayTree c) (nodes c) (Some b)) xs"
    using at_addr_classified [OF iso pr] class_at_addr [OF wf] by simp
  show ?thesis
  proof (cases "b \<in> ?free")
    case True
    then have ex: "\<exists>x \<in> set xs. class_of (splayTree c) (nodes c) (Some b) x = CompareEQUAL"
      unfolding at_addr_free class_at_addr [OF wf] .
    obtain tree s where n: "SplayTreeNeighbours (splayTree c) (Some b) (nodes c) = Some (ResFAIL, None, tree, s)"
      "becomes (splayTree c) (nodes c) (set xs \<union> {sides}) tree s xs"
      using SplayTreeNeighbours_ok [OF sn cl] unfolding if_P [OF ex] by blast
    let ?c = "c\<lparr>splayTree := tree, nodes := s\<rparr>"
    note acc = inv_access [OF inv n(2)]
    have "ranges ?c xs = ranges c xs" using acc(2) by (simp add: range_of_def)
    moreover have "cbsInsertIntoTree b l c = Some (ResFAIL, None, ?c)"
      using chk b0 bl al n(1) by (simp add: cbsInsertIntoTree_def Let_def)
    moreover have "?free \<inter> {b ..< l} \<noteq> {}" using True bl by auto
    ultimately show ?thesis using acc(1,3) by (intro exI [of _ ResFAIL] exI [of _ None] exI [of _ ?c] exI [of _ xs]) simp
  next
    case False
    then have none: "\<forall>x \<in> set xs. at_addr (nodes c) b x \<noteq> CompareEQUAL" unfolding at_addr_free by blast
    obtain as bs where xs: "xs = as @ bs" and lo: "\<forall>x \<in> set as. snd (range_of (nodes c) x) \<le> b"
      and hi: "\<forall>x \<in> set bs. b < fst (range_of (nodes c) x)"
      using at_addr_split [OF iso none] by blast
    note flt = at_addr_filter [OF iso [unfolded xs] lo hi]
    let ?p = "last_or_null as" and ?q = "first_or_null bs"
    have nex: "\<not> (\<exists>x \<in> set (as @ bs). at_addr (nodes c) b x = CompareEQUAL)"
      using none unfolding xs by blast
    obtain tree s where n: "SplayTreeNeighbours (splayTree c) (Some b) (nodes c) = Some (ResOK, Some (?p, ?q), tree, s)"
      "becomes (splayTree c) (nodes c) (set xs \<union> {sides}) tree s xs"
      using SplayTreeNeighbours_ok [OF sn cl] unfolding class_at_addr [OF wf] xs flt(1,2) if_not_P [OF nex] by blast
    define c1 where "c1 = c\<lparr>splayTree := tree, nodes := s\<rparr>"
    have acc: "cbs_inv c1 xs" "data_of (nodes c1) = data_of (nodes c)" "same_frame c c1" "calls c1 = calls c"
      using inv_access [OF inv n(2)] by (simp_all add: c1_def)
    have rg: "range_of (nodes c1) = range_of (nodes c)" using acc(2) by (simp add: range_of_def fun_eq_iff)
    have q0: "?q \<noteq> 0 \<longleftrightarrow> bs \<noteq> []" using pr hd_in_set [of bs] unfolding xs first_or_null_def proper_def by (metis UnI2 set_append)
    have pin: "?p \<noteq> 0 \<Longrightarrow> ?p \<in> set as" by (auto simp: last_or_null_def split: if_splits)
    have qin: "?q \<noteq> 0 \<Longrightarrow> ?q \<in> set bs" by (auto simp: first_or_null_def split: if_splits)
    have pl: "?p = 0 \<or> CBSBlockLimit (block_at c1 ?p) \<le> b" using lo pin acc(2) by auto
    show ?thesis
    proof (cases "?q \<noteq> 0 \<and> CBSBlockBase (block_at c1 ?q) < l")
      case True
      have "CBSBlockBase (block_at c ?q) \<in> ?free \<inter> {b ..< l}"
      proof -
        have "?q \<in> set xs" using qin True xs by simp
        moreover from this have "CBSBlockBase (block_at c ?q) < CBSBlockLimit (block_at c ?q)" by (rule isolated_at [OF iso])
        moreover have "b < CBSBlockBase (block_at c ?q)" using hi qin True by auto
        ultimately show ?thesis using True acc(2) unfolding free_of_mem by (auto simp: less_imp_le)
      qed
      then have "?free \<inter> {b ..< l} \<noteq> {}" by blast
      moreover have "cbsInsertIntoTree b l c = Some (ResFAIL, None, c1)"
        unfolding cbsInsertIntoTree_def
        by (simp only: chk b0 bl al n(1) c1_def [symmetric] aver_True bind.bind_lunit split_conv Let_def simp_thms if_False pl True if_True
          not_False_eq_True)
      ultimately show ?thesis
        using acc rg by (intro exI [of _ ResFAIL] exI [of _ None] exI [of _ c1] exI [of _ xs]) simp
    next
      case nq: False
      have hi': "\<forall>x \<in> set bs. l \<le> fst (range_of (nodes c1) x)"
      proof
        fix x assume x: "x \<in> set bs"
        then have "bs = ?q # tl bs" "?q \<noteq> 0" using q0 by (auto simp: first_or_null_def)
        then have q: "l \<le> CBSBlockBase (block_at c ?q)" using nq acc(2) by (simp add: not_less)
        have "isolated (ranges c bs)" using iso xs by simp
        then have "isolated (ranges c (?q # tl bs))" by (rule subst [OF \<open>bs = ?q # tl bs\<close>])
        moreover have "x \<in> set (?q # tl bs)" using x \<open>bs = ?q # tl bs\<close> by (rule subst [of bs, rotated])
        ultimately show "l \<le> fst (range_of (nodes c1) x)" using q unfolding rg by (auto intro: order_trans less_imp_le)
      qed
      have lo': "\<forall>x \<in> set as. snd (range_of (nodes c1) x) \<le> b" using lo rg by simp
      let ?lm = "?p \<noteq> 0 \<and> CBSBlockLimit (block_at c1 ?p) = b" and ?rm = "?q \<noteq> 0 \<and> CBSBlockBase (block_at c1 ?q) = l"
      let ?nb = "if ?lm then CBSBlockBase (block_at c1 ?p) else b" and ?nl = "if ?rm then CBSBlockLimit (block_at c1 ?q) else l"
      obtain res c2 xs2 where m: "cbsInsertIntoTree_merge b l ?p ?q ?lm ?rm c1 = Some (res, c2)"
        "if res = ResOK then joined b l c1 (as @ bs) c2 xs2 (?nb, ?nl)
         else cbs_inv c2 (as @ bs) \<and> same_frame c1 c2 \<and> ranges c2 (as @ bs) = ranges c1 (as @ bs) \<and> calls c2 = calls c1"
        using merge_ok [OF acc(1) [unfolded xs] lo' hi' bl] by blast
      have disj: "?free \<inter> {b ..< l} = {}"
        using free_below [OF lo, of l] free_above [of bs l "nodes c" b] hi' unfolding xs rg map_append free_of_simps by blast
      have run: "cbsInsertIntoTree b l c = (if res \<noteq> ResOK then Some (res, None, c2)
          else do { aver (?nb \<le> b); aver (?nl \<ge> l); Some (ResOK, Some (?nb, ?nl), c2) })"
        unfolding cbsInsertIntoTree_def
        by (simp only: chk b0 bl al n(1) c1_def [symmetric] aver_True bind.bind_lunit split_conv Let_def simp_thms if_False pl nq if_True
          not_False_eq_True m(1))
      show ?thesis
      proof (cases "res = ResOK")
        case True
        then have j: "joined b l c1 (as @ bs) c2 xs2 (?nb, ?nl)" using m(2) by simp
        then have le: "?nb \<le> b" "l \<le> ?nl" by (simp_all add: joined_def)
        have "joined b l c xs c2 xs2 (?nb, ?nl)"
          using j acc(3) same_frame_trans unfolding joined_def xs rg by blast
        moreover have "cbsInsertIntoTree b l c = Some (ResOK, Some (?nb, ?nl), c2)"
          unfolding run using True le by (simp only: simp_thms if_False aver_True bind.bind_lunit not_True_eq_False)
        ultimately show ?thesis using disj by (intro exI [of _ ResOK] exI [of _ "Some (?nb, ?nl)"] exI [of _ c2] exI [of _ xs2]) simp
      next
        case False
        then have f: "cbs_inv c2 xs" "same_frame c c2" "ranges c2 xs = ranges c xs" "calls c2 = calls c"
          using m(2) acc(3,4) same_frame_trans unfolding xs rg by auto
        have "cbsInsertIntoTree b l c = Some (res, None, c2)" unfolding run using False by (simp only: simp_thms if_True not_False_eq_True)
        then show ?thesis using disj False f by (intro exI [of _ res] exI [of _ None] exI [of _ c2] exI [of _ xs]) simp
      qed
    qed
  qed
qed

lemma free_cut:
  assumes iso: "isolated (A @ (nb, nl) # B)" and "nb \<le> b" "l \<le> nl"
  shows "free_of (A @ (nb, nl) # B) - {b ..< l} = free_of A \<union> ({nb ..< nl} - {b ..< l}) \<union> free_of B"
proof -
  have "x < b" if x: "x \<in> free_of A" for x
  proof -
    obtain r where "r \<in> set A" "x < snd r" using x by (auto simp: free_of_def)
    moreover from this have "snd r < nb" using iso by auto
    ultimately show ?thesis using assms(2) by (meson less_le_trans less_trans)
  qed
  moreover have "l \<le> x" if x: "x \<in> free_of B" for x
  proof -
    obtain r where "r \<in> set B" "fst r \<le> x" using x by (auto simp: free_of_def)
    moreover from this have "nl < fst r" using iso by auto
    ultimately show ?thesis using assms(3) by (meson le_less_trans less_imp_le order_trans)
  qed
  ultimately have "free_of A \<inter> {b ..< l} = {}" "free_of B \<inter> {b ..< l} = {}" by (force simp: not_less)+
  then show ?thesis by auto
qed

text \<open>A range inside the free set lies inside one block, because the blocks do not touch.\<close>

lemma free_range_one_block:
  assumes iso: "isolated (map (range_of s) xs)" and n: "n \<in> set xs" "at_addr s b n = CompareEQUAL" and bl: "b < l"
    and sub: "{b ..< l} \<subseteq> free_of (map (range_of s) xs)"
  shows "l \<le> snd (range_of s n)"
proof (rule ccontr)
  assume "\<not> l \<le> snd (range_of s n)"
  moreover have "fst (range_of s n) \<le> b" "b < snd (range_of s n)" using n(2) by (simp_all only: at_addr_eq)
  ultimately have "snd (range_of s n) \<in> {b ..< l}" by (auto simp: not_le)
  then obtain m where m: "m \<in> set xs" "fst (range_of s m) \<le> snd (range_of s n)" "snd (range_of s n) < snd (range_of s m)"
    using sub unfolding free_of_mem by auto
  obtain i j where ij: "i < length xs" "n = xs ! i" "j < length xs" "m = xs ! j" using n(1) m(1) by (auto simp: in_set_conv_nth)
  have lt: "snd (range_of s (xs ! i)) < fst (range_of s (xs ! j))" if "i < j" "j < length xs" for i j
    using iso that by (auto simp: isolated_def sorted_wrt_iff_nth_less)
  have nz: "fst (range_of s (xs ! k)) < snd (range_of s (xs ! k))" if "k < length xs" for k
    using iso that by (auto simp: isolated_def)
  consider "i < j" | "i = j" | "j < i" by linarith
  then show False
  proof cases
    case 1
    then show ?thesis using lt [OF 1 ij(3)] m(2) ij by (simp add: not_less)
  next
    case 2
    then show ?thesis using m(3) ij by simp
  next
    case 3
    then show ?thesis using lt [OF 3 ij(1)] nz [OF ij(1)] m(3) ij by (meson less_asym less_trans)
  qed
qed

text \<open>The arena refuses with a result that counts as an allocation failure.\<close>

definition refusals_ok :: "CBSStruct \<Rightarrow> bool" where
  "refusals_ok c \<longleftrightarrow> (\<forall>r \<in> set (answers c). isl r \<longrightarrow> ResIsAllocFailure (projl r))"

lemma MFSAlloc_refusal:
  assumes "MFSAlloc m sz ans = Some (res, p, m', ans')" and "res \<noteq> ResOK"
  shows "res = ResRESOURCE \<or> Inl res \<in> set ans"
proof (cases "freeList m = 0")
  case False
  then show ?thesis using assms by (auto simp: MFSAlloc_def Let_def run_iff)
next
  case True
  show ?thesis
  proof (cases ans)
    case Nil
    then show ?thesis using assms True by (auto simp: MFSAlloc_def ArenaAlloc_def Let_def run_iff)
  next
    case (Cons r rs)
    then show ?thesis using assms True by (cases r) (auto simp: MFSAlloc_def ArenaAlloc_def Let_def run_iff)
  qed
qed

lemma cbsBlockNew_refusal:
  assumes "cbsBlockNew b l c = Some (res, c')" and "refusals_ok c"
  shows "res = ResOK \<or> ResIsAllocFailure res"
proof -
  obtain r p m an where a: "MFSAlloc (blockPool c) sizeof_CBSBlockStruct (answers c) = Some (r, p, m, an)" "r = ResOK \<longrightarrow> res = ResOK" "r \<noteq> ResOK \<longrightarrow> res = r"
    using assms(1) by (auto simp: cbsBlockNew_def run_iff Let_def split: if_splits)
  show ?thesis
    using MFSAlloc_refusal [OF a(1)] a(2,3) assms(2) by (force simp: refusals_ok_def ResIsAllocFailure_def)
qed

text \<open>
  What deletion does to a block that holds the range. The last clause is what is left when the arena
  refuses a descriptor for the smaller of two fragments: the fragment is gone.
\<close>

definition cut_from :: "mword \<Rightarrow> mword \<Rightarrow> mword \<times> mword \<Rightarrow> Res \<Rightarrow> mword set" where
  "cut_from b l r res =
     (if res = ResOK then {fst r ..< snd r} - {b ..< l}
      else if AddrOffset (fst r) b \<ge> AddrOffset l (snd r) then {fst r ..< b}
      else {l ..< snd r})"

lemma cbsBlockRefresh_answers: "cbsBlockRefresh n c = Some c' \<Longrightarrow> answers c' = answers c"
  by (auto simp: cbsBlockRefresh_def Let_def run_iff split: if_splits)

lemma cbsBlockShrink_answers:
  assumes "cbsBlockShrink n old c = Some c'"
  shows "answers c' = answers c"
proof -
  obtain c1 where c1: "cbsBlockRefresh n c = Some c1" "answers c' = answers c1"
    using assms unfolding cbsBlockShrink_def Let_def option_bind_eq_Some by (elim exE conjE) (auto split: if_splits)
  then show ?thesis using cbsBlockRefresh_answers by simp
qed

lemma delete_two_ok:
  assumes inv: "cbs_inv c (as @ n # bs)" and nb: "CBSBlockBase (block_at c n) < b" and nl: "l < CBSBlockLimit (block_at c n)"
    and bl: "b < l" and inl: "\<not> mayUseInline c" and ref: "refusals_ok c"
  shows "\<exists>res c' xs'. cbsDeleteFrom_block b l n c = Some (res, c') \<and> cbs_inv c' xs' \<and> same_frame c c' \<and>
    (res = ResOK \<or> ResIsAllocFailure res \<and> CBSBlockBase (block_at c n) < b \<and> l < CBSBlockLimit (block_at c n)) \<and>
    free_of (ranges c' xs') = free_of (ranges c as) \<union> cut_from b l (range_of (nodes c) n) res \<union> free_of (ranges c bs)"
proof -
  let ?d = "block_at c n" and ?A = "ranges c as" and ?B = "ranges c bs"
  let ?nb = "CBSBlockBase ?d" and ?nl = "CBSBlockLimit ?d"
  have iso: "isolated (?A @ (?nb, ?nl) # ?B)" using cbs_inv_isolated [OF inv] by (simp add: range_of_def)
  have neq: "b \<noteq> ?nb" "l \<noteq> ?nl" "\<not> ?nl < l" using nb nl by auto
  have split: "{?nb ..< ?nl} - {b ..< l} = {?nb ..< b} \<union> {l ..< ?nl}" using nb nl bl by auto
  show ?thesis
  proof (cases "AddrOffset ?nb b \<ge> AddrOffset l ?nl")
    case True
    let ?e = "?d\<lparr>CBSBlockLimit := b\<rparr>"
    have "isolated (?A @ (CBSBlockBase ?e, CBSBlockLimit ?e) # ?B)" using iso nb nl bl by (auto intro: less_trans)
    moreover have "CBSBlockSize ?e < CBSBlockSize ?d"
      using offset_less_limit [of ?nb b ?nl] nb less_trans [OF bl nl] by (simp add: CBSBlockSize_def less_imp_le)
    ultimately obtain c1 where c1: "cbsBlockShrink n (CBSBlockSize ?d) (set_block n ?e c) = Some c1" "cbs_inv c1 (as @ n # bs)" "same_frame c c1"
      "ranges c1 (as @ n # bs) = ?A @ (CBSBlockBase ?e, CBSBlockLimit ?e) # ?B" using shrink_at [OF inv] by blast
    have r1: "ranges c1 (as @ [n]) = ?A @ [(?nb, b)]" "ranges c1 bs = ?B" using c1(4) by simp_all
    have "isolated (ranges c1 (as @ [n]) @ (l, ?nl) # ranges c1 bs)" unfolding r1 using iso nb nl bl by (auto intro: less_trans)
    moreover have "cbs_inv c1 ((as @ [n]) @ bs)" using c1(2) by simp
    ultimately obtain res c2 where c2: "cbsBlockNew l ?nl c1 = Some (res, c2)" "same_frame c1 c2"
      "if res = ResOK
       then \<exists>m. m \<notin> set ((as @ [n]) @ bs) \<and> cbs_inv c2 ((as @ [n]) @ m # bs) \<and>
         data_of (nodes c2) = (data_of (nodes c1))(m := \<lparr>CBSBlockBase = l, CBSBlockLimit = ?nl\<rparr>) \<and>
         calls c2 = calls c1 @ new_calls c1 m (AddrOffset l ?nl)
       else cbs_inv c2 ((as @ [n]) @ bs) \<and> nodes c2 = nodes c1 \<and> calls c2 = calls c1"
      using cbsBlockNew_ok by meson
    have al: "res = ResOK \<or> ResIsAllocFailure res"
      using cbsBlockNew_refusal [OF c2(1)] cbsBlockShrink_answers [OF c1(1)] ref by (simp add: refusals_ok_def)
    have inl2: "\<not> mayUseInline c2" using inl c1(3) c2(2) by (simp add: same_frame_def)
    have run: "cbsDeleteFrom_block b l n c = Some (res, c2)"
    proof -
      have "cbsDeleteFrom_block b l n c = do {
          cbs \<leftarrow> cbsBlockShrink n (CBSBlockSize ?d) (set_block n ?e c);
          (res, cbs) \<leftarrow> cbsBlockNew l ?nl cbs;
          if res \<noteq> ResOK then do {
            aver (ResIsAllocFailure res);
            if mayUseInline cbs then do { (res, cbs) \<leftarrow> cbsAddToEmergencyLists l ?nl cbs; aver (res = ResOK); Some (ResOK, cbs) } else Some (res, cbs)
          } else Some (ResOK, cbs)
        }"
        unfolding cbsDeleteFrom_block_def CBSBlockSet_eq
        by (simp only: neq if_False if_True True nb nl aver_True bind.bind_lunit Let_def)
      then show ?thesis using c1(1) c2(1) al inl2 by (cases "res = ResOK") auto
    qed
    have f: "same_frame c c2" using c1(3) c2(2) same_frame_trans by blast
    show ?thesis
    proof (cases "res = ResOK")
      case ok: True
      then obtain m where m: "cbs_inv c2 ((as @ [n]) @ m # bs)" "data_of (nodes c2) = (data_of (nodes c1))(m := \<lparr>CBSBlockBase = l, CBSBlockLimit = ?nl\<rparr>)"
        using c2(3) by auto
      have "free_of (ranges c2 ((as @ [n]) @ m # bs)) = free_of ?A \<union> cut_from b l (range_of (nodes c) n) ResOK \<union> free_of ?B"
        unfolding ranges_data [OF cbs_inv_proper [OF m(1)] m(2)] r1 using split by (simp add: cut_from_def Un_assoc)
      then show ?thesis using run f m(1) ok by (intro exI [of _ ResOK] exI [of _ c2] exI [of _ "(as @ [n]) @ m # bs"]) simp
    next
      case no: False
      then have "cbs_inv c2 (as @ n # bs)" "ranges c2 (as @ n # bs) = ranges c1 (as @ n # bs)" using c2(3) by simp_all
      then show ?thesis
        using run f no al nb nl c1(4) True by (intro exI [of _ res] exI [of _ c2] exI [of _ "as @ n # bs"]) (simp add: cut_from_def Un_assoc del: map_append)
    qed
  next
    case False
    let ?e = "?d\<lparr>CBSBlockBase := l\<rparr>"
    have "isolated (?A @ (CBSBlockBase ?e, CBSBlockLimit ?e) # ?B)" using iso nb nl bl by (auto intro: less_trans)
    moreover have "CBSBlockSize ?e < CBSBlockSize ?d"
      using offset_less_base [of ?nb l ?nl] nl less_trans [OF nb bl] by (simp add: CBSBlockSize_def less_imp_le)
    ultimately obtain c1 where c1: "cbsBlockShrink n (CBSBlockSize ?d) (set_block n ?e c) = Some c1" "cbs_inv c1 (as @ n # bs)" "same_frame c c1"
      "ranges c1 (as @ n # bs) = ?A @ (CBSBlockBase ?e, CBSBlockLimit ?e) # ?B" using shrink_at [OF inv] by blast
    have r1: "ranges c1 as = ?A" "ranges c1 (n # bs) = (l, ?nl) # ?B" using c1(4) by simp_all
    have "isolated (ranges c1 as @ (?nb, b) # ranges c1 (n # bs))" unfolding r1 using iso nb nl bl by (auto intro: less_trans)
    with c1(2) obtain res c2 where c2: "cbsBlockNew ?nb b c1 = Some (res, c2)" "same_frame c1 c2"
      "if res = ResOK
       then \<exists>m. m \<notin> set (as @ n # bs) \<and> cbs_inv c2 (as @ m # n # bs) \<and>
         data_of (nodes c2) = (data_of (nodes c1))(m := \<lparr>CBSBlockBase = ?nb, CBSBlockLimit = b\<rparr>) \<and>
         calls c2 = calls c1 @ new_calls c1 m (AddrOffset ?nb b)
       else cbs_inv c2 (as @ n # bs) \<and> nodes c2 = nodes c1 \<and> calls c2 = calls c1"
      using cbsBlockNew_ok by meson
    have al: "res = ResOK \<or> ResIsAllocFailure res"
      using cbsBlockNew_refusal [OF c2(1)] cbsBlockShrink_answers [OF c1(1)] ref by (simp add: refusals_ok_def)
    have inl2: "\<not> mayUseInline c2" using inl c1(3) c2(2) by (simp add: same_frame_def)
    have run: "cbsDeleteFrom_block b l n c = Some (res, c2)"
    proof -
      have "cbsDeleteFrom_block b l n c = do {
          cbs \<leftarrow> cbsBlockShrink n (CBSBlockSize ?d) (set_block n ?e c);
          (res, cbs) \<leftarrow> cbsBlockNew ?nb b cbs;
          if res \<noteq> ResOK then do {
            aver (ResIsAllocFailure res);
            if mayUseInline cbs then do { (res, cbs) \<leftarrow> cbsAddToEmergencyLists ?nb b cbs; aver (res = ResOK); Some (ResOK, cbs) } else Some (res, cbs)
          } else Some (ResOK, cbs)
        }"
        unfolding cbsDeleteFrom_block_def CBSBlockSet_eq
        by (simp only: neq if_False if_True False nb nl aver_True bind.bind_lunit Let_def)
      then show ?thesis using c1(1) c2(1) al inl2 by (cases "res = ResOK") auto
    qed
    have f: "same_frame c c2" using c1(3) c2(2) same_frame_trans by blast
    show ?thesis
    proof (cases "res = ResOK")
      case ok: True
      then obtain m where m: "cbs_inv c2 (as @ m # n # bs)" "data_of (nodes c2) = (data_of (nodes c1))(m := \<lparr>CBSBlockBase = ?nb, CBSBlockLimit = b\<rparr>)"
        using c2(3) by auto
      have "free_of (ranges c2 (as @ m # n # bs)) = free_of ?A \<union> cut_from b l (range_of (nodes c) n) ResOK \<union> free_of ?B"
        unfolding ranges_data [OF cbs_inv_proper [OF m(1)] m(2)] r1 using split by (simp add: cut_from_def Un_assoc)
      then show ?thesis using run f m(1) ok by (intro exI [of _ ResOK] exI [of _ c2] exI [of _ "as @ m # n # bs"]) simp
    next
      case no: False
      then have "cbs_inv c2 (as @ n # bs)" "ranges c2 (as @ n # bs) = ranges c1 (as @ n # bs)" using c2(3) by simp_all
      then show ?thesis
        using run f no al nb nl c1(4) False by (intro exI [of _ res] exI [of _ c2] exI [of _ "as @ n # bs"]) (simp add: cut_from_def Un_assoc del: map_append)
    qed
  qed
qed

lemma delete_block_ok:
  assumes inv: "cbs_inv c (as @ n # bs)" and nb: "CBSBlockBase (block_at c n) \<le> b" and nl: "l \<le> CBSBlockLimit (block_at c n)"
    and bl: "b < l" and inl: "\<not> mayUseInline c" and ref: "refusals_ok c"
  shows "\<exists>res c' xs'. cbsDeleteFrom_block b l n c = Some (res, c') \<and> cbs_inv c' xs' \<and> same_frame c c' \<and>
    (res = ResOK \<or> ResIsAllocFailure res \<and> CBSBlockBase (block_at c n) < b \<and> l < CBSBlockLimit (block_at c n)) \<and>
    free_of (ranges c' xs') = free_of (ranges c as) \<union> cut_from b l (range_of (nodes c) n) res \<union> free_of (ranges c bs)"
proof -
  let ?d = "block_at c n" and ?A = "ranges c as" and ?B = "ranges c bs"
  let ?nb = "CBSBlockBase ?d" and ?nl = "CBSBlockLimit ?d"
  have iso: "isolated (?A @ (?nb, ?nl) # ?B)" using cbs_inv_isolated [OF inv] by (simp add: range_of_def)
  have pr: "proper (as @ n # bs)" by (rule cbs_inv_proper [OF inv])
  consider "b = ?nb" "l = ?nl" | "b = ?nb" "l < ?nl" | "?nb < b" "l = ?nl" | "?nb < b" "l < ?nl" using nb nl by (auto simp: le_less)
  then show ?thesis
  proof cases
    case 1
    obtain c' where c': "cbsBlockDelete n c = Some c'" "cbs_inv c' (as @ bs)" "same_frame c c'" "ranges c' (as @ bs) = ranges c (as @ bs)"
      using delete_at [OF inv] by blast
    have "cbsDeleteFrom_block b l n c = Some (ResOK, c')" using 1 c'(1) by (simp add: cbsDeleteFrom_block_def)
    moreover have "free_of (ranges c' (as @ bs)) = free_of ?A \<union> free_of ?B" unfolding c'(4) by simp
    ultimately show ?thesis using c'(2,3) 1 by (intro exI [of _ ResOK] exI [of _ c'] exI [of _ "as @ bs"]) (simp add: cut_from_def)
  next
    case 2
    let ?e = "?d\<lparr>CBSBlockBase := l\<rparr>"
    have "isolated (?A @ (CBSBlockBase ?e, CBSBlockLimit ?e) # ?B)" using iso 2 bl by (auto intro: less_trans)
    moreover have "CBSBlockSize ?e < CBSBlockSize ?d" using offset_less_base [of b l ?nl] 2 bl by (simp add: CBSBlockSize_def)
    ultimately obtain c' where c': "cbsBlockShrink n (CBSBlockSize ?d) (set_block n ?e c) = Some c'" "cbs_inv c' (as @ n # bs)" "same_frame c c'"
      "ranges c' (as @ n # bs) = ?A @ (CBSBlockBase ?e, CBSBlockLimit ?e) # ?B" using shrink_at [OF inv] by blast
    have "cbsDeleteFrom_block b l n c = Some (ResOK, c')" using 2 c'(1) by (auto simp: cbsDeleteFrom_block_def Let_def CBSBlockSet_eq)
    moreover have "{b ..< ?nl} - {b ..< l} = {l ..< ?nl}" using 2 bl by auto
    then have "free_of (ranges c' (as @ n # bs)) = free_of ?A \<union> cut_from b l (range_of (nodes c) n) ResOK \<union> free_of ?B"
      unfolding c'(4) using 2(1) by (simp add: cut_from_def Un_assoc)
    ultimately show ?thesis using c'(2,3) by (intro exI [of _ ResOK] exI [of _ c'] exI [of _ "as @ n # bs"]) simp
  next
    case 3
    let ?e = "?d\<lparr>CBSBlockLimit := b\<rparr>"
    have "isolated (?A @ (CBSBlockBase ?e, CBSBlockLimit ?e) # ?B)" using iso 3 bl by (auto intro: less_trans)
    moreover have "CBSBlockSize ?e < CBSBlockSize ?d" using offset_less_limit [of ?nb b ?nl] 3 bl by (simp add: CBSBlockSize_def less_imp_le)
    ultimately obtain c' where c': "cbsBlockShrink n (CBSBlockSize ?d) (set_block n ?e c) = Some c'" "cbs_inv c' (as @ n # bs)" "same_frame c c'"
      "ranges c' (as @ n # bs) = ?A @ (CBSBlockBase ?e, CBSBlockLimit ?e) # ?B" using shrink_at [OF inv] by blast
    have "cbsDeleteFrom_block b l n c = Some (ResOK, c')" using 3 c'(1) by (auto simp: cbsDeleteFrom_block_def Let_def CBSBlockSet_eq)
    moreover have "{?nb ..< l} - {b ..< l} = {?nb ..< b}" using 3 bl by auto
    then have "free_of (ranges c' (as @ n # bs)) = free_of ?A \<union> cut_from b l (range_of (nodes c) n) ResOK \<union> free_of ?B"
      unfolding c'(4) using 3(2) by (simp add: cut_from_def Un_assoc)
    ultimately show ?thesis using c'(2,3) by (intro exI [of _ ResOK] exI [of _ c'] exI [of _ "as @ n # bs"]) simp
  next
    case 4
    then show ?thesis using delete_two_ok [OF inv 4 bl inl ref] by blast
  qed
qed

lemma cbsDeleteFromTree_ok:
  assumes inv: "cbs_inv c xs" and bl: "b < l" and inl: "\<not> mayUseInline c" and ref: "refusals_ok c"
  shows "\<exists>res c' xs'. cbsDeleteFromTree b l c = Some (res, c') \<and> cbs_inv c' xs' \<and> same_frame c c' \<and>
    (\<not> {b ..< l} \<subseteq> free_of (ranges c xs) \<longrightarrow> res = ResFAIL \<and> ranges c' xs' = ranges c xs \<and> calls c' = calls c) \<and>
    ({b ..< l} \<subseteq> free_of (ranges c xs) \<longrightarrow> (\<exists>A r B. ranges c xs = A @ r # B \<and> fst r \<le> b \<and> l \<le> snd r \<and>
      (res = ResOK \<or> ResIsAllocFailure res \<and> fst r < b \<and> l < snd r) \<and>
      free_of (ranges c' xs') = free_of A \<union> cut_from b l r res \<union> free_of B))"
proof -
  note i = inv [unfolded cbs_inv_def]
  have wf: "tree_wf c" and pr: "proper xs" and iso: "isolated (ranges c xs)" and sn: "splay_nodes (splayTree c) (nodes c) xs" using i by simp_all
  have cl: "classified (class_of (splayTree c) (nodes c) (Some b)) xs"
    using at_addr_classified [OF iso pr] class_at_addr [OF wf] by simp
  obtain tree s where se: "SplayTreeSearch (splayTree c) (Some b) (nodes c) =
      Some (case find (\<lambda>x. at_addr (nodes c) b x = CompareEQUAL) xs of None \<Rightarrow> (ResFAIL, None, tree, s) | Some n \<Rightarrow> (ResOK, Some n, tree, s))"
    "becomes (splayTree c) (nodes c) (set xs \<union> {sides}) tree s xs"
    using SplayTreeSearch_ok [OF sn cl] unfolding class_at_addr [OF wf] becomes_def by blast
  define c1 where "c1 = c\<lparr>splayTree := tree, nodes := s\<rparr>"
  have acc: "cbs_inv c1 xs" "data_of (nodes c1) = data_of (nodes c)" "same_frame c c1" "calls c1 = calls c" "answers c1 = answers c"
    using inv_access [OF inv se(2)] by (simp_all add: c1_def)
  have rg: "range_of (nodes c1) = range_of (nodes c)" using acc(2) by (simp add: range_of_def fun_eq_iff)
  show ?thesis
  proof (cases "find (\<lambda>x. at_addr (nodes c) b x = CompareEQUAL) xs")
    case None
    then have "b \<notin> free_of (ranges c xs)" unfolding at_addr_free find_None_iff by blast
    then have "\<not> {b ..< l} \<subseteq> free_of (ranges c xs)" using bl by auto
    moreover have "cbsDeleteFromTree b l c = Some (ResFAIL, c1)" using se(1) None by (simp add: cbsDeleteFromTree_def Let_def c1_def)
    ultimately show ?thesis using acc rg by (intro exI [of _ ResFAIL] exI [of _ c1] exI [of _ xs]) simp
  next
    case (Some n)
    then have n: "n \<in> set xs" "at_addr (nodes c) b n = CompareEQUAL" by (auto simp: find_Some_iff)
    let ?nb = "CBSBlockBase (block_at c n)" and ?nl = "CBSBlockLimit (block_at c n)"
    have in_n: "?nb \<le> b" "b < ?nl" using n(2) by (simp_all add: at_addr_eq)
    have start: "cbsDeleteFromTree b l c = cbsDeleteFrom_block b l n c1"
      using se(1) Some by (simp add: cbsDeleteFromTree_def Let_def c1_def)
    show ?thesis
    proof (cases "l > ?nl")
      case True
      then have "\<not> {b ..< l} \<subseteq> free_of (ranges c xs)" using free_range_one_block [OF iso n bl] by auto
      moreover have "cbsDeleteFromTree b l c = Some (ResFAIL, c1)"
        using start True acc(2) by (simp add: cbsDeleteFrom_block_def)
      ultimately show ?thesis using acc rg by (intro exI [of _ ResFAIL] exI [of _ c1] exI [of _ xs]) simp
    next
      case False
      then have le: "l \<le> ?nl" by simp
      obtain as bs where xs: "xs = as @ n # bs" using n(1) by (meson split_list)
      have inv1: "cbs_inv c1 (as @ n # bs)" using acc(1) xs by simp
      have rn: "range_of (nodes c) n = (?nb, ?nl)" by (simp add: range_of_def)
      have sub: "{b ..< l} \<subseteq> free_of (ranges c xs)" unfolding xs using in_n le by auto
      have inl1: "\<not> mayUseInline c1" "refusals_ok c1" using inl ref acc(3,5) by (simp_all add: same_frame_def refusals_ok_def)
      obtain res c' xs' where r: "cbsDeleteFrom_block b l n c1 = Some (res, c')" "cbs_inv c' xs'" "same_frame c1 c'"
        "res = ResOK \<or> ResIsAllocFailure res \<and> ?nb < b \<and> l < ?nl"
        "free_of (ranges c' xs') = free_of (ranges c as) \<union> cut_from b l (?nb, ?nl) res \<union> free_of (ranges c bs)"
        using delete_block_ok [OF inv1 _ _ bl inl1, unfolded acc(2) rg, OF in_n(1) le] unfolding rn by blast
      have "ranges c xs = ranges c as @ (?nb, ?nl) # ranges c bs" by (simp add: xs range_of_def)
      moreover have "same_frame c c'" using acc(3) r(3) same_frame_trans by blast
      ultimately show ?thesis
        using start r(1,2,4,5) sub in_n le by (intro exI [of _ res] exI [of _ c'] exI [of _ xs']) (auto simp del: map_append)
    qed
  qed
qed

subsection \<open>The interface\<close>

lemma inv_inCBS [simp]: "cbs_inv (c\<lparr>inCBS := f\<rparr>) xs = cbs_inv c xs"
  by (simp add: cbs_inv_def tree_wf_def CBSCheck_def)

lemma ranges_inCBS: "ranges (c\<lparr>inCBS := f\<rparr>) xs = ranges c xs" "calls (c\<lparr>inCBS := f\<rparr>) = calls c"
  by simp_all

lemma CBSInit_ok:
  assumes "AlignCheck arenaAlign" and "MPS_PF_ALIGN \<le> arenaAlign" and "unat arenaAlign \<le> 2 ^ 31"
    and "mui \<longrightarrow> WordIsAligned al cbsMinimumAlignment" and "arena_ok (WordAlignUp 1280 arenaAlign) [] (answers c)"
  shows "\<exists>c'. CBSInit arenaAlign ResOK nw dl gr sh ms al mui ff c = Some (ResOK, c') \<and> cbs_inv c' [] \<and> \<not> inCBS c' \<and>
    mayUseInline c' = mui \<and> fastFind c' = ff \<and> alignment c' = al \<and> answers c' = answers c"
proof -
  let ?tree = "\<lparr>compare = Some cbsSplayCompare, updateNode = (if ff then Some cbsUpdateNode else None), root = 0\<rparr>"
  have tree: "SplayTreeInit cbsSplayCompare (if ff then Some cbsUpdateNode else None) = Some ?tree"
    by (simp add: SplayTreeInit_def SplayTreeCheck_def Let_def)
  obtain m where m: "MFSInit arenaAlign 1280 20 (blockPool c) = Some m" "mfs_inv m [] [] {}" "unroundedUnitSize m = 20"
    using MFSInit_ok [of 20 1280 arenaAlign "blockPool c"] assms(1-3) by (auto simp: UNIT_MIN_def)
  have ext: "extendBy m = WordAlignUp 1280 arenaAlign" using m(1) by (auto simp: MFSInit_def Let_def run_iff)
  define c0 where "c0 = c\<lparr>splayTree := ?tree, blockPool := m, newMethod := nw, deleteMethod := dl, growMethod := gr, shrinkMethod := sh,
    minSize := ms, mayUseInline := mui, fastFind := ff, alignment := al, inCBS := True, emergencyBlockList := 0, emergencyGrainList := 0\<rparr>"
  define c' where "c' = c0\<lparr>inCBS := False\<rparr>"
  have chk0: "CBSCheck c0" using assms(4) by (auto simp: c0_def CBSCheck_def SplayTreeCheck_def)
  then have chk: "CBSCheck c'" by (simp add: c'_def CBSCheck_def)
  have "splay_nodes (splayTree c') (nodes c') []"
    unfolding splay_nodes_def by (rule exI [of _ Leaf]) (simp add: tree_at_def c'_def c0_def SplayTreeCheck_def)
  moreover have "pool_inv (blockPool c', answers c') {}"
    using m(2) assms(5) ext unfolding pool_inv_def by (auto simp: c'_def c0_def)
  ultimately have "cbs_inv c' []"
    using chk m(3) by (simp add: cbs_inv_def tree_wf_def proper_def c'_def c0_def sizeof_CBSBlockStruct_def)
  moreover have "CBSInit arenaAlign ResOK nw dl gr sh ms al mui ff c = Some (ResOK, c')"
    using assms(4) tree m(1) chk0 chk
    by (simp add: CBSInit_def Let_def sizeof_CBSBlockStruct_def CBSLeave_def c'_def c0_def del: if_split)
  ultimately show ?thesis by (auto simp: c'_def c0_def)
qed

lemma CBSCheck_inCBS [simp]: "CBSCheck (c\<lparr>inCBS := f\<rparr>) = CBSCheck c"
  by (simp add: CBSCheck_def)

lemma CBSInsertReturningRange_ok:
  assumes inv: "cbs_inv c xs" and ni: "\<not> inCBS c" and inl: "\<not> mayUseInline c" and b0: "b \<noteq> 0" and bl: "b < l"
    and al: "WordIsAligned b (alignment c)" "WordIsAligned l (alignment c)"
  shows "\<exists>res rg c' xs'. CBSInsertReturningRange b l c = Some (res, rg, c') \<and> cbs_inv c' xs' \<and> same_frame c c' \<and>
    (res = ResOK \<longrightarrow> free_of (ranges c xs) \<inter> {b ..< l} = {} \<and> free_of (ranges c' xs') = free_of (ranges c xs) \<union> {b ..< l} \<and>
      (\<exists>r. rg = Some r \<and> r \<in> set (ranges c' xs') \<and> fst r \<le> b \<and> l \<le> snd r)) \<and>
    (res \<noteq> ResOK \<longrightarrow> rg = None \<and> ranges c' xs' = ranges c xs \<and> calls c' = calls c) \<and>
    (free_of (ranges c xs) \<inter> {b ..< l} \<noteq> {} \<longrightarrow> res = ResFAIL)"
proof -
  let ?c = "c\<lparr>inCBS := True\<rparr>"
  have "cbs_inv ?c xs" using inv by simp
  note ins = cbsInsertIntoTree_ok [OF this b0 bl, unfolded ranges_inCBS]
  have "WordIsAligned b (alignment ?c)" "WordIsAligned l (alignment ?c)" using al by simp_all
  note ins = ins [OF this]
  from ins obtain res rg c1 xs' where
    r: "cbsInsertIntoTree b l ?c = Some (res, rg, c1)"
      "res = ResOK \<longrightarrow> free_of (ranges c xs) \<inter> {b ..< l} = {} \<and> (\<exists>r. rg = Some r \<and> joined b l ?c xs c1 xs' r)"
      "res \<noteq> ResOK \<longrightarrow> cbs_inv c1 xs' \<and> same_frame ?c c1 \<and> ranges c1 xs' = ranges c xs \<and> calls c1 = calls c"
      "free_of (ranges c xs) \<inter> {b ..< l} \<noteq> {} \<longrightarrow> res = ResFAIL" by (elim exE conjE) (rule that)
  have i1: "cbs_inv c1 xs'" "same_frame ?c c1" using r(2,3) by (cases "res = ResOK"; auto simp: joined_def)+
  then have in1: "inCBS c1" by (simp add: same_frame_def)
  define c' where "c' = c1\<lparr>inCBS := False\<rparr>"
  have f: "same_frame c c'" using i1(2) ni by (simp add: c'_def same_frame_def)
  have chk: "CBSCheck c" using inv by (simp add: cbs_inv_def)
  have "CBSInsertReturningRange b l c = Some (res, if res = ResOK then rg else None, c')"
  proof (cases "res = ResOK")
    case True
    then obtain nb nl where rg: "rg = Some (nb, nl)" "nb \<le> b" "l \<le> nl" using r(2) by (auto simp: joined_def)
    show ?thesis
      using True rg chk ni inl b0 bl al r(1) in1
      by (simp add: CBSInsertReturningRange_def CBSEnter_def CBSLeave_def c'_def)
  next
    case False
    then show ?thesis
      using chk ni inl b0 bl al r(1) in1 by (simp add: CBSInsertReturningRange_def CBSEnter_def CBSLeave_def c'_def)
  qed
  moreover have "ranges c' xs' = ranges c1 xs'" "calls c' = calls c1" by (simp_all add: c'_def)
  ultimately show ?thesis
    using i1(1) f r(2-4)
    by (intro exI [of _ res] exI [of _ "if res = ResOK then rg else None"] exI [of _ c'] exI [of _ xs']) (auto simp: joined_def c'_def)
qed

lemma CBSDelete_ok:
  assumes inv: "cbs_inv c xs" and ni: "\<not> inCBS c" and inl: "\<not> mayUseInline c" and ref: "refusals_ok c" and b0: "b \<noteq> 0" and bl: "b < l"
    and al: "WordIsAligned b (alignment c)" "WordIsAligned l (alignment c)"
  shows "\<exists>res c' xs'. CBSDelete b l c = Some (res, c') \<and> cbs_inv c' xs' \<and> same_frame c c' \<and>
    (\<not> {b ..< l} \<subseteq> free_of (ranges c xs) \<longrightarrow> res = ResFAIL \<and> ranges c' xs' = ranges c xs \<and> calls c' = calls c) \<and>
    ({b ..< l} \<subseteq> free_of (ranges c xs) \<longrightarrow> (\<exists>A r B. ranges c xs = A @ r # B \<and> fst r \<le> b \<and> l \<le> snd r \<and>
      (res = ResOK \<or> ResIsAllocFailure res \<and> fst r < b \<and> l < snd r) \<and>
      free_of (ranges c' xs') = free_of A \<union> cut_from b l r res \<union> free_of B))"
proof -
  let ?c = "c\<lparr>inCBS := True\<rparr>"
  have pre: "cbs_inv ?c xs" "\<not> mayUseInline ?c" "refusals_ok ?c" using inv inl ref by (simp_all add: refusals_ok_def)
  obtain res c1 xs' where r: "cbsDeleteFromTree b l ?c = Some (res, c1)" "cbs_inv c1 xs'" "same_frame ?c c1"
    "\<not> {b ..< l} \<subseteq> free_of (ranges c xs) \<longrightarrow> res = ResFAIL \<and> ranges c1 xs' = ranges c xs \<and> calls c1 = calls c"
    "{b ..< l} \<subseteq> free_of (ranges c xs) \<longrightarrow> (\<exists>A r B. ranges c xs = A @ r # B \<and> fst r \<le> b \<and> l \<le> snd r \<and>
      (res = ResOK \<or> ResIsAllocFailure res \<and> fst r < b \<and> l < snd r) \<and>
      free_of (ranges c1 xs') = free_of A \<union> cut_from b l r res \<union> free_of B)"
    using cbsDeleteFromTree_ok [OF pre(1) bl pre(2,3), unfolded ranges_inCBS] by (elim exE conjE) (rule that)
  have in1: "inCBS c1" "\<not> mayUseInline c1" using r(3) inl by (simp_all add: same_frame_def)
  define c' where "c' = c1\<lparr>inCBS := False\<rparr>"
  have "CBSDelete b l c = Some (res, c')"
    using inv ni inl b0 bl al r(1) in1 by (simp add: CBSDelete_def CBSEnter_def CBSLeave_def c'_def cbs_inv_def)
  moreover have "same_frame c c'" using r(3) ni by (simp add: c'_def same_frame_def)
  moreover have eq: "ranges c' xs' = ranges c1 xs'" "calls c' = calls c1" and "cbs_inv c' xs'" using r(2) by (simp_all add: c'_def)
  moreover note r(4,5) [folded eq]
  ultimately show ?thesis by blast
qed

lemma CBSFind_needs_inline:
  assumes "\<not> mayUseInline c"
  shows "CBSFindFirst sz fd c = None \<and> CBSFindLast sz fd c = None \<and> CBSFindLargest fd c = None"
proof -
  have "cbsFlushEmergencyLists (c\<lparr>inCBS := True\<rparr>) = None" using assms by (simp add: cbsFlushEmergencyLists_def aver_bind)
  then show ?thesis by (auto simp: CBSFindFirst_def CBSFindLast_def CBSFindLargest_def CBSEnter_def aver_bind)
qed

text \<open>The first insertion into an empty structure over an arena that grants a page.\<close>

lemma SplayTreeNeighbours_empty:
  "SplayTreeCheck tree \<Longrightarrow> root tree = 0 \<Longrightarrow> SplayTreeNeighbours tree k s = Some (ResOK, Some (0, 0), tree, s)"
  by (simp add: SplayTreeNeighbours_def SplaySplay_def)

lemma MFSAlloc_granted:
  "MFSAlloc m sz (Inr x # as) = Some (res, p, m', as') \<Longrightarrow> res = ResOK \<and> (as' = as \<or> as' = Inr x # as)"
  by (auto simp: MFSAlloc_def ArenaAlloc_def Let_def run_iff split: if_splits)

lemma set_block_answers: "answers (CBSBlockSetBase n b c) = answers c" "answers (CBSBlockSetLimit n l c) = answers c"
  by (simp_all add: CBSBlockSetBase_def CBSBlockSetLimit_def)

lemma cbsBlockNew_granted:
  assumes "cbsBlockNew b l c = Some (res, c')" and "answers c = Inr x # as"
  shows "res = ResOK \<and> (answers c' = as \<or> answers c' = Inr x # as)"
proof -
  have al: "MFSAlloc (blockPool c) sizeof_CBSBlockStruct (answers c) = Some (ResOK, p, m, an) \<Longrightarrow> ?thesis" for p m an
  proof -
    assume a: "MFSAlloc (blockPool c) sizeof_CBSBlockStruct (answers c) = Some (ResOK, p, m, an)"
    have "an = as \<or> an = Inr x # as" using MFSAlloc_granted [OF a [unfolded assms(2)]] by simp
    moreover have "res = ResOK \<and> answers c' = an"
      using assms(1) unfolding cbsBlockNew_def a
      by (clarsimp simp: run_iff Let_def set_block_answers simp del: CBSStruct.ext_inject)
    ultimately show ?thesis by simp
  qed
  obtain r p m an where "MFSAlloc (blockPool c) sizeof_CBSBlockStruct (answers c) = Some (r, p, m, an)"
    using assms(1) unfolding cbsBlockNew_def by (cases "MFSAlloc (blockPool c) sizeof_CBSBlockStruct (answers c)") (auto simp: run_iff)
  moreover from this have "r = ResOK" using MFSAlloc_granted assms(2) by metis
  ultimately show ?thesis using al by simp
qed

lemma CBSInsert_first:
  assumes "CBSInsert b l c = Some (res, c')" and "SplayTreeCheck (splayTree c)" and "root (splayTree c) = 0" and "answers c = Inr x # as"
    and "\<not> mayUseInline c"
  shows "res = ResOK \<and> (answers c' = as \<or> answers c' = Inr x # as)"
proof -
  let ?c = "c\<lparr>inCBS := True\<rparr>"
  obtain rg c1 where c1: "cbsInsertIntoTree b l ?c = Some (res, rg, c1)" "answers c' = answers c1"
    using assms(1,5)
    by (auto simp: CBSInsert_def CBSInsertReturningRange_def CBSEnter_def CBSLeave_def run_iff Let_def split: if_splits)
  then obtain c2 where "cbsBlockNew b l ?c = Some (res, c2)" "answers c1 = answers c2"
    using assms(2,3) by (auto simp: cbsInsertIntoTree_def cbsInsertIntoTree_merge_def SplayTreeNeighbours_empty run_iff Let_def split: if_splits)
  then show ?thesis using cbsBlockNew_granted [of b l ?c] assms(4) c1(2) by auto
qed

subsection \<open>Properties\<close>


text \<open>An empty structure over an arena that grants one page at 8192.\<close>

definition example_cbs :: CBSStruct where
  "example_cbs = \<lparr>splayTree = \<lparr>compare = None, updateNode = None, root = 0\<rparr>, blockPool = blank_mfs, newMethod = False,
     deleteMethod = False, growMethod = False, shrinkMethod = False, minSize = 0, alignment = 0, mayUseInline = False,
     fastFind = False, inCBS = False, emergencyBlockList = 0, emergencyGrainList = 0,
     nodes = \<lparr>left_of = (\<lambda>x. 0), right_of = (\<lambda>x. 0), data_of = (\<lambda>x. \<lparr>CBSBlockBase = 0, CBSBlockLimit = 0\<rparr>), prop_of = (\<lambda>x. 0)\<rparr>,
     words = (\<lambda>x. 0), answers = [Inr 8192], calls = []\<rparr>"

lemma example_cbs_ok:
  "\<exists>c. CBSInit 4096 ResOK False False False False 0 16 False ff example_cbs = Some (ResOK, c) \<and> cbs_inv c [] \<and> \<not> inCBS c \<and>
    \<not> mayUseInline c \<and> alignment c = 16 \<and> refusals_ok c \<and> answers c = [Inr 8192]"
proof -
  have "arena_ok (WordAlignUp 1280 4096) [] [Inr 8192]"
    by (simp add: arena_ok_def extents_ok_def extent_ok_def WordAlignUp_def WordIsAligned_def MPS_PF_ALIGN_def)
  moreover have "AlignCheck 4096" by (simp add: AlignCheck_def)
  ultimately show ?thesis
    using CBSInit_ok [of 4096 False 16 example_cbs False False False False 0 ff]
    by (fastforce simp: MPS_PF_ALIGN_def example_cbs_def refusals_ok_def)
qed

lemma empty_tree: "cbs_inv c [] \<Longrightarrow> SplayTreeCheck (splayTree c) \<and> root (splayTree c) = 0"
  by (auto simp: cbs_inv_def splay_nodes_def tree_at_def)




end
