(* ===== verification/Location_Dependency.thy ===== *)
theory Location_Dependency
  imports Shield
begin

text \<open>
  Location dependencies (\<^verbatim>\<open>ld.c\<close>) and zone sets (\<^verbatim>\<open>ref.c\<close>). A client that hashes references by their
  bits records them in a dependency; the collector, when it moves objects, ages the arena by the set of
  zones that may have moved; and the client asks whether its dependency is stale. Sets of zones are words.
  The arena is the fields of \<^verbatim>\<open>ArenaStruct\<close> that these operations use, with the shield's part of the arena
  for the exposure of a dependency that lies in a segment. The queries are lock-free: they are modelled with
  the arena as it is at each of their reads.
\<close>

subsection \<open>Sets of zones\<close>

type_synonym RefSet = mword
type_synonym ZoneSet = mword

definition RefSetEMPTY :: RefSet where "RefSetEMPTY = 0"

definition ZoneSetUNIV :: ZoneSet where "ZoneSetUNIV = NOT 0"

definition RefSetUnion :: "RefSet \<Rightarrow> RefSet \<Rightarrow> RefSet" where "RefSetUnion rs1 rs2 = rs1 OR rs2"

definition RefSetInter :: "RefSet \<Rightarrow> RefSet \<Rightarrow> RefSet" where "RefSetInter rs1 rs2 = rs1 AND rs2"

definition RefSetSub :: "RefSet \<Rightarrow> RefSet \<Rightarrow> bool" where "RefSetSub rs1 rs2 \<longleftrightarrow> rs2 AND rs1 = rs1"

text \<open>The part of the arena.\<close>

definition LDHistoryLENGTH :: mword where "LDHistoryLENGTH = 4"

record LDArenaStruct =
  shieldArena :: ArenaStruct
  zoneShift :: nat
  epoch :: mword
  prehistory :: RefSet
  history :: "RefSet list"

definition AddrZone :: "LDArenaStruct \<Rightarrow> mword \<Rightarrow> nat" where
  "AddrZone arena addr = unat (drop_bit (zoneShift arena) addr AND 31)"

definition RefSetAdd :: "LDArenaStruct \<Rightarrow> RefSet \<Rightarrow> mword \<Rightarrow> RefSet" where
  "RefSetAdd arena rs addr = rs OR push_bit (AddrZone arena addr) 1"

definition RefSetIsMember :: "LDArenaStruct \<Rightarrow> RefSet \<Rightarrow> mword \<Rightarrow> bool" where
  "RefSetIsMember arena rs addr \<longleftrightarrow> drop_bit (AddrZone arena addr) rs AND 1 \<noteq> 0"

definition ZoneSetOfRange :: "LDArenaStruct \<Rightarrow> mword \<Rightarrow> mword \<Rightarrow> ZoneSet option" where
  "ZoneSetOfRange arena b l = do {
     aver (l > b);
     let zbase = drop_bit (zoneShift arena) b;
     let zlimit = drop_bit (zoneShift arena) (l - 1) + 1;
     if zlimit - zbase \<ge> 32 then Some ZoneSetUNIV
     else do {
       let zbase = zbase AND 31;
       let zlimit = zlimit AND 31;
       if zbase < zlimit then Some (push_bit (unat zlimit) 1 - push_bit (unat zbase) 1)
       else Some (NOT (push_bit (unat zbase) 1 - push_bit (unat zlimit) 1))
     }
   }"

subsection \<open>The history of the arena\<close>

definition GlobalsInit_history :: "LDArenaStruct \<Rightarrow> LDArenaStruct" where
  "GlobalsInit_history arena =
     arena\<lparr>epoch := 0, prehistory := RefSetEMPTY, history := replicate (unat LDHistoryLENGTH) RefSetEMPTY\<rparr>"

text \<open>The check of the arena that each history entry is a subset of the next oldest.\<close>

definition GlobalsCheck_history :: "LDArenaStruct \<Rightarrow> bool" where
  "GlobalsCheck_history arena =
    (case for_up (\<lambda>i rs.
            let j = unat ((epoch arena + LDHistoryLENGTH - of_nat i) mod LDHistoryLENGTH) in
            if RefSetSub rs (history arena ! j) then Inr (history arena ! j) else Inl False)
          1 (unat LDHistoryLENGTH + 1) RefSetEMPTY of
       Inl r \<Rightarrow> r
     | Inr rs \<Rightarrow> RefSetSub rs (prehistory arena))"

definition LDArenaCheck :: "LDArenaStruct \<Rightarrow> bool" where
  "LDArenaCheck arena \<longleftrightarrow> ArenaCheck (shieldArena arena) \<and> GlobalsCheck_history arena"

definition LDAge :: "LDArenaStruct \<Rightarrow> RefSet \<Rightarrow> LDArenaStruct option" where
  "LDAge arena rs = do {
     aver (LDArenaCheck arena);
     aver (rs \<noteq> RefSetEMPTY);
     h \<leftarrow> wr (history arena) (unat (epoch arena mod LDHistoryLENGTH)) RefSetEMPTY;
     let h = map (\<lambda>s. RefSetUnion s rs) h;
     let arena = arena\<lparr>history := h, prehistory := RefSetUnion (prehistory arena) rs\<rparr>;
     let arena = arena\<lparr>epoch := epoch arena + 1\<rparr>;
     aver (epoch arena \<noteq> 0);
     Some arena
   }"

subsection \<open>Dependencies\<close>

record LDStruct =
  ld_epoch :: mword
  ld_rs :: RefSet

text \<open>
  \<open>seg\<close> is what \<^verbatim>\<open>SegOfAddr\<close> says of the address of the dependency: the segment it lies in, if any.
\<close>

definition LDReset :: "nat option \<Rightarrow> LDStruct \<Rightarrow> LDArenaStruct \<Rightarrow> (LDStruct \<times> LDArenaStruct) option" where
  "LDReset seg ld arena = do {
     aver (LDArenaCheck arena);
     arena \<leftarrow> (case seg of None \<Rightarrow> Some arena
       | Some s \<Rightarrow> do { sh \<leftarrow> ShieldExpose (shieldArena arena) s; Some (arena\<lparr>shieldArena := sh\<rparr>) });
     let ld = ld\<lparr>ld_epoch := epoch arena\<rparr>;
     let ld = ld\<lparr>ld_rs := RefSetEMPTY\<rparr>;
     arena \<leftarrow> (case seg of None \<Rightarrow> Some arena
       | Some s \<Rightarrow> do { sh \<leftarrow> ShieldCover (shieldArena arena) s; Some (arena\<lparr>shieldArena := sh\<rparr>) });
     Some (ld, arena)
   }"

definition LDAdd :: "LDStruct \<Rightarrow> LDArenaStruct \<Rightarrow> mword \<Rightarrow> LDStruct option" where
  "LDAdd ld arena addr = do {
     aver (ld_epoch ld \<le> epoch arena);
     Some (ld\<lparr>ld_rs := RefSetAdd arena (ld_rs ld) addr\<rparr>)
   }"

text \<open>\<open>arena i\<close> is the arena at the \<open>i\<close>-th of the five reads of it.\<close>

definition LDIsStale :: "LDStruct \<Rightarrow> (nat \<Rightarrow> LDArenaStruct) \<Rightarrow> bool option" where
  "LDIsStale ld arena = do {
     aver (ld_epoch ld \<le> epoch (arena 0));
     if epoch (arena 1) = ld_epoch ld then Some False
     else do {
       rs \<leftarrow> rd (history (arena 2)) (unat (ld_epoch ld mod LDHistoryLENGTH));
       let rs = (if epoch (arena 3) - ld_epoch ld > LDHistoryLENGTH then prehistory (arena 4) else rs);
       Some (RefSetInter (ld_rs ld) rs \<noteq> RefSetEMPTY)
     }
   }"

definition LDMerge :: "LDStruct \<Rightarrow> LDArenaStruct \<Rightarrow> LDStruct \<Rightarrow> LDStruct option" where
  "LDMerge ld arena from_ld = do {
     aver (ld_epoch ld \<le> epoch arena);
     aver (ld_epoch from_ld \<le> epoch arena);
     let ld = (if ld_epoch from_ld < ld_epoch ld then ld\<lparr>ld_epoch := ld_epoch from_ld\<rparr> else ld);
     Some (ld\<lparr>ld_rs := RefSetUnion (ld_rs ld) (ld_rs from_ld)\<rparr>)
   }"

subsection \<open>The zones of a range\<close>

lemma bit_pow_diff:
  assumes "i \<le> j" "j < 32" "k < 32"
  shows "bit (push_bit j 1 - push_bit i (1 :: mword)) k \<longleftrightarrow> i \<le> k \<and> k < j"
proof -
  have "push_bit j 1 - push_bit i (1 :: mword) = push_bit i (mask (j - i))"
    using assms(1,2) by (simp add: mask_eq_exp_minus_1 push_bit_eq_mult algebra_simps flip: power_add)
  then show ?thesis using assms by (auto simp: bit_simps)
qed

lemma unat_and_31: "unat (w AND 31 :: mword) = unat w mod 32"
  using and_mask_mod [of w 5] by (simp add: mask_numeral)

lemma AddrZone_eq: "AddrZone a x = unat x div 2 ^ zoneShift a mod 32"
  by (simp only: AddrZone_def unat_and_31 unat_drop_bit_eq) (simp add: drop_bit_eq_div)

lemma zones_between:
  fixes b l :: nat
  assumes "b < l" "b div k \<le> q" "q \<le> (l - 1) div k" "k > 0"
  shows "\<exists>x. b \<le> x \<and> x < l \<and> x div k = q"
proof (cases "b div k = q")
  case True
  then show ?thesis using assms(1) by blast
next
  case False
  then have "b div k < q" using assms(2) by simp
  then have "b \<le> q * k" using assms(4) by (meson div_less_iff_less_mult leI less_le_not_le nat_less_le)
  moreover have "q * k \<le> l - 1" using assms(3,4) by (simp add: less_eq_div_iff_mult_less_eq)
  ultimately show ?thesis using assms(1,4) by (intro exI [of _ "q * k"]) simp
qed

lemma interval_residues:
  fixes b l z :: nat
  assumes "b < l" "l - b < 32" "z < 32"
  shows "(\<exists>q. b \<le> q \<and> q < l \<and> q mod 32 = z) \<longleftrightarrow>
    (if b mod 32 < l mod 32 then b mod 32 \<le> z \<and> z < l mod 32 else \<not> (l mod 32 \<le> z \<and> z < b mod 32))"
proof -
  define B b' L l' where d: "B = b div 32" "b' = b mod 32" "L = l div 32" "l' = l mod 32"
  have e: "b = 32 * B + b'" "l = 32 * L + l'" "b' < 32" "l' < 32" by (simp_all add: d)
  let ?in = "\<lambda>Q. b \<le> 32 * Q + z \<and> 32 * Q + z < l"
  have "q = 32 * (q div 32) + z" if "q mod 32 = z" for q using that by (metis mult_div_mod_eq)
  moreover have "(32 * Q + z) mod 32 = z" for Q using assms(3) by simp
  ultimately have q: "(\<exists>q. b \<le> q \<and> q < l \<and> q mod 32 = z) \<longleftrightarrow> (\<exists>Q. ?in Q)" by metis
  have "L = B \<or> L = B + 1" using assms(1,2) e by linarith
  then show ?thesis
  proof
    assume L: "L = B"
    have lt: "b' < l'" using assms(1) e(1,2) L by linarith
    have "?in Q \<Longrightarrow> Q = B" for Q using assms(3) e L by linarith
    then have "(\<exists>Q. ?in Q) \<longleftrightarrow> ?in B" by blast
    also have "\<dots> \<longleftrightarrow> b' \<le> z \<and> z < l'" using e(1,2) L by simp
    finally show ?thesis unfolding q d(2,4) [symmetric] if_P [OF lt] .
  next
    assume L: "L = B + 1"
    have l: "l = 32 * B + 32 + l'" using e(2) L by simp
    have lt: "\<not> b' < l'" using assms(2) e(1) l by linarith
    have "?in Q \<Longrightarrow> Q = B \<or> Q = B + 1" for Q using assms(3) e l by linarith
    then have "(\<exists>Q. ?in Q) \<longleftrightarrow> ?in B \<or> ?in (B + 1)" by blast
    also have "\<dots> \<longleftrightarrow> \<not> (l' \<le> z \<and> z < b')" using assms(3) e(1,3) l by auto
    finally show ?thesis unfolding q d(2,4) [symmetric] if_not_P [OF lt] .
  qed
qed

lemma wide_residues:
  fixes b l z :: nat
  assumes "32 \<le> l - b" and "z < 32"
  shows "\<exists>q. b \<le> q \<and> q < l \<and> q mod 32 = z"
proof -
  define d where "d = (z + 32 - b mod 32) mod 32"
  have "(b + d) mod 32 = (b + (z + 32 - b mod 32)) mod 32" by (simp add: d_def mod_simps)
  also have "b + (z + 32 - b mod 32) = 32 * (b div 32 + 1) + z"
  proof -
    obtain Q r where "b = 32 * Q + r" "r < 32" "b mod 32 = r" "b div 32 = Q"
      by (metis mod_less_divisor mult_div_mod_eq zero_less_numeral)
    then show ?thesis by simp
  qed
  also have "\<dots> mod 32 = z" using assms(2) by (simp only: mod_mult_self4 mod_less)
  finally show ?thesis using assms(1) by (intro exI [of _ "b + d"]) (auto simp: d_def intro: order_less_le_trans)
qed

lemma ZoneSetOfRange_ok:
  assumes "b < l" and "zoneShift a < 32"
  shows "\<exists>zs. ZoneSetOfRange a b l = Some zs \<and> (\<forall>z < 32. bit zs z \<longleftrightarrow> (\<exists>x. b \<le> x \<and> x < l \<and> AddrZone a x = z))"
proof -
  define k :: nat where "k = 2 ^ zoneShift a"
  have k: "k > 0" by (simp add: k_def)
  let ?B = "unat b div k" and ?L = "(unat l - 1) div k + 1"
  have bl: "unat b < unat l" using assms(1) by (simp add: word_less_nat_alt)
  have BL: "?B < ?L" using bl k by (simp add: div_le_mono less_Suc_eq_le)
  have zb: "unat (drop_bit (zoneShift a) b) = ?B"
    by (simp only: unat_drop_bit_eq) (simp add: drop_bit_eq_div k_def)
  have l1: "unat (l - 1) = unat l - 1" using bl by (subst unat_sub) (auto simp: word_le_nat_alt)
  have dl: "unat (drop_bit (zoneShift a) (l - 1)) = (unat l - 1) div k"
    unfolding unat_drop_bit_eq l1 by (simp add: drop_bit_eq_div k_def)
  have "(unat l - 1) div k \<le> unat l - 1" by simp
  then have "(unat l - 1) div k + 1 < 2 ^ 32" using bl unat_mword_less [of l] by linarith
  then have zl: "unat (drop_bit (zoneShift a) (l - 1) + 1) = ?L" using dl by (simp add: unat_add_lem [THEN iffD1])
  have mem: "(\<exists>x. b \<le> x \<and> x < l \<and> AddrZone a x = z) \<longleftrightarrow> (\<exists>q. ?B \<le> q \<and> q < ?L \<and> q mod 32 = z)" for z
  proof
    assume "\<exists>x. b \<le> x \<and> x < l \<and> AddrZone a x = z"
    then obtain x where "b \<le> x" "x < l" "AddrZone a x = z" by blast
    then have x: "unat b \<le> unat x" "unat x < unat l" "unat x div k mod 32 = z"
      by (simp_all add: word_le_nat_alt word_less_nat_alt AddrZone_eq k_def)
    have "?B \<le> unat x div k" using x(1) by (rule div_le_mono)
    moreover have "unat x div k \<le> (unat l - 1) div k" by (rule div_le_mono) (use x(2) in simp)
    ultimately show "\<exists>q. ?B \<le> q \<and> q < ?L \<and> q mod 32 = z" using x(3) by (intro exI [of _ "unat x div k"]) simp
  next
    assume "\<exists>q. ?B \<le> q \<and> q < ?L \<and> q mod 32 = z"
    then obtain q where q: "?B \<le> q" "q \<le> (unat l - 1) div k" "q mod 32 = z" by auto
    obtain x where x: "unat b \<le> x" "x < unat l" "x div k = q" using zones_between [OF bl q(1,2) k] by blast
    have "unat (of_nat x :: mword) = x" using x(2) unat_mword_less [of l] by (simp add: unat_of_nat)
    then show "\<exists>x. b \<le> x \<and> x < l \<and> AddrZone a x = z"
      using x q(3) by (intro exI [of _ "of_nat x"]) (simp add: word_le_nat_alt word_less_nat_alt AddrZone_eq k_def)
  qed
  define zb zl where "zb = drop_bit (zoneShift a) b" and "zl = drop_bit (zoneShift a) (l - 1) + 1"
  note u = zb [folded zb_def] zl [folded zl_def]
  have run: "ZoneSetOfRange a b l = (if zl - zb \<ge> 32 then Some ZoneSetUNIV
      else if zb AND 31 < zl AND 31 then Some (push_bit (unat (zl AND 31)) 1 - push_bit (unat (zb AND 31)) 1)
      else Some (NOT (push_bit (unat (zb AND 31)) 1 - push_bit (unat (zl AND 31)) 1)))"
    using assms(1) by (simp add: ZoneSetOfRange_def Let_def zb_def zl_def)
  have "unat (zl - zb) = ?L - ?B" using BL u by (subst unat_sub) (auto simp: word_le_nat_alt)
  then have wide: "zl - zb \<ge> 32 \<longleftrightarrow> ?L - ?B \<ge> 32" by (simp add: word_le_nat_alt)
  show ?thesis
  proof (cases "32 \<le> ?L - ?B")
    case True
    have "(\<exists>q. ?B \<le> q \<and> q < ?L \<and> q mod 32 = z)" if "z < 32" for z
      using wide_residues [OF _ that] True by blast
    then show ?thesis unfolding mem using run wide True by (simp add: ZoneSetUNIV_def)
  next
    case False
    then have iv: "(\<exists>q. ?B \<le> q \<and> q < ?L \<and> q mod 32 = z) \<longleftrightarrow>
        (if ?B mod 32 < ?L mod 32 then ?B mod 32 \<le> z \<and> z < ?L mod 32 else \<not> (?L mod 32 \<le> z \<and> z < ?B mod 32))" if "z < 32" for z
      using interval_residues [OF BL _ that] by simp
    have lt: "zb AND 31 < zl AND 31 \<longleftrightarrow> ?B mod 32 < ?L mod 32" unfolding word_less_nat_alt unat_and_31 u ..
    have nw: "\<not> zl - zb \<ge> 32" using wide False by simp
    show ?thesis
    proof (cases "?B mod 32 < ?L mod 32")
      case True
      have "ZoneSetOfRange a b l = Some (push_bit (?L mod 32) 1 - push_bit (?B mod 32) 1)"
        using run unfolding if_not_P [OF nw] if_P [OF lt [THEN iffD2, OF True]] unat_and_31 u .
      moreover have "bit (push_bit (?L mod 32) 1 - push_bit (?B mod 32) 1 :: mword) z \<longleftrightarrow> (\<exists>q. ?B \<le> q \<and> q < ?L \<and> q mod 32 = z)"
        if "z < 32" for z
        unfolding iv [OF that] if_P [OF True] by (rule bit_pow_diff) (use True that in simp_all)
      ultimately show ?thesis unfolding mem by blast
    next
      case ge: False
      have "ZoneSetOfRange a b l = Some (NOT (push_bit (?B mod 32) 1 - push_bit (?L mod 32) 1))"
        using run unfolding if_not_P [OF nw] if_not_P [OF ge [folded lt]] unat_and_31 u .
      moreover have "bit (NOT (push_bit (?B mod 32) 1 - push_bit (?L mod 32) 1) :: mword) z \<longleftrightarrow> (\<exists>q. ?B \<le> q \<and> q < ?L \<and> q mod 32 = z)"
        if z: "z < 32" for z
      proof -
        have "bit (push_bit (?B mod 32) 1 - push_bit (?L mod 32) 1 :: mword) z \<longleftrightarrow> ?L mod 32 \<le> z \<and> z < ?B mod 32"
          by (rule bit_pow_diff) (use ge z in simp_all)
        then show ?thesis using z unfolding iv [OF z] if_not_P [OF ge] bit_not_iff by simp
      qed
      ultimately show ?thesis unfolding mem by blast
    qed
  qed
qed

subsection \<open>What the history holds\<close>

text \<open>The union of a list of moved sets, and the invariant of the arena after those flips.\<close>

definition all_of :: "RefSet list \<Rightarrow> RefSet" where
  "all_of ms = foldr RefSetUnion ms RefSetEMPTY"

lemma all_of_simps [simp]: "all_of [] = 0" "all_of (m # ms) = m OR all_of ms" "all_of (ms @ ms') = all_of ms OR all_of ms'"
proof -
  show "all_of [] = 0" "all_of (m # ms) = m OR all_of ms" for m ms
    by (simp_all add: all_of_def RefSetUnion_def RefSetEMPTY_def)
  then show "all_of (ms @ ms') = all_of ms OR all_of ms'" by (induction ms) (simp_all add: ac_simps)
qed

lemma bit_all_of: "bit (all_of ms) z \<longleftrightarrow> (\<exists>m \<in> set ms. bit m z)"
  by (induction ms) (auto simp: bit_or_iff)

definition ld_inv :: "LDArenaStruct \<Rightarrow> RefSet list \<Rightarrow> bool" where
  "ld_inv a moved \<longleftrightarrow> zoneShift a < 32 \<and> length (history a) = 4 \<and> unat (epoch a) = length moved \<and> prehistory a = all_of moved \<and>
     (\<forall>i \<in> {1 .. 4}. history a ! ((length moved + 4 - i) mod 4) = all_of (drop (length moved - i) moved))"

lemma ld_inv_epoch: "ld_inv a moved \<Longrightarrow> epoch a = of_nat (length moved)"
proof -
  assume "ld_inv a moved"
  moreover have "of_nat (unat (epoch a)) = epoch a" by simp
  ultimately show ?thesis by (simp add: ld_inv_def)
qed

lemma ld_inv_init: "zoneShift a < 32 \<Longrightarrow> ld_inv (GlobalsInit_history a) []"
  by (simp add: ld_inv_def GlobalsInit_history_def LDHistoryLENGTH_def RefSetEMPTY_def)

lemma RefSetSub_all_of: "i \<le> j \<Longrightarrow> RefSetSub (all_of (drop j ms)) (all_of (drop i ms))"
proof -
  assume "i \<le> j"
  then have "set (drop j ms) \<subseteq> set (drop i ms)" by (rule set_drop_subset_set_drop)
  then show ?thesis
    unfolding RefSetSub_def by (intro bit_word_eqI) (auto simp: bit_and_iff bit_all_of)
qed

lemma unat_mod4: "unat ((of_nat n :: mword) mod 4) = n mod 4"
proof -
  have "unat ((of_nat n :: mword) mod 4) = n mod 2 ^ 32 mod 4" by (simp add: unat_mod_distrib unat_of_nat)
  also have "\<dots> = n mod 4" by (rule mod_mod_cancel) simp
  finally show ?thesis .
qed

lemma ld_inv_check:
  assumes inv: "ld_inv a moved"
  shows "GlobalsCheck_history a"
proof -
  let ?E = "length moved"
  let ?f = "\<lambda>i rs. let j = unat ((epoch a + LDHistoryLENGTH - of_nat i) mod LDHistoryLENGTH) in
            if RefSetSub rs (history a ! j) then Inr (history a ! j) else Inl False"
  let ?P = "\<lambda>i rs. rs = all_of (drop (?E + 1 - i) moved)"
  have e: "epoch a = of_nat ?E" using ld_inv_epoch [OF inv] .
  have step: "\<exists>rs'. ?f i rs = Inr rs' \<and> ?P (Suc i) rs'" if "1 \<le> i" "i < 5" "?P i rs" for i rs
  proof -
    have "epoch a + LDHistoryLENGTH - of_nat i = of_nat (?E + 4 - i)" using that(2) e by (simp add: LDHistoryLENGTH_def of_nat_diff)
    then have "unat ((epoch a + LDHistoryLENGTH - of_nat i) mod LDHistoryLENGTH) = (?E + 4 - i) mod 4"
      using unat_mod4 by (simp add: LDHistoryLENGTH_def)
    moreover have "history a ! ((?E + 4 - i) mod 4) = all_of (drop (?E - i) moved)" using inv that(1,2) by (simp add: ld_inv_def)
    moreover have "RefSetSub rs (all_of (drop (?E - i) moved))" using that(3) RefSetSub_all_of [of "?E - i" "?E + 1 - i" moved] by simp
    ultimately show ?thesis by (simp add: Let_def)
  qed
  have "?P 1 RefSetEMPTY" by (simp add: RefSetEMPTY_def)
  then have "\<exists>rs. for_up ?f 1 5 RefSetEMPTY = Inr rs \<and> ?P 5 rs" by (rule for_up_invariant) (use step in auto)
  then obtain rs where "for_up ?f 1 5 RefSetEMPTY = Inr rs" "rs = all_of (drop (?E - 4) moved)" by auto
  moreover have "RefSetSub (all_of (drop (?E - 4) moved)) (prehistory a)"
    using RefSetSub_all_of [of 0 "?E - 4" moved] inv by (simp add: ld_inv_def)
  ultimately show ?thesis by (simp add: GlobalsCheck_history_def LDHistoryLENGTH_def)
qed

lemma next_slot_apart:
  assumes "1 < n" and "n \<le> 4"
  shows "(E + 1 + 4 - n) mod 4 \<noteq> (E :: nat) mod 4"
proof -
  have "n = 2 \<or> n = 3 \<or> n = 4" using assms by linarith
  moreover have "(3 + E) mod 4 \<noteq> E mod 4" "(E + 2) mod 4 \<noteq> E mod 4" "(E + 1) mod 4 \<noteq> E mod 4" by presburger+
  ultimately show ?thesis by auto
qed

lemma LDAge_ok:
  assumes inv: "ld_inv a moved" and "ArenaCheck (shieldArena a)" and "rs \<noteq> 0" and "length moved < 2 ^ 32 - 1"
  shows "\<exists>a'. LDAge a rs = Some a' \<and> ld_inv a' (moved @ [rs]) \<and> shieldArena a' = shieldArena a \<and> zoneShift a' = zoneShift a"
proof -
  let ?E = "length moved"
  note i = inv [unfolded ld_inv_def]
  have e: "epoch a = of_nat ?E" using ld_inv_epoch [OF inv] .
  define h where "h = map (\<lambda>s. RefSetUnion s rs) ((history a)[?E mod 4 := RefSetEMPTY])"
  define a' where "a' = a\<lparr>history := h, prehistory := RefSetUnion (prehistory a) rs, epoch := epoch a + 1\<rparr>"
  have idx: "unat (epoch a mod LDHistoryLENGTH) = ?E mod 4" using unat_mod4 [of ?E] e by (simp add: LDHistoryLENGTH_def)
  have E1: "unat (epoch a + 1) = ?E + 1" 
  proof -
    have "epoch a + 1 = of_nat (Suc ?E)" using e by simp
    then show ?thesis using assms(4) by (simp only: unat_of_nat) simp
  qed
  have "LDAge a rs = Some a'"
  proof -
    have "epoch a + 1 \<noteq> 0" using E1 by auto
    moreover have "length (history a) = 4" using i by simp
    ultimately show ?thesis using assms(2,3) ld_inv_check [OF inv] idx
      by (simp add: LDAge_def LDArenaCheck_def RefSetEMPTY_def a'_def h_def Let_def)
  qed
  moreover have "ld_inv a' (moved @ [rs])"
  proof -
    have len: "length (history a) = 4" using i by simp
    have "h ! ((?E + 1 + 4 - n) mod 4) = all_of (drop (?E + 1 - n) (moved @ [rs]))" if n: "1 \<le> n" "n \<le> 4" for n
    proof (cases "n = 1")
      case True
      then show ?thesis using i by (simp add: h_def RefSetUnion_def RefSetEMPTY_def)
    next
      case False
      have "(?E + 1 + 4 - n) mod 4 \<noteq> ?E mod 4"
        using next_slot_apart n False by simp
      moreover have "?E + 1 + 4 - n = ?E + 4 - (n - 1)" "?E + 1 - n = ?E - (n - 1)" using n by linarith+
      moreover have "history a ! ((?E + 4 - (n - 1)) mod 4) = all_of (drop (?E - (n - 1)) moved)"
        by (rule i [THEN conjunct2, THEN conjunct2, THEN conjunct2, THEN conjunct2, THEN bspec]) (use n False in auto)
      moreover have "h ! k = history a ! k OR rs" if "k < 4" "k \<noteq> ?E mod 4" for k
        using that len by (simp add: h_def RefSetUnion_def)
      moreover have "all_of (drop (?E - (n - 1)) (moved @ [rs])) = all_of (drop (?E - (n - 1)) moved) OR rs" by simp
      ultimately show ?thesis by (metis mod_less_divisor zero_less_numeral)
    qed
    then have "\<forall>n \<in> {1 .. 4}. h ! ((length (moved @ [rs]) + 4 - n) mod 4) = all_of (drop (length (moved @ [rs]) - n) (moved @ [rs]))"
      by (simp only: length_append list.size atLeastAtMost_iff) simp
    moreover have "length h = 4" "zoneShift a < 32" "prehistory a = all_of moved" using i by (simp_all add: h_def)
    ultimately show ?thesis using E1 unfolding ld_inv_def a'_def
      by (simp only: LDArenaStruct.simps length_append list.size) (simp add: RefSetUnion_def del: Ball_def atLeastAtMost_iff)
  qed
  ultimately show ?thesis by (auto simp: a'_def)
qed

lemma LDAge_inv:
  assumes inv: "ld_inv a moved" and r: "LDAge a rs = Some a'"
  shows "ld_inv a' (moved @ [rs]) \<and> shieldArena a' = shieldArena a \<and> zoneShift a' = zoneShift a"
proof -
  have c: "ArenaCheck (shieldArena a)" "rs \<noteq> 0" "epoch a + 1 \<noteq> 0"
    using r by (auto simp: LDAge_def LDArenaCheck_def RefSetEMPTY_def run_iff Let_def)
  have "length moved < 2 ^ 32 - 1"
  proof (rule ccontr)
    assume "\<not> length moved < 2 ^ 32 - 1"
    moreover have "length moved < 2 ^ 32" using inv unat_mword_less [of "epoch a"] by (simp add: ld_inv_def)
    ultimately have "Suc (length moved) = 2 ^ 32" by simp
    moreover have "epoch a + 1 = of_nat (Suc (length moved))" using ld_inv_epoch [OF inv] by simp
    ultimately show False using c(3) by simp
  qed
  then show ?thesis using LDAge_ok [OF inv c(1,2)] r by auto
qed

text \<open>Several flips in a row.\<close>

fun LDAges :: "LDArenaStruct \<Rightarrow> RefSet list \<Rightarrow> LDArenaStruct option" where
  "LDAges a [] = Some a"
| "LDAges a (m # ms) = LDAge a m \<bind> (\<lambda>a. LDAges a ms)"

lemma LDAges_inv: "ld_inv a moved \<Longrightarrow> LDAges a ms = Some a' \<Longrightarrow> ld_inv a' (moved @ ms) \<and> zoneShift a' = zoneShift a"
proof (induction ms arbitrary: a moved)
  case (Cons m ms)
  obtain b where b: "LDAge a m = Some b" "LDAges b ms = Some a'" using Cons.prems(2) by (auto simp: run_iff)
  then show ?case using LDAge_inv [OF Cons.prems(1) b(1)] Cons.IH [of b "moved @ [m]"] by simp
qed simp

subsection \<open>What a dependency records\<close>

lemma RefSetIsMember_bit: "RefSetIsMember a rs addr \<longleftrightarrow> bit rs (AddrZone a addr)"
  by (simp add: RefSetIsMember_def bit_iff_odd_drop_bit and_one_eq odd_iff_mod_2_eq_one)

lemma AddrZone_less: "AddrZone a addr < 32"
  by (simp add: AddrZone_eq)

lemma AddrZone_cong: "zoneShift a' = zoneShift a \<Longrightarrow> AddrZone a' = AddrZone a"
  by (simp add: AddrZone_def fun_eq_iff)

lemma bit_RefSetAdd: "bit (RefSetAdd a rs addr) z \<longleftrightarrow> bit rs z \<or> z = AddrZone a addr"
  using AddrZone_less [of a addr] by (auto simp: RefSetAdd_def bit_simps)

lemma LDReset_ok:
  assumes "ld_inv a moved" and "shield_inv (shieldArena a) e"
    and "\<forall>s. seg = Some s \<longrightarrow> insideShield (shieldArena a) \<and> SegDepth (shieldArena a) s < 15"
  shows "\<exists>sh. LDReset seg ld a = Some (\<lparr>ld_epoch = epoch a, ld_rs = RefSetEMPTY\<rparr>, a\<lparr>shieldArena := sh\<rparr>) \<and> shield_inv sh e"
proof -
  have chk: "LDArenaCheck a"
    using ld_inv_check [OF assms(1)] shield_invD(6) [OF assms(2)] by (simp add: LDArenaCheck_def)
  show ?thesis
  proof (cases seg)
    case None
    have "a = a\<lparr>shieldArena := shieldArena a\<rparr>" by simp
    then show ?thesis using None chk assms(2) by (auto simp: LDReset_def intro: exI [of _ "shieldArena a"])
  next
    case (Some s)
    then obtain s1 where s1: "ShieldExpose (shieldArena a) s = Some s1" "shield_inv s1 (e(s := e s + 1))" "insideShield s1"
      using ShieldExpose_ok [OF assms(2), of s] assms(3) by blast
    obtain s2 where "ShieldCover s1 s = Some s2" "shield_inv s2 e" using ShieldCover_ok [OF s1(2,3), of s] by auto
    then show ?thesis using Some chk s1(1) by (intro exI [of _ s2]) (simp add: LDReset_def)
  qed
qed

text \<open>
  The executions of the clients and the collector: the arena, the dependencies, the sets that have moved
  so far, and, for each dependency, the references it was given since its last reset (or that came with a
  merge), each with the number of flips there had been at that time.
\<close>

inductive ld_reach :: "LDArenaStruct \<Rightarrow> (nat \<Rightarrow> LDStruct) \<Rightarrow> RefSet list \<Rightarrow> (nat \<Rightarrow> (mword \<times> nat) set) \<Rightarrow> bool" where
  start: "zoneShift a < 32 \<Longrightarrow> ld_reach (GlobalsInit_history a) (\<lambda>i. \<lparr>ld_epoch = 0, ld_rs = RefSetEMPTY\<rparr>) [] (\<lambda>i. {})"
| reset: "ld_reach a lds moved deps \<Longrightarrow> LDReset seg (lds i) a = Some (ld, a') \<Longrightarrow>
    ld_reach a' (lds(i := ld)) moved (deps(i := {}))"
| add: "ld_reach a lds moved deps \<Longrightarrow> LDAdd (lds i) a addr = Some ld \<Longrightarrow>
    ld_reach a (lds(i := ld)) moved (deps(i := insert (addr, length moved) (deps i)))"
| merge: "ld_reach a lds moved deps \<Longrightarrow> LDMerge (lds i) a (lds j) = Some ld \<Longrightarrow>
    ld_reach a (lds(i := ld)) moved (deps(i := deps i \<union> deps j))"
| age: "ld_reach a lds moved deps \<Longrightarrow> LDAge a rs = Some a' \<Longrightarrow> ld_reach a' lds (moved @ [rs]) deps"
| shield: "ld_reach a lds moved deps \<Longrightarrow> ld_reach (a\<lparr>shieldArena := sh\<rparr>) lds moved deps"

definition dep_ok :: "LDArenaStruct \<Rightarrow> LDStruct \<Rightarrow> nat \<Rightarrow> (mword \<times> nat) set \<Rightarrow> bool" where
  "dep_ok a ld now ds \<longleftrightarrow> unat (ld_epoch ld) \<le> now \<and>
     (\<forall>(addr, t) \<in> ds. unat (ld_epoch ld) \<le> t \<and> bit (ld_rs ld) (AddrZone a addr))"

lemma ld_inv_shield [simp]: "ld_inv (a\<lparr>shieldArena := sh\<rparr>) moved = ld_inv a moved"
  by (simp add: ld_inv_def)

lemma LDReset_result:
  assumes "LDReset seg ld a = Some (ld', a')"
  shows "\<exists>sh. a' = a\<lparr>shieldArena := sh\<rparr> \<and> ld' = \<lparr>ld_epoch = epoch a, ld_rs = RefSetEMPTY\<rparr>"
proof -
  have "a = a\<lparr>shieldArena := shieldArena a\<rparr>" by simp
  then show ?thesis
    using assms by (cases seg) (auto simp: LDReset_def run_iff Let_def intro: exI [of _ "shieldArena a"])
qed

lemma dep_ok_mono: "dep_ok a ld now ds \<Longrightarrow> zoneShift a' = zoneShift a \<Longrightarrow> now \<le> now' \<Longrightarrow> dep_ok a' ld now' ds"
  using AddrZone_cong [of a' a] by (auto simp: dep_ok_def)

lemma ld_reach_inv: "ld_reach a lds moved deps \<Longrightarrow> ld_inv a moved \<and> (\<forall>i. dep_ok a (lds i) (length moved) (deps i))"
proof (induction rule: ld_reach.induct)
  case (start a)
  then show ?case using ld_inv_init by (simp add: dep_ok_def)
next
  case (reset a lds moved deps seg i ld a')
  then obtain sh where r: "a' = a\<lparr>shieldArena := sh\<rparr>" "ld = \<lparr>ld_epoch = epoch a, ld_rs = RefSetEMPTY\<rparr>"
    using LDReset_result by blast
  have "dep_ok a' (lds j) (length moved) (deps j)" for j
    using reset.IH dep_ok_mono [of a "lds j" "length moved" "deps j" a' "length moved"] by (simp add: r)
  moreover have "dep_ok a' ld (length moved) {}" using reset.IH by (simp add: dep_ok_def r(2) ld_inv_def)
  ultimately show ?case using reset.IH by (simp add: r(1))
next
  case (add a lds moved deps i addr ld)
  have "ld = (lds i)\<lparr>ld_rs := RefSetAdd a (ld_rs (lds i)) addr\<rparr>" using add.hyps(2) by (simp add: LDAdd_def run_iff)
  then have "dep_ok a ld (length moved) (insert (addr, length moved) (deps i))"
    using add.IH by (auto simp: dep_ok_def bit_RefSetAdd)
  then show ?case using add.IH by simp
next
  case (merge a lds moved deps i j ld)
  have "dep_ok a ld (length moved) (deps i \<union> deps j)"
  proof -
    have "dep_ok a (lds i) (length moved) (deps i)" "dep_ok a (lds j) (length moved) (deps j)" using merge.IH by simp_all
    moreover have "ld_rs ld = ld_rs (lds i) OR ld_rs (lds j)"
      "unat (ld_epoch ld) = min (unat (ld_epoch (lds i))) (unat (ld_epoch (lds j)))"
      using merge.hyps(2) by (auto simp: LDMerge_def run_iff Let_def RefSetUnion_def word_less_nat_alt split: if_splits)
    ultimately show ?thesis by (fastforce simp: dep_ok_def bit_or_iff)
  qed
  then show ?case using merge.IH by simp
next
  case (age a lds moved deps rs a')
  then have n: "ld_inv a' (moved @ [rs])" "zoneShift a' = zoneShift a" using LDAge_inv by blast+
  have "dep_ok a' (lds i) (length (moved @ [rs])) (deps i)" for i
    by (rule dep_ok_mono [OF _ n(2), of _ "length moved"]) (use age.IH in simp_all)
  with n(1) show ?case by blast
next
  case (shield a lds moved deps sh)
  have "dep_ok (a\<lparr>shieldArena := sh\<rparr>) (lds i) (length moved) (deps i)" for i
    by (rule dep_ok_mono [of a _ "length moved"]) (use shield.IH in simp_all)
  then show ?case using shield.IH by simp
qed

lemma staleI: "bit rs z \<Longrightarrow> bit rs' z \<Longrightarrow> RefSetInter rs rs' \<noteq> RefSetEMPTY"
  by (auto simp: RefSetInter_def RefSetEMPTY_def bit_and_iff dest: arg_cong [of _ _ "\<lambda>w. bit w z"])

lemma bit_all_of_drop: "m < length ms \<Longrightarrow> e \<le> m \<Longrightarrow> bit (ms ! m) z \<Longrightarrow> bit (all_of (drop e ms)) z"
  by (auto simp: bit_all_of in_set_conv_nth intro!: bexI [of _ "ms ! m"] exI [of _ "m - e"])

lemma bit_all_of_dropD: "bit (all_of (drop e ms)) z \<Longrightarrow> bit (all_of ms) z"
  by (auto simp: bit_all_of dest: in_set_dropD)

text \<open>The set that the history keeps for a recent epoch.\<close>

lemma history_at:
  assumes "ld_inv a moved" and "e < length moved" and "length moved \<le> e + 4"
  shows "history a ! (e mod 4) = all_of (drop e moved)"
proof -
  let ?i = "length moved - e"
  have "history a ! ((length moved + 4 - ?i) mod 4) = all_of (drop (length moved - ?i) moved)"
    by (rule assms(1) [unfolded ld_inv_def, THEN conjunct2, THEN conjunct2, THEN conjunct2, THEN conjunct2, THEN bspec])
      (use assms(2,3) in auto)
  moreover have "length moved + 4 - ?i = e + 4" "length moved - ?i = e" using assms(2) by auto
  ultimately show ?thesis by simp
qed

text \<open>
  C6: Location dependencies are safe, also without locks. After any sequence of resets, additions, merges
  and flips, whatever flips happen between the reads that the query makes of the arena, the query returns;
  and it answers that the dependency is stale if any reference that was added to it, directly or through a
  merge, lies in a zone that has moved in a flip between its addition and the start of the query.
\<close>

theorem LDIsStale_safe:
  assumes "ld_reach (a 0) lds moved deps" and "\<forall>n < 4. LDAges (a n) (ms n) = Some (a (Suc n))"
  shows "\<exists>stale. LDIsStale (lds i) a = Some stale \<and>
    ((\<exists>(addr, t) \<in> deps i. \<exists>m < length moved. t \<le> m \<and> RefSetIsMember (a 0) (moved ! m) addr) \<longrightarrow> stale)"
proof -
  define M1 where "M1 = moved @ ms 0"
  define M2 where "M2 = M1 @ ms 1"
  define M3 where "M3 = M2 @ ms 2"
  define M4 where "M4 = M3 @ ms 3"
  have "ld_inv (a 0) moved" and dep: "dep_ok (a 0) (lds i) (length moved) (deps i)" using ld_reach_inv [OF assms(1)] by auto
  moreover have s: "LDAges (a 0) (ms 0) = Some (a 1)" "LDAges (a 1) (ms 1) = Some (a 2)" "LDAges (a 2) (ms 2) = Some (a 3)"
    "LDAges (a 3) (ms 3) = Some (a 4)" using assms(2) by (auto simp: numeral_eq_Suc)
  ultimately have inv: "ld_inv (a 0) moved" "ld_inv (a 1) M1" "ld_inv (a 2) M2" "ld_inv (a 3) M3" "ld_inv (a 4) M4"
    unfolding M1_def M2_def M3_def M4_def using LDAges_inv by blast+
  let ?e = "unat (ld_epoch (lds i))" and ?rs = "ld_rs (lds i)"
  have e: "?e \<le> length moved" using dep by (simp add: dep_ok_def)
  have idx: "unat (ld_epoch (lds i) mod LDHistoryLENGTH) = ?e mod 4" by (simp add: LDHistoryLENGTH_def unat_mod_distrib)
  have len: "length (history (a 2)) = 4" and E: "unat (epoch (a 0)) = length moved" "unat (epoch (a 1)) = length M1"
    "unat (epoch (a 3)) = length M3" and pre: "prehistory (a 4) = all_of M4"
    using inv by (simp_all add: ld_inv_def)
  have mono: "length moved \<le> length M1" "length M1 \<le> length M2" "length M2 \<le> length M3"
    by (simp_all add: M1_def M2_def M3_def)
  have old: "epoch (a 3) - ld_epoch (lds i) > LDHistoryLENGTH \<longleftrightarrow> length M3 > ?e + 4"
    using e E(3) mono by (auto simp: word_less_nat_alt LDHistoryLENGTH_def unat_sub word_le_nat_alt)
  define h where "h = (if epoch (a 3) - ld_epoch (lds i) > LDHistoryLENGTH then prehistory (a 4) else history (a 2) ! (?e mod 4))"
  have run: "LDIsStale (lds i) a = Some (if epoch (a 1) = ld_epoch (lds i) then False else RefSetInter ?rs h \<noteq> RefSetEMPTY)"
    using e E(1) by (simp add: LDIsStale_def Let_def h_def idx len word_le_nat_alt)
  have "epoch (a 1) \<noteq> ld_epoch (lds i) \<and> RefSetInter ?rs h \<noteq> RefSetEMPTY"
    if d: "(addr, t) \<in> deps i" "m < length moved" "t \<le> m" "RefSetIsMember (a 0) (moved ! m) addr" for addr t m
  proof
    let ?z = "AddrZone (a 0) addr"
    have t: "?e \<le> t" "bit ?rs ?z" using dep d(1) by (auto simp: dep_ok_def)
    then have em: "?e \<le> m" using d(3) by simp
    then show ne: "epoch (a 1) \<noteq> ld_epoch (lds i)" using d(2) mono(1) E(2) by auto
    have z: "bit (moved ! m) ?z" using d(4) RefSetIsMember_bit by simp
    have all: "bit (all_of (drop ?e (moved @ M))) ?z" for M
      by (rule bit_all_of_drop [OF _ em]) (use d(2) z in \<open>simp_all add: nth_append\<close>)
    show "RefSetInter ?rs h \<noteq> RefSetEMPTY"
    proof (cases "length M3 > ?e + 4")
      case True
      then have "h = all_of M4" using old pre by (simp add: h_def)
      moreover have "bit (all_of M4) ?z" using bit_all_of_dropD [OF all [of "ms 0 @ ms 1 @ ms 2 @ ms 3"]]
        by (simp add: M4_def M3_def M2_def M1_def)
      ultimately show ?thesis using staleI [OF t(2)] by simp
    next
      case False
      then have "h = history (a 2) ! (?e mod 4)" using old by (simp add: h_def)
      also have "\<dots> = all_of (drop ?e M2)" by (rule history_at [OF inv(3)]) (use False d(2) em mono in auto)
      finally show ?thesis using staleI [OF t(2)] all [of "ms 0 @ ms 1"] by (simp add: M2_def M1_def)
    qed
  qed
  then show ?thesis unfolding run by auto
qed


definition ld_start :: LDArenaStruct where
  "ld_start = GlobalsInit_history \<lparr>shieldArena = ShieldInit shield_start, zoneShift = 20, epoch = 9, prehistory = 5, history = []\<rparr>"

lemma ld_example:
  "\<exists>a lds. ld_reach a lds [32] ((\<lambda>i. {})(3 := {(0x500010, 0)})) \<and> zoneShift a = 20"
proof -
  have r0: "ld_reach ld_start (\<lambda>i. \<lparr>ld_epoch = 0, ld_rs = RefSetEMPTY\<rparr>) [] (\<lambda>i. {})"
    unfolding ld_start_def by (rule ld_reach.start) simp
  have sh: "shieldArena ld_start = ShieldInit shield_start" by (simp add: ld_start_def GlobalsInit_history_def)
  have inv: "ld_inv ld_start []" and si: "shield_inv (shieldArena ld_start) (\<lambda>s. 0)"
    using ld_reach_inv [OF r0] reachable_inv [OF shield_start_reachable] sh by simp_all
  let ?l = "\<lparr>ld_epoch = epoch ld_start, ld_rs = RefSetEMPTY\<rparr>"
  have none: "\<forall>s. None = Some s \<longrightarrow> insideShield (shieldArena ld_start) \<and> SegDepth (shieldArena ld_start) s < 15" by simp
  obtain sh1 where r: "LDReset None \<lparr>ld_epoch = 0, ld_rs = RefSetEMPTY\<rparr> ld_start = Some (?l, ld_start\<lparr>shieldArena := sh1\<rparr>)"
    "shield_inv sh1 (\<lambda>s. 0)" using LDReset_ok [OF inv si none] by blast
  note r1 = ld_reach.reset [OF r0 r(1), of 3]
  let ?a = "ld_start\<lparr>shieldArena := sh1\<rparr>"
  have "LDAdd ?l ?a 0x500010 = Some (?l\<lparr>ld_rs := RefSetAdd ?a 0 0x500010\<rparr>)" by (simp add: LDAdd_def RefSetEMPTY_def)
  with ld_reach.add [OF r1, of 3 "0x500010"] obtain lds where r2: "ld_reach ?a lds [] ((\<lambda>i. {})(3 := {(0x500010, 0)}))" by auto
  have "ArenaCheck (shieldArena ?a)" using shield_invD(6) [OF r(2)] by simp
  moreover have zs: "zoneShift ?a = 20" by (simp add: ld_start_def GlobalsInit_history_def)
  ultimately obtain a' where a': "LDAge ?a 32 = Some a'" "zoneShift a' = 20"
    using LDAge_ok [of ?a "[]" 32] inv zs by auto
  from ld_reach.age [OF r2 a'(1)] a'(2) show ?thesis by auto
qed

theorem LDIsStale_safe_witness:
  "\<exists>a lds. ld_reach a lds [32] ((\<lambda>i. {})(3 := {(0x500010, 0)})) \<and> LDIsStale (lds 3) (\<lambda>n. a) = Some True"
proof -
  obtain a lds where r: "ld_reach a lds [32] ((\<lambda>i. {})(3 := {(0x500010, 0)}))" "zoneShift a = 20" using ld_example by blast
  have "RefSetIsMember a 32 0x500010" by (simp add: RefSetIsMember_bit AddrZone_eq r(2) bit_numeral_rec)
  with LDIsStale_safe [where a = "\<lambda>n. a" and ms = "\<lambda>n. []", OF r(1), of 3] r(1) show ?thesis
    by (intro exI [of _ a] exI [of _ lds] conjI) auto
qed

text \<open>
  C35: The zone set of a range of addresses holds exactly the zones of the addresses of the range, however the
  range lies across the boundary where the zones start again and however long it is.
\<close>

theorem ZoneSetOfRange_correct:
  assumes "b < l" and "zoneShift a < 32" and "z < 32"
  shows "\<exists>zs. ZoneSetOfRange a b l = Some zs \<and> (bit zs z \<longleftrightarrow> (\<exists>x. b \<le> x \<and> x < l \<and> AddrZone a x = z))"
  using ZoneSetOfRange_ok [OF assms(1,2)] assms(3) by blast

theorem ZoneSetOfRange_correct_witness:
  "\<exists>zs. ZoneSetOfRange ld_start 0x1E00000 0x2100010 = Some zs \<and>
    (bit zs 31 \<longleftrightarrow> (\<exists>x. 0x1E00000 \<le> x \<and> x < 0x2100010 \<and> AddrZone ld_start x = 31))"
  using ZoneSetOfRange_correct [where b = "0x1E00000" and l = "0x2100010" and a = ld_start and z = 31] by (simp add: ld_start_def GlobalsInit_history_def)

end
