(* ===== verification/Dylan_Values.thy ===== *)
theory Dylan_Values
  imports Machine_Word
begin

text \<open>
  The values of the C run-time of Dylan (\<^verbatim>\<open>dfmc/c-run-time/run-time.h\<close>): a word of type \<^verbatim>\<open>D\<close> is the
  address of an object or an immediate with a tag in its two low bits. Objects are known by their
  addresses, so that identity is equality. The area for multiple values is a count and 64 words.
\<close>

datatype D = Ptr nat | Imm mword

definition NULL :: D where "NULL = Ptr 0"

definition DFALSE :: D where "DFALSE = Ptr 1"

definition DTRUE :: D where "DTRUE = Ptr 2"

definition Pempty_vectorVKi :: D where "Pempty_vectorVKi = Ptr 3"

definition KPunboundVKi :: D where "KPunboundVKi = Ptr 4"

definition LobjectGVKd :: D where "LobjectGVKd = Ptr 5"

definition RAWASBOOL :: "bool \<Rightarrow> D" where "RAWASBOOL x = (if x then DTRUE else DFALSE)"

text \<open>Tagging of small integers. \<open>R\<close> is the arithmetic shift of the word.\<close>

definition I :: "mword \<Rightarrow> mword" where "I n = push_bit 2 n OR 1"

definition C :: "mword \<Rightarrow> mword" where "C n = push_bit 2 n OR 2"

definition R :: "mword \<Rightarrow> mword" where "R n = signed_drop_bit 2 n"

definition TAG_BITS :: "mword \<Rightarrow> mword" where "TAG_BITS x = x AND 3"

lemma I_arith: "I n = 4 * n + 1"
proof -
  have "push_bit 2 n OR 1 = push_bit 2 n + (1 :: mword)"
    by (rule disjunctive_add [symmetric]) (auto simp: bit_simps)
  then show ?thesis by (simp add: I_def push_bit_eq_mult)
qed

lemma TAG_I: "TAG_BITS (I n) = 1"
proof -
  have "(push_bit 2 n OR 1) AND mask 2 = (1 :: mword)"
    by (intro bit_word_eqI) (auto simp: bit_simps)
  then show ?thesis by (simp add: TAG_BITS_def I_def mask_numeral)
qed

lemma R_I:
  assumes "- (2 ^ 29) \<le> sint n" and "sint n < 2 ^ 29"
  shows "R (I n) = n"
proof -
  have e: "I n = word_of_int (4 * sint n + 1)" by (simp add: I_arith)
  have "sint (I n) = 4 * sint n + 1" unfolding e by (rule sint_mword_of_int) (use assms in auto)
  then have "sint (R (I n)) = sint n" by (simp add: R_def sint_signed_drop_bit_eq drop_bit_eq_div)
  then show ?thesis by (simp add: signed_word_eqI)
qed

subsection \<open>Multiple values\<close>

definition VALUES_MAX :: nat where "VALUES_MAX = 64"

record MV =
  mv_count :: nat
  mv_value :: "D list"

definition mv_ok :: "MV \<Rightarrow> bool" where
  "mv_ok mv \<longleftrightarrow> length (mv_value mv) = VALUES_MAX \<and> mv_count mv \<le> VALUES_MAX"

definition mv_list :: "MV \<Rightarrow> D list" where
  "mv_list mv = take (mv_count mv) (mv_value mv)"

definition MV_GET_ELT :: "MV \<Rightarrow> nat \<Rightarrow> D option" where
  "MV_GET_ELT mv n = (if mv_count mv > n then rd (mv_value mv) n else Some DFALSE)"

text \<open>The value a call returns in a register beside the area: the first value, or false when there is none.\<close>

definition first_value :: "MV \<Rightarrow> D option" where
  "first_value mv = (if mv_count mv = 0 then Some DFALSE else rd (mv_value mv) 0)"

text \<open>
  \<open>COPY_WORDS\<close> between two areas, from index \<open>lo\<close> up to the count.
\<close>

definition COPY_WORDS :: "D list \<Rightarrow> D list \<Rightarrow> nat \<Rightarrow> nat \<Rightarrow> D list option" where
  "COPY_WORDS dst src lo n = do {
     aver (n \<le> length dst \<and> n \<le> length src \<or> n \<le> lo);
     Some (take lo dst @ take (n - lo) (drop lo src) @ drop (max lo n) dst)
   }"

lemma COPY_WORDS_0 [simp]:
  "n \<le> length dst \<Longrightarrow> n \<le> length src \<Longrightarrow> COPY_WORDS dst src 0 n = Some (take n src @ drop n dst)"
  by (simp add: COPY_WORDS_def)

subsection \<open>Type checks\<close>

text \<open>
  \<open>instancep\<close> is \<^verbatim>\<open>primitive_instanceQ\<close>, a function of the type. A value that is not an instance is an error,
  here \<open>Inl\<close> the value and the type.
\<close>

definition primitive_type_check :: "(D \<Rightarrow> D \<Rightarrow> bool) \<Rightarrow> D \<Rightarrow> D \<Rightarrow> (D \<times> D) + D" where
  "primitive_type_check instancep v type = (if type \<noteq> LobjectGVKd \<and> \<not> instancep v type then Inl (v, type) else Inr v)"

end
