(* ===== verification/Nonlocal_Exit.thy ===== *)
theory Nonlocal_Exit
  imports Dylan_Values
begin

text \<open>
  Multiple values and non-local exits of the C run-time (\<^verbatim>\<open>run-time.c\<close>), with the code that the C back end
  emits around them (\<^verbatim>\<open>c-emit-computation.dylan\<close>). A frame is known by its address; \<^verbatim>\<open>longjmp\<close> to the
  destination of a frame is a value that the emitted code hands outwards until it meets the \<^verbatim>\<open>setjmp\<close> of that
  frame. The abstract meaning of a program is the list of the computations it does and how it ends.
\<close>

subsection \<open>Frames\<close>

record Bind_exit_frame =
  be_return_values :: MV
  present_unwind_protect_frame :: nat

record Unwind_protect_frame =
  up_return_values :: MV
  ultimate_destination :: "nat option"
  previous_unwind_protect_frame :: nat

text \<open>The state of the run-time: the globals, the frames by address, the next fresh address, and what has been done.\<close>

record exit_state =
  Preturn_values :: MV
  Pcurrent_unwind_protect_frame :: nat
  bind_exits :: "nat \<Rightarrow> Bind_exit_frame"
  unwinds :: "nat \<Rightarrow> Unwind_protect_frame"
  next_frame :: nat
  done_work :: "nat list"

datatype jump = Jump_exit nat | Jump_unwind nat

definition set_ultimate :: "nat \<Rightarrow> nat option \<Rightarrow> exit_state \<Rightarrow> exit_state" where
  "set_ultimate u d s = s\<lparr>unwinds := (unwinds s)(u := (unwinds s u)\<lparr>ultimate_destination := d\<rparr>)\<rparr>"

subsection \<open>Multiple values\<close>

definition MV_SPILL_into :: "D \<Rightarrow> MV \<Rightarrow> MV \<Rightarrow> (MV \<times> MV) option" where
  "MV_SPILL_into first rv dest = do {
     v \<leftarrow> wr (mv_value rv) 0 first;
     let rv = rv\<lparr>mv_value := v\<rparr>;
     d \<leftarrow> COPY_WORDS (mv_value dest) (mv_value rv) 0 (mv_count rv);
     Some (rv, dest\<lparr>mv_value := d, mv_count := mv_count rv\<rparr>)
   }"

text \<open>The area that is allocated has room for exactly the count.\<close>

definition MV_SPILL :: "D \<Rightarrow> MV \<Rightarrow> (MV \<times> MV) option" where
  "MV_SPILL first rv = MV_SPILL_into first rv \<lparr>mv_count = 0, mv_value = replicate (mv_count rv) NULL\<rparr>"

definition MV_UNSPILL :: "MV \<Rightarrow> MV \<Rightarrow> (D \<times> MV) option" where
  "MV_UNSPILL src rv = do {
     v \<leftarrow> COPY_WORDS (mv_value rv) (mv_value src) 0 (mv_count src);
     let rv = rv\<lparr>mv_value := v, mv_count := mv_count src\<rparr>;
     r \<leftarrow> first_value rv;
     Some (r, rv)
   }"

text \<open>
  The check of the values against types. With more types than values the C code reads words of its own stack that
  nothing has written.
\<close>

fun check_values :: "(D \<Rightarrow> D \<Rightarrow> bool) \<Rightarrow> D list \<Rightarrow> D list \<Rightarrow> D \<Rightarrow> (D \<times> D) + unit" where
  "check_values instancep [] types rest_type = Inr ()"
| "check_values instancep (v # vs) (t # ts) rest_type =
     (case primitive_type_check instancep v t of Inl e \<Rightarrow> Inl e | Inr _ \<Rightarrow> check_values instancep vs ts rest_type)"
| "check_values instancep (v # vs) [] rest_type =
     (case primitive_type_check instancep v rest_type of Inl e \<Rightarrow> Inl e | Inr _ \<Rightarrow> check_values instancep vs [] rest_type)"

definition MV_CHECK_TYPE_REST :: "(D \<Rightarrow> D \<Rightarrow> bool) \<Rightarrow> D \<Rightarrow> D \<Rightarrow> D list \<Rightarrow> MV \<Rightarrow> ((D \<times> D) + D \<times> MV) option" where
  "MV_CHECK_TYPE_REST instancep first rest_type types rv = do {
     (rv, spill) \<leftarrow> MV_SPILL_into first rv \<lparr>mv_count = 0, mv_value = replicate VALUES_MAX NULL\<rparr>;
     (case check_values instancep (take (mv_count rv) (mv_value spill)) types rest_type of
        Inl e \<Rightarrow> Some (Inl e)
      | Inr _ \<Rightarrow> do {
          aver (length types \<le> mv_count rv);
          (r, rv) \<leftarrow> MV_UNSPILL spill rv;
          Some (Inr (first, rv))
        })
   }"

text \<open>The vector of the values from an index on, by its elements; and the values set from a vector.\<close>

definition MV_GET_REST_AT :: "D \<Rightarrow> nat \<Rightarrow> MV \<Rightarrow> (D list \<times> MV) option" where
  "MV_GET_REST_AT first offset rv = do {
     let n = mv_count rv - offset;
     v \<leftarrow> wr (mv_value rv) 0 first;
     let rv = rv\<lparr>mv_value := v\<rparr>;
     aver (offset + n \<le> length (mv_value rv) \<or> n = 0);
     Some (take n (drop offset (mv_value rv)), rv)
   }"

definition MV_SET_REST_AT :: "D list \<Rightarrow> nat \<Rightarrow> MV \<Rightarrow> (D \<times> MV) option" where
  "MV_SET_REST_AT v offset rv = do {
     aver (offset + length v \<le> length (mv_value rv) \<or> v = []);
     let rv = rv\<lparr>mv_value := take offset (mv_value rv) @ v @ drop (offset + length v) (mv_value rv), mv_count := offset + length v\<rparr>;
     r \<leftarrow> first_value rv;
     Some (r, rv)
   }"

definition primitive_values :: "D list \<Rightarrow> MV \<Rightarrow> (D \<times> MV) option" where
  "primitive_values v rv = MV_SET_REST_AT v 0 rv"

definition MV2 :: "D \<Rightarrow> D \<Rightarrow> MV \<Rightarrow> (D \<times> MV) option" where
  "MV2 x y rv = do {
     v \<leftarrow> wr (mv_value rv) 0 x;
     v \<leftarrow> wr v 1 y;
     Some (x, rv\<lparr>mv_value := v, mv_count := 2\<rparr>)
   }"

definition MV3 :: "D \<Rightarrow> D \<Rightarrow> D \<Rightarrow> MV \<Rightarrow> (D \<times> MV) option" where
  "MV3 x y z rv = do {
     v \<leftarrow> wr (mv_value rv) 0 x;
     v \<leftarrow> wr v 1 y;
     v \<leftarrow> wr v 2 z;
     Some (x, rv\<lparr>mv_value := v, mv_count := 3\<rparr>)
   }"

definition MV_ADJ :: "nat \<Rightarrow> MV \<Rightarrow> MV" where
  "MV_ADJ n rv = rv\<lparr>mv_count := n\<rparr>"

definition MV_ADJ_REST :: "nat \<Rightarrow> MV \<Rightarrow> MV option" where
  "MV_ADJ_REST n rv =
    (if mv_count rv < n then do {
       aver (n \<le> length (mv_value rv));
       Some (rv\<lparr>mv_value := take (mv_count rv) (mv_value rv) @ replicate (n - mv_count rv) DFALSE @ drop n (mv_value rv), mv_count := n\<rparr>)
     } else Some rv)"

subsection \<open>Non-local exits\<close>

definition nlx_step :: "nat \<Rightarrow> exit_state \<Rightarrow> (jump \<times> exit_state) option" where
  "nlx_step ultimate s = do {
     let cur = Pcurrent_unwind_protect_frame s;
     aver (cur \<noteq> 0);
     if cur = present_unwind_protect_frame (bind_exits s ultimate)
     then Some (Jump_exit ultimate, set_ultimate cur None s)
     else do {
       let prev = previous_unwind_protect_frame (unwinds s cur);
       let s = s\<lparr>Pcurrent_unwind_protect_frame := prev\<rparr>;
       aver (prev \<noteq> 0);
       Some (Jump_unwind cur, set_ultimate prev (Some ultimate) s)
     }
   }"

text \<open>The values of the area are saved with the argument as the first.\<close>

definition save_values :: "MV \<Rightarrow> D \<Rightarrow> MV \<Rightarrow> MV option" where
  "save_values rv argument dest = do {
     v \<leftarrow> wr (mv_value dest) 0 argument;
     v \<leftarrow> COPY_WORDS v (mv_value rv) 1 (mv_count rv);
     Some (dest\<lparr>mv_count := mv_count rv, mv_value := v\<rparr>)
   }"

definition FALL_THROUGH_UNWIND :: "D \<Rightarrow> exit_state \<Rightarrow> exit_state option" where
  "FALL_THROUGH_UNWIND argument s = do {
     let cur = Pcurrent_unwind_protect_frame s;
     aver (cur \<noteq> 0);
     rv \<leftarrow> save_values (Preturn_values s) argument (up_return_values (unwinds s cur));
     let s = s\<lparr>unwinds := (unwinds s)(cur := (unwinds s cur)\<lparr>up_return_values := rv\<rparr>)\<rparr>;
     Some (set_ultimate cur None s)
   }"

definition CONTINUE_UNWIND :: "exit_state \<Rightarrow> ((jump + D) \<times> exit_state) option" where
  "CONTINUE_UNWIND s = do {
     let cur = Pcurrent_unwind_protect_frame s;
     aver (cur \<noteq> 0);
     (case ultimate_destination (unwinds s cur) of
        Some ultimate \<Rightarrow> do { (j, s) \<leftarrow> nlx_step ultimate s; Some (Inl j, s) }
      | None \<Rightarrow> do {
          let rv = up_return_values (unwinds s cur);
          v \<leftarrow> COPY_WORDS (mv_value (Preturn_values s)) (mv_value rv) 0 (mv_count rv);
          let s = s\<lparr>Preturn_values := \<lparr>mv_count = mv_count rv, mv_value = v\<rparr>\<rparr>;
          let s = s\<lparr>Pcurrent_unwind_protect_frame := previous_unwind_protect_frame (unwinds s cur)\<rparr>;
          r \<leftarrow> first_value (Preturn_values s);
          Some (Inr r, s)
        })
   }"

definition NLX :: "nat \<Rightarrow> D \<Rightarrow> exit_state \<Rightarrow> (jump \<times> exit_state) option" where
  "NLX target argument s = do {
     rv \<leftarrow> save_values (Preturn_values s) argument (be_return_values (bind_exits s target));
     let s = s\<lparr>bind_exits := (bind_exits s)(target := (bind_exits s target)\<lparr>be_return_values := rv\<rparr>)\<rparr>;
     nlx_step target s
   }"

text \<open>A frame comes from the allocator: its area for values holds whatever was there.\<close>

definition fresh_values :: MV where
  "fresh_values = \<lparr>mv_count = 0, mv_value = replicate VALUES_MAX NULL\<rparr>"

definition MAKE_EXIT_FRAME :: "exit_state \<Rightarrow> nat \<times> exit_state" where
  "MAKE_EXIT_FRAME s =
     (let f = next_frame s;
          s = s\<lparr>next_frame := f + 1, bind_exits := (bind_exits s)
            (f := \<lparr>be_return_values = fresh_values, present_unwind_protect_frame = Pcurrent_unwind_protect_frame s\<rparr>)\<rparr>
      in (f, s))"

definition MAKE_UNWIND_FRAME :: "exit_state \<Rightarrow> nat \<times> exit_state" where
  "MAKE_UNWIND_FRAME s =
     (let f = next_frame s;
          s = s\<lparr>next_frame := f + 1, unwinds := (unwinds s)
            (f := \<lparr>up_return_values = fresh_values, ultimate_destination = None,
                   previous_unwind_protect_frame = Pcurrent_unwind_protect_frame s\<rparr>)\<rparr>;
          s = s\<lparr>Pcurrent_unwind_protect_frame := f\<rparr>
      in (f, s))"

definition FRAME_RETVAL :: "nat \<Rightarrow> exit_state \<Rightarrow> (D \<times> exit_state) option" where
  "FRAME_RETVAL frame s = do {
     let rv = be_return_values (bind_exits s frame);
     v \<leftarrow> COPY_WORDS (mv_value (Preturn_values s)) (mv_value rv) 0 (mv_count rv);
     let s = s\<lparr>Preturn_values := \<lparr>mv_count = mv_count rv, mv_value = v\<rparr>\<rparr>;
     r \<leftarrow> rd (mv_value rv) 0;
     Some (r, s)
   }"

subsection \<open>The emitted code\<close>

text \<open>
  A program: a computation that is recorded and leaves values, a sequence, a block with an exit procedure
  (numbered from the innermost), a block with a cleanup clause, and a call of an exit procedure with values.
\<close>

datatype computation =
    Work nat "D list" | Then computation computation | Bind_exit computation
  | Unwind_protect computation computation | Exit nat "D list"

definition set_values :: "D list \<Rightarrow> exit_state \<Rightarrow> exit_state option" where
  "set_values vs s = do {
     (r, rv) \<leftarrow> primitive_values vs (Preturn_values s);
     Some (s\<lparr>Preturn_values := rv\<rparr>)
   }"

text \<open>The cleanup clause and what follows it.\<close>

definition emit_cleanup :: "(exit_state \<Rightarrow> (jump option \<times> exit_state) option) \<Rightarrow> exit_state \<Rightarrow> (jump option \<times> exit_state) option" where
  "emit_cleanup cleanup s = do {
     (c, s) \<leftarrow> cleanup s;
     (case c of
        Some j \<Rightarrow> Some (Some j, s)
      | None \<Rightarrow> do {
          (r, s) \<leftarrow> CONTINUE_UNWIND s;
          (case r of Inl j \<Rightarrow> Some (Some j, s) | Inr v \<Rightarrow> Some (None, s))
        })
   }"

text \<open>
  \<open>emit_computation\<close> runs the code of a program: the addresses of the frames of the enclosing exit
  procedures are its variables; the result is a jump on its way out, or none. When a protected body ends normally
  its frame is still current while the cleanup clause runs, so a jump to it from the clause starts the clause again;
  the jump pops the frame, so that there is no other.
\<close>

fun emit_computation :: "computation \<Rightarrow> nat list \<Rightarrow> exit_state \<Rightarrow> (jump option \<times> exit_state) option" where
  "emit_computation (Work k vs) env s = do {
     s \<leftarrow> set_values vs s;
     Some (None, s\<lparr>done_work := done_work s @ [k]\<rparr>)
   }"
| "emit_computation (Then a b) env s = do {
     (c, s) \<leftarrow> emit_computation a env s;
     (case c of Some j \<Rightarrow> Some (Some j, s) | None \<Rightarrow> emit_computation b env s)
   }"
| "emit_computation (Bind_exit a) env s = (
     let (f, s) = MAKE_EXIT_FRAME s in do {
       (c, s) \<leftarrow> emit_computation a (f # env) s;
       if c = Some (Jump_exit f) then do { (r, s) \<leftarrow> FRAME_RETVAL f s; Some (None, s) }
       else Some (c, s)
     })"
| "emit_computation (Unwind_protect a b) env s = (
     let (f, s) = MAKE_UNWIND_FRAME s in do {
       (c, s) \<leftarrow> emit_computation a env s;
       (case c of
          None \<Rightarrow> do {
            v \<leftarrow> first_value (Preturn_values s);
            s \<leftarrow> FALL_THROUGH_UNWIND v s;
            (c, s) \<leftarrow> emit_cleanup (emit_computation b env) s;
            if c = Some (Jump_unwind f) then emit_cleanup (emit_computation b env) s else Some (c, s)
          }
        | Some j \<Rightarrow> if j = Jump_unwind f then emit_cleanup (emit_computation b env) s else Some (Some j, s))
     })"
| "emit_computation (Exit n vs) env s = do {
     s \<leftarrow> set_values vs s;
     v \<leftarrow> first_value (Preturn_values s);
     f \<leftarrow> rd env n;
     (j, s) \<leftarrow> NLX f v s;
     Some (Some j, s)
   }"

subsection \<open>The meaning of programs\<close>

datatype outcome = Normal "D list" | Exiting nat "D list"

fun meaning :: "computation \<Rightarrow> nat list \<times> outcome" where
  "meaning (Work k vs) = ([k], Normal vs)"
| "meaning (Then a b) = (case meaning a of
     (t, Exiting n vs) \<Rightarrow> (t, Exiting n vs)
   | (t, Normal vs) \<Rightarrow> (case meaning b of (t', r) \<Rightarrow> (t @ t', r)))"
| "meaning (Bind_exit a) = (case meaning a of
     (t, Exiting 0 vs) \<Rightarrow> (t, Normal vs)
   | (t, Exiting (Suc n) vs) \<Rightarrow> (t, Exiting n vs)
   | (t, Normal vs) \<Rightarrow> (t, Normal vs))"
| "meaning (Unwind_protect a b) = (case (meaning a, meaning b) of
     ((t, r), (t', Normal _)) \<Rightarrow> (t @ t', r)
   | ((t, r), (t', Exiting n vs)) \<Rightarrow> (t @ t', Exiting n vs))"
| "meaning (Exit n vs) = ([], Exiting n vs)"

text \<open>Programs that call no exit procedure; whose cleanup clauses call none; and whose values fit the area.\<close>

fun exit_free :: "computation \<Rightarrow> bool" where
  "exit_free (Work k vs) = True"
| "exit_free (Then a b) = (exit_free a \<and> exit_free b)"
| "exit_free (Bind_exit a) = exit_free a"
| "exit_free (Unwind_protect a b) = (exit_free a \<and> exit_free b)"
| "exit_free (Exit n vs) = False"

fun quiet_cleanups :: "computation \<Rightarrow> bool" where
  "quiet_cleanups (Work k vs) = True"
| "quiet_cleanups (Then a b) = (quiet_cleanups a \<and> quiet_cleanups b)"
| "quiet_cleanups (Bind_exit a) = quiet_cleanups a"
| "quiet_cleanups (Unwind_protect a b) = (quiet_cleanups a \<and> exit_free b)"
| "quiet_cleanups (Exit n vs) = True"

fun values_fit :: "computation \<Rightarrow> bool" where
  "values_fit (Work k vs) = (length vs \<le> VALUES_MAX)"
| "values_fit (Then a b) = (values_fit a \<and> values_fit b)"
| "values_fit (Bind_exit a) = values_fit a"
| "values_fit (Unwind_protect a b) = (values_fit a \<and> values_fit b)"
| "values_fit (Exit n vs) = (length vs \<le> VALUES_MAX)"

fun exits_below :: "nat \<Rightarrow> computation \<Rightarrow> bool" where
  "exits_below m (Work k vs) = True"
| "exits_below m (Then a b) = (exits_below m a \<and> exits_below m b)"
| "exits_below m (Bind_exit a) = exits_below (Suc m) a"
| "exits_below m (Unwind_protect a b) = (exits_below m a \<and> exits_below m b)"
| "exits_below m (Exit n vs) = (n < m)"

subsection \<open>Areas of values\<close>

lemma mv_list_len: "mv_ok mv \<Longrightarrow> length (mv_list mv) = mv_count mv"
  by (simp add: mv_ok_def mv_list_def)

lemma first_value_ok: "mv_ok mv \<Longrightarrow> first_value mv = Some (if mv_count mv = 0 then DFALSE else mv_value mv ! 0)"
  by (auto simp: first_value_def mv_ok_def VALUES_MAX_def)

lemma set_values_ok:
  assumes "mv_ok (Preturn_values s)" and "length vs \<le> VALUES_MAX"
  shows "\<exists>rv. set_values vs s = Some (s\<lparr>Preturn_values := rv\<rparr>) \<and> mv_ok rv \<and> mv_list rv = vs"
proof -
  define rv where "rv = (Preturn_values s)\<lparr>mv_value := vs @ drop (length vs) (mv_value (Preturn_values s)), mv_count := length vs\<rparr>"
  have "mv_ok rv" "mv_list rv = vs" using assms by (auto simp: rv_def mv_ok_def mv_list_def)
  moreover from this have "set_values vs s = Some (s\<lparr>Preturn_values := rv\<rparr>)"
    using assms first_value_ok [of rv]
    by (simp add: set_values_def primitive_values_def MV_SET_REST_AT_def rv_def mv_ok_def Let_def)
  ultimately show ?thesis by blast
qed

text \<open>Saving the values of the area, with its own first value as the argument, and restoring them.\<close>

lemma save_values_ok:
  assumes "mv_ok rv" and "mv_ok dest" and "first_value rv = Some v"
  shows "\<exists>dest'. save_values rv v dest = Some dest' \<and> mv_ok dest' \<and> mv_list dest' = mv_list rv"
proof (cases "mv_count rv")
  case 0
  then show ?thesis using assms by (auto simp: save_values_def COPY_WORDS_def mv_ok_def mv_list_def VALUES_MAX_def)
next
  case (Suc n)
  define d where "d = (mv_value dest)[0 := v]"
  define d' where "d' = take 1 d @ take n (drop 1 (mv_value rv)) @ drop (Suc n) d"
  have len: "length (mv_value rv) = 64" "length d = 64" "Suc n \<le> 64" using assms Suc by (simp_all add: mv_ok_def VALUES_MAX_def d_def)
  have v: "v = mv_value rv ! 0" using assms(1,3) Suc by (simp add: first_value_ok)
  have "take 1 d = [v]" using len by (cases d) (simp_all add: d_def nth_append, metis list_update_code(2) nth_Cons_0 list.sel(1) length_0_conv list.exhaust_sel list_update_nonempty)
  then have d': "d' = v # take n (drop 1 (mv_value rv)) @ drop (Suc n) d" by (simp add: d'_def)
  have "save_values rv v dest = Some (dest\<lparr>mv_count := Suc n, mv_value := d'\<rparr>)"
    using len Suc assms(2) by (simp add: save_values_def COPY_WORDS_def d'_def d_def mv_ok_def VALUES_MAX_def)
  moreover have "mv_ok (dest\<lparr>mv_count := Suc n, mv_value := d'\<rparr>)" using len d' by (simp add: mv_ok_def VALUES_MAX_def)
  moreover have "mv_list (dest\<lparr>mv_count := Suc n, mv_value := d'\<rparr>) = mv_list rv"
    using len Suc v d' by (cases "mv_value rv") (simp_all add: mv_list_def)
  ultimately show ?thesis by blast
qed

lemma restore_values:
  assumes "mv_ok src" and "mv_ok rv"
  shows "\<exists>v. COPY_WORDS (mv_value rv) (mv_value src) 0 (mv_count src) = Some v \<and>
    mv_ok \<lparr>mv_count = mv_count src, mv_value = v\<rparr> \<and> mv_list \<lparr>mv_count = mv_count src, mv_value = v\<rparr> = mv_list src"
  using assms by (auto simp: mv_ok_def mv_list_def)

subsection \<open>Frames\<close>

abbreviation "cur s \<equiv> Pcurrent_unwind_protect_frame s"

abbreviation "prev s u \<equiv> previous_unwind_protect_frame (unwinds s u)"

abbreviation "present s f \<equiv> present_unwind_protect_frame (bind_exits s f)"

definition frames_ok :: "exit_state \<Rightarrow> bool" where
  "frames_ok s \<longleftrightarrow> mv_ok (Preturn_values s) \<and> cur s \<noteq> 0 \<and> cur s < next_frame s \<and>
     (\<forall>g. mv_ok (be_return_values (bind_exits s g)) \<and> mv_ok (up_return_values (unwinds s g)) \<and> prev s g < next_frame s)"

text \<open>What every program keeps of the frames there were, and what one without exits keeps.\<close>

definition kept :: "exit_state \<Rightarrow> exit_state \<Rightarrow> bool" where
  "kept s s' \<longleftrightarrow> next_frame s \<le> next_frame s' \<and> (\<forall>g < next_frame s. present s' g = present s g \<and> prev s' g = prev s g)"

definition untouched :: "exit_state \<Rightarrow> exit_state \<Rightarrow> bool" where
  "untouched s s' \<longleftrightarrow> next_frame s \<le> next_frame s' \<and>
     (\<forall>g < next_frame s. bind_exits s' g = bind_exits s g \<and> unwinds s' g = unwinds s g)"

lemma kept_refl [simp]: "kept s s"
  by (simp add: kept_def)

lemma kept_trans: "kept s s' \<Longrightarrow> kept s' s'' \<Longrightarrow> kept s s''"
  by (fastforce simp: kept_def)

lemma untouched_kept: "untouched s s' \<Longrightarrow> kept s s'"
  by (simp add: untouched_def kept_def)

lemma untouched_trans: "untouched s s' \<Longrightarrow> untouched s' s'' \<Longrightarrow> untouched s s''"
  by (fastforce simp: untouched_def)

text \<open>An unwind-protect frame from which another is reached by going outwards.\<close>

inductive behind :: "exit_state \<Rightarrow> nat \<Rightarrow> nat \<Rightarrow> bool" for s where
  at_frame: "u \<noteq> 0 \<Longrightarrow> behind s u u"
| outwards: "u \<noteq> 0 \<Longrightarrow> behind s (prev s u) v \<Longrightarrow> behind s u v"

inductive_cases behindE: "behind s u v"

lemma behind_kept: "behind s u v \<Longrightarrow> frames_ok s \<Longrightarrow> kept s s' \<Longrightarrow> u < next_frame s \<Longrightarrow> behind s' u v"
proof (induction rule: behind.induct)
  case (at_frame u)
  then show ?case by (simp add: behind.at_frame)
next
  case (outwards u v)
  then have "prev s' u = prev s u" "prev s u < next_frame s" by (auto simp: kept_def frames_ok_def)
  then show ?case using outwards behind.outwards [of u s' v] by simp
qed

lemma behind_nonzero: "behind s u v \<Longrightarrow> u \<noteq> 0"
  by (auto elim: behindE)

lemma behind_less: "behind s u v \<Longrightarrow> frames_ok s \<Longrightarrow> u < next_frame s \<Longrightarrow> v < next_frame s"
  by (induction rule: behind.induct) (auto simp: frames_ok_def)

lemma set_ultimate_simps [simp]:
  "next_frame (set_ultimate u d s) = next_frame s" "cur (set_ultimate u d s) = cur s" "bind_exits (set_ultimate u d s) = bind_exits s"
  "Preturn_values (set_ultimate u d s) = Preturn_values s" "done_work (set_ultimate u d s) = done_work s"
  "unwinds (set_ultimate u d s) g = (if g = u then (unwinds s u)\<lparr>ultimate_destination := d\<rparr> else unwinds s g)"
  by (simp_all add: set_ultimate_def)

lemma frames_ok_set_ultimate [simp]: "frames_ok (set_ultimate u d s) = frames_ok s"
  by (auto simp: frames_ok_def)

lemma nlx_step_ok:
  assumes "frames_ok s" and "behind s (cur s) (present s f)"
  shows "\<exists>j s'. nlx_step f s = Some (j, s') \<and>
    (if cur s = present s f then j = Jump_exit f \<and> s' = set_ultimate (cur s) None s
     else j = Jump_unwind (cur s) \<and> behind s (prev s (cur s)) (present s f) \<and>
       s' = set_ultimate (prev s (cur s)) (Some f) (s\<lparr>Pcurrent_unwind_protect_frame := prev s (cur s)\<rparr>))"
proof (cases "cur s = present s f")
  case True
  then show ?thesis using assms(1) by (simp add: nlx_step_def Let_def frames_ok_def)
next
  case False
  then have b: "behind s (prev s (cur s)) (present s f)" using assms(2) by (auto elim: behindE)
  then show ?thesis using False assms(1) behind_nonzero [OF b] by (simp add: nlx_step_def Let_def frames_ok_def)
qed

subsection \<open>Programs without exits\<close>

lemma fresh_values_ok [simp]: "mv_ok fresh_values"
  by (simp add: fresh_values_def mv_ok_def)

lemma MAKE_UNWIND_FRAME_ok:
  assumes "frames_ok s" and "MAKE_UNWIND_FRAME s = (f, s1)"
  shows "f = next_frame s" "frames_ok s1" "untouched s s1" "cur s1 = f" "prev s1 f = cur s" "done_work s1 = done_work s" "next_frame s1 = f + 1"
    "f \<noteq> 0"
proof -
  let ?s1 = "s\<lparr>next_frame := next_frame s + 1, unwinds := (unwinds s)
            (next_frame s := \<lparr>up_return_values = fresh_values, ultimate_destination = None,
                   previous_unwind_protect_frame = cur s\<rparr>), Pcurrent_unwind_protect_frame := next_frame s\<rparr>"
  have e: "f = next_frame s" "s1 = ?s1" using assms(2) by (auto simp: MAKE_UNWIND_FRAME_def Let_def)
  show "f = next_frame s" by (rule e)
  show "frames_ok s1" using assms(1) unfolding e by (simp add: frames_ok_def less_SucI)
  show "untouched s s1" unfolding e by (simp add: untouched_def)
  show "cur s1 = f" "prev s1 f = cur s" "done_work s1 = done_work s" "next_frame s1 = f + 1" unfolding e by simp_all
  show "f \<noteq> 0" using assms(1) unfolding e by (simp add: frames_ok_def)
qed

lemma MAKE_EXIT_FRAME_ok:
  assumes "frames_ok s" and "MAKE_EXIT_FRAME s = (f, s1)"
  shows "f = next_frame s" "frames_ok s1" "untouched s s1" "cur s1 = cur s" "present s1 f = cur s" "done_work s1 = done_work s" "next_frame s1 = f + 1"
    "f \<noteq> 0"
proof -
  let ?s1 = "s\<lparr>next_frame := next_frame s + 1, bind_exits := (bind_exits s)
            (next_frame s := \<lparr>be_return_values = fresh_values, present_unwind_protect_frame = cur s\<rparr>)\<rparr>"
  have e: "f = next_frame s" "s1 = ?s1" using assms(2) by (auto simp: MAKE_EXIT_FRAME_def Let_def)
  show "f = next_frame s" by (rule e)
  show "frames_ok s1" using assms(1) unfolding e by (simp add: frames_ok_def less_SucI)
  show "untouched s s1" unfolding e by (simp add: untouched_def)
  show "cur s1 = cur s" "present s1 f = cur s" "done_work s1 = done_work s" "next_frame s1 = f + 1" unfolding e by simp_all
  show "f \<noteq> 0" using assms(1) unfolding e by (simp add: frames_ok_def)
qed

lemma set_values_state:
  assumes "frames_ok s" and "length vs \<le> VALUES_MAX"
  shows "\<exists>rv. set_values vs s = Some (s\<lparr>Preturn_values := rv\<rparr>) \<and> frames_ok (s\<lparr>Preturn_values := rv\<rparr>) \<and> mv_ok rv \<and> mv_list rv = vs"
  using set_values_ok [OF _ assms(2), of s] assms(1) by (auto simp: frames_ok_def)

text \<open>The end of a protected body, and of its cleanup clause when nothing is on its way out.\<close>

lemma FALL_THROUGH_ok:
  assumes ok: "frames_ok s"
  shows "\<exists>v s'. first_value (Preturn_values s) = Some v \<and> FALL_THROUGH_UNWIND v s = Some s' \<and> frames_ok s' \<and> cur s' = cur s \<and>
    bind_exits s' = bind_exits s \<and> (\<forall>g. g \<noteq> cur s \<longrightarrow> unwinds s' g = unwinds s g) \<and> next_frame s' = next_frame s \<and>
    done_work s' = done_work s \<and> ultimate_destination (unwinds s' (cur s)) = None \<and> prev s' (cur s) = prev s (cur s) \<and>
    mv_list (up_return_values (unwinds s' (cur s))) = mv_list (Preturn_values s)"
proof -
  let ?c = "cur s"
  have i: "mv_ok (Preturn_values s)" "?c \<noteq> 0" "?c < next_frame s" "mv_ok (up_return_values (unwinds s ?c))" using ok by (auto simp: frames_ok_def)
  obtain v where v: "first_value (Preturn_values s) = Some v" using first_value_ok [OF i(1)] by blast
  obtain d where d: "save_values (Preturn_values s) v (up_return_values (unwinds s ?c)) = Some d" "mv_ok d" "mv_list d = mv_list (Preturn_values s)"
    using save_values_ok [OF i(1,4) v] by blast
  let ?s = "set_ultimate ?c None (s\<lparr>unwinds := (unwinds s)(?c := (unwinds s ?c)\<lparr>up_return_values := d\<rparr>)\<rparr>)"
  have "FALL_THROUGH_UNWIND v s = Some ?s" using i(2) d(1) by (simp add: FALL_THROUGH_UNWIND_def Let_def)
  moreover have "frames_ok ?s" using ok d(2) by (auto simp: frames_ok_def)
  ultimately show ?thesis using v d(3) by (intro exI [of _ v] exI [of _ ?s]) simp
qed

lemma CONTINUE_done:
  assumes ok: "frames_ok s" and u: "ultimate_destination (unwinds s (cur s)) = None" and p: "prev s (cur s) \<noteq> 0"
  shows "\<exists>v s'. CONTINUE_UNWIND s = Some (Inr v, s') \<and> frames_ok s' \<and> cur s' = prev s (cur s) \<and> bind_exits s' = bind_exits s \<and>
    unwinds s' = unwinds s \<and> next_frame s' = next_frame s \<and> done_work s' = done_work s \<and>
    mv_list (Preturn_values s') = mv_list (up_return_values (unwinds s (cur s)))"
proof -
  let ?c = "cur s" and ?rv = "up_return_values (unwinds s (cur s))"
  have i: "mv_ok (Preturn_values s)" "?c \<noteq> 0" "?c < next_frame s" "mv_ok ?rv" "prev s ?c < next_frame s" using ok by (auto simp: frames_ok_def)
  obtain w where w: "COPY_WORDS (mv_value (Preturn_values s)) (mv_value ?rv) 0 (mv_count ?rv) = Some w"
    "mv_ok \<lparr>mv_count = mv_count ?rv, mv_value = w\<rparr>" "mv_list \<lparr>mv_count = mv_count ?rv, mv_value = w\<rparr> = mv_list ?rv"
    using restore_values [OF i(4,1)] by blast
  let ?s = "s\<lparr>Preturn_values := \<lparr>mv_count = mv_count ?rv, mv_value = w\<rparr>, Pcurrent_unwind_protect_frame := prev s ?c\<rparr>"
  obtain v where "first_value \<lparr>mv_count = mv_count ?rv, mv_value = w\<rparr> = Some v" using first_value_ok [OF w(2)] by blast
  then have "CONTINUE_UNWIND s = Some (Inr v, ?s)" using i(2) u w(1) by (simp add: CONTINUE_UNWIND_def Let_def)
  moreover have "frames_ok ?s" using ok w(2) p i(5) by (auto simp: frames_ok_def)
  ultimately show ?thesis using w(3) by (intro exI [of _ v] exI [of _ ?s]) simp
qed

subsection \<open>Programs without exits\<close>

definition completes :: "exit_state \<Rightarrow> nat list \<Rightarrow> D list \<Rightarrow> exit_state \<Rightarrow> bool" where
  "completes s t vs s' \<longleftrightarrow> frames_ok s' \<and> cur s' = cur s \<and> done_work s' = done_work s @ t \<and> mv_list (Preturn_values s') = vs"

lemma FALL_THROUGH_cleanup:
  assumes ok: "frames_ok s" and p: "prev s (cur s) \<noteq> 0"
    and b: "\<forall>s. frames_ok s \<longrightarrow> (\<exists>s' ws. cleanup s = Some (None, s') \<and> untouched s s' \<and> completes s t ws s')"
  shows "\<exists>v s1 s'. first_value (Preturn_values s) = Some v \<and> FALL_THROUGH_UNWIND v s = Some s1 \<and> emit_cleanup cleanup s1 = Some (None, s') \<and>
    frames_ok s' \<and> cur s' = prev s (cur s) \<and> done_work s' = done_work s @ t \<and> mv_list (Preturn_values s') = mv_list (Preturn_values s) \<and>
    next_frame s \<le> next_frame s' \<and>
    (\<forall>g < next_frame s. bind_exits s' g = bind_exits s g \<and> prev s' g = prev s g \<and> (g \<noteq> cur s \<longrightarrow> unwinds s' g = unwinds s g))"
proof -
  obtain v s1 where s1: "first_value (Preturn_values s) = Some v" "FALL_THROUGH_UNWIND v s = Some s1" "frames_ok s1" "cur s1 = cur s"
    "bind_exits s1 = bind_exits s" "\<forall>g. g \<noteq> cur s \<longrightarrow> unwinds s1 g = unwinds s g" "next_frame s1 = next_frame s"
    "done_work s1 = done_work s" "ultimate_destination (unwinds s1 (cur s)) = None" "prev s1 (cur s) = prev s (cur s)"
    "mv_list (up_return_values (unwinds s1 (cur s))) = mv_list (Preturn_values s)"
    using FALL_THROUGH_ok [OF ok] by blast
  obtain s2 ws where s2: "cleanup s1 = Some (None, s2)" "untouched s1 s2" "completes s1 t ws s2" using b s1(3) by blast
  have c: "frames_ok s2" "cur s2 = cur s" "done_work s2 = done_work s @ t" using s2(3) s1(4,8) by (simp_all add: completes_def)
  have lt: "cur s < next_frame s1" using ok s1(7) by (simp add: frames_ok_def)
  then have same: "unwinds s2 (cur s) = unwinds s1 (cur s)" using s2(2) by (simp add: untouched_def)
  obtain r s3 where s3: "CONTINUE_UNWIND s2 = Some (Inr r, s3)" "frames_ok s3" "cur s3 = prev s2 (cur s2)" "bind_exits s3 = bind_exits s2"
    "unwinds s3 = unwinds s2" "next_frame s3 = next_frame s2" "done_work s3 = done_work s2"
    "mv_list (Preturn_values s3) = mv_list (up_return_values (unwinds s2 (cur s2)))"
    using CONTINUE_done [OF c(1)] p s1(9,10) same c(2) by auto
  have "emit_cleanup cleanup s1 = Some (None, s3)" using s2(1) s3(1) by (simp add: emit_cleanup_def)
  moreover have "\<forall>g < next_frame s. bind_exits s3 g = bind_exits s g \<and> prev s3 g = prev s g \<and> (g \<noteq> cur s \<longrightarrow> unwinds s3 g = unwinds s g)"
    using s2(2) s1(5,6,7,10) s3(4,5) by (auto simp: untouched_def) (metis s1(10))+
  moreover have "next_frame s \<le> next_frame s3" using s2(2) s1(7) s3(6) by (simp add: untouched_def)
  ultimately show ?thesis using s1(1,2,10,11) s3(2,3,7,8) c same by (intro exI [of _ v] exI [of _ s1] exI [of _ s3]) simp
qed

lemma exit_free_runs:
  "exit_free c \<Longrightarrow> values_fit c \<Longrightarrow> frames_ok s \<Longrightarrow>
   \<exists>s' vs. emit_computation c env s = Some (None, s') \<and> meaning c = (fst (meaning c), Normal vs) \<and> untouched s s' \<and>
     completes s (fst (meaning c)) vs s'"
proof (induction c arbitrary: env s)
  case (Work k vs)
  then obtain rv where "set_values vs s = Some (s\<lparr>Preturn_values := rv\<rparr>)" "frames_ok (s\<lparr>Preturn_values := rv\<rparr>)" "mv_list rv = vs"
    using set_values_state [of s vs] by auto
  then show ?case by (simp add: untouched_def completes_def frames_ok_def)
next
  case (Then a b)
  obtain s1 vs where a: "emit_computation a env s = Some (None, s1)" "meaning a = (fst (meaning a), Normal vs)" "untouched s s1"
    "completes s (fst (meaning a)) vs s1" using Then.IH(1) [of s env] Then.prems by auto
  obtain s2 ws where b: "emit_computation b env s1 = Some (None, s2)" "meaning b = (fst (meaning b), Normal ws)" "untouched s1 s2"
    "completes s1 (fst (meaning b)) ws s2" using Then.IH(2) [of s1 env] Then.prems a(4) by (auto simp: completes_def)
  have m: "meaning (Then a b) = (fst (meaning a) @ fst (meaning b), Normal ws)" by (subst meaning.simps(2), subst a(2), subst b(2)) simp
  show ?case using a(1,4) b(1,4) untouched_trans [OF a(3) b(3)] unfolding m by (simp add: completes_def)
next
  case (Bind_exit a)
  obtain f s1 where f: "MAKE_EXIT_FRAME s = (f, s1)" by (cases "MAKE_EXIT_FRAME s")
  note F = MAKE_EXIT_FRAME_ok [OF Bind_exit.prems(3) f]
  obtain s2 vs where a: "emit_computation a (f # env) s1 = Some (None, s2)" "meaning a = (fst (meaning a), Normal vs)" "untouched s1 s2"
    "completes s1 (fst (meaning a)) vs s2" using Bind_exit.IH [of s1 "f # env"] Bind_exit.prems F(2) by auto
  have m: "meaning (Bind_exit a) = (fst (meaning a), Normal vs)" by (subst meaning.simps(3), subst a(2)) simp
  show ?case using f a(1,4) F(4,6) untouched_trans [OF F(3) a(3)] unfolding m by (simp add: completes_def)
next
  case (Unwind_protect a b)
  obtain f s1 where f: "MAKE_UNWIND_FRAME s = (f, s1)" by (cases "MAKE_UNWIND_FRAME s")
  note F = MAKE_UNWIND_FRAME_ok [OF Unwind_protect.prems(3) f]
  obtain s2 vs where a: "emit_computation a env s1 = Some (None, s2)" "meaning a = (fst (meaning a), Normal vs)" "untouched s1 s2"
    "completes s1 (fst (meaning a)) vs s2" using Unwind_protect.IH(1) [of s1 env] Unwind_protect.prems F(2) by auto
  obtain ws0 where bm: "meaning b = (fst (meaning b), Normal ws0)"
    using Unwind_protect.IH(2) [of s env] Unwind_protect.prems by auto
  have s2: "frames_ok s2" "cur s2 = f" "prev s2 f = cur s" "cur s \<noteq> 0"
    using a(3,4) F(4,5,7) Unwind_protect.prems(3) by (simp_all add: completes_def untouched_def frames_ok_def)
  have cl: "\<forall>s. frames_ok s \<longrightarrow> (\<exists>s' ws. emit_computation b env s = Some (None, s') \<and> untouched s s' \<and> completes s (fst (meaning b)) ws s')"
    using Unwind_protect.IH(2) [of _ env] Unwind_protect.prems(1,2) by (simp, blast)
  have "prev s2 (cur s2) \<noteq> 0" using s2 by simp
  from FALL_THROUGH_cleanup [OF s2(1) this cl, unfolded s2(2,3)]
  obtain v s3 s4 where c: "first_value (Preturn_values s2) = Some v" "FALL_THROUGH_UNWIND v s2 = Some s3"
    "emit_cleanup (emit_computation b env) s3 = Some (None, s4)" "frames_ok s4" "cur s4 = cur s"
    "done_work s4 = done_work s2 @ fst (meaning b)" "mv_list (Preturn_values s4) = mv_list (Preturn_values s2)" "next_frame s2 \<le> next_frame s4"
    "\<forall>g < next_frame s2. bind_exits s4 g = bind_exits s2 g \<and> prev s4 g = prev s2 g \<and> (g \<noteq> f \<longrightarrow> unwinds s4 g = unwinds s2 g)"
    by (elim exE conjE) (rule that, assumption+)
  have m: "meaning (Unwind_protect a b) = (fst (meaning a) @ fst (meaning b), Normal vs)" by (subst meaning.simps(4), subst a(2), subst bm) simp
  have "untouched s s4" using untouched_trans [OF F(3) a(3)] c(8,9) F(1) by (auto simp: untouched_def)
  then show ?case using f a(1,4) c F(6) unfolding m by (simp add: completes_def)
qed simp

subsection \<open>Programs with exits\<close>

text \<open>
  What is left by a program: nothing, or an exit on its way out, which is a step towards the frame of its
  exit procedure from a state in which the frame that was current is current again.
\<close>

definition leaves_exit :: "nat \<Rightarrow> exit_state \<Rightarrow> nat list \<Rightarrow> D list \<Rightarrow> jump option \<Rightarrow> exit_state \<Rightarrow> bool" where
  "leaves_exit f s t vs c s' \<longleftrightarrow> (\<exists>s1 j. c = Some j \<and> nlx_step f s1 = Some (j, s') \<and> frames_ok s1 \<and> kept s s1 \<and> cur s1 = cur s \<and>
     done_work s1 = done_work s @ t \<and> mv_list (be_return_values (bind_exits s1 f)) = vs)"

fun leaves :: "nat list \<Rightarrow> exit_state \<Rightarrow> nat list \<times> outcome \<Rightarrow> jump option \<Rightarrow> exit_state \<Rightarrow> bool" where
  "leaves env s (t, Normal vs) c s' = (c = None \<and> kept s s' \<and> completes s t vs s')"
| "leaves env s (t, Exiting n vs) c s' = leaves_exit (env ! n) s t vs c s'"

definition env_ok :: "nat list \<Rightarrow> exit_state \<Rightarrow> bool" where
  "env_ok env s \<longleftrightarrow> (\<forall>f \<in> set env. f < next_frame s \<and> behind s (cur s) (present s f))"

lemma env_ok_kept: "env_ok env s \<Longrightarrow> frames_ok s \<Longrightarrow> kept s s' \<Longrightarrow> cur s' = cur s \<Longrightarrow> env_ok env s'"
  unfolding env_ok_def by (metis behind_kept frames_ok_def kept_def order_less_le_trans)

lemma leaves_exit_trans:
  "kept s s1 \<Longrightarrow> cur s1 = cur s \<Longrightarrow> done_work s1 = done_work s @ t \<Longrightarrow> leaves_exit f s1 t' vs c s' \<Longrightarrow> leaves_exit f s (t @ t') vs c s'"
  unfolding leaves_exit_def by (metis append_assoc kept_trans)

lemma NLX_ok:
  assumes ok: "frames_ok s" and b: "behind s (cur s) (present s f)"
  shows "\<exists>v j s'. first_value (Preturn_values s) = Some v \<and> NLX f v s = Some (j, s') \<and> leaves_exit f s [] (mv_list (Preturn_values s)) (Some j) s'"
proof -
  have i: "mv_ok (Preturn_values s)" "mv_ok (be_return_values (bind_exits s f))" using ok by (auto simp: frames_ok_def)
  obtain v where v: "first_value (Preturn_values s) = Some v" using first_value_ok [OF i(1)] by blast
  obtain d where d: "save_values (Preturn_values s) v (be_return_values (bind_exits s f)) = Some d" "mv_ok d" "mv_list d = mv_list (Preturn_values s)"
    using save_values_ok [OF i v] by blast
  let ?s = "s\<lparr>bind_exits := (bind_exits s)(f := (bind_exits s f)\<lparr>be_return_values := d\<rparr>)\<rparr>"
  have s: "frames_ok ?s" "kept s ?s" using ok d(2) by (auto simp: frames_ok_def kept_def)
  have "behind ?s (cur ?s) (present ?s f)" using behind_kept [OF b ok s(2)] ok by (simp add: frames_ok_def)
  then obtain j s' where j: "nlx_step f ?s = Some (j, s')" using nlx_step_ok [OF s(1), of f] by blast
  then have "NLX f v s = Some (j, s')" using d(1) by (simp add: NLX_def)
  moreover have "leaves_exit f s [] (mv_list (Preturn_values s)) (Some j) s'"
    unfolding leaves_exit_def using j s d(3) by (intro exI [of _ ?s] exI [of _ j]) simp
  ultimately show ?thesis using v by blast
qed

text \<open>An exit that meets the block of its exit procedure, and one that passes another block.\<close>

lemma exit_arrives:
  assumes x: "leaves_exit f s1 t vs c s'" and ok: "frames_ok s1" and f: "present s1 f = cur s1" "f < next_frame s1"
  shows "c = Some (Jump_exit f)" "\<exists>r s2. FRAME_RETVAL f s' = Some (r, s2) \<and> completes s1 t vs s2 \<and> kept s1 s2"
proof -
  obtain s3 j where s3: "c = Some j" "nlx_step f s3 = Some (j, s')" "frames_ok s3" "kept s1 s3" "cur s3 = cur s1"
    "done_work s3 = done_work s1 @ t" "mv_list (be_return_values (bind_exits s3 f)) = vs"
    using x unfolding leaves_exit_def by (elim exE conjE) (rule that, assumption+)
  have p: "cur s3 = present s3 f" using s3(4,5) f by (simp add: kept_def)
  have "cur s3 \<noteq> 0" using s3(3) by (simp add: frames_ok_def)
  then have j: "j = Jump_exit f" "s' = set_ultimate (cur s3) None s3" using s3(2) p by (simp_all add: nlx_step_def)
  then show "c = Some (Jump_exit f)" using s3(1) by simp
  let ?rv = "be_return_values (bind_exits s3 f)"
  have i: "mv_ok ?rv" "mv_ok (Preturn_values s3)" using s3(3) by (simp_all add: frames_ok_def)
  obtain w where w: "COPY_WORDS (mv_value (Preturn_values s3)) (mv_value ?rv) 0 (mv_count ?rv) = Some w"
    "mv_ok \<lparr>mv_count = mv_count ?rv, mv_value = w\<rparr>" "mv_list \<lparr>mv_count = mv_count ?rv, mv_value = w\<rparr> = mv_list ?rv"
    using restore_values [OF i] by blast
  let ?s = "s'\<lparr>Preturn_values := \<lparr>mv_count = mv_count ?rv, mv_value = w\<rparr>\<rparr>"
  have l: "0 < length (mv_value ?rv)" using i(1) by (simp add: mv_ok_def VALUES_MAX_def)
  have "FRAME_RETVAL f s' = Some (mv_value ?rv ! 0, ?s)" using w(1) l by (simp add: FRAME_RETVAL_def Let_def j(2))
  moreover have "frames_ok ?s" using s3(3) w(2) unfolding j(2) by (auto simp: frames_ok_def)
  moreover have "kept s1 ?s" using s3(4) unfolding j(2) by (auto simp: kept_def)
  ultimately show "\<exists>r s2. FRAME_RETVAL f s' = Some (r, s2) \<and> completes s1 t vs s2 \<and> kept s1 s2"
    using s3(5,6,7) w(3) unfolding j(2) by (intro exI [of _ "mv_value ?rv ! 0"] exI [of _ "?s"]) (simp add: completes_def j(2))
qed

lemma exit_passes:
  assumes "leaves_exit g s t vs c s'" and "f \<noteq> g"
  shows "c \<noteq> Some (Jump_exit f)"
proof
  assume c: "c = Some (Jump_exit f)"
  obtain s1 where "nlx_step g s1 = Some (Jump_exit f, s')" using assms(1) c by (auto simp: leaves_exit_def)
  then show False using assms(2) by (auto simp: nlx_step_def Let_def bind_eq_Some_conv split: if_splits)
qed

text \<open>An exit that meets a block with a cleanup clause runs it, and goes on from the frame outside.\<close>

lemma exit_unwinds:
  assumes x: "leaves_exit g s1 t vs c s'" and ok: "frames_ok s1" and g: "behind s1 u (present s1 g)" "present s1 g \<noteq> cur s1" "prev s1 (cur s1) = u"
      "g < next_frame s1" "u < next_frame s1"
    and b: "\<forall>s. frames_ok s \<longrightarrow> (\<exists>s' ws. cleanup s = Some (None, s') \<and> untouched s s' \<and> completes s t' ws s')"
  shows "c = Some (Jump_unwind (cur s1))"
    "\<exists>c' s2 s4. emit_cleanup cleanup s' = Some (c', s2) \<and> (\<exists>j. c' = Some j \<and> nlx_step g s4 = Some (j, s2)) \<and> frames_ok s4 \<and> kept s1 s4 \<and> cur s4 = u \<and>
       done_work s4 = done_work s1 @ t @ t' \<and> mv_list (be_return_values (bind_exits s4 g)) = vs"
proof -
  obtain s3 j where s3: "c = Some j" "nlx_step g s3 = Some (j, s')" "frames_ok s3" "kept s1 s3" "cur s3 = cur s1"
    "done_work s3 = done_work s1 @ t" "mv_list (be_return_values (bind_exits s3 g)) = vs"
    using x unfolding leaves_exit_def by (elim exE conjE) (rule that, assumption+)
  have lt: "cur s1 < next_frame s1" using ok by (simp add: frames_ok_def)
  have q: "present s3 g = present s1 g" "prev s3 (cur s1) = u" using s3(4) g(3,4) lt by (simp_all add: kept_def)
  have u0: "u \<noteq> 0" using behind_nonzero [OF g(1)] .
  have c0: "cur s3 \<noteq> 0" using s3(3) by (simp add: frames_ok_def)
  have j: "j = Jump_unwind (cur s1)" "s' = set_ultimate u (Some g) (s3\<lparr>Pcurrent_unwind_protect_frame := u\<rparr>)"
    using s3(2,5) q g(2) u0 c0 by (auto simp: nlx_step_def Let_def)
  then show "c = Some (Jump_unwind (cur s1))" using s3(1) by simp
  have n3: "next_frame s1 \<le> next_frame s3" using s3(4) by (simp add: kept_def)
  have ok': "frames_ok s'" using s3(3) u0 g(5) n3 unfolding j(2) by (auto simp: frames_ok_def)
  have k': "kept s1 s'" using s3(4) unfolding j(2) by (auto simp: kept_def)
  obtain s4 ws where s4: "cleanup s' = Some (None, s4)" "untouched s' s4" "completes s' t' ws s4" using b ok' by blast
  have d: "frames_ok s4" "cur s4 = u" "done_work s4 = done_work s1 @ t @ t'" using s4(3) s3(6) by (simp_all add: completes_def j(2))
  have n: "u < next_frame s'" "g < next_frame s'" using g(4,5) n3 by (simp_all add: j(2))
  have ult: "ultimate_destination (unwinds s4 u) = Some g" using s4(2) n(1) by (simp add: untouched_def j(2))
  have bx: "bind_exits s4 g = bind_exits s3 g" using s4(2) n(2) by (simp add: untouched_def j(2))
  have k: "kept s1 s4" using kept_trans [OF k' untouched_kept [OF s4(2)]] .
  have "behind s4 (cur s4) (present s4 g)" using behind_kept [OF g(1) ok k g(5)] q(1) bx d(2) by simp
  then obtain j' s5 where s5: "nlx_step g s4 = Some (j', s5)" using nlx_step_ok [OF d(1), of g] by blast
  have "u \<noteq> 0" by (rule u0)
  then have "emit_cleanup cleanup s' = Some (Some j', s5)" using s4(1) s5 ult d(2) by (simp add: emit_cleanup_def CONTINUE_UNWIND_def Let_def)
  then show "\<exists>c' s2 s4. emit_cleanup cleanup s' = Some (c', s2) \<and> (\<exists>j. c' = Some j \<and> nlx_step g s4 = Some (j, s2)) \<and> frames_ok s4 \<and> kept s1 s4 \<and> cur s4 = u \<and>
       done_work s4 = done_work s1 @ t @ t' \<and> mv_list (be_return_values (bind_exits s4 g)) = vs"
    using s5 d k bx s3(7) by (intro exI [of _ "Some j'"] exI [of _ s5] exI [of _ s4]) simp
qed

lemma exits_below_meaning: "exits_below m c \<Longrightarrow> meaning c = (t, Exiting n vs) \<Longrightarrow> n < m"
proof (induction c arbitrary: m t n vs)
  case (Bind_exit a)
  obtain t' r where a: "meaning a = (t', r)" by (cases "meaning a")
  then have "r = Exiting (Suc n) vs" using Bind_exit.prems(2) by (cases r; cases "case r of Exiting k _ \<Rightarrow> k") auto
  then show ?case using Bind_exit.IH [of "Suc m" t' "Suc n" vs] Bind_exit.prems(1) a by simp
next
  case (Unwind_protect a b)
  then show ?case by (cases "meaning a"; cases "meaning b"; cases "snd (meaning b)") auto
next
  case (Then a b)
  then show ?case by (cases "meaning a"; cases "meaning b"; cases "snd (meaning a)") auto
qed auto

text \<open>The exits of a program run the cleanup clauses they leave, from the innermost, and deliver their values.\<close>

lemma emit_computation_leaves:
  "quiet_cleanups c \<Longrightarrow> values_fit c \<Longrightarrow> exits_below (length env) c \<Longrightarrow> frames_ok s \<Longrightarrow> env_ok env s \<Longrightarrow>
   \<exists>j s'. emit_computation c env s = Some (j, s') \<and> leaves env s (meaning c) j s'"
proof (induction c arbitrary: env s)
  case (Work k vs)
  then show ?case using exit_free_runs [of "Work k vs" s env] untouched_kept by fastforce
next
  case (Then a b)
  obtain t r where m: "meaning a = (t, r)" by (cases "meaning a")
  obtain j s1 where a: "emit_computation a env s = Some (j, s1)" "leaves env s (t, r) j s1" using Then.IH(1) [of env s] Then.prems m by auto
  show ?case
  proof (cases r)
    case (Exiting n vs)
    then have "\<exists>i. j = Some i" using a(2) by (auto simp: leaves_exit_def)
    then show ?thesis using a m Exiting by auto
  next
    case (Normal vs)
    then have N: "j = None" "kept s s1" "completes s t vs s1" using a(2) by simp_all
    then have k: "frames_ok s1" "cur s1 = cur s" "done_work s1 = done_work s @ t" by (simp_all add: completes_def)
    obtain t' r' where m': "meaning b = (t', r')" by (cases "meaning b")
    obtain j' s2 where b: "emit_computation b env s1 = Some (j', s2)" "leaves env s1 (t', r') j' s2"
      using Then.IH(2) [of env s1] Then.prems m' k(1) env_ok_kept [OF Then.prems(5,4) N(2) k(2)] by auto
    have "leaves env s (t @ t', r') j' s2"
      using b(2) kept_trans [OF N(2)] leaves_exit_trans [OF N(2) k(2,3)] k(2,3) by (cases r') (auto simp: completes_def)
    then show ?thesis using a(1) b(1) m m' Normal N(1) by simp
  qed
next
  case (Bind_exit a)
  obtain f s1 where f: "MAKE_EXIT_FRAME s = (f, s1)" by (cases "MAKE_EXIT_FRAME s")
  note F = MAKE_EXIT_FRAME_ok [OF Bind_exit.prems(4) f]
  have k1: "kept s s1" using F(3) by (rule untouched_kept)
  obtain t r where m: "meaning a = (t, r)" by (cases "meaning a")
  have at: "behind s1 (cur s1) (present s1 f)" using F(2,4,5) behind.at_frame [of "cur s1" s1] by (simp add: frames_ok_def)
  then have e1: "env_ok (f # env) s1" using env_ok_kept [OF Bind_exit.prems(5,4) k1 F(4)] F(7) by (simp add: env_ok_def)
  obtain j s2 where a: "emit_computation a (f # env) s1 = Some (j, s2)" "leaves (f # env) s1 (t, r) j s2"
    using Bind_exit.IH [of "f # env" s1] Bind_exit.prems m e1 F(2) by auto
  consider (normal) vs where "r = Normal vs" | (here) vs where "r = Exiting 0 vs" | (further) n vs where "r = Exiting (Suc n) vs"
    by (metis outcome.exhaust nat.exhaust)
  then show ?case
  proof cases
    case normal
    then show ?thesis using a m f F(4,6) kept_trans [OF k1] by (auto simp: completes_def)
  next
    case here
    then have x: "leaves_exit f s1 t vs j s2" using a(2) by simp
    have p: "present s1 f = cur s1" "f < next_frame s1" using F(1,4,5,7) by simp_all
    have j: "j = Some (Jump_exit f)" by (rule exit_arrives(1) [OF x F(2) p])
    obtain v s3 where s3: "FRAME_RETVAL f s2 = Some (v, s3)" "completes s1 t vs s3" "kept s1 s3" using exit_arrives(2) [OF x F(2) p] by blast
    have "leaves env s (meaning (Bind_exit a)) None s3"
      using m here s3(2) kept_trans [OF k1 s3(3)] F(4,6) by (simp add: completes_def)
    moreover have "emit_computation (Bind_exit a) env s = Some (None, s3)" using f a(1) j s3(1) by simp
    ultimately show ?thesis by blast
  next
    case further
    then have x: "leaves_exit (env ! n) s1 t vs j s2" using a(2) by simp
    have "n < length env" using exits_below_meaning [of "Suc (length env)" a t "Suc n" vs] Bind_exit.prems(3) m further by simp
    then have "env ! n < next_frame s" using Bind_exit.prems(5) by (simp add: env_ok_def)
    then have "f \<noteq> env ! n" using F(1) by simp
    then have "j \<noteq> Some (Jump_exit f)" by (rule exit_passes [OF x])
    then have "emit_computation (Bind_exit a) env s = Some (j, s2)" using f a(1) by simp
    moreover have "leaves env s (meaning (Bind_exit a)) j s2" using m further leaves_exit_trans [OF k1 F(4), of "[]"] F(6) x by simp
    ultimately show ?thesis by blast
  qed
next
  case (Unwind_protect a b)
  obtain f s1 where f: "MAKE_UNWIND_FRAME s = (f, s1)" by (cases "MAKE_UNWIND_FRAME s")
  note F = MAKE_UNWIND_FRAME_ok [OF Unwind_protect.prems(4) f]
  have k1: "kept s s1" using F(3) by (rule untouched_kept)
  have s0: "cur s < next_frame s" "cur s \<noteq> 0" using Unwind_protect.prems(4) by (simp_all add: frames_ok_def)
  have G: "g < next_frame s" "present s1 g = present s g" "behind s (cur s) (present s g)" if "g \<in> set env" for g
    using that Unwind_protect.prems(5) k1 by (auto simp: env_ok_def kept_def)
  have out: "behind s1 (cur s) (present s1 g)" if "g \<in> set env" for g
    using behind_kept [OF G(3) [OF that] Unwind_protect.prems(4) k1 s0(1)] G(2) [OF that] by simp
  have "behind s1 f (present s1 g)" if "g \<in> set env" for g
    using behind.outwards [OF F(8), of s1] out [OF that] F(5) by simp
  then have e1: "env_ok env s1" using G(1) F(1,4,7) by (auto simp: env_ok_def intro: less_SucI)
  have cl: "\<forall>s. frames_ok s \<longrightarrow> (\<exists>s' ws. emit_computation b env s = Some (None, s') \<and> untouched s s' \<and> completes s (fst (meaning b)) ws s')"
    using exit_free_runs [of b _ env] Unwind_protect.prems(1,2) by (simp, blast)
  obtain ws0 where bm: "meaning b = (fst (meaning b), Normal ws0)" using exit_free_runs [of b s env] Unwind_protect.prems by auto
  obtain t r where m: "meaning a = (t, r)" by (cases "meaning a")
  have mm: "meaning (Unwind_protect a b) = (t @ fst (meaning b), r)" by (subst meaning.simps(4), subst m, subst bm) (cases r; simp)
  obtain j s2 where a: "emit_computation a env s1 = Some (j, s2)" "leaves env s1 (t, r) j s2"
    using Unwind_protect.IH(1) [of env s1] Unwind_protect.prems m e1 F(2) by auto
  show ?case
  proof (cases r)
    case (Normal vs)
    then have N: "j = None" "kept s1 s2" "completes s1 t vs s2" using a(2) by simp_all
    have s2: "frames_ok s2" "cur s2 = f" "prev s2 f = cur s" using N(2,3) F(4,5,7) by (simp_all add: completes_def kept_def)
    have "prev s2 (cur s2) \<noteq> 0" using s2 s0 by simp
    from FALL_THROUGH_cleanup [OF s2(1) this cl, unfolded s2(2,3)]
    obtain v s3 s4 where c: "first_value (Preturn_values s2) = Some v" "FALL_THROUGH_UNWIND v s2 = Some s3"
      "emit_cleanup (emit_computation b env) s3 = Some (None, s4)" "frames_ok s4" "cur s4 = cur s"
      "done_work s4 = done_work s2 @ fst (meaning b)" "mv_list (Preturn_values s4) = mv_list (Preturn_values s2)" "next_frame s2 \<le> next_frame s4"
      "\<forall>g < next_frame s2. bind_exits s4 g = bind_exits s2 g \<and> prev s4 g = prev s2 g \<and> (g \<noteq> f \<longrightarrow> unwinds s4 g = unwinds s2 g)"
      by (elim exE conjE) (rule that, assumption+)
    have "kept s2 s4" using c(8,9) by (simp add: kept_def)
    then have "kept s s4" using kept_trans [OF k1 kept_trans [OF N(2)]] by simp
    moreover have "completes s (t @ fst (meaning b)) vs s4" using c(4,5,6,7) N(3) F(6) by (simp add: completes_def)
    ultimately have "leaves env s (meaning (Unwind_protect a b)) None s4" unfolding mm Normal by simp
    moreover have "emit_computation (Unwind_protect a b) env s = Some (None, s4)" using f a(1) N(1) c(1,2,3) by simp
    ultimately show ?thesis by blast
  next
    case (Exiting n vs)
    let ?g = "env ! n"
    have x: "leaves_exit ?g s1 t vs j s2" using a(2) Exiting by simp
    have "n < length env" using exits_below_meaning [of "length env" a t n vs] Unwind_protect.prems(3) m Exiting by simp
    then have g: "?g \<in> set env" by simp
    have "present s1 ?g < next_frame s" using behind_less [OF G(3) [OF g] Unwind_protect.prems(4) s0(1)] G(2) [OF g] by simp
    then have h: "?g < next_frame s1" "present s1 ?g \<noteq> cur s1" "prev s1 (cur s1) = cur s" "cur s < next_frame s1"
      using G(1) [OF g] F(1,4,5,7) s0(1) by simp_all
    note U = exit_unwinds [OF x F(2) out [OF g] h(2,3,1,4) cl]
    from U(2) obtain c' s3 s4 where c: "emit_cleanup (emit_computation b env) s2 = Some (c', s3)"
      "\<exists>j. c' = Some j \<and> nlx_step ?g s4 = Some (j, s3)" "frames_ok s4" "kept s1 s4" "cur s4 = cur s"
      "done_work s4 = done_work s1 @ t @ fst (meaning b)" "mv_list (be_return_values (bind_exits s4 ?g)) = vs"
      by (elim exE conjE) (rule that, (rule exI conjI | assumption)+)
    have "leaves env s (meaning (Unwind_protect a b)) c' s3"
      unfolding mm Exiting leaves.simps leaves_exit_def
      using c(2,3,5,6,7) kept_trans [OF k1 c(4)] F(6) by (elim exE) (rule exI [of _ s4], auto)
    moreover have "emit_computation (Unwind_protect a b) env s = Some (c', s3)" using f a(1) U(1) c(1) F(4) by simp
    ultimately show ?thesis by blast
  qed
next
  case (Exit n vs)
  then obtain rv where rv: "set_values vs s = Some (s\<lparr>Preturn_values := rv\<rparr>)" "frames_ok (s\<lparr>Preturn_values := rv\<rparr>)" "mv_list rv = vs"
    using set_values_state [of s vs] by auto
  let ?s = "s\<lparr>Preturn_values := rv\<rparr>"
  have k: "kept s ?s" "cur ?s = cur s" by (simp_all add: kept_def)
  have n: "n < length env" "env ! n \<in> set env" using Exit.prems(3) by simp_all
  have "behind ?s (cur ?s) (present ?s (env ! n))" using env_ok_kept [OF Exit.prems(5,4) k] n(2) by (simp add: env_ok_def)
  from NLX_ok [OF rv(2) this] obtain v j s' where j: "first_value rv = Some v" "NLX (env ! n) v ?s = Some (j, s')"
    "leaves_exit (env ! n) ?s [] vs (Some j) s'" using rv(3) by auto
  have "leaves_exit (env ! n) s [] vs (Some j) s'" using leaves_exit_trans [OF k _ j(3), of "[]"] by simp
  then show ?case using rv(1) j(1,2) n by (simp add: rd_def)
qed

subsection \<open>The properties of non-local exits\<close>

text \<open>The static data of the run-time, and what \<^verbatim>\<open>_Init_Run_Time\<close> does to the frames; the outermost frame is static.\<close>

definition Ptop_unwind_protect_frame :: nat where "Ptop_unwind_protect_frame = 1"

definition static_state :: exit_state where
  "static_state = \<lparr>Preturn_values = fresh_values, Pcurrent_unwind_protect_frame = 0,
     bind_exits = (\<lambda>g. \<lparr>be_return_values = fresh_values, present_unwind_protect_frame = 0\<rparr>),
     unwinds = (\<lambda>g. \<lparr>up_return_values = fresh_values, ultimate_destination = None, previous_unwind_protect_frame = 0\<rparr>),
     next_frame = 2, done_work = []\<rparr>"

definition Init_Run_Time :: "exit_state \<Rightarrow> exit_state" where
  "Init_Run_Time s = (
     let s = s\<lparr>Pcurrent_unwind_protect_frame := Ptop_unwind_protect_frame\<rparr>
     in set_ultimate Ptop_unwind_protect_frame None s)"

lemma frames_ok_Init: "frames_ok (Init_Run_Time static_state)"
  by (simp add: frames_ok_def Init_Run_Time_def static_state_def Ptop_unwind_protect_frame_def Let_def)

text \<open>
  C8: non-local exits do what the language asks. A program whose cleanup clauses call no exit procedure, run by the
  code that is emitted for it from any well-formed state of the run-time, does the computations of its meaning in
  their order, every cleanup clause once and from the innermost, delivers the values of the body or of the exit that
  ended it, and leaves the current frame as it was.
\<close>
theorem emit_computation_correct:
  assumes "quiet_cleanups c" and "values_fit c" and "exits_below 0 c" and "frames_ok s"
  shows "\<exists>s' vs. emit_computation c [] s = Some (None, s') \<and> snd (meaning c) = Normal vs \<and> done_work s' = done_work s @ fst (meaning c) \<and>
    mv_list (Preturn_values s') = vs \<and> cur s' = cur s \<and> frames_ok s'"
proof -
  obtain j s' where e: "emit_computation c [] s = Some (j, s')" "leaves [] s (meaning c) j s'"
    using emit_computation_leaves [of c "[]" s] assms by (auto simp: env_ok_def)
  obtain t vs where m: "meaning c = (t, Normal vs)"
    using exits_below_meaning [OF assms(3)] by (cases "meaning c"; cases "snd (meaning c)") auto
  then show ?thesis using e by (auto simp: completes_def)
qed

text \<open>An exit over two cleanup clauses, the inner with a block of its own, that carries two values.\<close>

definition sample_program :: computation where
  "sample_program = Bind_exit (Then (Unwind_protect (Then (Work 1 []) (Unwind_protect (Then (Work 2 []) (Exit 0 [DTRUE, DFALSE])) (Unwind_protect (Work 3 []) (Work 4 [])))) (Work 5 [])) (Work 6 []))"

theorem emit_computation_correct_witness:
  "meaning sample_program = ([1, 2, 3, 4, 5], Normal [DTRUE, DFALSE]) \<and>
   (\<exists>s' vs. emit_computation sample_program [] (Init_Run_Time static_state) = Some (None, s') \<and> snd (meaning sample_program) = Normal vs \<and>
    done_work s' = done_work (Init_Run_Time static_state) @ fst (meaning sample_program) \<and>
    mv_list (Preturn_values s') = vs \<and> cur s' = cur (Init_Run_Time static_state) \<and> frames_ok s')"
proof (rule conjI)
  show "meaning sample_program = ([1, 2, 3, 4, 5], Normal [DTRUE, DFALSE])" by (simp add: sample_program_def)
  show "\<exists>s' vs. emit_computation sample_program [] (Init_Run_Time static_state) = Some (None, s') \<and> snd (meaning sample_program) = Normal vs \<and>
    done_work s' = done_work (Init_Run_Time static_state) @ fst (meaning sample_program) \<and>
    mv_list (Preturn_values s') = vs \<and> cur s' = cur (Init_Run_Time static_state) \<and> frames_ok s'"
    by (rule emit_computation_correct) (simp_all add: frames_ok_Init sample_program_def VALUES_MAX_def)
qed

text \<open>
  The restriction to quiet cleanup clauses is needed. A block with an exit procedure inside a cleanup clause, used
  while an exit passes, makes \<open>nlx_step\<close> clear the destination of that exit.
\<close>

definition exit_in_cleanup :: computation where
  "exit_in_cleanup = Bind_exit (Then (Unwind_protect (Exit 0 []) (Bind_exit (Then (Work 1 []) (Exit 0 [])))) (Work 2 []))"

definition exit_from_cleanup :: computation where
  "exit_from_cleanup = Bind_exit (Unwind_protect (Work 1 []) (Then (Work 2 []) (Exit 0 [])))"

definition work_of :: "computation \<Rightarrow> nat list option" where
  "work_of c = map_option (\<lambda>(j, s). done_work s) (emit_computation c [] (Init_Run_Time static_state))"

lemmas exit_defs = Init_Run_Time_def static_state_def Ptop_unwind_protect_frame_def set_ultimate_def MAKE_EXIT_FRAME_def MAKE_UNWIND_FRAME_def
  NLX_def nlx_step_def save_values_def COPY_WORDS_def set_values_def primitive_values_def MV_SET_REST_AT_def first_value_def FRAME_RETVAL_def
  FALL_THROUGH_UNWIND_def CONTINUE_UNWIND_def emit_cleanup_def fresh_values_def VALUES_MAX_def rd_def wr_def Let_def

lemma exit_in_cleanup_run: "work_of exit_in_cleanup = Some [1, 2]"
  by (simp add: work_of_def exit_in_cleanup_def exit_defs)

lemma exit_from_cleanup_run: "work_of exit_from_cleanup = Some [1, 2, 2]"
  by (simp add: work_of_def exit_from_cleanup_def exit_defs)


text \<open>
  Values survive a computation between. What \<open>MV_SPILL\<close> saves in an area of just its size, \<open>MV_UNSPILL\<close> restores,
  whatever the area of the run-time holds then.
\<close>
theorem MV_UNSPILL_SPILL:
  assumes "mv_ok rv" and "mv_ok rv2" and "first_value rv = Some v"
  shows "\<exists>rv1 spill rv3. MV_SPILL v rv = Some (rv1, spill) \<and> MV_UNSPILL spill rv2 = Some (v, rv3) \<and> mv_ok rv3 \<and> mv_list rv3 = mv_list rv"
proof -
  let ?n = "mv_count rv"
  let ?v = "(mv_value rv)[0 := v]"
  let ?sp = "\<lparr>mv_count = ?n, mv_value = take ?n ?v\<rparr>"
  let ?r3 = "rv2\<lparr>mv_value := take ?n ?v @ drop ?n (mv_value rv2), mv_count := ?n\<rparr>"
  have l: "length (mv_value rv) = 64" "length (mv_value rv2) = 64" "?n \<le> 64" using assms(1,2) by (simp_all add: mv_ok_def VALUES_MAX_def)
  have s: "take ?n ?v = mv_list rv"
    using assms(1,3) l by (cases "?n = 0") (auto simp: first_value_ok mv_list_def)
  have "MV_SPILL v rv = Some (rv\<lparr>mv_value := ?v\<rparr>, ?sp)" using l by (simp add: MV_SPILL_def MV_SPILL_into_def wr_def Let_def)
  moreover have ok: "mv_ok ?r3" using l by (simp add: mv_ok_def VALUES_MAX_def)
  moreover have "MV_UNSPILL ?sp rv2 = Some (v, ?r3)"
  proof -
    have "first_value ?r3 = Some v" using assms(1,3) ok s l by (cases "?n = 0") (auto simp: first_value_ok nth_append mv_list_def)
    moreover have "COPY_WORDS (mv_value rv2) (take ?n ?v) 0 ?n = Some (take ?n ?v @ drop ?n (mv_value rv2))" using l by simp
    ultimately show ?thesis by (simp add: MV_UNSPILL_def Let_def)
  qed
  moreover have "mv_list ?r3 = mv_list rv" using l s by (simp add: mv_list_def)
  ultimately show ?thesis by blast
qed

theorem MV_UNSPILL_SPILL_witness:
  "\<exists>rv1 spill rv3. MV_SPILL DTRUE \<lparr>mv_count = 2, mv_value = replicate 64 DTRUE\<rparr> = Some (rv1, spill) \<and>
     MV_UNSPILL spill fresh_values = Some (DTRUE, rv3) \<and> mv_ok rv3 \<and> mv_list rv3 = mv_list \<lparr>mv_count = 2, mv_value = replicate 64 DTRUE\<rparr>"
  by (rule MV_UNSPILL_SPILL) (simp_all add: mv_ok_def VALUES_MAX_def first_value_def rd_def fresh_values_def)

end
