(* ===== verification/Dylan_Objects.thy ===== *)
theory Dylan_Objects
  imports Dylan_Values Mpm_Words
begin

text \<open>
  The objects that calls work on (\<^verbatim>\<open>run-time.h\<close>): signatures, functions, vectors, generic functions and engine
  nodes, known by their addresses; the entry points, which are pointers to code of the run-time or of the program;
  and the registers and buffers of the calling convention. Numbers of arguments are never negative and so natural.
\<close>

subsection \<open>Entry points\<close>

text \<open>
  An entry point that exists in numbered variants carries its number, or none for the variant that takes any
  number of arguments. \<open>Iep\<close> is compiled code of the program, \<open>Slotacc\<close> and \<open>Callback\<close> code of the library.
\<close>

datatype xep_code =
    Xep "nat option" | Rest_xep "nat option" | Rest_key_xep "nat option" | Gf_xep "nat option" | Gf_optional_xep "nat option" | Slotacc_xep nat

datatype keyed = Explicit | Implicit | Unrestricted

datatype discriminator = Discriminate | Monomorphic | If_type | Typecheck

datatype code =
    Iep nat | Slotacc nat | Callback nat | Key_mep "nat option" | Single_method_engine "nat option" | Keyed_single_method_engine keyed "nat option"
  | Cache_header_engine "nat option" | Profiling_cache_header_engine "nat option" | Discriminator_engine discriminator "(nat \<times> nat) option"
  | General_engine_node_engine "nat option" | General_engine_node_spread_engine
  | Boxed_instance_slot_getter_engine | Boxed_instance_slot_setter_engine
  | Boxed_repeated_instance_slot_getter_engine | Boxed_repeated_instance_slot_setter_engine
  | Raw_byte_repeated_instance_slot_getter_engine | Raw_byte_repeated_instance_slot_setter_engine

subsection \<open>Objects\<close>

record SIG =
  sig_properties :: mword
  sig_required :: "D list option"

text \<open>A keyword function has an internal entry point and a vector of keywords with their defaults besides.\<close>

record FN =
  xep :: xep_code
  fn_signature :: SIG
  mep :: code
  kfn_part :: "(code \<times> D) option"

text \<open>The words behind the entry point of an engine node, which depend on its kind.\<close>

datatype engine_words =
    Plain_node
  | Single_method_node D D D
  | Cache_header_node D D
  | Profiling_cache_header_node D D mword mword
  | Monomorphic_node D D
  | If_type_node D D D
  | Typecheck_node D D

record ENGINE =
  properties :: mword
  callback :: nat
  entry_point :: code
  words :: engine_words

record GFN =
  gf_xep :: xep_code
  gf_signature :: SIG
  engine :: D

text \<open>An instance has words for its slots, perhaps followed by bytes.\<close>

datatype obj = Vector "D list" | Method FN | Generic GFN | Engine ENGINE | Instance "D list" "8 word list"

definition MAX_ARGUMENTS :: nat where "MAX_ARGUMENTS = 256"

record call_state =
  objects :: "nat \<Rightarrow> obj option"
  next_object :: nat
  Pfunction :: D
  Pargument_count :: nat
  Pnext_methods :: D
  arguments :: "D list"
  new_arguments :: "D list"
  a_buffer :: "D list"
  iep_a :: "D list"
  apply_buffer :: "D list"
  buffer :: "D list"

definition object_at :: "call_state \<Rightarrow> D \<Rightarrow> obj option" where
  "object_at s d = (case d of Ptr p \<Rightarrow> objects s p | Imm w \<Rightarrow> None)"

definition FN_at :: "call_state \<Rightarrow> D \<Rightarrow> FN option" where
  "FN_at s d = (case object_at s d of Some (Method f) \<Rightarrow> Some f | _ \<Rightarrow> None)"

definition GFN_at :: "call_state \<Rightarrow> D \<Rightarrow> GFN option" where
  "GFN_at s d = (case object_at s d of Some (Generic g) \<Rightarrow> Some g | _ \<Rightarrow> None)"

definition ENGINE_at :: "call_state \<Rightarrow> D \<Rightarrow> ENGINE option" where
  "ENGINE_at s d = (case object_at s d of Some (Engine e) \<Rightarrow> Some e | _ \<Rightarrow> None)"

text \<open>The elements of a vector; \<open>vector_size\<close> is their number, \<open>vector_ref\<close> the element at an index.\<close>

definition vector_data :: "call_state \<Rightarrow> D \<Rightarrow> D list option" where
  "vector_data s d = (case object_at s d of Some (Vector xs) \<Rightarrow> Some xs | _ \<Rightarrow> None)"

text \<open>Methods and generic functions are functions. The word that is the entry point of an engine node is the method entry point of a method.\<close>

definition FUNCTIONP :: "call_state \<Rightarrow> D \<Rightarrow> bool option" where
  "FUNCTIONP s d = (case object_at s d of
     Some (Method f) \<Rightarrow> Some True | Some (Generic g) \<Rightarrow> Some True | Some _ \<Rightarrow> Some False | None \<Rightarrow> None)"

definition engine_entry_point :: "call_state \<Rightarrow> D \<Rightarrow> code option" where
  "engine_entry_point s d = (case object_at s d of
     Some (Engine e) \<Rightarrow> Some (entry_point e) | Some (Method f) \<Rightarrow> Some (mep f) | _ \<Rightarrow> None)"

subsection \<open>Signatures\<close>

definition NUMBER_REQUIRED_MASK :: mword where "NUMBER_REQUIRED_MASK = 0x0000ff"
definition NUMBER_VALUES_MASK :: mword where "NUMBER_VALUES_MASK = 0x00ff00"
definition NUMBER_VALUES_OFFSET :: nat where "NUMBER_VALUES_OFFSET = 8"
definition KEY_P_MASK :: mword where "KEY_P_MASK = 0x010000"
definition ALL_KEYS_P_MASK :: mword where "ALL_KEYS_P_MASK = 0x020000"
definition REST_P_MASK :: mword where "REST_P_MASK = 0x040000"
definition OPTIONALS_P_MASK :: mword where "OPTIONALS_P_MASK = KEY_P_MASK OR REST_P_MASK"
definition REST_VALUE_P_MASK :: mword where "REST_VALUE_P_MASK = 0x080000"
definition NEXT_P_MASK :: mword where "NEXT_P_MASK = 0x100000"

definition signature_number_required :: "SIG \<Rightarrow> nat" where
  "signature_number_required sig = unat (R (sig_properties sig) AND NUMBER_REQUIRED_MASK)"

definition signature_number_values :: "SIG \<Rightarrow> nat" where
  "signature_number_values sig = unat (signed_drop_bit NUMBER_VALUES_OFFSET (R (sig_properties sig) AND NUMBER_VALUES_MASK))"

definition signature_key_p :: "SIG \<Rightarrow> bool" where
  "signature_key_p sig \<longleftrightarrow> sint (R (sig_properties sig) AND KEY_P_MASK) > 0"

definition signature_all_keys_p :: "SIG \<Rightarrow> bool" where
  "signature_all_keys_p sig \<longleftrightarrow> sint (R (sig_properties sig) AND ALL_KEYS_P_MASK) > 0"

definition signature_rest_p :: "SIG \<Rightarrow> bool" where
  "signature_rest_p sig \<longleftrightarrow> sint (R (sig_properties sig) AND REST_P_MASK) > 0"

definition signature_optionals_p :: "SIG \<Rightarrow> bool" where
  "signature_optionals_p sig \<longleftrightarrow> sint (R (sig_properties sig) AND OPTIONALS_P_MASK) > 0"

definition signature_rest_value_p :: "SIG \<Rightarrow> bool" where
  "signature_rest_value_p sig \<longleftrightarrow> sint (R (sig_properties sig) AND REST_VALUE_P_MASK) > 0"

definition signature_next_p :: "SIG \<Rightarrow> bool" where
  "signature_next_p sig \<longleftrightarrow> sint (R (sig_properties sig) AND NEXT_P_MASK) > 0"

definition signature_make_properties :: "mword \<Rightarrow> mword \<Rightarrow> bool \<Rightarrow> bool \<Rightarrow> bool \<Rightarrow> bool \<Rightarrow> mword" where
  "signature_make_properties number_required number_values key_p all_keys_p rest_p rest_value_p =
     I (number_required OR push_bit NUMBER_VALUES_OFFSET number_values OR (if key_p then KEY_P_MASK else 0) OR
        (if all_keys_p then ALL_KEYS_P_MASK else 0) OR (if rest_p then REST_P_MASK else 0) OR
        (if rest_value_p then REST_VALUE_P_MASK else 0))"

text \<open>The arguments that an implementation takes: the required ones and perhaps a vector of the optional ones.\<close>

definition impargs :: "SIG \<Rightarrow> nat" where
  "impargs sig = signature_number_required sig + (if signature_optionals_p sig then 1 else 0)"

subsection \<open>The properties of signatures\<close>

lemma sint_small: "unat (w :: mword) < 2 ^ 31 \<Longrightarrow> sint w = int (unat w)"
proof -
  assume "unat w < 2 ^ 31"
  then have "int (unat w) < int (2 ^ 31)" by (simp only: of_nat_less_iff)
  then have "signed_take_bit 31 (uint w) = uint w" by (simp add: signed_take_bit_int_eq_self_iff order_trans [OF _ uint_ge_0])
  then show ?thesis by (simp add: sint_uint)
qed

lemma take_bit_mword: "n < 32 \<Longrightarrow> take_bit n w = w \<longleftrightarrow> (w :: mword) < 2 ^ n"
proof -
  assume n: "n < 32"
  have "take_bit n w = w \<longleftrightarrow> take_bit n (unat w) = unat w"
    using word_unat_eq_iff [of "take_bit n w" w] by (simp add: unsigned_take_bit_eq)
  also have "\<dots> \<longleftrightarrow> unat w < 2 ^ n" by (rule take_bit_nat_eq_self_iff)
  also have "\<dots> \<longleftrightarrow> w < 2 ^ n" using unat_pow2 [OF n] by (simp add: word_less_nat_alt)
  finally show ?thesis .
qed

lemma low_byte_bits: "(w :: mword) < 2 ^ 8 \<Longrightarrow> bit w n \<Longrightarrow> n < 8"
  using take_bit_mword [of 8 w] by (metis bit_take_bit_iff numeral_less_iff semiring_norm(68,76,78))

definition flag :: "nat \<Rightarrow> mword" where "flag m = push_bit m 1"

lemma bit_flag: "bit (flag m) n \<longleftrightarrow> n = m \<and> m < 32"
  by (auto simp: flag_def bit_simps)

lemma mask_words:
  "NUMBER_REQUIRED_MASK = mask 8" "NUMBER_VALUES_MASK = push_bit 8 (mask 8)" "KEY_P_MASK = flag 16" "ALL_KEYS_P_MASK = flag 17"
  "REST_P_MASK = flag 18" "REST_VALUE_P_MASK = flag 19" "OPTIONALS_P_MASK = flag 16 OR flag 18"
  by (simp_all add: NUMBER_REQUIRED_MASK_def NUMBER_VALUES_MASK_def KEY_P_MASK_def ALL_KEYS_P_MASK_def REST_P_MASK_def
      REST_VALUE_P_MASK_def OPTIONALS_P_MASK_def mask_numeral flag_def)

text \<open>The word of a signature before it is tagged, by its bits.\<close>

definition signature_word :: "mword \<Rightarrow> mword \<Rightarrow> bool \<Rightarrow> bool \<Rightarrow> bool \<Rightarrow> bool \<Rightarrow> mword" where
  "signature_word nr nv k ak r rv =
     nr OR push_bit 8 nv OR (if k then flag 16 else 0) OR (if ak then flag 17 else 0) OR
     (if r then flag 18 else 0) OR (if rv then flag 19 else 0)"

lemma bit_signature_word:
  assumes "nr < 2 ^ 8" and "nv < 2 ^ 8"
  shows "bit (signature_word nr nv k ak r rv) n \<longleftrightarrow>
    bit nr n \<or> (8 \<le> n \<and> bit nv (n - 8)) \<or> (n = 16 \<and> k) \<or> (n = 17 \<and> ak) \<or> (n = 18 \<and> r) \<or> (n = 19 \<and> rv)"
  using low_byte_bits [OF assms(2), of "n - 8"]
  unfolding signature_word_def bit_or_iff by (auto simp: bit_push_bit_iff bit_flag)

lemma signature_word_less:
  assumes "nr < 2 ^ 8" and "nv < 2 ^ 8"
  shows "signature_word nr nv k ak r rv < 2 ^ 20"
proof -
  have "bit (signature_word nr nv k ak r rv) n \<Longrightarrow> n < 20" for n
    using low_byte_bits [OF assms(1), of n] low_byte_bits [OF assms(2), of "n - 8"] unfolding bit_signature_word [OF assms] by auto
  then have "take_bit 20 (signature_word nr nv k ak r rv) = signature_word nr nv k ak r rv"
    by (intro bit_word_eqI) (auto simp: bit_take_bit_iff)
  then show ?thesis by (simp add: take_bit_mword)
qed

lemma R_signature_make_properties:
  assumes "nr < 2 ^ 8" and "nv < 2 ^ 8"
  shows "R (signature_make_properties nr nv k ak r rv) = signature_word nr nv k ak r rv"
proof -
  have e: "signature_make_properties nr nv k ak r rv = I (signature_word nr nv k ak r rv)"
    by (simp add: signature_make_properties_def signature_word_def mask_words NUMBER_VALUES_OFFSET_def)
  let ?w = "signature_word nr nv k ak r rv"
  have "unat ?w < 2 ^ 20" using signature_word_less [OF assms, of k ak r rv] by (simp add: word_less_nat_alt)
  then have "sint ?w = int (unat ?w)" by (rule sint_small [OF order_less_trans]) simp
  moreover have "int (unat ?w) < int (2 ^ 20)" using \<open>unat ?w < 2 ^ 20\<close> by (simp only: of_nat_less_iff)
  ultimately show ?thesis unfolding e by (intro R_I) (simp_all add: order_trans [OF _ uint_ge_0])
qed

lemma signature_word_fields:
  assumes "nr < 2 ^ 8" and "nv < 2 ^ 8"
  defines "w \<equiv> signature_word nr nv"
  shows "w k ak r rv AND mask 8 = nr" "w k ak r rv AND push_bit 8 (mask 8) = push_bit 8 nv"
    "w k ak r rv AND flag 16 = (if k then flag 16 else 0)" "w k ak r rv AND flag 17 = (if ak then flag 17 else 0)"
    "w k ak r rv AND flag 18 = (if r then flag 18 else 0)" "w k ak r rv AND flag 19 = (if rv then flag 19 else 0)"
  unfolding w_def
  by (rule bit_word_eqI, auto simp: bit_and_iff bit_signature_word [OF assms(1,2)] bit_mask_iff bit_push_bit_iff bit_flag
      dest: low_byte_bits [OF assms(1)] low_byte_bits [OF assms(2)])+

lemma flag_positive: "m < 31 \<Longrightarrow> sint (if b then flag m else 0) > 0 \<longleftrightarrow> b"
proof -
  assume m: "m < 31"
  then have "unat (flag m) = 2 ^ m" using unat_pow2 [of m] by (simp add: flag_def)
  moreover have "(2 :: nat) ^ m < 2 ^ 31" using m by (rule power_strict_increasing) simp
  ultimately show ?thesis using sint_small [of "flag m"] by simp
qed

lemma signature_fields:
  assumes "nr < 2 ^ 8" and "nv < 2 ^ 8" and sig: "sig_properties sig = signature_make_properties nr nv k ak r rv"
  shows "(signature_number_required sig, signature_number_values sig, signature_key_p sig, signature_all_keys_p sig, signature_rest_p sig,
      signature_rest_value_p sig, signature_optionals_p sig, impargs sig) =
    (unat nr, unat nv, k, ak, r, rv, k \<or> r, unat nr + (if k \<or> r then 1 else 0))"
proof -
  have R: "R (sig_properties sig) = signature_word nr nv k ak r rv" unfolding sig by (rule R_signature_make_properties [OF assms(1,2)])
  note F = signature_word_fields [OF assms(1,2), of k ak r rv]
  have o: "signature_word nr nv k ak r rv AND OPTIONALS_P_MASK = (if k then flag 16 else 0) OR (if r then flag 18 else 0)"
    unfolding mask_words by (simp only: bit.conj_disj_distrib F)
  have sd: "signed_drop_bit 8 (push_bit 8 nv) = nv"
  proof (rule bit_word_eqI)
    fix n assume "n < LENGTH(32)"
    then show "bit (signed_drop_bit 8 (push_bit 8 nv)) n = bit nv n"
      using low_byte_bits [OF assms(2), of 23] low_byte_bits [OF assms(2), of n] by (auto simp: bit_signed_drop_bit_iff bit_push_bit_iff)
  qed
  have fo: "sint ((if k then flag 16 else 0) OR (if r then flag 18 else 0)) > 0 \<longleftrightarrow> k \<or> r"
  proof -
    have "sint (flag 16 OR flag 18) > 0" by (simp add: flag_def)
    then show ?thesis using flag_positive [of 16 k] flag_positive [of 18 r] by (cases k; cases r) simp_all
  qed
  have nr: "signature_number_required sig = unat nr" by (simp add: signature_number_required_def R mask_words F)
  have nv: "signature_number_values sig = unat nv" by (simp add: signature_number_values_def R mask_words F NUMBER_VALUES_OFFSET_def sd)
  have o': "signature_optionals_p sig \<longleftrightarrow> k \<or> r" unfolding signature_optionals_p_def R o fo ..
  have "signature_key_p sig \<longleftrightarrow> k" "signature_all_keys_p sig \<longleftrightarrow> ak" "signature_rest_p sig \<longleftrightarrow> r" "signature_rest_value_p sig \<longleftrightarrow> rv"
    unfolding signature_key_p_def signature_all_keys_p_def signature_rest_p_def signature_rest_value_p_def R mask_words F
    by (rule flag_positive, simp)+
  then show ?thesis using nr nv o' by (simp add: impargs_def)
qed

text \<open>
  C23: what a signature is made of can be read back. For up to 255 required arguments and 255 values the accessors
  return the numbers and the flags from which \<open>signature_make_properties\<close> packed the word, through the tagging.
\<close>
theorem signature_make_properties_roundtrip:
  assumes "nr < 2 ^ 8" and "nv < 2 ^ 8" and sig: "sig_properties sig = signature_make_properties nr nv k ak r rv"
  shows "(signature_number_required sig, signature_number_values sig, signature_key_p sig, signature_all_keys_p sig, signature_rest_p sig,
      signature_rest_value_p sig, signature_optionals_p sig, impargs sig) =
    (unat nr, unat nv, k, ak, r, rv, k \<or> r, unat nr + (if k \<or> r then 1 else 0))"
  by (rule signature_fields [OF assms])

theorem signature_make_properties_roundtrip_witness:
  "let sig = \<lparr>sig_properties = signature_make_properties 3 2 True False False True, sig_required = None\<rparr> in
   (signature_number_required sig, signature_number_values sig, signature_key_p sig, signature_all_keys_p sig, signature_rest_p sig,
      signature_rest_value_p sig, signature_optionals_p sig, impargs sig) =
    (unat (3 :: mword), unat (2 :: mword), True, False, False, True, True \<or> False, unat (3 :: mword) + (if True \<or> False then 1 else 0))"
  unfolding Let_def by (rule signature_make_properties_roundtrip) simp_all

end
