(* ===== verification/Calling_Convention.thy ===== *)
theory Calling_Convention
  imports Dylan_Objects
begin

text \<open>
  The calling convention of the C run-time (\<^verbatim>\<open>run-time.c\<close>): the checks of a call, the external entry points that
  collect the arguments of a method, keyword processing, the method entry points, and the primitives that apply a
  function. An entry point ends with a call of other code, here the value \<open>Enter\<close>: the code, the arguments that are
  passed, and the state it finds; or \<open>Enter_xep\<close>, for an external entry point, which takes the function and the number
  of arguments too; or it returns a value. Undefined behaviour is \<open>None\<close>.
\<close>

subsection \<open>Outcomes and checks\<close>

datatype call_error =
    Argument_count_overflow_error D nat
  | Argument_count_error D nat
  | Type_check_error D D
  | Odd_keyword_arguments_error D nat
  | Odd_number_of_keyword_args_trap D D D
  | Invalid_keyword_trap D D D D D D
  | Unbound_instance_slot D nat
  | Unbound_repeated_slot D D
  | Repeated_slot_getter_index_out_of_range_trap D D
  | Repeated_slot_setter_index_out_of_range_trap D D D

datatype action = Signal call_error | Enter code "D list" call_state | Enter_xep xep_code D nat "D list" call_state | Return D call_state

text \<open>A check is undefined, an error, or passed; the first error of several is signalled, and guards what follows.\<close>

type_synonym check = "call_error option option"

definition passed :: check where "passed = Some None"

definition fails :: "call_error \<Rightarrow> check" where "fails e = Some (Some e)"

definition also_check :: "check \<Rightarrow> check \<Rightarrow> check" where
  "also_check c d = (case c of Some None \<Rightarrow> d | _ \<Rightarrow> c)"

definition guarded :: "check \<Rightarrow> action option \<Rightarrow> action option" where
  "guarded c k = (case c of None \<Rightarrow> None | Some (Some e) \<Rightarrow> Some (Signal e) | Some None \<Rightarrow> k)"

definition CALL_CHECK :: "D \<Rightarrow> nat \<Rightarrow> check" where
  "CALL_CHECK function argument_count =
     (if argument_count > MAX_ARGUMENTS then fails (Argument_count_overflow_error function argument_count) else passed)"

definition TYPE_CHECK_ARG :: "(D \<Rightarrow> D \<Rightarrow> bool) \<Rightarrow> D \<Rightarrow> D \<Rightarrow> check" where
  "TYPE_CHECK_ARG instancep specializer argument =
     (case primitive_type_check instancep argument specializer of Inl (v, t) \<Rightarrow> fails (Type_check_error v t) | Inr _ \<Rightarrow> passed)"

text \<open>The loop over the first \<open>n\<close> specializers and arguments; a missing specializer or argument is read out of range.\<close>

fun TYPE_CHECK_ARGS_loop :: "(D \<Rightarrow> D \<Rightarrow> bool) \<Rightarrow> nat \<Rightarrow> D list \<Rightarrow> D list \<Rightarrow> check" where
  "TYPE_CHECK_ARGS_loop instancep 0 specializers args = passed"
| "TYPE_CHECK_ARGS_loop instancep (Suc n) (t # specializers) (v # args) =
     also_check (TYPE_CHECK_ARG instancep t v) (TYPE_CHECK_ARGS_loop instancep n specializers args)"
| "TYPE_CHECK_ARGS_loop instancep (Suc n) specializers args = None"

definition TYPE_CHECK_ARGS :: "(D \<Rightarrow> D \<Rightarrow> bool) \<Rightarrow> FN \<Rightarrow> nat \<Rightarrow> D list \<Rightarrow> check" where
  "TYPE_CHECK_ARGS instancep f n args =
     (case sig_required (fn_signature f) of None \<Rightarrow> passed | Some specs \<Rightarrow> TYPE_CHECK_ARGS_loop instancep n specs args)"

definition BASIC_REQUIRED_CALL_CHECK :: "D \<Rightarrow> nat \<Rightarrow> nat \<Rightarrow> check" where
  "BASIC_REQUIRED_CALL_CHECK function number_required argument_count =
     also_check (CALL_CHECK function argument_count)
       (if argument_count \<noteq> number_required then fails (Argument_count_error function argument_count) else passed)"

definition REQUIRED_CALL_CHECK :: "(D \<Rightarrow> D \<Rightarrow> bool) \<Rightarrow> D \<Rightarrow> FN \<Rightarrow> nat \<Rightarrow> nat \<Rightarrow> D list \<Rightarrow> check" where
  "REQUIRED_CALL_CHECK instancep function f number_required argument_count args =
     also_check (BASIC_REQUIRED_CALL_CHECK function number_required argument_count) (TYPE_CHECK_ARGS instancep f argument_count args)"

definition BASIC_OPTIONAL_CALL_CHECK :: "D \<Rightarrow> nat \<Rightarrow> nat \<Rightarrow> check" where
  "BASIC_OPTIONAL_CALL_CHECK function number_required argument_count =
     also_check (CALL_CHECK function argument_count)
       (if argument_count < number_required then fails (Argument_count_error function argument_count) else passed)"

definition OPTIONAL_CALL_CHECK :: "(D \<Rightarrow> D \<Rightarrow> bool) \<Rightarrow> D \<Rightarrow> FN \<Rightarrow> nat \<Rightarrow> nat \<Rightarrow> D list \<Rightarrow> check" where
  "OPTIONAL_CALL_CHECK instancep function f number_required argument_count args =
     also_check (BASIC_OPTIONAL_CALL_CHECK function number_required argument_count) (TYPE_CHECK_ARGS instancep f number_required args)"

definition KEYWORD_CALL_CHECK :: "(D \<Rightarrow> D \<Rightarrow> bool) \<Rightarrow> D \<Rightarrow> FN \<Rightarrow> nat \<Rightarrow> nat \<Rightarrow> D list \<Rightarrow> check" where
  "KEYWORD_CALL_CHECK instancep function f number_required argument_count args =
     also_check (OPTIONAL_CALL_CHECK instancep function f number_required argument_count args)
       (if odd (argument_count - number_required) then fails (Odd_keyword_arguments_error function argument_count) else passed)"

subsection \<open>Functions and vectors\<close>

definition function_number_required :: "FN \<Rightarrow> nat" where "function_number_required f = signature_number_required (fn_signature f)"

definition function_optionals_p :: "FN \<Rightarrow> bool" where "function_optionals_p f = signature_optionals_p (fn_signature f)"

definition function_iep :: "FN \<Rightarrow> code" where "function_iep f = mep f"

definition keyword_function_iep :: "FN \<Rightarrow> code option" where "keyword_function_iep f = map_option fst (kfn_part f)"

definition method_keyword_specifiers :: "FN \<Rightarrow> D option" where "method_keyword_specifiers f = map_option snd (kfn_part f)"

definition new_object :: "obj \<Rightarrow> call_state \<Rightarrow> D \<times> call_state" where
  "new_object x s = (Ptr (next_object s), s\<lparr>objects := (objects s)(next_object s \<mapsto> x), next_object := next_object s + 1\<rparr>)"

text \<open>
  A vector with the first \<open>n\<close> words of a buffer: one on the heap is the empty vector when it has no elements,
  one on the stack, or on the heap when it is too big for the stack, is always fresh.
\<close>

definition make_vector_from_buffer :: "nat \<Rightarrow> D list \<Rightarrow> call_state \<Rightarrow> (D \<times> call_state) option" where
  "make_vector_from_buffer n buf s = do {
     aver (n \<le> length buf);
     if n = 0 then Some (Pempty_vectorVKi, s) else Some (new_object (Vector (take n buf)) s)
   }"

definition stack_vector_from_buffer :: "nat \<Rightarrow> D list \<Rightarrow> call_state \<Rightarrow> (D \<times> call_state) option" where
  "stack_vector_from_buffer n buf s = do {
     aver (n \<le> length buf);
     Some (new_object (Vector (take n buf)) s)
   }"

text \<open>\<open>BUFFER_VARARGS\<close>: the first \<open>n\<close> of the variable arguments go to the front of a buffer.\<close>

definition transfer_varargs :: "nat \<Rightarrow> D list \<Rightarrow> D list \<Rightarrow> D list option" where
  "transfer_varargs n ap buf = do {
     aver (n \<le> length ap \<and> n \<le> length buf);
     Some (take n ap @ drop n buf)
   }"

text \<open>The fixed parameters of an entry point: the first \<open>k\<close> of the arguments that were passed.\<close>

definition fixed_parameters :: "nat \<Rightarrow> D list \<Rightarrow> (D list \<times> D list) option" where
  "fixed_parameters k args = do { aver (k \<le> length args); Some (take k args, drop k args) }"

text \<open>A call with the first \<open>n\<close> words of a buffer; more than nine are passed as 64.\<close>

definition spread :: "nat \<Rightarrow> D list \<Rightarrow> D list option" where
  "spread n a = do {
     let m = (if n \<le> 9 then n else 64);
     aver (m \<le> length a);
     Some (take m a)
   }"

definition iep_apply :: "code \<Rightarrow> nat \<Rightarrow> D list \<Rightarrow> call_state \<Rightarrow> action option" where
  "iep_apply iep n a s = do { args \<leftarrow> spread n a; Some (Enter iep args s) }"

definition set_registers :: "D \<Rightarrow> D \<Rightarrow> call_state \<Rightarrow> call_state" where
  "set_registers fn nm s = s\<lparr>Pfunction := fn, Pnext_methods := nm\<rparr>"

subsection \<open>External entry points of methods with required and rest parameters\<close>

text \<open>\<open>xep_0\<close> to \<open>xep_9\<close>, by the number of required arguments; and the one for any number.\<close>

definition xep_k :: "(D \<Rightarrow> D \<Rightarrow> bool) \<Rightarrow> nat \<Rightarrow> D \<Rightarrow> nat \<Rightarrow> D list \<Rightarrow> call_state \<Rightarrow> action option" where
  "xep_k instancep k fn n args s = do {
     f \<leftarrow> FN_at s fn;
     guarded (BASIC_REQUIRED_CALL_CHECK fn k n) (do {
       (ps, ap) \<leftarrow> fixed_parameters k args;
       guarded (TYPE_CHECK_ARGS instancep f k ps) (
         Some (Enter (function_iep f) ps (set_registers fn DFALSE s)))
     })
   }"

definition xep_n :: "(D \<Rightarrow> D \<Rightarrow> bool) \<Rightarrow> D \<Rightarrow> nat \<Rightarrow> D list \<Rightarrow> call_state \<Rightarrow> action option" where
  "xep_n instancep fn n args s = do {
     f \<leftarrow> FN_at s fn;
     b \<leftarrow> transfer_varargs n args (arguments s);
     let s = s\<lparr>arguments := b\<rparr>;
     guarded (REQUIRED_CALL_CHECK instancep fn f (function_number_required f) n b) (
       iep_apply (function_iep f) n b s)
   }"

text \<open>\<open>rest_xep_0\<close> to \<open>rest_xep_9\<close>, by the number of required arguments; and the one for any number.\<close>

definition rest_xep_k :: "(D \<Rightarrow> D \<Rightarrow> bool) \<Rightarrow> nat \<Rightarrow> D \<Rightarrow> nat \<Rightarrow> D list \<Rightarrow> call_state \<Rightarrow> action option" where
  "rest_xep_k instancep k fn n args s = do {
     f \<leftarrow> FN_at s fn;
     b \<leftarrow> transfer_varargs (n - k) (drop k args) (arguments s);
     let s = s\<lparr>arguments := b\<rparr>;
     guarded (BASIC_OPTIONAL_CALL_CHECK fn k n) (do {
       (ps, ap) \<leftarrow> fixed_parameters k args;
       guarded (TYPE_CHECK_ARGS instancep f k ps) (do {
         let s = set_registers fn DFALSE s;
         (v, s) \<leftarrow> make_vector_from_buffer (n - k) b s;
         Some (Enter (function_iep f) (ps @ [v]) s)
       })
     })
   }"

definition rest_xep_n :: "(D \<Rightarrow> D \<Rightarrow> bool) \<Rightarrow> D \<Rightarrow> nat \<Rightarrow> D list \<Rightarrow> call_state \<Rightarrow> action option" where
  "rest_xep_n instancep fn n args s = do {
     f \<leftarrow> FN_at s fn;
     let number_required = function_number_required f;
     b \<leftarrow> transfer_varargs n args (arguments s);
     let s = s\<lparr>arguments := b\<rparr>;
     guarded (OPTIONAL_CALL_CHECK instancep fn f number_required n b) (do {
       new \<leftarrow> COPY_WORDS (new_arguments s) b 0 number_required;
       (v, s) \<leftarrow> stack_vector_from_buffer (n - number_required) (drop number_required b) s;
       new \<leftarrow> wr new number_required v;
       let s = set_registers fn DFALSE (s\<lparr>new_arguments := new\<rparr>);
       iep_apply (function_iep f) (number_required + 1) new s
     })
   }"

text \<open>
  Accessor methods: an entry point checks the number of arguments and calls a function of the library with the
  method. They are numbered as for \<open>primitive_set_accessor_method_xep\<close>: getter and setter of an instance slot, of a
  class slot, and of a repeated slot.
\<close>

definition slotacc_xep :: "nat \<Rightarrow> D \<Rightarrow> nat \<Rightarrow> D list \<Rightarrow> call_state \<Rightarrow> action option" where
  "slotacc_xep what am n args s = do {
     k \<leftarrow> rd [1, 2, 1, 2, 2, 3] what;
     guarded (BASIC_REQUIRED_CALL_CHECK am k n) (do {
       (ps, ap) \<leftarrow> fixed_parameters k args;
       Some (Enter (Slotacc what) (am # ps) s)
     })
   }"

definition primitive_set_accessor_method_xep :: "xep_code \<Rightarrow> nat \<Rightarrow> xep_code" where
  "primitive_set_accessor_method_xep old what = (if what < 6 then Slotacc_xep what else old)"

subsection \<open>Keyword processing\<close>

text \<open>The defaults of the keywords are every second of their specifiers.\<close>

fun default_keywords :: "nat \<Rightarrow> D list \<Rightarrow> nat \<Rightarrow> D list \<Rightarrow> D list option" where
  "default_keywords 0 specifiers k new = Some new"
| "default_keywords (Suc n) (keyword # dflt # specifiers) k new = do {
     new \<leftarrow> wr new k dflt;
     default_keywords n specifiers (k + 1) new
   }"
| "default_keywords (Suc n) specifiers k new = None"

definition default_arguments :: "nat \<Rightarrow> D list \<Rightarrow> nat \<Rightarrow> D list \<Rightarrow> nat \<Rightarrow> D list \<Rightarrow> D list option" where
  "default_arguments number_required args number_keywords specifiers offset new = do {
     new \<leftarrow> COPY_WORDS new args 0 number_required;
     default_keywords number_keywords specifiers offset new
   }"

text \<open>The search of a keyword in the specifiers; its value goes to the place of the first that is the same.\<close>

fun match_keyword :: "D \<Rightarrow> D \<Rightarrow> nat \<Rightarrow> D list \<Rightarrow> nat \<Rightarrow> D list \<Rightarrow> D list option" where
  "match_keyword keyword val 0 specifiers k new = Some new"
| "match_keyword keyword val (Suc n) (lambda_keyword # dflt # specifiers) k new =
     (if keyword = lambda_keyword then wr new k val else match_keyword keyword val n specifiers (k + 1) new)"
| "match_keyword keyword val (Suc n) specifiers k new = None"

text \<open>
  The optional arguments are taken from the last; \<open>opts\<close> is what is left of them in that order. With an odd number
  of them the loop reads the word before the first.
\<close>

fun process_keyword_loop :: "nat \<Rightarrow> D list \<Rightarrow> nat \<Rightarrow> D list \<Rightarrow> D list \<Rightarrow> D list option" where
  "process_keyword_loop number_keywords specifiers k (val # keyword # opts) new = do {
     new \<leftarrow> match_keyword keyword val number_keywords specifiers k new;
     process_keyword_loop number_keywords specifiers k opts new
   }"
| "process_keyword_loop number_keywords specifiers k [val] new = None"
| "process_keyword_loop number_keywords specifiers k [] new = Some new"

definition process_keyword_parameters :: "nat \<Rightarrow> nat \<Rightarrow> D list \<Rightarrow> D list \<Rightarrow> D list \<Rightarrow> D list option" where
  "process_keyword_parameters number_required number_keywords specifiers optionals new =
     process_keyword_loop number_keywords specifiers (number_required + 1) (rev optionals) new"

definition process_keyword_call_into ::
  "D list \<Rightarrow> FN \<Rightarrow> nat \<Rightarrow> D list \<Rightarrow> D list \<Rightarrow> D \<Rightarrow> call_state \<Rightarrow> (nat \<times> D list) option" where
  "process_keyword_call_into new f number_required required optionals rest s = do {
     kv \<leftarrow> method_keyword_specifiers f;
     specifiers \<leftarrow> vector_data s kv;
     let number_keywords = length specifiers div 2;
     new \<leftarrow> default_arguments number_required required number_keywords specifiers (number_required + 1) new;
     new \<leftarrow> process_keyword_parameters number_required number_keywords specifiers optionals new;
     new \<leftarrow> wr new number_required rest;
     Some (number_required + number_keywords + 1, new)
   }"

definition process_keyword_call_and_restify_into ::
  "(D \<Rightarrow> D \<Rightarrow> bool) \<Rightarrow> D list \<Rightarrow> D \<Rightarrow> FN \<Rightarrow> nat \<Rightarrow> D list \<Rightarrow> D \<Rightarrow> call_state \<Rightarrow>
     (call_error + nat \<times> D list \<times> call_state) option" where
  "process_keyword_call_and_restify_into instancep new fn f argument_count args rest s = do {
     let number_required = function_number_required f;
     let optionals_count = argument_count - number_required;
     e \<leftarrow> KEYWORD_CALL_CHECK instancep fn f number_required argument_count args;
     (case e of
        Some e \<Rightarrow> Some (Inl e)
      | None \<Rightarrow> do {
          let optionals = take optionals_count (drop number_required args);
          p \<leftarrow> (case rest of Ptr p \<Rightarrow> Some p | Imm w \<Rightarrow> None);
          let s = s\<lparr>objects := (objects s)(p \<mapsto> Vector optionals)\<rparr>;
          (n, new) \<leftarrow> process_keyword_call_into new f number_required args optionals rest s;
          Some (Inr (n, new, s))
        })
   }"

text \<open>
  \<open>rest_key_xep_1\<close> to \<open>rest_key_xep_9\<close>, by the number of parameters of the internal entry point; and the one for any
  number.
\<close>

definition rest_key_xep_call ::
  "(nat \<Rightarrow> D list \<Rightarrow> D list option) \<Rightarrow> (D \<Rightarrow> D \<Rightarrow> bool) \<Rightarrow> D \<Rightarrow> nat \<Rightarrow> D list \<Rightarrow> call_state \<Rightarrow> action option" where
  "rest_key_xep_call pass instancep fn n args s = do {
     f \<leftarrow> FN_at s fn;
     let number_required = function_number_required f;
     b \<leftarrow> transfer_varargs n args (arguments s);
     let s = s\<lparr>arguments := b\<rparr>;
     guarded (KEYWORD_CALL_CHECK instancep fn f number_required n b) (do {
       (rest, s) \<leftarrow> stack_vector_from_buffer (n - number_required) (drop number_required b) s;
       r \<leftarrow> process_keyword_call_and_restify_into instancep (new_arguments s) fn f n b rest s;
       (case r of
          Inl e \<Rightarrow> Some (Signal e)
        | Inr (new_n, new, s) \<Rightarrow> do {
            let s = set_registers fn DFALSE (s\<lparr>new_arguments := new\<rparr>);
            iep \<leftarrow> keyword_function_iep f;
            ps \<leftarrow> pass new_n new;
            Some (Enter iep ps s)
          })
     })
   }"

definition rest_key_xep_k :: "(D \<Rightarrow> D \<Rightarrow> bool) \<Rightarrow> nat \<Rightarrow> D \<Rightarrow> nat \<Rightarrow> D list \<Rightarrow> call_state \<Rightarrow> action option" where
  "rest_key_xep_k instancep k = rest_key_xep_call (\<lambda>new_n a. do { aver (k \<le> length a); Some (take k a) }) instancep"

definition rest_key_xep_n :: "(D \<Rightarrow> D \<Rightarrow> bool) \<Rightarrow> D \<Rightarrow> nat \<Rightarrow> D list \<Rightarrow> call_state \<Rightarrow> action option" where
  "rest_key_xep_n instancep = rest_key_xep_call spread instancep"

subsection \<open>Method entry points\<close>

text \<open>
  \<open>key_mep_1\<close> to \<open>key_mep_9\<close> and \<open>key_mep\<close>: the arguments are the required ones and the vector of the optional ones;
  their number is a register. The last variant stages the new arguments in another buffer.
\<close>

definition key_mep_k :: "nat \<Rightarrow> D list \<Rightarrow> call_state \<Rightarrow> action option" where
  "key_mep_k k args s = do {
     f \<leftarrow> FN_at s (Pfunction s);
     let number_required = function_number_required f;
     a1 \<leftarrow> rd args 0;
     a \<leftarrow> wr (a_buffer s) 0 a1;
     b \<leftarrow> transfer_varargs (Pargument_count s - 1) (drop 1 args) (drop 1 a);
     let a = take 1 a @ b;
     let s = s\<lparr>a_buffer := a\<rparr>;
     rest \<leftarrow> rd a number_required;
     optionals \<leftarrow> vector_data s rest;
     (n, new) \<leftarrow> process_keyword_call_into (iep_a s) f number_required a optionals rest s;
     let s = s\<lparr>iep_a := new\<rparr>;
     iep \<leftarrow> keyword_function_iep f;
     aver (k \<le> length new);
     Some (Enter iep (take k new) s)
   }"

definition key_mep_n :: "D list \<Rightarrow> call_state \<Rightarrow> action option" where
  "key_mep_n args s = do {
     f \<leftarrow> FN_at s (Pfunction s);
     let number_required = function_number_required f;
     a1 \<leftarrow> rd args 0;
     a \<leftarrow> wr (a_buffer s) 0 a1;
     b \<leftarrow> transfer_varargs (Pargument_count s - 1) (drop 1 args) (drop 1 a);
     let a = take 1 a @ b;
     let s = s\<lparr>a_buffer := a\<rparr>;
     rest \<leftarrow> rd a number_required;
     optionals \<leftarrow> vector_data s rest;
     (n, new) \<leftarrow> process_keyword_call_into (new_arguments s) f number_required a optionals rest s;
     let s = s\<lparr>new_arguments := new\<rparr>;
     iep \<leftarrow> keyword_function_iep f;
     iep_apply iep n new s
   }"

subsection \<open>Application\<close>

definition xep_of :: "call_state \<Rightarrow> D \<Rightarrow> xep_code option" where
  "xep_of s fn = (case object_at s fn of Some (Method f) \<Rightarrow> Some (xep f) | Some (Generic g) \<Rightarrow> Some (gf_xep g) | _ \<Rightarrow> None)"

definition primitive_xep_apply :: "D \<Rightarrow> nat \<Rightarrow> D list \<Rightarrow> call_state \<Rightarrow> action option" where
  "primitive_xep_apply fn n a s = do {
     x \<leftarrow> xep_of s fn;
     let s = set_registers fn DFALSE s;
     args \<leftarrow> spread n a;
     Some (Enter_xep x fn n args s)
   }"

definition primitive_xep_call :: "(D \<Rightarrow> D \<Rightarrow> bool) \<Rightarrow> D \<Rightarrow> nat \<Rightarrow> D list \<Rightarrow> call_state \<Rightarrow> action option" where
  "primitive_xep_call instancep fn n args s = do {
     f \<leftarrow> FN_at s fn;
     b \<leftarrow> transfer_varargs n args (arguments s);
     let s = s\<lparr>arguments := b\<rparr>;
     guarded (REQUIRED_CALL_CHECK instancep fn f (function_number_required f) n b) (primitive_xep_apply fn n b s)
   }"

definition primitive_iep_apply :: "D \<Rightarrow> nat \<Rightarrow> D list \<Rightarrow> call_state \<Rightarrow> action option" where
  "primitive_iep_apply fn n a s = do {
     f \<leftarrow> FN_at s fn;
     iep_apply (function_iep f) n a (set_registers fn DFALSE s)
   }"

definition primitive_mep_apply_with_optionals :: "D \<Rightarrow> D \<Rightarrow> D \<Rightarrow> call_state \<Rightarrow> action option" where
  "primitive_mep_apply_with_optionals fn new_next_methods args s = do {
     f \<leftarrow> FN_at s fn;
     v \<leftarrow> vector_data s args;
     let n = length v;
     let s = (set_registers fn new_next_methods s)\<lparr>Pargument_count := n\<rparr>;
     if n \<le> 9 then Some (Enter (mep f) v s)
     else do {
       a \<leftarrow> COPY_WORDS (a_buffer s) v 0 n;
       let s = s\<lparr>a_buffer := a\<rparr>;
       ps \<leftarrow> spread n a;
       Some (Enter (mep f) ps s)
     }
   }"

definition primitive_mep_apply :: "D \<Rightarrow> D \<Rightarrow> D \<Rightarrow> call_state \<Rightarrow> action option" where
  "primitive_mep_apply fn next_methods a s = do {
     f \<leftarrow> FN_at s fn;
     args \<leftarrow> vector_data s a;
     let number_required = function_number_required f;
     if function_optionals_p f then do {
       aver (number_required \<le> length args);
       (rest, s) \<leftarrow> stack_vector_from_buffer (length args - number_required) (drop number_required args) s;
       let (new, s) = new_object (Vector (take number_required args @ [rest])) s;
       primitive_mep_apply_with_optionals fn next_methods new s
     } else primitive_mep_apply_with_optionals fn next_methods a s
   }"

text \<open>The last argument is a vector of further arguments.\<close>

definition primitive_apply_using_buffer :: "D \<Rightarrow> nat \<Rightarrow> D list \<Rightarrow> call_state \<Rightarrow> action option" where
  "primitive_apply_using_buffer fn n a s = do {
     aver (0 < n);
     v \<leftarrow> rd a (n - 1);
     optionals \<leftarrow> vector_data s v;
     let new_size = n + length optionals - 1;
     b \<leftarrow> COPY_WORDS (apply_buffer s) a 0 (n - 1);
     aver (new_size \<le> length b);
     let b = take (n - 1) b @ optionals @ drop new_size b;
     primitive_xep_apply fn new_size b (s\<lparr>apply_buffer := b\<rparr>)
   }"

definition primitive_apply :: "D \<Rightarrow> D \<Rightarrow> call_state \<Rightarrow> action option" where
  "primitive_apply fn args s = do {
     a \<leftarrow> vector_data s args;
     primitive_apply_using_buffer fn (length a) a s
   }"

definition primitive_apply_spread :: "D \<Rightarrow> nat \<Rightarrow> D list \<Rightarrow> call_state \<Rightarrow> action option" where
  "primitive_apply_spread fn n args s = do {
     b \<leftarrow> transfer_varargs n args (buffer s);
     primitive_apply_using_buffer fn n b (s\<lparr>buffer := b\<rparr>)
   }"

definition primitive_mep_apply_spread :: "D \<Rightarrow> D \<Rightarrow> nat \<Rightarrow> D list \<Rightarrow> call_state \<Rightarrow> action option" where
  "primitive_mep_apply_spread fn nm n args s = do {
     b \<leftarrow> transfer_varargs n args (buffer s);
     let s = s\<lparr>buffer := b\<rparr>;
     aver (0 < n);
     v \<leftarrow> rd b (n - 1);
     vs \<leftarrow> vector_data s v;
     let (new, s) = new_object (Vector (take (n - 1) b @ vs)) s;
     primitive_mep_apply fn nm new s
   }"

text \<open>The entry points that the back end gives a method, by its signature.\<close>

definition number_xeps :: nat where "number_xeps = 10"

definition emit_xep_reference :: "nat \<Rightarrow> bool \<Rightarrow> bool \<Rightarrow> nat \<Rightarrow> xep_code" where
  "emit_xep_reference req_size key_p rest_p number_keys =
     (let sz = (if key_p then req_size + number_keys + 1 else req_size);
          v = (if sz < number_xeps then Some sz else None)
      in if key_p then Rest_key_xep v else if rest_p then Rest_xep v else Xep v)"

text \<open>The call of an external entry point of a method through its code pointer.\<close>

fun method_xep :: "(D \<Rightarrow> D \<Rightarrow> bool) \<Rightarrow> xep_code \<Rightarrow> D \<Rightarrow> nat \<Rightarrow> D list \<Rightarrow> call_state \<Rightarrow> action option" where
  "method_xep instancep (Xep (Some k)) fn n args s = xep_k instancep k fn n args s"
| "method_xep instancep (Xep None) fn n args s = xep_n instancep fn n args s"
| "method_xep instancep (Rest_xep (Some k)) fn n args s = rest_xep_k instancep k fn n args s"
| "method_xep instancep (Rest_xep None) fn n args s = rest_xep_n instancep fn n args s"
| "method_xep instancep (Rest_key_xep (Some k)) fn n args s = rest_key_xep_k instancep k fn n args s"
| "method_xep instancep (Rest_key_xep None) fn n args s = rest_key_xep_n instancep fn n args s"
| "method_xep instancep (Slotacc_xep what) fn n args s = slotacc_xep what fn n args s"
| "method_xep instancep x fn n args s = None"

end
