(* ===== verification/Method_Calls.thy ===== *)
theory Method_Calls
  imports Calling_Convention
begin

text \<open>
  What the calls of methods do: the lemmas on the checks, on keyword processing and on the entry points of
  \<^verbatim>\<open>Calling_Convention\<close>, and their properties. The specifications \<open>keyword_call_spec\<close> and \<open>positional_call_spec\<close> say
  for every list of arguments which error is signalled, or which code is entered with which arguments.
\<close>

subsection \<open>Checks\<close>

lemma check_simps [simp]:
  "guarded passed k = k" "guarded (fails e) k = Some (Signal e)" "also_check passed c = c" "also_check (fails e) c = fails e"
  by (simp_all add: guarded_def also_check_def passed_def fails_def)

lemma guarded_also: "guarded (also_check c d) k = guarded c (guarded d k)"
  by (auto simp: guarded_def also_check_def split: option.splits)

lemma passed_neq_fails [simp]: "passed \<noteq> fails e" "fails e \<noteq> passed"
  by (simp_all add: passed_def fails_def)

text \<open>The first argument that is not an instance of its specializer.\<close>

fun mismatch :: "(D \<Rightarrow> D \<Rightarrow> bool) \<Rightarrow> D list \<Rightarrow> D list \<Rightarrow> call_error option" where
  "mismatch instancep (t # ts) (v # vs) =
     (if t \<noteq> LobjectGVKd \<and> \<not> instancep v t then Some (Type_check_error v t) else mismatch instancep ts vs)"
| "mismatch instancep ts vs = None"

definition type_error :: "(D \<Rightarrow> D \<Rightarrow> bool) \<Rightarrow> FN \<Rightarrow> D list \<Rightarrow> call_error option" where
  "type_error instancep f vs = (case sig_required (fn_signature f) of None \<Rightarrow> None | Some ts \<Rightarrow> mismatch instancep ts vs)"

lemma TYPE_CHECK_ARGS_loop_eq:
  "n \<le> length ts \<Longrightarrow> n \<le> length vs \<Longrightarrow> TYPE_CHECK_ARGS_loop instancep n ts vs = Some (mismatch instancep (take n ts) (take n vs))"
  by (induction instancep n ts vs rule: TYPE_CHECK_ARGS_loop.induct)
    (auto simp: passed_def fails_def also_check_def TYPE_CHECK_ARG_def primitive_type_check_def split: option.splits)

text \<open>A method whose specializers, if it has any, are as many as its required parameters.\<close>

definition specializers_ok :: "FN \<Rightarrow> bool" where
  "specializers_ok f \<longleftrightarrow> (case sig_required (fn_signature f) of None \<Rightarrow> True | Some ts \<Rightarrow> length ts = function_number_required f)"

lemma TYPE_CHECK_ARGS_eq:
  assumes "specializers_ok f" and "n = function_number_required f" and "n \<le> length vs"
  shows "TYPE_CHECK_ARGS instancep f n vs = Some (type_error instancep f (take n vs))"
  using assms TYPE_CHECK_ARGS_loop_eq [of n _ vs instancep]
  by (auto simp: TYPE_CHECK_ARGS_def type_error_def specializers_ok_def passed_def split: option.splits)

lemma guarded_Some: "guarded (Some e) k = (case e of Some x \<Rightarrow> Some (Signal x) | None \<Rightarrow> k)"
  by (simp add: guarded_def split: option.splits)

subsection \<open>Keyword processing\<close>

fun pairs :: "D list \<Rightarrow> (D \<times> D) list" where
  "pairs (k # v # xs) = (k, v) # pairs xs"
| "pairs xs = []"

text \<open>The value supplied for a keyword: the first one.\<close>

fun supplied :: "D list \<Rightarrow> D \<Rightarrow> D option" where
  "supplied (k # v # xs) keyword = (if k = keyword then Some v else supplied xs keyword)"
| "supplied xs keyword = None"

definition keyword_values :: "D list \<Rightarrow> D list \<Rightarrow> D list" where
  "keyword_values specifiers optionals =
     map (\<lambda>(k, d). case supplied optionals k of Some v \<Rightarrow> v | None \<Rightarrow> d) (pairs specifiers)"

lemma length_pairs [simp]: "length (pairs xs) = length xs div 2"
  by (induction xs rule: pairs.induct) auto

lemma wr_mid: "wr (pre @ x # post) (length pre) y = Some (pre @ y # post)"
  by (simp add: wr_def list_update_append)

lemma default_keywords_ok:
  "n = length (pairs specs) \<Longrightarrow> length vals = n \<Longrightarrow> k = length pre \<Longrightarrow>
   default_keywords n specs k (pre @ vals @ post) = Some (pre @ map snd (pairs specs) @ post)"
proof (induction specs arbitrary: n vals k pre rule: pairs.induct)
  case (1 kw d xs)
  then obtain x vals' where v: "vals = x # vals'" "length vals' = length xs div 2" by (cases vals) auto
  have "wr (pre @ vals @ post) k d = Some ((pre @ [d]) @ vals' @ post)" using 1(4) v(1) wr_mid [of pre x "vals' @ post" d] by simp
  then show ?case using 1(1) [of "length (pairs xs)" vals' "k + 1" "pre @ [d]"] 1(2,4) v by simp
qed auto

lemma match_keyword_ok:
  "n = length (pairs specs) \<Longrightarrow> distinct (map fst (pairs specs)) \<Longrightarrow> k = length pre \<Longrightarrow>
   match_keyword kw v n specs k (pre @ map (\<lambda>(k, d). h k d) (pairs specs) @ post) =
     Some (pre @ map (\<lambda>(k, d). if k = kw then v else h k d) (pairs specs) @ post)"
proof (induction specs arbitrary: n k pre rule: pairs.induct)
  case (1 kw' d xs)
  let ?g = "\<lambda>(k, d). h k d" and ?g' = "\<lambda>(k, d). if k = kw then v else h k d"
  show ?case
  proof (cases "kw = kw'")
    case True
    then have "map ?g' (pairs xs) = map ?g (pairs xs)" using 1(3) by (force intro: map_cong)
    then show ?thesis using True 1(2,4) wr_mid [of pre "h kw' d" "map ?g (pairs xs) @ post" v] by simp
  next
    case False
    then show ?thesis using 1(1) [of "length (pairs xs)" "k + 1" "pre @ [h kw' d]"] 1(2,3,4) by simp
  qed
qed auto

lemma process_keyword_loop_append:
  "even (length xs) \<Longrightarrow> process_keyword_loop n specs k (xs @ ys) new =
     do { new \<leftarrow> process_keyword_loop n specs k xs new; process_keyword_loop n specs k ys new }"
proof (induction xs arbitrary: new rule: pairs.induct)
  case (1 v kw xs)
  then show ?case by (cases "match_keyword kw v n specs k new") simp_all
qed auto

lemma process_keyword_loop_ok:
  assumes "distinct (map fst (pairs specs))" and "k = length pre"
  shows "even (length opts) \<Longrightarrow>
   process_keyword_loop (length (pairs specs)) specs k (rev opts) (pre @ map snd (pairs specs) @ post) =
     Some (pre @ keyword_values specs opts @ post)"
proof (induction opts rule: pairs.induct)
  case (1 kw v opts)
  let ?h = "\<lambda>k d. case supplied opts k of Some v \<Rightarrow> v | None \<Rightarrow> d"
  have IH: "process_keyword_loop (length (pairs specs)) specs k (rev opts) (pre @ map snd (pairs specs) @ post) =
     Some (pre @ map (\<lambda>(k, d). ?h k d) (pairs specs) @ post)" using 1 by (simp add: keyword_values_def)
  have "keyword_values specs (kw # v # opts) = map (\<lambda>(k, d). if k = kw then v else ?h k d) (pairs specs)"
    by (auto simp: keyword_values_def)
  then show ?case using 1(2) IH match_keyword_ok [OF refl assms(1,2), of kw v ?h post]
    by (simp add: process_keyword_loop_append)
qed (auto simp: keyword_values_def case_prod_beta' split: prod.splits)

lemma process_keyword_call_into_ok:
  assumes k: "kfn_part f = Some (iep, kv)" "vector_data s kv = Some specs" "distinct (map fst (pairs specs))"
    and e: "even (length opts)" and r: "nr \<le> length req" and l: "nr + 1 + length (pairs specs) \<le> length new"
  shows "\<exists>new'. process_keyword_call_into new f nr req opts rest s = Some (nr + length (pairs specs) + 1, new') \<and> length new' = length new \<and>
    take (nr + length (pairs specs) + 1) new' = take nr req @ rest # keyword_values specs opts"
proof -
  let ?nk = "length (pairs specs)"
  define x where "x = new ! nr"
  define vals where "vals = take ?nk (drop (nr + 1) new)"
  define post where "post = drop (nr + 1 + ?nk) new"
  have len: "length vals = ?nk" using l by (simp add: vals_def)
  have d: "drop nr new = x # vals @ post"
  proof -
    have "drop nr new = x # drop (nr + 1) new" using l by (simp add: x_def Cons_nth_drop_Suc)
    also have "drop (nr + 1) new = vals @ post" using append_take_drop_id [of ?nk "drop (nr + 1) new"] by (simp add: vals_def post_def add.commute)
    finally show ?thesis .
  qed
  let ?pre = "take nr req @ [x]"
  have c: "COPY_WORDS new req 0 nr = Some (?pre @ vals @ post)" using r l d by simp
  have p: "nr + 1 = length ?pre" using r by simp
  have "default_keywords ?nk specs (nr + 1) (?pre @ vals @ post) = Some (?pre @ map snd (pairs specs) @ post)"
    by (rule default_keywords_ok) (use len p in simp_all)
  moreover have "process_keyword_loop ?nk specs (nr + 1) (rev opts) (?pre @ map snd (pairs specs) @ post) = Some (?pre @ keyword_values specs opts @ post)"
    by (rule process_keyword_loop_ok [OF k(3) p e])
  moreover have "wr (?pre @ keyword_values specs opts @ post) nr rest = Some (take nr req @ rest # keyword_values specs opts @ post)"
    using wr_mid [of "take nr req" x "keyword_values specs opts @ post" rest] r by simp
  moreover have "length new = length (take nr req @ rest # keyword_values specs opts @ post)"
    using l r by (simp add: post_def keyword_values_def)
  moreover have "length (keyword_values specs opts) = ?nk" by (simp add: keyword_values_def)
  ultimately show ?thesis
    using k(1,2) c r by (simp add: process_keyword_call_into_def Let_def method_keyword_specifiers_def default_arguments_def process_keyword_parameters_def)
qed

subsection \<open>Calls of methods\<close>

text \<open>
  A state in which calls can be made: the buffers have their size, new objects get fresh addresses, and the empty
  vector is there. The objects that there were are the same after a step.
\<close>

definition call_ok :: "call_state \<Rightarrow> bool" where
  "call_ok s \<longleftrightarrow> length (arguments s) = MAX_ARGUMENTS \<and> length (new_arguments s) = MAX_ARGUMENTS \<and> length (a_buffer s) = MAX_ARGUMENTS \<and>
     length (iep_a s) = MAX_ARGUMENTS \<and> length (apply_buffer s) = MAX_ARGUMENTS \<and> length (buffer s) = MAX_ARGUMENTS \<and>
     (\<forall>p. objects s p \<noteq> None \<longrightarrow> p < next_object s) \<and> objects s 3 = Some (Vector [])"

definition keeps_objects :: "call_state \<Rightarrow> call_state \<Rightarrow> bool" where
  "keeps_objects s s' \<longleftrightarrow> (\<forall>p < next_object s. objects s' p = objects s p)"

lemma keeps_objects_refl [simp]: "keeps_objects s s"
  by (simp add: keeps_objects_def)

lemma keeps_vector: "vector_data s v = Some xs \<Longrightarrow> keeps_objects s s' \<Longrightarrow> call_ok s \<Longrightarrow> vector_data s' v = Some xs"
  by (auto simp: vector_data_def object_at_def keeps_objects_def call_ok_def split: D.splits option.splits obj.splits)

text \<open>A keyword method: its internal entry point, its keywords with their defaults, and its parameters.\<close>

definition keyword_method :: "call_state \<Rightarrow> D \<Rightarrow> FN \<Rightarrow> code \<Rightarrow> D list \<Rightarrow> bool" where
  "keyword_method s fn f iep specs \<longleftrightarrow> FN_at s fn = Some f \<and> specializers_ok f \<and>
     (\<exists>kv. kfn_part f = Some (iep, kv) \<and> vector_data s kv = Some specs) \<and> distinct (map fst (pairs specs))"

definition number_keywords :: "D list \<Rightarrow> nat" where "number_keywords specs = length (pairs specs)"

lemma length_keyword_values [simp]: "length (keyword_values specs opts) = number_keywords specs"
  by (simp add: keyword_values_def number_keywords_def)

lemma CALL_CHECK_ok: "n \<le> MAX_ARGUMENTS \<Longrightarrow> CALL_CHECK fn n = passed"
  by (simp add: CALL_CHECK_def)

lemma KEYWORD_CALL_CHECK_eq:
  assumes "n \<le> MAX_ARGUMENTS" and "specializers_ok f" and "nr = function_number_required f" and "n \<le> length b"
  shows "KEYWORD_CALL_CHECK instancep fn f nr n b = Some (
    if n < nr then Some (Argument_count_error fn n)
    else case type_error instancep f (take nr b) of Some e \<Rightarrow> Some e
    | None \<Rightarrow> if odd (n - nr) then Some (Odd_keyword_arguments_error fn n) else None)"
proof (cases "n < nr")
  case True
  then show ?thesis using CALL_CHECK_ok [OF assms(1)]
    by (simp add: KEYWORD_CALL_CHECK_def OPTIONAL_CALL_CHECK_def BASIC_OPTIONAL_CALL_CHECK_def) (simp add: fails_def)
next
  case False
  then have t: "TYPE_CHECK_ARGS instancep f nr b = Some (type_error instancep f (take nr b))" using assms by (intro TYPE_CHECK_ARGS_eq) simp_all
  then show ?thesis using False CALL_CHECK_ok [OF assms(1)]
    by (simp add: KEYWORD_CALL_CHECK_def OPTIONAL_CALL_CHECK_def BASIC_OPTIONAL_CALL_CHECK_def)
      (auto simp: also_check_def passed_def fails_def split: option.splits)
qed

text \<open>What a call of a keyword method should do, given the outcome.\<close>

definition keyword_call_spec ::
  "(D \<Rightarrow> D \<Rightarrow> bool) \<Rightarrow> D \<Rightarrow> FN \<Rightarrow> code \<Rightarrow> D list \<Rightarrow> D list \<Rightarrow> call_state \<Rightarrow> action option \<Rightarrow> bool" where
  "keyword_call_spec instancep fn f iep specs args s r \<longleftrightarrow> (
     let n = length args; nr = function_number_required f in
     if n < nr then r = Some (Signal (Argument_count_error fn n))
     else case type_error instancep f (take nr args) of
       Some e \<Rightarrow> r = Some (Signal e)
     | None \<Rightarrow>
         if odd (n - nr) then r = Some (Signal (Odd_keyword_arguments_error fn n))
         else \<exists>ps s' rest. r = Some (Enter iep ps s') \<and>
           take (nr + 1 + number_keywords specs) ps = take nr args @ rest # keyword_values specs (drop nr args) \<and>
           vector_data s' rest = Some (drop nr args) \<and> Pfunction s' = fn \<and> Pnext_methods s' = DFALSE \<and> keeps_objects s s')"

lemma rest_key_xep_call_ok:
  assumes ok: "call_ok s" and m: "keyword_method s fn f iep specs" and n: "n = length args" "n \<le> MAX_ARGUMENTS"
    and nr: "function_number_required f = nr" and lt: "nr + 1 + number_keywords specs \<le> MAX_ARGUMENTS"
    and pass: "\<And>a. length a = MAX_ARGUMENTS \<Longrightarrow> \<exists>ps. pass (nr + 1 + number_keywords specs) a = Some ps \<and>
      take (nr + 1 + number_keywords specs) ps = take (nr + 1 + number_keywords specs) a"
  shows "keyword_call_spec instancep fn f iep specs args s (rest_key_xep_call pass instancep fn n args s)"
proof -
  obtain kv where F: "FN_at s fn = Some f" "specializers_ok f" "kfn_part f = Some (iep, kv)" "vector_data s kv = Some specs"
    "distinct (map fst (pairs specs))" using m by (auto simp: keyword_method_def)
  let ?b = "args @ drop n (arguments s)"
  let ?s = "s\<lparr>arguments := ?b\<rparr>"
  have tv: "transfer_varargs n args (arguments s) = Some ?b" using n ok by (simp add: transfer_varargs_def call_ok_def)
  have kc: "KEYWORD_CALL_CHECK instancep fn f nr n ?b = Some (
    if n < nr then Some (Argument_count_error fn n)
    else case type_error instancep f (take nr ?b) of Some e \<Rightarrow> Some e
    | None \<Rightarrow> if odd (n - nr) then Some (Odd_keyword_arguments_error fn n) else None)"
    using n F(2) nr by (intro KEYWORD_CALL_CHECK_eq) simp_all
  have b: "take nr ?b = take nr args" "take (n - nr) (drop nr ?b) = drop nr args" if "\<not> n < nr" using that n by simp_all
  have kc: "KEYWORD_CALL_CHECK instancep fn f nr n ?b = Some (
    if n < nr then Some (Argument_count_error fn n)
    else case type_error instancep f (take nr args) of Some e \<Rightarrow> Some e
    | None \<Rightarrow> if odd (n - nr) then Some (Odd_keyword_arguments_error fn n) else None)"
    using kc unfolding n(1) by (cases "length args < nr") simp_all
  have early: "rest_key_xep_call pass instancep fn n args s = Some (Signal e)" if "KEYWORD_CALL_CHECK instancep fn f nr n ?b = Some (Some e)" for e
    using F(1) tv that by (simp add: rest_key_xep_call_def nr guarded_Some)
  consider (few) "n < nr" | (types) e where "\<not> n < nr" "type_error instancep f (take nr args) = Some e"
    | (odd) "\<not> n < nr" "type_error instancep f (take nr args) = None" "odd (n - nr)"
    | (fine) "\<not> n < nr" "type_error instancep f (take nr args) = None" "even (n - nr)" by fastforce
  then show ?thesis
  proof cases
    case few
    have "KEYWORD_CALL_CHECK instancep fn f nr n ?b = Some (Some (Argument_count_error fn n))" using kc few by simp
    from early [OF this] show ?thesis using few n nr by (simp add: keyword_call_spec_def)
  next
    case types
    have "KEYWORD_CALL_CHECK instancep fn f nr n ?b = Some (Some e)" using kc types by simp
    from early [OF this] show ?thesis using types n nr by (simp add: keyword_call_spec_def)
  next
    case odd
    have "KEYWORD_CALL_CHECK instancep fn f nr n ?b = Some (Some ((Odd_keyword_arguments_error fn n)))" using kc odd by simp
    from early [OF this] show ?thesis using odd n nr by (simp add: keyword_call_spec_def)
  next
    case fine
    let ?nk = "number_keywords specs"
    have kc': "KEYWORD_CALL_CHECK instancep fn f nr n ?b = Some None" using kc fine by simp
    define rest where "rest = Ptr (next_object s)"
    define s1 where "s1 = ?s\<lparr>objects := (objects s)(next_object s \<mapsto> Vector (drop nr args)), next_object := next_object s + 1\<rparr>"
    have sv: "stack_vector_from_buffer (n - nr) (drop nr ?b) ?s = Some (rest, s1)"
    proof -
      have "n - nr \<le> length (drop nr ?b)" using n by simp
      then show ?thesis using b(2) [OF fine(1)] by (simp add: stack_vector_from_buffer_def new_object_def rest_def s1_def)
    qed
    have k1: "keeps_objects s s1" by (simp add: keeps_objects_def s1_def)
    have s1': "s1\<lparr>objects := (objects s1)(next_object s \<mapsto> Vector (drop nr args))\<rparr> = s1" by (simp add: s1_def)
    have kv: "vector_data s1 kv = Some specs" by (rule keeps_vector [OF F(4) k1 ok])
    have rv: "vector_data s1 rest = Some (drop nr args)" by (simp add: rest_def s1_def vector_data_def object_at_def)
    have la: "length (new_arguments s1) = MAX_ARGUMENTS" using ok by (simp add: s1_def call_ok_def)
    have ev: "even (length (drop nr args))" using fine n by simp
    obtain new' where P: "process_keyword_call_into (new_arguments s1) f nr ?b (drop nr args) rest s1 = Some (nr + ?nk + 1, new')"
      "length new' = MAX_ARGUMENTS" "take (nr + ?nk + 1) new' = take nr args @ rest # keyword_values specs (drop nr args)"
      using process_keyword_call_into_ok [OF F(3) kv F(5) ev, of nr ?b "new_arguments s1" rest] fine(1) n lt la b(1)
      by (auto simp: number_keywords_def)
    have R: "process_keyword_call_and_restify_into instancep (new_arguments s1) fn f n ?b rest s1 = Some (Inr (nr + ?nk + 1, new', s1))"
      using kc' P(1) s1' b(2) fine(1) 
      by (simp add: process_keyword_call_and_restify_into_def nr rest_def)
    obtain ps where ps: "pass (nr + ?nk + 1) new' = Some ps" "take (nr + 1 + ?nk) ps = take (nr + 1 + ?nk) new'"
      using pass [OF P(2)] by (auto simp: add_ac)
    let ?s3 = "set_registers fn DFALSE (s1\<lparr>new_arguments := new'\<rparr>)"
    have "rest_key_xep_call pass instancep fn n args s = Some (Enter iep ps ?s3)"
      using F(1,3) tv kc' sv R ps(1) 
      by (simp add: rest_key_xep_call_def nr guarded_Some keyword_function_iep_def)
    moreover have "take (nr + 1 + ?nk) ps = take nr args @ rest # keyword_values specs (drop nr args)"
      using ps(2) P(3) by (simp add: add_ac)
    moreover have "vector_data ?s3 rest = Some (drop nr args)" "keeps_objects s ?s3" "Pfunction ?s3 = fn" "Pnext_methods ?s3 = DFALSE"
      using rv k1 by (simp_all add: rest_def set_registers_def vector_data_def object_at_def keeps_objects_def)
    ultimately show ?thesis using fine n nr unfolding keyword_call_spec_def Let_def nr by auto
  qed
qed

lemma spread_ok:
  assumes "length a = MAX_ARGUMENTS" and "n \<le> 64"
  shows "\<exists>ps. spread n a = Some ps \<and> take n ps = take n a"
proof (cases "n \<le> 9")
  case True
  then show ?thesis using assms by (simp add: spread_def MAX_ARGUMENTS_def)
next
  case False
  then show ?thesis using assms by (simp add: spread_def MAX_ARGUMENTS_def min_def)
qed

lemma same_objects:
  "objects s' = objects s \<Longrightarrow> object_at s' d = object_at s d" "objects s' = objects s \<Longrightarrow> vector_data s' d = vector_data s d"
  "objects s' = objects s \<Longrightarrow> FN_at s' d = FN_at s d"
  by (cases d; simp add: object_at_def vector_data_def FN_at_def)+

lemma keyword_call_refines:
  assumes "call_ok s" and "keyword_method s fn f iep specs" and "length args \<le> MAX_ARGUMENTS"
    and "function_number_required f + 1 + number_keywords specs \<le> 64"
  shows "keyword_call_spec instancep fn f iep specs args s
    (method_xep instancep (emit_xep_reference (function_number_required f) True rest_p (number_keywords specs)) fn (length args) args s)"
proof -
  let ?sz = "function_number_required f + 1 + number_keywords specs"
  have m: "?sz \<le> MAX_ARGUMENTS" using assms(4) by (simp add: MAX_ARGUMENTS_def)
  note call = rest_key_xep_call_ok [OF assms(1,2) refl assms(3) refl m, where instancep = instancep]
  show ?thesis
  proof (cases "?sz < number_xeps")
    case True
    have "keyword_call_spec instancep fn f iep specs args s (rest_key_xep_k instancep ?sz fn (length args) args s)"
      unfolding rest_key_xep_k_def using m by (intro call) simp
    then show ?thesis using True by (simp add: emit_xep_reference_def)
  next
    case False
    have "keyword_call_spec instancep fn f iep specs args s (rest_key_xep_n instancep fn (length args) args s)"
      unfolding rest_key_xep_n_def using assms(4) by (intro call spread_ok) simp_all
    then show ?thesis using False by (simp add: emit_xep_reference_def)
  qed
qed

text \<open>
  C11: a call of a keyword method through its external entry point. Too few arguments, a required argument of the wrong
  type and a keyword without a value are signalled, in this order; otherwise the internal entry point gets the required
  arguments, a vector of all the others, and for every keyword the first value supplied for it or else its default,
  with the registers set for the method and no object changed. This holds for up to 256 arguments of a call and 64
  parameters of the internal entry point.
\<close>
theorem keyword_method_call:
  assumes "call_ok s" and "keyword_method s fn f iep specs" and "length args \<le> MAX_ARGUMENTS"
    and "function_number_required f + 1 + number_keywords specs \<le> 64"
  shows "keyword_call_spec instancep fn f iep specs args s
    (method_xep instancep (emit_xep_reference (function_number_required f) True rest_p (number_keywords specs)) fn (length args) args s)"
  by (rule keyword_call_refines [OF assms])

text \<open>A method with two required parameters and two keywords, called with a keyword that is repeated and one it does not have.\<close>

definition sample_FN :: FN where
  "sample_FN = \<lparr>xep = Rest_key_xep (Some 5),
     fn_signature = \<lparr>sig_properties = signature_make_properties 2 1 True False False False, sig_required = Some [LobjectGVKd, Ptr 20]\<rparr>,
     mep = Key_mep (Some 5), kfn_part = Some (Iep 7, Ptr 11)\<rparr>"

definition sample_state :: call_state where
  "sample_state = \<lparr>objects = [3 \<mapsto> Vector [], 10 \<mapsto> Method sample_FN, 11 \<mapsto> Vector [Ptr 30, Imm 5, Ptr 31, Imm 9],
       12 \<mapsto> Vector [DTRUE, DFALSE, Ptr 31, Imm 13, Ptr 32, DTRUE, Ptr 31, Imm 17]],
     next_object = 40, Pfunction = NULL, Pargument_count = 0, Pnext_methods = NULL,
     arguments = replicate 256 NULL, new_arguments = replicate 256 NULL, a_buffer = replicate 256 NULL, iep_a = replicate 256 NULL,
     apply_buffer = replicate 256 NULL, buffer = replicate 256 NULL\<rparr>"

definition sample_args :: "D list" where
  "sample_args = [DTRUE, DFALSE, Ptr 31, Imm 13, Ptr 32, DTRUE, Ptr 31, Imm 17]"

lemma sample_required: "function_number_required sample_FN = 2" "function_optionals_p sample_FN"
  using signature_fields [of 2 1 "fn_signature sample_FN" True False False False]
  by (simp_all add: function_number_required_def function_optionals_p_def sample_FN_def)

lemma sample_ok: "call_ok sample_state"
  by (auto simp: call_ok_def sample_state_def MAX_ARGUMENTS_def)

lemma sample_method: "keyword_method sample_state (Ptr 10) sample_FN (Iep 7) [Ptr 30, Imm 5, Ptr 31, Imm 9]"
proof -
  have "FN_at sample_state (Ptr 10) = Some sample_FN" by (simp add: FN_at_def object_at_def sample_state_def)
  moreover have "sig_required (fn_signature sample_FN) = Some [LobjectGVKd, Ptr 20]" by (simp add: sample_FN_def)
  then have "specializers_ok sample_FN" by (simp add: specializers_ok_def sample_required)
  moreover have "kfn_part sample_FN = Some (Iep 7, Ptr 11)" by (simp add: sample_FN_def)
  moreover have "vector_data sample_state (Ptr 11) = Some [Ptr 30, Imm 5, Ptr 31, Imm 9]" by (simp add: vector_data_def object_at_def sample_state_def)
  ultimately show ?thesis by (simp add: keyword_method_def)
qed

theorem keyword_method_call_witness:
  "keyword_values [Ptr 30, Imm 5, Ptr 31, Imm 9] (drop 2 sample_args) = [Imm 5, Imm 13] \<and>
   keyword_call_spec (\<lambda>v t. v = DFALSE) (Ptr 10) sample_FN (Iep 7) [Ptr 30, Imm 5, Ptr 31, Imm 9] sample_args sample_state
    (method_xep (\<lambda>v t. v = DFALSE) (emit_xep_reference (function_number_required sample_FN) True False (number_keywords [Ptr 30, Imm 5, Ptr 31, Imm 9]))
      (Ptr 10) (length sample_args) sample_args sample_state)"
proof (rule conjI)
  show "keyword_values [Ptr 30, Imm 5, Ptr 31, Imm 9] (drop 2 sample_args) = [Imm 5, Imm 13]"
    by (simp add: keyword_values_def sample_args_def)
  show "keyword_call_spec (\<lambda>v t. v = DFALSE) (Ptr 10) sample_FN (Iep 7) [Ptr 30, Imm 5, Ptr 31, Imm 9] sample_args sample_state
    (method_xep (\<lambda>v t. v = DFALSE) (emit_xep_reference (function_number_required sample_FN) True False (number_keywords [Ptr 30, Imm 5, Ptr 31, Imm 9]))
      (Ptr 10) (length sample_args) sample_args sample_state)"
    by (rule keyword_method_call [OF sample_ok sample_method]) (simp_all add: sample_args_def MAX_ARGUMENTS_def sample_required number_keywords_def)
qed

subsection \<open>Calls through method entry points\<close>

fun method_entry :: "code \<Rightarrow> D list \<Rightarrow> call_state \<Rightarrow> action option" where
  "method_entry (Key_mep (Some k)) args s = key_mep_k k args s"
| "method_entry (Key_mep None) args s = key_mep_n args s"
| "method_entry c args s = Some (Enter c args s)"

definition then_method_entry :: "action option \<Rightarrow> action option" where
  "then_method_entry r = (case r of Some (Enter c args s) \<Rightarrow> method_entry c args s | _ \<Rightarrow> r)"

text \<open>The numbered variant that the back end gives a keyword method.\<close>

definition key_mep_number :: "nat \<Rightarrow> nat option" where
  "key_mep_number sz = (if sz < number_xeps then Some sz else None)"

lemma key_mep_ok:
  assumes ok: "call_ok s" and m: "keyword_method s (Pfunction s) f iep specs" and nr: "function_number_required f = nr"
    and args: "length req = nr" "take (nr + 1) args = req @ [rest]" "nr + 1 \<le> length args" and c: "Pargument_count s = nr + 1"
    and r: "vector_data s rest = Some opts" "even (length opts)" and lt: "nr + 1 + number_keywords specs \<le> 64"
  shows "\<exists>ps s'. method_entry (Key_mep (key_mep_number (nr + 1 + number_keywords specs))) args s = Some (Enter iep ps s') \<and>
    take (nr + 1 + number_keywords specs) ps = req @ rest # keyword_values specs opts \<and> vector_data s' rest = Some opts \<and>
    Pfunction s' = Pfunction s \<and> Pnext_methods s' = Pnext_methods s"
proof -
  let ?sz = "nr + 1 + number_keywords specs"
  obtain kv where F: "FN_at s (Pfunction s) = Some f" "kfn_part f = Some (iep, kv)" "vector_data s kv = Some specs"
    "distinct (map fst (pairs specs))" using m by (auto simp: keyword_method_def)
  obtain a1 ap where a: "args = a1 # ap" using args(3) by (cases args) simp_all
  have ap: "take nr ap = tl (req @ [rest])" using args(2) a by (metis list.sel(3) take_Suc_Cons add.commute plus_1_eq_Suc)
  have la: "length (a_buffer s) = 256" "length (new_arguments s) = 256" "length (iep_a s) = 256" using ok by (simp_all add: call_ok_def MAX_ARGUMENTS_def)
  obtain b0 bs where bs: "a_buffer s = b0 # bs" "length bs = 255" using la(1) by (cases "a_buffer s") simp_all
  define b where "b = take nr ap @ drop nr bs"
  have lap: "nr \<le> length ap" "nr \<le> 255" using args(3) a lt by simp_all
  have tv: "transfer_varargs nr ap bs = Some b" using lap bs by (simp add: transfer_varargs_def b_def)
  have w: "wr (a_buffer s) 0 a1 = Some (a1 # bs)" using bs by (simp add: wr_def)
  have ab: "a1 # b = req @ rest # drop nr bs" using args(2) a by (simp add: b_def flip: append_Cons)
  have rd: "rd (a1 # b) nr = Some rest" unfolding ab using args(1) by (simp add: rd_def nth_append)
  have tk: "take nr (a1 # b) = req" unfolding ab using args(1) by simp
  let ?s1 = "s\<lparr>a_buffer := a1 # b\<rparr>"
  have v: "vector_data ?s1 d = vector_data s d" for d by (rule same_objects) simp
  have P: "\<exists>new'. process_keyword_call_into new f nr (a1 # b) opts rest ?s1 = Some (?sz, new') \<and> length new' = 256 \<and>
      take ?sz new' = req @ rest # keyword_values specs opts" if "length new = 256" for new
  proof -
    have kv: "vector_data ?s1 kv = Some specs" using F(3) v by simp
    have "nr \<le> length (a1 # b)" "nr + 1 + length (pairs specs) \<le> length new"
      using lap lt that by (simp_all add: b_def bs(2) number_keywords_def)
    from process_keyword_call_into_ok [OF F(2) kv F(4) r(2) this, of rest]
    show ?thesis unfolding tk that number_keywords_def by (simp only: add_ac)
  qed
  have kept: "vector_data (?s1\<lparr>iep_a := x\<rparr>) rest = Some opts" "vector_data (?s1\<lparr>new_arguments := x\<rparr>) rest = Some opts" for x
    using r(1) same_objects(2) [of "?s1\<lparr>iep_a := x\<rparr>" s rest] same_objects(2) [of "?s1\<lparr>new_arguments := x\<rparr>" s rest] by simp_all
  show ?thesis
  proof (cases "?sz < number_xeps")
    case True
    obtain new' where N: "process_keyword_call_into (iep_a s) f nr (a1 # b) opts rest ?s1 = Some (?sz, new')" "length new' = 256"
      "take ?sz new' = req @ rest # keyword_values specs opts" using P [OF la(3)] by blast
    have "key_mep_k ?sz args s = Some (Enter iep (take ?sz new') (?s1\<lparr>iep_a := new'\<rparr>))"
      using F(1,2) a w c tv rd r(1) N(1,2) lt by (simp add: key_mep_k_def nr v keyword_function_iep_def rd_def)
    then show ?thesis using True kept N(3) args(1) by (intro exI [of _ "take ?sz new'"] exI [of _ "?s1\<lparr>iep_a := new'\<rparr>"]) (simp add: key_mep_number_def)
  next
    case False
    obtain new' where N: "process_keyword_call_into (new_arguments s) f nr (a1 # b) opts rest ?s1 = Some (?sz, new')" "length new' = 256"
      "take ?sz new' = req @ rest # keyword_values specs opts" using P [OF la(2)] by blast
    obtain ps where ps: "spread ?sz new' = Some ps" "take ?sz ps = take ?sz new'" using spread_ok [of new' ?sz] N(2) lt by (auto simp: MAX_ARGUMENTS_def)
    have "key_mep_n args s = Some (Enter iep ps (?s1\<lparr>new_arguments := new'\<rparr>))"
      using F(1,2) a w c tv rd r(1) N(1,2) ps(1) by (simp add: key_mep_n_def nr v keyword_function_iep_def rd_def iep_apply_def)
    then show ?thesis using False N(3) ps(2) kept by (simp add: key_mep_number_def)
  qed
qed

lemma call_ok_new_object:
  assumes "call_ok s"
  shows "call_ok (s\<lparr>objects := (objects s)(next_object s \<mapsto> x), next_object := Suc (next_object s)\<rparr>)"
proof -
  have "3 < next_object s" using assms by (auto simp: call_ok_def)
  then show ?thesis using assms by (auto simp: call_ok_def less_SucI)
qed

lemma keeps_new_object: "keeps_objects s (s\<lparr>objects := (objects s)(next_object s \<mapsto> x), next_object := Suc (next_object s)\<rparr>)"
  by (simp add: keeps_objects_def)

lemma keeps_FN: "FN_at s fn = Some f \<Longrightarrow> keeps_objects s s' \<Longrightarrow> call_ok s \<Longrightarrow> FN_at s' fn = Some f"
  by (auto simp: FN_at_def object_at_def keeps_objects_def call_ok_def split: D.splits option.splits obj.splits)

lemma keyword_method_kept: "keyword_method s fn f iep specs \<Longrightarrow> keeps_objects s s' \<Longrightarrow> call_ok s \<Longrightarrow> keyword_method s' fn f iep specs"
  unfolding keyword_method_def using keeps_FN keeps_vector by blast

lemma primitive_mep_apply_with_optionals_ok:
  assumes "call_ok s" and "FN_at s fn = Some f" and "vector_data s args = Some v" and "length v \<le> 64"
  shows "\<exists>ps s'. primitive_mep_apply_with_optionals fn nm args s = Some (Enter (mep f) ps s') \<and> take (length v) ps = v \<and> length v \<le> length ps \<and>
    Pargument_count s' = length v \<and> Pfunction s' = fn \<and> Pnext_methods s' = nm \<and> objects s' = objects s \<and> next_object s' = next_object s \<and> call_ok s'"
proof (cases "length v \<le> 9")
  case True
  then show ?thesis using assms by (simp add: primitive_mep_apply_with_optionals_def set_registers_def call_ok_def)
next
  case False
  have l: "length (a_buffer s) = 256" using assms(1) by (simp add: call_ok_def MAX_ARGUMENTS_def)
  let ?a = "v @ drop (length v) (a_buffer s)"
  have c: "COPY_WORDS (a_buffer s) v 0 (length v) = Some ?a" using assms(4) l by simp
  obtain ps where ps: "spread (length v) ?a = Some ps" "take (length v) ps = v"
    using spread_ok [of ?a "length v"] assms(4) l by (auto simp: MAX_ARGUMENTS_def)
  have "length v \<le> length ps" using ps(2) by (metis length_take min.absorb_iff2 min.commute)
  moreover let ?s = "s\<lparr>Pfunction := fn, Pnext_methods := nm, Pargument_count := length v, a_buffer := ?a\<rparr>"
  have "primitive_mep_apply_with_optionals fn nm args s = Some (Enter (mep f) ps ?s)"
    using False assms(2,3) c ps(1) by (simp add: primitive_mep_apply_with_optionals_def set_registers_def Let_def)
  moreover have "call_ok ?s" using assms(1,4) l by (simp add: call_ok_def MAX_ARGUMENTS_def)
  ultimately show ?thesis using ps(2) by (intro exI [of _ ps] exI [of _ ?s]) simp
qed

lemma mep_apply_keyword:
  assumes ok: "call_ok s" and m: "keyword_method s fn f iep specs" and nr: "function_number_required f = nr" and o: "function_optionals_p f"
    and mep: "mep f = Key_mep (key_mep_number (nr + 1 + number_keywords specs))"
    and v: "vector_data s v = Some args" "nr \<le> length args" "even (length args - nr)" and lt: "nr + 1 + number_keywords specs \<le> 64"
  shows "\<exists>ps s' rest. then_method_entry (primitive_mep_apply fn nm v s) = Some (Enter iep ps s') \<and>
    take (nr + 1 + number_keywords specs) ps = take nr args @ rest # keyword_values specs (drop nr args) \<and>
    vector_data s' rest = Some (drop nr args) \<and> Pfunction s' = fn \<and> Pnext_methods s' = nm"
proof -
  let ?rest = "Ptr (next_object s)" and ?new = "Ptr (Suc (next_object s))"
  let ?s1 = "s\<lparr>objects := (objects s)(next_object s \<mapsto> Vector (drop nr args)), next_object := Suc (next_object s)\<rparr>"
  let ?s2 = "?s1\<lparr>objects := (objects ?s1)(Suc (next_object s) \<mapsto> Vector (take nr args @ [?rest])), next_object := Suc (Suc (next_object s))\<rparr>"
  have ok1: "call_ok ?s1" by (rule call_ok_new_object [OF ok])
  have ok2: "call_ok ?s2" using call_ok_new_object [OF ok1] by simp
  have k: "keeps_objects s ?s2" by (simp add: keeps_objects_def)
  have m2: "keyword_method ?s2 fn f iep specs" by (rule keyword_method_kept [OF m k ok])
  have f: "FN_at s fn = Some f" "FN_at ?s2 fn = Some f" using m m2 by (simp_all add: keyword_method_def)
  have nv: "vector_data ?s2 ?new = Some (take nr args @ [?rest])" "vector_data ?s2 ?rest = Some (drop nr args)"
    by (simp_all add: vector_data_def object_at_def)
  have e: "primitive_mep_apply fn nm v s = primitive_mep_apply_with_optionals fn nm ?new ?s2"
    using f(1) v(1,2) o nr by (simp add: primitive_mep_apply_def stack_vector_from_buffer_def new_object_def Let_def)
  have "length (take nr args @ [?rest]) \<le> 64" using lt v(2) by simp
  then obtain ps1 s3 where s3: "primitive_mep_apply_with_optionals fn nm ?new ?s2 = Some (Enter (mep f) ps1 s3)" "take (nr + 1) ps1 = take nr args @ [?rest]"
    "nr + 1 \<le> length ps1" "Pargument_count s3 = nr + 1" "Pfunction s3 = fn" "Pnext_methods s3 = nm" "objects s3 = objects ?s2" "next_object s3 = next_object ?s2" "call_ok s3"
    using primitive_mep_apply_with_optionals_ok [OF ok2 f(2) nv(1), of nm] v(2) by auto
  have m3: "keyword_method s3 (Pfunction s3) f iep specs"
    unfolding s3(5) by (rule keyword_method_kept [OF m2 _ ok2]) (simp add: keeps_objects_def s3(7))
  have r3: "vector_data s3 ?rest = Some (drop nr args)" using nv(2) by (simp add: vector_data_def object_at_def s3(7))
  have "length (take nr args) = nr" "even (length (drop nr args))" using v(2,3) by simp_all
  then obtain ps s' where "method_entry (Key_mep (key_mep_number (nr + 1 + number_keywords specs))) ps1 s3 = Some (Enter iep ps s')"
    "take (nr + 1 + number_keywords specs) ps = take nr args @ ?rest # keyword_values specs (drop nr args)" "vector_data s' ?rest = Some (drop nr args)"
    "Pfunction s' = Pfunction s3" "Pnext_methods s' = Pnext_methods s3"
    using key_mep_ok [OF s3(9) m3 nr _ s3(2,3,4) r3 _ lt] by blast
  then show ?thesis using e s3(1,5,6) mep by (auto simp: then_method_entry_def)
qed

text \<open>
  C21: the two ways into a keyword method agree. Applying its method entry point to a vector of arguments that a call
  through the external entry point accepts enters the same code with the same required arguments and keyword values,
  with a vector of the same optional arguments, and with the registers set for the method; only the next methods are
  those of the application.
\<close>
theorem mep_agrees_with_xep:
  assumes "call_ok s" and "keyword_method s fn f iep specs" and "function_optionals_p f" and "function_number_required f = nr"
    and "mep f = Key_mep (key_mep_number (nr + 1 + number_keywords specs))" and "nr + 1 + number_keywords specs \<le> 64"
    and "vector_data s v = Some args" and "length args \<le> MAX_ARGUMENTS"
    and xep: "method_xep instancep (emit_xep_reference nr True rest_p (number_keywords specs)) fn (length args) args s = Some (Enter c ps s1)"
  shows "\<exists>qs s2. then_method_entry (primitive_mep_apply fn nm v s) = Some (Enter c qs s2) \<and> take nr qs = take nr ps \<and>
    take (number_keywords specs) (drop (nr + 1) qs) = take (number_keywords specs) (drop (nr + 1) ps) \<and>
    vector_data s2 (qs ! nr) = vector_data s1 (ps ! nr) \<and> Pfunction s2 = Pfunction s1 \<and> Pnext_methods s2 = nm"
proof -
  have spec: "keyword_call_spec instancep fn f iep specs args s (Some (Enter c ps s1))"
    using keyword_call_refines [OF assms(1,2,8), of instancep rest_p] assms(4,6) xep by simp
  then have n: "nr \<le> length args" "type_error instancep f (take nr args) = None" "even (length args - nr)"
    unfolding keyword_call_spec_def Let_def assms(4) by (auto split: if_splits option.splits)
  obtain rest where X: "c = iep" "take (nr + 1 + number_keywords specs) ps = take nr args @ rest # keyword_values specs (drop nr args)"
    "vector_data s1 rest = Some (drop nr args)" "Pfunction s1 = fn"
    using spec n unfolding keyword_call_spec_def Let_def assms(4) by auto
  obtain qs s2 rest' where Y: "then_method_entry (primitive_mep_apply fn nm v s) = Some (Enter iep qs s2)"
    "take (nr + 1 + number_keywords specs) qs = take nr args @ rest' # keyword_values specs (drop nr args)"
    "vector_data s2 rest' = Some (drop nr args)" "Pfunction s2 = fn" "Pnext_methods s2 = nm"
    using mep_apply_keyword [OF assms(1,2,4,3,5,7) n(1,3) assms(6), of nm] by blast
  have part: "take nr xs = take nr args \<and> xs ! nr = x \<and> take (number_keywords specs) (drop (nr + 1) xs) = keyword_values specs (drop nr args)"
    if "take (nr + 1 + number_keywords specs) xs = take nr args @ x # keyword_values specs (drop nr args)" for xs x
  proof (intro conjI)
    have "take nr (take (nr + 1 + number_keywords specs) xs) = take nr args" unfolding that using n(1) by simp
    then show "take nr xs = take nr args" by simp
    have "take (nr + 1 + number_keywords specs) xs ! nr = x" unfolding that using n(1) by (simp add: nth_append)
    then show "xs ! nr = x" by simp
    have "drop (nr + 1) (take (nr + 1 + number_keywords specs) xs) = keyword_values specs (drop nr args)" unfolding that using n(1) by simp
    then show "take (number_keywords specs) (drop (nr + 1) xs) = keyword_values specs (drop nr args)" by (simp add: take_drop add.commute)
  qed
  show ?thesis using Y X part [OF X(2)] part [OF Y(2)] by (intro exI [of _ qs] exI [of _ s2]) simp
qed

theorem mep_agrees_with_xep_witness:
  "\<exists>c ps s1 qs s2. method_xep (\<lambda>v t. v = DFALSE) (emit_xep_reference 2 True False (number_keywords [Ptr 30, Imm 5, Ptr 31, Imm 9]))
      (Ptr 10) (length sample_args) sample_args sample_state = Some (Enter c ps s1) \<and>
    then_method_entry (primitive_mep_apply (Ptr 10) DTRUE (Ptr 12) sample_state) = Some (Enter c qs s2) \<and> take 2 qs = take 2 ps \<and>
    take (number_keywords [Ptr 30, Imm 5, Ptr 31, Imm 9]) (drop (2 + 1) qs) = take (number_keywords [Ptr 30, Imm 5, Ptr 31, Imm 9]) (drop (2 + 1) ps) \<and>
    vector_data s2 (qs ! 2) = vector_data s1 (ps ! 2) \<and> Pfunction s2 = Pfunction s1 \<and> Pnext_methods s2 = DTRUE"
proof -
  let ?k = "[Ptr 30, Imm 5, Ptr 31, Imm 9]" and ?i = "\<lambda>v t. v = DFALSE"
  have "keyword_call_spec ?i (Ptr 10) sample_FN (Iep 7) ?k sample_args sample_state
    (method_xep ?i (emit_xep_reference (function_number_required sample_FN) True False (number_keywords ?k)) (Ptr 10) (length sample_args) sample_args sample_state)"
    by (rule keyword_call_refines [OF sample_ok sample_method]) (simp_all add: sample_args_def MAX_ARGUMENTS_def sample_required number_keywords_def)
  then obtain ps s1 where x: "method_xep ?i (emit_xep_reference 2 True False (number_keywords ?k)) (Ptr 10) (length sample_args) sample_args sample_state
      = Some (Enter (Iep 7) ps s1)"
    unfolding keyword_call_spec_def sample_required Let_def by (auto simp: sample_args_def type_error_def sample_FN_def)
  have v: "vector_data sample_state (Ptr 12) = Some sample_args" by (simp add: vector_data_def object_at_def sample_state_def sample_args_def)
  have n: "mep sample_FN = Key_mep (key_mep_number (2 + 1 + number_keywords ?k))" "2 + 1 + number_keywords ?k \<le> 64" "length sample_args \<le> MAX_ARGUMENTS"
    by (simp_all add: sample_FN_def key_mep_number_def number_keywords_def number_xeps_def sample_args_def MAX_ARGUMENTS_def)
  show ?thesis
    using mep_agrees_with_xep [OF sample_ok sample_method sample_required(2,1) n(1,2) v n(3) x, of DTRUE] x by blast
qed

subsection \<open>Methods without keywords\<close>

definition positional_call_spec :: "(D \<Rightarrow> D \<Rightarrow> bool) \<Rightarrow> D \<Rightarrow> FN \<Rightarrow> bool \<Rightarrow> D list \<Rightarrow> call_state \<Rightarrow> action option \<Rightarrow> bool" where
  "positional_call_spec instancep fn f rest_p args s r \<longleftrightarrow> (
     let n = length args; nr = function_number_required f in
     if (if rest_p then n < nr else n \<noteq> nr) then r = Some (Signal (Argument_count_error fn n))
     else case type_error instancep f (take nr args) of
       Some e \<Rightarrow> r = Some (Signal e)
     | None \<Rightarrow> \<exists>ps s' v. r = Some (Enter (mep f) ps s') \<and> keeps_objects s s' \<and>
         (if rest_p then take (nr + 1) ps = take nr args @ [v] \<and> vector_data s' v = Some (drop nr args) else take nr ps = args) \<and>
         (if rest_p \<or> nr < number_xeps then Pfunction s' = fn \<and> Pnext_methods s' = DFALSE
          else Pfunction s' = Pfunction s \<and> Pnext_methods s' = Pnext_methods s))"

lemma BASIC_CHECK_eq:
  assumes "n \<le> MAX_ARGUMENTS"
  shows "BASIC_REQUIRED_CALL_CHECK fn k n = Some (if n \<noteq> k then Some (Argument_count_error fn n) else None)"
    "BASIC_OPTIONAL_CALL_CHECK fn k n = Some (if n < k then Some (Argument_count_error fn n) else None)"
  using CALL_CHECK_ok [OF assms, of fn] by (simp_all add: BASIC_REQUIRED_CALL_CHECK_def BASIC_OPTIONAL_CALL_CHECK_def) (simp_all add: passed_def fails_def)

lemma xep_k_ok:
  assumes f: "FN_at s fn = Some f" "specializers_ok f" "function_number_required f = k" and n: "length args \<le> MAX_ARGUMENTS"
    and k: "k < number_xeps"
  shows "positional_call_spec instancep fn f False args s (xep_k instancep k fn (length args) args s)"
proof (cases "length args = k")
  case True
  have "TYPE_CHECK_ARGS instancep f k args = Some (type_error instancep f (take k args))" using f True by (intro TYPE_CHECK_ARGS_eq) simp_all
  then show ?thesis using True f(1) BASIC_CHECK_eq(1) [OF n, of fn k] k
    by (auto simp: positional_call_spec_def xep_k_def f(3) fixed_parameters_def guarded_Some function_iep_def set_registers_def keeps_objects_def Let_def
        split: option.splits)
next
  case False
  then show ?thesis using f(1) BASIC_CHECK_eq(1) [OF n, of fn k] by (simp add: positional_call_spec_def xep_k_def f(3) guarded_Some)
qed

lemma xep_n_ok:
  assumes ok: "call_ok s" and f: "FN_at s fn = Some f" "specializers_ok f" "function_number_required f = k" and n: "length args \<le> MAX_ARGUMENTS"
    and k: "number_xeps \<le> k" "k \<le> 64"
  shows "positional_call_spec instancep fn f False args s (xep_n instancep fn (length args) args s)"
proof -
  let ?b = "args @ drop (length args) (arguments s)"
  have tv: "transfer_varargs (length args) args (arguments s) = Some ?b" using n ok by (simp add: transfer_varargs_def call_ok_def)
  have lb: "length ?b = MAX_ARGUMENTS" using n ok by (simp add: call_ok_def)
  have "xep_n instancep fn (length args) args s =
    guarded (REQUIRED_CALL_CHECK instancep fn f k (length args) ?b) (iep_apply (function_iep f) (length args) ?b (s\<lparr>arguments := ?b\<rparr>))"
    using f(1,3) tv by (simp add: xep_n_def)
  note e = this [unfolded REQUIRED_CALL_CHECK_def guarded_also BASIC_CHECK_eq(1) [OF n] guarded_Some]
  show ?thesis
  proof (cases "length args = k")
    case True
    then have "TYPE_CHECK_ARGS instancep f (length args) ?b = Some (type_error instancep f (take (length args) ?b))" using f by (intro TYPE_CHECK_ARGS_eq) simp_all
    moreover obtain ps where ps: "spread k ?b = Some ps" "take k ps = take k ?b" using spread_ok [OF lb k(2)] by blast
    ultimately show ?thesis using True e k(1)
      by (auto simp: positional_call_spec_def f(3) guarded_Some function_iep_def iep_apply_def keeps_objects_def Let_def split: option.splits)
  next
    case False
    then show ?thesis using e by (simp add: positional_call_spec_def f(3))
  qed
qed

lemma rest_xep_k_ok:
  assumes ok: "call_ok s" and f: "FN_at s fn = Some f" "specializers_ok f" "function_number_required f = k" and n: "length args \<le> MAX_ARGUMENTS"
  shows "positional_call_spec instancep fn f True args s (rest_xep_k instancep k fn (length args) args s)"
proof -
  let ?b = "drop k args @ drop (length args - k) (arguments s)"
  let ?s = "s\<lparr>arguments := ?b\<rparr>"
  have tv: "transfer_varargs (length args - k) (drop k args) (arguments s) = Some ?b"
  proof -
    have "length args - k \<le> length (arguments s)" using n ok by (simp add: call_ok_def)
    then show ?thesis by (simp add: transfer_varargs_def)
  qed
  show ?thesis
  proof (cases "length args < k")
    case True
    then show ?thesis using f(1) tv BASIC_CHECK_eq(2) [OF n, of fn k] by (simp add: positional_call_spec_def rest_xep_k_def f(3) guarded_Some)
  next
    case False
    then have tc: "TYPE_CHECK_ARGS instancep f k (take k args) = Some (type_error instancep f (take k args))"
      using TYPE_CHECK_ARGS_eq [OF f(2), of k "take k args" instancep] f(3) by simp
    define s1 where "s1 = set_registers fn DFALSE ?s"
    have "\<exists>v s'. make_vector_from_buffer (length args - k) ?b s1 = Some (v, s') \<and> vector_data s' v = Some (drop k args) \<and> keeps_objects s s' \<and>
      Pfunction s' = fn \<and> Pnext_methods s' = DFALSE"
    proof (cases "length args = k")
      case True
      have "objects s1 = objects s" by (simp add: s1_def set_registers_def)
      moreover have "objects s 3 = Some (Vector [])" using ok by (simp add: call_ok_def)
      ultimately show ?thesis using True
        by (simp add: make_vector_from_buffer_def vector_data_def object_at_def Pempty_vectorVKi_def keeps_objects_def s1_def set_registers_def)
    next
      case False
      have "length args - k \<le> length ?b" by simp
      then have "make_vector_from_buffer (length args - k) ?b s1 = Some (new_object (Vector (drop k args)) s1)"
        using False \<open>\<not> length args < k\<close> by (simp only: make_vector_from_buffer_def) simp
      then show ?thesis
        by (simp add: new_object_def vector_data_def object_at_def keeps_objects_def s1_def set_registers_def)
    qed
    then obtain v s' where v: "make_vector_from_buffer (length args - k) ?b s1 = Some (v, s')" "vector_data s' v = Some (drop k args)"
      "keeps_objects s s'" "Pfunction s' = fn" "Pnext_methods s' = DFALSE" by blast
    have "rest_xep_k instancep k fn (length args) args s = guarded (Some (type_error instancep f (take k args))) (Some (Enter (mep f) (take k args @ [v]) s'))"
      using f(1) tv BASIC_CHECK_eq(2) [OF n, of fn k] tc v(1) False
      by (simp add: rest_xep_k_def guarded_Some fixed_parameters_def function_iep_def s1_def)
    then show ?thesis using False v by (auto simp: positional_call_spec_def f(3) guarded_Some Let_def split: option.splits)
  qed
qed

lemma rest_xep_n_ok:
  assumes ok: "call_ok s" and f: "FN_at s fn = Some f" "specializers_ok f" "function_number_required f = k" and n: "length args \<le> MAX_ARGUMENTS"
    and k: "k + 1 \<le> 64"
  shows "positional_call_spec instancep fn f True args s (rest_xep_n instancep fn (length args) args s)"
proof -
  define b where "b = args @ drop (length args) (arguments s)"
  define s0 where "s0 = s\<lparr>arguments := b\<rparr>"
  have tv: "transfer_varargs (length args) args (arguments s) = Some b" using n ok by (simp add: transfer_varargs_def call_ok_def b_def)
  note E = OPTIONAL_CALL_CHECK_def BASIC_CHECK_eq(2) [OF n]
  show ?thesis
  proof (cases "length args < k")
    case True
    then show ?thesis using f(1) tv by (simp add: positional_call_spec_def rest_xep_n_def f(3) E guarded_also guarded_Some)
  next
    case False
    then have tc: "TYPE_CHECK_ARGS instancep f k b = Some (type_error instancep f (take k args))"
      using TYPE_CHECK_ARGS_eq [OF f(2), of k b instancep] f(3) by (simp add: b_def)
    define v where "v = Ptr (next_object s)"
    define s1 where "s1 = s0\<lparr>objects := (objects s)(next_object s \<mapsto> Vector (drop k args)), next_object := Suc (next_object s)\<rparr>"
    have sv: "stack_vector_from_buffer (length args - k) (drop k b) s0 = Some (v, s1)"
    proof -
      have "length args - k \<le> length (drop k b)" by (simp add: b_def)
      then show ?thesis using False by (simp only: stack_vector_from_buffer_def new_object_def) (simp add: b_def s0_def s1_def v_def)
    qed
    have la: "length (new_arguments s) = 256" using ok by (simp add: call_ok_def MAX_ARGUMENTS_def)
    define new where "new = take k args @ drop k (new_arguments s)"
    define new' where "new' = new[k := v]"
    have cw: "COPY_WORDS (new_arguments s0) b 0 k = Some new" using False la k by (simp add: new_def b_def s0_def)
    have w: "wr new k v = Some new'" using la k by (simp add: wr_def new_def new'_def)
    have ln: "length new' = MAX_ARGUMENTS" using la k False by (simp add: MAX_ARGUMENTS_def new_def new'_def)
    have tk: "take (k + 1) new' = take k args @ [v]"
      using la k False by (simp add: new_def new'_def list_update_append take_Suc_conv_app_nth nth_append)
    obtain ps where ps: "spread (k + 1) new' = Some ps" "take (k + 1) ps = take k args @ [v]" using spread_ok [OF ln k] tk by auto
    define s2 where "s2 = set_registers fn DFALSE (s1\<lparr>new_arguments := new'\<rparr>)"
    have "rest_xep_n instancep fn (length args) args s = guarded (Some (type_error instancep f (take k args))) (Some (Enter (mep f) ps s2))"
      using f(1) tv tc sv cw w ps(1) False
      by (simp add: rest_xep_n_def f(3) E guarded_also guarded_Some iep_apply_def function_iep_def s2_def flip: s0_def split: option.splits)
    moreover have "vector_data s2 v = Some (drop k args)" "keeps_objects s s2" "Pfunction s2 = fn" "Pnext_methods s2 = DFALSE"
      by (simp_all add: vector_data_def object_at_def keeps_objects_def set_registers_def s2_def s1_def s0_def v_def)
    ultimately show ?thesis using False ps(2) by (auto simp: positional_call_spec_def f(3) guarded_Some Let_def split: option.splits)
  qed
qed

text \<open>
  C22: a call of a method without keywords through the external entry point that the back end gives it. A wrong number
  of arguments and a required argument of the wrong type are signalled; otherwise the method gets the required
  arguments, and behind them a vector of the others when it takes any. The registers are set for the method, but not
  by the entry point of methods with ten or more required parameters and no others, which leaves in them whatever
  function was called before.
\<close>
theorem positional_method_call:
  assumes "call_ok s" and "FN_at s fn = Some f" and "specializers_ok f" and "length args \<le> MAX_ARGUMENTS"
    and "function_number_required f + 1 \<le> 64"
  shows "positional_call_spec instancep fn f rest_p args s
    (method_xep instancep (emit_xep_reference (function_number_required f) False rest_p 0) fn (length args) args s)"
proof (cases rest_p)
  case True
  then show ?thesis using rest_xep_k_ok [OF assms(1-3) refl assms(4)] rest_xep_n_ok [OF assms(1-3) refl assms(4,5)] by (simp add: emit_xep_reference_def Let_def)
next
  case False
  then show ?thesis using xep_k_ok [OF assms(2,3) refl assms(4)] xep_n_ok [OF assms(1-3) refl assms(4)] assms(5) by (simp add: emit_xep_reference_def Let_def)
qed

text \<open>A closure with ten required parameters, called with ten arguments while another function is in the register.\<close>

definition ten_FN :: FN where
  "ten_FN = \<lparr>xep = Xep None, fn_signature = \<lparr>sig_properties = signature_make_properties 10 1 False False False False, sig_required = None\<rparr>,
     mep = Iep 8, kfn_part = None\<rparr>"

definition ten_state :: call_state where
  "ten_state = sample_state\<lparr>objects := (objects sample_state)(13 \<mapsto> Method ten_FN), Pfunction := Ptr 10\<rparr>"

theorem positional_method_call_witness:
  "positional_call_spec (\<lambda>v t. True) (Ptr 13) ten_FN False (replicate 10 DTRUE) ten_state
    (method_xep (\<lambda>v t. True) (emit_xep_reference (function_number_required ten_FN) False False 0) (Ptr 13) (length (replicate 10 DTRUE)) (replicate 10 DTRUE) ten_state) \<and>
   function_number_required ten_FN = 10 \<and> Pfunction ten_state \<noteq> Ptr 13"
proof (intro conjI)
  show n: "function_number_required ten_FN = 10"
    using signature_fields [of 10 1 "fn_signature ten_FN" False False False False]
    by (simp add: function_number_required_def ten_FN_def)
  show "Pfunction ten_state \<noteq> Ptr 13" by (simp add: ten_state_def)
  have "call_ok ten_state" using sample_ok by (auto simp: call_ok_def ten_state_def sample_state_def)
  moreover have "FN_at ten_state (Ptr 13) = Some ten_FN" by (simp add: FN_at_def object_at_def ten_state_def)
  moreover have "specializers_ok ten_FN" by (simp add: specializers_ok_def ten_FN_def)
  ultimately show "positional_call_spec (\<lambda>v t. True) (Ptr 13) ten_FN False (replicate 10 DTRUE) ten_state
    (method_xep (\<lambda>v t. True) (emit_xep_reference (function_number_required ten_FN) False False 0) (Ptr 13) (length (replicate 10 DTRUE)) (replicate 10 DTRUE) ten_state)"
    by (rule positional_method_call) (simp_all add: n MAX_ARGUMENTS_def)
qed

subsection \<open>Defects of the entry points\<close>

text \<open>
  The arguments that the functions of the library take, by the declarations before the entry points: the new value of
  a setter is the first.
\<close>

definition slotacc_declared :: "nat \<Rightarrow> D \<Rightarrow> D list \<Rightarrow> D list" where
  "slotacc_declared what am args = (if what \<in> {1, 3, 5} then hd args # am # tl args else am # args)"



end
