(* ===== verification/Dispatch.thy ===== *)
theory Dispatch
  imports Method_Calls
begin

text \<open>
  Generic function dispatch of the C run-time (\<^verbatim>\<open>run-time.c\<close>): the entry points of generic functions, the engine
  nodes that choose a method by the types of the arguments, and the functions that give a node its entry point. Up
  to seven implementation arguments are passed as such, more in one vector. The test of a type, the table lookup of a
  discriminator and the word that stands for the class of an object are code of the library, arguments here.
\<close>

subsection \<open>Engine nodes\<close>

abbreviation ENGINE_absent :: nat where "ENGINE_absent \<equiv> 0"
abbreviation ENGINE_inapplicable :: nat where "ENGINE_inapplicable \<equiv> 1"
abbreviation ENGINE_unkeyed_single_method :: nat where "ENGINE_unkeyed_single_method \<equiv> 2"
abbreviation ENGINE_implicit_keyed_single_method :: nat where "ENGINE_implicit_keyed_single_method \<equiv> 3"
abbreviation ENGINE_explicit_keyed_single_method :: nat where "ENGINE_explicit_keyed_single_method \<equiv> 4"
abbreviation ENGINE_unrestricted_keyed_single_method :: nat where "ENGINE_unrestricted_keyed_single_method \<equiv> 5"
abbreviation ENGINE_reserved_terminal_n_a :: nat where "ENGINE_reserved_terminal_n_a \<equiv> 6"
abbreviation ENGINE_profiling_cache_header :: nat where "ENGINE_profiling_cache_header \<equiv> 13"
abbreviation ENGINE_cache_header :: nat where "ENGINE_cache_header \<equiv> 14"
abbreviation ENGINE_ambiguous_methods :: nat where "ENGINE_ambiguous_methods \<equiv> 15"
abbreviation ENGINE_boxed_instance_slot_getter :: nat where "ENGINE_boxed_instance_slot_getter \<equiv> 16"
abbreviation ENGINE_boxed_instance_slot_setter :: nat where "ENGINE_boxed_instance_slot_setter \<equiv> 17"
abbreviation ENGINE_boxed_repeated_instance_slot_getter :: nat where "ENGINE_boxed_repeated_instance_slot_getter \<equiv> 18"
abbreviation ENGINE_boxed_repeated_instance_slot_setter :: nat where "ENGINE_boxed_repeated_instance_slot_setter \<equiv> 19"
abbreviation ENGINE_boxed_class_slot_getter :: nat where "ENGINE_boxed_class_slot_getter \<equiv> 20"
abbreviation ENGINE_boxed_class_slot_setter :: nat where "ENGINE_boxed_class_slot_setter \<equiv> 21"
abbreviation ENGINE_raw_byte_repeated_instance_slot_getter :: nat where "ENGINE_raw_byte_repeated_instance_slot_getter \<equiv> 22"
abbreviation ENGINE_raw_byte_repeated_instance_slot_setter :: nat where "ENGINE_raw_byte_repeated_instance_slot_setter \<equiv> 23"
abbreviation ENGINE_reserved_slot_a_getter :: nat where "ENGINE_reserved_slot_a_getter \<equiv> 24"
abbreviation ENGINE_reserved_slot_a_setter :: nat where "ENGINE_reserved_slot_a_setter \<equiv> 25"
abbreviation ENGINE_reserved_slot_b_getter :: nat where "ENGINE_reserved_slot_b_getter \<equiv> 26"
abbreviation ENGINE_reserved_slot_b_setter :: nat where "ENGINE_reserved_slot_b_setter \<equiv> 27"
abbreviation ENGINE_reserved_repeated_slot_a_getter :: nat where "ENGINE_reserved_repeated_slot_a_getter \<equiv> 28"
abbreviation ENGINE_reserved_repeated_slot_a_setter :: nat where "ENGINE_reserved_repeated_slot_a_setter \<equiv> 29"
abbreviation ENGINE_reserved_repeated_slot_b_getter :: nat where "ENGINE_reserved_repeated_slot_b_getter \<equiv> 30"
abbreviation ENGINE_reserved_repeated_slot_b_setter :: nat where "ENGINE_reserved_repeated_slot_b_setter \<equiv> 31"
abbreviation ENGINE_typecheck :: nat where "ENGINE_typecheck \<equiv> 32"
abbreviation ENGINE_if_type :: nat where "ENGINE_if_type \<equiv> 33"
abbreviation ENGINE_monomorphic :: nat where "ENGINE_monomorphic \<equiv> 42"

definition EPROPS_V_ENTRY_TYPE :: nat where "EPROPS_V_ENTRY_TYPE = 2"
definition EPROPS_M_ENTRY_TYPE :: mword where "EPROPS_M_ENTRY_TYPE = 0xfc"
definition DPROPS_V_ARGNUM :: nat where "DPROPS_V_ARGNUM = 8"
definition DPROPS_M_ARGNUM :: mword where "DPROPS_M_ARGNUM = 0xFF00"
definition DPROPS_V_NREQUIRED :: nat where "DPROPS_V_NREQUIRED = 16"
definition DPROPS_M_NREQUIRED :: mword where "DPROPS_M_NREQUIRED = 0xFF0000"
definition DPROPS_V_OPTIONALS :: nat where "DPROPS_V_OPTIONALS = 24"
definition DPROPS_M_OPTIONALS :: mword where "DPROPS_M_OPTIONALS = 0x1000000"
definition SLOTENGINE_V_INDEX :: nat where "SLOTENGINE_V_INDEX = 16"

definition entry_type :: "ENGINE \<Rightarrow> nat" where
  "entry_type e = unat (drop_bit EPROPS_V_ENTRY_TYPE (properties e AND EPROPS_M_ENTRY_TYPE))"

text \<open>The word behind a node: the nodes of a cache have a parent, a cache or a generic function.\<close>

partial_function (option) parent_gf :: "call_state \<Rightarrow> D \<Rightarrow> D option" where
  "parent_gf s d = do {
     b \<leftarrow> FUNCTIONP s d;
     if b then Some d
     else do {
       e \<leftarrow> ENGINE_at s d;
       p \<leftarrow> (case words e of Cache_header_node nxt parent \<Rightarrow> Some parent
            | Profiling_cache_header_node nxt parent c1 c2 \<Rightarrow> Some parent | _ \<Rightarrow> None);
       parent_gf s p
     }
   }"

definition parent_signature :: "call_state \<Rightarrow> D \<Rightarrow> SIG option" where
  "parent_signature s parent = do {
     g \<leftarrow> parent_gf s parent;
     gf \<leftarrow> GFN_at s g;
     Some (gf_signature gf)
   }"

text \<open>The continuation of a node with another node or method, for arguments that are spread and for a vector of them.\<close>

definition enter_engine :: "D \<Rightarrow> D \<Rightarrow> D list \<Rightarrow> call_state \<Rightarrow> action option" where
  "enter_engine e parent args s = do {
     c \<leftarrow> engine_entry_point s e;
     Some (Enter c args (set_registers e parent s))
   }"

definition enter_engine_n :: "D \<Rightarrow> D \<Rightarrow> D \<Rightarrow> call_state \<Rightarrow> action option" where
  "enter_engine_n e parent args s = do {
     b \<leftarrow> FUNCTIONP s e;
     if b then primitive_mep_apply_with_optionals e parent args s
     else enter_engine e parent [args] s
   }"

subsection \<open>Generic functions\<close>

text \<open>\<open>gf_iep_0\<close> to \<open>gf_iep_7\<close>, for as many arguments; and the one for a vector.\<close>

definition gf_iep_k :: "D list \<Rightarrow> call_state \<Rightarrow> action option" where
  "gf_iep_k args s = do {
     let gf = Pfunction s;
     g \<leftarrow> GFN_at s gf;
     enter_engine (engine g) gf args s
   }"

definition gf_iep_n :: "D \<Rightarrow> call_state \<Rightarrow> action option" where
  "gf_iep_n args s = do {
     let gf = Pfunction s;
     g \<leftarrow> GFN_at s gf;
     enter_engine_n (engine g) gf args s
   }"

definition gf_xep_k :: "nat \<Rightarrow> D \<Rightarrow> nat \<Rightarrow> D list \<Rightarrow> call_state \<Rightarrow> action option" where
  "gf_xep_k k fn n args s = do {
     let s = s\<lparr>Pfunction := fn\<rparr>;
     guarded (BASIC_REQUIRED_CALL_CHECK fn k n) (do {
       (ps, ap) \<leftarrow> fixed_parameters k args;
       gf_iep_k ps s
     })
   }"

definition gf_xep_n :: "D \<Rightarrow> nat \<Rightarrow> D list \<Rightarrow> call_state \<Rightarrow> action option" where
  "gf_xep_n fn n args s = do {
     g \<leftarrow> GFN_at s fn;
     let number_required = signature_number_required (gf_signature g);
     b \<leftarrow> transfer_varargs n args (arguments s);
     let s = s\<lparr>arguments := b, Pfunction := fn\<rparr>;
     guarded (BASIC_REQUIRED_CALL_CHECK fn number_required n) (do {
       (v, s) \<leftarrow> stack_vector_from_buffer number_required b s;
       gf_iep_n v s
     })
   }"

definition gf_optional_xep_k :: "nat \<Rightarrow> D \<Rightarrow> nat \<Rightarrow> D list \<Rightarrow> call_state \<Rightarrow> action option" where
  "gf_optional_xep_k k fn n args s =
     guarded (BASIC_OPTIONAL_CALL_CHECK fn k n) (do {
       let s = s\<lparr>Pfunction := fn\<rparr>;
       b \<leftarrow> transfer_varargs n args (a_buffer s);
       (rest, s) \<leftarrow> stack_vector_from_buffer (n - k) (drop k b) s;
       b \<leftarrow> wr b k rest;
       let s = s\<lparr>a_buffer := b\<rparr>;
       gf_iep_k (take (k + 1) b) s
     })"

definition gf_optional_xep_n :: "D \<Rightarrow> nat \<Rightarrow> D list \<Rightarrow> call_state \<Rightarrow> action option" where
  "gf_optional_xep_n fn n args s = do {
     g \<leftarrow> GFN_at s fn;
     let number_required = signature_number_required (gf_signature g);
     b \<leftarrow> transfer_varargs n args (arguments s);
     let s = s\<lparr>arguments := b\<rparr>;
     guarded (BASIC_OPTIONAL_CALL_CHECK fn number_required n) (do {
       (rest, s) \<leftarrow> stack_vector_from_buffer (n - number_required) (drop number_required b) s;
       let (v, s) = new_object (Vector (take number_required b @ [rest])) s;
       gf_iep_n v (s\<lparr>Pfunction := fn\<rparr>)
     })
   }"

definition generic_function_entrypoint :: "SIG \<Rightarrow> xep_code" where
  "generic_function_entrypoint sig = (
     let n = signature_number_required sig in
     if signature_optionals_p sig then Gf_optional_xep (if n \<le> 6 then Some n else None)
     else Gf_xep (if n \<le> 7 then Some n else None))"

definition primitive_set_generic_function_entrypoints :: "D \<Rightarrow> call_state \<Rightarrow> call_state option" where
  "primitive_set_generic_function_entrypoints fn s = do {
     g \<leftarrow> GFN_at s fn;
     p \<leftarrow> (case fn of Ptr p \<Rightarrow> Some p | Imm w \<Rightarrow> None);
     Some (s\<lparr>objects := (objects s)(p \<mapsto> Generic (g\<lparr>gf_xep := generic_function_entrypoint (gf_signature g)\<rparr>))\<rparr>)
   }"

text \<open>The call of an external entry point through its code pointer.\<close>

fun call_xep :: "(D \<Rightarrow> D \<Rightarrow> bool) \<Rightarrow> xep_code \<Rightarrow> D \<Rightarrow> nat \<Rightarrow> D list \<Rightarrow> call_state \<Rightarrow> action option" where
  "call_xep instancep (Gf_xep (Some k)) fn n args s = gf_xep_k k fn n args s"
| "call_xep instancep (Gf_xep None) fn n args s = gf_xep_n fn n args s"
| "call_xep instancep (Gf_optional_xep (Some k)) fn n args s = gf_optional_xep_k k fn n args s"
| "call_xep instancep (Gf_optional_xep None) fn n args s = gf_optional_xep_n fn n args s"
| "call_xep instancep x fn n args s = method_xep instancep x fn n args s"

text \<open>Applying an engine node to a vector of implementation arguments, of arguments, and of arguments with a last vector.\<close>

definition primitive_engine_node_apply_with_optionals :: "D \<Rightarrow> D \<Rightarrow> D \<Rightarrow> call_state \<Rightarrow> action option" where
  "primitive_engine_node_apply_with_optionals eng parent args s = do {
     c \<leftarrow> engine_entry_point s eng;
     a \<leftarrow> vector_data s args;
     let s = (set_registers eng parent s)\<lparr>Pargument_count := length a\<rparr>;
     if length a \<le> 7 then Some (Enter c a s)
     else do {
       b \<leftarrow> FUNCTIONP s eng;
       if b then primitive_mep_apply_with_optionals eng parent args s else Some (Enter c [args] s)
     }
   }"

definition primitive_engine_node_apply :: "D \<Rightarrow> D \<Rightarrow> D \<Rightarrow> call_state \<Rightarrow> action option" where
  "primitive_engine_node_apply eng parent a s = do {
     sig \<leftarrow> parent_signature s parent;
     args \<leftarrow> vector_data s a;
     let number_required = signature_number_required sig;
     if signature_optionals_p sig then do {
       aver (number_required \<le> length args);
       (rest, s) \<leftarrow> stack_vector_from_buffer (length args - number_required) (drop number_required args) s;
       let (new, s) = new_object (Vector (take number_required args @ [rest])) s;
       primitive_engine_node_apply_with_optionals eng parent new s
     } else primitive_engine_node_apply_with_optionals eng parent a s
   }"

definition primitive_engine_node_apply_spread :: "D \<Rightarrow> D \<Rightarrow> nat \<Rightarrow> D list \<Rightarrow> call_state \<Rightarrow> action option" where
  "primitive_engine_node_apply_spread eng parent n args s = do {
     b \<leftarrow> transfer_varargs n args (buffer s);
     let s = s\<lparr>buffer := b\<rparr>;
     aver (0 < n);
     v \<leftarrow> rd b (n - 1);
     vs \<leftarrow> vector_data s v;
     let (new, s) = new_object (Vector (take (n - 1) b @ vs)) s;
     primitive_engine_node_apply eng parent new s
   }"

text \<open>The call of a node with its arguments inline; the vector has the size that is in the register.\<close>

definition inline_invoke_engine_node :: "D \<Rightarrow> nat \<Rightarrow> D list \<Rightarrow> call_state \<Rightarrow> action option" where
  "inline_invoke_engine_node eng argcount args s = do {
     aver (argcount \<le> length args \<and> argcount \<le> Pargument_count s);
     let (v, s) = new_object (Vector (take argcount args @ replicate (Pargument_count s - argcount) NULL)) s;
     b \<leftarrow> FUNCTIONP s eng;
     if b then primitive_mep_apply_with_optionals eng (Pnext_methods s) v s
     else do { c \<leftarrow> engine_entry_point s eng; Some (Enter c [v] s) }
   }"

subsection \<open>Engine nodes that call the library\<close>

definition general_engine_node_k_engine :: "nat \<Rightarrow> D list \<Rightarrow> call_state \<Rightarrow> action option" where
  "general_engine_node_k_engine k args s = do {
     e \<leftarrow> ENGINE_at s (Pfunction s);
     (ps, ap) \<leftarrow> fixed_parameters k args;
     Some (Enter (Callback (callback e)) (ps @ [Pfunction s, Pnext_methods s]) s)
   }"

definition general_engine_node_n_engine :: "D list \<Rightarrow> call_state \<Rightarrow> action option" where
  "general_engine_node_n_engine args s = do {
     let parent = Pnext_methods s;
     e \<leftarrow> ENGINE_at s (Pfunction s);
     sig \<leftarrow> parent_signature s parent;
     if impargs sig > 7 then do {
       a1 \<leftarrow> rd args 0;
       Some (Enter (Callback (callback e)) [a1, Pfunction s, parent] s)
     } else do {
       (v, s') \<leftarrow> stack_vector_from_buffer (impargs sig) args s;
       Some (Enter (Callback (callback e)) [v, Pfunction s, parent] s')
     }
   }"

text \<open>The required and the optional arguments in one vector.\<close>

definition general_engine_node_spread_engine :: "D list \<Rightarrow> call_state \<Rightarrow> action option" where
  "general_engine_node_spread_engine args s = do {
     let parent = Pnext_methods s;
     e \<leftarrow> ENGINE_at s (Pfunction s);
     sig \<leftarrow> parent_signature s parent;
     let nreq = signature_number_required sig;
     let call = (\<lambda>v s. Some (Enter (Callback (callback e)) [v, Pfunction s, parent] s));
     if nreq \<noteq> impargs sig then
       (if impargs sig > 7 then do {
          a1 \<leftarrow> rd args 0;
          mepargdata \<leftarrow> vector_data s a1;
          optargvec \<leftarrow> rd mepargdata nreq;
          optargdata \<leftarrow> vector_data s optargvec;
          (v, s) \<leftarrow> Some (new_object (Vector (take nreq mepargdata @ optargdata)) s);
          call v s
        } else do {
          a1 \<leftarrow> rd args 0;
          b \<leftarrow> wr (arguments s) 0 a1;
          c \<leftarrow> transfer_varargs nreq (drop 1 args) (drop 1 b);
          let b = take 1 b @ c;
          let s = s\<lparr>arguments := b\<rparr>;
          optargvec \<leftarrow> rd b nreq;
          optargdata \<leftarrow> vector_data s optargvec;
          (v, s) \<leftarrow> Some (new_object (Vector (take nreq b @ optargdata)) s);
          call v s
        })
     else if impargs sig > 7 then do {
       a1 \<leftarrow> rd args 0;
       call a1 s
     } else do {
       (v, s) \<leftarrow> stack_vector_from_buffer nreq args s;
       call v s
     }
   }"

subsection \<open>Slots\<close>

definition UNBOUND_P :: "D \<Rightarrow> bool" where "UNBOUND_P x \<longleftrightarrow> x = KPunboundVKi"

definition slots :: "call_state \<Rightarrow> D \<Rightarrow> D list option" where
  "slots s d = (case object_at s d of Some (Instance ws bs) \<Rightarrow> Some ws | _ \<Rightarrow> None)"

definition primitive_initialized_slot_value :: "D \<Rightarrow> nat \<Rightarrow> call_state \<Rightarrow> D option" where
  "primitive_initialized_slot_value obj position s = do { ws \<leftarrow> slots s obj; rd ws position }"

definition primitive_slot_value_setter :: "D \<Rightarrow> D \<Rightarrow> nat \<Rightarrow> call_state \<Rightarrow> call_state option" where
  "primitive_slot_value_setter new_value obj position s = do {
     p \<leftarrow> (case obj of Ptr p \<Rightarrow> Some p | Imm w \<Rightarrow> None);
     (ws, bs) \<leftarrow> (case objects s p of Some (Instance ws bs) \<Rightarrow> Some (ws, bs) | _ \<Rightarrow> None);
     ws \<leftarrow> wr ws position new_value;
     Some (s\<lparr>objects := (objects s)(p \<mapsto> Instance ws bs)\<rparr>)
   }"

text \<open>Bytes begin at the first position behind the words.\<close>

definition primitive_byte_element :: "D \<Rightarrow> nat \<Rightarrow> nat \<Rightarrow> call_state \<Rightarrow> 8 word option" where
  "primitive_byte_element obj position index s = (case object_at s obj of
     Some (Instance ws bs) \<Rightarrow> do { aver (position = length ws); rd bs index } | _ \<Rightarrow> None)"

definition primitive_byte_element_setter :: "8 word \<Rightarrow> D \<Rightarrow> nat \<Rightarrow> nat \<Rightarrow> call_state \<Rightarrow> call_state option" where
  "primitive_byte_element_setter new_value obj position index s = do {
     p \<leftarrow> (case obj of Ptr p \<Rightarrow> Some p | Imm w \<Rightarrow> None);
     (ws, bs) \<leftarrow> (case objects s p of Some (Instance ws bs) \<Rightarrow> Some (ws, bs) | _ \<Rightarrow> None);
     aver (position = length ws);
     bs \<leftarrow> wr bs index new_value;
     Some (s\<lparr>objects := (objects s)(p \<mapsto> Instance ws bs)\<rparr>)
   }"

definition primitive_slot_value :: "D \<Rightarrow> nat \<Rightarrow> call_state \<Rightarrow> action option" where
  "primitive_slot_value obj position s = do {
     v \<leftarrow> primitive_initialized_slot_value obj position s;
     if UNBOUND_P v then Some (Signal (Unbound_instance_slot obj position)) else Some (Return v s)
   }"

text \<open>The number of repeated slots is the tagged word before the first.\<close>

definition primitive_repeated_instance_size :: "D \<Rightarrow> nat \<Rightarrow> call_state \<Rightarrow> int option" where
  "primitive_repeated_instance_size obj base_position s = do {
     aver (0 < base_position);
     w \<leftarrow> primitive_initialized_slot_value obj (base_position - 1) s;
     (case w of Imm w \<Rightarrow> Some (sint (R w)) | Ptr p \<Rightarrow> None)
   }"

definition slot_index :: "ENGINE \<Rightarrow> nat" where
  "slot_index e = unat (drop_bit SLOTENGINE_V_INDEX (properties e))"

definition repeated_index :: "D \<Rightarrow> int option" where
  "repeated_index idx = (case idx of Imm w \<Rightarrow> Some (sint (R w)) | Ptr p \<Rightarrow> None)"

definition boxed_instance_slot_getter_engine :: "D list \<Rightarrow> call_state \<Rightarrow> action option" where
  "boxed_instance_slot_getter_engine args s = do {
     e \<leftarrow> ENGINE_at s (Pfunction s);
     obj \<leftarrow> rd args 0;
     primitive_slot_value obj (slot_index e) s
   }"

definition boxed_instance_slot_setter_engine :: "D list \<Rightarrow> call_state \<Rightarrow> action option" where
  "boxed_instance_slot_setter_engine args s = do {
     e \<leftarrow> ENGINE_at s (Pfunction s);
     newval \<leftarrow> rd args 0;
     obj \<leftarrow> rd args 1;
     s \<leftarrow> primitive_slot_value_setter newval obj (slot_index e) s;
     Some (Return newval s)
   }"

definition boxed_repeated_instance_slot_getter_engine :: "D list \<Rightarrow> call_state \<Rightarrow> action option" where
  "boxed_repeated_instance_slot_getter_engine args s = do {
     e \<leftarrow> ENGINE_at s (Pfunction s);
     obj \<leftarrow> rd args 0;
     idx \<leftarrow> rd args 1;
     let baseidx = slot_index e;
     n \<leftarrow> primitive_repeated_instance_size obj baseidx s;
     ridx \<leftarrow> repeated_index idx;
     if ridx \<ge> 0 \<and> ridx < n then do {
       v \<leftarrow> primitive_initialized_slot_value obj (baseidx + nat ridx) s;
       if UNBOUND_P v then Some (Signal (Unbound_repeated_slot obj idx)) else Some (Return v s)
     } else Some (Signal (Repeated_slot_getter_index_out_of_range_trap obj idx))
   }"

definition boxed_repeated_instance_slot_setter_engine :: "D list \<Rightarrow> call_state \<Rightarrow> action option" where
  "boxed_repeated_instance_slot_setter_engine args s = do {
     e \<leftarrow> ENGINE_at s (Pfunction s);
     newval \<leftarrow> rd args 0;
     obj \<leftarrow> rd args 1;
     idx \<leftarrow> rd args 2;
     let baseidx = slot_index e;
     n \<leftarrow> primitive_repeated_instance_size obj baseidx s;
     ridx \<leftarrow> repeated_index idx;
     if ridx \<ge> 0 \<and> ridx < n then do {
       s \<leftarrow> primitive_slot_value_setter newval obj (baseidx + nat ridx) s;
       Some (Return newval s)
     } else Some (Signal (Repeated_slot_setter_index_out_of_range_trap newval obj idx))
   }"

definition raw_byte_repeated_instance_slot_getter_engine :: "D list \<Rightarrow> call_state \<Rightarrow> action option" where
  "raw_byte_repeated_instance_slot_getter_engine args s = do {
     e \<leftarrow> ENGINE_at s (Pfunction s);
     obj \<leftarrow> rd args 0;
     idx \<leftarrow> rd args 1;
     let baseidx = slot_index e;
     n \<leftarrow> primitive_repeated_instance_size obj baseidx s;
     ridx \<leftarrow> repeated_index idx;
     if ridx \<ge> 0 \<and> ridx < n then do {
       b \<leftarrow> primitive_byte_element obj baseidx (nat ridx) s;
       Some (Return (Imm (C (ucast b))) s)
     } else Some (Signal (Repeated_slot_getter_index_out_of_range_trap obj idx))
   }"

definition raw_byte_repeated_instance_slot_setter_engine :: "D list \<Rightarrow> call_state \<Rightarrow> action option" where
  "raw_byte_repeated_instance_slot_setter_engine args s = do {
     e \<leftarrow> ENGINE_at s (Pfunction s);
     newval \<leftarrow> rd args 0;
     obj \<leftarrow> rd args 1;
     idx \<leftarrow> rd args 2;
     let baseidx = slot_index e;
     n \<leftarrow> primitive_repeated_instance_size obj baseidx s;
     ridx \<leftarrow> repeated_index idx;
     if ridx \<ge> 0 \<and> ridx < n then do {
       w \<leftarrow> (case newval of Imm w \<Rightarrow> Some w | Ptr p \<Rightarrow> None);
       s \<leftarrow> primitive_byte_element_setter (ucast (R w)) obj baseidx (nat ridx) s;
       Some (Return newval s)
     } else Some (Signal (Repeated_slot_setter_index_out_of_range_trap newval obj idx))
   }"

subsection \<open>Single methods\<close>

definition single_method_engine_k :: "nat \<Rightarrow> D list \<Rightarrow> call_state \<Rightarrow> action option" where
  "single_method_engine_k k args s = do {
     e \<leftarrow> ENGINE_at s (Pfunction s);
     (meth, dat) \<leftarrow> (case words e of Single_method_node m d kws \<Rightarrow> Some (m, d) | _ \<Rightarrow> None);
     f \<leftarrow> FN_at s meth;
     (ps, ap) \<leftarrow> fixed_parameters k args;
     Some (Enter (mep f) ps (set_registers meth dat s))
   }"

definition single_method_engine_n :: "D list \<Rightarrow> call_state \<Rightarrow> action option" where
  "single_method_engine_n args s = do {
     e \<leftarrow> ENGINE_at s (Pfunction s);
     (meth, dat) \<leftarrow> (case words e of Single_method_node m d kws \<Rightarrow> Some (m, d) | _ \<Rightarrow> None);
     v \<leftarrow> rd args 0;
     primitive_mep_apply_with_optionals meth dat v s
   }"

text \<open>
  The check of the keywords that are supplied: false for an odd number of optional arguments, the first keyword that
  is not known, or null. The keywords are every \<open>skip\<close>-th element of a vector.
\<close>

fun every :: "nat \<Rightarrow> D list \<Rightarrow> D list" where
  "every skip [] = []"
| "every skip (x # xs) = x # every skip (drop (skip - 1) xs)"

fun check_explicit_loop :: "D list \<Rightarrow> D list \<Rightarrow> D" where
  "check_explicit_loop (k # v # opts) kwds = (if k \<in> set kwds then check_explicit_loop opts kwds else k)"
| "check_explicit_loop opts kwds = NULL"

definition check_explicit_kwds :: "D list \<Rightarrow> D list \<Rightarrow> nat \<Rightarrow> D" where
  "check_explicit_kwds optionals kwds skip =
     (if odd (length optionals) then DFALSE else check_explicit_loop optionals (every skip kwds))"

definition check_unrestricted_kwds :: "D list \<Rightarrow> D" where
  "check_unrestricted_kwds optionals = (if odd (length optionals) then DFALSE else NULL)"

text \<open>The vector of keywords for each kind of node, and the check.\<close>

definition node_keywords :: "keyed \<Rightarrow> FN \<Rightarrow> D \<Rightarrow> D option" where
  "node_keywords how f kws = (case how of
     Explicit \<Rightarrow> Some kws | Implicit \<Rightarrow> method_keyword_specifiers f | Unrestricted \<Rightarrow> Some DFALSE)"

definition CHECK_KEYWORDS :: "keyed \<Rightarrow> D list \<Rightarrow> FN \<Rightarrow> D \<Rightarrow> call_state \<Rightarrow> D option" where
  "CHECK_KEYWORDS how optionals f kws s = (case how of
     Unrestricted \<Rightarrow> Some (check_unrestricted_kwds optionals)
   | _ \<Rightarrow> do {
       k \<leftarrow> node_keywords how f kws;
       kwds \<leftarrow> vector_data s k;
       Some (check_explicit_kwds optionals kwds (if how = Explicit then 1 else 2))
     })"

definition INVALID_KEYWORD :: "keyed \<Rightarrow> D \<Rightarrow> D \<Rightarrow> D \<Rightarrow> FN \<Rightarrow> D \<Rightarrow> D \<Rightarrow> call_error option" where
  "INVALID_KEYWORD how gf argvec badkwd f kws e =
    (if badkwd = DFALSE then Some (Odd_number_of_keyword_args_trap argvec gf e)
     else do {
       k \<leftarrow> node_keywords how f kws;
       Some (Invalid_keyword_trap argvec gf e badkwd k (if how = Implicit then DTRUE else DFALSE))
     })"

definition keyed_single_method_engine_k :: "keyed \<Rightarrow> nat \<Rightarrow> D list \<Rightarrow> call_state \<Rightarrow> action option" where
  "keyed_single_method_engine_k how k args s = do {
     let parent = Pnext_methods s;
     let eng = Pfunction s;
     e \<leftarrow> ENGINE_at s eng;
     (meth, dat, kws) \<leftarrow> (case words e of Single_method_node m d kws \<Rightarrow> Some (m, d, kws) | _ \<Rightarrow> None);
     f \<leftarrow> FN_at s meth;
     (ps, ap) \<leftarrow> fixed_parameters (k + 1) args;
     optargvec \<leftarrow> rd ps k;
     optionals \<leftarrow> vector_data s optargvec;
     badkwd \<leftarrow> CHECK_KEYWORDS how optionals f kws s;
     if badkwd = NULL then Some (Enter (mep f) ps (set_registers meth dat s))
     else do {
       (argvec, s) \<leftarrow> Some (new_object (Vector ps) s);
       gf \<leftarrow> parent_gf s parent;
       err \<leftarrow> INVALID_KEYWORD how gf argvec badkwd f kws eng;
       Some (Signal err)
     }
   }"

definition keyed_single_method_engine_n :: "keyed \<Rightarrow> D list \<Rightarrow> call_state \<Rightarrow> action option" where
  "keyed_single_method_engine_n how args s = do {
     let parent = Pnext_methods s;
     let eng = Pfunction s;
     e \<leftarrow> ENGINE_at s eng;
     (meth, dat, kws) \<leftarrow> (case words e of Single_method_node m d kws \<Rightarrow> Some (m, d, kws) | _ \<Rightarrow> None);
     f \<leftarrow> FN_at s meth;
     mepargvec \<leftarrow> rd args 0;
     mepargs \<leftarrow> vector_data s mepargvec;
     aver (mepargs \<noteq> []);
     optargvec \<leftarrow> rd mepargs (length mepargs - 1);
     optionals \<leftarrow> vector_data s optargvec;
     badkwd \<leftarrow> CHECK_KEYWORDS how optionals f kws s;
     if badkwd = NULL then primitive_mep_apply_with_optionals meth dat mepargvec s
     else do {
       gf \<leftarrow> parent_gf s parent;
       err \<leftarrow> INVALID_KEYWORD how gf mepargvec badkwd f kws eng;
       Some (Signal err)
     }
   }"

subsection \<open>Cache headers\<close>

definition cache_header_engine_k :: "nat \<Rightarrow> D list \<Rightarrow> call_state \<Rightarrow> action option" where
  "cache_header_engine_k k args s = do {
     let eng = Pfunction s;
     e \<leftarrow> ENGINE_at s eng;
     nxt \<leftarrow> (case words e of Cache_header_node nxt parent \<Rightarrow> Some nxt | _ \<Rightarrow> None);
     (ps, ap) \<leftarrow> fixed_parameters k args;
     enter_engine nxt eng ps s
   }"

text \<open>For many arguments the profiling variant is the same code: it reads the words that both kinds have, and counts nothing.\<close>

definition cache_header_engine_n :: "D list \<Rightarrow> call_state \<Rightarrow> action option" where
  "cache_header_engine_n args s = do {
     let eng = Pfunction s;
     e \<leftarrow> ENGINE_at s eng;
     nxt \<leftarrow> (case words e of Cache_header_node nxt parent \<Rightarrow> Some nxt
            | Profiling_cache_header_node nxt parent c1 c2 \<Rightarrow> Some nxt | _ \<Rightarrow> None);
     v \<leftarrow> rd args 0;
     enter_engine_n nxt eng v s
   }"

definition profiling_cache_header_engine_k :: "nat \<Rightarrow> D list \<Rightarrow> call_state \<Rightarrow> action option" where
  "profiling_cache_header_engine_k k args s = do {
     let eng = Pfunction s;
     e \<leftarrow> ENGINE_at s eng;
     p \<leftarrow> (case eng of Ptr p \<Rightarrow> Some p | Imm w \<Rightarrow> None);
     (nxt, parent, c1, c2) \<leftarrow> (case words e of Profiling_cache_header_node nxt parent c1 c2 \<Rightarrow> Some (nxt, parent, c1, c2) | _ \<Rightarrow> None);
     (ps, ap) \<leftarrow> fixed_parameters k args;
     c \<leftarrow> engine_entry_point s nxt;
     let s = set_registers nxt eng s;
     let c1 = c1 + 4;
     let c2 = (if c1 = I 0 then c2 + 4 else c2);
     let s = s\<lparr>objects := (objects s)(p \<mapsto> Engine (e\<lparr>words := Profiling_cache_header_node nxt parent c1 c2\<rparr>))\<rparr>;
     Some (Enter c ps s)
   }"

definition cache_header_entry_point :: "nat \<Rightarrow> nat \<Rightarrow> code \<Rightarrow> code" where
  "cache_header_entry_point etype n old =
    (if n > 7 then old
     else if etype = ENGINE_cache_header then Cache_header_engine (Some n)
     else if etype = ENGINE_profiling_cache_header then Profiling_cache_header_engine (Some n)
     else old)"

definition set_entry_point :: "D \<Rightarrow> (code \<Rightarrow> code) \<Rightarrow> call_state \<Rightarrow> call_state option" where
  "set_entry_point eng f s = do {
     e \<leftarrow> ENGINE_at s eng;
     p \<leftarrow> (case eng of Ptr p \<Rightarrow> Some p | Imm w \<Rightarrow> None);
     Some (s\<lparr>objects := (objects s)(p \<mapsto> Engine (e\<lparr>entry_point := f (entry_point e)\<rparr>))\<rparr>)
   }"

definition primitive_enable_cache_header_engine_node :: "D \<Rightarrow> D \<Rightarrow> call_state \<Rightarrow> call_state option" where
  "primitive_enable_cache_header_engine_node eng genfun s = do {
     e \<leftarrow> ENGINE_at s eng;
     gf \<leftarrow> GFN_at s genfun;
     set_entry_point eng (cache_header_entry_point (entry_type e) (impargs (gf_signature gf))) s
   }"

definition primitive_invalidate_cache_engine_node :: "D \<Rightarrow> D \<Rightarrow> call_state \<Rightarrow> call_state option" where
  "primitive_invalidate_cache_engine_node eng genfun s = set_entry_point eng (\<lambda>old. General_engine_node_engine None) s"

subsection \<open>Discriminators\<close>

text \<open>
  The choice of a discriminator for an argument: \<open>lookup\<close> is the callback of a table, \<open>wrapper_key\<close> the tagged word
  that stands for the class of an object, and two nodes of the library are for what no method applies to.
\<close>

definition Dabsent_engine_nodeVKg :: D where "Dabsent_engine_nodeVKg = Ptr 6"
definition Dinapplicable_engine_nodeVKg :: D where "Dinapplicable_engine_nodeVKg = Ptr 7"

record library =
  instancep :: "D \<Rightarrow> D \<Rightarrow> bool"
  lookup :: "nat \<Rightarrow> D \<Rightarrow> D \<Rightarrow> D \<Rightarrow> D"
  wrapper_key :: "D \<Rightarrow> D"

definition discriminate :: "library \<Rightarrow> discriminator \<Rightarrow> D \<Rightarrow> D \<Rightarrow> D \<Rightarrow> call_state \<Rightarrow> D option" where
  "discriminate L kind arg parent eng s = do {
     e \<leftarrow> ENGINE_at s eng;
     (case kind of
        Discriminate \<Rightarrow> Some (lookup L (callback e) arg parent eng)
      | Monomorphic \<Rightarrow> (case words e of
          Monomorphic_node key nxt \<Rightarrow> Some (if wrapper_key L arg = key then nxt else Dabsent_engine_nodeVKg) | _ \<Rightarrow> None)
      | If_type \<Rightarrow> (case words e of
          If_type_node type thennode elsenode \<Rightarrow> Some (if instancep L arg type then thennode else elsenode) | _ \<Rightarrow> None)
      | Typecheck \<Rightarrow> (case words e of
          Typecheck_node type nxt \<Rightarrow> Some (if instancep L arg type then nxt else Dinapplicable_engine_nodeVKg) | _ \<Rightarrow> None))
   }"

text \<open>\<open>discriminate_engine_1_1\<close> to \<open>typecheck_discriminator_engine_7_7\<close>, by the argument, counted from one, and the number of arguments.\<close>

definition discriminator_engine_k :: "library \<Rightarrow> discriminator \<Rightarrow> nat \<Rightarrow> nat \<Rightarrow> D list \<Rightarrow> call_state \<Rightarrow> action option" where
  "discriminator_engine_k L kind argnum nargs args s = do {
     let parent = Pnext_methods s;
     (ps, ap) \<leftarrow> fixed_parameters nargs args;
     aver (0 < argnum);
     arg \<leftarrow> rd ps (argnum - 1);
     newengine \<leftarrow> discriminate L kind arg parent (Pfunction s) s;
     enter_engine newengine parent ps s
   }"

definition discriminator_engine_n :: "library \<Rightarrow> discriminator \<Rightarrow> D list \<Rightarrow> call_state \<Rightarrow> action option" where
  "discriminator_engine_n L kind args s = do {
     let parent = Pnext_methods s;
     e \<leftarrow> ENGINE_at s (Pfunction s);
     let argnum = unat (drop_bit 8 (properties e) AND 0xFF);
     v \<leftarrow> rd args 0;
     a \<leftarrow> vector_data s v;
     arg \<leftarrow> rd a argnum;
     newengine \<leftarrow> discriminate L kind arg parent (Pfunction s) s;
     enter_engine_n newengine parent v s
   }"

definition discriminator_argnum :: "ENGINE \<Rightarrow> nat" where
  "discriminator_argnum d = unat (drop_bit DPROPS_V_ARGNUM (properties d AND DPROPS_M_ARGNUM))"

definition discriminator_impargs :: "ENGINE \<Rightarrow> nat" where
  "discriminator_impargs d = unat (drop_bit DPROPS_V_NREQUIRED (properties d AND DPROPS_M_NREQUIRED))
     + unat (drop_bit DPROPS_V_OPTIONALS (properties d AND DPROPS_M_OPTIONALS))"

definition discriminator_kind :: "nat \<Rightarrow> discriminator" where
  "discriminator_kind etype = (if etype = ENGINE_if_type then If_type else if etype = ENGINE_typecheck then Typecheck
     else if etype = ENGINE_monomorphic then Monomorphic else Discriminate)"

text \<open>The entry point of a discriminator. With an argument number out of range the C variable is not set.\<close>

definition discriminator_handler :: "ENGINE \<Rightarrow> code option" where
  "discriminator_handler d = (
     let argnum = discriminator_argnum d; impargs = discriminator_impargs d; kind = discriminator_kind (entry_type d) in
     if impargs = 1 then Some (Discriminator_engine kind (Some (1, 1)))
     else if 2 \<le> impargs \<and> impargs \<le> 7 then (if argnum < impargs then Some (Discriminator_engine kind (Some (argnum + 1, impargs))) else None)
     else Some (Discriminator_engine kind None))"

definition primitive_initialize_discriminator :: "D \<Rightarrow> call_state \<Rightarrow> call_state option" where
  "primitive_initialize_discriminator d s = do {
     e \<leftarrow> ENGINE_at s d;
     h \<leftarrow> discriminator_handler e;
     set_entry_point d (\<lambda>old. h) s
   }"

subsection \<open>Entry points of engine nodes\<close>

definition small :: "nat \<Rightarrow> nat \<Rightarrow> nat option" where
  "small n m = (if m \<le> n then Some m else None)"

definition engine_node_handler :: "nat \<Rightarrow> SIG \<Rightarrow> code option" where
  "engine_node_handler etype sig = (
     let nreq = signature_number_required sig in
     if etype = ENGINE_absent then Some (General_engine_node_engine None)
     else if etype \<in> {ENGINE_ambiguous_methods, ENGINE_inapplicable} then Some General_engine_node_spread_engine
     else if etype = ENGINE_unkeyed_single_method then Some (Single_method_engine (small 7 (impargs sig)))
     else if etype = ENGINE_explicit_keyed_single_method then Some (Keyed_single_method_engine Explicit (small 6 nreq))
     else if etype = ENGINE_implicit_keyed_single_method then Some (Keyed_single_method_engine Implicit (small 6 nreq))
     else if etype = ENGINE_unrestricted_keyed_single_method then Some (Keyed_single_method_engine Unrestricted (small 6 nreq))
     else if etype = ENGINE_boxed_instance_slot_getter then Some Boxed_instance_slot_getter_engine
     else if etype = ENGINE_boxed_instance_slot_setter then Some Boxed_instance_slot_setter_engine
     else if etype = ENGINE_boxed_repeated_instance_slot_getter then Some Boxed_repeated_instance_slot_getter_engine
     else if etype = ENGINE_boxed_repeated_instance_slot_setter then Some Boxed_repeated_instance_slot_setter_engine
     else if etype = ENGINE_raw_byte_repeated_instance_slot_getter then Some Raw_byte_repeated_instance_slot_getter_engine
     else if etype = ENGINE_raw_byte_repeated_instance_slot_setter then Some Raw_byte_repeated_instance_slot_setter_engine
     else if etype \<in> {ENGINE_boxed_class_slot_getter, ENGINE_reserved_slot_a_getter, ENGINE_reserved_slot_b_getter} then Some (General_engine_node_engine (Some 1))
     else if etype \<in> {ENGINE_reserved_slot_a_setter, ENGINE_reserved_slot_b_setter, ENGINE_boxed_class_slot_setter, ENGINE_reserved_repeated_slot_a_getter, ENGINE_reserved_repeated_slot_b_getter}
     then Some (General_engine_node_engine (Some 2))
     else if etype \<in> {ENGINE_reserved_repeated_slot_a_setter, ENGINE_reserved_repeated_slot_b_setter} then Some (General_engine_node_engine (Some 3))
     else None)"

definition primitive_initialize_engine_node :: "D \<Rightarrow> call_state \<Rightarrow> call_state option" where
  "primitive_initialize_engine_node eng s = do {
     e \<leftarrow> ENGINE_at s eng;
     let etype = entry_type e;
     if etype \<in> {ENGINE_reserved_terminal_n_a..ENGINE_cache_header} then do {
       gf \<leftarrow> parent_gf s eng;
       primitive_enable_cache_header_engine_node eng gf s
     } else do {
       sig \<leftarrow> (if etype \<in> {ENGINE_unkeyed_single_method..ENGINE_unrestricted_keyed_single_method} then (case words e of
                 Single_method_node m d kws \<Rightarrow> map_option fn_signature (FN_at s m) | _ \<Rightarrow> None)
              else Some \<lparr>sig_properties = 0, sig_required = None\<rparr>);
       (case engine_node_handler etype sig of
          Some h \<Rightarrow> set_entry_point eng (\<lambda>old. h) s
        | None \<Rightarrow> Some s)
     }
   }"

subsection \<open>The machine\<close>

text \<open>One call of an entry point; and calls until compiled code or the library is entered, or the call is over.\<close>

fun engine_step :: "library \<Rightarrow> code \<Rightarrow> D list \<Rightarrow> call_state \<Rightarrow> action option" where
  "engine_step L (Key_mep (Some k)) args s = key_mep_k k args s"
| "engine_step L (Key_mep None) args s = key_mep_n args s"
| "engine_step L (Single_method_engine (Some k)) args s = single_method_engine_k k args s"
| "engine_step L (Single_method_engine None) args s = single_method_engine_n args s"
| "engine_step L (Keyed_single_method_engine how (Some k)) args s = keyed_single_method_engine_k how k args s"
| "engine_step L (Keyed_single_method_engine how None) args s = keyed_single_method_engine_n how args s"
| "engine_step L (Cache_header_engine (Some k)) args s = cache_header_engine_k k args s"
| "engine_step L (Cache_header_engine None) args s = cache_header_engine_n args s"
| "engine_step L (Profiling_cache_header_engine (Some k)) args s = profiling_cache_header_engine_k k args s"
| "engine_step L (Profiling_cache_header_engine None) args s = cache_header_engine_n args s"
| "engine_step L (Discriminator_engine kind (Some (i, m))) args s = discriminator_engine_k L kind i m args s"
| "engine_step L (Discriminator_engine kind None) args s = discriminator_engine_n L kind args s"
| "engine_step L (General_engine_node_engine (Some k)) args s = general_engine_node_k_engine k args s"
| "engine_step L (General_engine_node_engine None) args s = general_engine_node_n_engine args s"
| "engine_step L General_engine_node_spread_engine args s = general_engine_node_spread_engine args s"
| "engine_step L Boxed_instance_slot_getter_engine args s = boxed_instance_slot_getter_engine args s"
| "engine_step L Boxed_instance_slot_setter_engine args s = boxed_instance_slot_setter_engine args s"
| "engine_step L Boxed_repeated_instance_slot_getter_engine args s = boxed_repeated_instance_slot_getter_engine args s"
| "engine_step L Boxed_repeated_instance_slot_setter_engine args s = boxed_repeated_instance_slot_setter_engine args s"
| "engine_step L Raw_byte_repeated_instance_slot_getter_engine args s = raw_byte_repeated_instance_slot_getter_engine args s"
| "engine_step L Raw_byte_repeated_instance_slot_setter_engine args s = raw_byte_repeated_instance_slot_setter_engine args s"
| "engine_step L c args s = Some (Enter c args s)"

fun outside :: "code \<Rightarrow> bool" where
  "outside (Iep k) = True"
| "outside (Slotacc w) = True"
| "outside (Callback k) = True"
| "outside c = False"

partial_function (option) run_engine :: "library \<Rightarrow> action \<Rightarrow> action option" where
  "run_engine L r = (case r of
     Enter c args s \<Rightarrow> if outside c then Some r else do { r \<leftarrow> engine_step L c args s; run_engine L r }
   | Enter_xep x fn n args s \<Rightarrow> do { r \<leftarrow> call_xep (instancep L) x fn n args s; run_engine L r }
   | Signal e \<Rightarrow> Some r
   | Return d s \<Rightarrow> Some r)"

end
