(* ===== verification/Dispatch_Correct.thy ===== *)
theory Dispatch_Correct
  imports Dispatch
begin

text \<open>
  What generic function dispatch does: a graph of engine nodes stands for a tree of decisions, and the machine that
  calls entry points does what the tree decides. From it follow that calls end, and what becomes of a keyword method
  behind a generic function.
\<close>

subsection \<open>Decisions\<close>

text \<open>
  The tree of decisions that a graph of engine nodes stands for. Every node has its address; the branches of a
  discriminator are a function of the argument it looks at.
\<close>

datatype dtree =
    Method_leaf D | Single_leaf D D D | Keyed_leaf D keyed D D "D list" | Library_leaf D
  | Cache_node D dtree | Discriminator_node D nat "D \<Rightarrow> dtree"

datatype decision = Selects D D | Refuses D "D option" | Falls_to D D

fun unknown_keyword :: "D list \<Rightarrow> D list \<Rightarrow> D option" where
  "unknown_keyword (k # v # opts) keys = (if k \<in> set keys then unknown_keyword opts keys else Some k)"
| "unknown_keyword opts keys = None"

definition keyed_decision :: "D \<Rightarrow> keyed \<Rightarrow> D \<Rightarrow> D \<Rightarrow> D list \<Rightarrow> D list \<Rightarrow> decision" where
  "keyed_decision d how meth nm keys opts =
    (if odd (length opts) then Refuses d None
     else if how = Unrestricted then Selects meth nm
     else case unknown_keyword opts keys of Some k \<Rightarrow> Refuses d (Some k) | None \<Rightarrow> Selects meth nm)"

text \<open>The decision for arguments and optional arguments, from a node that was reached from a parent.\<close>

primrec decide :: "dtree \<Rightarrow> D \<Rightarrow> D list \<Rightarrow> D list \<Rightarrow> decision" where
  "decide (Method_leaf meth) parent args opts = Selects meth parent"
| "decide (Single_leaf d meth nm) parent args opts = Selects meth nm"
| "decide (Keyed_leaf d how meth nm keys) parent args opts = keyed_decision d how meth nm keys opts"
| "decide (Library_leaf d) parent args opts = Falls_to d parent"
| "decide (Cache_node d t) parent args opts = decide t d args opts"
| "decide (Discriminator_node d i branch) parent args opts = decide (branch (args ! i)) parent args opts"

text \<open>
  Objects up to the counters of profiling caches; states that keep them; and states that agree in the buffers too.
\<close>

fun forget_counts :: "engine_words \<Rightarrow> engine_words" where
  "forget_counts (Profiling_cache_header_node n p c1 c2) = Profiling_cache_header_node n p 0 0"
| "forget_counts w = w"

fun obj_shape :: "obj \<Rightarrow> obj" where
  "obj_shape (Engine e) = Engine (e\<lparr>words := forget_counts (words e)\<rparr>)"
| "obj_shape x = x"

definition fresh_addresses :: "call_state \<Rightarrow> bool" where
  "fresh_addresses s \<longleftrightarrow> (\<forall>p\<ge>next_object s. objects s p = None)"

definition retained :: "call_state \<Rightarrow> call_state \<Rightarrow> bool" where
  "retained s s' \<longleftrightarrow> (\<forall>d x. object_at s d = Some x \<longrightarrow> (\<exists>x'. object_at s' d = Some x' \<and> obj_shape x' = obj_shape x))"

definition alike :: "call_state \<Rightarrow> call_state \<Rightarrow> bool" where
  "alike s s' \<longleftrightarrow> retained s s' \<and> dom (objects s') = dom (objects s) \<and>
     s'\<lparr>objects := objects s, Pfunction := Pfunction s, Pnext_methods := Pnext_methods s\<rparr> = s"

lemma alike_refl [simp]: "alike s s"
  by (simp add: alike_def retained_def)

lemma retained_trans: "retained s s' \<Longrightarrow> retained s' s'' \<Longrightarrow> retained s s''"
  unfolding retained_def by (fastforce dest: spec)

lemma alike_retained: "alike s s' \<Longrightarrow> retained s s'"
  by (simp add: alike_def)

lemma alike_trans: "alike s s' \<Longrightarrow> alike s' s'' \<Longrightarrow> alike s s''"
  unfolding alike_def using retained_trans by (cases s; cases s'; cases s'') auto

lemma retained_object: "retained s s' \<Longrightarrow> object_at s d = Some x \<Longrightarrow> \<exists>x'. object_at s' d = Some x' \<and> obj_shape x' = obj_shape x"
  by (simp add: retained_def)

lemma alike_fields:
  assumes "alike s s'"
  shows "next_object s' = next_object s" "Pargument_count s' = Pargument_count s" "arguments s' = arguments s" "new_arguments s' = new_arguments s"
    "a_buffer s' = a_buffer s" "iep_a s' = iep_a s" "apply_buffer s' = apply_buffer s" "buffer s' = buffer s" "dom (objects s') = dom (objects s)"
  using assms unfolding alike_def by (cases s; cases s'; simp)+

lemma alike_fresh_addresses: "alike s s' \<Longrightarrow> fresh_addresses s \<Longrightarrow> fresh_addresses s'"
  using alike_fields(1,9) [of s s'] unfolding fresh_addresses_def by (metis domIff)

lemma alike_registers [simp]: "alike s (set_registers d p s)"
  by (cases s) (simp add: alike_def retained_def set_registers_def object_at_def split: D.splits)

lemma retained_new_object: "fresh_addresses s \<Longrightarrow> new_object x s = (d, s') \<Longrightarrow> retained s s'"
  by (auto simp: retained_def fresh_addresses_def new_object_def object_at_def split: D.splits)

lemma retained_vector: "retained s s' \<Longrightarrow> vector_data s d = Some xs \<Longrightarrow> vector_data s' d = Some xs"
proof -
  assume a: "retained s s'" "vector_data s d = Some xs"
  then have "object_at s d = Some (Vector xs)" by (simp add: vector_data_def split: option.splits obj.splits)
  then obtain x' where "object_at s' d = Some x'" "obj_shape x' = Vector xs" using retained_object [OF a(1)] by fastforce
  then show ?thesis by (cases x') (simp_all add: vector_data_def)
qed

lemma retained_FN: "retained s s' \<Longrightarrow> FN_at s d = Some f \<Longrightarrow> FN_at s' d = Some f"
proof -
  assume a: "retained s s'" "FN_at s d = Some f"
  then have "object_at s d = Some (Method f)" by (simp add: FN_at_def split: option.splits obj.splits)
  then obtain x' where "object_at s' d = Some x'" "obj_shape x' = Method f" using retained_object [OF a(1)] by fastforce
  then show ?thesis by (cases x') (simp_all add: FN_at_def)
qed

lemma retained_GFN: "retained s s' \<Longrightarrow> GFN_at s d = Some f \<Longrightarrow> GFN_at s' d = Some f"
proof -
  assume a: "retained s s'" "GFN_at s d = Some f"
  then have "object_at s d = Some (Generic f)" by (simp add: GFN_at_def split: option.splits obj.splits)
  then obtain x' where "object_at s' d = Some x'" "obj_shape x' = Generic f" using retained_object [OF a(1)] by fastforce
  then show ?thesis by (cases x') (simp_all add: GFN_at_def)
qed

text \<open>An engine node, its entry point, and its words up to counters.\<close>

definition node_at :: "call_state \<Rightarrow> D \<Rightarrow> ENGINE \<Rightarrow> bool" where
  "node_at s d e \<longleftrightarrow> (\<exists>e'. ENGINE_at s d = Some e' \<and> obj_shape (Engine e') = Engine e)"

lemma retained_node: "retained s s' \<Longrightarrow> node_at s d e \<Longrightarrow> node_at s' d e"
proof -
  assume a: "retained s s'" "node_at s d e"
  then obtain e' where e: "object_at s d = Some (Engine e')" "obj_shape (Engine e') = Engine e"
    by (auto simp: node_at_def ENGINE_at_def split: option.splits obj.splits)
  then obtain x' where "object_at s' d = Some x'" "obj_shape x' = Engine e" using retained_object [OF a(1)] by fastforce
  then show ?thesis by (cases x') (simp_all add: node_at_def ENGINE_at_def)
qed

lemma node_at_fields:
  "node_at s d e \<Longrightarrow> \<exists>e'. ENGINE_at s d = Some e' \<and> entry_point e' = entry_point e \<and> properties e' = properties e \<and> callback e' = callback e \<and>
     forget_counts (words e') = words e"
  by (auto simp: node_at_def)


lemma retained_FUNCTIONP: "retained s s' \<Longrightarrow> FUNCTIONP s d = Some b \<Longrightarrow> FUNCTIONP s' d = Some b"
proof -
  assume a: "retained s s'" "FUNCTIONP s d = Some b"
  then obtain x where x: "object_at s d = Some x" by (auto simp: FUNCTIONP_def split: option.splits)
  then obtain x' where "object_at s' d = Some x'" "obj_shape x' = obj_shape x" using retained_object [OF a(1)] by fastforce
  then show ?thesis using a(2) x by (cases x; cases x') (simp_all add: FUNCTIONP_def)
qed

lemma node_not_function: "node_at s d e \<Longrightarrow> FUNCTIONP s d = Some False"
  by (auto simp: node_at_def ENGINE_at_def FUNCTIONP_def split: option.splits obj.splits)

lemma node_entry: "node_at s d e \<Longrightarrow> engine_entry_point s d = Some (entry_point e)"
  by (auto simp: node_at_def ENGINE_at_def engine_entry_point_def split: option.splits obj.splits)

lemma method_function: "FN_at s d = Some f \<Longrightarrow> FUNCTIONP s d = Some True" "FN_at s d = Some f \<Longrightarrow> engine_entry_point s d = Some (mep f)"
  by (auto simp: FN_at_def FUNCTIONP_def engine_entry_point_def split: option.splits obj.splits)

text \<open>The parents of a node lead to its generic function in states that retain the objects.\<close>

lemma parent_words: "forget_counts w = forget_counts w' \<Longrightarrow>
  (case w of Cache_header_node nxt parent \<Rightarrow> Some parent | Profiling_cache_header_node nxt parent c1 c2 \<Rightarrow> Some parent | _ \<Rightarrow> None) =
  (case w' of Cache_header_node nxt parent \<Rightarrow> Some parent | Profiling_cache_header_node nxt parent c1 c2 \<Rightarrow> Some parent | _ \<Rightarrow> None)"
  by (cases w; cases w') auto

lemma retained_parent_gf:
  assumes "parent_gf s d = Some g" and a: "retained s s'"
  shows "parent_gf s' d = Some g"
proof -
  have "retained s s' \<longrightarrow> parent_gf s' d = Some g"
  proof (rule parent_gf.raw_induct [of "\<lambda>s d g. retained s s' \<longrightarrow> parent_gf s' d = Some g", OF _ assms(1)], intro impI)
  fix rec s d g
  assume 1: "\<And>s d g. rec s d = Some g \<Longrightarrow> retained s s' \<longrightarrow> parent_gf s' d = Some g"
    "do { b \<leftarrow> FUNCTIONP s d; if b then Some d else do { e \<leftarrow> ENGINE_at s d; p \<leftarrow> (case words e of Cache_header_node nxt parent \<Rightarrow> Some parent
            | Profiling_cache_header_node nxt parent c1 c2 \<Rightarrow> Some parent | _ \<Rightarrow> None); rec s p } } = Some g" "retained s s'"
  from 1(2) obtain b where b: "FUNCTIONP s d = Some b" by (auto simp: bind_eq_Some_conv)
  note b' = retained_FUNCTIONP [OF 1(3) b]
  show "parent_gf s' d = Some g"
  proof (cases b)
    case True
    then show ?thesis using 1(2) b b' by (subst parent_gf.simps) simp
  next
    case False
    then obtain e p where e: "ENGINE_at s d = Some e" and
      p: "(case words e of Cache_header_node nxt parent \<Rightarrow> Some parent | Profiling_cache_header_node nxt parent c1 c2 \<Rightarrow> Some parent | _ \<Rightarrow> None) = Some p"
      and r: "rec s p = Some g" using 1(2) b by (auto simp: bind_eq_Some_conv)
    have "object_at s d = Some (Engine e)" using e by (simp add: ENGINE_at_def split: option.splits obj.splits)
    then obtain x' where x': "object_at s' d = Some x'" "obj_shape x' = obj_shape (Engine e)" using retained_object [OF 1(3)] by blast
    then obtain e' where e': "x' = Engine e'" by (cases x') simp_all
    have w: "forget_counts (words e') = forget_counts (words e)" using x'(2) e' by (cases e; cases e') (simp add: ENGINE.defs)
    show ?thesis using b' False x'(1) e' 1(1) [OF r, rule_format, OF 1(3)] p parent_words [OF w]
      by (subst parent_gf.simps) (simp add: ENGINE_at_def)
  qed
  qed
  then show ?thesis using a by simp
qed

lemmas alike_vector = retained_vector [OF alike_retained]
lemmas alike_FN = retained_FN [OF alike_retained]
lemmas alike_GFN = retained_GFN [OF alike_retained]
lemmas alike_node = retained_node [OF alike_retained]
lemmas alike_parent_gf = retained_parent_gf [OF _ alike_retained]

subsection \<open>Graphs of engine nodes and trees of decisions\<close>

text \<open>
  A graph of nodes, entered with a parent, for a number \<open>m\<close> of implementation arguments, stands for a tree. Up to
  seven arguments the entry points have their number, beyond it they are those that take a vector.
\<close>

primrec address :: "dtree \<Rightarrow> D" where
  "address (Method_leaf d) = d"
| "address (Single_leaf d meth nm) = d"
| "address (Keyed_leaf d how meth nm keys) = d"
| "address (Library_leaf d) = d"
| "address (Cache_node d t) = d"
| "address (Discriminator_node d i branch) = d"

definition is_node :: "call_state \<Rightarrow> D \<Rightarrow> code \<Rightarrow> engine_words \<Rightarrow> bool" where
  "is_node s d c w \<longleftrightarrow> (\<exists>e. node_at s d e \<and> entry_point e = c \<and> words e = w)"

definition cache_at :: "call_state \<Rightarrow> D \<Rightarrow> nat \<Rightarrow> D \<Rightarrow> bool" where
  "cache_at s d m nxt \<longleftrightarrow>
     (\<exists>p. is_node s d (Cache_header_engine (small 7 m)) (Cache_header_node nxt p) \<or>
          is_node s d (Profiling_cache_header_engine (small 7 m)) (Profiling_cache_header_node nxt p 0 0))"

definition discriminator_at :: "call_state \<Rightarrow> D \<Rightarrow> discriminator \<Rightarrow> nat \<Rightarrow> nat \<Rightarrow> bool" where
  "discriminator_at s d kind i m \<longleftrightarrow>
     (\<exists>e. node_at s d e \<and> entry_point e = Discriminator_engine kind (if m \<le> 7 then Some (i + 1, m) else None) \<and>
          i < m \<and> unat (drop_bit 8 (properties e) AND 0xFF) = i)"

definition keyed_at :: "call_state \<Rightarrow> D \<Rightarrow> nat \<Rightarrow> keyed \<Rightarrow> D \<Rightarrow> D \<Rightarrow> D list \<Rightarrow> bool" where
  "keyed_at s d m how meth nm keys \<longleftrightarrow>
     (\<exists>kws f k kwds. 0 < m \<and> is_node s d (Keyed_single_method_engine how (small 6 (m - 1))) (Single_method_node meth nm kws) \<and>
        FN_at s meth = Some f \<and> node_keywords how f kws = Some k \<and>
        (how \<noteq> Unrestricted \<longrightarrow> vector_data s k = Some kwds \<and> keys = every (if how = Explicit then 1 else 2) kwds))"

primrec represents :: "dtree \<Rightarrow> library \<Rightarrow> call_state \<Rightarrow> D \<Rightarrow> nat \<Rightarrow> D \<Rightarrow> bool" where
  "represents (Method_leaf d) L s gf m parent \<longleftrightarrow> (\<exists>f. FN_at s d = Some f)"
| "represents (Single_leaf d meth nm) L s gf m parent \<longleftrightarrow>
    (\<exists>kws f. is_node s d (Single_method_engine (small 7 m)) (Single_method_node meth nm kws) \<and> FN_at s meth = Some f)"
| "represents (Keyed_leaf d how meth nm keys) L s gf m parent \<longleftrightarrow> keyed_at s d m how meth nm keys \<and> parent_gf s parent = Some gf \<and>
    (\<exists>g. GFN_at s gf = Some g \<and> signature_optionals_p (gf_signature g))"
| "represents (Library_leaf d) L s gf m parent \<longleftrightarrow>
    (\<exists>w. is_node s d (General_engine_node_engine None) w) \<and> parent_gf s parent = Some gf"
| "represents (Cache_node d t) L s gf m parent \<longleftrightarrow> cache_at s d m (address t) \<and> represents t L s gf m d"
| "represents (Discriminator_node d i branch) L s gf m parent \<longleftrightarrow>
    (\<exists>kind. discriminator_at s d kind i m \<and>
       (\<forall>arg. discriminate L kind arg parent d s = Some (address (branch arg)))) \<and> (\<forall>arg. represents (branch arg) L s gf m parent)"

text \<open>Going on at a node or a method, with the arguments spread or in a vector; and the call of a method.\<close>

definition proceed :: "library \<Rightarrow> nat \<Rightarrow> D \<Rightarrow> D \<Rightarrow> D list \<Rightarrow> D \<Rightarrow> call_state \<Rightarrow> action option" where
  "proceed L m d p ps v s = (if m \<le> 7 then enter_engine d p ps s else enter_engine_n d p v s) \<bind> run_engine L"

definition enter_method :: "nat \<Rightarrow> D \<Rightarrow> D \<Rightarrow> D list \<Rightarrow> D \<Rightarrow> call_state \<Rightarrow> action option" where
  "enter_method m meth nm ps v s =
     (if m \<le> 7 then do { f \<leftarrow> FN_at s meth; Some (Enter (mep f) ps (set_registers meth nm s)) }
      else primitive_mep_apply_with_optionals meth nm v s)"

definition passed_arguments :: "nat \<Rightarrow> D list \<Rightarrow> D \<Rightarrow> D list" where
  "passed_arguments m ps v = (if m \<le> 7 then ps else [v])"

lemma proceed_method: "FN_at s d = Some f \<Longrightarrow> proceed L m d p ps v s = enter_method m d p ps v s \<bind> run_engine L"
  by (simp add: proceed_def enter_method_def enter_engine_def enter_engine_n_def method_function)

lemma run_inside: "\<not> outside c \<Longrightarrow> run_engine L (Enter c args s) = engine_step L c args s \<bind> run_engine L"
  by (subst run_engine.simps) simp

lemma proceed_node:
  "node_at s d e \<Longrightarrow> \<not> outside (entry_point e) \<Longrightarrow>
   proceed L m d p ps v s = engine_step L (entry_point e) (passed_arguments m ps v) (set_registers d p s) \<bind> run_engine L"
  by (simp add: proceed_def enter_engine_def enter_engine_n_def node_entry node_not_function run_inside passed_arguments_def)

lemma set_registers_simps [simp]:
  "object_at (set_registers d p s) x = object_at s x" "FN_at (set_registers d p s) x = FN_at s x"
  "GFN_at (set_registers d p s) x = GFN_at s x"
  "ENGINE_at (set_registers d p s) x = ENGINE_at s x" "vector_data (set_registers d p s) x = vector_data s x"
  "FUNCTIONP (set_registers d p s) x = FUNCTIONP s x" "engine_entry_point (set_registers d p s) x = engine_entry_point s x"
  "Pfunction (set_registers d p s) = d" "Pnext_methods (set_registers d p s) = p"
  "set_registers d p (set_registers d' p' s) = set_registers d p s" "objects (set_registers d p s) = objects s"
  by (simp_all add: set_registers_def object_at_def FN_at_def GFN_at_def ENGINE_at_def vector_data_def FUNCTIONP_def engine_entry_point_def split: D.splits)

lemma proceed_cache:
  assumes "is_node s d (Cache_header_engine (small 7 m)) (Cache_header_node nxt pa)" and "length ps = m"
  shows "proceed L m d p ps v s = proceed L m nxt d ps v (set_registers d p s)"
proof -
  obtain e where e: "node_at s d e" "entry_point e = Cache_header_engine (small 7 m)" "words e = Cache_header_node nxt pa"
    using assms(1) by (auto simp: is_node_def)
  from node_at_fields [OF e(1)] obtain e' where e': "ENGINE_at s d = Some e'" "forget_counts (words e') = words e" by blast
  then have w: "words e' = Cache_header_node nxt pa" using e(3) by (cases "words e'") simp_all
  show ?thesis
  proof (cases "m \<le> 7")
    case True
    then show ?thesis using assms(2) e proceed_node [OF e(1), of L m p ps v] e' w
      by (simp add: small_def passed_arguments_def cache_header_engine_k_def fixed_parameters_def proceed_def)
  next
    case False
    then show ?thesis using assms(2) e proceed_node [OF e(1), of L m p ps v] e' w
      by (simp add: small_def passed_arguments_def cache_header_engine_n_def proceed_def rd_def)
  qed
qed

text \<open>A profiling cache goes on in a state with new counters.\<close>

lemma proceed_profiling_cache:
  assumes n: "is_node s d (Profiling_cache_header_engine (small 7 m)) (Profiling_cache_header_node nxt pa 0 0)"
    and "length ps = m" and nx: "engine_entry_point s nxt = Some c"
  shows "\<exists>s'. alike s s' \<and> proceed L m d p ps v s = proceed L m nxt d ps v s'"
proof -
  obtain e where e: "node_at s d e" "entry_point e = Profiling_cache_header_engine (small 7 m)" "words e = Profiling_cache_header_node nxt pa 0 0"
    using n by (auto simp: is_node_def)
  from node_at_fields [OF e(1)] obtain e' where e': "ENGINE_at s d = Some e'" "forget_counts (words e') = words e"
    "entry_point e' = entry_point e" by blast
  then obtain c1 c2 where w: "words e' = Profiling_cache_header_node nxt pa c1 c2" using e(3) by (cases "words e'") simp_all
  show ?thesis
  proof (cases "m \<le> 7")
    case False
    then have "proceed L m d p ps v s = proceed L m nxt d ps v (set_registers d p s)" using assms(2) e proceed_node [OF e(1), of L m p ps v] e' w
      by (simp add: small_def passed_arguments_def cache_header_engine_n_def proceed_def rd_def)
    then show ?thesis by (intro exI [of _ "set_registers d p s"]) simp
  next
    case True
    obtain q where q: "d = Ptr q" using e'(1) by (cases d) (simp_all add: ENGINE_at_def object_at_def)
    define e2 where "e2 = e'\<lparr>words := Profiling_cache_header_node nxt pa (c1 + 4) (if c1 + 4 = I 0 then c2 + 4 else c2)\<rparr>"
    define s2 where "s2 = s\<lparr>objects := (objects s)(q \<mapsto> Engine e2)\<rparr>"
    have ob: "object_at s d = Some (Engine e')" using e'(1) by (simp add: ENGINE_at_def split: option.splits obj.splits)
    have sh: "obj_shape (Engine e2) = obj_shape (Engine e')" by (simp add: e2_def w)
    have al: "alike s s2" using ob sh unfolding alike_def retained_def
      by (cases s) (auto simp: s2_def object_at_def q split: D.splits)
    have ep: "engine_entry_point s2 nxt = Some c"
      using nx ob by (auto simp: engine_entry_point_def s2_def object_at_def q e2_def split: D.splits)
    have st: "(set_registers nxt d s)\<lparr>objects := (objects s)(q \<mapsto> Engine e2)\<rparr> = set_registers nxt d s2"
      by (simp add: set_registers_def s2_def)
    have "profiling_cache_header_engine_k m ps (set_registers d p s) = Some (Enter c ps (set_registers nxt d s2))"
      using assms(2) e'(1) w nx q unfolding profiling_cache_header_engine_k_def st [symmetric]
      by (simp add: fixed_parameters_def e2_def Let_def)
    then have "proceed L m d p ps v s = proceed L m nxt d ps v (set_registers d p s2)"
      using True e(2) proceed_node [OF e(1), of L m p ps v] ep by (simp add: small_def passed_arguments_def proceed_def enter_engine_def)
    then show ?thesis using alike_trans [OF al alike_registers] by blast
  qed
qed

lemma proceed_single:
  assumes "is_node s d (Single_method_engine (small 7 m)) (Single_method_node meth nm kws)" and f: "FN_at s meth = Some f" and "length ps = m"
  shows "proceed L m d p ps v s = enter_method m meth nm ps v (set_registers d p s) \<bind> run_engine L"
proof -
  obtain e where e: "node_at s d e" "entry_point e = Single_method_engine (small 7 m)" "words e = Single_method_node meth nm kws"
    using assms(1) by (auto simp: is_node_def)
  from node_at_fields [OF e(1)] obtain e' where e': "ENGINE_at s d = Some e'" "forget_counts (words e') = words e" by blast
  then have w: "words e' = Single_method_node meth nm kws" using e(3) by (cases "words e'") simp_all
  show ?thesis
    using assms(3) e(2) proceed_node [OF e(1), of L m p ps v] e'(1) w f
    by (cases "m \<le> 7") (simp_all add: small_def passed_arguments_def single_method_engine_k_def single_method_engine_n_def fixed_parameters_def enter_method_def rd_def)
qed

lemma retained_discriminate:
  assumes "node_at s d e" and "retained s s'" and "discriminate L kind arg parent d s = Some x"
  shows "discriminate L kind arg parent d s' = Some x"
proof -
  from node_at_fields [OF assms(1)] obtain e1 where 1: "ENGINE_at s d = Some e1" "callback e1 = callback e" "forget_counts (words e1) = words e" by blast
  from node_at_fields [OF retained_node [OF assms(2,1)]] obtain e2 where
    2: "ENGINE_at s' d = Some e2" "callback e2 = callback e" "forget_counts (words e2) = words e" by blast
  have "forget_counts (words e2) = forget_counts (words e1)" using 1 2 by simp
  then show ?thesis using assms(3) 1(1,2) 2(1,2)
    by (cases "words e1"; cases "words e2"; cases kind) (simp_all add: discriminate_def)
qed

lemmas discriminate_node = retained_discriminate [OF _ alike_retained]

lemma proceed_discriminator:
  assumes n: "discriminator_at s d kind i m" and "length ps = m" and "7 < m \<longrightarrow> vector_data s v = Some ps"
    and x: "discriminate L kind (ps ! i) p d s = Some x"
  shows "proceed L m d p ps v s = proceed L m x p ps v (set_registers d p s)"
proof -
  obtain e where e: "node_at s d e" "entry_point e = Discriminator_engine kind (if m \<le> 7 then Some (i + 1, m) else None)" "i < m"
    "unat (drop_bit 8 (properties e) AND 0xFF) = i"
    using n by (auto simp: discriminator_at_def)
  from node_at_fields [OF e(1)] obtain e' where e': "ENGINE_at s d = Some e'" "properties e' = properties e" by blast
  have x': "discriminate L kind (ps ! i) p d (set_registers d p s) = Some x"
    by (rule discriminate_node [OF e(1) alike_registers x])
  show ?thesis
    using assms(2,3) e(2,3,4) proceed_node [OF e(1), of L m p ps v] e' x'
    by (cases "m \<le> 7") (simp_all add: passed_arguments_def discriminator_engine_k_def discriminator_engine_n_def fixed_parameters_def proceed_def rd_def)
qed

lemma check_explicit_loop_eq: "check_explicit_loop opts keys = (case unknown_keyword opts keys of None \<Rightarrow> NULL | Some k \<Rightarrow> k)"
  by (induction opts keys rule: unknown_keyword.induct) simp_all

lemma unknown_keyword_supplied: "unknown_keyword opts keys = Some k \<Longrightarrow> k \<in> set (map fst (pairs opts))"
  by (induction opts keys rule: unknown_keyword.induct) (auto split: if_splits)

text \<open>The decided that a decision asks for.\<close>

fun decided :: "library \<Rightarrow> D \<Rightarrow> nat \<Rightarrow> D list \<Rightarrow> D \<Rightarrow> call_state \<Rightarrow> decision \<Rightarrow> action option \<Rightarrow> bool" where
  "decided L gf m ps v s (Selects meth nm) r \<longleftrightarrow> (\<exists>s'. alike s s' \<and> r = enter_method m meth nm ps v s' \<bind> run_engine L)"
| "decided L gf m ps v s (Refuses d None) r \<longleftrightarrow> (\<exists>argvec. r = Some (Signal (Odd_number_of_keyword_args_trap argvec gf d)))"
| "decided L gf m ps v s (Refuses d (Some k)) r \<longleftrightarrow> (\<exists>argvec keys implicit. r = Some (Signal (Invalid_keyword_trap argvec gf d k keys implicit)))"
| "decided L gf m ps v s (Falls_to d parent) r \<longleftrightarrow>
    (\<exists>e w s'. ENGINE_at s' d = Some e \<and> vector_data s' w = Some ps \<and> retained s s' \<and> r = Some (Enter (Callback (callback e)) [w, d, parent] s'))"

definition plain_keywords :: "D list \<Rightarrow> bool" where
  "plain_keywords opts \<longleftrightarrow> NULL \<notin> set (map fst (pairs opts)) \<and> DFALSE \<notin> set (map fst (pairs opts))"


lemma CHECK_KEYWORDS_eq:
  assumes "node_keywords how f kws = Some k" and "how \<noteq> Unrestricted \<longrightarrow> vector_data s k = Some kwds \<and> keys = every (if how = Explicit then 1 else 2) kwds"
  shows "CHECK_KEYWORDS how opts f kws s = Some (
    if odd (length opts) then DFALSE else if how = Unrestricted then NULL else case unknown_keyword opts keys of None \<Rightarrow> NULL | Some k \<Rightarrow> k)"
  using assms by (cases how) (simp_all add: CHECK_KEYWORDS_def check_unrestricted_kwds_def check_explicit_kwds_def check_explicit_loop_eq)

lemma run_ends [simp]:
  "run_engine L (Signal e) = Some (Signal e)" "run_engine L (Return d s) = Some (Return d s)"
  "outside c \<Longrightarrow> run_engine L (Enter c args s) = Some (Enter c args s)"
  by (subst run_engine.simps, simp)+

lemma keyed_decided:
  assumes k: "node_keywords how f kws = Some k" and plain: "plain_keywords opts"
    and bad: "badkwd = (if odd (length opts) then DFALSE else if how = Unrestricted then NULL else case unknown_keyword opts keys of None \<Rightarrow> NULL | Some k \<Rightarrow> k)"
    and r: "badkwd = NULL \<Longrightarrow> decided L gf m ps v s (Selects meth nm) r"
      "badkwd \<noteq> NULL \<Longrightarrow> r = INVALID_KEYWORD how gf argvec badkwd f kws d \<bind> (\<lambda>err. Some (Signal err))"
  shows "decided L gf m ps v s (keyed_decision d how meth nm keys opts) r"
proof -
  have nf: "DFALSE \<noteq> NULL" by (simp add: DFALSE_def NULL_def)
  consider (odd) "odd (length opts)" | (unres) "even (length opts)" "how = Unrestricted" | (none) "even (length opts)" "how \<noteq> Unrestricted" "unknown_keyword opts keys = None"
    | (some) q where "even (length opts)" "how \<noteq> Unrestricted" "unknown_keyword opts keys = Some q" by (cases "unknown_keyword opts keys") blast+
  then show ?thesis
  proof cases
    case odd
    then show ?thesis using bad r(2) nf by (simp add: keyed_decision_def INVALID_KEYWORD_def)
  next
    case unres
    then show ?thesis using bad r(1) by (simp add: keyed_decision_def)
  next
    case none
    then show ?thesis using bad r(1) by (simp add: keyed_decision_def)
  next
    case some
    have "q \<noteq> NULL" "q \<noteq> DFALSE" using unknown_keyword_supplied [OF some(3)] plain unfolding plain_keywords_def by metis+
    then show ?thesis using some bad r(2) k by (simp add: keyed_decision_def INVALID_KEYWORD_def)
  qed
qed

lemma proceed_keyed:
  assumes n: "keyed_at s d m how meth nm keys" and gf: "parent_gf s p = Some gf" and l: "length ps = m" and v: "7 < m \<longrightarrow> vector_data s v = Some ps"
    and opts: "vector_data s (last ps) = Some opts" and plain: "plain_keywords opts" and fr: "fresh_addresses s"
  shows "decided L gf m ps v s (keyed_decision d how meth nm keys opts) (proceed L m d p ps v s)"
proof -
  obtain kws f k kwds where m: "0 < m" and nd: "is_node s d (Keyed_single_method_engine how (small 6 (m - 1))) (Single_method_node meth nm kws)"
    and f: "FN_at s meth = Some f" and k: "node_keywords how f kws = Some k"
    and keys: "how \<noteq> Unrestricted \<longrightarrow> vector_data s k = Some kwds \<and> keys = every (if how = Explicit then 1 else 2) kwds"
    using n unfolding keyed_at_def by blast
  obtain e where e: "node_at s d e" "entry_point e = Keyed_single_method_engine how (small 6 (m - 1))" "words e = Single_method_node meth nm kws"
    using nd by (auto simp: is_node_def)
  from node_at_fields [OF e(1)] obtain e' where e': "ENGINE_at s d = Some e'" "forget_counts (words e') = words e" by blast
  then have w: "words e' = Single_method_node meth nm kws" using e(3) by (cases "words e'") simp_all
  define badkwd where "badkwd = (if odd (length opts) then DFALSE else if how = Unrestricted then NULL else case unknown_keyword opts keys of None \<Rightarrow> NULL | Some k \<Rightarrow> k)"
  let ?s = "set_registers d p s"
  have ck: "CHECK_KEYWORDS how opts f kws ?s = Some badkwd"
    unfolding badkwd_def by (rule CHECK_KEYWORDS_eq [OF k, where kwds = kwds]) (use keys in simp)
  have la: "last ps = ps ! (m - 1)" using l m by (subst last_conv_nth) auto
  have pg: "parent_gf ?s p = Some gf" by (rule alike_parent_gf [OF gf alike_registers])
  obtain argvec s2 where no: "new_object (Vector ps) ?s = (argvec, s2)" by (cases "new_object (Vector ps) ?s")
  have pg2: "parent_gf s2 p = Some gf"
    using retained_parent_gf [OF pg retained_new_object [OF _ no]] alike_fresh_addresses [OF alike_registers fr] by blast
  have step: "proceed L m d p ps v s = (if badkwd = NULL then enter_method m meth nm ps v ?s \<bind> run_engine L
    else INVALID_KEYWORD how gf (if m \<le> 7 then argvec else v) badkwd f kws d \<bind> (\<lambda>err. Some (Signal err)))"
  proof (cases "m \<le> 7")
    case True
    then have a: "small 6 (m - 1) = Some (m - 1)" "m - 1 + 1 = m" using m by (auto simp: small_def)
    have "keyed_single_method_engine_k how (m - 1) ps ?s = (if badkwd = NULL then enter_method m meth nm ps v ?s
      else INVALID_KEYWORD how gf argvec badkwd f kws d \<bind> (\<lambda>err. Some (Signal err)))"
      using True l m e'(1) w f opts la ck no pg2
      by (simp add: keyed_single_method_engine_k_def fixed_parameters_def rd_def enter_method_def a)
    then show ?thesis using proceed_node [OF e(1), of L m p ps v] e(2) a(1) True
      by (cases "badkwd = NULL"; cases "INVALID_KEYWORD how gf argvec badkwd f kws d") (simp_all add: passed_arguments_def)
  next
    case False
    then have a: "small 6 (m - 1) = None" by (auto simp: small_def)
    have ne: "ps \<noteq> []" using l m by auto
    have "keyed_single_method_engine_n how [v] ?s = (if badkwd = NULL then enter_method m meth nm ps v ?s
      else INVALID_KEYWORD how gf v badkwd f kws d \<bind> (\<lambda>err. Some (Signal err)))"
      using False l m e'(1) w f opts la ck pg v ne
      by (simp add: keyed_single_method_engine_n_def rd_def enter_method_def)
    then show ?thesis using proceed_node [OF e(1), of L m p ps v] e(2) a(1) False
      by (cases "badkwd = NULL"; cases "INVALID_KEYWORD how gf v badkwd f kws d") (simp_all add: passed_arguments_def)
  qed
  show ?thesis
  proof (rule keyed_decided [OF k plain badkwd_def])
    show "badkwd = NULL \<Longrightarrow> decided L gf m ps v s (Selects meth nm) (proceed L m d p ps v s)"
      unfolding step by (auto intro!: exI [of _ ?s])
    show "badkwd \<noteq> NULL \<Longrightarrow> proceed L m d p ps v s = INVALID_KEYWORD how gf (if m \<le> 7 then argvec else v) badkwd f kws d \<bind> (\<lambda>err. Some (Signal err))"
      unfolding step by simp
  qed
qed


text \<open>A node of the library gets the arguments in a vector, itself, and its parent.\<close>

lemma proceed_library:
  assumes n: "is_node s d (General_engine_node_engine None) w" and gf: "parent_gf s p = Some gf" and g: "GFN_at s gf = Some g"
    and m: "impargs (gf_signature g) = m" and l: "length ps = m" and v: "7 < m \<longrightarrow> vector_data s v = Some ps" and fr: "fresh_addresses s"
  shows "decided L gf m ps v s (Falls_to d p) (proceed L m d p ps v s)"
proof -
  obtain e where e: "node_at s d e" "entry_point e = General_engine_node_engine None" using n by (auto simp: is_node_def)
  from node_at_fields [OF e(1)] obtain e' where e': "ENGINE_at s d = Some e'" by blast
  let ?s = "set_registers d p s"
  have ps: "parent_signature ?s p = Some (gf_signature g)"
    using alike_parent_gf [OF gf alike_registers] g by (simp add: parent_signature_def)
  show ?thesis
  proof (cases "m \<le> 7")
    case True
    obtain x s2 where no: "new_object (Vector ps) ?s = (x, s2)" by (cases "new_object (Vector ps) ?s")
    have al: "retained ?s s2" by (rule retained_new_object [OF alike_fresh_addresses [OF alike_registers fr] no])
    have x: "vector_data s2 x = Some ps" using no by (auto simp: new_object_def vector_data_def object_at_def)
    obtain e2 where e2: "ENGINE_at s2 d = Some e2" "callback e2 = callback e'"
      using node_at_fields [OF retained_node [OF al alike_node [OF alike_registers e(1)]]] node_at_fields [OF e(1)] e' by auto
    have "proceed L m d p ps v s = Some (Enter (Callback (callback e')) [x, d, p] s2)"
      using proceed_node [OF e(1), of L m p ps v] e(2) e' ps m True l no
      by (simp add: passed_arguments_def general_engine_node_n_engine_def stack_vector_from_buffer_def)
    then show ?thesis using e2 x retained_trans [OF alike_retained [OF alike_registers] al] by auto
  next
    case False
    then have "proceed L m d p ps v s = Some (Enter (Callback (callback e')) [v, d, p] ?s)"
      using proceed_node [OF e(1), of L m p ps v] e(2) e' ps m l
      by (simp add: passed_arguments_def general_engine_node_n_engine_def rd_def)
    then show ?thesis using e' v False by (auto intro!: exI [of _ e'] exI [of _ v] exI [of _ ?s] alike_retained)
  qed
qed

text \<open>What a state represents, states that keep its objects represent.\<close>

lemma retained_is_node: "retained s s' \<Longrightarrow> is_node s d c w \<Longrightarrow> is_node s' d c w"
  by (auto simp: is_node_def dest: retained_node)

lemma retained_keyed_at:
  assumes "keyed_at s d m how meth nm keys" and a: "retained s s'"
  shows "keyed_at s' d m how meth nm keys"
proof -
  obtain kws f k kwds where k: "0 < m" "is_node s d (Keyed_single_method_engine how (small 6 (m - 1))) (Single_method_node meth nm kws)"
    "FN_at s meth = Some f" "node_keywords how f kws = Some k"
    "how \<noteq> Unrestricted \<longrightarrow> vector_data s k = Some kwds \<and> keys = every (if how = Explicit then 1 else 2) kwds"
    using assms(1) unfolding keyed_at_def by blast
  have "how \<noteq> Unrestricted \<longrightarrow> vector_data s' k = Some kwds \<and> keys = every (if how = Explicit then 1 else 2) kwds"
    using k(5) retained_vector [OF a] by blast
  then show ?thesis unfolding keyed_at_def using k(1,4) retained_is_node [OF a k(2)] retained_FN [OF a k(3)] by blast
qed

lemma retained_represents: "represents t L s gf m parent \<Longrightarrow> retained s s' \<Longrightarrow> represents t L s' gf m parent"
proof (induction t arbitrary: parent)
  case (Keyed_leaf d how meth nm keys)
  then show ?case by (auto dest: retained_keyed_at retained_parent_gf retained_GFN)
next
  case (Discriminator_node d i branch)
  then obtain kind e where k: "node_at s d e" "entry_point e = Discriminator_engine kind (if m \<le> 7 then Some (i + 1, m) else None)" "i < m"
      "unat (drop_bit 8 (properties e) AND 0xFF) = i" "\<forall>arg. discriminate L kind arg parent d s = Some (address (branch arg))"
    by (auto simp: discriminator_at_def)
  have "discriminator_at s' d kind i m" using k retained_node [OF Discriminator_node.prems(2) k(1)] unfolding discriminator_at_def by blast
  moreover have "\<forall>arg. discriminate L kind arg parent d s' = Some (address (branch arg))"
    using retained_discriminate [OF k(1) Discriminator_node.prems(2)] k(5) by blast
  moreover have "represents (branch arg) L s' gf m parent" for arg
    using Discriminator_node by (auto intro: rangeI)
  ultimately show ?case by auto
qed (auto simp: cache_at_def dest: retained_is_node retained_FN retained_parent_gf)

lemmas alike_represents = retained_represents [OF _ alike_retained]

lemma alike_decided: "alike s s' \<Longrightarrow> decided L gf m ps v s' x r \<Longrightarrow> decided L gf m ps v s x r"
proof (induction L gf m ps v s' x r rule: decided.induct)
  case 4
  then show ?case using retained_trans alike_retained by fastforce
qed (auto dest: alike_trans)

lemma is_node_entry: "is_node s d c w \<Longrightarrow> engine_entry_point s d = Some c"
  by (auto simp: is_node_def dest: node_entry)

lemma represents_entry: "represents t L s gf m p \<Longrightarrow> \<exists>c. engine_entry_point s (address t) = Some c"
  by (cases t) (auto simp: cache_at_def discriminator_at_def keyed_at_def dest: is_node_entry node_entry method_function)

text \<open>From every node the graph does what the tree decides.\<close>

lemma proceed_decides:
  assumes "represents t L s gf m p" and "GFN_at s gf = Some g" and "impargs (gf_signature g) = m" and "length ps = m"
    and "7 < m \<longrightarrow> vector_data s v = Some ps" and "signature_optionals_p (gf_signature g) \<longrightarrow> vector_data s (last ps) = Some opts" and "plain_keywords opts" and "fresh_addresses s"
  shows "decided L gf m ps v s (decide t p ps opts) (proceed L m (address t) p ps v s)"
  using assms
proof (induction t arbitrary: p s)
  case (Method_leaf d)
  then show ?case by (auto simp: proceed_method intro!: exI [of _ s])
next
  case (Single_leaf d meth nm)
  then show ?case by (auto simp: proceed_single intro!: exI [of _ "set_registers d p s"])
next
  case (Keyed_leaf d how meth nm keys)
  then have "vector_data s (last ps) = Some opts" by auto
  with Keyed_leaf show ?case unfolding decide.simps address.simps by (intro proceed_keyed) auto
next
  case (Library_leaf d)
  then show ?case by (auto dest!: proceed_library simp del: decided.simps)
next
  case (Cache_node d t)
  then have c: "cache_at s d m (address t)" and r: "represents t L s gf m d" by auto
  obtain c0 where c0: "engine_entry_point s (address t) = Some c0" using represents_entry [OF r] by blast
  obtain s' where s': "alike s s'" "proceed L m d p ps v s = proceed L m (address t) d ps v s'"
    using c proceed_cache [OF _ Cache_node.prems(4)] proceed_profiling_cache [OF _ Cache_node.prems(4) c0] alike_registers unfolding cache_at_def by blast
  have "decided L gf m ps v s' (decide t d ps opts) (proceed L m (address t) d ps v s')"
    using Cache_node.prems s'(1)
    by (intro Cache_node.IH alike_represents [OF r s'(1)]) (auto dest: alike_GFN alike_vector alike_fresh_addresses)
  then show ?case using s' alike_decided by simp
next
  case (Discriminator_node d i branch)
  let ?x = "ps ! i" and ?s = "set_registers d p s"
  obtain kind where k: "discriminator_at s d kind i m" "discriminate L kind ?x p d s = Some (address (branch ?x))"
    and r: "represents (branch ?x) L s gf m p" using Discriminator_node.prems(1) by auto
  have proceed: "proceed L m d p ps v s = proceed L m (address (branch ?x)) p ps v ?s"
    by (rule proceed_discriminator [OF k(1) Discriminator_node.prems(4,5) k(2)])
  have "decided L gf m ps v ?s (decide (branch ?x) p ps opts) (proceed L m (address (branch ?x)) p ps v ?s)"
    using Discriminator_node.prems
    by (intro Discriminator_node.IH alike_represents [OF r alike_registers]) (auto dest: alike_fresh_addresses [OF alike_registers])
  then show ?case using alike_decided [OF alike_registers] proceed by simp
qed

subsection \<open>Calls of generic functions\<close>

text \<open>What a call of a generic function should do, given the decided.\<close>

definition gf_call_spec :: "library \<Rightarrow> D \<Rightarrow> GFN \<Rightarrow> dtree \<Rightarrow> D list \<Rightarrow> call_state \<Rightarrow> action option \<Rightarrow> bool" where
  "gf_call_spec L gf g t args s r \<longleftrightarrow> (
     let n = length args; nr = signature_number_required (gf_signature g); optionals = signature_optionals_p (gf_signature g) in
     if (if optionals then n < nr else n \<noteq> nr) then r = Some (Signal (Argument_count_error gf n))
     else \<exists>s' rest v. keeps_objects s s' \<and> call_ok s' \<and> Pargument_count s' = Pargument_count s \<and> (optionals \<longrightarrow> vector_data s' rest = Some (drop nr args)) \<and>
       (let imp = take nr args @ (if optionals then [rest] else []) in
         (7 < length imp \<longrightarrow> vector_data s' v = Some imp) \<and>
         (optionals \<and> length imp \<le> 7 \<longrightarrow> take (length imp) (a_buffer s') = imp) \<and>
         decided L gf (length imp) imp v s' (decide t gf imp (drop nr args)) r))"

lemma call_ok_fresh_addresses: "call_ok s \<Longrightarrow> fresh_addresses s"
proof -
  assume "call_ok s"
  then have "\<forall>p. objects s p \<noteq> None \<longrightarrow> p < next_object s" unfolding call_ok_def by blast
  then show "fresh_addresses s" unfolding fresh_addresses_def using leD by blast
qed

lemma call_ok_dom:
  assumes "call_ok s" and "dom (objects s') = dom (objects s)" and "objects s' 3 = Some (Vector [])" and "next_object s' = next_object s"
    and "length (arguments s') = MAX_ARGUMENTS" "length (new_arguments s') = MAX_ARGUMENTS" "length (a_buffer s') = MAX_ARGUMENTS"
    "length (iep_a s') = MAX_ARGUMENTS" "length (apply_buffer s') = MAX_ARGUMENTS" "length (buffer s') = MAX_ARGUMENTS"
  shows "call_ok s'"
  using assms unfolding call_ok_def by (metis domIff)

lemma alike_call_ok: "alike s s' \<Longrightarrow> call_ok s \<Longrightarrow> call_ok s'"
proof -
  assume a: "alike s s'" and ok: "call_ok s"
  have "vector_data s (Ptr 3) = Some []" using ok by (simp add: call_ok_def vector_data_def object_at_def)
  then have "objects s' 3 = Some (Vector [])"
    using alike_vector [OF a] by (fastforce simp: vector_data_def object_at_def split: option.splits obj.splits)
  then show ?thesis using ok alike_fields [OF a] by (intro call_ok_dom [OF ok]) (simp_all add: call_ok_def)
qed

lemma retained_if_objects: "objects s' = objects s \<Longrightarrow> retained s s'"
  unfolding retained_def by (metis same_objects(1))

lemma retained_if_keeps: "call_ok s \<Longrightarrow> keeps_objects s s' \<Longrightarrow> retained s s'"
  unfolding retained_def keeps_objects_def call_ok_def object_at_def by (auto split: D.splits)

lemma run_enter_xep [simp]: "run_engine L (Enter_xep x fn n args s) = call_xep (instancep L) x fn n args s \<bind> run_engine L"
  by (subst run_engine.simps) simp

lemma guarded_fails [simp]: "guarded (fails e) k = Some (Signal e)" "guarded passed k = k"
  by (simp_all add: guarded_def fails_def passed_def)

lemma required_check: "n \<le> MAX_ARGUMENTS \<Longrightarrow>
    BASIC_REQUIRED_CALL_CHECK fn k n = (if n \<noteq> k then fails (Argument_count_error fn n) else passed)"
  by (simp add: BASIC_REQUIRED_CALL_CHECK_def CALL_CHECK_ok also_check_def passed_def)

lemma optional_check: "n \<le> MAX_ARGUMENTS \<Longrightarrow>
    BASIC_OPTIONAL_CALL_CHECK fn k n = (if n < k then fails (Argument_count_error fn n) else passed)"
  by (simp add: BASIC_OPTIONAL_CALL_CHECK_def CALL_CHECK_ok also_check_def passed_def)

text \<open>From the entry of the graph in a later state.\<close>

lemma proceed_later:
  assumes ok: "call_ok s" and g: "GFN_at s gf = Some g" and t: "represents t L s gf (impargs (gf_signature g)) gf"
    and k: "keeps_objects s s'" and ok': "call_ok s'" and m: "length imp = impargs (gf_signature g)"
    and v: "7 < length imp \<longrightarrow> vector_data s' v = Some imp" and o: "signature_optionals_p (gf_signature g) \<longrightarrow> vector_data s' (last imp) = Some opts"
    and p: "plain_keywords opts"
  shows "decided L gf (length imp) imp v s' (decide t gf imp opts) (proceed L (length imp) (address t) gf imp v s')"
proof -
  note retained = retained_if_keeps [OF ok k]
  show ?thesis unfolding m
    by (rule proceed_decides [OF retained_represents [OF t retained] retained_GFN [OF retained g] refl m _ o p call_ok_fresh_addresses [OF ok']]) (use v m in simp)
qed

lemma proceed_iep:
  assumes "Pfunction s = gf" and "GFN_at s gf = Some g"
  shows "m \<le> 7 \<Longrightarrow> gf_iep_k ps s \<bind> run_engine L = proceed L m (engine g) gf ps v s"
    and "7 < m \<Longrightarrow> gf_iep_n v s \<bind> run_engine L = proceed L m (engine g) gf ps v s"
  using assms by (simp_all add: gf_iep_k_def gf_iep_n_def proceed_def)

lemma GFN_kept_eq: "GFN_at s gf = Some g \<Longrightarrow> call_ok s \<Longrightarrow> keeps_objects s s' \<Longrightarrow> GFN_at s' gf = Some g"
  using retained_GFN retained_if_keeps by blast

text \<open>A generic function without optional arguments.\<close>

lemma gf_xep_refines:
  assumes ok: "call_ok s" and g: "GFN_at s gf = Some g" and t: "represents t L s gf (impargs (gf_signature g)) gf" and a: "address t = engine g"
    and x: "gf_xep g = generic_function_entrypoint (gf_signature g)" and n: "length args \<le> MAX_ARGUMENTS"
    and o: "\<not> signature_optionals_p (gf_signature g)"
  shows "gf_call_spec L gf g t args s (run_engine L (Enter_xep (gf_xep g) gf (length args) args s))"
proof -
  define nr where "nr = signature_number_required (gf_signature g)"
  have m: "impargs (gf_signature g) = nr" using o by (simp add: impargs_def nr_def)
  have three: "3 < next_object s" using ok by (auto simp: call_ok_def)
  let ?R = "run_engine L (Enter_xep (gf_xep g) gf (length args) args s)"
  show ?thesis
  proof (cases "nr \<le> 7")
    case True
    have R: "?R = gf_xep_k nr gf (length args) args s \<bind> run_engine L"
      using True x o by (simp add: generic_function_entrypoint_def Let_def flip: nr_def)
    let ?s = "s\<lparr>Pfunction := gf\<rparr>"
    show ?thesis
    proof (cases "length args = nr")
      case False
      then have "?R = Some (Signal (Argument_count_error gf (length args)))"
        unfolding R by (simp add: gf_xep_k_def required_check [OF n])
      then show ?thesis using False o by (simp add: gf_call_spec_def nr_def)
    next
      case l: True
      have rc: "BASIC_REQUIRED_CALL_CHECK gf nr nr = passed" using required_check [OF n [unfolded l]] by simp
      have k: "keeps_objects s ?s" "call_ok ?s" using ok by (simp_all add: keeps_objects_def call_ok_def)
      have "?R = gf_iep_k args ?s \<bind> run_engine L"
        unfolding R using l by (simp add: gf_xep_k_def rc fixed_parameters_def)
      then have "?R = proceed L nr (address t) gf args gf ?s"
        using proceed_iep(1) [of ?s gf g nr args L gf] True GFN_kept_eq [OF g ok k(1)] a by simp
      then have "decided L gf (length args) args gf ?s (decide t gf args []) ?R"
        using proceed_later [OF ok g t k, of args gf "[]"] l m o True by (simp add: plain_keywords_def)
      then show ?thesis using l o k True unfolding gf_call_spec_def Let_def nr_def [symmetric] by auto
    qed
  next
    case False
    have R: "?R = gf_xep_n gf (length args) args s \<bind> run_engine L"
      using False x o by (simp add: generic_function_entrypoint_def Let_def flip: nr_def)
    let ?b = "args @ drop (length args) (arguments s)"
    have tv: "transfer_varargs (length args) args (arguments s) = Some ?b" using n ok by (simp add: transfer_varargs_def call_ok_def)
    show ?thesis
    proof (cases "length args = nr")
      case nl: False
      then have "?R = Some (Signal (Argument_count_error gf (length args)))"
        unfolding R using g tv by (simp add: gf_xep_n_def required_check [OF n] flip: nr_def)
      then show ?thesis using nl o by (simp add: gf_call_spec_def nr_def)
    next
      case l: True
      have rc: "BASIC_REQUIRED_CALL_CHECK gf nr nr = passed" using required_check [OF n [unfolded l]] by simp
      define v where "v = Ptr (next_object s)"
      define s2 where "s2 = s\<lparr>arguments := ?b, Pfunction := gf, objects := (objects s)(next_object s \<mapsto> Vector args), next_object := next_object s + 1\<rparr>"
      have k: "keeps_objects s s2" "call_ok s2" using ok n three by (auto simp: keeps_objects_def call_ok_def s2_def less_Suc_eq)
      have pc: "Pargument_count s2 = Pargument_count s" by (simp add: s2_def)
      have v: "vector_data s2 v = Some args" by (simp add: vector_data_def object_at_def s2_def v_def)
      have "?R = gf_iep_n v s2 \<bind> run_engine L"
        unfolding R using l g tv
        by (simp add: gf_xep_n_def rc stack_vector_from_buffer_def new_object_def v_def s2_def flip: nr_def)
      then have "?R = proceed L nr (address t) gf args v s2"
        using proceed_iep(2) [of s2 gf g nr v L args] False GFN_kept_eq [OF g ok k(1)] a by (simp add: s2_def)
      then have "decided L gf (length args) args v s2 (decide t gf args []) ?R"
        using proceed_later [OF ok g t k, of args v "[]"] l m o v by (simp add: plain_keywords_def)
      then show ?thesis using l o k v pc unfolding gf_call_spec_def Let_def nr_def [symmetric] by auto
    qed
  qed
qed

text \<open>A generic function with optional arguments.\<close>

lemma gf_optional_xep_refines:
  assumes ok: "call_ok s" and g: "GFN_at s gf = Some g" and t: "represents t L s gf (impargs (gf_signature g)) gf" and a: "address t = engine g"
    and x: "gf_xep g = generic_function_entrypoint (gf_signature g)" and n: "length args \<le> MAX_ARGUMENTS"
    and o: "signature_optionals_p (gf_signature g)" and p: "plain_keywords (drop (signature_number_required (gf_signature g)) args)"
  shows "gf_call_spec L gf g t args s (run_engine L (Enter_xep (gf_xep g) gf (length args) args s))"
proof -
  define nr where "nr = signature_number_required (gf_signature g)"
  have m: "impargs (gf_signature g) = nr + 1" using o by (simp add: impargs_def nr_def)
  have three: "3 < next_object s" using ok by (auto simp: call_ok_def)
  let ?R = "run_engine L (Enter_xep (gf_xep g) gf (length args) args s)"
  define rest where "rest = Ptr (next_object s)"
  let ?imp = "take nr args @ [rest]"
  show ?thesis
  proof (cases "nr \<le> 6")
    case True
    have R: "?R = gf_optional_xep_k nr gf (length args) args s \<bind> run_engine L"
      using True x o by (simp add: generic_function_entrypoint_def Let_def flip: nr_def)
    show ?thesis
    proof (cases "length args < nr")
      case few: True
      then have "?R = Some (Signal (Argument_count_error gf (length args)))"
        unfolding R by (simp add: gf_optional_xep_k_def optional_check [OF n])
      then show ?thesis using few o by (simp add: gf_call_spec_def nr_def)
    next
      case l: False
      let ?b = "args @ drop (length args) (a_buffer s)"
      have tv: "transfer_varargs (length args) args (a_buffer s) = Some ?b" using n ok by (simp add: transfer_varargs_def call_ok_def)
      define s2 where "s2 = s\<lparr>Pfunction := gf, objects := (objects s)(next_object s \<mapsto> Vector (drop nr args)), next_object := next_object s + 1,
        a_buffer := ?b[nr := rest]\<rparr>"
      have k: "keeps_objects s s2" "call_ok s2" using ok n three by (auto simp: keeps_objects_def call_ok_def s2_def less_Suc_eq)
      have pc: "Pargument_count s2 = Pargument_count s" by (simp add: s2_def)
      have r: "vector_data s2 rest = Some (drop nr args)" by (simp add: vector_data_def object_at_def s2_def rest_def)
      have nb: "nr < length ?b" using True n ok by (simp add: call_ok_def MAX_ARGUMENTS_def)
      have tb: "take (nr + 1) (?b[nr := rest]) = ?imp" using nb l by (simp add: take_Suc_conv_app_nth)
      have "?R = gf_iep_k ?imp s2 \<bind> run_engine L"
        unfolding R tb [symmetric] using l tv nb
        by (simp add: gf_optional_xep_k_def optional_check [OF n] diff_le_mono stack_vector_from_buffer_def new_object_def rest_def wr_def s2_def)
      then have "?R = proceed L (nr + 1) (address t) gf ?imp gf s2"
        using proceed_iep(1) [of s2 gf g "nr + 1" ?imp L gf] True GFN_kept_eq [OF g ok k(1)] a by (simp add: s2_def)
      moreover have li: "length ?imp = nr + 1" using l by simp
      ultimately have "decided L gf (length ?imp) ?imp gf s2 (decide t gf ?imp (drop nr args)) ?R"
        using proceed_later [OF ok g t k, of ?imp gf "drop nr args"] m True r p by (simp add: nr_def)
      moreover have "take (length ?imp) (a_buffer s2) = ?imp" using tb li by (simp add: s2_def)
      ultimately show ?thesis using l o k r li True pc unfolding gf_call_spec_def Let_def nr_def [symmetric]
        by (intro if_not_P [THEN iffD2]) auto
    qed
  next
    case False
    have R: "?R = gf_optional_xep_n gf (length args) args s \<bind> run_engine L"
      using False x o by (simp add: generic_function_entrypoint_def Let_def flip: nr_def)
    let ?b = "args @ drop (length args) (arguments s)"
    have tv: "transfer_varargs (length args) args (arguments s) = Some ?b" using n ok by (simp add: transfer_varargs_def call_ok_def)
    show ?thesis
    proof (cases "length args < nr")
      case few: True
      then have "?R = Some (Signal (Argument_count_error gf (length args)))"
        unfolding R using g tv by (simp add: gf_optional_xep_n_def optional_check [OF n] flip: nr_def)
      then show ?thesis using few o by (simp add: gf_call_spec_def nr_def)
    next
      case l: False
      define v where "v = Ptr (next_object s + 1)"
      define s2 where "s2 = s\<lparr>arguments := ?b, objects := (objects s)(next_object s \<mapsto> Vector (drop nr args), next_object s + 1 \<mapsto> Vector ?imp),
        next_object := next_object s + 2, Pfunction := gf\<rparr>"
      have k: "keeps_objects s s2" "call_ok s2" using ok n three by (auto simp: keeps_objects_def call_ok_def s2_def less_Suc_eq)
      have pc: "Pargument_count s2 = Pargument_count s" by (simp add: s2_def)
      have v: "vector_data s2 v = Some ?imp" "vector_data s2 rest = Some (drop nr args)"
        by (simp_all add: vector_data_def object_at_def s2_def v_def rest_def)
      have "?R = gf_iep_n v s2 \<bind> run_engine L"
        unfolding R using l g tv
        by (simp add: gf_optional_xep_n_def optional_check [OF n] diff_le_mono stack_vector_from_buffer_def new_object_def v_def s2_def rest_def flip: nr_def)
      then have "?R = proceed L (nr + 1) (address t) gf ?imp v s2"
        using proceed_iep(2) [of s2 gf g "nr + 1" v L ?imp] False GFN_kept_eq [OF g ok k(1)] a by (simp add: s2_def)
      moreover have li: "length ?imp = nr + 1" using l by simp
      ultimately have "decided L gf (length ?imp) ?imp v s2 (decide t gf ?imp (drop nr args)) ?R"
        using proceed_later [OF ok g t k, of ?imp v "drop nr args"] m v p by (simp add: nr_def)
      then show ?thesis using l o k v li pc False unfolding gf_call_spec_def Let_def nr_def [symmetric]
        by (intro if_not_P [THEN iffD2]) auto
    qed
  qed
qed

lemma generic_function_refines:
  assumes "call_ok s" and "GFN_at s gf = Some g" and "represents t L s gf (impargs (gf_signature g)) gf" and "address t = engine g"
    and "gf_xep g = generic_function_entrypoint (gf_signature g)" and "length args \<le> MAX_ARGUMENTS"
    and "signature_optionals_p (gf_signature g) \<longrightarrow> plain_keywords (drop (signature_number_required (gf_signature g)) args)"
  shows "gf_call_spec L gf g t args s (run_engine L (Enter_xep (gf_xep g) gf (length args) args s))"
proof (cases "signature_optionals_p (gf_signature g)")
  case True
  then show ?thesis using assms(7) by (intro gf_optional_xep_refines [OF assms(1-6)]) simp_all
next
  case False
  then show ?thesis by (intro gf_xep_refines [OF assms(1-6)])
qed

text \<open>The methods that a tree can select; and the answer to a decision when they are compiled code.\<close>

primrec methods :: "dtree \<Rightarrow> D set" where
  "methods (Method_leaf d) = {d}"
| "methods (Single_leaf d meth nm) = {meth}"
| "methods (Keyed_leaf d how meth nm keys) = {meth}"
| "methods (Library_leaf d) = {}"
| "methods (Cache_node d t) = methods t"
| "methods (Discriminator_node d i branch) = (\<Union>arg. methods (branch arg))"

lemma decide_methods: "decide t p args opts = Selects meth nm \<Longrightarrow> meth \<in> methods t"
proof (induction t arbitrary: p)
  case (Keyed_leaf d how m n keys)
  then show ?case by (auto simp: keyed_decision_def split: if_splits option.splits)
next
  case (Discriminator_node d i branch)
  from Discriminator_node.IH [OF rangeI, of "args ! i" p] Discriminator_node.prems show ?case by auto
qed auto

definition compiled :: "dtree \<Rightarrow> call_state \<Rightarrow> bool" where
  "compiled t s \<longleftrightarrow> (\<forall>meth \<in> methods t. \<exists>f k. FN_at s meth = Some f \<and> mep f = Iep k)"

fun answers :: "call_state \<Rightarrow> decision \<Rightarrow> D list \<Rightarrow> action \<Rightarrow> bool" where
  "answers s (Selects meth nm) imp r \<longleftrightarrow> (\<exists>f ps s'. FN_at s meth = Some f \<and> r = Enter (mep f) ps s' \<and> take (length imp) ps = imp \<and>
     Pfunction s' = meth \<and> Pnext_methods s' = nm \<and> retained s s')"
| "answers s (Refuses d k) imp r \<longleftrightarrow> (\<exists>e. r = Signal e)"
| "answers s (Falls_to d p) imp r \<longleftrightarrow> (\<exists>e w s'. ENGINE_at s d = Some e \<and> vector_data s' w = Some imp \<and> retained s s' \<and>
     r = Enter (Callback (callback e)) [w, d, p] s')"

lemma enter_method_ends:
  assumes ok: "call_ok s" and f: "FN_at s meth = Some f" "mep f = Iep k" and l: "length ps = m" "m \<le> 64" and v: "7 < m \<longrightarrow> vector_data s v = Some ps"
  shows "\<exists>r. enter_method m meth nm ps v s \<bind> run_engine L = Some r \<and> answers s (Selects meth nm) ps r"
proof (cases "m \<le> 7")
  case True
  then have "enter_method m meth nm ps v s \<bind> run_engine L = Some (Enter (mep f) ps (set_registers meth nm s))"
    using f l by (simp add: enter_method_def)
  then show ?thesis using f(1) l alike_retained [OF alike_registers] by auto
next
  case False
  then have vv: "vector_data s v = Some ps" "length ps \<le> 64" using v l by auto
  obtain qs s' where q: "primitive_mep_apply_with_optionals meth nm v s = Some (Enter (mep f) qs s')" "take (length ps) qs = ps"
    "Pfunction s' = meth" "Pnext_methods s' = nm" "objects s' = objects s"
    using primitive_mep_apply_with_optionals_ok [OF ok f(1) vv, of nm] by blast
  then have "enter_method m meth nm ps v s \<bind> run_engine L = Some (Enter (mep f) qs s')" using False f(2) by (simp add: enter_method_def)
  then show ?thesis using f(1) q retained_if_objects [OF q(5)] by auto
qed

lemma decided_ends:
  assumes "decided L gf (length imp) imp v s x r" and "call_ok s" and "length imp \<le> 64" and "7 < length imp \<longrightarrow> vector_data s v = Some imp"
    and "\<And>meth nm. x = Selects meth nm \<Longrightarrow> \<exists>f k. FN_at s meth = Some f \<and> mep f = Iep k"
    and "\<And>d p. x = Falls_to d p \<Longrightarrow> \<exists>e. node_at s d e"
  shows "\<exists>a. r = Some a \<and> answers s x imp a"
proof (cases x)
  case (Selects meth nm)
  then obtain f k s' where f: "FN_at s meth = Some f" "mep f = Iep k" and al: "alike s s'" and r: "r = enter_method (length imp) meth nm imp v s' \<bind> run_engine L"
    using assms(1,5) by auto
  have v: "7 < length imp \<longrightarrow> vector_data s' v = Some imp" using assms(4) alike_vector [OF al] by blast
  obtain a where a: "r = Some a" "answers s' (Selects meth nm) imp a"
    using enter_method_ends [OF alike_call_ok [OF al assms(2)] alike_FN [OF al f(1)] f(2) refl assms(3) v, of nm L] r by blast
  have "answers s (Selects meth nm) imp a" using a(2) f(1) alike_FN [OF al f(1)] retained_trans [OF alike_retained [OF al]] by fastforce
  then show ?thesis using a(1) Selects by blast
next
  case (Refuses d k)
  then show ?thesis using assms(1) by (cases k) auto
next
  case (Falls_to d p)
  then obtain e w s' where e: "ENGINE_at s' d = Some e" "vector_data s' w = Some imp" "retained s s'" "r = Some (Enter (Callback (callback e)) [w, d, p] s')"
    using assms(1) by auto
  obtain e0 where n: "node_at s d e0" using assms(6) Falls_to by blast
  obtain e1 where "ENGINE_at s d = Some e1" "callback e1 = callback e"
    using node_at_fields [OF n] node_at_fields [OF retained_node [OF e(3) n]] e(1) by auto
  then show ?thesis using e Falls_to by auto
qed

lemma decide_falls: "represents t L s gf m p0 \<Longrightarrow> decide t p args opts = Falls_to d q \<Longrightarrow> \<exists>e. node_at s d e"
proof (induction t arbitrary: p p0)
  case (Keyed_leaf d how meth nm keys)
  then show ?case by (auto simp: keyed_decision_def split: if_splits option.splits)
next
  case (Discriminator_node e i branch)
  from Discriminator_node.IH [OF rangeI, of "args ! i" p0 p] Discriminator_node.prems show ?case by auto
qed (auto simp: is_node_def)


lemma generic_function_ends:
  assumes "call_ok s" and "GFN_at s gf = Some g" and t: "represents t L s gf (impargs (gf_signature g)) gf" and "address t = engine g"
    and "gf_xep g = generic_function_entrypoint (gf_signature g)" and "length args \<le> MAX_ARGUMENTS"
    and "signature_optionals_p (gf_signature g) \<longrightarrow> plain_keywords (drop (signature_number_required (gf_signature g)) args)"
    and c: "compiled t s" and l: "impargs (gf_signature g) \<le> 64"
    and nr: "nr = signature_number_required (gf_signature g)" and optionals: "optionals = signature_optionals_p (gf_signature g)"
    and res: "res = run_engine L (Enter_xep (gf_xep g) gf (length args) args s)"
  shows "\<exists>a. res = Some a \<and> (if (if optionals then length args < nr else length args \<noteq> nr) then a = Signal (Argument_count_error gf (length args))
    else \<exists>s' rest. keeps_objects s s' \<and> (optionals \<longrightarrow> vector_data s' rest = Some (drop nr args)) \<and>
      answers s' (decide t gf (take nr args @ (if optionals then [rest] else [])) (drop nr args)) (take nr args @ (if optionals then [rest] else [])) a)"
proof (cases "if optionals then length args < nr else length args \<noteq> nr")
  case True
  then have "res = Some (Signal (Argument_count_error gf (length args)))"
    using generic_function_refines [OF assms(1-7)] unfolding gf_call_spec_def Let_def res nr optionals by (simp split: if_splits)
  then show ?thesis using True by simp
next
  case False
  let ?imp = "\<lambda>rest. take nr args @ (if optionals then [rest] else [])"
  have "\<exists>s' rest v. keeps_objects s s' \<and> call_ok s' \<and> Pargument_count s' = Pargument_count s \<and> (optionals \<longrightarrow> vector_data s' rest = Some (drop nr args)) \<and>
       (7 < length (?imp rest) \<longrightarrow> vector_data s' v = Some (?imp rest)) \<and>
         (optionals \<and> length (?imp rest) \<le> 7 \<longrightarrow> take (length (?imp rest)) (a_buffer s') = ?imp rest) \<and>
         decided L gf (length (?imp rest)) (?imp rest) v s' (decide t gf (?imp rest) (drop nr args)) res"
    using generic_function_refines [OF assms(1-7)] False unfolding gf_call_spec_def Let_def nr optionals res by (simp only: if_False)
  then obtain s' rest v where S: "keeps_objects s s'" "call_ok s'" "optionals \<longrightarrow> vector_data s' rest = Some (drop nr args)"
    "7 < length (?imp rest) \<longrightarrow> vector_data s' v = Some (?imp rest)" "decided L gf (length (?imp rest)) (?imp rest) v s' (decide t gf (?imp rest) (drop nr args)) res"
    by blast
  have k: "retained s s'" by (rule retained_if_keeps [OF assms(1) S(1)])
  have "length (?imp rest) = impargs (gf_signature g)" using False unfolding nr optionals impargs_def by (auto split: if_splits)
  then have li: "length (?imp rest) \<le> 64" using l by simp
  obtain a where "res = Some a" "answers s' (decide t gf (?imp rest) (drop nr args)) (?imp rest) a"
  proof (rule exE [OF decided_ends [OF S(5,2) li S(4)]])
    fix meth nm assume "decide t gf (?imp rest) (drop nr args) = Selects meth nm"
    then show "\<exists>f k. FN_at s' meth = Some f \<and> mep f = Iep k" using decide_methods c retained_FN [OF k] unfolding compiled_def by blast
  next
    fix d p assume "decide t gf (?imp rest) (drop nr args) = Falls_to d p"
    from decide_falls [OF retained_represents [OF t k] this] show "\<exists>e. node_at s' d e" .
  qed blast
  then show ?thesis unfolding if_not_P [OF False] using S(1,3) by blast
qed

subsection \<open>Keyword methods of generic functions\<close>

text \<open>
  The entry point of a keyword method takes as many variable arguments as a register says. With the arguments in the
  buffer already, a smaller number does no harm; with a larger number it takes arguments that were not passed.
\<close>

lemma rd_cons: "rd (x # xs) 0 = Some x"
  by (simp add: rd_def)

lemma process_keyword_objects:
  assumes "objects s' = objects s"
  shows "process_keyword_call_into new f nr req opts rest s' = process_keyword_call_into new f nr req opts rest s"
proof -
  have "vector_data s' = vector_data s" by (rule ext) (rule same_objects(2) [OF assms])
  then show ?thesis by (simp add: process_keyword_call_into_def)
qed

lemma key_mep_count:
  assumes imp: "length imp = nr + 1" and ab: "take (nr + 1) (a_buffer s) = imp" and c: "Pargument_count s \<le> nr + 1" and l: "nr + 1 \<le> length (a_buffer s)"
    and e: "method_entry (Key_mep kk) imp (s\<lparr>Pargument_count := nr + 1\<rparr>) = Some (Enter iep ps s')"
  shows "method_entry (Key_mep kk) imp s = Some (Enter iep ps (s'\<lparr>Pargument_count := Pargument_count s\<rparr>))"
proof -
  obtain a1 ap where a: "imp = a1 # ap" using imp by (cases imp) simp_all
  obtain bs where bs: "a_buffer s = a1 # bs" using ab l a by (cases "a_buffer s") auto
  have ap: "length ap = nr" "take nr bs = ap" "nr \<le> length bs" using imp ab l a bs by simp_all
  have w: "wr (a_buffer s) 0 a1 = Some (a1 # bs)" by (simp add: wr_def bs)
  have tv: "transfer_varargs c ap bs = Some bs" if "c \<le> nr" for c
  proof -
    have "take c bs = take c ap" using ap(2) that by (metis min.absorb1 take_take)
    then show ?thesis using ap that append_take_drop_id [of c bs] by (simp add: transfer_varargs_def)
  qed
  have fn: "FN_at (s\<lparr>Pargument_count := n\<rparr>) d = FN_at s d" for n d by (rule same_objects(3)) simp
  have vd: "vector_data (s\<lparr>Pargument_count := n, a_buffer := x\<rparr>) d = vector_data s d" "vector_data (s\<lparr>a_buffer := x\<rparr>) d = vector_data s d" for n d x
    by (rule same_objects(2), simp)+
  have pk: "process_keyword_call_into new f n req opts rest (s\<lparr>Pargument_count := c, a_buffer := x\<rparr>) = process_keyword_call_into new f n req opts rest s"
    "process_keyword_call_into new f n req opts rest (s\<lparr>a_buffer := x\<rparr>) = process_keyword_call_into new f n req opts rest s" for new f n req opts rest c x
    by (rule process_keyword_objects, simp)+
  have c1: "transfer_varargs (Pargument_count s - Suc 0) ap bs = Some bs" "transfer_varargs nr ap bs = Some bs" by (rule tv, use c in simp)+
  show ?thesis
  proof (cases kk)
    case None
    then show ?thesis using e unfolding a
      by (auto simp: key_mep_n_def rd_cons w c1 fn vd pk iep_apply_def Let_def bind_eq_Some_conv)
  next
    case (Some k)
    then show ?thesis using e unfolding a
      by (auto simp: key_mep_k_def rd_cons w c1 fn vd pk Let_def bind_eq_Some_conv)
  qed
qed

lemma key_mep_too_many:
  assumes "length imp = nr + 1" and "nr + 1 < Pargument_count s"
  shows "method_entry (Key_mep kk) imp s = None"
proof -
  have t: "transfer_varargs (Pargument_count s - Suc 0) (drop (Suc 0) imp) b = None" for b using assms by (simp add: transfer_varargs_def aver_def)
  have n: "m \<bind> (\<lambda>_. None) = None" for m :: "'a option" by (cases m) simp_all
  show ?thesis by (cases kk) (simp_all add: key_mep_k_def key_mep_n_def t n Let_def)
qed

lemma retained_keyword_method: "retained s s' \<Longrightarrow> keyword_method s fn f iep specs \<Longrightarrow> keyword_method s' fn f iep specs"
  unfolding keyword_method_def using retained_FN retained_vector by blast

lemma run_key_mep: "run_engine L (Enter (Key_mep kk) args s) = method_entry (Key_mep kk) args s \<bind> run_engine L"
  by (cases kk) (simp_all add: run_inside)

lemma keyword_generic_call:
  assumes "call_ok s" and "GFN_at s gf = Some g" and t: "represents t L s gf (impargs (gf_signature g)) gf" and "address t = engine g"
    and "gf_xep g = generic_function_entrypoint (gf_signature g)" and "length args \<le> MAX_ARGUMENTS"
    and o: "signature_optionals_p (gf_signature g)" and nr: "signature_number_required (gf_signature g) = nr" and n: "nr \<le> 6" "nr \<le> length args"
    and plain: "plain_keywords (drop nr args)" and ev: "even (length args - nr)"
    and d: "\<forall>rest. decide t gf (take nr args @ [rest]) (drop nr args) = Selects meth nm"
    and m: "keyword_method s meth f (Iep k) specs" "function_number_required f = nr" "mep f = Key_mep (key_mep_number (nr + 1 + number_keywords specs))"
    and lt: "nr + 1 + number_keywords specs \<le> 64"
    and res: "res = run_engine L (Enter_xep (gf_xep g) gf (length args) args s)"
  shows "if Pargument_count s \<le> nr + 1
    then \<exists>ps s' rest. res = Some (Enter (Iep k) ps s') \<and> take (nr + 1 + number_keywords specs) ps = take nr args @ rest # keyword_values specs (drop nr args) \<and>
      vector_data s' rest = Some (drop nr args) \<and> Pfunction s' = meth \<and> Pnext_methods s' = nm
    else res = None"
proof -
  have pl: "signature_optionals_p (gf_signature g) \<longrightarrow> plain_keywords (drop (signature_number_required (gf_signature g)) args)"
    using plain nr by simp
  have few: "\<not> length args < nr" using n by simp
  note spec = generic_function_refines [OF assms(1-6) pl, unfolded gf_call_spec_def Let_def nr if_P [OF o] if_not_P [OF few], folded res]
  have li: "length (take nr args @ [rest]) = nr + 1" for rest using n by simp
  obtain s1 rest v where S: "keeps_objects s s1" "call_ok s1" "Pargument_count s1 = Pargument_count s" "vector_data s1 rest = Some (drop nr args)"
    "take (nr + 1) (a_buffer s1) = take nr args @ [rest]" "decided L gf (nr + 1) (take nr args @ [rest]) v s1 (Selects meth nm) res"
    using spec d o n(1) unfolding li by auto
  obtain s2 where s2: "alike s1 s2" "res = enter_method (nr + 1) meth nm (take nr args @ [rest]) v s2 \<bind> run_engine L" using S(6) by auto
  define S3 where "S3 = set_registers meth nm s2"
  have al: "alike s1 S3" unfolding S3_def by (rule alike_trans [OF s2(1) alike_registers])
  have retained: "retained s S3" by (rule retained_trans [OF retained_if_keeps [OF assms(1) S(1)] alike_retained [OF al]])
  have f: "FN_at s2 meth = Some f" using retained_FN [OF retained, of meth f] m(1) by (simp add: keyword_method_def S3_def)
  let ?imp = "take nr args @ [rest]" and ?kk = "key_mep_number (nr + 1 + number_keywords specs)"
  have res': "res = method_entry (Key_mep ?kk) ?imp S3 \<bind> run_engine L"
    using s2(2) f n(1) m(3) run_key_mep by (simp add: enter_method_def S3_def)
  have pc: "Pargument_count S3 = Pargument_count s" "a_buffer S3 = a_buffer s1" using alike_fields [OF al] S(3) by simp_all
  have ok3: "call_ok S3" by (rule alike_call_ok [OF al S(2)])
  show ?thesis
  proof (cases "Pargument_count s \<le> nr + 1")
    case False
    then have "method_entry (Key_mep ?kk) ?imp S3 = None" using pc by (intro key_mep_too_many [OF li]) simp
    then show ?thesis using False res' by simp
  next
    case True
    let ?S4 = "S3\<lparr>Pargument_count := nr + 1\<rparr>"
    have ok4: "call_ok ?S4" using ok3 by (simp add: call_ok_def)
    have k4: "retained s ?S4" by (rule retained_trans [OF retained retained_if_objects]) simp
    have m4: "keyword_method ?S4 (Pfunction ?S4) f (Iep k) specs" using retained_keyword_method [OF k4 m(1)] by (simp add: S3_def)
    have r4: "vector_data ?S4 rest = Some (drop nr args)"
      using alike_vector [OF al S(4)] same_objects(2) [of ?S4 S3 rest] by simp
    have e: "length (take nr args) = nr" "take (nr + 1) ?imp = take nr args @ [rest]" "nr + 1 \<le> length ?imp" "Pargument_count ?S4 = nr + 1" "even (length (drop nr args))"
      using n ev by simp_all
    obtain ps s' where P: "method_entry (Key_mep ?kk) ?imp ?S4 = Some (Enter (Iep k) ps s')"
      "take (nr + 1 + number_keywords specs) ps = take nr args @ rest # keyword_values specs (drop nr args)" "vector_data s' rest = Some (drop nr args)"
      "Pfunction s' = Pfunction ?S4" "Pnext_methods s' = Pnext_methods ?S4"
      using key_mep_ok [OF ok4 m4 m(2) e(1-4) r4 e(5) lt] by blast
    let ?s = "s'\<lparr>Pargument_count := Pargument_count S3\<rparr>"
    have "method_entry (Key_mep ?kk) ?imp S3 = Some (Enter (Iep k) ps ?s)"
    proof (rule key_mep_count [OF li _ _ _ P(1)])
      show "take (nr + 1) (a_buffer S3) = ?imp" using pc(2) S(5) by simp
      show "Pargument_count S3 \<le> nr + 1" using True pc by simp
      show "nr + 1 \<le> length (a_buffer S3)" using n ok3 by (simp add: call_ok_def MAX_ARGUMENTS_def)
    qed
    then have "res = Some (Enter (Iep k) ps ?s)" using res' by simp
    moreover have "vector_data ?s rest = Some (drop nr args)" using P(3) same_objects(2) [of ?s s' rest] by simp
    moreover have "Pfunction ?s = meth" "Pnext_methods ?s = nm" using P(4,5) by (simp_all add: S3_def)
    ultimately show ?thesis using True P(2) by auto
  qed
qed

text \<open>
  Two generic functions of two required arguments, one with keywords. The first has a profiling cache before a test of
  its first argument, and a method with keywords behind it; the second tests its second argument.
\<close>

definition sample_GFN :: "bool \<Rightarrow> D \<Rightarrow> GFN" where
  "sample_GFN keys e = (let sig = \<lparr>sig_properties = signature_make_properties 2 1 keys False False False, sig_required = None\<rparr> in
     \<lparr>gf_xep = generic_function_entrypoint sig, gf_signature = sig, engine = e\<rparr>)"

definition compiled_FN :: FN where
  "compiled_FN = \<lparr>xep = Xep (Some 2), fn_signature = \<lparr>sig_properties = signature_make_properties 2 1 False False False False, sig_required = None\<rparr>,
     mep = Iep 8, kfn_part = None\<rparr>"

definition dispatch_state :: call_state where
  "dispatch_state = sample_state\<lparr>objects := (objects sample_state)(
      6 \<mapsto> Engine \<lparr>properties = 0, callback = 1, entry_point = General_engine_node_engine None, words = Plain_node\<rparr>,
      13 \<mapsto> Method compiled_FN,
      50 \<mapsto> Engine \<lparr>properties = 0x34, callback = 0, entry_point = Profiling_cache_header_engine (Some 3),
              words = Profiling_cache_header_node (Ptr 51) (Ptr 60) 8 0\<rparr>,
      51 \<mapsto> Engine \<lparr>properties = 0x84, callback = 0, entry_point = Discriminator_engine If_type (Some (1, 3)), words = If_type_node (Ptr 20) (Ptr 52) (Ptr 6)\<rparr>,
      52 \<mapsto> Engine \<lparr>properties = 0xC, callback = 0, entry_point = Keyed_single_method_engine Implicit (Some 2), words = Single_method_node (Ptr 10) DTRUE NULL\<rparr>,
      53 \<mapsto> Engine \<lparr>properties = 0x8, callback = 0, entry_point = Single_method_engine (Some 2), words = Single_method_node (Ptr 13) DFALSE NULL\<rparr>,
      54 \<mapsto> Engine \<lparr>properties = 0x184, callback = 0, entry_point = Discriminator_engine If_type (Some (2, 2)), words = If_type_node (Ptr 20) (Ptr 53) (Ptr 6)\<rparr>,
      60 \<mapsto> Generic (sample_GFN True (Ptr 50)), 61 \<mapsto> Generic (sample_GFN False (Ptr 54))), next_object := 100\<rparr>"

definition sample_library :: library where
  "sample_library = \<lparr>instancep = (\<lambda>v t. v = DTRUE), lookup = (\<lambda>cb arg parent eng. NULL), wrapper_key = (\<lambda>d. d)\<rparr>"

definition keyed_tree :: dtree where
  "keyed_tree = Cache_node (Ptr 50) (Discriminator_node (Ptr 51) 0
     (\<lambda>arg. if arg = DTRUE then Keyed_leaf (Ptr 52) Implicit (Ptr 10) DTRUE [Ptr 30, Ptr 31] else Library_leaf (Ptr 6)))"

definition plain_tree :: dtree where
  "plain_tree = Discriminator_node (Ptr 54) 1 (\<lambda>arg. if arg = DTRUE then Single_leaf (Ptr 53) (Ptr 13) DFALSE else Library_leaf (Ptr 6))"

lemmas sample_simps = object_at_def FN_at_def GFN_at_def ENGINE_at_def vector_data_def dispatch_state_def sample_state_def

lemma sample_GFN_signature:
  "signature_number_required (gf_signature (sample_GFN keys e)) = 2" "signature_optionals_p (gf_signature (sample_GFN keys e)) = keys"
  "impargs (gf_signature (sample_GFN keys e)) = (if keys then 3 else 2)" "engine (sample_GFN keys e) = e"
  "gf_xep (sample_GFN keys e) = generic_function_entrypoint (gf_signature (sample_GFN keys e))"
  using signature_fields [of 2 1 "gf_signature (sample_GFN keys e)" keys False False False] by (simp_all add: sample_GFN_def Let_def)

lemma dispatch_ok: "call_ok dispatch_state"
  by (auto simp: call_ok_def dispatch_state_def sample_state_def MAX_ARGUMENTS_def)

lemma dispatch_GFN: "GFN_at dispatch_state (Ptr 60) = Some (sample_GFN True (Ptr 50))" "GFN_at dispatch_state (Ptr 61) = Some (sample_GFN False (Ptr 54))"
  by (simp_all add: sample_simps)

lemma dispatch_parent: "parent_gf dispatch_state (Ptr 60) = Some (Ptr 60)" "parent_gf dispatch_state (Ptr 61) = Some (Ptr 61)"
  "parent_gf dispatch_state (Ptr 50) = Some (Ptr 60)"
proof -
  show a: "parent_gf dispatch_state (Ptr 60) = Some (Ptr 60)" "parent_gf dispatch_state (Ptr 61) = Some (Ptr 61)"
    by (subst parent_gf.simps, simp add: FUNCTIONP_def sample_simps)+
  show "parent_gf dispatch_state (Ptr 50) = Some (Ptr 60)"
  proof -
    have "FUNCTIONP dispatch_state (Ptr 50) = Some False" by (simp add: FUNCTIONP_def sample_simps)
    moreover obtain e where "ENGINE_at dispatch_state (Ptr 50) = Some e" "words e = Profiling_cache_header_node (Ptr 51) (Ptr 60) 8 0"
      by (simp add: sample_simps)
    ultimately show ?thesis using a(1) by (subst parent_gf.simps) simp
  qed
qed

lemma library_at: "\<exists>w. is_node dispatch_state (Ptr 6) (General_engine_node_engine None) w"
  by (simp add: is_node_def node_at_def sample_simps)

lemma keyed_tree_represents: "represents keyed_tree sample_library dispatch_state (Ptr 60) 3 (Ptr 60)"
proof -
  have "keyed_at dispatch_state (Ptr 52) 3 Implicit (Ptr 10) DTRUE [Ptr 30, Ptr 31]"
    by (simp add: keyed_at_def is_node_def node_at_def small_def sample_simps sample_FN_def node_keywords_def method_keyword_specifiers_def)
  moreover have "discriminator_at dispatch_state (Ptr 51) If_type 0 3"
    by (simp add: discriminator_at_def node_at_def sample_simps)
  moreover have "cache_at dispatch_state (Ptr 50) 3 (Ptr 51)"
    by (simp add: cache_at_def is_node_def node_at_def small_def sample_simps)
  moreover have "discriminate sample_library If_type arg (Ptr 50) (Ptr 51) dispatch_state = Some (if arg = DTRUE then Ptr 52 else Ptr 6)" for arg
    by (simp add: discriminate_def sample_simps sample_library_def)
  ultimately show ?thesis using dispatch_parent library_at dispatch_GFN sample_GFN_signature(2) by (auto simp: keyed_tree_def)
qed

lemma plain_tree_represents: "represents plain_tree sample_library dispatch_state (Ptr 61) 2 (Ptr 61)"
proof -
  have "is_node dispatch_state (Ptr 53) (Single_method_engine (small 7 2)) (Single_method_node (Ptr 13) DFALSE NULL)"
    by (simp add: is_node_def node_at_def small_def sample_simps)
  moreover have "FN_at dispatch_state (Ptr 13) = Some compiled_FN" by (simp add: sample_simps)
  moreover have "discriminator_at dispatch_state (Ptr 54) If_type 1 2"
    by (simp add: discriminator_at_def node_at_def sample_simps)
  moreover have "discriminate sample_library If_type arg (Ptr 61) (Ptr 54) dispatch_state = Some (if arg = DTRUE then Ptr 53 else Ptr 6)" for arg
    by (simp add: discriminate_def sample_simps sample_library_def)
  ultimately show ?thesis using dispatch_parent library_at by (auto simp: plain_tree_def)
qed

subsection \<open>The properties of dispatch\<close>





text \<open>
  C19: a keyword method behind a generic function of at most six required arguments depends on a register that nothing
  on the way has set. Its entry point takes as many variable arguments as the last vector that a method was applied to
  had. If that is at most the number of implementation arguments, the internal entry point gets the required arguments,
  the vector of the others, and the value supplied for every keyword or its default; if it is more, the entry point
  reads arguments that were not passed, which is undefined.
\<close>
theorem keyword_method_of_generic_function:
  assumes "call_ok s" and "GFN_at s gf = Some g" and "represents t L s gf (impargs (gf_signature g)) gf" and "address t = engine g"
    and "gf_xep g = generic_function_entrypoint (gf_signature g)" and "length args \<le> MAX_ARGUMENTS"
    and "signature_optionals_p (gf_signature g)" and "signature_number_required (gf_signature g) = nr" and "nr \<le> 6" and "nr \<le> length args"
    and "plain_keywords (drop nr args)" and "even (length args - nr)"
    and "\<forall>rest. decide t gf (take nr args @ [rest]) (drop nr args) = Selects meth nm"
    and "keyword_method s meth f (Iep k) specs" and "function_number_required f = nr" and "mep f = Key_mep (key_mep_number (nr + 1 + number_keywords specs))"
    and "nr + 1 + number_keywords specs \<le> 64"
  shows "if Pargument_count s \<le> nr + 1
    then \<exists>ps s' rest. run_engine L (Enter_xep (gf_xep g) gf (length args) args s) = Some (Enter (Iep k) ps s') \<and>
      take (nr + 1 + number_keywords specs) ps = take nr args @ rest # keyword_values specs (drop nr args) \<and>
      vector_data s' rest = Some (drop nr args) \<and> Pfunction s' = meth \<and> Pnext_methods s' = nm
    else run_engine L (Enter_xep (gf_xep g) gf (length args) args s) = None"
  by (rule keyword_generic_call [OF assms refl])

lemma dispatch_keyword_method: "keyword_method dispatch_state (Ptr 10) sample_FN (Iep 7) [Ptr 30, Imm 5, Ptr 31, Imm 9]"
proof -
  have "FN_at dispatch_state (Ptr 10) = Some sample_FN" "vector_data dispatch_state (Ptr 11) = Some [Ptr 30, Imm 5, Ptr 31, Imm 9]"
    by (simp_all add: sample_simps)
  then show ?thesis using sample_method by (simp add: keyword_method_def sample_FN_def)
qed

theorem keyword_method_of_generic_function_witness:
  "if Pargument_count dispatch_state \<le> 2 + 1
    then \<exists>ps s' rest. run_engine sample_library (Enter_xep (gf_xep (sample_GFN True (Ptr 50))) (Ptr 60) (length [DTRUE, DFALSE, Ptr 31, Imm 13])
        [DTRUE, DFALSE, Ptr 31, Imm 13] dispatch_state) = Some (Enter (Iep 7) ps s') \<and>
      take (2 + 1 + number_keywords [Ptr 30, Imm 5, Ptr 31, Imm 9]) ps =
        take 2 [DTRUE, DFALSE, Ptr 31, Imm 13] @ rest # keyword_values [Ptr 30, Imm 5, Ptr 31, Imm 9] (drop 2 [DTRUE, DFALSE, Ptr 31, Imm 13]) \<and>
      vector_data s' rest = Some (drop 2 [DTRUE, DFALSE, Ptr 31, Imm 13]) \<and> Pfunction s' = Ptr 10 \<and> Pnext_methods s' = DTRUE
    else run_engine sample_library (Enter_xep (gf_xep (sample_GFN True (Ptr 50))) (Ptr 60) (length [DTRUE, DFALSE, Ptr 31, Imm 13])
        [DTRUE, DFALSE, Ptr 31, Imm 13] dispatch_state) = None"
  by (rule keyword_method_of_generic_function [OF dispatch_ok dispatch_GFN(1) _ _ _ _ _ _ _ _ _ _ _ dispatch_keyword_method, where t = keyed_tree])
    (simp_all add: sample_GFN_signature keyed_tree_represents keyed_tree_def [THEN arg_cong, of address] MAX_ARGUMENTS_def plain_keywords_def NULL_def DFALSE_def
      sample_required number_keywords_def, simp_all add: keyed_tree_def keyed_decision_def sample_FN_def key_mep_number_def number_xeps_def)

end
