(* ===== verification/Engine_Nodes.thy ===== *)
theory Engine_Nodes
  imports Dispatch_Correct
begin

text \<open>
  Engine nodes by themselves: that the entry point which initialisation gives a node is the one that dispatch needs,
  and that the nodes which access repeated slots stay within the slots.
\<close>

subsection \<open>What initialisation makes of a node\<close>

text \<open>
  A node whose words agree with its entry type, for a number of implementation arguments: the arguments of its method,
  of the generic function of a cache, or those in the properties of a discriminator. Discriminators have an
  initialisation of their own. A node is ready when dispatch can use it.
\<close>

definition ENGINE_first_discriminator :: nat where "ENGINE_first_discriminator = 32"

definition node_keying :: "ENGINE \<Rightarrow> keyed" where
  "node_keying e = (if entry_type e = ENGINE_explicit_keyed_single_method then Explicit
     else if entry_type e = ENGINE_implicit_keyed_single_method then Implicit else Unrestricted)"

definition cache_of :: "call_state \<Rightarrow> D \<Rightarrow> nat \<Rightarrow> bool" where
  "cache_of s d m \<longleftrightarrow> (\<exists>gf g. parent_gf s d = Some gf \<and> GFN_at s gf = Some g \<and> impargs (gf_signature g) = m)"

definition well_typed :: "call_state \<Rightarrow> D \<Rightarrow> ENGINE \<Rightarrow> nat \<Rightarrow> bool" where
  "well_typed s d e m \<longleftrightarrow> (case words e of
     Single_method_node meth nm kws \<Rightarrow> entry_type e \<in> {ENGINE_unkeyed_single_method..ENGINE_unrestricted_keyed_single_method} \<and>
       (\<exists>f. FN_at s meth = Some f \<and> impargs (fn_signature f) = m \<and>
         (entry_type e \<noteq> ENGINE_unkeyed_single_method \<longrightarrow> signature_optionals_p (fn_signature f)))
   | Cache_header_node nxt p \<Rightarrow> entry_type e = ENGINE_cache_header \<and> cache_of s d m
   | Profiling_cache_header_node nxt p c1 c2 \<Rightarrow> entry_type e = ENGINE_profiling_cache_header \<and> cache_of s d m
   | _ \<Rightarrow> ENGINE_first_discriminator \<le> entry_type e \<and> discriminator_impargs e = m \<and> discriminator_argnum e < m)"

definition initialize_node :: "D \<Rightarrow> ENGINE \<Rightarrow> call_state \<Rightarrow> call_state option" where
  "initialize_node d e s =
     (if ENGINE_first_discriminator \<le> entry_type e then primitive_initialize_discriminator d s else primitive_initialize_engine_node d s)"

definition ready :: "call_state \<Rightarrow> D \<Rightarrow> ENGINE \<Rightarrow> nat \<Rightarrow> bool" where
  "ready s d e m \<longleftrightarrow> (case words e of
     Single_method_node meth nm kws \<Rightarrow>
       is_node s d (if entry_type e = ENGINE_unkeyed_single_method then Single_method_engine (small 7 m)
         else Keyed_single_method_engine (node_keying e) (small 6 (m - 1))) (Single_method_node meth nm kws)
   | Cache_header_node nxt p \<Rightarrow> if m \<le> 7 then cache_at s d m nxt else engine_entry_point s d = Some (entry_point e)
   | Profiling_cache_header_node nxt p c1 c2 \<Rightarrow> if m \<le> 7 then cache_at s d m nxt else engine_entry_point s d = Some (entry_point e)
   | _ \<Rightarrow> discriminator_at s d (discriminator_kind (entry_type e)) (discriminator_argnum e) m)"

lemma set_entry_point_ok:
  assumes "ENGINE_at s d = Some e"
  shows "\<exists>s'. set_entry_point d h s = Some s' \<and> ENGINE_at s' d = Some (e\<lparr>entry_point := h (entry_point e)\<rparr>) \<and>
    (\<forall>d'. d' \<noteq> d \<longrightarrow> object_at s' d' = object_at s d')"
proof -
  obtain p where p: "d = Ptr p" "objects s p = Some (Engine e)"
    using assms by (cases d) (auto simp: ENGINE_at_def object_at_def split: option.splits obj.splits)
  then show ?thesis using assms
    by (intro exI [of _ "s\<lparr>objects := (objects s)(p \<mapsto> Engine (e\<lparr>entry_point := h (entry_point e)\<rparr>))\<rparr>"])
      (auto simp: set_entry_point_def ENGINE_at_def object_at_def split: D.splits)
qed

lemma node_at_entry: "ENGINE_at s d = Some (e\<lparr>entry_point := c\<rparr>) \<Longrightarrow> node_at s d (e\<lparr>entry_point := c, words := forget_counts (words e)\<rparr>)"
  by (simp add: node_at_def)

lemma argnum_field: "drop_bit 8 ((w :: mword) AND 0xFF00) = drop_bit 8 w AND 0xFF"
proof -
  have "drop_bit 8 ((w :: mword) AND 0xFF00) = drop_bit 8 w AND drop_bit 8 0xFF00" by (simp only: drop_bit_and)
  also have "drop_bit 8 (0xFF00 :: mword) = 0xFF" by simp
  finally show ?thesis .
qed

lemma initialized_discriminator:
  assumes e: "ENGINE_at s d = Some e" and m: "discriminator_impargs e = m" "discriminator_argnum e < m"
  shows "\<exists>s'. primitive_initialize_discriminator d s = Some s' \<and> discriminator_at s' d (discriminator_kind (entry_type e)) (discriminator_argnum e) m \<and>
    (\<forall>d'. d' \<noteq> d \<longrightarrow> object_at s' d' = object_at s d')"
proof -
  let ?h = "Discriminator_engine (discriminator_kind (entry_type e)) (if m \<le> 7 then Some (discriminator_argnum e + 1, m) else None)"
  have h: "discriminator_handler e = Some ?h"
    using m by (cases "m = 1") (auto simp: discriminator_handler_def Let_def)
  obtain s' where s': "set_entry_point d (\<lambda>old. ?h) s = Some s'" "ENGINE_at s' d = Some (e\<lparr>entry_point := ?h\<rparr>)" "\<forall>d'. d' \<noteq> d \<longrightarrow> object_at s' d' = object_at s d'"
    using set_entry_point_ok [OF e, of "\<lambda>old. ?h"] by blast
  have "unat (drop_bit 8 (properties e) AND 0xFF) = discriminator_argnum e"
    by (simp add: discriminator_argnum_def DPROPS_V_ARGNUM_def DPROPS_M_ARGNUM_def argnum_field)
  then have "discriminator_at s' d (discriminator_kind (entry_type e)) (discriminator_argnum e) m"
    using node_at_entry [OF s'(2)] m(2) unfolding discriminator_at_def by (intro exI conjI) (assumption, simp_all)
  then show ?thesis using e h s' by (simp add: primitive_initialize_discriminator_def)
qed

lemma is_node_entry_set:
  "ENGINE_at s d = Some (e\<lparr>entry_point := c\<rparr>) \<Longrightarrow> forget_counts (words e) = w \<Longrightarrow> is_node s d c w"
  unfolding is_node_def by (drule node_at_entry, intro exI [of _ "e\<lparr>entry_point := c, words := forget_counts (words e)\<rparr>"]) simp

lemma initialized_single:
  assumes e: "ENGINE_at s d = Some e" and w: "words e = Single_method_node meth nm kws"
    and t: "entry_type e \<in> {ENGINE_unkeyed_single_method..ENGINE_unrestricted_keyed_single_method}"
    and f: "FN_at s meth = Some f" "impargs (fn_signature f) = m" "entry_type e \<noteq> ENGINE_unkeyed_single_method \<longrightarrow> signature_optionals_p (fn_signature f)"
  shows "\<exists>s'. primitive_initialize_engine_node d s = Some s' \<and>
    is_node s' d (if entry_type e = ENGINE_unkeyed_single_method then Single_method_engine (small 7 m) else Keyed_single_method_engine (node_keying e) (small 6 (m - 1)))
      (Single_method_node meth nm kws) \<and> (\<forall>d'. d' \<noteq> d \<longrightarrow> object_at s' d' = object_at s d')"
proof -
  let ?h = "if entry_type e = ENGINE_unkeyed_single_method then Single_method_engine (small 7 m) else Keyed_single_method_engine (node_keying e) (small 6 (m - 1))"
  have "entry_type e = 2 \<or> entry_type e = 3 \<or> entry_type e = 4 \<or> entry_type e = 5" using t by auto
  then have h: "engine_node_handler (entry_type e) (fn_signature f) = Some ?h"
    using f(3) unfolding f(2) [symmetric] by (elim disjE) (simp_all add: engine_node_handler_def node_keying_def impargs_def Let_def)
  obtain s' where s': "set_entry_point d (\<lambda>old. ?h) s = Some s'" "ENGINE_at s' d = Some (e\<lparr>entry_point := ?h\<rparr>)" "\<forall>d'. d' \<noteq> d \<longrightarrow> object_at s' d' = object_at s d'"
    using set_entry_point_ok [OF e, of "\<lambda>old. ?h"] by blast
  have "\<not> 6 \<le> entry_type e" using t by simp
  then have "primitive_initialize_engine_node d s = Some s'"
    using e w t f(1) h s'(1) by (simp add: primitive_initialize_engine_node_def Let_def)
  then show ?thesis using s'(3) is_node_entry_set [OF s'(2)] w by simp
qed

lemma initialized_cache:
  assumes e: "ENGINE_at s d = Some e" and g: "cache_of s d m"
    and t: "(entry_type e = ENGINE_cache_header \<and> words e = Cache_header_node nxt p) \<or> (entry_type e = ENGINE_profiling_cache_header \<and> words e = Profiling_cache_header_node nxt p c1 c2)"
  shows "\<exists>s'. primitive_initialize_engine_node d s = Some s' \<and> (if m \<le> 7 then cache_at s' d m nxt else engine_entry_point s' d = Some (entry_point e)) \<and>
    (\<forall>d'. d' \<noteq> d \<longrightarrow> object_at s' d' = object_at s d')"
proof -
  obtain gf g where g: "parent_gf s d = Some gf" "GFN_at s gf = Some g" "impargs (gf_signature g) = m" using g by (auto simp: cache_of_def)
  let ?h = "cache_header_entry_point (entry_type e) m"
  obtain s' where s': "set_entry_point d ?h s = Some s'" "ENGINE_at s' d = Some (e\<lparr>entry_point := ?h (entry_point e)\<rparr>)" "\<forall>d'. d' \<noteq> d \<longrightarrow> object_at s' d' = object_at s d'"
    using set_entry_point_ok [OF e, of ?h] by blast
  have i: "primitive_initialize_engine_node d s = Some s'"
    using t e g s'(1) by (auto simp: primitive_initialize_engine_node_def primitive_enable_cache_header_engine_node_def Let_def)
  show ?thesis
  proof (cases "m \<le> 7")
    case True
    then have "cache_at s' d m nxt"
      using t is_node_entry_set [OF s'(2) refl] unfolding cache_at_def by (auto simp: cache_header_entry_point_def small_def)
    then show ?thesis using True i s'(3) by simp
  next
    case False
    then have "?h (entry_point e) = entry_point e" by (simp add: cache_header_entry_point_def)
    then have "engine_entry_point s' d = Some (entry_point e)" using node_entry [OF node_at_entry [OF s'(2)]] by simp
    then show ?thesis using False i s'(3) by simp
  qed
qed



subsection \<open>Repeated slots\<close>

text \<open>An object with repeated slots: a tagged number of them, and the slots or the bytes behind it.\<close>

definition repeated_object :: "call_state \<Rightarrow> nat \<Rightarrow> D list \<Rightarrow> 8 word list \<Rightarrow> nat \<Rightarrow> mword \<Rightarrow> bool" where
  "repeated_object s p ws bs b n \<longleftrightarrow> objects s p = Some (Instance ws bs) \<and> 0 < b \<and> b \<le> length ws \<and> ws ! (b - 1) = Imm (I n) \<and>
     - (2 ^ 29) \<le> sint n \<and> sint n < 2 ^ 29"

definition in_range :: "mword \<Rightarrow> mword \<Rightarrow> bool" where
  "in_range i n \<longleftrightarrow> 0 \<le> sint i \<and> sint i < sint n"

lemma repeated_size: "repeated_object s p ws bs b n \<Longrightarrow> primitive_repeated_instance_size (Ptr p) b s = Some (sint n)"
  by (auto simp: repeated_object_def primitive_repeated_instance_size_def primitive_initialized_slot_value_def slots_def object_at_def rd_def R_I)

lemma repeated_index_I: "- (2 ^ 29) \<le> sint i \<Longrightarrow> sint i < 2 ^ 29 \<Longrightarrow> repeated_index (Imm (I i)) = Some (sint i)"
  by (simp add: repeated_index_def R_I)

lemma in_range_nat: "in_range i n \<Longrightarrow> nat (sint i) < nat (sint n)"
  by (auto simp: in_range_def)

lemma boxed_repeated_slots:
  assumes e: "ENGINE_at s (Pfunction s) = Some e" "slot_index e = b" and r: "repeated_object s p ws bs b n" and l: "b + nat (sint n) \<le> length ws"
    and i: "- (2 ^ 29) \<le> sint i" "sint i < 2 ^ 29"
  shows "boxed_repeated_instance_slot_setter_engine [x, Ptr p, Imm (I i)] s = Some (
      if in_range i n then Return x (s\<lparr>objects := (objects s)(p \<mapsto> Instance (ws[b + nat (sint i) := x]) bs)\<rparr>)
      else Signal (Repeated_slot_setter_index_out_of_range_trap x (Ptr p) (Imm (I i))))"
    and "boxed_repeated_instance_slot_getter_engine [Ptr p, Imm (I i)] s = Some (
      if in_range i n then if UNBOUND_P (ws ! (b + nat (sint i))) then Signal (Unbound_repeated_slot (Ptr p) (Imm (I i))) else Return (ws ! (b + nat (sint i))) s
      else Signal (Repeated_slot_getter_index_out_of_range_trap (Ptr p) (Imm (I i))))"
proof -
  have o: "objects s p = Some (Instance ws bs)" using r by (simp add: repeated_object_def)
  have lt: "b + nat (sint i) < length ws" if "in_range i n" using in_range_nat [OF that] l by linarith
  show "boxed_repeated_instance_slot_setter_engine [x, Ptr p, Imm (I i)] s = Some (
      if in_range i n then Return x (s\<lparr>objects := (objects s)(p \<mapsto> Instance (ws[b + nat (sint i) := x]) bs)\<rparr>)
      else Signal (Repeated_slot_setter_index_out_of_range_trap x (Ptr p) (Imm (I i))))"
    using e repeated_size [OF r] repeated_index_I [OF i] o lt
    by (auto simp: boxed_repeated_instance_slot_setter_engine_def rd_def Let_def primitive_slot_value_setter_def wr_def in_range_def)
  show "boxed_repeated_instance_slot_getter_engine [Ptr p, Imm (I i)] s = Some (
      if in_range i n then if UNBOUND_P (ws ! (b + nat (sint i))) then Signal (Unbound_repeated_slot (Ptr p) (Imm (I i))) else Return (ws ! (b + nat (sint i))) s
      else Signal (Repeated_slot_getter_index_out_of_range_trap (Ptr p) (Imm (I i))))"
    using e repeated_size [OF r] repeated_index_I [OF i] o lt
    by (auto simp: boxed_repeated_instance_slot_getter_engine_def rd_def Let_def primitive_initialized_slot_value_def slots_def object_at_def in_range_def)
qed

lemma raw_byte_repeated_slots:
  assumes e: "ENGINE_at s (Pfunction s) = Some e" "slot_index e = b" and r: "repeated_object s p ws bs b n" and l: "b = length ws" "nat (sint n) \<le> length bs"
    and i: "- (2 ^ 29) \<le> sint i" "sint i < 2 ^ 29"
  shows "raw_byte_repeated_instance_slot_setter_engine [Imm (C c), Ptr p, Imm (I i)] s = Some (
      if in_range i n then Return (Imm (C c)) (s\<lparr>objects := (objects s)(p \<mapsto> Instance ws (bs[nat (sint i) := ucast (R (C c))]))\<rparr>)
      else Signal (Repeated_slot_setter_index_out_of_range_trap (Imm (C c)) (Ptr p) (Imm (I i))))"
    and "raw_byte_repeated_instance_slot_getter_engine [Ptr p, Imm (I i)] s = Some (
      if in_range i n then Return (Imm (C (ucast (bs ! nat (sint i))))) s
      else Signal (Repeated_slot_getter_index_out_of_range_trap (Ptr p) (Imm (I i))))"
proof -
  have o: "objects s p = Some (Instance ws bs)" using r by (simp add: repeated_object_def)
  have lt: "nat (sint i) < length bs" if "in_range i n" using in_range_nat [OF that] l by linarith
  show "raw_byte_repeated_instance_slot_setter_engine [Imm (C c), Ptr p, Imm (I i)] s = Some (
      if in_range i n then Return (Imm (C c)) (s\<lparr>objects := (objects s)(p \<mapsto> Instance ws (bs[nat (sint i) := ucast (R (C c))]))\<rparr>)
      else Signal (Repeated_slot_setter_index_out_of_range_trap (Imm (C c)) (Ptr p) (Imm (I i))))"
    using e repeated_size [OF r] repeated_index_I [OF i] o lt l(1)
    by (auto simp: raw_byte_repeated_instance_slot_setter_engine_def rd_def Let_def primitive_byte_element_setter_def wr_def in_range_def aver_def)
  show "raw_byte_repeated_instance_slot_getter_engine [Ptr p, Imm (I i)] s = Some (
      if in_range i n then Return (Imm (C (ucast (bs ! nat (sint i))))) s
      else Signal (Repeated_slot_getter_index_out_of_range_trap (Ptr p) (Imm (I i))))"
    using e repeated_size [OF r] repeated_index_I [OF i] o lt l(1)
    by (auto simp: raw_byte_repeated_instance_slot_getter_engine_def rd_def Let_def primitive_byte_element_def object_at_def in_range_def aver_def)
qed


text \<open>Storing in the object keeps the node that does it, and the number of the slots.\<close>

lemma stored_node:
  assumes "ENGINE_at s (Pfunction s) = Some e" and "objects s p = Some (Instance ws bs)"
  shows "ENGINE_at (s\<lparr>objects := (objects s)(p \<mapsto> x)\<rparr>) (Pfunction (s\<lparr>objects := (objects s)(p \<mapsto> x)\<rparr>)) = Some e"
  using assms by (cases "Pfunction s") (auto simp: ENGINE_at_def object_at_def split: option.splits obj.splits)

lemma R_C: "ucast (R (C (ucast (c :: 8 word)))) = c"
  by (rule bit_word_eqI) (auto simp: R_def C_def bit_simps)

definition boxed_accessors_ok :: "call_state \<Rightarrow> nat \<Rightarrow> D list \<Rightarrow> nat \<Rightarrow> mword \<Rightarrow> D \<Rightarrow> mword \<Rightarrow> bool" where
  "boxed_accessors_ok s p ws b n x i \<longleftrightarrow> (let set = boxed_repeated_instance_slot_setter_engine [x, Ptr p, Imm (I i)];
      get = boxed_repeated_instance_slot_getter_engine [Ptr p, Imm (I i)] in
    if in_range i n
    then \<exists>s'. set s = Some (Return x s') \<and> get s' = Some (if UNBOUND_P x then Signal (Unbound_repeated_slot (Ptr p) (Imm (I i))) else Return x s') \<and>
      slots s' (Ptr p) = Some (ws[b + nat (sint i) := x]) \<and> (\<forall>d. d \<noteq> Ptr p \<longrightarrow> object_at s' d = object_at s d)
    else set s = Some (Signal (Repeated_slot_setter_index_out_of_range_trap x (Ptr p) (Imm (I i)))) \<and>
      get s = Some (Signal (Repeated_slot_getter_index_out_of_range_trap (Ptr p) (Imm (I i)))))"

definition byte_accessors_ok :: "call_state \<Rightarrow> nat \<Rightarrow> D list \<Rightarrow> 8 word list \<Rightarrow> mword \<Rightarrow> 8 word \<Rightarrow> mword \<Rightarrow> bool" where
  "byte_accessors_ok s p ws bs n c i \<longleftrightarrow> (let x = Imm (C (ucast c)); set = raw_byte_repeated_instance_slot_setter_engine [x, Ptr p, Imm (I i)];
      get = raw_byte_repeated_instance_slot_getter_engine [Ptr p, Imm (I i)] in
    if in_range i n
    then \<exists>s'. set s = Some (Return x s') \<and> get s' = Some (Return x s') \<and>
      objects s' p = Some (Instance ws (bs[nat (sint i) := c])) \<and> (\<forall>d. d \<noteq> Ptr p \<longrightarrow> object_at s' d = object_at s d)
    else set s = Some (Signal (Repeated_slot_setter_index_out_of_range_trap x (Ptr p) (Imm (I i)))) \<and>
      get s = Some (Signal (Repeated_slot_getter_index_out_of_range_trap (Ptr p) (Imm (I i)))))"

text \<open>
  C20: the accessors of repeated slots stay in bounds. For an index from zero to the number of the slots, which is the
  tagged word before them, the setter changes that slot alone and the getter then returns the value, or signals that it
  is the unbound marker; for every other index both trap and nothing is read or written. So for words, and for bytes,
  which are tagged as characters.
\<close>
theorem repeated_slots_in_bounds:
  assumes e: "ENGINE_at s (Pfunction s) = Some e" "slot_index e = b" and r: "repeated_object s p ws bs b n"
    and i: "- (2 ^ 29) \<le> sint i" "sint i < 2 ^ 29"
  shows "(b + nat (sint n) \<le> length ws \<longrightarrow> boxed_accessors_ok s p ws b n x i) \<and>
    (b = length ws \<and> nat (sint n) \<le> length bs \<longrightarrow> byte_accessors_ok s p ws bs n c i)"
proof (intro conjI impI)
  have o: "objects s p = Some (Instance ws bs)" using r by (simp add: repeated_object_def)
  { assume l: "b + nat (sint n) \<le> length ws"
    let ?s = "s\<lparr>objects := (objects s)(p \<mapsto> Instance (ws[b + nat (sint i) := x]) bs)\<rparr>"
    have r': "repeated_object ?s p (ws[b + nat (sint i) := x]) bs b n" using r by (auto simp: repeated_object_def)
    have l': "b + nat (sint n) \<le> length (ws[b + nat (sint i) := x])" using l by simp
    note G = boxed_repeated_slots(2) [OF stored_node [OF e(1) o] e(2) r' l' i]
    have lt: "b + nat (sint i) < length ws" if "in_range i n" using in_range_nat [OF that] l by linarith
    show "boxed_accessors_ok s p ws b n x i"
      unfolding boxed_accessors_ok_def Let_def boxed_repeated_slots [OF e r l i]
      using G lt by (auto simp: slots_def object_at_def split: D.splits intro!: exI [of _ ?s]) }
  { assume l: "b = length ws \<and> nat (sint n) \<le> length bs"
    let ?s = "s\<lparr>objects := (objects s)(p \<mapsto> Instance ws (bs[nat (sint i) := c]))\<rparr>"
    have r': "repeated_object ?s p ws (bs[nat (sint i) := c]) b n" using r by (auto simp: repeated_object_def)
    have l': "b = length ws" "nat (sint n) \<le> length (bs[nat (sint i) := c])" "nat (sint n) \<le> length bs" using l by simp_all
    note G = raw_byte_repeated_slots(2) [OF stored_node [OF e(1) o] e(2) r' l'(1,2) i]
    have lt: "nat (sint i) < length bs" if "in_range i n" using in_range_nat [OF that] l by linarith
    show "byte_accessors_ok s p ws bs n c i"
      unfolding byte_accessors_ok_def Let_def raw_byte_repeated_slots [OF e r l'(1,3) i] R_C
      using G lt by (auto simp: object_at_def split: D.splits intro!: exI [of _ ?s]) }
qed

theorem repeated_slots_in_bounds_witness:
  "\<exists>s. repeated_object s 70 [Imm (I 2), DTRUE, DFALSE] [] 1 2 \<and> in_range 1 2 \<and> \<not> in_range 2 2 \<and>
    boxed_accessors_ok s 70 [Imm (I 2), DTRUE, DFALSE] 1 2 (Imm 13) 1"
proof -
  let ?e = "\<lparr>properties = 0x10048, callback = 0, entry_point = Boxed_repeated_instance_slot_getter_engine, words = Plain_node\<rparr>"
  let ?s = "sample_state\<lparr>objects := (objects sample_state)(70 \<mapsto> Instance [Imm (I 2), DTRUE, DFALSE] [], 71 \<mapsto> Engine ?e), Pfunction := Ptr 71\<rparr>"
  have r: "repeated_object ?s 70 [Imm (I 2), DTRUE, DFALSE] [] 1 2" by (simp add: repeated_object_def)
  have e: "ENGINE_at ?s (Pfunction ?s) = Some ?e" "slot_index ?e = 1" by (simp_all add: ENGINE_at_def object_at_def slot_index_def SLOTENGINE_V_INDEX_def)
  have "1 + nat (sint (2 :: mword)) \<le> length [Imm (I 2), DTRUE, DFALSE] \<longrightarrow> boxed_accessors_ok ?s 70 [Imm (I 2), DTRUE, DFALSE] 1 2 (Imm 13) 1"
    by (rule repeated_slots_in_bounds [OF e r, THEN conjunct1]) simp_all
  then have "boxed_accessors_ok ?s 70 [Imm (I 2), DTRUE, DFALSE] 1 2 (Imm 13) 1" by simp
  then show ?thesis using r by (intro exI [of _ ?s]) (simp add: in_range_def)
qed

end
