(* ===== verification/Spec2Isabelle.thy ===== *)
theory Spec2Isabelle
  imports Mpm_Words Machine_Word Bit_Table_Find Ring_Heap Block_Queue Hash_Table Splay_Ops Shield Pool_Mfs Sac_Correct Cbs Location_Dependency Dylan_Values Nonlocal_Exit Engine_Nodes
begin

text \<open>
  A verification library for the C code of the Dylan repository: the data structures and the shield of the
  memory pool system (MPS, \<^verbatim>\<open>src/mps/code\<close>), and the run-time of the C back end of the Dylan compiler
  (\<^verbatim>\<open>run-time.c\<close> and \<^verbatim>\<open>run-time.h\<close> in \<^verbatim>\<open>src/fundev/sources/dfmc/c-run-time\<close>) with the code that the back end
  (\<^verbatim>\<open>src/fundev/sources/dfmc/c-back-end\<close>) emits for it.

  \<^bold>\<open>How the parts interact.\<close> In the MPS, arithmetic on words (\<^verbatim>\<open>mpm.c\<close>) is used everywhere. Pools keep
  their free memory in coalescing block structures (\<^verbatim>\<open>cbs.c\<close>): a splay tree (\<^verbatim>\<open>splay.c\<close>) of blocks whose
  descriptors come from a pool of fixed small units (\<^verbatim>\<open>poolmfs.c\<close>), with two emergency lists inside the free
  memory for the time when no descriptor can be had. Pools that find a block too late queue it
  (\<^verbatim>\<open>abq.c\<close>); page tables and mark tables are bit tables (\<^verbatim>\<open>bt.c\<close>); everything that belongs to an arena
  hangs on rings (\<^verbatim>\<open>ring.c\<close>). The shield (\<^verbatim>\<open>shield.c\<close>) keeps the mutator away from memory while the
  collector works on it, and location dependencies (\<^verbatim>\<open>ld.c\<close>) tell hash tables that objects have moved. In
  the run-time, a call goes through the entry points of a function, those of a generic function through
  a graph of engine nodes to a method, which processes its keywords; multiple values travel in an area of
  their own, and exits from blocks through frames on the stack.

  \<^bold>\<open>Conventions.\<close> Words are \<open>32 word\<close>, the platform \<^verbatim>\<open>lii4gc\<close> (32 bits, \<^verbatim>\<open>NO_LONGLONG\<close> undefined); they wrap. A
  program is a value of the option monad: \<open>None\<close> is an assertion (\<^verbatim>\<open>AVER\<close>) that fails or undefined behaviour, so
  a theorem that an operation returns \<open>Some\<close> says that neither can happen. Result codes are \<open>Res\<close>. Loops that
  walk pointers are \<open>partial_function (option)\<close>, hence \<open>None\<close> where they would not end, and their theorems prove
  that they do; there is no fuel. Indices of bit tables and hash tables are natural numbers: a table that fits
  the address space has less than \<open>2 ^ 32\<close> bits or entries. Pointers are words or, where only identity
  matters, natural numbers, and the heap is an explicit map. What depends on code outside the repository or on
  another part (the answers of the arena, the test of a type, compiled code) is an argument.

  \<^bold>\<open>The theories of the MPS.\<close>
  \<^item> \<open>Mps_Prelude\<close>: words, result codes, assertions, arrays, counted loops with early exit, and the collection \<open>run_iff\<close>.
  \<^item> \<open>Mpm_Words\<close> (\<^verbatim>\<open>mpm.c\<close>, \<^verbatim>\<open>mpm.h\<close>): alignment, rounding, logarithms, and the printing of words; the digits read
    back to the word (\<open>WriteWord_roundtrip\<close>).
  \<^item> \<open>Bit_Table\<close>, \<open>Bit_Table_Find\<close> (\<^verbatim>\<open>bt.c\<close>): every operation. The operations that go by words are
    equal to bitwise references; the searches find the range they should, and the writers touch nothing outside it.
  \<^item> \<open>Ring_Heap\<close> (\<^verbatim>\<open>ring.c\<close>, \<^verbatim>\<open>ring.h\<close>): pointers in a heap refine operations on cyclic lists; a
    traversal survives the removal of the current element.
  \<^item> \<open>Block_Queue\<close> (\<^verbatim>\<open>abq.c\<close>): the circular array refines a bounded FIFO (locale \<open>bounded_fifo\<close>).
  \<^item> \<open>Hash_Table\<close> (\<^verbatim>\<open>table.c\<close>): any sequence of operations refines a finite map, growth included.
  \<^item> \<open>Splay_Tree\<close>, \<open>Splay_Ops\<close> (\<^verbatim>\<open>splay.c\<close>): the top-down splay on the heap of nodes keeps the tree and its
    order; insertion, deletion, neighbours and the searches by client property have their specifications on the
    list of nodes in order.
  \<^item> \<open>Pool_Mfs\<close> (\<^verbatim>\<open>poolmfs.c\<close>): units in the hands of clients are disjoint (locale \<open>unit_allocator\<close>).
  \<^item> \<open>Sac\<close>, \<open>Sac_Correct\<close> (\<^verbatim>\<open>sac.c\<close>, macros of \<^verbatim>\<open>mps.h\<close>): caches of free blocks in front of a pool, whose contract is
    the locale \<open>pool_contract\<close>, with \<^verbatim>\<open>MFS\<close> as its model; blocks are conserved.
  \<^item> \<open>Cbs\<close> (\<^verbatim>\<open>cbs.c\<close>, \<^verbatim>\<open>cbs.h\<close>): the representation, insertion and deletion on the models of the splay tree
    and the pool. The theorems on insertion and deletion are for structures that do not use emergency lists.
  \<^item> \<open>Shield\<close> (\<^verbatim>\<open>shield.c\<close>, the fields of \<^verbatim>\<open>global.c\<close>): a state machine whose reachable states keep the invariants that the
    comments of the source number; depths have 4 bits and the cache \<^verbatim>\<open>ShieldCacheSIZE\<close>, 16, entries.
  \<^item> \<open>Location_Dependency\<close> (\<^verbatim>\<open>ld.c\<close>, \<^verbatim>\<open>ref.c\<close>): a dependency that is not reported stale is not stale, whatever
    the collector does between the reads of the query; zone sets of ranges.

  \<^bold>\<open>The theories of the C run-time.\<close>
  \<^item> \<open>Machine_Word\<close>: division in all roundings, on single and double dividends, overflow, shifts, counts of zeros.
  \<^item> \<open>Dylan_Values\<close>: values of type \<^verbatim>\<open>D\<close>, their tags, and the area of multiple values (\<^verbatim>\<open>VALUES_MAX\<close> is 64).
  \<^item> \<open>Nonlocal_Exit\<close>: frames for exits and cleanup clauses and the code emitted for them, against a
    semantics of blocks with exits.
  \<^item> \<open>Dylan_Objects\<close>: signatures, functions, generic functions and engine nodes, and the state of the registers.
  \<^item> \<open>Calling_Convention\<close>, \<open>Method_Calls\<close>: entry points, argument checks, keyword processing and
    application; then what a call of a method does for every list of arguments, errors included. Buffers
    have \<^verbatim>\<open>MAX_ARGUMENTS\<close>, 256, words; at most 64 arguments are passed on; entry points are numbered up to 9.
  \<^item> \<open>Dispatch\<close>, \<open>Dispatch_Correct\<close>, \<open>Engine_Nodes\<close>: entry points of generic functions (up to 7
    implementation arguments are spread), every kind of engine node and its initialisation; a graph of nodes
    that represents a tree of decisions does what the tree decides, and a call of it ends.

  \<^bold>\<open>Not modelled.\<close> The tracer, segments, buffers, the other pools, the arena and its tracts depend on each
  other through tables that lie in the memory they describe and through methods of every pool class.
  Platform code, telemetry, the client interface and the threads of the Dylan run-time are calls
  of the system or wrappers. Printing (\<^verbatim>\<open>...Describe\<close>, \<^verbatim>\<open>WriteF\<close>) has no effect on the state. The debugger nub and the OLE
  libraries are glue to Windows. The compilers and libraries of the repository are written in Dylan;
  only the code that the C back end emits for calls and exits is modelled.
\<close>

end
